(* ===== verification/Dmn_Prelude.thy ===== *)
theory Dmn_Prelude
  imports Main "HOL-Library.Word" "HOL-Library.Multiset"
begin

text \<open>
  Shared vocabulary of the development: the machine integer types, the bounds of
  \<open>std::int64_t\<close>, generic lemmas on lists that the component theories share, and the
  interface \<open>invariant_system\<close> under which every state machine of the library proves
  that an invariant holds in all reachable states.
\<close>

section \<open>Machine integers\<close>

type_synonym u8 = "8 word"
type_synonym u16 = "16 word"
type_synonym u32 = "32 word"
type_synonym u64 = "64 word"

text \<open>
  \<open>std::int64_t\<close> values are modelled by \<open>int\<close>; the bounds are explicit and the only
  signed addition of the modelled code is guarded by a comparison with the maximum.
\<close>

abbreviation INT64_MIN :: int where "INT64_MIN \<equiv> - (2 ^ 63)"
abbreviation INT64_MAX :: int where "INT64_MAX \<equiv> 2 ^ 63 - 1"

definition in_i64 :: "int \<Rightarrow> bool" where
  "in_i64 x \<longleftrightarrow> INT64_MIN \<le> x \<and> x \<le> INT64_MAX"

section \<open>Lists\<close>

lemma sorted_wrt_filterI: "sorted_wrt P xs \<Longrightarrow> sorted_wrt P (filter Q xs)"
  by (induction xs) auto

lemma list_ex_eq_image: "list_ex (\<lambda>x. f x = a) xs \<longleftrightarrow> a \<in> f ` set xs"
  by (induction xs) auto

lemma foldl_max_ge: "(m :: int) \<le> foldl max m xs"
proof (induction xs arbitrary: m)
  case (Cons a xs)
  from Cons [of "max m a"] show ?case by simp
qed simp

lemma foldl_max_member: "x \<in> set xs \<Longrightarrow> (x :: int) \<le> foldl max m xs"
proof (induction xs arbitrary: m)
  case Nil
  then show ?case by simp
next
  case (Cons y ys)
  show ?case
  proof (cases "x = y")
    case True
    then show ?thesis
      using foldl_max_ge [of "max m y" ys] by simp
  next
    case False
    with Cons show ?thesis by simp
  qed
qed

lemma foldl_max_le: "m \<le> b \<Longrightarrow> (\<And>x. x \<in> set xs \<Longrightarrow> x \<le> b) \<Longrightarrow> foldl max m xs \<le> (b :: int)"
  by (induction xs arbitrary: m) auto

lemma foldl_max_less_iff:
  "foldl max m xs < (b :: int) \<longleftrightarrow> m < b \<and> (\<forall>x \<in> set xs. x < b)"
  by (induction xs arbitrary: m) auto

text \<open>
  Insertion into a sorted list before the first element that is not less than the new one, and
  the stable sort built on it: what \<open>std::stable_sort\<close> computes under a strict weak order.
\<close>

fun insertSorted ::
    "('b \<Rightarrow> 'b \<Rightarrow> bool) \<Rightarrow> 'b \<Rightarrow> 'b list \<Rightarrow> 'b list" where
  "insertSorted lt e [] = [e]"
| "insertSorted lt e (x # xs) = (if lt x e then x # insertSorted lt e xs else e # x # xs)"

lemma insertSorted_split:
  "\<exists>a b. xs = a @ b \<and> insertSorted lt e xs = a @ e # b"
proof (induction xs)
  case (Cons x xs)
  then obtain a b where "xs = a @ b" "insertSorted lt e xs = a @ e # b" by blast
  show ?case
  proof (cases "lt x e")
    case True
    with \<open>xs = a @ b\<close> \<open>insertSorted lt e xs = a @ e # b\<close> show ?thesis
      by (intro exI [of _ "x # a"] exI [of _ b]) simp
  next
    case False
    then show ?thesis by (intro exI [of _ "[]"] exI [of _ "x # xs"]) simp
  qed
qed simp

lemma set_insertSorted [simp]: "set (insertSorted lt e xs) = insert e (set xs)"
  using insertSorted_split [of xs lt e] by auto

lemma length_insertSorted [simp]: "length (insertSorted lt e xs) = Suc (length xs)"
  using insertSorted_split [of xs lt e] by auto

lemma insertSorted_left:
  "\<forall>x \<in> set a. lt x e \<Longrightarrow> insertSorted lt e (a @ b) = a @ insertSorted lt e b"
  by (induction a) auto

definition stableSort :: "('b \<Rightarrow> 'b \<Rightarrow> bool) \<Rightarrow> 'b list \<Rightarrow> 'b list" where
  "stableSort lt xs = foldr (insertSorted lt) xs []"

lemma mset_insertSorted [simp]: "mset (insertSorted lt e xs) = add_mset e (mset xs)"
  by (induction xs) auto

lemma mset_stableSort [simp]: "mset (stableSort lt xs) = mset xs"
  by (induction xs) (auto simp: stableSort_def)

lemma set_stableSort [simp]: "set (stableSort lt xs) = set xs"
  using mset_stableSort by (metis set_mset_mset)

lemma length_stableSort [simp]: "length (stableSort lt xs) = length xs"
  using mset_stableSort by (metis size_mset)

lemma insertSorted_front: "\<forall>x \<in> set xs. \<not> lt x e \<Longrightarrow> insertSorted lt e xs = e # xs"
  by (cases xs) auto

lemma stableSort_sorted:
  "sorted_wrt (\<lambda>x y. \<not> lt y x) xs \<Longrightarrow> stableSort lt xs = xs"
  by (induction xs) (auto simp: stableSort_def insertSorted_front)

text \<open>Under a strict weak order the result is sorted.\<close>

lemma sorted_insertSorted_weak:
  assumes "\<And>x y z. \<not> lt y x \<Longrightarrow> \<not> lt z y \<Longrightarrow> \<not> lt z x"
    and "\<And>x y. lt x y \<Longrightarrow> \<not> lt y x"
    and "sorted_wrt (\<lambda>x y. \<not> lt y x) xs"
  shows "sorted_wrt (\<lambda>x y. \<not> lt y x) (insertSorted lt e xs)"
  using assms(3)
proof (induction xs)
  case (Cons a xs)
  show ?case
  proof (cases "lt a e")
    case True
    with Cons assms(2) show ?thesis by auto
  next
    case False
    have "\<not> lt x e" if "x \<in> set xs" for x
      using assms(1) [OF False, of x] Cons.prems that by simp
    with Cons.prems False show ?thesis by simp
  qed
qed simp

lemma stableSort_is_sorted:
  assumes "\<And>x y z. \<not> lt y x \<Longrightarrow> \<not> lt z y \<Longrightarrow> \<not> lt z x"
    and "\<And>x y. lt x y \<Longrightarrow> \<not> lt y x"
  shows "sorted_wrt (\<lambda>x y. \<not> lt y x) (stableSort lt xs)"
proof (induction xs)
  case (Cons x xs)
  then show ?case
    using sorted_insertSorted_weak [OF assms] by (simp add: stableSort_def)
qed (simp add: stableSort_def)

text \<open>A counter that has not reached its last value grows.\<close>

lemma u64_succ_greater: "(x :: u64) \<noteq> - 1 \<Longrightarrow> x < x + 1"
  using inc_less_eq_triv_imp [of x] by (meson not_le)

text \<open>A symmetric pairwise property does not depend on the order.\<close>

lemma sorted_wrt_sym_mset:
  assumes sym: "\<And>x y. P x y \<Longrightarrow> P y x"
  shows "mset xs = mset ys \<Longrightarrow> sorted_wrt P xs \<Longrightarrow> sorted_wrt P ys"
proof (induction ys arbitrary: xs)
  case (Cons y ys)
  then have "y \<in> set xs" by (metis list.set_intros(1) mset_eq_setD)
  then obtain a b where xs: "xs = a @ y # b" by (meson split_list)
  then have "mset (a @ b) = mset ys" using Cons.prems(1) by simp
  moreover have "sorted_wrt P (a @ b)" using Cons.prems(2) by (auto simp: xs sorted_wrt_append)
  ultimately have "sorted_wrt P ys" by (rule Cons.IH)
  moreover have "\<forall>x \<in> set ys. P y x"
    using Cons.prems(2) mset_eq_setD [OF \<open>mset (a @ b) = mset ys\<close>]
    by (auto simp: xs sorted_wrt_append intro: sym)
  ultimately show ?case by simp
qed simp

section \<open>Decimal text\<close>

text \<open>\<open>std::to_string\<close> of an unsigned integer.\<close>

definition digitChar :: "nat \<Rightarrow> char" where
  "digitChar d = char_of (48 + d)"

fun to_string :: "nat \<Rightarrow> string" where
  "to_string n = (if n < 10 then [digitChar n] else to_string (n div 10) @ [digitChar (n mod 10)])"

declare to_string.simps [simp del]

lemma to_string_nonempty [simp]: "to_string n \<noteq> []"
  by (subst to_string.simps) simp

section \<open>Reachable states\<close>

inductive reachable :: "('s \<Rightarrow> bool) \<Rightarrow> ('s \<Rightarrow> 's \<Rightarrow> bool) \<Rightarrow> 's \<Rightarrow> bool"
  for init :: "'s \<Rightarrow> bool" and step :: "'s \<Rightarrow> 's \<Rightarrow> bool" where
  reach_init: "init s \<Longrightarrow> reachable init step s"
| reach_step: "reachable init step s \<Longrightarrow> step s t \<Longrightarrow> reachable init step t"

text \<open>
  The contract between a state machine and the safety properties that rest on it: a start
  condition, a step relation and an invariant that the start establishes and every step
  keeps.
\<close>

locale invariant_system =
  fixes init :: "'s \<Rightarrow> bool"
    and step :: "'s \<Rightarrow> 's \<Rightarrow> bool"
    and inv :: "'s \<Rightarrow> bool"
  assumes inv_init: "init s \<Longrightarrow> inv s"
    and inv_step: "inv s \<Longrightarrow> step s t \<Longrightarrow> inv t"
begin

lemma reachable_inv: "reachable init step s \<Longrightarrow> inv s"
  by (induction rule: reachable.induct) (auto intro: inv_init inv_step)

end

text \<open>
  A forward simulation: every step of the concrete system is some steps of the abstract one, so each
  reachable state has an abstract counterpart that is reachable.
\<close>

locale forward_simulation =
  fixes init :: "'s \<Rightarrow> bool" and step :: "'s \<Rightarrow> 's \<Rightarrow> bool"
    and ainit :: "'a \<Rightarrow> bool" and astep :: "'a \<Rightarrow> 'a \<Rightarrow> bool" and rel :: "'s \<Rightarrow> 'a \<Rightarrow> bool"
  assumes sim_init: "init s \<Longrightarrow> \<exists>a. ainit a \<and> rel s a"
    and sim_step: "rel s a \<Longrightarrow> step s s' \<Longrightarrow> \<exists>a'. astep\<^sup>*\<^sup>* a a' \<and> rel s' a'"
begin

lemma abstract_reachable: "astep\<^sup>*\<^sup>* a a' \<Longrightarrow> reachable ainit astep a \<Longrightarrow> reachable ainit astep a'"
  by (induction rule: rtranclp_induct) (auto intro: reach_step)

lemma simulated: "reachable init step s \<Longrightarrow> \<exists>a. reachable ainit astep a \<and> rel s a"
proof (induction rule: reachable.induct)
  case (reach_init s)
  then show ?case using sim_init by (blast intro: reachable.reach_init)
next
  case (reach_step s t)
  then show ?case using sim_step abstract_reachable by blast
qed

end

end
