(* ===== verification/IntervalRange.thy ===== *)
theory IntervalRange
  imports Dmn_Prelude
begin

text \<open>
  Inclusive interval keys and the topology classifier of the interval B-tree
  (\<open>src/dmn-interval-btree.cpp\<close>, \<open>include/dmn-interval-btree.hpp\<close>):
  \<open>Dmn_IntervalRange\<close>, its validity and overlap tests, the default range order (which is
  also the type's \<open>linorder\<close>), \<open>Dmn_OverlayTopology\<close> and \<open>classifyTopology\<close>, with the
  proof that the sweep over clipped and sorted ranges computes the point-wise coverage
  specification \<open>topology_spec\<close>.
\<close>

section \<open>Ranges\<close>

datatype interval_range = Range (m_start: int) (m_end: int)

definition isValid :: "interval_range \<Rightarrow> bool" where
  "isValid r \<longleftrightarrow> m_start r \<le> m_end r"

definition overlaps :: "interval_range \<Rightarrow> interval_range \<Rightarrow> bool" where
  "overlaps r s \<longleftrightarrow> isValid r \<and> isValid s \<and> m_start r \<le> m_end s \<and> m_start s \<le> m_end r"

definition defaultRangeLess :: "interval_range \<Rightarrow> interval_range \<Rightarrow> bool" where
  "defaultRangeLess lhs rhs \<longleftrightarrow>
     (if m_start lhs \<noteq> m_start rhs then m_start lhs < m_start rhs
      else m_end lhs < m_end rhs)"

instantiation interval_range :: linorder
begin

definition less_interval_range :: "interval_range \<Rightarrow> interval_range \<Rightarrow> bool" where
  "less_interval_range = defaultRangeLess"

definition less_eq_interval_range :: "interval_range \<Rightarrow> interval_range \<Rightarrow> bool" where
  "less_eq_interval_range r s \<longleftrightarrow> r = s \<or> defaultRangeLess r s"

instance
  by standard
    (auto simp: less_interval_range_def less_eq_interval_range_def defaultRangeLess_def
        interval_range.expand split: if_splits)

end

lemma overlaps_sym: "overlaps r s \<longleftrightarrow> overlaps s r"
  by (auto simp: overlaps_def)

lemma overlaps_refl: "isValid r \<Longrightarrow> overlaps r r"
  by (simp add: overlaps_def isValid_def)

lemma overlaps_common_point:
  "isValid r \<Longrightarrow> isValid s \<Longrightarrow>
     overlaps r s \<longleftrightarrow> (\<exists>x. m_start r \<le> x \<and> x \<le> m_end r \<and> m_start s \<le> x \<and> x \<le> m_end s)"
  by (auto simp: overlaps_def isValid_def intro: exI [of _ "max (m_start r) (m_start s)"])

definition range_i64 :: "interval_range \<Rightarrow> bool" where
  "range_i64 r \<longleftrightarrow> in_i64 (m_start r) \<and> in_i64 (m_end r)"

section \<open>Topology classification\<close>

datatype overlay_topology =
    Clear | OverlaidLeft | OverlaidRight | OverlaidBoth | FullyCovered | CoveringExisting

definition clipTo :: "interval_range \<Rightarrow> interval_range \<Rightarrow> interval_range" where
  "clipTo r ov = Range (max (m_start r) (m_start ov)) (min (m_end r) (m_end ov))"

text \<open>
  The loop over the sorted clipped ranges: the running \<open>coveredEnd\<close> and whether coverage is
  still continuous. The successor of \<open>coveredEnd\<close> is only formed below the maximum.
\<close>

fun scanCoverage :: "interval_range list \<Rightarrow> int \<Rightarrow> bool \<Rightarrow> int \<times> bool" where
  "scanCoverage [] coveredEnd continuous = (coveredEnd, continuous)"
| "scanCoverage (nxt # rest) coveredEnd continuous =
     scanCoverage rest (max coveredEnd (m_end nxt))
       (if coveredEnd \<noteq> INT64_MAX \<and> m_start nxt > coveredEnd + 1 then False else continuous)"

definition hasContainedRange :: "interval_range \<Rightarrow> interval_range list \<Rightarrow> bool" where
  "hasContainedRange r ovs \<longleftrightarrow> list_ex (\<lambda>ov. m_start r < m_start ov \<and> m_end ov < m_end r) ovs"

definition classifyTopology ::
    "interval_range \<Rightarrow> interval_range list \<Rightarrow> overlay_topology" where
  "classifyTopology r ovs =
     (if ovs = [] then Clear
      else
        let clipped = sort (map (clipTo r) ovs);
            leftCovered = (m_start (hd clipped) = m_start r);
            (coveredEnd, continuous) =
              scanCoverage (tl clipped) (m_end (hd clipped)) leftCovered;
            rightCovered = (coveredEnd = m_end r);
            overlapStart = foldl min (m_start (hd ovs)) (map m_start ovs);
            overlapEnd = foldl max (m_end (hd ovs)) (map m_end ovs)
        in if continuous \<and> rightCovered then FullyCovered
           else if hasContainedRange r ovs \<and> m_start r < overlapStart \<and> overlapEnd < m_end r
             then CoveringExisting
           else if leftCovered \<and> rightCovered then OverlaidBoth
           else if leftCovered then OverlaidLeft
           else if rightCovered then OverlaidRight
           else Clear)"

subsection \<open>The specification: which points are covered\<close>

definition covers :: "interval_range list \<Rightarrow> int \<Rightarrow> bool" where
  "covers ovs x \<longleftrightarrow> (\<exists>ov \<in> set ovs. m_start ov \<le> x \<and> x \<le> m_end ov)"

definition topology_spec :: "interval_range \<Rightarrow> interval_range list \<Rightarrow> overlay_topology" where
  "topology_spec r ovs =
     (if ovs = [] then Clear
      else if (\<forall>x. m_start r \<le> x \<and> x \<le> m_end r \<longrightarrow> covers ovs x) then FullyCovered
      else if covers ovs (m_start r) then
        (if covers ovs (m_end r) then OverlaidBoth else OverlaidLeft)
      else if covers ovs (m_end r) then OverlaidRight
      else CoveringExisting)"

subsection \<open>The sweep computes the specification\<close>

lemma scanCoverage_fst: "fst (scanCoverage rs ce ok) = foldl max ce (map m_end rs)"
  by (induction rs ce ok rule: scanCoverage.induct) simp_all

lemma scanCoverage_ok: "snd (scanCoverage rs ce ok) \<Longrightarrow> ok"
  by (induction rs ce ok rule: scanCoverage.induct) (auto split: if_splits)

lemma scanCoverage_sound:
  assumes "snd (scanCoverage rs ce ok)" and "\<forall>r \<in> set rs. m_end r \<le> INT64_MAX"
    and "ce < x" and "x \<le> fst (scanCoverage rs ce ok)" and "ce \<le> INT64_MAX"
  shows "covers rs x"
  using assms
proof (induction rs ce ok rule: scanCoverage.induct)
  case (1 ce ok)
  then show ?case by simp
next
  case (2 nxt rest ce ok)
  have gap: "\<not> (ce \<noteq> INT64_MAX \<and> m_start nxt > ce + 1)"
    using "2.prems"(1) by (auto dest: scanCoverage_ok split: if_splits)
  show ?case
  proof (cases "x \<le> m_end nxt")
    case True
    moreover have "m_start nxt \<le> x"
      using gap "2.prems"(3,5) True "2.prems"(2) by auto
    ultimately show ?thesis by (auto simp: covers_def)
  next
    case False
    with "2.prems" gap have "covers rest x"
      by (intro "2.IH") auto
    then show ?thesis by (auto simp: covers_def)
  qed
qed

lemma scanCoverage_complete:
  assumes "ok" and "sorted_wrt (\<lambda>a b. m_start a \<le> m_start b) rs"
    and "\<forall>r \<in> set rs. m_start r \<le> m_end r \<and> m_end r \<le> INT64_MAX"
    and "\<forall>x. ce < x \<and> x \<le> fst (scanCoverage rs ce ok) \<longrightarrow> covers rs x"
  shows "snd (scanCoverage rs ce ok)"
  using assms
proof (induction rs ce ok rule: scanCoverage.induct)
  case (1 ce ok)
  then show ?case by simp
next
  case (2 nxt rest ce ok)
  let ?total = "foldl max (max ce (m_end nxt)) (map m_end rest)"
  have total: "fst (scanCoverage (nxt # rest) ce ok) = ?total"
    by (simp add: scanCoverage_fst)
  have end_le: "m_end nxt \<le> ?total"
    using foldl_max_ge [of "max ce (m_end nxt)" "map m_end rest"] by simp
  have gap: "\<not> m_start nxt > ce + 1"
  proof
    assume far: "m_start nxt > ce + 1"
    have "ce + 1 \<le> ?total"
      using far end_le "2.prems"(3) by (auto intro: order_trans)
    with "2.prems"(4) total have "covers (nxt # rest) (ce + 1)" by simp
    then obtain r where r: "r \<in> set (nxt # rest)" "m_start r \<le> ce + 1"
      by (auto simp: covers_def)
    with "2.prems"(2) have "m_start nxt \<le> m_start r" by auto
    with r far show False by simp
  qed
  have cov: "\<forall>x. max ce (m_end nxt) < x \<and> x \<le> ?total \<longrightarrow> covers rest x"
  proof (intro allI impI)
    fix x assume x: "max ce (m_end nxt) < x \<and> x \<le> ?total"
    with "2.prems"(4) total have "covers (nxt # rest) x" by simp
    with x show "covers rest x" by (auto simp: covers_def)
  qed
  with gap "2.prems"(1,2,3) "2.IH" show ?case
    by (auto simp: scanCoverage_fst)
qed

text \<open>Clipping to the candidate keeps exactly the covered points of the candidate.\<close>

definition inside :: "interval_range \<Rightarrow> interval_range list \<Rightarrow> bool" where
  "inside r cs \<longleftrightarrow>
     (\<forall>c \<in> set cs. m_start r \<le> m_start c \<and> m_start c \<le> m_end c \<and> m_end c \<le> m_end r)"

lemma inside_clipped: "\<forall>ov \<in> set ovs. overlaps ov r \<Longrightarrow> inside r (map (clipTo r) ovs)"
  by (auto simp: inside_def clipTo_def overlaps_def isValid_def)

lemma covers_clipped:
  "m_start r \<le> x \<Longrightarrow> x \<le> m_end r \<Longrightarrow> covers (map (clipTo r) ovs) x \<longleftrightarrow> covers ovs x"
  by (auto simp: covers_def clipTo_def)

lemma foldl_max_mem: "foldl max m xs = m \<or> foldl max m xs \<in> set (xs :: int list)"
  by (induction xs arbitrary: m) (auto simp: max_def)

lemma foldl_min_le_iff: "foldl min m xs \<le> (b :: int) \<longleftrightarrow> m \<le> b \<or> (\<exists>x \<in> set xs. x \<le> b)"
  by (induction xs arbitrary: m) (auto simp: min_le_iff_disj)

text \<open>The facts about the sorted clipped list that the three boundary tests read off.\<close>

definition sweep_input :: "interval_range \<Rightarrow> interval_range \<Rightarrow> interval_range list \<Rightarrow> bool" where
  "sweep_input r c cs \<longleftrightarrow>
     inside r (c # cs) \<and> sorted_wrt (\<lambda>a b. m_start a \<le> m_start b) (c # cs) \<and> m_end r \<le> INT64_MAX"

lemma sweep_inputD:
  assumes "sweep_input r c cs"
  shows "inside r (c # cs)"
    and "sorted_wrt (\<lambda>a b. m_start a \<le> m_start b) (c # cs)"
    and "m_end r \<le> INT64_MAX"
  using assms by (auto simp: sweep_input_def)

lemma sweep_left:
  assumes input: "sweep_input r c cs"
  shows "m_start c = m_start r \<longleftrightarrow> covers (c # cs) (m_start r)"
  using sweep_inputD(1,2) [OF input] by (force simp: covers_def inside_def)

lemma sweep_right:
  assumes input: "sweep_input r c cs"
  shows "fst (scanCoverage cs (m_end c) ok) = m_end r \<longleftrightarrow> covers (c # cs) (m_end r)"
proof
  note ins = sweep_inputD(1) [OF input]
  assume "fst (scanCoverage cs (m_end c) ok) = m_end r"
  then have "m_end r \<in> m_end ` set (c # cs)"
    using foldl_max_mem [of "m_end c" "map m_end cs"] by (auto simp: scanCoverage_fst)
  then show "covers (c # cs) (m_end r)"
    using ins by (force simp: covers_def inside_def)
next
  note ins = sweep_inputD(1) [OF input]
  assume "covers (c # cs) (m_end r)"
  then obtain d where d: "d \<in> set (c # cs)" "m_end r \<le> m_end d"
    by (auto simp: covers_def)
  have "m_end d \<le> foldl max (m_end c) (map m_end cs)"
    using d(1) by (auto intro: foldl_max_ge foldl_max_member)
  moreover have "foldl max (m_end c) (map m_end cs) \<le> m_end r"
    using ins by (intro foldl_max_le) (auto simp: inside_def)
  ultimately show "fst (scanCoverage cs (m_end c) ok) = m_end r"
    using d(2) by (simp add: scanCoverage_fst)
qed

lemma sweep_full:
  assumes input: "sweep_input r c cs"
  shows "snd (scanCoverage cs (m_end c) (m_start c = m_start r)) \<and>
     fst (scanCoverage cs (m_end c) (m_start c = m_start r)) = m_end r \<longleftrightarrow>
   (\<forall>x. m_start r \<le> x \<and> x \<le> m_end r \<longrightarrow> covers (c # cs) x)" (is "?scan \<longleftrightarrow> ?all")
proof
  note ins = sweep_inputD(1) [OF input] and bound = sweep_inputD(3) [OF input]
  assume scan: ?scan
  show ?all
  proof (intro allI impI)
    fix x assume x: "m_start r \<le> x \<and> x \<le> m_end r"
    show "covers (c # cs) x"
    proof (cases "x \<le> m_end c")
      case True
      with scan x show ?thesis by (auto simp: covers_def dest: scanCoverage_ok)
    next
      case False
      with scan x ins bound have "covers cs x"
        by (intro scanCoverage_sound [of cs "m_end c" "m_start c = m_start r"])
          (auto simp: inside_def)
      then show ?thesis by (auto simp: covers_def)
    qed
  qed
next
  note ins = sweep_inputD(1) [OF input] and srt = sweep_inputD(2) [OF input]
    and bound = sweep_inputD(3) [OF input]
  assume all: ?all
  have ord: "m_start r \<le> m_end r" using ins by (auto simp: inside_def)
  have right: "fst (scanCoverage cs (m_end c) (m_start c = m_start r)) = m_end r"
    using all ord by (simp add: sweep_right [OF input])
  have left: "m_start c = m_start r"
    using all ord by (simp add: sweep_left [OF input])
  have "\<forall>x. m_end c < x \<and> x \<le> m_end r \<longrightarrow> covers cs x"
  proof (intro allI impI)
    fix x assume x: "m_end c < x \<and> x \<le> m_end r"
    with ins have "m_start r \<le> x" by (auto simp: inside_def)
    with all x have "covers (c # cs) x" by simp
    with x show "covers cs x" by (auto simp: covers_def)
  qed
  then have "snd (scanCoverage cs (m_end c) (m_start c = m_start r))"
    using ins srt bound left right
    by (intro scanCoverage_complete) (auto simp: inside_def)
  with right show ?scan by simp
qed

lemma contained_iff_boundaries_open:
  assumes ovs: "ovs \<noteq> []" and ov: "\<forall>ov \<in> set ovs. overlaps ov r"
  shows "hasContainedRange r ovs \<and> m_start r < foldl min (m_start (hd ovs)) (map m_start ovs) \<and>
           foldl max (m_end (hd ovs)) (map m_end ovs) < m_end r \<longleftrightarrow>
         \<not> covers ovs (m_start r) \<and> \<not> covers ovs (m_end r)" (is "?code \<longleftrightarrow> ?spec")
proof -
  have lt: "m_start r < foldl min (m_start (hd ovs)) (map m_start ovs) \<longleftrightarrow>
      (\<forall>o' \<in> set ovs. m_start r < m_start o')"
    using foldl_min_le_iff [of "m_start (hd ovs)" "map m_start ovs" "m_start r"] ovs
    by (auto simp: not_le [symmetric])
  have gt: "foldl max (m_end (hd ovs)) (map m_end ovs) < m_end r \<longleftrightarrow>
      (\<forall>o' \<in> set ovs. m_end o' < m_end r)"
    using ovs by (auto simp: foldl_max_less_iff)
  have "?code \<longleftrightarrow> (\<forall>o' \<in> set ovs. m_start r < m_start o' \<and> m_end o' < m_end r)"
    unfolding lt gt using ovs by (auto simp: hasContainedRange_def list_ex_iff neq_Nil_conv)
  also have "\<dots> \<longleftrightarrow> ?spec"
    using ov by (force simp: covers_def overlaps_def isValid_def)
  finally show ?thesis .
qed

lemma classifyTopology_sweep:
  assumes ov: "\<forall>ov \<in> set ovs. overlaps ov r" and bound: "range_i64 r"
  shows "classifyTopology r ovs = topology_spec r ovs"
proof (cases "ovs = []")
  case True
  then show ?thesis by (simp add: classifyTopology_def topology_spec_def)
next
  case False
  define cl where "cl = sort (map (clipTo r) ovs)"
  from False have "cl \<noteq> []" by (auto simp: cl_def dest: arg_cong [of _ _ length])
  then obtain c cs where cl: "cl = c # cs" by (cases cl) auto
  have ins: "inside r (c # cs)"
    using inside_clipped [OF ov] by (simp add: inside_def cl_def flip: cl)
  have "sorted (c # cs)" by (simp add: cl_def flip: cl)
  then have srt: "sorted_wrt (\<lambda>a b. m_start a \<le> m_start b) (c # cs)"
    by (rule sorted_wrt_mono_rel [rotated])
      (auto simp: less_eq_interval_range_def defaultRangeLess_def split: if_splits)
  have ub: "m_end r \<le> INT64_MAX" using bound by (simp add: range_i64_def in_i64_def)
  have ord: "m_start r \<le> m_end r" using ov False by (auto simp: overlaps_def isValid_def neq_Nil_conv)
  have cov: "covers (c # cs) x \<longleftrightarrow> covers ovs x" if "m_start r \<le> x" "x \<le> m_end r" for x
    using covers_clipped [OF that] by (simp add: covers_def cl_def flip: cl)
  have input: "sweep_input r c cs" using ins srt ub by (simp only: sweep_input_def)
  obtain ce ok where scan: "scanCoverage cs (m_end c) (m_start c = m_start r) = (ce, ok)"
    by fastforce
  have left: "m_start c = m_start r \<longleftrightarrow> covers ovs (m_start r)"
    using sweep_left [OF input] cov ord by simp
  have right: "ce = m_end r \<longleftrightarrow> covers ovs (m_end r)"
    using sweep_right [OF input, of "m_start c = m_start r"] cov ord scan by simp
  have full: "ok \<and> ce = m_end r \<longleftrightarrow>
      (\<forall>x. m_start r \<le> x \<and> x \<le> m_end r \<longrightarrow> covers ovs x)"
    using sweep_full [OF input] cov scan by auto
  note strict = contained_iff_boundaries_open [OF False ov]
  have code: "classifyTopology r ovs =
     (if ok \<and> ce = m_end r then FullyCovered
      else if \<not> covers ovs (m_start r) \<and> \<not> covers ovs (m_end r) then CoveringExisting
      else if m_start c = m_start r \<and> ce = m_end r then OverlaidBoth
      else if m_start c = m_start r then OverlaidLeft
      else if ce = m_end r then OverlaidRight else Clear)"
    unfolding classifyTopology_def Let_def cl_def [symmetric] cl list.sel scan prod.case strict
    using False by simp
  show ?thesis
    unfolding code full unfolding left right using False by (simp add: topology_spec_def)
qed

text \<open>
  C19: the single sweep over the sorted, clipped overlaps computes the topology that the covered
  points define: no overlap is clear, every point covered is fully covered, and otherwise the
  covered ends decide between left, right, both and an inner overlap.  The sweep never leaves
  the signed 64-bit range, even at its ends.
\<close>

theorem classifyTopology_sound:
  assumes "\<forall>ov \<in> set ovs. overlaps ov r" and "range_i64 r"
  shows "classifyTopology r ovs = topology_spec r ovs"
  by (rule classifyTopology_sweep [OF assms])

theorem classifyTopology_sound_witness:
  "classifyTopology (Range 1 9) [Range 0 4, Range 5 20] = topology_spec (Range 1 9) [Range 0 4, Range 5 20]"
  by (rule classifyTopology_sound) (simp_all add: overlaps_def isValid_def range_i64_def in_i64_def)

end
