(* ===== verification/IntervalNode.thy ===== *)
theory IntervalNode
  imports IntervalRange
begin

text \<open>
  Entries, nodes and the structural operations of the degree-2 B-tree
  (\<open>include/dmn-interval-btree.hpp\<close>, the private part of \<open>Dmn_IntervalBTree\<close>): canonical
  order, in-order collection, refreshing of \<open>m_subtreeMaxEnd\<close>, splitting, borrowing, merging,
  insertion into a non-full node, removal of the extreme entry and of a target entry, and the
  two pruned overlap traversals.  An out-of-range access of a vector is the value \<open>None\<close>;
  pointer identity of entries is equality of insertion ordinals, which the tree keeps
  distinct.  The recursions that mutate carry fuel; the height of the tree is enough, as
  \<open>insertNonFull_step\<close>, \<open>removeMaximum_correct\<close>, \<open>removeMinimum_correct\<close> and
  \<open>eraseEntryNode_step\<close> of \<open>IntervalNodeShape\<close> prove.
\<close>

section \<open>State\<close>

record overlay_state =
  m_topology :: overlay_topology
  m_isTop :: bool

text \<open>
  \<open>'a\<close> is the payload type and \<open>'c\<close> the type of state-change callbacks (a closure together
  with its context).
\<close>

record ('a, 'c) entry =
  m_range :: interval_range
  m_value :: 'a
  m_ordinal :: u64
  m_onStateChange :: "'c option"
  m_callbackRegistrationId :: u64
  m_state :: overlay_state

datatype ('a, 'c) node =
  Node (m_entries: "('a, 'c) entry list") (m_children: "('a, 'c) node list")
    (m_subtreeMaxEnd: int) (m_isLeaf: bool)

abbreviation s_minimumDegree :: nat where "s_minimumDegree \<equiv> 2"

definition emptyNode :: "('a, 'c) node" where
  "emptyNode = Node [] [] INT64_MIN True"

type_synonym canonical_comparator = "(interval_range \<Rightarrow> interval_range \<Rightarrow> bool) option"

definition entryLess ::
    "canonical_comparator \<Rightarrow> ('a, 'c) entry \<Rightarrow> ('a, 'c) entry \<Rightarrow> bool" where
  "entryLess cmp lhs rhs =
     (let identicalRanges =
            m_start (m_range lhs) = m_start (m_range rhs) \<and>
            m_end (m_range lhs) = m_end (m_range rhs)
      in if identicalRanges then m_ordinal lhs < m_ordinal rhs
         else (case cmp of
                 Some cless \<Rightarrow>
                   if cless (m_range lhs) (m_range rhs) then True
                   else if cless (m_range rhs) (m_range lhs) then False
                   else defaultRangeLess (m_range lhs) (m_range rhs)
               | None \<Rightarrow> defaultRangeLess (m_range lhs) (m_range rhs)))"

section \<open>Traversal and metadata\<close>

text \<open>
  The interior case of \<open>collectEntriesInOrder\<close>: child, entry, child, \<dots>, and the last child
  (\<open>m_children.back()\<close>) after the loop over the entries.
\<close>

fun interleave :: "'b list list \<Rightarrow> 'b list \<Rightarrow> 'b list" where
  "interleave (c # cs) (e # es) = c @ e # interleave cs es"
| "interleave cs [] = (if cs = [] then [] else last cs)"
| "interleave [] (e # es) = []"

fun collectEntriesInOrder :: "('a, 'c) node \<Rightarrow> ('a, 'c) entry list" where
  "collectEntriesInOrder (Node es cs m l) =
     (if l then es else interleave (map collectEntriesInOrder cs) es)"

definition maxEndOf :: "('a, 'c) entry list \<Rightarrow> ('a, 'c) node list \<Rightarrow> int" where
  "maxEndOf es cs =
     foldl max (foldl max INT64_MIN (map (\<lambda>e. m_end (m_range e)) es)) (map m_subtreeMaxEnd cs)"

definition refreshNodeMaxEnd :: "('a, 'c) node \<Rightarrow> ('a, 'c) node" where
  "refreshNodeMaxEnd n =
     Node (m_entries n) (m_children n) (maxEndOf (m_entries n) (m_children n)) (m_isLeaf n)"

text \<open>
  The common tail of every descent: run \<open>f\<close> on \<open>m_children[j]\<close>, store the changed child and
  refresh the node.
\<close>

definition withChild ::
    "(('a, 'c) node \<Rightarrow> ('a, 'c) node option) \<Rightarrow> ('a, 'c) node \<Rightarrow> nat \<Rightarrow> ('a, 'c) node option" where
  "withChild f n j =
     (if j < length (m_children n) then
        (case f (m_children n ! j) of
           None \<Rightarrow> None
         | Some c \<Rightarrow>
             Some (refreshNodeMaxEnd
               (Node (m_entries n) ((m_children n)[j := c]) (m_subtreeMaxEnd n) (m_isLeaf n))))
      else None)"

definition withChildEntry ::
    "(('a, 'c) node \<Rightarrow> (('a, 'c) entry \<times> ('a, 'c) node) option) \<Rightarrow> ('a, 'c) node \<Rightarrow> nat \<Rightarrow>
     (('a, 'c) entry \<times> ('a, 'c) node) option" where
  "withChildEntry f n j =
     (if j < length (m_children n) then
        (case f (m_children n ! j) of
           None \<Rightarrow> None
         | Some (e, c) \<Rightarrow>
             Some (e, refreshNodeMaxEnd
               (Node (m_entries n) ((m_children n)[j := c]) (m_subtreeMaxEnd n) (m_isLeaf n))))
      else None)"

section \<open>Insertion\<close>

definition splitChild :: "('a, 'c) node \<Rightarrow> nat \<Rightarrow> ('a, 'c) node option" where
  "splitChild parent i =
     (if i < length (m_children parent) \<and> i \<le> length (m_entries parent) then
        let child = m_children parent ! i;
            es = m_entries child;
            cs = m_children child
        in if 2 * s_minimumDegree - 1 \<le> length es \<and>
              (m_isLeaf child \<or> s_minimumDegree \<le> length cs) then
             let maxKeys = 2 * s_minimumDegree - 1;
                 sibling =
                   Node (take (maxKeys - s_minimumDegree) (drop s_minimumDegree es))
                     (if m_isLeaf child then [] else drop s_minimumDegree cs)
                     INT64_MIN (m_isLeaf child);
                 promoted = es ! (s_minimumDegree - 1);
                 child' =
                   Node (take (s_minimumDegree - 1) es)
                     (if m_isLeaf child then cs else take s_minimumDegree cs)
                     (m_subtreeMaxEnd child) (m_isLeaf child)
             in Some (refreshNodeMaxEnd
                  (Node (take i (m_entries parent) @ promoted # drop i (m_entries parent))
                    (take i (m_children parent) @
                       refreshNodeMaxEnd child' # refreshNodeMaxEnd sibling #
                       drop (Suc i) (m_children parent))
                    (m_subtreeMaxEnd parent) False))
           else None
      else None)"

text \<open>The backward scan for the insertion index.\<close>

fun scanBack ::
    "(('a, 'c) entry \<Rightarrow> ('a, 'c) entry \<Rightarrow> bool) \<Rightarrow> ('a, 'c) entry \<Rightarrow> ('a, 'c) entry list \<Rightarrow>
     nat \<Rightarrow> nat" where
  "scanBack lt e es 0 = 0"
| "scanBack lt e es (Suc i) = (if lt e (es ! i) then scanBack lt e es i else Suc i)"

definition splitFullChild ::
    "(('a, 'c) entry \<Rightarrow> ('a, 'c) entry \<Rightarrow> bool) \<Rightarrow> ('a, 'c) node \<Rightarrow> nat \<Rightarrow> ('a, 'c) entry \<Rightarrow>
     (('a, 'c) node \<times> nat) option" where
  "splitFullChild lt n i e =
     (if length (m_entries (m_children n ! i)) = 2 * s_minimumDegree - 1 then
        (case splitChild n i of
           None \<Rightarrow> None
         | Some n' \<Rightarrow> Some (n', if lt (m_entries n' ! i) e then Suc i else i))
      else Some (n, i))"

fun insertNonFull ::
    "(('a, 'c) entry \<Rightarrow> ('a, 'c) entry \<Rightarrow> bool) \<Rightarrow> nat \<Rightarrow> ('a, 'c) node \<Rightarrow> ('a, 'c) entry \<Rightarrow>
     ('a, 'c) node option" where
  "insertNonFull lt 0 n e = None"
| "insertNonFull lt (Suc fuel) n e =
     (let i = scanBack lt e (m_entries n) (length (m_entries n)) in
      if m_isLeaf n then
        Some (refreshNodeMaxEnd
          (Node (take i (m_entries n) @ e # drop i (m_entries n)) (m_children n)
            (m_subtreeMaxEnd n) (m_isLeaf n)))
      else if i < length (m_children n) then
        (case splitFullChild lt n i e of
           None \<Rightarrow> None
         | Some (n', j) \<Rightarrow> withChild (\<lambda>c. insertNonFull lt fuel c e) n' j)
      else None)"

section \<open>Rebalancing\<close>

definition borrowFromPrevious :: "('a, 'c) node \<Rightarrow> nat \<Rightarrow> ('a, 'c) node option" where
  "borrowFromPrevious parent i =
     (if 0 < i \<and> i < length (m_children parent) \<and> i \<le> length (m_entries parent) then
        let child = m_children parent ! i;
            sibling = m_children parent ! (i - 1)
        in if m_entries sibling \<noteq> [] \<and> (m_isLeaf child \<or> m_children sibling \<noteq> []) then
             let child' =
                   Node (m_entries parent ! (i - 1) # m_entries child)
                     (if m_isLeaf child then m_children child
                      else last (m_children sibling) # m_children child)
                     (m_subtreeMaxEnd child) (m_isLeaf child);
                 sibling' =
                   Node (butlast (m_entries sibling))
                     (if m_isLeaf child then m_children sibling
                      else butlast (m_children sibling))
                     (m_subtreeMaxEnd sibling) (m_isLeaf sibling)
             in Some (refreshNodeMaxEnd
                  (Node ((m_entries parent)[i - 1 := last (m_entries sibling)])
                    ((m_children parent)
                       [i := refreshNodeMaxEnd child', i - 1 := refreshNodeMaxEnd sibling'])
                    (m_subtreeMaxEnd parent) (m_isLeaf parent)))
           else None
      else None)"

definition borrowFromNext :: "('a, 'c) node \<Rightarrow> nat \<Rightarrow> ('a, 'c) node option" where
  "borrowFromNext parent i =
     (if Suc i < length (m_children parent) \<and> i < length (m_entries parent) then
        let child = m_children parent ! i;
            sibling = m_children parent ! Suc i
        in if m_entries sibling \<noteq> [] \<and> (m_isLeaf child \<or> m_children sibling \<noteq> []) then
             let child' =
                   Node (m_entries child @ [m_entries parent ! i])
                     (if m_isLeaf child then m_children child
                      else m_children child @ [hd (m_children sibling)])
                     (m_subtreeMaxEnd child) (m_isLeaf child);
                 sibling' =
                   Node (tl (m_entries sibling))
                     (if m_isLeaf child then m_children sibling
                      else tl (m_children sibling))
                     (m_subtreeMaxEnd sibling) (m_isLeaf sibling)
             in Some (refreshNodeMaxEnd
                  (Node ((m_entries parent)[i := hd (m_entries sibling)])
                    ((m_children parent)
                       [i := refreshNodeMaxEnd child', Suc i := refreshNodeMaxEnd sibling'])
                    (m_subtreeMaxEnd parent) (m_isLeaf parent)))
           else None
      else None)"

definition mergeChildren :: "('a, 'c) node \<Rightarrow> nat \<Rightarrow> ('a, 'c) node option" where
  "mergeChildren parent i =
     (if Suc i < length (m_children parent) \<and> i < length (m_entries parent) then
        let left = m_children parent ! i;
            right = m_children parent ! Suc i;
            left' =
              Node (m_entries left @ [m_entries parent ! i] @ m_entries right)
                (if m_isLeaf left then m_children left else m_children left @ m_children right)
                (m_subtreeMaxEnd left) (m_isLeaf left)
        in Some (refreshNodeMaxEnd
             (Node (take i (m_entries parent) @ drop (Suc i) (m_entries parent))
               (take i (m_children parent) @
                  refreshNodeMaxEnd left' # drop (Suc (Suc i)) (m_children parent))
               (m_subtreeMaxEnd parent) (m_isLeaf parent)))
      else None)"

section \<open>Removal\<close>

text \<open>Before descending into the last child, \<open>removeMaximum\<close> gives it a spare entry.\<close>

definition prepareLast :: "('a, 'c) node \<Rightarrow> (('a, 'c) node \<times> nat) option" where
  "prepareLast n =
     (let i = length (m_children n) - 1 in
      if length (m_entries (m_children n ! i)) = s_minimumDegree - 1 then
        if 0 < i \<and> s_minimumDegree \<le> length (m_entries (m_children n ! (i - 1))) then
          map_option (\<lambda>n'. (n', i)) (borrowFromPrevious n i)
        else if 0 < i then map_option (\<lambda>n'. (n', i - 1)) (mergeChildren n (i - 1))
        else Some (n, i)
      else Some (n, i))"

fun removeMaximum ::
    "nat \<Rightarrow> ('a, 'c) node \<Rightarrow> (('a, 'c) entry \<times> ('a, 'c) node) option" where
  "removeMaximum 0 n = None"
| "removeMaximum (Suc fuel) n =
     (if m_isLeaf n then
        (if m_entries n = [] then None
         else Some (last (m_entries n), refreshNodeMaxEnd
           (Node (butlast (m_entries n)) (m_children n) (m_subtreeMaxEnd n) (m_isLeaf n))))
      else if m_children n = [] then None
      else (case prepareLast n of
              None \<Rightarrow> None
            | Some (n', j) \<Rightarrow> withChildEntry (removeMaximum fuel) n' j))"

definition prepareFirst :: "('a, 'c) node \<Rightarrow> ('a, 'c) node option" where
  "prepareFirst n =
     (if length (m_entries (m_children n ! 0)) = s_minimumDegree - 1 then
        if 1 < length (m_children n) \<and> s_minimumDegree \<le> length (m_entries (m_children n ! 1))
        then borrowFromNext n 0
        else if 1 < length (m_children n) then mergeChildren n 0
        else Some n
      else Some n)"

fun removeMinimum ::
    "nat \<Rightarrow> ('a, 'c) node \<Rightarrow> (('a, 'c) entry \<times> ('a, 'c) node) option" where
  "removeMinimum 0 n = None"
| "removeMinimum (Suc fuel) n =
     (if m_isLeaf n then
        (if m_entries n = [] then None
         else Some (hd (m_entries n), refreshNodeMaxEnd
           (Node (tl (m_entries n)) (m_children n) (m_subtreeMaxEnd n) (m_isLeaf n))))
      else if m_children n = [] then None
      else (case prepareFirst n of
              None \<Rightarrow> None
            | Some n' \<Rightarrow> withChildEntry (removeMinimum fuel) n' 0))"

text \<open>The forward scan for the first entry that is not less than the target.\<close>

fun scanForward ::
    "(('a, 'c) entry \<Rightarrow> ('a, 'c) entry \<Rightarrow> bool) \<Rightarrow> ('a, 'c) entry \<Rightarrow> ('a, 'c) entry list \<Rightarrow>
     nat" where
  "scanForward lt t [] = 0"
| "scanForward lt t (e # es) = (if lt e t then Suc (scanForward lt t es) else 0)"

text \<open>Before descending into child \<open>i\<close>, \<open>eraseEntry\<close> borrows or merges.\<close>

definition prepareChild :: "('a, 'c) node \<Rightarrow> nat \<Rightarrow> (('a, 'c) node \<times> nat) option" where
  "prepareChild n i =
     (if length (m_entries (m_children n ! i)) = s_minimumDegree - 1 then
        if 0 < i \<and> s_minimumDegree \<le> length (m_entries (m_children n ! (i - 1))) then
          map_option (\<lambda>n'. (n', i)) (borrowFromPrevious n i)
        else if i < length (m_entries n) then
          (if Suc i < length (m_children n) then
             if s_minimumDegree \<le> length (m_entries (m_children n ! Suc i)) then
               map_option (\<lambda>n'. (n', i)) (borrowFromNext n i)
             else map_option (\<lambda>n'. (n', i)) (mergeChildren n i)
           else None)
        else if 0 < i then map_option (\<lambda>n'. (n', i - 1)) (mergeChildren n (i - 1))
        else None
      else Some (n, i))"

fun eraseEntryNode ::
    "(('a, 'c) entry \<Rightarrow> ('a, 'c) entry \<Rightarrow> bool) \<Rightarrow> nat \<Rightarrow> ('a, 'c) node \<Rightarrow> ('a, 'c) entry \<Rightarrow>
     ('a, 'c) node option" where
  "eraseEntryNode lt 0 n t = None"
| "eraseEntryNode lt (Suc fuel) n t =
     (let i = scanForward lt t (m_entries n); es = m_entries n; cs = m_children n in
      if i < length es \<and> m_ordinal (es ! i) = m_ordinal t then
        if m_isLeaf n then
          Some (refreshNodeMaxEnd
            (Node (take i es @ drop (Suc i) es) cs (m_subtreeMaxEnd n) (m_isLeaf n)))
        else if Suc i < length cs then
          if s_minimumDegree \<le> length (m_entries (cs ! i)) then
            (case removeMaximum fuel (cs ! i) of
               None \<Rightarrow> None
             | Some (e, c) \<Rightarrow>
                 Some (refreshNodeMaxEnd
                   (Node (es[i := e]) (cs[i := c]) (m_subtreeMaxEnd n) (m_isLeaf n))))
          else if s_minimumDegree \<le> length (m_entries (cs ! Suc i)) then
            (case removeMinimum fuel (cs ! Suc i) of
               None \<Rightarrow> None
             | Some (e, c) \<Rightarrow>
                 Some (refreshNodeMaxEnd
                   (Node (es[i := e]) (cs[Suc i := c]) (m_subtreeMaxEnd n) (m_isLeaf n))))
          else
            (case mergeChildren n i of
               None \<Rightarrow> None
             | Some n' \<Rightarrow> withChild (\<lambda>c. eraseEntryNode lt fuel c t) n' i)
        else None
      else if m_isLeaf n then Some n
      else if i < length cs then
        (case prepareChild n i of
           None \<Rightarrow> None
         | Some (n', j) \<Rightarrow> withChild (\<lambda>c. eraseEntryNode lt fuel c t) n' j)
      else None)"

section \<open>Pruned overlap traversals\<close>

text \<open>
  One pass of the loop bodies of \<open>hasOverlapInSubtree\<close> and \<open>visitOverlappingInOrder\<close>: the
  results for the children are interleaved with the entries.
\<close>

fun hasOverlapLoop :: "interval_range \<Rightarrow> bool list \<Rightarrow> ('a, 'c) entry list \<Rightarrow> bool" where
  "hasOverlapLoop r (b # bs) (e # es) =
     (b \<or> overlaps (m_range e) r \<or> hasOverlapLoop r bs es)"
| "hasOverlapLoop r bs [] = (if bs = [] then False else last bs)"
| "hasOverlapLoop r [] (e # es) = False"

fun hasOverlapInSubtree :: "('a, 'c) node \<Rightarrow> interval_range \<Rightarrow> bool" where
  "hasOverlapInSubtree (Node es cs m l) r =
     (if m < m_start r then False
      else if l then list_ex (\<lambda>e. overlaps (m_range e) r) es
      else hasOverlapLoop r (map (\<lambda>c. hasOverlapInSubtree c r) cs) es)"

text \<open>A visitor is a state transformer; the entries are visited in order.\<close>

definition visitEntry ::
    "interval_range \<Rightarrow> (interval_range \<Rightarrow> 'a \<Rightarrow> 's \<Rightarrow> 's) \<Rightarrow> ('a, 'c) entry \<Rightarrow> 's \<Rightarrow> 's" where
  "visitEntry r visitor e s =
     (if overlaps (m_range e) r then visitor (m_range e) (m_value e) s else s)"

fun visitLoop ::
    "interval_range \<Rightarrow> (interval_range \<Rightarrow> 'a \<Rightarrow> 's \<Rightarrow> 's) \<Rightarrow> ('s \<Rightarrow> 's) list \<Rightarrow>
     ('a, 'c) entry list \<Rightarrow> 's \<Rightarrow> 's" where
  "visitLoop r visitor (f # fs) (e # es) s =
     visitLoop r visitor fs es (visitEntry r visitor e (f s))"
| "visitLoop r visitor fs [] s = (if fs = [] then s else last fs s)"
| "visitLoop r visitor [] (e # es) s = s"

fun visitOverlappingInOrder ::
    "('a, 'c) node \<Rightarrow> interval_range \<Rightarrow> (interval_range \<Rightarrow> 'a \<Rightarrow> 's \<Rightarrow> 's) \<Rightarrow> 's \<Rightarrow> 's" where
  "visitOverlappingInOrder (Node es cs m l) r visitor s =
     (if m < m_start r then s
      else if l then fold (visitEntry r visitor) es s
      else visitLoop r visitor (map (\<lambda>c. visitOverlappingInOrder c r visitor) cs) es s)"

end
