(* ===== verification/IntervalNodeShape.thy ===== *)
theory IntervalNodeShape
  imports IntervalNode
begin

text \<open>
  Correctness of the structural operations of \<open>IntervalNode\<close>: the shape invariant of a
  B-tree of a given height (\<open>shape\<close>), the interface \<open>entry_order\<close> that the operations need
  of the canonical order, and for every operation that it succeeds, keeps the shape, and acts
  on the in-order list of entries as the abstract list operation does.
\<close>

section \<open>The canonical order as an interface\<close>

text \<open>
  What insertion and removal rely on: a strict order that is total on entries with different
  insertion ordinals.
\<close>

locale entry_order =
  fixes lt :: "('a, 'c) entry \<Rightarrow> ('a, 'c) entry \<Rightarrow> bool"
  assumes lt_irrefl: "\<not> lt x x"
    and lt_trans: "lt x y \<Longrightarrow> lt y z \<Longrightarrow> lt x z"
    and lt_total: "m_ordinal x \<noteq> m_ordinal y \<Longrightarrow> lt x y \<or> lt y x"

text \<open>What \<open>std::function\<close> comparators must promise: a strict weak order on ranges.\<close>

definition strict_weak_order :: "('b \<Rightarrow> 'b \<Rightarrow> bool) \<Rightarrow> bool" where
  "strict_weak_order cless \<longleftrightarrow>
     (\<forall>x. \<not> cless x x) \<and>
     (\<forall>x y z. cless x y \<longrightarrow> cless y z \<longrightarrow> cless x z) \<and>
     (\<forall>x y z. \<not> cless x y \<longrightarrow> \<not> cless y x \<longrightarrow> \<not> cless y z \<longrightarrow> \<not> cless z y \<longrightarrow>
        \<not> cless x z \<and> \<not> cless z x)"

definition comparator_ok :: "canonical_comparator \<Rightarrow> bool" where
  "comparator_ok cmp \<longleftrightarrow> (case cmp of None \<Rightarrow> True | Some cless \<Rightarrow> strict_weak_order cless)"

lemma strict_weak_orderD:
  assumes "strict_weak_order cless"
  shows "\<not> cless x x"
    and "cless x y \<Longrightarrow> cless y z \<Longrightarrow> cless x z"
    and "cless x y \<Longrightarrow> \<not> cless y x"
    and "cless x y \<Longrightarrow> \<not> cless x z \<Longrightarrow> \<not> cless z y \<Longrightarrow> False"
    and "\<not> cless x y \<Longrightarrow> \<not> cless y x \<Longrightarrow> \<not> cless y z \<Longrightarrow> \<not> cless z y \<Longrightarrow> \<not> cless x z"
  using assms unfolding strict_weak_order_def by metis+

text \<open>The key order behind \<open>entryLess\<close>, with the comparator's equivalence spelled out.\<close>

lemma entryLess_iff:
  assumes "comparator_ok cmp"
  shows "entryLess cmp x y \<longleftrightarrow>
     (case cmp of
        None \<Rightarrow> m_range x < m_range y \<or> m_range x = m_range y \<and> m_ordinal x < m_ordinal y
      | Some cless \<Rightarrow>
          cless (m_range x) (m_range y) \<or>
          \<not> cless (m_range y) (m_range x) \<and>
            (m_range x < m_range y \<or> m_range x = m_range y \<and> m_ordinal x < m_ordinal y))"
proof -
  have same: "m_start r = m_start s \<and> m_end r = m_end s \<longleftrightarrow> r = s" for r s
    by (auto simp: interval_range.expand)
  have dflt: "defaultRangeLess r s \<longleftrightarrow> r < s" for r s
    by (simp add: less_interval_range_def)
  show ?thesis
    using assms
    by (auto simp: entryLess_def Let_def same dflt comparator_ok_def strict_weak_orderD(1)
        split: option.splits)
qed

lemma entryLess_order:
  assumes ok: "comparator_ok cmp"
  shows "entry_order (entryLess cmp)"
proof (cases cmp)
  case None
  show ?thesis
    unfolding None by unfold_locales (auto simp: entryLess_iff [OF ok [unfolded None]])
next
  case (Some cless)
  with ok have swo: "strict_weak_order cless" by (simp add: comparator_ok_def)
  note D = strict_weak_orderD [OF swo] and iff = entryLess_iff [OF ok [unfolded Some]]
  show ?thesis
    unfolding Some
  proof unfold_locales
    show "\<not> entryLess (Some cless) x x" for x :: "('a, 'c) entry"
      by (simp add: iff D(1))
    show "entryLess (Some cless) x z"
      if "entryLess (Some cless) x y" "entryLess (Some cless) y z"
      for x y z :: "('a, 'c) entry"
    proof (cases "cless (m_range x) (m_range y) \<or> cless (m_range y) (m_range z)")
      case True
      then have "cless (m_range x) (m_range z)"
        using that D(2,3,4) unfolding iff option.case by meson
      then show ?thesis by (simp add: iff)
    next
      case False
      with that have "\<not> cless (m_range z) (m_range x)"
        using D(5) unfolding iff option.case by meson
      with that False show ?thesis
        unfolding iff option.case by (auto intro: order.strict_trans)
    qed
    show "entryLess (Some cless) x y \<or> entryLess (Some cless) y x" if "m_ordinal x \<noteq> m_ordinal y"
      for x y :: "('a, 'c) entry"
      using that unfolding iff option.case
      by (meson linorder_less_linear)
  qed
qed

text \<open>
  Any comparator that keeps the documented promise provides the interface; the default order
  (\<open>None\<close>) does.
\<close>

locale canonical_order =
  fixes cmp :: canonical_comparator
  assumes comparator: "comparator_ok cmp"

sublocale canonical_order \<subseteq> entry_order "entryLess cmp"
  by (rule entryLess_order [OF comparator])

interpretation default_order: canonical_order None
  by unfold_locales (simp add: comparator_ok_def)

section \<open>The shape invariant\<close>

text \<open>
  \<open>shape h n\<close>: all leaves are at depth \<open>h\<close>, an inner node has one child more than entries,
  every node below \<open>n\<close> has between one and three entries, and every \<open>m_subtreeMaxEnd\<close> is
  exact.
\<close>

definition okSize :: "('a, 'c) node \<Rightarrow> bool" where
  "okSize n \<longleftrightarrow> s_minimumDegree - 1 \<le> length (m_entries n) \<and>
     length (m_entries n) \<le> 2 * s_minimumDegree - 1"

primrec shape :: "nat \<Rightarrow> ('a, 'c) node \<Rightarrow> bool" where
  "shape 0 n \<longleftrightarrow> m_isLeaf n \<and> m_children n = [] \<and>
     m_subtreeMaxEnd n = maxEndOf (m_entries n) (m_children n)"
| "shape (Suc h) n \<longleftrightarrow> \<not> m_isLeaf n \<and> length (m_children n) = Suc (length (m_entries n)) \<and>
     (\<forall>c \<in> set (m_children n). shape h c \<and> okSize c) \<and>
     m_subtreeMaxEnd n = maxEndOf (m_entries n) (m_children n)"

lemma refresh_simps [simp]:
  "m_entries (refreshNodeMaxEnd n) = m_entries n"
  "m_children (refreshNodeMaxEnd n) = m_children n"
  "m_isLeaf (refreshNodeMaxEnd n) = m_isLeaf n"
  "m_subtreeMaxEnd (refreshNodeMaxEnd n) = maxEndOf (m_entries n) (m_children n)"
  by (simp_all add: refreshNodeMaxEnd_def)

lemma collect_leaf: "m_isLeaf n \<Longrightarrow> collectEntriesInOrder n = m_entries n"
  by (cases n) simp

lemma collect_inner:
  "\<not> m_isLeaf n \<Longrightarrow> collectEntriesInOrder n =
     interleave (map collectEntriesInOrder (m_children n)) (m_entries n)"
  by (cases n) simp

lemma collect_refresh [simp]:
  "collectEntriesInOrder (refreshNodeMaxEnd n) = collectEntriesInOrder n"
  by (simp add: refreshNodeMaxEnd_def collect_leaf collect_inner
      del: collectEntriesInOrder.simps) (cases n, simp)

lemma okSize_refresh [simp]: "okSize (refreshNodeMaxEnd n) = okSize n"
  by (simp add: okSize_def)

lemma shape_leaf: "shape h n \<Longrightarrow> m_isLeaf n \<longleftrightarrow> h = 0"
  by (cases h) auto

lemma shape_lengths:
  "shape h n \<Longrightarrow> \<not> m_isLeaf n \<Longrightarrow> length (m_children n) = Suc (length (m_entries n))"
  by (cases h) auto

subsection \<open>Interleaving\<close>

definition pairs :: "'b list list \<Rightarrow> 'b list \<Rightarrow> 'b list" where
  "pairs cs es = concat (map2 (\<lambda>c e. c @ [e]) cs es)"

definition tailOf :: "'b list list \<Rightarrow> 'b list \<Rightarrow> 'b list" where
  "tailOf cs es = (case es of [] \<Rightarrow> [] | e # es' \<Rightarrow> e # interleave cs es')"

lemma pairs_simps [simp]:
  "pairs [] es = []"
  "pairs (c # cs) (e # es) = c @ e # pairs cs es"
  "length cs = length es \<Longrightarrow> pairs (cs @ cs') (es @ es') = pairs cs es @ pairs cs' es'"
  by (simp_all add: pairs_def)

lemma tailOf_simps [simp]:
  "tailOf cs [] = []" "tailOf cs (e # es) = e # interleave cs es"
  by (simp_all add: tailOf_def)

lemma interleave_append:
  "length cl = length el \<Longrightarrow> interleave (cl @ cs) (el @ es) = pairs cl el @ interleave cs es"
  by (induction cl el rule: list_induct2) (simp_all add: pairs_def)

lemma interleave_focus:
  assumes "length cl = length el" and "length cr = length er"
  shows "interleave (cl @ c # cr) (el @ er) = pairs cl el @ c @ tailOf cr er"
  using assms interleave_append [of cl el "[c]" "[]"]
  by (cases er) (simp_all add: interleave_append)

lemma interleave_first:
  "length cs = length es \<Longrightarrow> interleave (c # cs) es = c @ tailOf cs es"
  by (cases es) simp_all

lemma interleave_merge:
  assumes "length cs1 = Suc (length es1)"
  shows "interleave (cs1 @ cs2) (es1 @ x # es2) = interleave cs1 es1 @ x # interleave cs2 es2"
proof -
  from assms obtain cs c where "cs1 = cs @ [c]" and "length cs = length es1"
    by (cases cs1 rule: rev_cases) auto
  then show ?thesis
    using interleave_append [of cs es1 "[c]" "[]"] interleave_append [of cs es1 "c # cs2" "x # es2"]
    by simp
qed

lemma interleave_set: "length cs = Suc (length es) \<Longrightarrow> set es \<subseteq> set (interleave cs es)"
  by (induction cs es rule: interleave.induct) auto

lemma interleave_sorted:
  "length cs = Suc (length es) \<Longrightarrow> sorted_wrt lt (interleave cs es) \<Longrightarrow> sorted_wrt lt es"
proof (induction cs es rule: interleave.induct)
  case (1 c cs e es)
  then have "set es \<subseteq> set (interleave cs es)" by (intro interleave_set) simp
  with 1 show ?case by (auto simp: sorted_wrt_append)
qed auto

subsection \<open>What lies before and after a child\<close>

definition before :: "('a, 'c) node \<Rightarrow> nat \<Rightarrow> ('a, 'c) entry list" where
  "before n j = pairs (map collectEntriesInOrder (take j (m_children n))) (take j (m_entries n))"

definition after :: "('a, 'c) node \<Rightarrow> nat \<Rightarrow> ('a, 'c) entry list" where
  "after n j = tailOf (map collectEntriesInOrder (drop (Suc j) (m_children n))) (drop j (m_entries n))"

lemma collect_focus:
  assumes "\<not> m_isLeaf n" and "length (m_children n) = Suc (length (m_entries n))"
    and "j \<le> length (m_entries n)"
  shows "collectEntriesInOrder n =
     before n j @ collectEntriesInOrder (m_children n ! j) @ after n j"
proof -
  have "m_children n = take j (m_children n) @ m_children n ! j # drop (Suc j) (m_children n)"
    using assms by (simp add: id_take_nth_drop)
  moreover have "m_entries n = take j (m_entries n) @ drop j (m_entries n)" by simp
  ultimately show ?thesis
    using assms interleave_focus
      [of "map collectEntriesInOrder (take j (m_children n))" "take j (m_entries n)"
          "map collectEntriesInOrder (drop (Suc j) (m_children n))" "drop j (m_entries n)"
          "collectEntriesInOrder (m_children n ! j)"]
    by (simp add: collect_inner before_def after_def flip: list.map map_append)
qed

text \<open>
  The child at \<open>j\<close> of \<open>n'\<close> holds what the child at \<open>i\<close> of \<open>n\<close> held, and possibly some of
  its neighbourhood.
\<close>

definition absorbs :: "('a, 'c) node \<Rightarrow> nat \<Rightarrow> ('a, 'c) node \<Rightarrow> nat \<Rightarrow> bool" where
  "absorbs n i n' j \<longleftrightarrow>
     (\<exists>a b. before n i = before n' j @ a \<and> after n i = b @ after n' j \<and>
        collectEntriesInOrder (m_children n' ! j) =
          a @ collectEntriesInOrder (m_children n ! i) @ b)"

lemma absorbs_refl: "absorbs n i n i"
  by (simp add: absorbs_def)

section \<open>Rebalancing\<close>

lemma adjacent_split:
  assumes "length (m_children n) = Suc (length (m_entries n))" and "k < length (m_entries n)"
  obtains el e er cl c d cr where
    "m_entries n = el @ e # er" and "m_children n = cl @ c # d # cr"
    and "length el = k" and "length cl = k" and "length cr = length er"
proof -
  have es: "m_entries n = take k (m_entries n) @ m_entries n ! k # drop (Suc k) (m_entries n)"
    using assms by (simp add: id_take_nth_drop)
  have "drop k (m_children n) =
      m_children n ! k # m_children n ! Suc k # drop (Suc (Suc k)) (m_children n)"
    using assms by (simp add: Cons_nth_drop_Suc)
  then have "m_children n = take k (m_children n) @
      m_children n ! k # m_children n ! Suc k # drop (Suc (Suc k)) (m_children n)"
    by (metis append_take_drop_id)
  with es that show ?thesis using assms
    by (metis (no_types, lifting) Suc_leD diff_Suc_Suc length_drop length_take less_imp_le_nat
        less_SucI min.absorb2)
qed

text \<open>Taking the last, or the first, entry and child of a node.\<close>

lemma collect_split_last:
  assumes "shape h s" and "m_entries s \<noteq> []"
  shows "collectEntriesInOrder s =
     collectEntriesInOrder
       (Node (butlast (m_entries s)) (if m_isLeaf s then m_children s else butlast (m_children s)) m
         (m_isLeaf s)) @
     last (m_entries s) #
     (if m_isLeaf s then [] else collectEntriesInOrder (last (m_children s)))"
proof (cases "m_isLeaf s")
  case True
  with assms show ?thesis by (simp add: collect_leaf)
next
  case False
  with assms have len: "length (m_children s) = Suc (length (m_entries s))"
    by (simp add: shape_lengths)
  then obtain cs y where cs: "m_children s = cs @ [y]" by (cases "m_children s" rule: rev_cases) auto
  obtain es x where es: "m_entries s = es @ [x]"
    using assms(2) by (cases "m_entries s" rule: rev_cases) auto
  show ?thesis
    using False len interleave_merge
      [of "map collectEntriesInOrder cs" es "[collectEntriesInOrder y]" x "[]"]
    by (simp add: collect_inner cs es)
qed

lemma collect_split_first:
  assumes "shape h s" and "m_entries s \<noteq> []"
  shows "collectEntriesInOrder s =
     (if m_isLeaf s then [] else collectEntriesInOrder (hd (m_children s))) @
     hd (m_entries s) #
     collectEntriesInOrder
       (Node (tl (m_entries s)) (if m_isLeaf s then m_children s else tl (m_children s)) m
         (m_isLeaf s))"
proof (cases "m_isLeaf s")
  case True
  with assms show ?thesis by (simp add: collect_leaf)
next
  case False
  with assms have "length (m_children s) = Suc (length (m_entries s))"
    by (simp add: shape_lengths)
  with assms(2) False show ?thesis
    by (cases "m_children s"; cases "m_entries s") (simp_all add: collect_inner)
qed

lemma collect_push_front:
  assumes "shape h c"
  shows "collectEntriesInOrder
     (Node (e # m_entries c) (if m_isLeaf c then m_children c else y # m_children c) m
       (m_isLeaf c)) =
     (if m_isLeaf c then [] else collectEntriesInOrder y) @ e # collectEntriesInOrder c"
  by (simp add: collect_leaf collect_inner)

lemma collect_push_back:
  assumes "shape h c"
  shows "collectEntriesInOrder
     (Node (m_entries c @ [e]) (if m_isLeaf c then m_children c else m_children c @ [y]) m
       (m_isLeaf c)) =
     collectEntriesInOrder c @ e # (if m_isLeaf c then [] else collectEntriesInOrder y)"
  using assms interleave_merge [of "map collectEntriesInOrder (m_children c)" "m_entries c"
      "[collectEntriesInOrder y]" e "[]"]
  by (simp add: collect_leaf collect_inner shape_lengths)

lemma collect_join:
  assumes "shape h a" and "shape h b"
  shows "collectEntriesInOrder
     (Node (m_entries a @ [e] @ m_entries b)
       (if m_isLeaf a then m_children a else m_children a @ m_children b) m (m_isLeaf a)) =
     collectEntriesInOrder a @ e # collectEntriesInOrder b"
  using assms interleave_merge [of "map collectEntriesInOrder (m_children a)" "m_entries a"
      "map collectEntriesInOrder (m_children b)" e "m_entries b"]
  by (simp add: collect_leaf collect_inner shape_lengths shape_leaf)

text \<open>Every rebalancing keeps the shape of the node it rearranges.\<close>

lemma shape_butlast:
  assumes "shape h s" and "s_minimumDegree \<le> length (m_entries s)"
  shows "shape h (refreshNodeMaxEnd
     (Node (butlast (m_entries s)) (if m_isLeaf s then m_children s else butlast (m_children s)) m
       (m_isLeaf s)))"
  using assms by (cases h) (auto dest: in_set_butlastD)

lemma shape_tl:
  assumes "shape h s" and "s_minimumDegree \<le> length (m_entries s)"
  shows "shape h (refreshNodeMaxEnd
     (Node (tl (m_entries s)) (if m_isLeaf s then m_children s else tl (m_children s)) m
       (m_isLeaf s)))"
  using assms by (cases h) (auto dest: list.set_sel(2) [rotated])

lemma shape_last_child:
  "shape (Suc h) s \<Longrightarrow> shape h (last (m_children s)) \<and> okSize (last (m_children s))"
  by (auto intro!: last_in_set)

lemma shape_hd_child:
  "shape (Suc h) s \<Longrightarrow> shape h (hd (m_children s)) \<and> okSize (hd (m_children s))"
  by (auto intro!: hd_in_set)

lemma shape_push_front:
  assumes "shape h c" and "\<And>h'. h = Suc h' \<Longrightarrow> shape h' y \<and> okSize y"
  shows "shape h (refreshNodeMaxEnd
     (Node (e # m_entries c) (if m_isLeaf c then m_children c else y # m_children c) m
       (m_isLeaf c)))"
  using assms by (cases h) auto

lemma shape_push_back:
  assumes "shape h c" and "\<And>h'. h = Suc h' \<Longrightarrow> shape h' y \<and> okSize y"
  shows "shape h (refreshNodeMaxEnd
     (Node (m_entries c @ [e]) (if m_isLeaf c then m_children c else m_children c @ [y]) m
       (m_isLeaf c)))"
  using assms by (cases h) auto

lemma shape_join:
  assumes "shape h a" and "shape h b"
  shows "shape h (refreshNodeMaxEnd
     (Node (m_entries a @ [e] @ m_entries b)
       (if m_isLeaf a then m_children a else m_children a @ m_children b) m (m_isLeaf a)))"
  using assms by (cases h) auto

text \<open>
  What a rebalancing step promises: it succeeds, keeps the shape, leaves the child that the
  descent enters with a spare entry, and that child absorbs what it takes from its neighbours.
\<close>

definition rebalances ::
    "nat \<Rightarrow> ('a, 'c) node \<Rightarrow> nat \<Rightarrow> ('a, 'c) node \<Rightarrow> nat \<Rightarrow> bool" where
  "rebalances h n i n' j \<longleftrightarrow>
     shape (Suc h) n' \<and> j \<le> length (m_entries n') \<and>
     length (m_entries n) \<le> Suc (length (m_entries n')) \<and>
     length (m_entries n') \<le> length (m_entries n) \<and>
     s_minimumDegree \<le> length (m_entries (m_children n' ! j)) \<and>
     absorbs n i n' j"

lemma borrowFromPrevious_correct:
  assumes sh: "shape (Suc h) n" and i: "0 < i" "i \<le> length (m_entries n)"
    and small: "length (m_entries (m_children n ! i)) = 1"
    and big: "s_minimumDegree \<le> length (m_entries (m_children n ! (i - 1)))"
  shows "\<exists>n'. borrowFromPrevious n i = Some n' \<and> rebalances h n i n' i"
proof -
  from sh have len: "length (m_children n) = Suc (length (m_entries n))" by simp
  from i obtain k where k: "i = Suc k" "k < length (m_entries n)" by (cases i) auto
  obtain el e er cl s c cr where parts: "m_entries n = el @ e # er" "m_children n = cl @ s # c # cr"
      "length el = k" "length cl = k" "length cr = length er"
    using adjacent_split [OF len k(2)] by metis
  note i' = k(1)
  have sizes: "length (m_entries c) = 1" "2 \<le> length (m_entries s)"
    using small big by (simp_all add: parts i' nth_append)
  have sub: "shape h s" "shape h c" "okSize s" "okSize c" "\<not> m_isLeaf n"
      "\<forall>x \<in> set cl \<union> set cr. shape h x \<and> okSize x"
    using sh by (auto simp: parts)
  have leaf: "m_isLeaf c = m_isLeaf s" using sub by (simp add: shape_leaf)
  have ne: "m_entries s \<noteq> []" using sizes by auto
  have kids: "m_isLeaf s \<or> m_children s \<noteq> []"
    using shape_lengths [OF sub(1)] by auto
  let ?c = "refreshNodeMaxEnd (Node (e # m_entries c)
      (if m_isLeaf c then m_children c else last (m_children s) # m_children c)
      (m_subtreeMaxEnd c) (m_isLeaf c))"
  let ?s = "refreshNodeMaxEnd (Node (butlast (m_entries s))
      (if m_isLeaf s then m_children s else butlast (m_children s))
      (m_subtreeMaxEnd s) (m_isLeaf s))"
  let ?n = "refreshNodeMaxEnd (Node (el @ last (m_entries s) # er) (cl @ ?s # ?c # cr)
      (m_subtreeMaxEnd n) (m_isLeaf n))"
  have at: "m_children n ! i = c" "m_children n ! (i - 1) = s" "m_entries n ! (i - 1) = e"
    by (simp_all add: parts i' nth_append)
  have upd: "(m_entries n)[i - 1 := x] = el @ x # er"
      "(m_children n)[i := a, i - 1 := b] = cl @ b # a # cr" for x a b
    by (simp_all add: parts i' list_update_append)
  have guard: "0 < i \<and> i < length (m_children n) \<and> i \<le> length (m_entries n)"
      "m_entries s \<noteq> [] \<and> (m_isLeaf c \<or> m_children s \<noteq> [])"
    using i len ne kids leaf by auto
  have run: "borrowFromPrevious n i = Some ?n"
    unfolding borrowFromPrevious_def Let_def at upd leaf if_P [OF guard(1)]
      if_P [OF guard(2) [unfolded leaf]] by (rule refl)
  have "shape h ?s"
    using sub sizes by (intro shape_butlast) auto
  moreover have "shape h ?c"
    by (rule shape_push_front [OF sub(2)]) (metis sub(1) shape_last_child)
  ultimately have "shape (Suc h) ?n"
    using sub sizes parts by (auto simp: okSize_def)
  moreover have "absorbs n i ?n i"
    unfolding absorbs_def
    using i' parts collect_split_last [OF sub(1) ne, of "m_subtreeMaxEnd s"]
      collect_push_front [OF sub(2), of e "last (m_children s)" "m_subtreeMaxEnd c"]
    by (intro exI [of _ "(if m_isLeaf s then [] else collectEntriesInOrder (last (m_children s))) @ [e]"]
        exI [of _ "[]"])
      (simp add: before_def after_def nth_append leaf parts interleave_first
        del: collectEntriesInOrder.simps)
  ultimately show ?thesis
    using run sizes parts i' by (auto simp: rebalances_def nth_append)
qed

lemma borrowFromNext_correct:
  assumes sh: "shape (Suc h) n" and i: "i < length (m_entries n)"
    and small: "length (m_entries (m_children n ! i)) = 1"
    and big: "s_minimumDegree \<le> length (m_entries (m_children n ! Suc i))"
  shows "\<exists>n'. borrowFromNext n i = Some n' \<and> rebalances h n i n' i"
proof -
  from sh have len: "length (m_children n) = Suc (length (m_entries n))" by simp
  obtain el e er cl c s cr where parts: "m_entries n = el @ e # er" "m_children n = cl @ c # s # cr"
      "length el = i" "length cl = i" "length cr = length er"
    using adjacent_split [OF len i] by metis
  have sizes: "length (m_entries c) = 1" "2 \<le> length (m_entries s)"
    using small big by (simp_all add: parts nth_append)
  have sub: "shape h s" "shape h c" "okSize s" "okSize c" "\<not> m_isLeaf n"
      "\<forall>x \<in> set cl \<union> set cr. shape h x \<and> okSize x"
    using sh by (auto simp: parts)
  have leaf: "m_isLeaf c = m_isLeaf s" using sub by (simp add: shape_leaf)
  have ne: "m_entries s \<noteq> []" using sizes by auto
  have kids: "m_isLeaf s \<or> m_children s \<noteq> []"
    using shape_lengths [OF sub(1)] by auto
  let ?c = "refreshNodeMaxEnd (Node (m_entries c @ [e])
      (if m_isLeaf c then m_children c else m_children c @ [hd (m_children s)])
      (m_subtreeMaxEnd c) (m_isLeaf c))"
  let ?s = "refreshNodeMaxEnd (Node (tl (m_entries s))
      (if m_isLeaf s then m_children s else tl (m_children s))
      (m_subtreeMaxEnd s) (m_isLeaf s))"
  let ?n = "refreshNodeMaxEnd (Node (el @ hd (m_entries s) # er) (cl @ ?c # ?s # cr)
      (m_subtreeMaxEnd n) (m_isLeaf n))"
  have at: "m_children n ! i = c" "m_children n ! Suc i = s" "m_entries n ! i = e"
    by (simp_all add: parts nth_append)
  have upd: "(m_entries n)[i := x] = el @ x # er"
      "(m_children n)[i := a, Suc i := b] = cl @ a # b # cr" for x a b
    by (simp_all add: parts list_update_append)
  have guard: "Suc i < length (m_children n) \<and> i < length (m_entries n)"
      "m_entries s \<noteq> [] \<and> (m_isLeaf c \<or> m_children s \<noteq> [])"
    using i len ne kids leaf by auto
  have run: "borrowFromNext n i = Some ?n"
    unfolding borrowFromNext_def Let_def at upd leaf if_P [OF guard(1)]
      if_P [OF guard(2) [unfolded leaf]] by (rule refl)
  have "shape h ?s"
    using sub sizes by (intro shape_tl) auto
  moreover have "shape h ?c"
    by (rule shape_push_back [OF sub(2)]) (metis sub(1) shape_hd_child)
  ultimately have "shape (Suc h) ?n"
    using sub sizes parts by (auto simp: okSize_def)
  moreover have "absorbs n i ?n i"
    unfolding absorbs_def
    using parts collect_split_first [OF sub(1) ne, of "m_subtreeMaxEnd s"]
      collect_push_back [OF sub(2), of e "hd (m_children s)" "m_subtreeMaxEnd c"]
    by (intro exI [of _ "[]"]
        exI [of _ "e # (if m_isLeaf s then [] else collectEntriesInOrder (hd (m_children s)))"])
      (simp add: before_def after_def nth_append leaf parts interleave_first
        del: collectEntriesInOrder.simps)
  ultimately show ?thesis
    using run sizes parts by (auto simp: rebalances_def nth_append)
qed

lemma mergeChildren_correct:
  assumes sh: "shape (Suc h) n" and i: "i < length (m_entries n)"
    and small: "length (m_entries (m_children n ! i)) = 1"
      "length (m_entries (m_children n ! Suc i)) = 1"
  shows "\<exists>n'. mergeChildren n i = Some n' \<and> rebalances h n i n' i \<and> rebalances h n (Suc i) n' i \<and>
     m_entries n ! i \<in> set (collectEntriesInOrder (m_children n' ! i)) \<and>
     collectEntriesInOrder (m_children n' ! i) =
       collectEntriesInOrder (m_children n ! i) @
       m_entries n ! i # collectEntriesInOrder (m_children n ! Suc i) \<and>
     before n' i = before n i \<and> after n' i = after n (Suc i)"
proof -
  from sh have len: "length (m_children n) = Suc (length (m_entries n))" by simp
  obtain el e er cl c d cr where parts: "m_entries n = el @ e # er" "m_children n = cl @ c # d # cr"
      "length el = i" "length cl = i" "length cr = length er"
    using adjacent_split [OF len i] by metis
  have at: "m_children n ! i = c" "m_children n ! Suc i = d" "m_entries n ! i = e"
    by (simp_all add: parts nth_append)
  have cut: "take i (m_entries n) = el" "drop (Suc i) (m_entries n) = er"
      "take i (m_children n) = cl" "drop (Suc (Suc i)) (m_children n) = cr"
    by (simp_all add: parts)
  have sizes: "length (m_entries c) = 1" "length (m_entries d) = 1"
    using small by (simp_all add: at)
  have sub: "shape h c" "shape h d" "\<not> m_isLeaf n"
      "\<forall>x \<in> set cl \<union> set cr. shape h x \<and> okSize x"
    using sh by (auto simp: parts)
  let ?c = "refreshNodeMaxEnd (Node (m_entries c @ [e] @ m_entries d)
      (if m_isLeaf c then m_children c else m_children c @ m_children d)
      (m_subtreeMaxEnd c) (m_isLeaf c))"
  let ?n = "refreshNodeMaxEnd (Node (el @ er) (cl @ ?c # cr) (m_subtreeMaxEnd n) (m_isLeaf n))"
  have guard: "Suc i < length (m_children n) \<and> i < length (m_entries n)"
    using i len by auto
  have run: "mergeChildren n i = Some ?n"
    unfolding mergeChildren_def Let_def at cut if_P [OF guard] by (rule refl)
  have join: "collectEntriesInOrder ?c = collectEntriesInOrder c @ e # collectEntriesInOrder d"
    using collect_join [OF sub(1,2)] by simp
  have "shape h ?c" by (rule shape_join [OF sub(1,2)])
  then have shn: "shape (Suc h) ?n"
    using sub sizes parts by (auto simp: okSize_def)
  have abs1: "absorbs n i ?n i"
    unfolding absorbs_def
    by (intro exI [of _ "[]"] exI [of _ "e # collectEntriesInOrder d"])
      (use join in \<open>simp add: before_def after_def nth_append parts interleave_first
        del: collectEntriesInOrder.simps\<close>)
  have abs2: "absorbs n (Suc i) ?n i"
    unfolding absorbs_def
    by (intro exI [of _ "collectEntriesInOrder c @ [e]"] exI [of _ "[]"])
      (use join in \<open>simp add: before_def after_def nth_append parts interleave_first
        del: collectEntriesInOrder.simps\<close>)
  show ?thesis
    using run shn abs1 abs2 join sizes
    by (intro exI [of _ ?n])
      (simp add: rebalances_def nth_append parts before_def after_def
        del: collectEntriesInOrder.simps shape.simps)
qed

section \<open>Insertion\<close>

lemma withChild_correct:
  assumes "shape (Suc h) n" and "j \<le> length (m_entries n)"
    and "f (m_children n ! j) = Some c" and "shape h c" and "okSize c"
  shows "\<exists>n'. withChild f n j = Some n' \<and> shape (Suc h) n' \<and>
     length (m_entries n') = length (m_entries n) \<and>
     collectEntriesInOrder n' = before n j @ collectEntriesInOrder c @ after n j"
proof -
  let ?n = "refreshNodeMaxEnd
      (Node (m_entries n) ((m_children n)[j := c]) (m_subtreeMaxEnd n) (m_isLeaf n))"
  have j: "j < length (m_children n)" using assms(1,2) by simp
  then have run: "withChild f n j = Some ?n"
    using assms(3) by (simp add: withChild_def)
  have "shape (Suc h) ?n"
    using assms by (auto dest: set_update_subset_insert [THEN subsetD])
  moreover from this have "collectEntriesInOrder ?n = before n j @ collectEntriesInOrder c @ after n j"
    using j assms(2) collect_focus [of ?n j] by (simp add: before_def after_def)
  ultimately show ?thesis using run by simp
qed

lemma withChildEntry_correct:
  assumes "shape (Suc h) n" and "j \<le> length (m_entries n)"
    and "f (m_children n ! j) = Some (e, c)" and "shape h c" and "okSize c"
  shows "\<exists>n'. withChildEntry f n j = Some (e, n') \<and> shape (Suc h) n' \<and>
     length (m_entries n') = length (m_entries n) \<and>
     collectEntriesInOrder n' = before n j @ collectEntriesInOrder c @ after n j"
proof -
  have "(\<lambda>c. map_option snd (f c)) (m_children n ! j) = Some c" using assms(3) by simp
  from withChild_correct [where f = "\<lambda>c. map_option snd (f c)", OF assms(1,2) this assms(4,5)]
  show ?thesis
    using assms(3)
    by (cases "j < length (m_children n)") (simp_all add: withChild_def withChildEntry_def del: shape.simps)
qed

text \<open>Splitting a full child keeps the in-order list and makes room below.\<close>

lemma splitChild_correct:
  assumes len: "length (m_children n) = Suc (length (m_entries n))"
    and i: "i \<le> length (m_entries n)"
    and kids: "\<forall>c \<in> set (m_children n). shape h c \<and> okSize c"
    and full: "length (m_entries (m_children n ! i)) = 2 * s_minimumDegree - 1"
    and inner: "\<not> m_isLeaf n"
  shows "\<exists>n'. splitChild n i = Some n' \<and> shape (Suc h) n' \<and>
     (\<exists>p. m_entries n' = take i (m_entries n) @ p # drop i (m_entries n)) \<and>
     length (m_entries (m_children n' ! i)) = 1 \<and>
     length (m_entries (m_children n' ! Suc i)) = 1 \<and>
     collectEntriesInOrder n' = collectEntriesInOrder n"
proof -
  obtain c where c: "m_children n ! i = c" by simp
  have ic: "i < length (m_children n)" using i len by simp
  then have shc: "shape h c" using kids c by (metis nth_mem)
  obtain x y z where es: "m_entries c = [x, y, z]"
    using full c by (auto simp: length_Suc_conv eval_nat_numeral)
  have four: "m_isLeaf c \<or> length (m_children c) = 4"
    using shape_lengths [OF shc] es by (cases "m_isLeaf c") auto
  let ?l = "refreshNodeMaxEnd (Node [x]
      (if m_isLeaf c then m_children c else take 2 (m_children c)) (m_subtreeMaxEnd c) (m_isLeaf c))"
  let ?r = "refreshNodeMaxEnd (Node [z]
      (if m_isLeaf c then [] else drop 2 (m_children c)) INT64_MIN (m_isLeaf c))"
  let ?n = "refreshNodeMaxEnd (Node (take i (m_entries n) @ y # drop i (m_entries n))
      (take i (m_children n) @ ?l # ?r # drop (Suc i) (m_children n)) (m_subtreeMaxEnd n) False)"
  have run: "splitChild n i = Some ?n"
    using ic i c four by (auto simp: splitChild_def Let_def es eval_nat_numeral)
  have halves: "shape h ?l" "shape h ?r" "collectEntriesInOrder c =
      collectEntriesInOrder ?l @ y # collectEntriesInOrder ?r"
  proof -
    show "shape h ?l" "shape h ?r"
      using shc four
      by (cases h; auto simp: es eval_nat_numeral dest: in_set_takeD in_set_dropD)+
    show "collectEntriesInOrder c = collectEntriesInOrder ?l @ y # collectEntriesInOrder ?r"
    proof (cases "m_isLeaf c")
      case False
      with four obtain c1 c2 c3 c4 where "m_children c = [c1, c2, c3, c4]"
        by (auto simp: length_Suc_conv eval_nat_numeral)
      with False es show ?thesis by (simp add: collect_inner)
    qed (simp add: es collect_leaf)
  qed
  have "shape (Suc h) ?n"
    using kids halves(1,2) len i
    by (auto simp: okSize_def dest: in_set_takeD in_set_dropD)
  moreover have "collectEntriesInOrder ?n = collectEntriesInOrder n"
  proof -
    have "collectEntriesInOrder n = before n i @ collectEntriesInOrder c @ after n i"
      using collect_focus [OF inner len i] c by simp
    moreover have "collectEntriesInOrder ?n =
        before n i @ collectEntriesInOrder ?l @
        y # interleave (collectEntriesInOrder ?r #
          map collectEntriesInOrder (drop (Suc i) (m_children n))) (drop i (m_entries n))"
      using ic i by (simp add: collect_inner interleave_append before_def
          del: collectEntriesInOrder.simps)
    ultimately show ?thesis
      using halves(3) len i
      by (simp add: interleave_first after_def del: collectEntriesInOrder.simps)
  qed
  moreover have "m_children ?n ! i = ?l" "m_children ?n ! Suc i = ?r"
    using ic by (simp_all add: nth_append)
  ultimately show ?thesis
    using run by (intro exI [of _ ?n]) (auto simp del: shape.simps)
qed

lemma pairs_less:
  assumes "length cs = length es" and "sorted_wrt lt (pairs cs es)"
    and "\<And>x y. lt x y \<Longrightarrow> lt y e \<Longrightarrow> lt x e" and "\<forall>y \<in> set es. lt y e"
  shows "\<forall>x \<in> set (pairs cs es). lt x e"
  using assms(1,2,4)
proof (induction cs es rule: list_induct2)
  case (Cons c cs y ys)
  then have "\<forall>x \<in> set c. lt x y" by (auto simp: sorted_wrt_append)
  with Cons show ?case by (auto simp: sorted_wrt_append intro: assms(3))
qed simp

text \<open>The collected list around a child position, for a sorted node.\<close>

lemma sorted_focus:
  assumes "shape (Suc h) n" and "j \<le> length (m_entries n)"
    and "sorted_wrt lt (collectEntriesInOrder n)"
  shows "sorted_wrt lt (before n j)" and "sorted_wrt lt (after n j)"
    and "sorted_wrt lt (collectEntriesInOrder (m_children n ! j))"
    and "\<forall>x \<in> set (before n j). \<forall>y \<in> set (collectEntriesInOrder (m_children n ! j)). lt x y"
    and "\<forall>x \<in> set (collectEntriesInOrder (m_children n ! j)). \<forall>y \<in> set (after n j). lt x y"
    and "\<forall>x \<in> set (before n j). \<forall>y \<in> set (after n j). lt x y"
    and "set (m_entries n) \<subseteq> set (collectEntriesInOrder n)"
proof -
  have c: "collectEntriesInOrder n =
      before n j @ collectEntriesInOrder (m_children n ! j) @ after n j"
    using assms(1,2) by (intro collect_focus) auto
  show "sorted_wrt lt (before n j)" "sorted_wrt lt (after n j)"
    "sorted_wrt lt (collectEntriesInOrder (m_children n ! j))"
    "\<forall>x \<in> set (before n j). \<forall>y \<in> set (collectEntriesInOrder (m_children n ! j)). lt x y"
    "\<forall>x \<in> set (collectEntriesInOrder (m_children n ! j)). \<forall>y \<in> set (after n j). lt x y"
    "\<forall>x \<in> set (before n j). \<forall>y \<in> set (after n j). lt x y"
    using assms(3) unfolding c by (auto simp: sorted_wrt_append)
  show "set (m_entries n) \<subseteq> set (collectEntriesInOrder n)"
    using assms(1) interleave_set [of "map collectEntriesInOrder (m_children n)" "m_entries n"]
    by (simp add: collect_inner)
qed

context entry_order
begin

lemma lt_asym: "lt x y \<Longrightarrow> \<not> lt y x"
  using lt_irrefl lt_trans by blast

lemma sorted_distinct: "sorted_wrt lt xs \<Longrightarrow> distinct xs"
  by (induction xs) (auto simp: lt_irrefl)

lemma insertSorted_right:
  "\<forall>x \<in> set b. lt e x \<Longrightarrow> insertSorted lt e (a @ b) = insertSorted lt e a @ b"
proof (induction a)
  case Nil
  then show ?case by (cases b) (auto dest: lt_asym)
qed auto

lemma sorted_insertSorted:
  "sorted_wrt lt xs \<Longrightarrow> \<forall>x \<in> set xs. m_ordinal x \<noteq> m_ordinal e \<Longrightarrow>
     sorted_wrt lt (insertSorted lt e xs)"
  by (induction xs) (auto dest: lt_total intro: lt_trans)

lemma scanBack_bounds:
  assumes "sorted_wrt lt es" and "\<forall>x \<in> set es. m_ordinal x \<noteq> m_ordinal e"
    and "k \<le> length es" and "\<forall>x \<in> set (drop k es). lt e x"
  shows "scanBack lt e es k \<le> length es \<and>
     (\<forall>x \<in> set (take (scanBack lt e es k) es). lt x e) \<and>
     (\<forall>x \<in> set (drop (scanBack lt e es k) es). lt e x)"
  using assms(3,4)
proof (induction k)
  case (Suc k)
  show ?case
  proof (cases "lt e (es ! k)")
    case True
    with Suc.prems have "\<forall>x \<in> set (drop k es). lt e x"
      by (simp add: Cons_nth_drop_Suc [symmetric])
    with Suc True show ?thesis by simp
  next
    case False
    have k: "k < length es" using Suc.prems by simp
    then have "lt (es ! k) e" using False assms(2) lt_total [of "es ! k" e] by auto
    moreover have "\<forall>x \<in> set (take k es). lt x (es ! k)"
      using assms(1) k by (subst (asm) id_take_nth_drop [OF k]) (simp add: sorted_wrt_append)
    ultimately have "\<forall>x \<in> set (take (Suc k) es). lt x e"
      using k by (auto simp: take_Suc_conv_app_nth intro: lt_trans)
    with False Suc.prems show ?thesis by simp
  qed
qed simp

lemma before_less:
  assumes "shape (Suc h) n" and "j \<le> length (m_entries n)"
    and "sorted_wrt lt (collectEntriesInOrder n)" and "\<forall>x \<in> set (take j (m_entries n)). lt x e"
  shows "\<forall>x \<in> set (before n j). lt x e"
  using assms sorted_focus(1) [OF assms(1-3)] unfolding before_def
  by (intro pairs_less) (auto intro: lt_trans)

lemma after_greater:
  assumes "shape (Suc h) n" and "j \<le> length (m_entries n)"
    and "sorted_wrt lt (collectEntriesInOrder n)" and "\<forall>x \<in> set (drop j (m_entries n)). lt e x"
  shows "\<forall>x \<in> set (after n j). lt e x"
  using assms(4) sorted_focus(2) [OF assms(1-3)] unfolding after_def
  by (cases "drop j (m_entries n)") (auto intro: lt_trans)

lemma splitFullChild_correct:
  assumes sh: "shape (Suc h) n" and i: "i \<le> length (m_entries n)"
    and lo: "\<forall>x \<in> set (take i (m_entries n)). lt x e"
    and hi: "\<forall>x \<in> set (drop i (m_entries n)). lt e x"
    and srt: "sorted_wrt lt (collectEntriesInOrder n)"
    and fresh: "\<forall>x \<in> set (collectEntriesInOrder n). m_ordinal x \<noteq> m_ordinal e"
  shows "\<exists>n' j. splitFullChild lt n i e = Some (n', j) \<and> shape (Suc h) n' \<and>
     j \<le> length (m_entries n') \<and> length (m_entries n) \<le> length (m_entries n') \<and>
     length (m_entries n') \<le> Suc (length (m_entries n)) \<and>
     collectEntriesInOrder n' = collectEntriesInOrder n \<and>
     length (m_entries (m_children n' ! j)) < 2 * s_minimumDegree - 1 \<and>
     (\<forall>x \<in> set (take j (m_entries n')). lt x e) \<and>
     (\<forall>x \<in> set (drop j (m_entries n')). lt e x)"
proof (cases "length (m_entries (m_children n ! i)) = 2 * s_minimumDegree - 1")
  case True
  obtain n' p where n': "splitChild n i = Some n'" "shape (Suc h) n'"
      "m_entries n' = take i (m_entries n) @ p # drop i (m_entries n)"
      "length (m_entries (m_children n' ! i)) = 1"
      "length (m_entries (m_children n' ! Suc i)) = 1"
      "collectEntriesInOrder n' = collectEntriesInOrder n"
    using splitChild_correct [of n i h] sh i True by auto
  have p: "p \<in> set (collectEntriesInOrder n)"
    using sorted_focus(7) [OF n'(2), of 0] srt n'(3,6) by auto
  have at: "m_entries n' ! i = p" using n'(3) i by (simp add: nth_append)
  show ?thesis
  proof (cases "lt p e")
    case True
    with n' at lo hi i \<open>length (m_entries (m_children n ! i)) = _\<close> show ?thesis
      by (auto simp: splitFullChild_def simp del: shape.simps)
  next
    case False
    with p fresh lt_total have "lt e p" by blast
    with False n' at lo hi i \<open>length (m_entries (m_children n ! i)) = _\<close> show ?thesis
      by (auto simp: splitFullChild_def simp del: shape.simps)
  qed
next
  case False
  moreover have "okSize (m_children n ! i)"
    using sh i by auto
  ultimately show ?thesis
    using sh i lo hi by (auto simp: splitFullChild_def okSize_def simp del: shape.simps)
qed

lemma insertNonFull_step:
  assumes "shape h n" and "length (m_entries n) < 2 * s_minimumDegree - 1"
    and "h = 0 \<or> m_entries n \<noteq> []" and "h < fuel"
    and "sorted_wrt lt (collectEntriesInOrder n)"
    and "\<forall>x \<in> set (collectEntriesInOrder n). m_ordinal x \<noteq> m_ordinal e"
  shows "\<exists>n'. insertNonFull lt fuel n e = Some n' \<and> shape h n' \<and> okSize n' \<and>
     collectEntriesInOrder n' = insertSorted lt e (collectEntriesInOrder n)"
  using assms
proof (induction h arbitrary: n fuel)
  case 0
  then obtain fuel' where fuel: "fuel = Suc fuel'" by (cases fuel) auto
  define i where "i = scanBack lt e (m_entries n) (length (m_entries n))"
  have leaf: "m_isLeaf n" "m_children n = []" using 0 by auto
  then have c: "collectEntriesInOrder n = m_entries n" by (simp add: collect_leaf)
  have b: "i \<le> length (m_entries n)" "\<forall>x \<in> set (take i (m_entries n)). lt x e"
      "\<forall>x \<in> set (drop i (m_entries n)). lt e x"
    using scanBack_bounds [of "m_entries n" e "length (m_entries n)"] 0 c by (auto simp: i_def)
  have "insertSorted lt e (take i (m_entries n) @ drop i (m_entries n)) =
      take i (m_entries n) @ e # drop i (m_entries n)"
    using b(2) insertSorted_right [OF b(3), of "[]"] by (simp add: insertSorted_left del: append_take_drop_id)
  with 0 leaf c b(1) show ?case
    by (auto simp: fuel i_def [symmetric] okSize_def collect_leaf Let_def)
next
  case (Suc h)
  then obtain fuel' where fuel: "fuel = Suc fuel'" "h < fuel'" by (cases fuel) auto
  define i where "i = scanBack lt e (m_entries n) (length (m_entries n))"
  have sub: "set (m_entries n) \<subseteq> set (collectEntriesInOrder n)" "\<not> m_isLeaf n"
      "length (m_children n) = Suc (length (m_entries n))"
    using sorted_focus(7) [OF Suc.prems(1), of 0] Suc.prems(1,5) by auto
  have "sorted_wrt lt (m_entries n)"
    using interleave_sorted [of "map collectEntriesInOrder (m_children n)" "m_entries n" lt]
      Suc.prems(5) sub by (simp add: collect_inner)
  then have b: "i \<le> length (m_entries n)" "\<forall>x \<in> set (take i (m_entries n)). lt x e"
      "\<forall>x \<in> set (drop i (m_entries n)). lt e x"
    using scanBack_bounds [of "m_entries n" e "length (m_entries n)"] Suc.prems(6) sub
    by (auto simp: i_def)
  obtain n1 j where n1: "splitFullChild lt n i e = Some (n1, j)" "shape (Suc h) n1"
      "j \<le> length (m_entries n1)" "length (m_entries n) \<le> length (m_entries n1)"
      "length (m_entries n1) \<le> Suc (length (m_entries n))"
      "collectEntriesInOrder n1 = collectEntriesInOrder n"
      "length (m_entries (m_children n1 ! j)) < 2 * s_minimumDegree - 1"
      "\<forall>x \<in> set (take j (m_entries n1)). lt x e" "\<forall>x \<in> set (drop j (m_entries n1)). lt e x"
    using splitFullChild_correct [OF Suc.prems(1) b Suc.prems(5,6)] by auto
  let ?c = "m_children n1 ! j"
  have srt1: "sorted_wrt lt (collectEntriesInOrder n1)" using Suc.prems(5) n1(6) by simp
  have c: "shape h ?c" "okSize ?c" using n1(2,3) by auto
  have whole: "collectEntriesInOrder n = before n1 j @ collectEntriesInOrder ?c @ after n1 j"
    using collect_focus [of n1 j] n1(2,3,6) by simp
  have "\<exists>c'. insertNonFull lt fuel' ?c e = Some c' \<and> shape h c' \<and> okSize c' \<and>
      collectEntriesInOrder c' = insertSorted lt e (collectEntriesInOrder ?c)"
    using Suc.prems(6) whole
    by (intro Suc.IH c n1(7) fuel(2) sorted_focus(3) [OF n1(2,3) srt1])
      (use c(2) in \<open>auto simp: okSize_def\<close>)
  then obtain c' where c': "insertNonFull lt fuel' ?c e = Some c'" "shape h c'" "okSize c'"
      "collectEntriesInOrder c' = insertSorted lt e (collectEntriesInOrder ?c)" by blast
  obtain n' where n': "withChild (\<lambda>c. insertNonFull lt fuel' c e) n1 j = Some n'"
      "shape (Suc h) n'" "length (m_entries n') = length (m_entries n1)"
      "collectEntriesInOrder n' = before n1 j @ collectEntriesInOrder c' @ after n1 j"
    using withChild_correct [of h n1 j "\<lambda>c. insertNonFull lt fuel' c e" c', OF n1(2,3) c'(1-3)]
    by blast
  have "collectEntriesInOrder n' = insertSorted lt e (collectEntriesInOrder n)"
    using before_less [OF n1(2,3) srt1 n1(8)] after_greater [OF n1(2,3) srt1 n1(9)]
    unfolding whole n'(4) c'(4)
    by (simp add: insertSorted_left insertSorted_right)
  moreover have "insertNonFull lt fuel n e = Some n'"
    using sub n1(1) n'(1) b(1) by (simp add: fuel i_def [symmetric] Let_def)
  moreover have "okSize n'"
    using n'(3) n1(4,5) Suc.prems(2,3) by (auto simp: okSize_def Suc_le_eq)
  ultimately show ?case using n'(2) by blast
qed

end

section \<open>Removal\<close>

lemma rebalancesD:
  assumes "rebalances h n i n' j" and "shape (Suc h) n" and "i \<le> length (m_entries n)"
  shows "shape (Suc h) n'" and "j \<le> length (m_entries n')"
    and "shape h (m_children n' ! j)" and "okSize (m_children n' ! j)"
    and "s_minimumDegree \<le> length (m_entries (m_children n' ! j))"
    and "length (m_entries n) \<le> Suc (length (m_entries n'))"
    and "length (m_entries n') \<le> length (m_entries n)"
    and "collectEntriesInOrder n' = collectEntriesInOrder n"
    and "\<exists>a. before n i = before n' j @ a" and "\<exists>b. after n i = b @ after n' j"
    and "set (collectEntriesInOrder (m_children n ! i)) \<subseteq>
           set (collectEntriesInOrder (m_children n' ! j))"
proof -
  from assms(1) show "shape (Suc h) n'" and j: "j \<le> length (m_entries n')"
    and "s_minimumDegree \<le> length (m_entries (m_children n' ! j))"
    and "length (m_entries n) \<le> Suc (length (m_entries n'))"
    and "length (m_entries n') \<le> length (m_entries n)"
    and "\<exists>a. before n i = before n' j @ a" and "\<exists>b. after n i = b @ after n' j"
    and "set (collectEntriesInOrder (m_children n ! i)) \<subseteq>
           set (collectEntriesInOrder (m_children n' ! j))"
    by (auto simp: rebalances_def absorbs_def simp del: shape.simps)
  then show "shape h (m_children n' ! j)" "okSize (m_children n' ! j)" by auto
  show "collectEntriesInOrder n' = collectEntriesInOrder n"
    using assms \<open>shape (Suc h) n'\<close> j collect_focus [of n i] collect_focus [of n' j]
    by (auto simp: rebalances_def absorbs_def)
qed

lemma rebalances_refl:
  assumes "shape (Suc h) n" and "i \<le> length (m_entries n)"
    and "length (m_entries (m_children n ! i)) \<noteq> 1"
  shows "rebalances h n i n i"
proof -
  have "okSize (m_children n ! i)" using assms(1,2) by auto
  with assms(3) have "s_minimumDegree \<le> length (m_entries (m_children n ! i))"
    by (simp add: okSize_def)
  with assms show ?thesis by (simp add: rebalances_def absorbs_refl del: shape.simps)
qed

lemma small_child:
  assumes "shape (Suc h) n" and "i \<le> length (m_entries n)"
    and "\<not> s_minimumDegree \<le> length (m_entries (m_children n ! i))"
  shows "length (m_entries (m_children n ! i)) = 1"
proof -
  have "okSize (m_children n ! i)" using assms(1,2) by auto
  with assms(3) show ?thesis by (simp add: okSize_def)
qed

lemma prepareChild_correct:
  assumes sh: "shape (Suc h) n" and i: "i \<le> length (m_entries n)" and ne: "m_entries n \<noteq> []"
  shows "\<exists>n' j. prepareChild n i = Some (n', j) \<and> rebalances h n i n' j"
proof (cases "length (m_entries (m_children n ! i)) = 1")
  case False
  then show ?thesis using rebalances_refl [OF sh i] by (simp add: prepareChild_def)
next
  case small: True
  have len: "length (m_children n) = Suc (length (m_entries n))" using sh by simp
  consider (prev) "0 < i" "s_minimumDegree \<le> length (m_entries (m_children n ! (i - 1)))"
    | (right) "\<not> (0 < i \<and> s_minimumDegree \<le> length (m_entries (m_children n ! (i - 1))))"
        "i < length (m_entries n)" "s_minimumDegree \<le> length (m_entries (m_children n ! Suc i))"
    | (merge) "\<not> (0 < i \<and> s_minimumDegree \<le> length (m_entries (m_children n ! (i - 1))))"
        "i < length (m_entries n)" "\<not> s_minimumDegree \<le> length (m_entries (m_children n ! Suc i))"
    | (last) k where "i = Suc k" "\<not> s_minimumDegree \<le> length (m_entries (m_children n ! k))"
        "i = length (m_entries n)"
    using i ne by (cases i) (auto simp: le_less)
  then show ?thesis
  proof cases
    case prev
    with borrowFromPrevious_correct [OF sh _ i small] small show ?thesis
      by (auto simp: prepareChild_def)
  next
    case right
    with borrowFromNext_correct [OF sh _ small] small len show ?thesis
      by (auto simp: prepareChild_def)
  next
    case merge
    then have "length (m_entries (m_children n ! Suc i)) = 1"
      using small_child [OF sh, of "Suc i"] by simp
    with merge mergeChildren_correct [OF sh merge(2) small] small len show ?thesis
      by (auto simp: prepareChild_def)
  next
    case last
    then have one: "length (m_entries (m_children n ! k)) = 1"
      using small_child [OF sh, of k] by simp
    obtain n' where "mergeChildren n k = Some n'" "rebalances h n (Suc k) n' k"
      using mergeChildren_correct [OF sh, of k] last one small by auto
    with last one small show ?thesis
      by (auto simp: prepareChild_def)
  qed
qed

text \<open>The two extreme preparations are instances of the general one.\<close>

lemma prepareLast_eq:
  assumes sh: "shape (Suc h) n" and ne: "m_entries n \<noteq> []"
  shows "prepareLast n = prepareChild n (length (m_entries n))"
  using assms by (simp add: prepareLast_def prepareChild_def Let_def)

lemma prepareFirst_eq:
  assumes sh: "shape (Suc h) n" and ne: "m_entries n \<noteq> []"
  shows "map_option (\<lambda>n'. (n', 0)) (prepareFirst n) = prepareChild n 0"
  using assms by (simp add: prepareFirst_def prepareChild_def)

lemma removeMaximum_correct:
  assumes "shape h n" and "s_minimumDegree \<le> length (m_entries n)" and "h < fuel"
  shows "\<exists>e n'. removeMaximum fuel n = Some (e, n') \<and> shape h n' \<and>
     length (m_entries n) \<le> Suc (length (m_entries n')) \<and>
     length (m_entries n') \<le> length (m_entries n) \<and>
     collectEntriesInOrder n = collectEntriesInOrder n' @ [e]"
  using assms
proof (induction h arbitrary: n fuel)
  case 0
  then obtain fuel' where "fuel = Suc fuel'" by (cases fuel) auto
  moreover have "m_entries n \<noteq> []" using 0 by auto
  ultimately show ?case using 0 by (auto simp: collect_leaf)
next
  case (Suc h)
  then obtain fuel' where fuel: "fuel = Suc fuel'" "h < fuel'" by (cases fuel) auto
  have ne: "m_entries n \<noteq> []" using Suc.prems by auto
  obtain n1 j where n1: "prepareLast n = Some (n1, j)" "rebalances h n (length (m_entries n)) n1 j"
    using prepareChild_correct [OF Suc.prems(1) _ ne] prepareLast_eq [OF Suc.prems(1) ne]
    by fastforce
  note D = rebalancesD [OF n1(2) Suc.prems(1) order_refl]
  have "after n (length (m_entries n)) = []" by (simp add: after_def)
  with D(10) have last: "after n1 j = []" by auto
  obtain e c where c: "removeMaximum fuel' (m_children n1 ! j) = Some (e, c)" "shape h c"
      "length (m_entries (m_children n1 ! j)) \<le> Suc (length (m_entries c))"
      "length (m_entries c) \<le> length (m_entries (m_children n1 ! j))"
      "collectEntriesInOrder (m_children n1 ! j) = collectEntriesInOrder c @ [e]"
    using Suc.IH [OF D(3,5) fuel(2)] by blast
  have "okSize c" using c(3,4) D(4,5) by (simp add: okSize_def)
  then obtain n' where n': "withChildEntry (removeMaximum fuel') n1 j = Some (e, n')"
      "shape (Suc h) n'" "length (m_entries n') = length (m_entries n1)"
      "collectEntriesInOrder n' = before n1 j @ collectEntriesInOrder c @ after n1 j"
    using withChildEntry_correct [where f = "removeMaximum fuel'", OF D(1,2) c(1,2)] by blast
  have "collectEntriesInOrder n = collectEntriesInOrder n' @ [e]"
    using collect_focus [of n1 j] D(1,2,8) n'(4) last c(5) by simp
  moreover have "removeMaximum fuel n = Some (e, n')"
    using Suc.prems(1) n1(1) n'(1) by (auto simp: fuel)
  ultimately show ?case using n'(2,3) D(6,7) by (intro exI [of _ e] exI [of _ n']) simp
qed

lemma removeMinimum_correct:
  assumes "shape h n" and "s_minimumDegree \<le> length (m_entries n)" and "h < fuel"
  shows "\<exists>e n'. removeMinimum fuel n = Some (e, n') \<and> shape h n' \<and>
     length (m_entries n) \<le> Suc (length (m_entries n')) \<and>
     length (m_entries n') \<le> length (m_entries n) \<and>
     collectEntriesInOrder n = e # collectEntriesInOrder n'"
  using assms
proof (induction h arbitrary: n fuel)
  case 0
  then obtain fuel' where "fuel = Suc fuel'" by (cases fuel) auto
  moreover have "m_entries n \<noteq> []" using 0 by auto
  ultimately show ?case using 0 by (auto simp: collect_leaf)
next
  case (Suc h)
  then obtain fuel' where fuel: "fuel = Suc fuel'" "h < fuel'" by (cases fuel) auto
  have ne: "m_entries n \<noteq> []" using Suc.prems by auto
  obtain n1 j where "prepareChild n 0 = Some (n1, j)" "rebalances h n 0 n1 j"
    using prepareChild_correct [OF Suc.prems(1) _ ne, of 0] by auto
  then have n1: "prepareFirst n = Some n1" "rebalances h n 0 n1 0"
    using prepareFirst_eq [OF Suc.prems(1) ne] by auto
  note D = rebalancesD [OF n1(2) Suc.prems(1) le0]
  have first: "before n1 0 = []" by (simp add: before_def)
  obtain e c where c: "removeMinimum fuel' (m_children n1 ! 0) = Some (e, c)" "shape h c"
      "length (m_entries (m_children n1 ! 0)) \<le> Suc (length (m_entries c))"
      "length (m_entries c) \<le> length (m_entries (m_children n1 ! 0))"
      "collectEntriesInOrder (m_children n1 ! 0) = e # collectEntriesInOrder c"
    using Suc.IH [OF D(3,5) fuel(2)] by blast
  have "okSize c" using c(3,4) D(4,5) by (simp add: okSize_def)
  then obtain n' where n': "withChildEntry (removeMinimum fuel') n1 0 = Some (e, n')"
      "shape (Suc h) n'" "length (m_entries n') = length (m_entries n1)"
      "collectEntriesInOrder n' = before n1 0 @ collectEntriesInOrder c @ after n1 0"
    using withChildEntry_correct [where f = "removeMinimum fuel'", OF D(1,2) c(1,2)] by blast
  have "collectEntriesInOrder n = e # collectEntriesInOrder n'"
    using collect_focus [of n1 0] D(1,2,8) n'(4) first c(5) by simp
  moreover have "removeMinimum fuel n = Some (e, n')"
    using Suc.prems(1) n1(1) n'(1) by (auto simp: fuel)
  ultimately show ?case using n'(2,3) D(6,7) by (intro exI [of _ e] exI [of _ n']) simp
qed

lemma after_Cons:
  assumes "shape (Suc h) n" and "i < length (m_entries n)"
  shows "after n i =
     m_entries n ! i # collectEntriesInOrder (m_children n ! Suc i) @ after n (Suc i)"
proof -
  have "drop i (m_entries n) = m_entries n ! i # drop (Suc i) (m_entries n)"
    using assms(2) by (simp add: Cons_nth_drop_Suc)
  moreover have "drop (Suc i) (m_children n) =
      m_children n ! Suc i # drop (Suc (Suc i)) (m_children n)"
    using assms by (simp add: Cons_nth_drop_Suc)
  ultimately show ?thesis
    using assms by (simp add: after_def interleave_first)
qed

lemma replace_entry:
  assumes sh: "shape (Suc h) n" and i: "i < length (m_entries n)"
    and c: "shape h c" "okSize c" and d: "shape h d" "okSize d"
    and n': "n' = refreshNodeMaxEnd (Node ((m_entries n)[i := e])
       ((m_children n)[i := c, Suc i := d]) (m_subtreeMaxEnd n) (m_isLeaf n))"
  shows "shape (Suc h) n'" and "collectEntriesInOrder n' =
     before n i @ collectEntriesInOrder c @ e # collectEntriesInOrder d @ after n (Suc i)"
proof -
  show sh': "shape (Suc h) n'"
    using assms by (auto dest!: set_update_subset_insert [THEN subsetD])
  have "m_children n' ! i = c" "m_children n' ! Suc i = d" "m_entries n' ! i = e"
    using sh i by (simp_all add: n')
  then show "collectEntriesInOrder n' =
     before n i @ collectEntriesInOrder c @ e # collectEntriesInOrder d @ after n (Suc i)"
    using sh' i collect_focus [of n' i] after_Cons [OF sh', of i]
    by (simp add: n' before_def after_def)
qed

context entry_order
begin

lemma scanForward_bounds:
  assumes "sorted_wrt lt es"
  shows "scanForward lt t es \<le> length es"
    and "\<forall>x \<in> set (take (scanForward lt t es) es). lt x t"
    and "\<forall>x \<in> set (drop (scanForward lt t es) es). \<not> lt x t"
  using assms
proof (induction es)
  case (Cons e es)
  { case 1 with Cons show ?case by simp }
  { case 2 with Cons show ?case by simp }
  { case 3 with Cons show ?case by (auto intro: lt_trans) }
qed simp_all

text \<open>When the target is not an entry of the node, everything right of the scan is greater.\<close>

lemma scanForward_greater:
  assumes "sorted_wrt lt es"
    and "\<not> (scanForward lt t es < length es \<and>
            m_ordinal (es ! scanForward lt t es) = m_ordinal t)"
  shows "\<forall>x \<in> set (drop (scanForward lt t es) es). lt t x"
proof (cases "scanForward lt t es < length es")
  case True
  let ?i = "scanForward lt t es"
  have d: "drop ?i es = es ! ?i # drop (Suc ?i) es" using True by (simp add: Cons_nth_drop_Suc)
  have "\<not> lt (es ! ?i) t"
    using scanForward_bounds(3) [OF assms(1), of t] d by simp
  then have gt: "lt t (es ! ?i)"
    using assms(2) True lt_total by blast
  have "sorted_wrt lt (drop ?i es)" using assms(1) by (rule sorted_wrt_drop)
  with gt show ?thesis unfolding d by (auto intro: lt_trans)
qed simp

lemma less_notin: "\<forall>x \<in> set xs. lt x t \<Longrightarrow> t \<notin> set xs"
  and greater_notin: "\<forall>x \<in> set xs. lt t x \<Longrightarrow> t \<notin> set xs"
  using lt_irrefl by auto

lemma eraseEntryNode_step:
  assumes "shape h n" and "m_entries n \<noteq> []" and "h < fuel"
    and "sorted_wrt lt (collectEntriesInOrder n)" and "t \<in> set (collectEntriesInOrder n)"
    and "\<forall>x \<in> set (collectEntriesInOrder n). m_ordinal x = m_ordinal t \<longrightarrow> x = t"
  shows "\<exists>n'. eraseEntryNode lt fuel n t = Some n' \<and> shape h n' \<and>
     length (m_entries n) \<le> Suc (length (m_entries n')) \<and>
     length (m_entries n') \<le> length (m_entries n) \<and>
     collectEntriesInOrder n' = remove1 t (collectEntriesInOrder n)"
  using assms
proof (induction h arbitrary: n fuel)
  case 0
  then obtain fuel' where fuel: "fuel = Suc fuel'" by (cases fuel) auto
  define i where "i = scanForward lt t (m_entries n)"
  have c: "collectEntriesInOrder n = m_entries n" "m_isLeaf n" using 0 by (auto simp: collect_leaf)
  note srt = "0.prems"(4) [unfolded c(1)]
  have lo: "t \<notin> set (take i (m_entries n))"
    using scanForward_bounds(2) [OF srt] less_notin unfolding i_def by blast
  have found: "i < length (m_entries n) \<and> m_ordinal (m_entries n ! i) = m_ordinal t"
  proof (rule ccontr)
    assume "\<not> ?thesis"
    with scanForward_greater [OF srt] have "t \<notin> set (drop i (m_entries n))"
      using greater_notin unfolding i_def by blast
    with lo "0.prems"(5) c(1) show False
      by (metis append_take_drop_id Un_iff set_append)
  qed
  then have at: "m_entries n ! i = t" using "0.prems"(6) c(1) by auto
  have "remove1 t (m_entries n) = take i (m_entries n) @ drop (Suc i) (m_entries n)"
    using lo found at by (subst id_take_nth_drop [of i "m_entries n"]) (auto simp: remove1_append)
  with found "0.prems"(1) c show ?case
    by (auto simp: fuel i_def [symmetric] Let_def collect_leaf)
next
  case (Suc h)
  then obtain fuel' where fuel: "fuel = Suc fuel'" "h < fuel'" by (cases fuel) auto
  define i where "i = scanForward lt t (m_entries n)"
  note sh = Suc.prems(1) and srt = Suc.prems(4)
  have sub: "set (m_entries n) \<subseteq> set (collectEntriesInOrder n)" "\<not> m_isLeaf n"
      "length (m_children n) = Suc (length (m_entries n))"
    using sorted_focus(7) [OF sh _ srt, of 0] sh by auto
  have esrt: "sorted_wrt lt (m_entries n)"
    using interleave_sorted [of "map collectEntriesInOrder (m_children n)" "m_entries n" lt]
      srt sub by (simp add: collect_inner)
  have i: "i \<le> length (m_entries n)" and lo: "\<forall>x \<in> set (take i (m_entries n)). lt x t"
    using scanForward_bounds [OF esrt, of t] by (auto simp: i_def)
  have tb: "t \<notin> set (before n i)"
    by (rule less_notin [OF before_less [OF sh i srt lo]])
  have whole: "collectEntriesInOrder n =
      before n i @ collectEntriesInOrder (m_children n ! i) @ after n i"
    using collect_focus [of n i] sub i by simp
  let ?found = "i < length (m_entries n) \<and> m_ordinal (m_entries n ! i) = m_ordinal t"
  show ?case
  proof (cases ?found)
    case False
    have ta: "t \<notin> set (after n i)"
      using after_greater [OF sh i srt] scanForward_greater [OF esrt] False greater_notin
      unfolding i_def by blast
    obtain n1 j where n1: "prepareChild n i = Some (n1, j)" "rebalances h n i n1 j"
      using prepareChild_correct [OF sh i Suc.prems(2)] by blast
    note D = rebalancesD [OF n1(2) sh i]
    let ?c = "m_children n1 ! j"
    have t1: "t \<in> set (collectEntriesInOrder ?c)" "t \<notin> set (before n1 j)" "t \<notin> set (after n1 j)"
      using D(9,10,11) Suc.prems(5) tb ta whole by auto
    have whole1: "collectEntriesInOrder n =
        before n1 j @ collectEntriesInOrder ?c @ after n1 j"
      using collect_focus [of n1 j] D(1,2,8) by simp
    have c: "m_entries ?c \<noteq> []" "sorted_wrt lt (collectEntriesInOrder ?c)"
        "\<forall>x \<in> set (collectEntriesInOrder ?c). m_ordinal x = m_ordinal t \<longrightarrow> x = t"
      using D(5) srt Suc.prems(6) unfolding whole1 by (auto simp: sorted_wrt_append)
    obtain c' where c': "eraseEntryNode lt fuel' ?c t = Some c'" "shape h c'"
        "length (m_entries ?c) \<le> Suc (length (m_entries c'))"
        "length (m_entries c') \<le> length (m_entries ?c)"
        "collectEntriesInOrder c' = remove1 t (collectEntriesInOrder ?c)"
      using Suc.IH [OF D(3) c(1) fuel(2) c(2) t1(1) c(3)] by blast
    have "okSize c'" using c'(3,4) D(4,5) by (simp add: okSize_def)
    then obtain n' where n': "withChild (\<lambda>c. eraseEntryNode lt fuel' c t) n1 j = Some n'"
        "shape (Suc h) n'" "length (m_entries n') = length (m_entries n1)"
        "collectEntriesInOrder n' = before n1 j @ collectEntriesInOrder c' @ after n1 j"
      using withChild_correct [where f = "\<lambda>c. eraseEntryNode lt fuel' c t", OF D(1,2) c'(1,2)]
      by blast
    have "collectEntriesInOrder n' = remove1 t (collectEntriesInOrder n)"
      using t1 by (simp add: whole1 n'(4) c'(5) remove1_append)
    moreover have "eraseEntryNode lt fuel n t = Some n'"
      unfolding fuel(1) eraseEntryNode.simps Let_def i_def [symmetric] if_not_P [OF False]
      using sub i n1(1) n'(1) by simp
    ultimately show ?thesis using n'(2,3) D(6,7) by auto
  next
    case True
    then have il: "i < length (m_entries n)" by simp
    with True Suc.prems(6) sub(1) have at: "m_entries n ! i = t" by (metis nth_mem subsetD)
    let ?c = "m_children n ! i" and ?d = "m_children n ! Suc i"
    have kids: "shape h ?c" "okSize ?c" "shape h ?d" "okSize ?d" using sh il by auto
    have whole2: "collectEntriesInOrder n = before n i @ collectEntriesInOrder ?c @
        t # collectEntriesInOrder ?d @ after n (Suc i)"
      using whole after_Cons [OF sh il] at by simp
    have "distinct (collectEntriesInOrder n)" using srt by (rule sorted_distinct)
    then have tc: "t \<notin> set (collectEntriesInOrder ?c)" unfolding whole2 by auto
    have goal: "remove1 t (collectEntriesInOrder n) = before n i @ collectEntriesInOrder ?c @
        collectEntriesInOrder ?d @ after n (Suc i)"
      using tb tc by (simp add: whole2 remove1_append)
    consider (left) "s_minimumDegree \<le> length (m_entries ?c)"
      | (right) "\<not> s_minimumDegree \<le> length (m_entries ?c)" "s_minimumDegree \<le> length (m_entries ?d)"
      | (merge) "\<not> s_minimumDegree \<le> length (m_entries ?c)" "\<not> s_minimumDegree \<le> length (m_entries ?d)"
      by blast
    then show ?thesis
    proof cases
      case left
      obtain e c' where c': "removeMaximum fuel' ?c = Some (e, c')" "shape h c'"
          "length (m_entries ?c) \<le> Suc (length (m_entries c'))"
          "length (m_entries c') \<le> length (m_entries ?c)"
          "collectEntriesInOrder ?c = collectEntriesInOrder c' @ [e]"
        using removeMaximum_correct [OF kids(1) left fuel(2)] by blast
      have "okSize c'" using c'(3,4) kids(2) left by (simp add: okSize_def)
      note R = replace_entry [OF sh il c'(2) this kids(3,4) refl, of e]
      have "(m_children n)[i := c', Suc i := ?d] = (m_children n)[i := c']"
        using sub il by (metis list_update_id list_update_swap n_not_Suc_n)
      then show ?thesis
        using R left True sub c'(1,5) goal il
        by (simp add: fuel(1) i_def [symmetric] Let_def del: shape.simps)
    next
      case right
      obtain e d' where d': "removeMinimum fuel' ?d = Some (e, d')" "shape h d'"
          "length (m_entries ?d) \<le> Suc (length (m_entries d'))"
          "length (m_entries d') \<le> length (m_entries ?d)"
          "collectEntriesInOrder ?d = e # collectEntriesInOrder d'"
        using removeMinimum_correct [OF kids(3) right(2) fuel(2)] by blast
      have "okSize d'" using d'(3,4) kids(4) right(2) by (simp add: okSize_def)
      note R = replace_entry [OF sh il kids(1,2) d'(2) this refl, of e]
      show ?thesis
        using R right True sub d'(1,5) goal il
        by (simp add: fuel(1) i_def [symmetric] Let_def del: shape.simps)
    next
      case merge
      have one: "length (m_entries ?c) = 1" "length (m_entries ?d) = 1"
        using small_child [OF sh i merge(1)] small_child [OF sh _ merge(2)] il by auto
      obtain n1 where n1: "mergeChildren n i = Some n1" "rebalances h n i n1 i"
          "collectEntriesInOrder (m_children n1 ! i) =
             collectEntriesInOrder ?c @ t # collectEntriesInOrder ?d"
          "before n1 i = before n i" "after n1 i = after n (Suc i)"
        using mergeChildren_correct [OF sh il one] at by auto
      note D = rebalancesD [OF n1(2) sh i]
      let ?m = "m_children n1 ! i"
      have sub1: "set (collectEntriesInOrder ?m) \<subseteq> set (collectEntriesInOrder n)"
        unfolding n1(3) whole2 by auto
      have "sorted_wrt lt (collectEntriesInOrder ?m)"
        using srt unfolding n1(3) whole2 by (auto simp: sorted_wrt_append)
      then obtain m' where m': "eraseEntryNode lt fuel' ?m t = Some m'" "shape h m'"
          "length (m_entries ?m) \<le> Suc (length (m_entries m'))"
          "length (m_entries m') \<le> length (m_entries ?m)"
          "collectEntriesInOrder m' = remove1 t (collectEntriesInOrder ?m)"
        using Suc.IH [OF D(3) _ fuel(2)] D(5) Suc.prems(6) sub1 n1(3) by fastforce
      have "okSize m'" using m'(3,4) D(4,5) by (simp add: okSize_def)
      then obtain n' where n': "withChild (\<lambda>c. eraseEntryNode lt fuel' c t) n1 i = Some n'"
          "shape (Suc h) n'" "length (m_entries n') = length (m_entries n1)"
          "collectEntriesInOrder n' = before n1 i @ collectEntriesInOrder m' @ after n1 i"
        using withChild_correct [where f = "\<lambda>c. eraseEntryNode lt fuel' c t", OF D(1,2) m'(1,2)]
        by blast
      have "collectEntriesInOrder n' = remove1 t (collectEntriesInOrder n)"
        using tc by (simp add: goal n'(4) m'(5) n1(3-5) remove1_append)
      moreover have "eraseEntryNode lt fuel n t = Some n'"
        using True merge sub il n1(1) n'(1) by (simp add: fuel(1) i_def [symmetric] Let_def)
      ultimately show ?thesis using n'(2,3) D(6,7) by auto
    qed
  qed
qed

end

section \<open>Pruned traversals visit exactly the overlapping entries\<close>

lemma interleave_set_le: "set (interleave cs es) \<subseteq> \<Union> (set ` set cs) \<union> set es"
  by (induction cs es rule: interleave.induct) (auto intro: bexI [OF _ last_in_set])

lemma maxEndOf_ge:
  "e \<in> set es \<Longrightarrow> m_end (m_range e) \<le> maxEndOf es cs"
  "c \<in> set cs \<Longrightarrow> m_subtreeMaxEnd c \<le> maxEndOf es cs"
proof -
  assume "e \<in> set es"
  then have "m_end (m_range e) \<le> foldl max INT64_MIN (map (\<lambda>e. m_end (m_range e)) es)"
    by (intro foldl_max_member) auto
  then show "m_end (m_range e) \<le> maxEndOf es cs"
    unfolding maxEndOf_def by (rule order_trans [OF _ foldl_max_ge])
next
  assume "c \<in> set cs"
  then show "m_subtreeMaxEnd c \<le> maxEndOf es cs"
    unfolding maxEndOf_def by (intro foldl_max_member) auto
qed

lemma subtreeMaxEnd_bound:
  "shape h n \<Longrightarrow> e \<in> set (collectEntriesInOrder n) \<Longrightarrow> m_end (m_range e) \<le> m_subtreeMaxEnd n"
proof (induction h arbitrary: n)
  case 0
  then show ?case by (auto simp: collect_leaf intro: maxEndOf_ge(1))
next
  case (Suc h)
  then have "e \<in> set (m_entries n) \<or>
      (\<exists>c \<in> set (m_children n). e \<in> set (collectEntriesInOrder c))"
    using interleave_set_le [of "map collectEntriesInOrder (m_children n)" "m_entries n"]
    by (auto simp: collect_inner)
  with Suc show ?case
    by (auto intro: maxEndOf_ge(1) order_trans [OF _ maxEndOf_ge(2)])
qed

lemma pruned_no_overlap:
  assumes "shape h n" and "m_subtreeMaxEnd n < m_start r" and "e \<in> set (collectEntriesInOrder n)"
  shows "\<not> overlaps (m_range e) r"
  using subtreeMaxEnd_bound [OF assms(1,3)] assms(2) by (simp add: overlaps_def)

lemma hasOverlapLoop_iff:
  assumes "length cs = Suc (length es)"
    and "\<forall>c \<in> set cs. f c \<longleftrightarrow> (\<exists>e \<in> set (g c). overlaps (m_range e) r)"
  shows "hasOverlapLoop r (map f cs) es \<longleftrightarrow>
     (\<exists>e \<in> set (interleave (map g cs) es). overlaps (m_range e) r)"
  using assms
proof (induction es arbitrary: cs)
  case Nil
  then show ?case by (auto simp: length_Suc_conv)
next
  case (Cons e es)
  then show ?case by (cases cs) auto
qed

lemma hasOverlapInSubtree_iff:
  "shape h n \<Longrightarrow> hasOverlapInSubtree n r \<longleftrightarrow>
     (\<exists>e \<in> set (collectEntriesInOrder n). overlaps (m_range e) r)"
proof (induction h arbitrary: n)
  case 0
  then show ?case
    using pruned_no_overlap [OF "0.prems"] by (cases n) (auto simp: list_ex_iff)
next
  case (Suc h)
  show ?case
  proof (cases "m_subtreeMaxEnd n < m_start r")
    case True
    then show ?thesis
      using pruned_no_overlap [OF Suc.prems True] by (cases n) auto
  next
    case False
    with Suc hasOverlapLoop_iff
      [of "m_children n" "m_entries n" "\<lambda>c. hasOverlapInSubtree c r" collectEntriesInOrder r]
    show ?thesis by (cases n) auto
  qed
qed

lemma visitLoop_eq:
  assumes "length cs = Suc (length es)"
    and "\<forall>c \<in> set cs. \<forall>s. f c s = fold (visitEntry r v) (g c) s"
  shows "visitLoop r v (map f cs) es s = fold (visitEntry r v) (interleave (map g cs) es) s"
  using assms
proof (induction es arbitrary: cs s)
  case Nil
  then show ?case by (auto simp: length_Suc_conv)
next
  case (Cons e es)
  then show ?case by (cases cs) auto
qed

lemma fold_visitEntry_none:
  "\<forall>e \<in> set es. \<not> overlaps (m_range e) r \<Longrightarrow> fold (visitEntry r v) es s = s"
  by (induction es) (auto simp: visitEntry_def)

lemma visitOverlappingInOrder_eq:
  "shape h n \<Longrightarrow> visitOverlappingInOrder n r v s =
     fold (visitEntry r v) (collectEntriesInOrder n) s"
proof (induction h arbitrary: n s)
  case 0
  then show ?case
    using fold_visitEntry_none [of "m_entries n" r v s] pruned_no_overlap [OF "0.prems", of r]
    by (cases n) auto
next
  case (Suc h)
  show ?case
  proof (cases "m_subtreeMaxEnd n < m_start r")
    case True
    then show ?thesis
      using fold_visitEntry_none [of "collectEntriesInOrder n" r v s]
        pruned_no_overlap [OF Suc.prems True]
      by (cases n) auto
  next
    case False
    with Suc visitLoop_eq [of "m_children n" "m_entries n"
        "\<lambda>c. visitOverlappingInOrder c r v" r v collectEntriesInOrder s]
    show ?thesis by (cases n) auto
  qed
qed

lemma fold_visitEntry_filter:
  "fold (visitEntry r v) es s =
     fold (\<lambda>e. v (m_range e) (m_value e)) (filter (\<lambda>e. overlaps (m_range e) r) es) s"
  by (induction es arbitrary: s) (auto simp: visitEntry_def)

end
