(* ===== verification/IntervalBTree.thy ===== *)
theory IntervalBTree
  imports IntervalNodeShape
begin

text \<open>
  The public operations of \<open>Dmn_IntervalBTree\<close> (\<open>include/dmn-interval-btree.hpp\<close>) over the
  node operations of \<open>IntervalNode\<close>.  A throwing operation is \<open>Inl\<close> of its exception and
  leaves the tree alone; a mutation returns the new tree, the state-change notifications it
  delivered, in order, and whether one of the callbacks threw (the mutation is not rolled
  back).  \<open>UndefinedAccess\<close> stands for an out-of-range access of a vector; the correctness
  theorems show that no operation on a well-formed tree reaches it.
\<close>

section \<open>State\<close>

datatype tree_error =
    InvalidArgument string
  | LogicError string
  | OverflowError string
  | UndefinedAccess

record ('a, 'c) callback_registration =
  reg_id :: u64
  reg_matches :: "'a \<Rightarrow> bool"
  reg_callback :: 'c

record ('a, 'c) interval_btree =
  m_canonicalComparator :: canonical_comparator
  m_priorityEvaluator :: "('a \<Rightarrow> 'a \<Rightarrow> bool) option"
  m_dispatchingCallbacks :: bool
  m_suppressCallbacks :: bool
  m_root :: "('a, 'c) node option"
  m_size :: u64
  m_nextOrdinal :: u64
  m_callbackRegistrations :: "('a, 'c) callback_registration list"
  m_nextCallbackRegistrationId :: u64

definition newTree ::
    "canonical_comparator \<Rightarrow> ('a \<Rightarrow> 'a \<Rightarrow> bool) option \<Rightarrow> ('a, 'c) interval_btree" where
  "newTree cmp prio =
     \<lparr>m_canonicalComparator = cmp, m_priorityEvaluator = prio, m_dispatchingCallbacks = False,
      m_suppressCallbacks = False, m_root = None, m_size = 0, m_nextOrdinal = 0,
      m_callbackRegistrations = [], m_nextCallbackRegistrationId = 1\<rparr>"

text \<open>One delivered state-change notification: the arguments of the callback invocation.\<close>

record ('a, 'c) notification =
  n_callback :: 'c
  n_range :: interval_range
  n_value :: 'a
  n_oldState :: overlay_state
  n_newState :: overlay_state

datatype 'r completion = Returned 'r | CallbackThrew

type_synonym ('r, 'a, 'c) mutation =
  "tree_error + ('r completion \<times> ('a, 'c) interval_btree \<times> ('a, 'c) notification list)"

section \<open>Reading the tree\<close>

definition entriesInOrder :: "('a, 'c) interval_btree \<Rightarrow> ('a, 'c) entry list" where
  "entriesInOrder t = (case m_root t of None \<Rightarrow> [] | Some n \<Rightarrow> collectEntriesInOrder n)"

fun treeHeight :: "('a, 'c) node \<Rightarrow> nat" where
  "treeHeight (Node es [] m l) = 0"
| "treeHeight (Node es (c # cs) m l) = Suc (treeHeight c)"

definition lessOf :: "('a, 'c) interval_btree \<Rightarrow> ('a, 'c) entry \<Rightarrow> ('a, 'c) entry \<Rightarrow> bool" where
  "lessOf t = entryLess (m_canonicalComparator t)"

definition calculateState ::
    "('a, 'c) interval_btree \<Rightarrow> ('a, 'c) entry \<Rightarrow> overlay_state" where
  "calculateState t candidate =
     (let ovs = filter (\<lambda>e. m_ordinal e \<noteq> m_ordinal candidate \<and>
                            overlaps (m_range candidate) (m_range e)) (entriesInOrder t)
      in \<lparr>m_topology = classifyTopology (m_range candidate) (map m_range ovs),
          m_isTop = (case m_priorityEvaluator t of
                       None \<Rightarrow> True
                     | Some higher \<Rightarrow>
                         \<not> list_ex (\<lambda>e. higher (m_value e) (m_value candidate)) ovs)\<rparr>)"

definition treeEmpty :: "('a, 'c) interval_btree \<Rightarrow> bool" where
  "treeEmpty t \<longleftrightarrow> m_size t = 0"

definition treeSize :: "('a, 'c) interval_btree \<Rightarrow> u64" where
  "treeSize t = m_size t"

definition hasOverlap :: "('a, 'c) interval_btree \<Rightarrow> interval_range \<Rightarrow> bool" where
  "hasOverlap t r \<longleftrightarrow>
     isValid r \<and> (case m_root t of None \<Rightarrow> False | Some n \<Rightarrow> hasOverlapInSubtree n r)"

definition forEachOverlapping ::
    "('a, 'c) interval_btree \<Rightarrow> interval_range \<Rightarrow>
     (interval_range \<Rightarrow> 'a \<Rightarrow> 's \<Rightarrow> 's) option \<Rightarrow> 's \<Rightarrow> tree_error + 's" where
  "forEachOverlapping t r visitor s =
     (case visitor of
        None \<Rightarrow> Inl (InvalidArgument ''overlap visitor must be callable'')
      | Some v \<Rightarrow>
          if \<not> isValid r then Inl (InvalidArgument ''range is invalid'')
          else (case m_root t of
                  None \<Rightarrow> Inr s
                | Some n \<Rightarrow> Inr (visitOverlappingInOrder n r v s)))"

definition findOverlapping ::
    "('a, 'c) interval_btree \<Rightarrow> interval_range \<Rightarrow> tree_error + (interval_range \<times> 'a) list" where
  "findOverlapping t r =
     (if \<not> isValid r then Inl (InvalidArgument ''range is invalid'')
      else forEachOverlapping t r
             (Some (\<lambda>overlapRange v result. result @ [(overlapRange, v)])) [])"

record 'a topology_result =
  m_status :: overlay_topology
  m_resultIsTop :: bool
  m_overlappingEntries :: "(interval_range \<times> 'a) list"

definition queryTopology ::
    "('a, 'c) interval_btree \<Rightarrow> interval_range \<Rightarrow> 'a \<Rightarrow> tree_error + 'a topology_result" where
  "queryTopology t r v =
     (if \<not> isValid r then Inl (InvalidArgument ''range is invalid'')
      else (case findOverlapping t r of
              Inl err \<Rightarrow> Inl err
            | Inr ovs \<Rightarrow>
                Inr \<lparr>m_status = classifyTopology r (map fst ovs),
                     m_resultIsTop = (case m_priorityEvaluator t of
                        None \<Rightarrow> True
                      | Some higher \<Rightarrow> \<not> list_ex (\<lambda>x. higher (snd x) v) ovs),
                     m_overlappingEntries = ovs\<rparr>))"

definition enumerateLess ::
    "('a, 'c) interval_btree \<Rightarrow> ('a \<Rightarrow> 'a \<Rightarrow> bool) option \<Rightarrow>
     ('a, 'c) entry \<Rightarrow> ('a, 'c) entry \<Rightarrow> bool" where
  "enumerateLess t duplicateOrder lhs rhs =
     (if m_start (m_range lhs) = m_start (m_range rhs) \<and>
         m_end (m_range lhs) = m_end (m_range rhs)
      then (case duplicateOrder of
              Some ord \<Rightarrow> ord (m_value lhs) (m_value rhs)
            | None \<Rightarrow> m_ordinal lhs < m_ordinal rhs)
      else lessOf t lhs rhs)"

definition enumerateCanonical ::
    "('a, 'c) interval_btree \<Rightarrow> ('a \<Rightarrow> 'a \<Rightarrow> bool) option \<Rightarrow> (interval_range \<times> 'a) list" where
  "enumerateCanonical t duplicateOrder =
     map (\<lambda>e. (m_range e, m_value e))
       (stableSort (enumerateLess t duplicateOrder) (entriesInOrder t))"

section \<open>Entry states and notification\<close>

fun mapEntries :: "(('a, 'c) entry \<Rightarrow> ('a, 'c) entry) \<Rightarrow> ('a, 'c) node \<Rightarrow> ('a, 'c) node" where
  "mapEntries f (Node es cs m l) = Node (map f es) (map (mapEntries f) cs) m l"

definition setEntryState ::
    "('a, 'c) interval_btree \<Rightarrow> u64 \<Rightarrow> overlay_state \<Rightarrow> ('a, 'c) interval_btree" where
  "setEntryState t ordinal st =
     t\<lparr>m_root := map_option
         (mapEntries (\<lambda>e. if m_ordinal e = ordinal then e\<lparr>m_state := st\<rparr> else e)) (m_root t)\<rparr>"

text \<open>The first loop of \<open>updateStatesAndNotify\<close>: recompute, store, and record transitions.\<close>

fun updateStates ::
    "('a, 'c) interval_btree \<Rightarrow> (('a, 'c) entry \<times> overlay_state) list \<Rightarrow>
     ('a, 'c) interval_btree \<times> (('a, 'c) entry \<times> overlay_state \<times> overlay_state) list" where
  "updateStates t [] = (t, [])"
| "updateStates t ((e, oldState) # rest) =
     (let newState = calculateState t e;
          (t', transitions) = updateStates (setEntryState t (m_ordinal e) newState) rest
      in (t', if m_topology oldState \<noteq> m_topology newState \<or>
                 m_isTop oldState \<noteq> m_isTop newState
              then (e, oldState, newState) # transitions else transitions))"

text \<open>
  The second loop delivers the transitions; \<open>throws\<close> says which invocations throw, and the
  first that does ends the loop.
\<close>

fun dispatchTransitions ::
    "(('a, 'c) notification \<Rightarrow> bool) \<Rightarrow>
     (('a, 'c) entry \<times> overlay_state \<times> overlay_state) list \<Rightarrow>
     ('a, 'c) notification list \<times> bool" where
  "dispatchTransitions throws [] = ([], False)"
| "dispatchTransitions throws ((e, oldState, newState) # rest) =
     (case m_onStateChange e of
        None \<Rightarrow> dispatchTransitions throws rest
      | Some callback \<Rightarrow>
          let n = \<lparr>n_callback = callback, n_range = m_range e, n_value = m_value e,
                   n_oldState = oldState, n_newState = newState\<rparr>
          in if throws n then ([n], True)
             else let (ns, threw) = dispatchTransitions throws rest in (n # ns, threw))"

definition updateStatesAndNotify ::
    "(('a, 'c) notification \<Rightarrow> bool) \<Rightarrow> ('a, 'c) interval_btree \<Rightarrow>
     (('a, 'c) entry \<times> overlay_state) list \<Rightarrow>
     ('a, 'c) interval_btree \<times> ('a, 'c) notification list \<times> bool" where
  "updateStatesAndNotify throws t oldStates =
     (let (t', transitions) = updateStates t oldStates
      in if transitions = [] then (t', [], False)
         else if m_suppressCallbacks t' then (t', [], False)
         else (t', dispatchTransitions throws transitions))"

definition ensureMutationAllowed :: "('a, 'c) interval_btree \<Rightarrow> tree_error option" where
  "ensureMutationAllowed t =
     (if m_dispatchingCallbacks t
      then Some (LogicError ''reentrant interval B-tree mutation'') else None)"

text \<open>What a callback sees while \<open>MutationBlockGuard\<close> is alive.\<close>

definition guardedView :: "('a, 'c) interval_btree \<Rightarrow> ('a, 'c) interval_btree" where
  "guardedView t = t\<lparr>m_dispatchingCallbacks := True\<rparr>"

section \<open>Insertion\<close>

definition growRoot :: "('a, 'c) node option \<Rightarrow> ('a, 'c) node option" where
  "growRoot root =
     (let r = (case root of None \<Rightarrow> emptyNode | Some n \<Rightarrow> n) in
      if length (m_entries r) = 2 * s_minimumDegree - 1
      then splitChild (Node [] [r] INT64_MIN False) 0
      else Some r)"

definition insertEntry ::
    "(('a, 'c) notification \<Rightarrow> bool) \<Rightarrow> ('a, 'c) interval_btree \<Rightarrow> ('a, 'c) entry \<Rightarrow>
     (bool, 'a, 'c) mutation" where
  "insertEntry throws t e =
     (if \<not> isValid (m_range e) then Inl (InvalidArgument ''range is invalid'')
      else
        let oldStates = map (\<lambda>x. (x, m_state x))
              (filter (\<lambda>x. overlaps (m_range x) (m_range e)) (entriesInOrder t))
        in case growRoot (m_root t) of
             None \<Rightarrow> Inl UndefinedAccess
           | Some root \<Rightarrow>
               (case insertNonFull (lessOf t) (Suc (treeHeight root)) root e of
                  None \<Rightarrow> Inl UndefinedAccess
                | Some root' \<Rightarrow>
                    let t1 = t\<lparr>m_root := Some root', m_nextOrdinal := m_nextOrdinal t + 1,
                               m_size := m_size t + 1\<rparr>;
                        t2 = setEntryState t1 (m_ordinal e) (calculateState t1 e);
                        (t3, ns, threw) = updateStatesAndNotify throws t2 oldStates
                    in Inr (if threw then CallbackThrew else Returned True, t3, ns)))"

definition defaultState :: overlay_state where
  "defaultState = \<lparr>m_topology = Clear, m_isTop = True\<rparr>"

definition makeEntry ::
    "interval_range \<Rightarrow> 'a \<Rightarrow> u64 \<Rightarrow> 'c option \<Rightarrow> u64 \<Rightarrow> ('a, 'c) entry" where
  "makeEntry r v ordinal callback regId =
     \<lparr>m_range = r, m_value = v, m_ordinal = ordinal, m_onStateChange = callback,
      m_callbackRegistrationId = regId, m_state = defaultState\<rparr>"

definition add ::
    "(('a, 'c) notification \<Rightarrow> bool) \<Rightarrow> ('a, 'c) interval_btree \<Rightarrow> interval_range \<Rightarrow> 'a \<Rightarrow>
     'c option \<Rightarrow> (bool, 'a, 'c) mutation" where
  "add throws t r v onStateChange =
     (case ensureMutationAllowed t of
        Some err \<Rightarrow> Inl err
      | None \<Rightarrow>
          if \<not> isValid r then Inl (InvalidArgument ''range is invalid'')
          else insertEntry throws t (makeEntry r v (m_nextOrdinal t) onStateChange 0))"

definition addWithTopology ::
    "(('a, 'c) notification \<Rightarrow> bool) \<Rightarrow> ('a, 'c) interval_btree \<Rightarrow> interval_range \<Rightarrow> 'a \<Rightarrow>
     'c option \<Rightarrow> (bool \<times> 'a topology_result, 'a, 'c) mutation" where
  "addWithTopology throws t r v onStateChange =
     (case ensureMutationAllowed t of
        Some err \<Rightarrow> Inl err
      | None \<Rightarrow>
          if \<not> isValid r then Inl (InvalidArgument ''range is invalid'')
          else (case queryTopology t r v of
                  Inl err \<Rightarrow> Inl err
                | Inr result \<Rightarrow>
                    (case insertEntry throws t
                            (makeEntry r v (m_nextOrdinal t) onStateChange 0) of
                       Inl err \<Rightarrow> Inl err
                     | Inr (CallbackThrew, t', ns) \<Rightarrow> Inr (CallbackThrew, t', ns)
                     | Inr (Returned b, t', ns) \<Rightarrow> Inr (Returned (b, result), t', ns))))"

section \<open>Removal\<close>

definition findExactEntry ::
    "('a, 'c) interval_btree \<Rightarrow> interval_range \<Rightarrow> ('a \<Rightarrow> bool) option \<Rightarrow>
     ('a, 'c) entry option" where
  "findExactEntry t r matcher =
     List.find (\<lambda>e. m_start (m_range e) = m_start r \<and> m_end (m_range e) = m_end r \<and>
         (case matcher of None \<Rightarrow> True | Some matches \<Rightarrow> matches (m_value e)))
       (entriesInOrder t)"

definition shrinkRoot :: "('a, 'c) node \<Rightarrow> ('a, 'c) node option option" where
  "shrinkRoot root =
     (if m_entries root = [] then
        if m_isLeaf root then Some None
        else (case m_children root of [] \<Rightarrow> None | c # _ \<Rightarrow> Some (Some c))
      else Some (Some root))"

definition eraseEntry ::
    "('a, 'c) interval_btree \<Rightarrow> ('a, 'c) entry \<Rightarrow> ('a, 'c) interval_btree option" where
  "eraseEntry t target =
     (case m_root t of
        None \<Rightarrow> Some t
      | Some root \<Rightarrow>
          (case eraseEntryNode (lessOf t) (Suc (treeHeight root)) root target of
             None \<Rightarrow> None
           | Some root' \<Rightarrow>
               map_option (\<lambda>r. t\<lparr>m_root := r, m_size := m_size t - 1\<rparr>) (shrinkRoot root')))"

definition removeByRange ::
    "(('a, 'c) notification \<Rightarrow> bool) \<Rightarrow> ('a, 'c) interval_btree \<Rightarrow> interval_range \<Rightarrow>
     ('a \<Rightarrow> bool) option \<Rightarrow> (bool, 'a, 'c) mutation" where
  "removeByRange throws t r matcher =
     (case ensureMutationAllowed t of
        Some err \<Rightarrow> Inl err
      | None \<Rightarrow>
          if \<not> isValid r then Inl (InvalidArgument ''range is invalid'')
          else (case findExactEntry t r matcher of
                  None \<Rightarrow> Inr (Returned False, t, [])
                | Some target \<Rightarrow>
                    let oldStates = map (\<lambda>x. (x, m_state x))
                          (filter (\<lambda>x. m_ordinal x \<noteq> m_ordinal target \<and>
                                       overlaps (m_range x) (m_range target)) (entriesInOrder t))
                    in case eraseEntry t target of
                         None \<Rightarrow> Inl UndefinedAccess
                       | Some t1 \<Rightarrow>
                           let (t2, ns, threw) = updateStatesAndNotify throws t1 oldStates
                           in Inr (if threw then CallbackThrew else Returned True, t2, ns)))"

definition treeRemove ::
    "(('a, 'c) notification \<Rightarrow> bool) \<Rightarrow> ('a, 'c) interval_btree \<Rightarrow> interval_range \<Rightarrow>
     ('a \<Rightarrow> bool) option \<Rightarrow> (bool, 'a, 'c) mutation" where
  "treeRemove throws t r matcher = removeByRange throws t r matcher"

fun eraseAll ::
    "('a, 'c) interval_btree \<Rightarrow> ('a, 'c) entry list \<Rightarrow> ('a, 'c) interval_btree option" where
  "eraseAll t [] = Some t"
| "eraseAll t (target # rest) =
     (case eraseEntry t target of None \<Rightarrow> None | Some t' \<Rightarrow> eraseAll t' rest)"

definition removeAllOverlapping ::
    "(('a, 'c) notification \<Rightarrow> bool) \<Rightarrow> ('a, 'c) interval_btree \<Rightarrow> interval_range \<Rightarrow>
     (nat, 'a, 'c) mutation" where
  "removeAllOverlapping throws t r =
     (case ensureMutationAllowed t of
        Some err \<Rightarrow> Inl err
      | None \<Rightarrow>
          if \<not> isValid r then Inl (InvalidArgument ''range is invalid'')
          else
            let es = entriesInOrder t;
                targets = filter (\<lambda>e. overlaps (m_range e) r) es
            in if targets = [] then Inr (Returned 0, t, [])
               else
                 let oldStates = map (\<lambda>x. (x, m_state x))
                       (filter (\<lambda>x. \<not> list_ex (\<lambda>y. m_ordinal y = m_ordinal x) targets \<and>
                            list_ex (\<lambda>y. overlaps (m_range x) (m_range y)) targets) es)
                 in case eraseAll t targets of
                      None \<Rightarrow> Inl UndefinedAccess
                    | Some t1 \<Rightarrow>
                        let (t2, ns, threw) = updateStatesAndNotify throws t1 oldStates
                        in Inr (if threw then CallbackThrew else Returned (length targets), t2, ns))"

definition clear :: "('a, 'c) interval_btree \<Rightarrow> (unit, 'a, 'c) mutation" where
  "clear t =
     (case ensureMutationAllowed t of
        Some err \<Rightarrow> Inl err
      | None \<Rightarrow> Inr (Returned (), t\<lparr>m_root := None, m_size := 0, m_nextOrdinal := 0\<rparr>, []))"

definition enumerateCanonicalMove ::
    "('a, 'c) interval_btree \<Rightarrow> ('a \<Rightarrow> 'a \<Rightarrow> bool) option \<Rightarrow>
     ((interval_range \<times> 'a) list, 'a, 'c) mutation" where
  "enumerateCanonicalMove t duplicateOrder =
     (case ensureMutationAllowed t of
        Some err \<Rightarrow> Inl err
      | None \<Rightarrow>
          Inr (Returned (map (\<lambda>e. (m_range e, m_value e))
                 (stableSort (enumerateLess t duplicateOrder) (entriesInOrder t))),
               t\<lparr>m_root := None, m_size := 0, m_nextOrdinal := 0\<rparr>, []))"

section \<open>Reconstruction and callback registration\<close>

definition callbackForReconstruction ::
    "('a, 'c) interval_btree \<Rightarrow> 'a \<Rightarrow> 'c option \<times> u64" where
  "callbackForReconstruction t v =
     (case List.find (\<lambda>r. reg_matches r v) (m_callbackRegistrations t) of
        Some r \<Rightarrow> (Some (reg_callback r), reg_id r)
      | None \<Rightarrow> (None, 0))"

text \<open>Loading a snapshot into \<open>rebuilt\<close>; its callbacks are suppressed, so nothing is delivered.\<close>

fun loadEntries ::
    "('a, 'c) interval_btree \<Rightarrow> ('a, 'c) interval_btree \<Rightarrow> (interval_range \<times> 'a) list \<Rightarrow>
     tree_error + ('a, 'c) interval_btree" where
  "loadEntries t rebuilt [] = Inr rebuilt"
| "loadEntries t rebuilt ((r, v) # rest) =
     (let (callback, regId) = callbackForReconstruction t v
      in case insertEntry (\<lambda>_. False) rebuilt
                (makeEntry r v (m_nextOrdinal rebuilt) callback regId) of
           Inl err \<Rightarrow> Inl err
         | Inr (_, rebuilt', _) \<Rightarrow> loadEntries t rebuilt' rest)"

definition reconstructFromCanonical ::
    "('a, 'c) interval_btree \<Rightarrow> (interval_range \<times> 'a) list \<Rightarrow> (unit, 'a, 'c) mutation" where
  "reconstructFromCanonical t es =
     (case ensureMutationAllowed t of
        Some err \<Rightarrow> Inl err
      | None \<Rightarrow>
          if list_ex (\<lambda>x. \<not> isValid (fst x)) es
          then Inl (InvalidArgument ''canonical entries contain an invalid range'')
          else
            (case loadEntries t
                    ((newTree (m_canonicalComparator t) (m_priorityEvaluator t))
                       \<lparr>m_suppressCallbacks := True\<rparr>) es of
               Inl err \<Rightarrow> Inl err
             | Inr rebuilt \<Rightarrow>
                 Inr (Returned (), t\<lparr>m_root := m_root rebuilt, m_size := m_size rebuilt,
                                     m_nextOrdinal := m_nextOrdinal rebuilt\<rparr>, [])))"

definition registerStateCallback ::
    "('a, 'c) interval_btree \<Rightarrow> ('a \<Rightarrow> bool) option \<Rightarrow> 'c option \<Rightarrow> (u64, 'a, 'c) mutation" where
  "registerStateCallback t matches callback =
     (case ensureMutationAllowed t of
        Some err \<Rightarrow> Inl err
      | None \<Rightarrow>
          (case (matches, callback) of
             (Some f, Some c) \<Rightarrow>
               if m_nextCallbackRegistrationId t = - 1
               then Inl (OverflowError ''state callback registration id exhausted'')
               else
                 let i = m_nextCallbackRegistrationId t
                 in Inr (Returned i,
                      t\<lparr>m_nextCallbackRegistrationId := i + 1,
                        m_callbackRegistrations := m_callbackRegistrations t @
                          [\<lparr>reg_id = i, reg_matches = f, reg_callback = c\<rparr>]\<rparr>, [])
           | _ \<Rightarrow> Inl (InvalidArgument
               ''state callback registration requires callable matcher and callback'')))"

text \<open>Erase the first registration with the identifier (\<open>find_if\<close>, \<open>erase\<close>).\<close>

fun eraseRegistration ::
    "u64 \<Rightarrow> ('a, 'c) callback_registration list \<Rightarrow> ('a, 'c) callback_registration list" where
  "eraseRegistration i [] = []"
| "eraseRegistration i (r # rs) = (if reg_id r = i then rs else r # eraseRegistration i rs)"

definition unregisterStateCallback ::
    "('a, 'c) interval_btree \<Rightarrow> u64 \<Rightarrow> (unit, 'a, 'c) mutation" where
  "unregisterStateCallback t i =
     (case ensureMutationAllowed t of
        Some err \<Rightarrow> Inl err
      | None \<Rightarrow>
          if \<not> list_ex (\<lambda>r. reg_id r = i) (m_callbackRegistrations t)
          then Inr (Returned (), t, [])
          else Inr (Returned (),
                 t\<lparr>m_callbackRegistrations := eraseRegistration i (m_callbackRegistrations t),
                   m_root := map_option (mapEntries (\<lambda>e.
                     if m_callbackRegistrationId e = i
                     then e\<lparr>m_onStateChange := None, m_callbackRegistrationId := 0\<rparr> else e))
                     (m_root t)\<rparr>, []))"

end
