(* ===== verification/IntervalBTreeInv.thy ===== *)
theory IntervalBTreeInv
  imports IntervalBTree
begin

text \<open>
  The invariant of the interval B-tree and the correctness of its public operations: every
  mutation keeps a balanced, canonically ordered, exactly annotated tree whose stored overlay
  states equal a recomputation from scratch, and notifies exactly the entries whose state
  changed.
\<close>

section \<open>The invariant\<close>

definition tree_wf :: "('a, 'c) interval_btree \<Rightarrow> bool" where
  "tree_wf t \<longleftrightarrow>
     comparator_ok (m_canonicalComparator t) \<and>
     (case m_root t of None \<Rightarrow> True | Some n \<Rightarrow> (\<exists>h. shape h n \<and> okSize n)) \<and>
     sorted_wrt (lessOf t) (entriesInOrder t) \<and>
     distinct (map m_ordinal (entriesInOrder t)) \<and>
     (\<forall>e \<in> set (entriesInOrder t). m_ordinal e < m_nextOrdinal t) \<and>
     unat (m_size t) = length (entriesInOrder t) \<and>
     (\<forall>e \<in> set (entriesInOrder t). isValid (m_range e) \<and> range_i64 (m_range e))"

definition states_ok :: "('a, 'c) interval_btree \<Rightarrow> bool" where
  "states_ok t \<longleftrightarrow> (\<forall>e \<in> set (entriesInOrder t). m_state e = calculateState t e)"

definition tree_inv :: "('a, 'c) interval_btree \<Rightarrow> bool" where
  "tree_inv t \<longleftrightarrow> tree_wf t \<and> states_ok t"

text \<open>The identity of an entry: everything but its stored state.\<close>

definition stripState :: "('a, 'c) entry \<Rightarrow> ('a, 'c) entry" where
  "stripState e = e\<lparr>m_state := defaultState\<rparr>"

definition contents :: "('a, 'c) interval_btree \<Rightarrow> (interval_range \<times> 'a) list" where
  "contents t = map (\<lambda>e. (m_range e, m_value e)) (entriesInOrder t)"

lemma stripState_simps [simp]:
  "m_range (stripState e) = m_range e" "m_value (stripState e) = m_value e"
  "m_ordinal (stripState e) = m_ordinal e" "m_onStateChange (stripState e) = m_onStateChange e"
  by (simp_all add: stripState_def)

lemma stripState_comp [simp]: "m_range \<circ> stripState = m_range" "m_value \<circ> stripState = m_value"
  "m_ordinal \<circ> stripState = m_ordinal"
  by (simp_all add: fun_eq_iff)

lemma tree_wf_order: "tree_wf t \<Longrightarrow> entry_order (lessOf t)"
  by (simp add: tree_wf_def lessOf_def entryLess_order)

lemma entriesInOrder_simps [simp]:
  "m_root t = Some n \<Longrightarrow> entriesInOrder t = collectEntriesInOrder n"
  "m_root t = None \<Longrightarrow> entriesInOrder t = []"
  by (simp_all add: entriesInOrder_def)

lemma shape_height: "shape h n \<Longrightarrow> treeHeight n = h"
proof (induction h arbitrary: n)
  case 0
  then show ?case by (cases n) auto
next
  case (Suc h)
  then show ?case by (cases n rule: treeHeight.cases) auto
qed

lemma length_le_bound:
  assumes "distinct (map m_ordinal es)" and "\<forall>e \<in> set es. m_ordinal e < (w :: u64)"
  shows "length es \<le> unat w"
proof -
  have "length es = card (unat ` m_ordinal ` set es)"
  proof -
    have "inj_on unat (m_ordinal ` set es)"
      by (intro inj_onI) (simp add: word_unat_eq_iff)
    then have "card (unat ` m_ordinal ` set es) = card (m_ordinal ` set es)"
      by (rule card_image)
    also have "\<dots> = length es"
      using assms(1) distinct_card by fastforce
    finally show ?thesis by simp
  qed
  also have "\<dots> \<le> card {..<unat w}"
    using assms(2) by (intro card_mono) (auto simp: word_less_nat_alt)
  finally show ?thesis by simp
qed

section \<open>Changing entries in place\<close>

lemma interleave_map: "interleave (map (map f) cs) (map f es) = map f (interleave cs es)"
  by (induction cs es rule: interleave.induct) (auto simp: last_map)

lemma collect_mapEntries: "collectEntriesInOrder (mapEntries f n) = map f (collectEntriesInOrder n)"
proof (induction n)
  case (Node es cs m l)
  then have "map (collectEntriesInOrder \<circ> mapEntries f) cs = map (map f) (map collectEntriesInOrder cs)"
    by auto
  then show ?case
    by (auto simp: interleave_map [symmetric] intro!: arg_cong2 [where f = interleave])
qed

lemma mapEntries_simps [simp]:
  "m_entries (mapEntries f n) = map f (m_entries n)"
  "m_children (mapEntries f n) = map (mapEntries f) (m_children n)"
  "m_isLeaf (mapEntries f n) = m_isLeaf n"
  "m_subtreeMaxEnd (mapEntries f n) = m_subtreeMaxEnd n"
  by (cases n, simp)+

lemma shape_mapEntries:
  assumes "\<And>e. m_range (f e) = m_range e"
  shows "shape h (mapEntries f n) = shape h n"
proof -
  have m: "maxEndOf (map f es) (map (mapEntries f) cs) = maxEndOf es cs" for es cs
    by (simp add: maxEndOf_def assms comp_def)
  show ?thesis
    by (induction h arbitrary: n) (simp_all add: m okSize_def)
qed

lemma okSize_mapEntries [simp]: "okSize (mapEntries f n) = okSize n"
  by (simp add: okSize_def)

text \<open>Recomputation does not read the stored states.\<close>

lemma calculateState_cong_overlapping:
  assumes "map stripState (filter (\<lambda>y. overlaps (m_range e) (m_range y)) (entriesInOrder t)) =
      map stripState (filter (\<lambda>y. overlaps (m_range e) (m_range y)) (entriesInOrder t'))"
    and "m_priorityEvaluator t = m_priorityEvaluator t'" and "stripState e = stripState e'"
  shows "calculateState t e = calculateState t' e'"
proof -
  have fields: "m_range e = m_range e'" "m_ordinal e = m_ordinal e'" "m_value e = m_value e'"
    using assms(3) by (metis stripState_simps)+
  define P where "P = (\<lambda>x :: ('a, 'b) entry.
      m_ordinal x \<noteq> m_ordinal e' \<and> overlaps (m_range e') (m_range x))"
  have "map stripState (filter P xs) = filter (\<lambda>x. m_ordinal x \<noteq> m_ordinal e')
      (map stripState (filter (\<lambda>y. overlaps (m_range e) (m_range y)) xs))" for xs
    by (induction xs) (simp_all add: P_def fields)
  then have same: "map stripState (filter P (entriesInOrder t)) =
      map stripState (filter P (entriesInOrder t'))"
    using assms(1) by simp
  have ranges: "map m_range (filter P (entriesInOrder t)) = map m_range (filter P (entriesInOrder t'))"
    using arg_cong [OF same, of "map m_range"] by simp
  have vals: "map m_value (filter P (entriesInOrder t)) = map m_value (filter P (entriesInOrder t'))"
    using arg_cong [OF same, of "map m_value"] by simp
  have tops: "list_ex (\<lambda>x. higher (m_value x) v) (filter P (entriesInOrder t)) =
      list_ex (\<lambda>x. higher (m_value x) v) (filter P (entriesInOrder t'))"
    for higher :: "'a \<Rightarrow> 'a \<Rightarrow> bool" and v
    using arg_cong [OF vals, of "\<lambda>l. list_ex (\<lambda>w. higher w v) l"] by (simp add: list_ex_iff)
  show ?thesis
    unfolding calculateState_def fields assms(2) P_def [symmetric] Let_def ranges tops ..
qed

lemma calculateState_cong:
  assumes "map stripState (entriesInOrder t) = map stripState (entriesInOrder t')"
    and "m_priorityEvaluator t = m_priorityEvaluator t'" and "stripState e = stripState e'"
  shows "calculateState t e = calculateState t' e'"
proof (rule calculateState_cong_overlapping)
  have "map stripState (filter (\<lambda>y. overlaps (m_range e) (m_range y)) xs) =
      filter (\<lambda>y. overlaps (m_range e) (m_range y)) (map stripState xs)"
    for xs :: "('a, 'b) entry list"
    by (simp add: filter_map comp_def)
  then show "map stripState (filter (\<lambda>y. overlaps (m_range e) (m_range y)) (entriesInOrder t)) =
      map stripState (filter (\<lambda>y. overlaps (m_range e) (m_range y)) (entriesInOrder t'))"
    using assms(1) by simp
qed (use assms in auto)

lemma setEntryState_simps [simp]:
  "m_canonicalComparator (setEntryState t i s) = m_canonicalComparator t"
  "m_priorityEvaluator (setEntryState t i s) = m_priorityEvaluator t"
  "m_suppressCallbacks (setEntryState t i s) = m_suppressCallbacks t"
  by (simp_all add: setEntryState_def)

lemma entries_setEntryState:
  "entriesInOrder (setEntryState t i s) =
     map (\<lambda>e. if m_ordinal e = i then e\<lparr>m_state := s\<rparr> else e) (entriesInOrder t)"
  by (cases "m_root t") (simp_all add: setEntryState_def collect_mapEntries)

lemma strip_setEntryState:
  "map stripState (entriesInOrder (setEntryState t i s)) = map stripState (entriesInOrder t)"
  by (auto simp: entries_setEntryState stripState_def)

text \<open>Two trees that differ in stored states only.\<close>

definition sameButStates :: "('a, 'c) interval_btree \<Rightarrow> ('a, 'c) interval_btree \<Rightarrow> bool" where
  "sameButStates t t' \<longleftrightarrow>
     (\<exists>f. t' = t\<lparr>m_root := map_option (mapEntries f) (m_root t)\<rparr> \<and>
        (\<forall>e. stripState (f e) = stripState e))"

lemma mapEntries_id [simp]: "mapEntries (\<lambda>e. e) = (\<lambda>n. n)"
proof
  show "mapEntries (\<lambda>e. e) n = n" for n :: "('a, 'c) node"
    by (induction n) (simp add: map_idI)
qed

lemma mapEntries_comp: "mapEntries g (mapEntries f n) = mapEntries (\<lambda>e. g (f e)) n"
  by (induction n) (simp add: comp_def)

lemma sameButStates_refl: "sameButStates t t"
  unfolding sameButStates_def
  by (rule exI [of _ "\<lambda>e. e"]) (simp add: option.map_ident)

lemma sameButStates_trans:
  assumes "sameButStates t u" and "sameButStates u v"
  shows "sameButStates t v"
proof -
  obtain f g where "u = t\<lparr>m_root := map_option (mapEntries f) (m_root t)\<rparr>"
      "v = u\<lparr>m_root := map_option (mapEntries g) (m_root u)\<rparr>"
      "\<forall>e. stripState (f e) = stripState e" "\<forall>e. stripState (g e) = stripState e"
    using assms unfolding sameButStates_def by blast
  then show ?thesis
    unfolding sameButStates_def
    by (intro exI [of _ "\<lambda>e. g (f e)"])
      (simp add: option.map_comp comp_def mapEntries_comp)
qed

lemma sameButStates_setEntryState: "sameButStates t (setEntryState t i s)"
  unfolding sameButStates_def setEntryState_def
  by (rule exI [of _ "\<lambda>e. if m_ordinal e = i then e\<lparr>m_state := s\<rparr> else e"])
    (simp add: stripState_def)

lemma sameButStatesD:
  assumes "sameButStates t t'"
  shows "map stripState (entriesInOrder t') = map stripState (entriesInOrder t)"
    and "m_priorityEvaluator t' = m_priorityEvaluator t"
    and "m_canonicalComparator t' = m_canonicalComparator t"
    and "m_nextOrdinal t' = m_nextOrdinal t" and "m_size t' = m_size t"
    and "m_suppressCallbacks t' = m_suppressCallbacks t"
    and "m_dispatchingCallbacks t' = m_dispatchingCallbacks t"
    and "m_callbackRegistrations t' = m_callbackRegistrations t"
    and "m_nextCallbackRegistrationId t' = m_nextCallbackRegistrationId t"
    and "calculateState t' = calculateState t"
    and "tree_wf t' \<longleftrightarrow> tree_wf t"
proof -
  obtain f where f: "t' = t\<lparr>m_root := map_option (mapEntries f) (m_root t)\<rparr>"
      "\<forall>e. stripState (f e) = stripState e"
    using assms unfolding sameButStates_def by blast
  then show "m_priorityEvaluator t' = m_priorityEvaluator t"
    and cmp: "m_canonicalComparator t' = m_canonicalComparator t"
    and nxt: "m_nextOrdinal t' = m_nextOrdinal t" and sz: "m_size t' = m_size t"
    and "m_suppressCallbacks t' = m_suppressCallbacks t"
    and "m_dispatchingCallbacks t' = m_dispatchingCallbacks t"
    and "m_callbackRegistrations t' = m_callbackRegistrations t"
    and "m_nextCallbackRegistrationId t' = m_nextCallbackRegistrationId t"
    by simp_all
  have es: "entriesInOrder t' = map f (entriesInOrder t)"
    using f(1) by (cases "m_root t") (simp_all add: collect_mapEntries)
  then show strip: "map stripState (entriesInOrder t') = map stripState (entriesInOrder t)"
    using f(2) by simp
  show "calculateState t' = calculateState t"
    by (rule ext, rule calculateState_cong) (use strip f in auto)
  have fields: "m_range (f e) = m_range e" "m_ordinal (f e) = m_ordinal e" for e
    using f(2) by (metis stripState_simps)+
  have less: "lessOf t' (f x) (f y) = lessOf t x y" for x y
    by (simp add: lessOf_def entryLess_def fields cmp cong: option.case_cong)
  have root: "(case m_root t' of None \<Rightarrow> True | Some n \<Rightarrow> (\<exists>h. shape h n \<and> okSize n)) =
      (case m_root t of None \<Rightarrow> True | Some n \<Rightarrow> (\<exists>h. shape h n \<and> okSize n))"
    using f(1) by (cases "m_root t") (simp_all add: shape_mapEntries fields)
  show "tree_wf t' \<longleftrightarrow> tree_wf t"
    unfolding tree_wf_def root es
    by (simp add: sorted_wrt_map less fields cmp nxt sz comp_def)
qed

section \<open>Recomputing states and notifying\<close>

text \<open>
  The notifications a mutation owes: one for every surviving entry whose recomputed state
  differs from the stored one, in canonical order.
\<close>

definition stateChanges ::
    "('a, 'c) interval_btree \<Rightarrow> ('a, 'c) interval_btree \<Rightarrow>
     (('a, 'c) entry \<times> overlay_state \<times> overlay_state) list" where
  "stateChanges t t' =
     map (\<lambda>e. (e, m_state e, calculateState t' e))
       (filter (\<lambda>e. list_ex (\<lambda>x. m_ordinal x = m_ordinal e) (entriesInOrder t') \<and>
                    m_state e \<noteq> calculateState t' e) (entriesInOrder t))"

definition owedNotifications ::
    "(('a, 'c) notification \<Rightarrow> bool) \<Rightarrow> ('a, 'c) interval_btree \<Rightarrow> ('a, 'c) interval_btree \<Rightarrow>
     ('a, 'c) notification list \<times> bool" where
  "owedNotifications throws t t' =
     (if m_suppressCallbacks t then ([], False) else dispatchTransitions throws (stateChanges t t'))"

lemma updateStates_spec:
  assumes "updateStates t olds = (t', trs)"
    and "\<forall>x \<in> fst ` set olds. \<forall>e \<in> set (entriesInOrder t).
        m_ordinal e = m_ordinal x \<longrightarrow> stripState e = stripState x"
  shows "sameButStates t t' \<and>
    entriesInOrder t' = map (\<lambda>e. if m_ordinal e \<in> m_ordinal ` fst ` set olds
        then e\<lparr>m_state := calculateState t e\<rparr> else e) (entriesInOrder t) \<and>
    trs = map (\<lambda>(x, old). (x, old, calculateState t x))
        (filter (\<lambda>(x, old). old \<noteq> calculateState t x) olds)"
  using assms
proof (induction olds arbitrary: t t' trs)
  case Nil
  then show ?case by (simp add: sameButStates_refl)
next
  case (Cons a olds)
  obtain x old where a: "a = (x, old)" by (cases a)
  define u where "u = setEntryState t (m_ordinal x) (calculateState t x)"
  obtain trs' where rec: "updateStates u olds = (t', trs')"
    using Cons.prems(1) by (auto simp: a u_def Let_def split: prod.splits)
  have same: "sameButStates t u"
    unfolding u_def by (rule sameButStates_setEntryState)
  have calc: "calculateState u = calculateState t"
    by (rule sameButStatesD(10) [OF same])
  have u_entries: "entriesInOrder u =
      map (\<lambda>e. if m_ordinal e = m_ordinal x then e\<lparr>m_state := calculateState t x\<rparr> else e) (entriesInOrder t)"
    unfolding u_def by (rule entries_setEntryState)
  have "\<forall>y \<in> fst ` set olds. \<forall>e \<in> set (entriesInOrder u).
        m_ordinal e = m_ordinal y \<longrightarrow> stripState e = stripState y"
    using Cons.prems(2) by (auto simp: u_entries stripState_def)
  note IH = Cons.IH [OF rec this]
  have upd: "calculateState t (e\<lparr>m_state := s\<rparr>) = calculateState t e" for e s
    by (rule calculateState_cong) (simp_all add: stripState_def)
  have one: "calculateState t x = calculateState t e"
    if "e \<in> set (entriesInOrder t)" "m_ordinal e = m_ordinal x" for e
    using that Cons.prems(2) by (intro calculateState_cong) (auto simp: a)
  have "sameButStates t t'"
    using same IH sameButStates_trans by blast
  moreover have "entriesInOrder t' = map (\<lambda>e. if m_ordinal e \<in> m_ordinal ` fst ` set (a # olds)
        then e\<lparr>m_state := calculateState t e\<rparr> else e) (entriesInOrder t)"
    using IH by (auto simp: u_entries calc a upd one)
  moreover have "trs = map (\<lambda>(x, old). (x, old, calculateState t x))
        (filter (\<lambda>(x, old). old \<noteq> calculateState t x) (a # olds))"
    using IH Cons.prems(1) rec
    by (auto simp: a u_def [symmetric] Let_def calc split: if_splits)
  ultimately show ?case by blast
qed

text \<open>
  The frame of every mutation: when the entries whose state may be stale are the ones handed to
  \<open>updateStatesAndNotify\<close>, it restores the invariant and delivers exactly what is owed.
\<close>

lemma updateStatesAndNotify_restores:
  assumes wf: "tree_wf t1"
    and supp: "m_suppressCallbacks t1 = m_suppressCallbacks t"
    and olds: "olds = map (\<lambda>x. (x, m_state x)) (filter P (entriesInOrder t))"
    and affected: "\<And>x. x \<in> set (entriesInOrder t) \<Longrightarrow> P x \<Longrightarrow> x \<in> set (entriesInOrder t1)"
    and survivors: "\<And>x y. x \<in> set (entriesInOrder t) \<Longrightarrow> y \<in> set (entriesInOrder t1) \<Longrightarrow>
        m_ordinal y = m_ordinal x \<Longrightarrow> y = x"
    and fresh: "\<And>y. y \<in> set (entriesInOrder t1) \<Longrightarrow>
        y \<in> set (entriesInOrder t) \<and> P y \<or> m_state y = calculateState t1 y"
    and run: "updateStatesAndNotify throws t1 olds = (t2, ns, threw)"
  shows "tree_inv t2 \<and> sameButStates t1 t2 \<and> (ns, threw) = owedNotifications throws t t2"
proof -
  obtain trs where upd: "updateStates t1 olds = (t2, trs)"
    using run by (auto simp: updateStatesAndNotify_def split: prod.splits if_splits)
  have "\<forall>x \<in> fst ` set olds. \<forall>e \<in> set (entriesInOrder t1).
        m_ordinal e = m_ordinal x \<longrightarrow> stripState e = stripState x"
    using survivors by (auto simp: olds)
  note spec = updateStates_spec [OF upd this]
  then have same: "sameButStates t1 t2" by simp
  note calc = sameButStatesD(10) [OF same]
  have es2: "entriesInOrder t2 = map (\<lambda>e. if m_ordinal e \<in> m_ordinal ` fst ` set olds
        then e\<lparr>m_state := calculateState t1 e\<rparr> else e) (entriesInOrder t1)"
    using spec by simp
  have upd_calc: "calculateState t1 (e\<lparr>m_state := s\<rparr>) = calculateState t1 e" for e s
    by (rule calculateState_cong) (simp_all add: stripState_def)
  have "states_ok t2"
    unfolding states_ok_def es2 calc
  proof (intro ballI)
    fix e assume "e \<in> set (map (\<lambda>e. if m_ordinal e \<in> m_ordinal ` fst ` set olds
        then e\<lparr>m_state := calculateState t1 e\<rparr> else e) (entriesInOrder t1))"
    then obtain y where y: "y \<in> set (entriesInOrder t1)"
        "e = (if m_ordinal y \<in> m_ordinal ` fst ` set olds
              then y\<lparr>m_state := calculateState t1 y\<rparr> else y)"
      unfolding set_map by blast
    show "m_state e = calculateState t1 e"
    proof (cases "m_ordinal y \<in> m_ordinal ` fst ` set olds")
      case True
      then show ?thesis by (simp add: y(2) upd_calc)
    next
      case False
      then have "\<not> (y \<in> set (entriesInOrder t) \<and> P y)"
        by (auto simp: olds image_image)
      then show ?thesis using fresh [OF y(1)] False by (auto simp: y(2))
    qed
  qed
  moreover have "tree_wf t2" using wf sameButStatesD(11) [OF same] by simp
  moreover have "trs = stateChanges t t2"
  proof -
    have ords: "list_ex (\<lambda>x. m_ordinal x = m_ordinal e) (entriesInOrder t2) \<longleftrightarrow>
        e \<in> set (entriesInOrder t1)" if "e \<in> set (entriesInOrder t)" for e
    proof -
      have "map m_ordinal (entriesInOrder t2) = map m_ordinal (entriesInOrder t1)"
        using arg_cong [OF sameButStatesD(1) [OF same], of "map m_ordinal"] by simp
      then have "m_ordinal ` set (entriesInOrder t2) = m_ordinal ` set (entriesInOrder t1)"
        by (metis list.set_map)
      moreover have "list_ex (\<lambda>x. m_ordinal x = m_ordinal e) (entriesInOrder t2) \<longleftrightarrow>
          m_ordinal e \<in> m_ordinal ` set (entriesInOrder t2)"
        by (rule list_ex_eq_image)
      ultimately have "list_ex (\<lambda>x. m_ordinal x = m_ordinal e) (entriesInOrder t2) \<longleftrightarrow>
          m_ordinal e \<in> m_ordinal ` set (entriesInOrder t1)" by simp
      moreover have "e \<in> set (entriesInOrder t1)"
        if ord: "m_ordinal e \<in> m_ordinal ` set (entriesInOrder t1)"
      proof -
        from ord obtain y where y: "y \<in> set (entriesInOrder t1)" "m_ordinal e = m_ordinal y" ..
        have "y = e" by (rule survivors [OF \<open>e \<in> set (entriesInOrder t)\<close> y(1) y(2) [symmetric]])
        with y(1) show ?thesis by simp
      qed
      ultimately show ?thesis by (metis imageI)
    qed
    have "filter (\<lambda>e. list_ex (\<lambda>x. m_ordinal x = m_ordinal e) (entriesInOrder t2) \<and>
          m_state e \<noteq> calculateState t1 e) (entriesInOrder t) =
        filter (\<lambda>e. P e \<and> m_state e \<noteq> calculateState t1 e) (entriesInOrder t)"
      by (rule filter_cong [OF refl]) (use ords affected fresh in blast)
    then show ?thesis
      using spec by (simp add: stateChanges_def calc olds filter_map comp_def conj_commute)
  qed
  moreover have "m_suppressCallbacks t2 = m_suppressCallbacks t"
    using sameButStatesD(6) [OF same] supp by simp
  ultimately show ?thesis
    using run same
    by (auto simp: updateStatesAndNotify_def upd owedNotifications_def tree_inv_def split: if_splits)
qed

section \<open>Insertion\<close>

lemma growRoot_correct:
  assumes "case root of None \<Rightarrow> True | Some n \<Rightarrow> \<exists>h. shape h n \<and> okSize n"
  shows "\<exists>n h. growRoot root = Some n \<and> shape h n \<and>
    length (m_entries n) < 2 * s_minimumDegree - 1 \<and> (h = 0 \<or> m_entries n \<noteq> []) \<and>
    collectEntriesInOrder n = (case root of None \<Rightarrow> [] | Some r \<Rightarrow> collectEntriesInOrder r)"
proof (cases root)
  case None
  then show ?thesis
    by (intro exI [of _ emptyNode] exI [of _ 0]) (simp add: growRoot_def emptyNode_def maxEndOf_def)
next
  case (Some r)
  then obtain h where h: "shape h r" "okSize r" using assms by auto
  show ?thesis
  proof (cases "length (m_entries r) = 2 * s_minimumDegree - 1")
    case True
    define n where "n = Node [] [r] INT64_MIN False"
    have "\<exists>n'. splitChild n 0 = Some n' \<and> shape (Suc h) n' \<and>
       (\<exists>p. m_entries n' = take 0 (m_entries n) @ p # drop 0 (m_entries n)) \<and>
       length (m_entries (m_children n' ! 0)) = 1 \<and>
       length (m_entries (m_children n' ! Suc 0)) = 1 \<and>
       collectEntriesInOrder n' = collectEntriesInOrder n"
      by (rule splitChild_correct) (use h True in \<open>auto simp: n_def\<close>)
    then obtain n' p where n': "splitChild n 0 = Some n'" "shape (Suc h) n'"
        "m_entries n' = [p]" "collectEntriesInOrder n' = collectEntriesInOrder n"
      by (auto simp: n_def)
    then show ?thesis
      using True Some by (intro exI [of _ n'] exI [of _ "Suc h"]) (simp add: growRoot_def n_def)
  next
    case False
    then show ?thesis
      using h Some by (intro exI [of _ r] exI [of _ h]) (auto simp: growRoot_def okSize_def)
  qed
qed

lemma insertSorted_map:
  assumes "\<And>x y. lt' (f x) (f y) = lt x y"
  shows "map f (insertSorted lt e xs) = insertSorted lt' (f e) (map f xs)"
  by (induction xs) (simp_all add: assms)

lemma lessOf_strip [simp]: "lessOf t (stripState x) (stripState y) = lessOf t x y"
  by (simp add: lessOf_def entryLess_def cong: option.case_cong)

lemma tree_wf_length_size:
  assumes "tree_wf t" and "m_nextOrdinal t \<noteq> - 1"
  shows "unat (m_size t + 1) = Suc (length (entriesInOrder t))"
    and "m_nextOrdinal t < m_nextOrdinal t + 1"
proof -
  show less: "m_nextOrdinal t < m_nextOrdinal t + 1"
    using assms(2) by (simp add: u64_succ_greater)
  have "length (entriesInOrder t) \<le> unat (m_nextOrdinal t)"
    using assms(1) by (intro length_le_bound) (auto simp: tree_wf_def)
  moreover have "unat (m_nextOrdinal t) < unat (m_nextOrdinal t + 1)"
    using less by (simp add: word_less_nat_alt)
  moreover have "unat (m_nextOrdinal t + 1) < 2 ^ 64" using unsigned_less [of "m_nextOrdinal t + 1"] by simp
  ultimately have "unat (m_size t) + 1 < 2 ^ 64" using assms(1) by (simp add: tree_wf_def)
  then show "unat (m_size t + 1) = Suc (length (entriesInOrder t))"
    using assms(1) by (simp add: tree_wf_def unat_word_ariths(1))
qed

text \<open>The structural half of an insertion: the tree before any state is recomputed.\<close>

lemma insert_structure:
  assumes wf: "tree_wf t" and room: "m_nextOrdinal t \<noteq> - 1"
    and e: "m_ordinal e = m_nextOrdinal t" "isValid (m_range e)" "range_i64 (m_range e)"
  obtains root root' t1 where "growRoot (m_root t) = Some root"
    and "insertNonFull (lessOf t) (Suc (treeHeight root)) root e = Some root'"
    and "t1 = t\<lparr>m_root := Some root', m_nextOrdinal := m_nextOrdinal t + 1, m_size := m_size t + 1\<rparr>"
    and "tree_wf t1" and "entriesInOrder t1 = insertSorted (lessOf t) e (entriesInOrder t)"
proof -
  have root_ok: "case m_root t of None \<Rightarrow> True | Some n \<Rightarrow> \<exists>h. shape h n \<and> okSize n"
    using wf by (simp add: tree_wf_def)
  from growRoot_correct [OF this] obtain root h where g: "growRoot (m_root t) = Some root"
      "shape h root" "length (m_entries root) < 2 * s_minimumDegree - 1" "h = 0 \<or> m_entries root \<noteq> []"
      "collectEntriesInOrder root = entriesInOrder t"
    by (auto simp: entriesInOrder_def)
  have height: "h < Suc (treeHeight root)" using shape_height [OF g(2)] by simp
  have sorted: "sorted_wrt (lessOf t) (collectEntriesInOrder root)"
    using wf g(5) by (simp add: tree_wf_def)
  have ords: "\<forall>x \<in> set (entriesInOrder t). m_ordinal x < m_ordinal e"
    using wf e(1) by (simp add: tree_wf_def)
  then have new: "\<forall>x \<in> set (collectEntriesInOrder root). m_ordinal x \<noteq> m_ordinal e"
    using g(5) by auto
  note order = tree_wf_order [OF wf]
  from entry_order.insertNonFull_step [OF order g(2-4) height sorted new]
  obtain root' where ins: "insertNonFull (lessOf t) (Suc (treeHeight root)) root e = Some root'"
      "shape h root'" "okSize root'" "collectEntriesInOrder root' = insertSorted (lessOf t) e (entriesInOrder t)"
    unfolding g(5) by blast
  define t1 where "t1 = t\<lparr>m_root := Some root', m_nextOrdinal := m_nextOrdinal t + 1, m_size := m_size t + 1\<rparr>"
  have es: "entriesInOrder t1 = insertSorted (lessOf t) e (entriesInOrder t)"
    using ins(4) by (simp add: t1_def)
  have srt: "sorted_wrt (lessOf t) (insertSorted (lessOf t) e (entriesInOrder t))"
    using entry_order.sorted_insertSorted [OF order] sorted new g(5) by metis
  have dist: "distinct (map m_ordinal (insertSorted (lessOf t) e (entriesInOrder t)))"
  proof -
    have "mset (map m_ordinal (insertSorted (lessOf t) e (entriesInOrder t))) =
        mset (map m_ordinal (e # entriesInOrder t))" by simp
    moreover have "distinct (map m_ordinal (e # entriesInOrder t))"
      using wf ords by (auto simp: tree_wf_def)
    ultimately show ?thesis by (metis mset_eq_imp_distinct_iff)
  qed
  have less: "lessOf t1 = lessOf t" by (simp add: t1_def lessOf_def)
  have "m_ordinal x < m_nextOrdinal t + 1" if "x \<in> set (entriesInOrder t)" for x
  proof (rule order.strict_trans)
    show "m_ordinal x < m_nextOrdinal t" using that ords e(1) by simp
    show "m_nextOrdinal t < m_nextOrdinal t + 1" by (rule tree_wf_length_size(2) [OF wf room])
  qed
  then have bnd: "\<forall>x \<in> set (entriesInOrder t1). m_ordinal x < m_nextOrdinal t1"
    using e(1) tree_wf_length_size(2) [OF wf room] unfolding es by (simp add: t1_def)
  have size: "unat (m_size t1) = length (entriesInOrder t1)"
    unfolding es length_insertSorted using tree_wf_length_size(1) [OF wf room] by (simp add: t1_def)
  have ranges: "\<forall>x \<in> set (entriesInOrder t1). isValid (m_range x) \<and> range_i64 (m_range x)"
    using wf e(2,3) unfolding es by (simp add: tree_wf_def)
  have root1: "case m_root t1 of None \<Rightarrow> True | Some n \<Rightarrow> \<exists>h. shape h n \<and> okSize n"
    unfolding t1_def using ins(2,3) by (simp del: shape.simps) blast
  have "comparator_ok (m_canonicalComparator t1)"
    using wf by (simp add: tree_wf_def t1_def)
  with bnd size ranges root1 have "tree_wf t1"
    unfolding tree_wf_def less using srt dist unfolding es [symmetric] by blast
  with that g(1) ins(1) t1_def es show ?thesis by blast
qed

text \<open>Two entries that do not overlap do not see each other.\<close>

lemma calculateState_unrelated:
  assumes "\<And>y. overlaps (m_range x) (m_range y) \<Longrightarrow> y \<noteq> e"
    and "m_priorityEvaluator t' = m_priorityEvaluator t"
    and "entriesInOrder t = a @ b" and "entriesInOrder t' = a @ e # b"
  shows "calculateState t' x = calculateState t x"
  using assms by (intro calculateState_cong_overlapping) auto

lemma insertEntry_correct:
  assumes inv: "tree_inv t" and room: "m_nextOrdinal t \<noteq> - 1"
    and e: "m_ordinal e = m_nextOrdinal t" "isValid (m_range e)" "range_i64 (m_range e)"
  shows "\<exists>t' ns threw. insertEntry throws t e =
       Inr (if threw then CallbackThrew else Returned True, t', ns) \<and>
     tree_inv t' \<and>
     map stripState (entriesInOrder t') =
       insertSorted (lessOf t) (stripState e) (map stripState (entriesInOrder t)) \<and>
     (ns, threw) = owedNotifications throws t t' \<and>
     (\<exists>t1. sameButStates t1 t' \<and> (\<exists>r. t1 = t\<lparr>m_root := r, m_nextOrdinal := m_nextOrdinal t + 1,
        m_size := m_size t + 1\<rparr>))"
proof -
  have wf: "tree_wf t" and ok: "states_ok t" using inv by (auto simp: tree_inv_def)
  obtain root root' t1 where g: "growRoot (m_root t) = Some root"
    and ins: "insertNonFull (lessOf t) (Suc (treeHeight root)) root e = Some root'"
    and t1: "t1 = t\<lparr>m_root := Some root', m_nextOrdinal := m_nextOrdinal t + 1, m_size := m_size t + 1\<rparr>"
    and wf1: "tree_wf t1" and es1: "entriesInOrder t1 = insertSorted (lessOf t) e (entriesInOrder t)"
    by (rule insert_structure [OF wf room e])
  define t2 where "t2 = setEntryState t1 (m_ordinal e) (calculateState t1 e)"
  define olds where "olds = map (\<lambda>x. (x, m_state x))
      (filter (\<lambda>x. overlaps (m_range x) (m_range e)) (entriesInOrder t))"
  obtain t3 ns threw where run: "updateStatesAndNotify throws t2 olds = (t3, ns, threw)"
    by (metis prod_cases3)
  have same: "sameButStates t1 t2" unfolding t2_def by (rule sameButStates_setEntryState)
  have new: "m_ordinal x \<noteq> m_ordinal e" if "x \<in> set (entriesInOrder t)" for x
    using that wf e(1) by (auto simp: tree_wf_def)
  obtain a b where ab: "entriesInOrder t = a @ b" "insertSorted (lessOf t) e (entriesInOrder t) = a @ e # b"
    using insertSorted_split by metis
  define e' where "e' = e\<lparr>m_state := calculateState t1 e\<rparr>"
  have old: "map (\<lambda>y. if m_ordinal y = m_ordinal e then y\<lparr>m_state := s\<rparr> else y) xs = xs"
    if "set xs \<subseteq> set (entriesInOrder t)" for xs s
    using that new by (intro map_idI) auto
  have "set a \<subseteq> set (entriesInOrder t)" "set b \<subseteq> set (entriesInOrder t)" using ab(1) by auto
  then have es2: "entriesInOrder t2 = a @ e' # b"
    unfolding t2_def entries_setEntryState es1 ab(2) by (simp add: old e'_def)
  have prio: "m_priorityEvaluator t1 = m_priorityEvaluator t" by (simp add: t1)
  have unrelated: "calculateState t1 x = calculateState t x" if "\<not> overlaps (m_range x) (m_range e)" for x
    using that prio ab es1 by (intro calculateState_unrelated [where e = e]) auto
  note calc = sameButStatesD(10) [OF same]
  have "calculateState t1 e' = calculateState t1 e"
    by (rule calculateState_cong) (simp_all add: e'_def stripState_def)
  then have fresh: "y \<in> set (entriesInOrder t) \<and> overlaps (m_range y) (m_range e) \<or>
      m_state y = calculateState t2 y" if "y \<in> set (entriesInOrder t2)" for y
    using that unrelated [of y] ok ab(1) unfolding es2 calc
    by (cases "overlaps (m_range y) (m_range e)") (auto simp: e'_def states_ok_def)
  have t3: "tree_inv t3 \<and> sameButStates t2 t3 \<and> (ns, threw) = owedNotifications throws t t3"
  proof (rule updateStatesAndNotify_restores [OF _ _ olds_def _ _ fresh run])
    show "tree_wf t2" using wf1 sameButStatesD(11) [OF same] by simp
    show "m_suppressCallbacks t2 = m_suppressCallbacks t" by (simp add: t2_def t1)
    show "x \<in> set (entriesInOrder t2)" if "x \<in> set (entriesInOrder t)" for x
      using that unfolding es2 ab(1) by auto
    show "y = x" if "x \<in> set (entriesInOrder t)" "y \<in> set (entriesInOrder t2)"
        "m_ordinal y = m_ordinal x" for x y
    proof -
      have "y \<noteq> e'" using that new [OF that(1)] by (auto simp: e'_def)
      then have "y \<in> set (entriesInOrder t)" using that(2) ab(1) es2 by auto
      with that wf show ?thesis by (auto simp: tree_wf_def distinct_map inj_on_def)
    qed
  qed
  have strip: "map stripState (entriesInOrder t3) =
      insertSorted (lessOf t) (stripState e) (map stripState (entriesInOrder t))"
    using sameButStatesD(1) [of t2 t3] sameButStatesD(1) [OF same] t3 es1
    by (simp add: insertSorted_map [where lt' = "lessOf t" and f = stripState])
  have "insertEntry throws t e = Inr (if threw then CallbackThrew else Returned True, t3, ns)"
    using run by (simp add: insertEntry_def e(2) g ins t1 t2_def olds_def Let_def
        del: insertNonFull.simps)
  moreover have "\<exists>t1. sameButStates t1 t3 \<and> (\<exists>r. t1 = t\<lparr>m_root := r,
      m_nextOrdinal := m_nextOrdinal t + 1, m_size := m_size t + 1\<rparr>)"
    using sameButStates_trans [OF same] t3 t1 by blast
  ultimately show ?thesis using t3 strip by blast
qed

section \<open>Removal\<close>

lemma remove1_ordinal:
  assumes "distinct (map m_ordinal xs)" and "e \<in> set xs"
  shows "remove1 e xs = filter (\<lambda>x. m_ordinal x \<noteq> m_ordinal e) xs"
  using assms
proof (induction xs)
  case (Cons x xs)
  show ?case
  proof (cases "x = e")
    case True
    then have "\<forall>y \<in> set xs. m_ordinal y \<noteq> m_ordinal e"
      using Cons.prems(1) by (metis distinct.simps(2) image_eqI list.map(2) list.set_map)
    then show ?thesis using True by (simp add: filter_True)
  next
    case False
    then have "m_ordinal x \<noteq> m_ordinal e" using Cons.prems by auto
    with False Cons show ?thesis by auto
  qed
qed simp

lemma shrinkRoot_correct:
  assumes "shape h n" and "okSize n \<or> m_entries n = []"
  shows "\<exists>r. shrinkRoot n = Some r \<and>
    (case r of None \<Rightarrow> True | Some c \<Rightarrow> \<exists>h. shape h c \<and> okSize c) \<and>
    (case r of None \<Rightarrow> [] | Some c \<Rightarrow> collectEntriesInOrder c) = collectEntriesInOrder n"
proof (cases "m_entries n = []")
  case True
  show ?thesis
  proof (cases h)
    case 0
    then show ?thesis using True assms(1) by (simp add: shrinkRoot_def collect_leaf)
  next
    case (Suc k)
    then obtain c where c: "m_children n = [c]" "\<not> m_isLeaf n" "shape k c" "okSize c"
      using True assms(1) by (auto simp: length_Suc_conv)
    then have "collectEntriesInOrder n = collectEntriesInOrder c"
      using True by (cases n) auto
    then show ?thesis using True c by (auto simp: shrinkRoot_def)
  qed
next
  case False
  then show ?thesis using assms by (auto simp: shrinkRoot_def simp del: shape.simps)
qed

lemma eraseEntry_correct:
  assumes wf: "tree_wf t" and target: "target \<in> set (entriesInOrder t)"
  obtains t1 where "eraseEntry t target = Some t1" and "tree_wf t1"
    and "entriesInOrder t1 = filter (\<lambda>x. m_ordinal x \<noteq> m_ordinal target) (entriesInOrder t)"
    and "\<exists>r s. t1 = t\<lparr>m_root := r, m_size := s\<rparr>"
proof -
  obtain root h where root: "m_root t = Some root" "shape h root" "okSize root"
    using wf target by (cases "m_root t") (auto simp: tree_wf_def)
  let ?es = "entriesInOrder t"
  have dist: "distinct (map m_ordinal ?es)" and sorted: "sorted_wrt (lessOf t) ?es"
    using wf by (auto simp: tree_wf_def)
  then have uniq: "\<forall>x \<in> set (collectEntriesInOrder root). m_ordinal x = m_ordinal target \<longrightarrow> x = target"
    using root target by (auto simp: distinct_map inj_on_def)
  have nonempty: "m_entries root \<noteq> []" using root(3) by (auto simp: okSize_def)
  have height: "h < Suc (treeHeight root)" using shape_height [OF root(2)] by simp
  from entry_order.eraseEntryNode_step [OF tree_wf_order [OF wf] root(2) nonempty height _ _ uniq]
  obtain n' where n': "eraseEntryNode (lessOf t) (Suc (treeHeight root)) root target = Some n'"
      "shape h n'" "length (m_entries root) \<le> Suc (length (m_entries n'))"
      "length (m_entries n') \<le> length (m_entries root)"
      "collectEntriesInOrder n' = remove1 target ?es"
    using sorted target root(1) by auto
  have "okSize n' \<or> m_entries n' = []"
    using n'(4) root(3) by (auto simp: okSize_def Suc_le_eq)
  from shrinkRoot_correct [OF n'(2) this] obtain r where r: "shrinkRoot n' = Some r"
      "case r of None \<Rightarrow> True | Some c \<Rightarrow> \<exists>h. shape h c \<and> okSize c"
      "(case r of None \<Rightarrow> [] | Some c \<Rightarrow> collectEntriesInOrder c) = remove1 target ?es"
    unfolding n'(5) by blast
  define t1 where "t1 = t\<lparr>m_root := r, m_size := m_size t - 1\<rparr>"
  have es1: "entriesInOrder t1 = filter (\<lambda>x. m_ordinal x \<noteq> m_ordinal target) ?es"
    using r(3) remove1_ordinal [OF dist target] by (simp add: t1_def entriesInOrder_def)
  have run: "eraseEntry t target = Some t1"
    using root(1) n'(1) r(1) by (simp add: eraseEntry_def t1_def del: eraseEntryNode.simps)
  have "unat (m_size t) = length ?es" using wf by (simp add: tree_wf_def)
  moreover have pos: "0 < length ?es" using target by (cases ?es) auto
  ultimately have "m_size t \<noteq> 0" by auto
  then have "unat (m_size t - 1) = unat (m_size t) - 1"
    by (simp add: unat_minus_one)
  moreover have "length (entriesInOrder t1) = length ?es - 1"
    using target remove1_ordinal [OF dist target] unfolding es1 by (metis length_remove1)
  ultimately have size: "unat (m_size t1) = length (entriesInOrder t1)"
    using \<open>unat (m_size t) = length ?es\<close> by (simp add: t1_def)
  have less: "lessOf t1 = lessOf t" by (simp add: t1_def lessOf_def)
  have "sorted_wrt (lessOf t) (entriesInOrder t1)"
    unfolding es1 by (rule sorted_wrt_filterI [OF sorted])
  moreover have "distinct (map m_ordinal (entriesInOrder t1))"
    unfolding es1 using dist by (simp add: distinct_map_filter)
  moreover have "case m_root t1 of None \<Rightarrow> True | Some c \<Rightarrow> \<exists>h. shape h c \<and> okSize c"
    using r(2) by (simp add: t1_def)
  ultimately have "tree_wf t1"
    using wf size unfolding tree_wf_def less by (simp add: t1_def es1 [unfolded t1_def])
  with that run es1 show ?thesis unfolding t1_def by blast
qed

definition outOf :: "('a, 'c) entry list \<Rightarrow> ('a, 'c) entry \<Rightarrow> bool" where
  "outOf targets x \<longleftrightarrow> \<not> list_ex (\<lambda>y. m_ordinal y = m_ordinal x) targets"

lemma removal_restores:
  assumes inv: "tree_inv t" and wf1: "tree_wf t1"
    and sub: "set targets \<subseteq> set (entriesInOrder t)"
    and es1: "entriesInOrder t1 = filter (outOf targets) (entriesInOrder t)"
    and frame: "t1 = t\<lparr>m_root := r, m_size := s\<rparr>"
    and olds: "olds = map (\<lambda>x. (x, m_state x)) (filter (\<lambda>x. outOf targets x \<and>
          list_ex (\<lambda>y. overlaps (m_range x) (m_range y)) targets) (entriesInOrder t))"
    and run: "updateStatesAndNotify throws t1 olds = (t2, ns, threw)"
  shows "tree_inv t2 \<and> sameButStates t1 t2 \<and> (ns, threw) = owedNotifications throws t t2"
proof (rule updateStatesAndNotify_restores [OF wf1 _ olds _ _ _ run])
  have uniq: "y = x" if "x \<in> set (entriesInOrder t)" "y \<in> set (entriesInOrder t)"
      "m_ordinal y = m_ordinal x" for x y
    using that inv by (auto simp: tree_inv_def tree_wf_def distinct_map inj_on_def)
  show "m_suppressCallbacks t1 = m_suppressCallbacks t" by (simp add: frame)
  show "x \<in> set (entriesInOrder t1)" if "x \<in> set (entriesInOrder t)"
      "outOf targets x \<and> list_ex (\<lambda>y. overlaps (m_range x) (m_range y)) targets" for x
    using that by (simp add: es1)
  show "y = x" if "x \<in> set (entriesInOrder t)" "y \<in> set (entriesInOrder t1)"
      "m_ordinal y = m_ordinal x" for x y
    using uniq that by (simp add: es1)
  show "y \<in> set (entriesInOrder t) \<and> outOf targets y \<and>
       list_ex (\<lambda>z. overlaps (m_range y) (m_range z)) targets \<or> m_state y = calculateState t1 y"
    if y: "y \<in> set (entriesInOrder t1)" for y
  proof (cases "list_ex (\<lambda>z. overlaps (m_range y) (m_range z)) targets")
    case True
    then show ?thesis using y by (simp add: es1)
  next
    case False
    have kept: "outOf targets z" if z: "z \<in> set (entriesInOrder t)" "overlaps (m_range y) (m_range z)" for z
    proof (rule ccontr)
      assume "\<not> outOf targets z"
      then obtain w where w: "w \<in> set targets" "m_ordinal w = m_ordinal z"
        by (auto simp: outOf_def list_ex_iff)
      have "w = z" by (rule uniq [OF z(1) _ w(2)]) (use w(1) sub in auto)
      with w(1) z(2) False show False by (auto simp: list_ex_iff)
    qed
    have "filter (\<lambda>z. overlaps (m_range y) (m_range z)) (entriesInOrder t1) =
        filter (\<lambda>z. overlaps (m_range y) (m_range z)) (entriesInOrder t)"
      unfolding es1 filter_filter by (rule filter_cong [OF refl]) (use kept in auto)
    then have "calculateState t1 y = calculateState t y"
      by (intro calculateState_cong_overlapping) (simp_all add: frame)
    then show ?thesis using y inv by (auto simp: es1 tree_inv_def states_ok_def)
  qed
qed

lemma eraseAll_correct:
  assumes "tree_wf t" and "set targets \<subseteq> set (entriesInOrder t)" and "distinct (map m_ordinal targets)"
  shows "\<exists>t1 r s. eraseAll t targets = Some t1 \<and> tree_wf t1 \<and>
    entriesInOrder t1 = filter (outOf targets) (entriesInOrder t) \<and>
    t1 = t\<lparr>m_root := r, m_size := s\<rparr>"
  using assms
proof (induction targets arbitrary: t)
  case Nil
  have "\<exists>r s. t = t\<lparr>m_root := r, m_size := s\<rparr>"
    by (intro exI [of _ "m_root t"] exI [of _ "m_size t"]) simp
  with Nil show ?case by (simp add: outOf_def)
next
  case (Cons x xs)
  obtain u where u: "eraseEntry t x = Some u" "tree_wf u"
      "entriesInOrder u = filter (\<lambda>y. m_ordinal y \<noteq> m_ordinal x) (entriesInOrder t)"
      "\<exists>r s. u = t\<lparr>m_root := r, m_size := s\<rparr>"
    using Cons.prems by (auto intro: eraseEntry_correct [of t x])
  have "m_ordinal y \<noteq> m_ordinal x" if "y \<in> set xs" for y
    using that Cons.prems(3) by (metis distinct.simps(2) image_eqI list.map(2) list.set_map)
  then have "set xs \<subseteq> set (entriesInOrder u)" using Cons.prems(2) u(3) by auto
  from Cons.IH [OF u(2) this] Cons.prems(3) obtain t1 r s where t1: "eraseAll u xs = Some t1" "tree_wf t1"
      "entriesInOrder t1 = filter (outOf xs) (entriesInOrder u)" "t1 = u\<lparr>m_root := r, m_size := s\<rparr>"
    by auto
  have "entriesInOrder t1 = filter (outOf (x # xs)) (entriesInOrder t)"
    unfolding t1(3) u(3) filter_filter by (rule filter_cong [OF refl]) (auto simp: outOf_def)
  moreover obtain ra sa where "u = t\<lparr>m_root := ra, m_size := sa\<rparr>" using u(4) by blast
  then have "t1 = t\<lparr>m_root := r, m_size := s\<rparr>" using t1(4) by simp
  moreover have "eraseAll t (x # xs) = Some t1" using u(1) t1(1) by simp
  ultimately show ?case using t1(2) by blast
qed

lemma removeByRange_correct:
  assumes inv: "tree_inv t" and idle: "\<not> m_dispatchingCallbacks t" and r: "isValid r"
  shows "case findExactEntry t r matcher of
      None \<Rightarrow> removeByRange throws t r matcher = Inr (Returned False, t, [])
    | Some target \<Rightarrow>
        \<exists>t' ns threw. removeByRange throws t r matcher =
            Inr (if threw then CallbackThrew else Returned True, t', ns) \<and> tree_inv t' \<and>
          map stripState (entriesInOrder t') = map stripState
            (filter (\<lambda>e. m_ordinal e \<noteq> m_ordinal target) (entriesInOrder t)) \<and>
          (ns, threw) = owedNotifications throws t t'"
proof (cases "findExactEntry t r matcher")
  case None
  then show ?thesis using idle r by (simp add: removeByRange_def ensureMutationAllowed_def)
next
  case (Some target)
  have wf: "tree_wf t" using inv by (simp add: tree_inv_def)
  have target: "target \<in> set (entriesInOrder t)"
    using Some by (auto simp: findExactEntry_def find_Some_iff)
  obtain t1 where t1: "eraseEntry t target = Some t1" "tree_wf t1"
      "entriesInOrder t1 = filter (\<lambda>x. m_ordinal x \<noteq> m_ordinal target) (entriesInOrder t)"
      "\<exists>r s. t1 = t\<lparr>m_root := r, m_size := s\<rparr>"
    by (rule eraseEntry_correct [OF wf target])
  have out: "outOf [target] = (\<lambda>x. m_ordinal x \<noteq> m_ordinal target)"
    by (auto simp: outOf_def fun_eq_iff)
  define olds where "olds = map (\<lambda>x. (x, m_state x)) (filter (\<lambda>x. outOf [target] x \<and>
      list_ex (\<lambda>y. overlaps (m_range x) (m_range y)) [target]) (entriesInOrder t))"
  obtain t2 ns threw where run: "updateStatesAndNotify throws t1 olds = (t2, ns, threw)"
    by (metis prod_cases3)
  obtain r' s' where frame: "t1 = t\<lparr>m_root := r', m_size := s'\<rparr>" using t1(4) by blast
  have es1: "entriesInOrder t1 = filter (outOf [target]) (entriesInOrder t)" using t1(3) out by simp
  have res: "tree_inv t2 \<and> sameButStates t1 t2 \<and> (ns, threw) = owedNotifications throws t t2"
    by (rule removal_restores [OF inv t1(2) _ es1 frame olds_def run]) (use target in simp)
  have "removeByRange throws t r matcher = Inr (if threw then CallbackThrew else Returned True, t2, ns)"
    using run [unfolded olds_def out] idle r Some t1(1)
    by (simp add: removeByRange_def ensureMutationAllowed_def Let_def)
  moreover have "map stripState (entriesInOrder t2) = map stripState
      (filter (\<lambda>e. m_ordinal e \<noteq> m_ordinal target) (entriesInOrder t))"
    using sameButStatesD(1) [of t1 t2] res by (simp add: t1(3))
  ultimately show ?thesis unfolding Some option.case using res by blast
qed

lemma removeAllOverlapping_correct:
  assumes inv: "tree_inv t" and idle: "\<not> m_dispatchingCallbacks t" and r: "isValid r"
  shows "\<exists>t' ns threw. removeAllOverlapping throws t r =
      Inr (if threw then CallbackThrew
           else Returned (length (filter (\<lambda>e. overlaps (m_range e) r) (entriesInOrder t))), t', ns) \<and>
    tree_inv t' \<and>
    map stripState (entriesInOrder t') = map stripState
      (filter (\<lambda>e. \<not> overlaps (m_range e) r) (entriesInOrder t)) \<and>
    (ns, threw) = owedNotifications throws t t'"
proof -
  have wf: "tree_wf t" using inv by (simp add: tree_inv_def)
  define targets where "targets = filter (\<lambda>e. overlaps (m_range e) r) (entriesInOrder t)"
  have uniq: "y = x" if "x \<in> set (entriesInOrder t)" "y \<in> set (entriesInOrder t)"
      "m_ordinal y = m_ordinal x" for x y
    using that wf by (auto simp: tree_wf_def distinct_map inj_on_def)
  have sub: "set targets \<subseteq> set (entriesInOrder t)" by (auto simp: targets_def)
  have dist: "distinct (map m_ordinal targets)"
    using wf by (simp add: targets_def tree_wf_def distinct_map_filter)
  have out: "filter (outOf targets) (entriesInOrder t) =
      filter (\<lambda>e. \<not> overlaps (m_range e) r) (entriesInOrder t)"
  proof (rule filter_cong [OF refl])
    fix e assume e: "e \<in> set (entriesInOrder t)"
    have "list_ex (\<lambda>y. m_ordinal y = m_ordinal e) targets \<longleftrightarrow> e \<in> set targets"
      using uniq [OF e] sub by (auto simp: list_ex_iff)
    then show "outOf targets e \<longleftrightarrow> \<not> overlaps (m_range e) r"
      using e by (simp add: outOf_def targets_def)
  qed
  obtain t1 where t1: "eraseAll t targets = Some t1" "tree_wf t1"
      "entriesInOrder t1 = filter (outOf targets) (entriesInOrder t)"
      "\<exists>r s. t1 = t\<lparr>m_root := r, m_size := s\<rparr>"
    using eraseAll_correct [OF wf sub dist] by blast
  define olds where "olds = map (\<lambda>x. (x, m_state x)) (filter (\<lambda>x. outOf targets x \<and>
      list_ex (\<lambda>y. overlaps (m_range x) (m_range y)) targets) (entriesInOrder t))"
  obtain t2 ns threw where run: "updateStatesAndNotify throws t1 olds = (t2, ns, threw)"
    by (metis prod_cases3)
  obtain r' s' where frame: "t1 = t\<lparr>m_root := r', m_size := s'\<rparr>" using t1(4) by blast
  have res: "tree_inv t2 \<and> sameButStates t1 t2 \<and> (ns, threw) = owedNotifications throws t t2"
    by (rule removal_restores [OF inv t1(2) sub t1(3) frame olds_def run])
  have strip: "map stripState (entriesInOrder t2) = map stripState
      (filter (\<lambda>e. \<not> overlaps (m_range e) r) (entriesInOrder t))"
    using sameButStatesD(1) [of t1 t2] res t1(3) out by simp
  show ?thesis
  proof (cases "targets = []")
    case True
    have "removeAllOverlapping throws t r = Inr (Returned 0, t, [])"
      using True idle r by (simp add: removeAllOverlapping_def ensureMutationAllowed_def targets_def)
    moreover have "owedNotifications throws t t = ([], False)"
    proof -
      have "stateChanges t t = []"
        using inv by (auto simp: stateChanges_def tree_inv_def states_ok_def filter_empty_conv)
      then show ?thesis by (simp add: owedNotifications_def)
    qed
    moreover have "filter (\<lambda>e. \<not> overlaps (m_range e) r) (entriesInOrder t) = entriesInOrder t"
      using True by (auto simp: targets_def filter_empty_conv filter_id_conv)
    ultimately show ?thesis
      using True inv unfolding targets_def
      by (intro exI [of _ t] exI [of _ "[]"] exI [of _ False]) simp
  next
    case False
    have "removeAllOverlapping throws t r =
        Inr (if threw then CallbackThrew else Returned (length targets), t2, ns)"
      using run [unfolded olds_def outOf_def] idle r False t1(1)
      by (simp add: removeAllOverlapping_def ensureMutationAllowed_def Let_def targets_def)
    then show ?thesis using res strip unfolding targets_def by blast
  qed
qed

end
