(* ===== verification/IntervalBTreeProps.thy ===== *)
theory IntervalBTreeProps
  imports IntervalBTreeInv
begin

text \<open>
  What a client of \<open>Dmn_IntervalBTree\<close> relies on, stated over the contents of the tree: an
  ordered list of entries without their cached states.  Queries are filters of that list,
  mutations insert into it and remove from it, a snapshot can be loaded back, callbacks cannot
  re-enter a mutation, and the documented errors are raised.
\<close>

section \<open>Small facts\<close>

lemma contents_strip:
  "map stripState (entriesInOrder t) = es \<Longrightarrow> contents t = map (\<lambda>e. (m_range e, m_value e)) es"
  by (auto simp: contents_def)

lemma tree_inv_newTree: "comparator_ok cmp \<Longrightarrow> tree_inv (newTree cmp prio)"
  by (simp add: tree_inv_def tree_wf_def states_ok_def newTree_def)

lemma makeEntry_simps [simp]:
  "m_range (makeEntry r v i cb j) = r" "m_value (makeEntry r v i cb j) = v"
  "m_ordinal (makeEntry r v i cb j) = i" "m_onStateChange (makeEntry r v i cb j) = cb"
  "stripState (makeEntry r v i cb j) = makeEntry r v i cb j"
  by (simp_all add: makeEntry_def stripState_def)

section \<open>Queries\<close>

lemma forEachOverlapping_eq:
  assumes "tree_wf t" and "isValid r"
  shows "forEachOverlapping t r (Some v) s =
    Inr (fold (\<lambda>e. v (m_range e) (m_value e))
          (filter (\<lambda>e. overlaps (m_range e) r) (entriesInOrder t)) s)"
proof (cases "m_root t")
  case None
  then show ?thesis using assms(2) by (simp add: forEachOverlapping_def)
next
  case (Some n)
  then obtain h where "shape h n" using assms(1) by (auto simp: tree_wf_def simp del: shape.simps)
  then show ?thesis
    using assms(2) Some
    by (simp add: forEachOverlapping_def visitOverlappingInOrder_eq fold_visitEntry_filter)
qed

lemma fold_append_map: "fold (\<lambda>e result. result @ [f e]) es acc = acc @ map f es"
  by (induction es arbitrary: acc) auto

lemma findOverlapping_eq:
  assumes "tree_wf t" and "isValid r"
  shows "findOverlapping t r = Inr (filter (\<lambda>x. overlaps (fst x) r) (contents t))"
  using assms
  by (simp add: findOverlapping_def forEachOverlapping_eq fold_append_map contents_def filter_map comp_def)

lemma hasOverlap_eq:
  assumes "tree_wf t"
  shows "hasOverlap t r \<longleftrightarrow> isValid r \<and> list_ex (\<lambda>x. overlaps (fst x) r) (contents t)"
proof (cases "m_root t")
  case None
  then show ?thesis by (simp add: hasOverlap_def contents_def)
next
  case (Some n)
  then obtain h where "shape h n" using assms by (auto simp: tree_wf_def simp del: shape.simps)
  then show ?thesis
    using Some by (simp add: hasOverlap_def hasOverlapInSubtree_iff contents_def list_ex_iff)
qed

lemma contents_ranges:
  "tree_wf t \<Longrightarrow> x \<in> set (contents t) \<Longrightarrow> isValid (fst x) \<and> range_i64 (fst x)"
  by (auto simp: contents_def tree_wf_def)

lemma queryTopology_eq:
  assumes "tree_wf t" and "isValid r" and "range_i64 r"
  shows "queryTopology t r v =
    Inr (let ovs = filter (\<lambda>x. overlaps (fst x) r) (contents t)
         in \<lparr>m_status = topology_spec r (map fst ovs),
             m_resultIsTop = (case m_priorityEvaluator t of None \<Rightarrow> True
               | Some higher \<Rightarrow> \<not> list_ex (\<lambda>x. higher (snd x) v) ovs),
             m_overlappingEntries = ovs\<rparr>)"
proof -
  have "classifyTopology r (map fst (filter (\<lambda>x. overlaps (fst x) r) (contents t))) =
      topology_spec r (map fst (filter (\<lambda>x. overlaps (fst x) r) (contents t)))"
    using assms(3) by (intro classifyTopology_sweep) auto
  then show ?thesis
    using assms by (simp add: queryTopology_def findOverlapping_eq Let_def)
qed

section \<open>Snapshots\<close>

lemma enumerateLess_None: "enumerateLess t None = lessOf t"
  by (auto simp: fun_eq_iff enumerateLess_def lessOf_def entryLess_def)

lemma enumerateCanonical_eq:
  assumes "tree_wf t"
  shows "enumerateCanonical t None = contents t"
proof -
  note order = tree_wf_order [OF assms]
  have "sorted_wrt (\<lambda>x y. \<not> lessOf t y x) (entriesInOrder t)"
    using assms entry_order.lt_asym [OF order]
    by (auto simp: tree_wf_def intro: sorted_wrt_mono_rel [rotated])
  then show ?thesis
    by (simp add: enumerateCanonical_def enumerateLess_None stableSort_sorted contents_def)
qed

text \<open>\<open>rangeLe cmp\<close> is the canonical order on ranges: a later ordinal goes behind.\<close>

definition rangeLe :: "canonical_comparator \<Rightarrow> interval_range \<Rightarrow> interval_range \<Rightarrow> bool" where
  "rangeLe cmp r s \<longleftrightarrow>
     entryLess cmp (makeEntry r () 0 (None :: unit option) 0) (makeEntry s () 1 None 0)"

lemma rangeLe_entryLess:
  assumes "rangeLe cmp (m_range x) (m_range y)" and "m_ordinal x < m_ordinal y"
  shows "entryLess cmp x y"
  using assms by (cases cmp) (auto simp: rangeLe_def entryLess_def Let_def split: if_splits)

lemma entryLess_rangeLe: "entryLess cmp x y \<Longrightarrow> rangeLe cmp (m_range x) (m_range y)"
  by (cases cmp) (auto simp: rangeLe_def entryLess_def Let_def split: if_splits)

lemma contents_sorted:
  "tree_wf t \<Longrightarrow> sorted_wrt (\<lambda>x y. rangeLe (m_canonicalComparator t) (fst x) (fst y)) (contents t)"
  unfolding contents_def sorted_wrt_map
  by (rule sorted_wrt_mono_rel [where P = "lessOf t"])
    (auto simp: lessOf_def tree_wf_def intro: entryLess_rangeLe)

lemma loadEntries_correct:
  assumes "tree_inv b" and "\<forall>x \<in> set es. isValid (fst x) \<and> range_i64 (fst x)"
    and "unat (m_nextOrdinal b) + length es < 2 ^ 64"
  shows "\<exists>b'. loadEntries t b es = Inr b' \<and> tree_inv b' \<and>
    m_canonicalComparator b' = m_canonicalComparator b \<and>
    m_priorityEvaluator b' = m_priorityEvaluator b \<and>
    mset (contents b') = mset (contents b) + mset es \<and>
    (sorted_wrt (\<lambda>x y. rangeLe (m_canonicalComparator b) (fst x) (fst y)) (contents b @ es) \<longrightarrow>
      contents b' = contents b @ es)"
  using assms
proof (induction es arbitrary: b)
  case Nil
  then show ?case by simp
next
  case (Cons x es)
  obtain r v where x: "x = (r, v)" by (cases x)
  obtain cb i where cb: "callbackForReconstruction t v = (cb, i)" by (cases "callbackForReconstruction t v")
  define e where "e = makeEntry r v (m_nextOrdinal b) cb i"
  have room: "m_nextOrdinal b \<noteq> - 1"
    using Cons.prems(3) by (auto simp: unsigned_minus_1_eq_mask mask_eq_exp_minus_1)
  have "m_ordinal e = m_nextOrdinal b" "isValid (m_range e)" "range_i64 (m_range e)"
    using Cons.prems(2) by (simp_all add: e_def x)
  from insertEntry_correct [OF Cons.prems(1) room this, of "\<lambda>_. False"]
  obtain b1 ns threw b0 root where ins: "insertEntry (\<lambda>_. False) b e =
        Inr (if threw then CallbackThrew else Returned True, b1, ns)" "tree_inv b1"
      "map stripState (entriesInOrder b1) =
        insertSorted (lessOf b) (stripState e) (map stripState (entriesInOrder b))"
      "sameButStates b0 b1"
      "b0 = b\<lparr>m_root := root, m_nextOrdinal := m_nextOrdinal b + 1, m_size := m_size b + 1\<rparr>"
    by blast
  note same = sameButStatesD [OF ins(4)]
  have next1: "m_nextOrdinal b1 = m_nextOrdinal b + 1" and cmp1: "m_canonicalComparator b1 = m_canonicalComparator b"
    and prio1: "m_priorityEvaluator b1 = m_priorityEvaluator b"
    using same(2,3,4) ins(5) by simp_all
  have "unat (m_nextOrdinal b1) = Suc (unat (m_nextOrdinal b))"
    using Cons.prems(3) by (simp add: next1 unat_word_ariths(1))
  then have "unat (m_nextOrdinal b1) + length es < 2 ^ 64" using Cons.prems(3) by simp
  from Cons.IH [OF ins(2) _ this] Cons.prems(2) obtain b' where b': "loadEntries t b1 es = Inr b'"
      "tree_inv b'" "m_canonicalComparator b' = m_canonicalComparator b1"
      "m_priorityEvaluator b' = m_priorityEvaluator b1"
      "mset (contents b') = mset (contents b1) + mset es"
      "sorted_wrt (\<lambda>x y. rangeLe (m_canonicalComparator b1) (fst x) (fst y)) (contents b1 @ es) \<longrightarrow>
        contents b' = contents b1 @ es"
    by auto
  have c1: "contents b1 = map (\<lambda>e. (m_range e, m_value e))
      (insertSorted (lessOf b) (stripState e) (map stripState (entriesInOrder b)))"
    by (rule contents_strip [OF ins(3)])
  have m1: "mset (contents b1) = add_mset x (mset (contents b))"
    unfolding c1 by (simp add: contents_def e_def x multiset.map_comp comp_def)
  have append: "contents b1 = contents b @ [x]"
    if srt: "sorted_wrt (\<lambda>x y. rangeLe (m_canonicalComparator b) (fst x) (fst y)) (contents b @ x # es)"
  proof -
    have "lessOf b y (stripState e)" if y: "y \<in> set (map stripState (entriesInOrder b))" for y
      unfolding lessOf_def
    proof (rule rangeLe_entryLess)
      show "rangeLe (m_canonicalComparator b) (m_range y) (m_range (stripState e))"
        using srt y by (auto simp: sorted_wrt_append contents_def e_def x)
      show "m_ordinal y < m_ordinal (stripState e)"
        using y Cons.prems(1) by (auto simp: e_def tree_inv_def tree_wf_def)
    qed
    then have "insertSorted (lessOf b) (stripState e) (map stripState (entriesInOrder b)) =
        map stripState (entriesInOrder b) @ [stripState e]"
      using insertSorted_left [of "map stripState (entriesInOrder b)" "lessOf b" "stripState e" "[]"]
      by simp
    then show ?thesis unfolding c1 by (simp add: contents_def e_def x)
  qed
  have "loadEntries t b (x # es) = Inr b'"
    using ins(1) b'(1) by (simp add: x cb e_def)
  then show ?case using b' m1 append cmp1 prio1 by auto
qed

lemma reconstruct_correct:
  assumes "tree_inv t" and "\<not> m_dispatchingCallbacks t"
    and es: "\<forall>x \<in> set es. isValid (fst x) \<and> range_i64 (fst x)" "length es < 2 ^ 64"
  shows "\<exists>t'. reconstructFromCanonical t es = Inr (Returned (), t', []) \<and> tree_inv t' \<and>
    mset (contents t') = mset es \<and>
    (sorted_wrt (\<lambda>x y. rangeLe (m_canonicalComparator t) (fst x) (fst y)) es \<longrightarrow> contents t' = es)"
proof -
  define b :: "('a, 'b) interval_btree" where
    "b = (newTree (m_canonicalComparator t) (m_priorityEvaluator t))\<lparr>m_suppressCallbacks := True\<rparr>"
  have b: "contents b = []" "m_canonicalComparator b = m_canonicalComparator t"
      "m_priorityEvaluator b = m_priorityEvaluator t" "m_nextOrdinal b = 0"
    by (simp_all add: b_def newTree_def contents_def)
  have "comparator_ok (m_canonicalComparator t)" using assms(1) by (simp add: tree_inv_def tree_wf_def)
  then have "tree_inv b"
    by (simp add: b_def tree_inv_def tree_wf_def states_ok_def newTree_def)
  from loadEntries_correct [OF this es(1), of t] es(2) obtain b' where b': "loadEntries t b es = Inr b'"
      "tree_inv b'" "m_canonicalComparator b' = m_canonicalComparator t"
      "m_priorityEvaluator b' = m_priorityEvaluator t" "mset (contents b') = mset es"
      "sorted_wrt (\<lambda>x y. rangeLe (m_canonicalComparator t) (fst x) (fst y)) es \<longrightarrow> contents b' = es"
    by (auto simp: b)
  define t' where "t' = t\<lparr>m_root := m_root b', m_size := m_size b', m_nextOrdinal := m_nextOrdinal b'\<rparr>"
  have es': "entriesInOrder t' = entriesInOrder b'" by (simp add: t'_def entriesInOrder_def)
  have less: "lessOf t' = lessOf b'" by (simp add: t'_def lessOf_def b'(3))
  have "calculateState t' x = calculateState b' x" for x
    by (rule calculateState_cong) (simp_all add: es', simp add: t'_def b'(4))
  then have "tree_inv t'"
    using b'(2,3) unfolding tree_inv_def tree_wf_def states_ok_def es' less by (simp add: t'_def)
  moreover have "list_ex (\<lambda>x. \<not> isValid (fst x)) es = False" using es(1) by (auto simp: list_ex_iff)
  then have "reconstructFromCanonical t es = Inr (Returned (), t', [])"
    using assms(2) b'(1) unfolding b_def
    by (simp add: reconstructFromCanonical_def ensureMutationAllowed_def t'_def)
  ultimately show ?thesis using b'(5,6) by (auto simp: contents_def es')
qed

section \<open>The properties of the container\<close>

text \<open>
  C1: \<open>add\<close> refines insertion into the ordered list of entries.  On a tree that satisfies the
  invariant, a valid 64-bit range is stored behind every equal range, nothing else is lost or
  reordered, the B-tree shape, the ordering, the size and every cached overlay state are right
  again, and the notifications delivered are exactly the existing entries whose state the
  insertion changed, in canonical order, up to the first callback that throws.
\<close>

theorem add_refines_insert:
  assumes "tree_inv t" and "\<not> m_dispatchingCallbacks t" and "m_nextOrdinal t \<noteq> - 1"
    and "isValid r" and "range_i64 r"
  shows "\<exists>t' ns threw. add throws t r v cb =
      Inr (if threw then CallbackThrew else Returned True, t', ns) \<and> tree_inv t' \<and>
    map stripState (entriesInOrder t') =
      insertSorted (lessOf t) (makeEntry r v (m_nextOrdinal t) cb 0)
        (map stripState (entriesInOrder t)) \<and>
    (ns, threw) = owedNotifications throws t t'"
proof -
  let ?e = "makeEntry r v (m_nextOrdinal t) cb 0"
  have "m_ordinal ?e = m_nextOrdinal t" "isValid (m_range ?e)" "range_i64 (m_range ?e)"
    using assms(4,5) by simp_all
  note ins = insertEntry_correct [OF assms(1,3) this, of throws]
  have run: "add throws t r v cb = insertEntry throws t ?e"
    using assms(2,4) by (simp add: add_def ensureMutationAllowed_def)
  show ?thesis
    unfolding run using ins [unfolded makeEntry_simps] by blast
qed

text \<open>The example tree of the witnesses: it holds one entry, the range 1 to 5.\<close>

definition exampleTree :: "(nat, nat) interval_btree" where
  "exampleTree = (newTree None None)
    \<lparr>m_root := Some (Node [makeEntry (Range 1 5) 7 0 (Some 0) 0] [] 5 True),
     m_nextOrdinal := 1, m_size := 1\<rparr>"

lemma exampleTree_inv: "tree_inv exampleTree"
  unfolding exampleTree_def
  by (simp add: tree_inv_def tree_wf_def states_ok_def newTree_def comparator_ok_def
      okSize_def maxEndOf_def calculateState_def makeEntry_def defaultState_def
      classifyTopology_def isValid_def range_i64_def in_i64_def exI [of _ 0])

lemma exampleTree_simps [simp]:
  "m_dispatchingCallbacks exampleTree = False" "m_nextOrdinal exampleTree = 1"
  "m_suppressCallbacks exampleTree = False" "contents exampleTree = [(Range 1 5, 7)]"
  unfolding exampleTree_def by (simp_all add: newTree_def contents_def)

theorem add_refines_insert_witness:
  "\<exists>t' ns threw. add (\<lambda>_. False) exampleTree (Range 3 8) 2 None =
      Inr (if threw then CallbackThrew else Returned True, t', ns) \<and> tree_inv t' \<and>
    map stripState (entriesInOrder t') =
      insertSorted (lessOf exampleTree) (makeEntry (Range 3 8) 2 1 None 0)
        (map stripState (entriesInOrder exampleTree)) \<and>
    (ns, threw) = owedNotifications (\<lambda>_. False) exampleTree t'"
  using add_refines_insert [of exampleTree "Range 3 8" "\<lambda>_. False" 2 None] exampleTree_inv
  by (simp add: isValid_def range_i64_def in_i64_def)

text \<open>
  C2: \<open>remove\<close> erases the first entry in canonical order with exactly the given range that the
  matcher accepts, and nothing else; without such an entry it returns false and changes nothing.
  No out-of-range access happens in the rebalancing, the invariant holds again, and the
  notifications are those owed to the entries the removal changed.
\<close>

theorem remove_refines_erase:
  assumes "tree_inv t" and "\<not> m_dispatchingCallbacks t" and "isValid r"
  shows "case findExactEntry t r matcher of
      None \<Rightarrow> treeRemove throws t r matcher = Inr (Returned False, t, [])
    | Some target \<Rightarrow>
        \<exists>t' ns threw. treeRemove throws t r matcher =
            Inr (if threw then CallbackThrew else Returned True, t', ns) \<and> tree_inv t' \<and>
          map stripState (entriesInOrder t') = map stripState
            (filter (\<lambda>e. m_ordinal e \<noteq> m_ordinal target) (entriesInOrder t)) \<and>
          (ns, threw) = owedNotifications throws t t'"
  unfolding treeRemove_def by (rule removeByRange_correct [OF assms])

theorem remove_refines_erase_witness:
  "case findExactEntry exampleTree (Range 1 5) None of
      None \<Rightarrow> treeRemove (\<lambda>_. False) exampleTree (Range 1 5) None = Inr (Returned False, exampleTree, [])
    | Some target \<Rightarrow>
        \<exists>t' ns threw. treeRemove (\<lambda>_. False) exampleTree (Range 1 5) None =
            Inr (if threw then CallbackThrew else Returned True, t', ns) \<and> tree_inv t' \<and>
          map stripState (entriesInOrder t') = map stripState
            (filter (\<lambda>e. m_ordinal e \<noteq> m_ordinal target) (entriesInOrder exampleTree)) \<and>
          (ns, threw) = owedNotifications (\<lambda>_. False) exampleTree t'"
  by (rule remove_refines_erase [OF exampleTree_inv]) (simp_all add: isValid_def)

text \<open>
  \<open>removeAllOverlapping\<close> keeps exactly the entries disjoint from the range, reports how many
  it erased, restores the invariant and notifies exactly the survivors whose state changed.
\<close>

theorem removeAllOverlapping_refines_filter:
  assumes "tree_inv t" and "\<not> m_dispatchingCallbacks t" and "isValid r"
  shows "\<exists>t' ns threw. removeAllOverlapping throws t r =
      Inr (if threw then CallbackThrew
           else Returned (length (filter (\<lambda>e. overlaps (m_range e) r) (entriesInOrder t))), t', ns) \<and>
    tree_inv t' \<and>
    map stripState (entriesInOrder t') = map stripState
      (filter (\<lambda>e. \<not> overlaps (m_range e) r) (entriesInOrder t)) \<and>
    (ns, threw) = owedNotifications throws t t'"
  by (rule removeAllOverlapping_correct [OF assms])

theorem removeAllOverlapping_refines_filter_witness:
  "\<exists>t' ns threw. removeAllOverlapping (\<lambda>_. False) exampleTree (Range 2 3) =
      Inr (if threw then CallbackThrew else Returned
        (length (filter (\<lambda>e. overlaps (m_range e) (Range 2 3)) (entriesInOrder exampleTree))), t', ns) \<and>
    tree_inv t' \<and>
    map stripState (entriesInOrder t') = map stripState
      (filter (\<lambda>e. \<not> overlaps (m_range e) (Range 2 3)) (entriesInOrder exampleTree)) \<and>
    (ns, threw) = owedNotifications (\<lambda>_. False) exampleTree t'"
  by (rule removeAllOverlapping_refines_filter [OF exampleTree_inv]) (simp_all add: isValid_def)

text \<open>
  C16: the pruned tree searches are filters of the ordered contents: \<open>hasOverlap\<close>,
  \<open>findOverlapping\<close> and \<open>queryTopology\<close> report exactly the entries that overlap the range, in
  canonical order, and the topology is the one the covered points of the range define.
\<close>

theorem queries_refine_filters:
  assumes "tree_inv t" and "isValid r" and "range_i64 r"
  shows "(hasOverlap t r \<longleftrightarrow> (\<exists>x \<in> set (contents t). overlaps (fst x) r)) \<and>
    findOverlapping t r = Inr (filter (\<lambda>x. overlaps (fst x) r) (contents t)) \<and>
    queryTopology t r v = Inr (let ovs = filter (\<lambda>x. overlaps (fst x) r) (contents t)
         in \<lparr>m_status = topology_spec r (map fst ovs),
             m_resultIsTop = (case m_priorityEvaluator t of None \<Rightarrow> True
               | Some higher \<Rightarrow> \<not> list_ex (\<lambda>x. higher (snd x) v) ovs),
             m_overlappingEntries = ovs\<rparr>)"
  using assms
  by (simp add: tree_inv_def hasOverlap_eq findOverlapping_eq queryTopology_eq list_ex_iff)

theorem queries_refine_filters_witness:
  "(hasOverlap exampleTree (Range 4 9) \<longleftrightarrow>
      (\<exists>x \<in> set (contents exampleTree). overlaps (fst x) (Range 4 9))) \<and>
    findOverlapping exampleTree (Range 4 9) =
      Inr (filter (\<lambda>x. overlaps (fst x) (Range 4 9)) (contents exampleTree)) \<and>
    queryTopology exampleTree (Range 4 9) 3 =
      Inr (let ovs = filter (\<lambda>x. overlaps (fst x) (Range 4 9)) (contents exampleTree)
         in \<lparr>m_status = topology_spec (Range 4 9) (map fst ovs),
             m_resultIsTop = (case m_priorityEvaluator exampleTree of None \<Rightarrow> True
               | Some higher \<Rightarrow> \<not> list_ex (\<lambda>x. higher (snd x) 3) ovs),
             m_overlappingEntries = ovs\<rparr>)"
  by (rule queries_refine_filters [OF exampleTree_inv])
    (simp_all add: isValid_def range_i64_def in_i64_def)

text \<open>
  A canonical snapshot can be loaded back: reconstructing a tree from
  \<open>enumerateCanonical\<close> of a tree with the same comparator gives the same contents in the same
  order, a tree that satisfies the invariant, and no notification.
\<close>

theorem snapshot_roundtrip:
  assumes "tree_inv t" and "tree_inv u" and "\<not> m_dispatchingCallbacks u"
    and "m_canonicalComparator u = m_canonicalComparator t"
  shows "\<exists>u'. reconstructFromCanonical u (enumerateCanonical t None) = Inr (Returned (), u', []) \<and>
    tree_inv u' \<and> contents u' = contents t"
proof -
  have wf: "tree_wf t" using assms(1) by (simp add: tree_inv_def)
  have "length (contents t) = unat (m_size t)" using wf by (simp add: tree_wf_def contents_def)
  then have "length (contents t) < 2 ^ 64" using unsigned_less [of "m_size t"] by simp
  moreover have "\<forall>x \<in> set (contents t). isValid (fst x) \<and> range_i64 (fst x)"
    using contents_ranges [OF wf] by blast
  moreover have "sorted_wrt (\<lambda>x y. rangeLe (m_canonicalComparator u) (fst x) (fst y)) (contents t)"
    using contents_sorted [OF wf] assms(4) by simp
  ultimately show ?thesis
    using reconstruct_correct [OF assms(2,3), of "contents t"] enumerateCanonical_eq [OF wf] by auto
qed

theorem snapshot_roundtrip_witness:
  "\<exists>u' :: (nat, nat) interval_btree. reconstructFromCanonical (newTree None None)
      (enumerateCanonical exampleTree None) = Inr (Returned (), u', []) \<and>
    tree_inv u' \<and> contents u' = contents exampleTree"
  by (rule snapshot_roundtrip [OF exampleTree_inv tree_inv_newTree])
    (simp_all add: comparator_ok_def newTree_def exampleTree_def)

section \<open>Errors and re-entrancy\<close>

lemma guardedView_reads [simp]:
  "m_priorityEvaluator (guardedView t) = m_priorityEvaluator t"
  "entriesInOrder (guardedView t) = entriesInOrder t"
  "contents (guardedView t) = contents t"
  "hasOverlap (guardedView t) r = hasOverlap t r"
  "findOverlapping (guardedView t) r = findOverlapping t r"
  by (simp_all add: guardedView_def entriesInOrder_def contents_def hasOverlap_def
      findOverlapping_def forEachOverlapping_def)

lemma queryTopology_guardedView [simp]: "queryTopology (guardedView t) r v = queryTopology t r v"
  by (cases "findOverlapping t r") (simp_all add: queryTopology_def)


section \<open>The initial state of a new entry\<close>

lemma calculateState_contents:
  "calculateState t e =
     (let ovs = map (\<lambda>x. (m_range x, m_value x)) (filter (\<lambda>x. m_ordinal x \<noteq> m_ordinal e \<and>
        overlaps (m_range e) (m_range x)) (map stripState (entriesInOrder t)))
      in \<lparr>m_topology = classifyTopology (m_range e) (map fst ovs),
          m_isTop = (case m_priorityEvaluator t of None \<Rightarrow> True
            | Some higher \<Rightarrow> \<not> list_ex (\<lambda>x. higher (snd x) (m_value e)) ovs)\<rparr>)"
  by (cases "m_priorityEvaluator t")
    (simp_all add: calculateState_def Let_def filter_map comp_def list_ex_iff)

text \<open>
  \<open>addWithTopology\<close> answers what \<open>queryTopology\<close> answers before the insertion, mutates the
  tree as \<open>add\<close> does, and the answer is the overlay state the new entry is stored with.
\<close>

theorem addWithTopology_reports_initial_state:
  assumes "tree_inv t" and "\<not> m_dispatchingCallbacks t" and "m_nextOrdinal t \<noteq> - 1"
    and "isValid r" and "range_i64 r"
  shows "\<exists>result t' ns threw. queryTopology t r v = Inr result \<and>
    addWithTopology throws t r v cb =
      Inr (if threw then CallbackThrew else Returned (True, result), t', ns) \<and>
    add throws t r v cb = Inr (if threw then CallbackThrew else Returned True, t', ns) \<and>
    (\<exists>e \<in> set (entriesInOrder t'). m_ordinal e = m_nextOrdinal t \<and> m_range e = r \<and>
      m_state e = \<lparr>m_topology = m_status result, m_isTop = m_resultIsTop result\<rparr>)"
proof -
  let ?e = "makeEntry r v (m_nextOrdinal t) cb 0"
  have wf: "tree_wf t" using assms(1) by (simp add: tree_inv_def)
  have "m_ordinal ?e = m_nextOrdinal t" "isValid (m_range ?e)" "range_i64 (m_range ?e)"
    using assms(4,5) by simp_all
  from insertEntry_correct [OF assms(1,3) this, of throws]
  obtain t' ns threw t1 root where t': "insertEntry throws t ?e =
        Inr (if threw then CallbackThrew else Returned True, t', ns)" "tree_inv t'"
      "map stripState (entriesInOrder t') =
        insertSorted (lessOf t) ?e (map stripState (entriesInOrder t))"
      "sameButStates t1 t'"
      "t1 = t\<lparr>m_root := root, m_nextOrdinal := m_nextOrdinal t + 1, m_size := m_size t + 1\<rparr>"
    unfolding makeEntry_simps by blast
  obtain a b where ab: "map stripState (entriesInOrder t) = a @ b"
      "map stripState (entriesInOrder t') = a @ ?e # b"
    using insertSorted_split t'(3) by metis
  have old: "m_ordinal x \<noteq> m_nextOrdinal t" if "x \<in> set (a @ b)" for x
    using that wf unfolding ab(1) [symmetric] by (auto simp: tree_wf_def)
  have prio: "m_priorityEvaluator t' = m_priorityEvaluator t"
    using sameButStatesD(2) [OF t'(4)] t'(5) by simp
  have "?e \<in> set (map stripState (entriesInOrder t'))" unfolding ab(2) by simp
  then obtain e where e: "e \<in> set (entriesInOrder t')" "stripState e = ?e" by auto
  then have fields: "m_range e = r" "m_value e = v" "m_ordinal e = m_nextOrdinal t"
    by (metis makeEntry_simps stripState_simps)+
  define ovs where "ovs = filter (\<lambda>x. overlaps (fst x) r) (contents t)"
  have "filter (\<lambda>x. m_ordinal x \<noteq> m_nextOrdinal t \<and> overlaps r (m_range x)) c =
      filter (\<lambda>x. overlaps r (m_range x)) c" if "set c \<subseteq> set (a @ b)" for c
    using old that by (intro filter_cong [OF refl]) auto
  then have "filter (\<lambda>x. m_ordinal x \<noteq> m_nextOrdinal t \<and> overlaps r (m_range x)) (a @ ?e # b) =
      filter (\<lambda>x. overlaps r (m_range x)) (map stripState (entriesInOrder t))"
    unfolding ab(1) by simp
  then have ovs: "map (\<lambda>x. (m_range x, m_value x)) (filter (\<lambda>x. m_ordinal x \<noteq> m_nextOrdinal t \<and>
      overlaps r (m_range x)) (a @ ?e # b)) = ovs"
    by (simp only: ovs_def contents_def filter_map comp_def overlaps_sym [of r] map_map
        stripState_simps fst_conv)
  have "m_state e = calculateState t' e"
    using t'(2) e(1) by (simp add: tree_inv_def states_ok_def)
  then have "m_state e = \<lparr>m_topology = classifyTopology r (map fst ovs),
      m_isTop = (case m_priorityEvaluator t of None \<Rightarrow> True
        | Some higher \<Rightarrow> \<not> list_ex (\<lambda>x. higher (snd x) v) ovs)\<rparr>"
    unfolding calculateState_contents fields ab(2) prio ovs Let_def .
  moreover obtain result where result: "queryTopology t r v = Inr result"
      "m_status result = classifyTopology r (map fst ovs)"
      "m_resultIsTop result = (case m_priorityEvaluator t of None \<Rightarrow> True
        | Some higher \<Rightarrow> \<not> list_ex (\<lambda>x. higher (snd x) v) ovs)"
    using assms(4) wf by (simp add: queryTopology_def findOverlapping_eq ovs_def [symmetric])
  moreover have "addWithTopology throws t r v cb =
      Inr (if threw then CallbackThrew else Returned (True, result), t', ns)"
    using assms(2,4) result(1) t'(1) by (simp add: addWithTopology_def ensureMutationAllowed_def)
  moreover have "add throws t r v cb = Inr (if threw then CallbackThrew else Returned True, t', ns)"
    using assms(2,4) t'(1) by (simp add: add_def ensureMutationAllowed_def)
  moreover have "m_state e = \<lparr>m_topology = m_status result, m_isTop = m_resultIsTop result\<rparr>"
    using calculation(1) result(2,3) by simp
  ultimately show ?thesis using e(1) fields(1,3) by blast
qed

theorem addWithTopology_reports_initial_state_witness:
  "\<exists>result t' ns threw. queryTopology exampleTree (Range 3 8) 2 = Inr result \<and>
    addWithTopology (\<lambda>_. False) exampleTree (Range 3 8) 2 None =
      Inr (if threw then CallbackThrew else Returned (True, result), t', ns) \<and>
    add (\<lambda>_. False) exampleTree (Range 3 8) 2 None =
      Inr (if threw then CallbackThrew else Returned True, t', ns) \<and>
    (\<exists>e \<in> set (entriesInOrder t'). m_ordinal e = 1 \<and> m_range e = Range 3 8 \<and>
      m_state e = \<lparr>m_topology = m_status result, m_isTop = m_resultIsTop result\<rparr>)"
  using addWithTopology_reports_initial_state
      [of exampleTree "Range 3 8" 2 "\<lambda>_. False" None] exampleTree_inv
  by (simp add: isValid_def range_i64_def in_i64_def)

section \<open>Callback registrations\<close>

definition registrations_ok :: "('a, 'c) interval_btree \<Rightarrow> bool" where
  "registrations_ok t \<longleftrightarrow> distinct (map reg_id (m_callbackRegistrations t)) \<and>
     (\<forall>r \<in> set (m_callbackRegistrations t).
        0 < reg_id r \<and> reg_id r < m_nextCallbackRegistrationId t)"

lemma eraseRegistration_eq:
  "distinct (map reg_id rs) \<Longrightarrow> eraseRegistration i rs = filter (\<lambda>r. reg_id r \<noteq> i) rs"
proof (induction rs)
  case (Cons r rs)
  show ?case
  proof (cases "reg_id r = i")
    case True
    then have "\<forall>x \<in> set rs. reg_id x \<noteq> i"
      using Cons.prems by (metis distinct.simps(2) image_eqI list.map(2) list.set_map)
    then show ?thesis using True by simp
  next
    case False
    then show ?thesis using Cons by simp
  qed
qed simp

lemma tree_inv_detach:
  assumes "tree_inv t" and f: "\<And>e. m_range (f e) = m_range e" "\<And>e. m_value (f e) = m_value e"
    "\<And>e. m_ordinal (f e) = m_ordinal e" "\<And>e. m_state (f e) = m_state e"
  shows "tree_inv (t\<lparr>m_callbackRegistrations := rs, m_root := map_option (mapEntries f) (m_root t)\<rparr>)"
proof -
  let ?t = "t\<lparr>m_callbackRegistrations := rs, m_root := map_option (mapEntries f) (m_root t)\<rparr>"
  have es: "entriesInOrder ?t = map f (entriesInOrder t)"
    by (cases "m_root t") (simp_all add: collect_mapEntries)
  have less: "lessOf ?t (f x) (f y) = lessOf t x y" for x y
    by (simp add: lessOf_def entryLess_def f cong: option.case_cong)
  have calc: "calculateState ?t (f x) = calculateState t x" for x
    unfolding calculateState_def es
    by (cases "m_priorityEvaluator t") (simp_all add: f filter_map comp_def list_ex_iff Let_def)
  have root: "(case m_root ?t of None \<Rightarrow> True | Some n \<Rightarrow> (\<exists>h. shape h n \<and> okSize n)) =
      (case m_root t of None \<Rightarrow> True | Some n \<Rightarrow> (\<exists>h. shape h n \<and> okSize n))"
    by (cases "m_root t") (simp_all add: shape_mapEntries f)
  show ?thesis
    using assms(1) unfolding tree_inv_def tree_wf_def states_ok_def root es
    by (simp add: sorted_wrt_map less calc f comp_def)
qed

text \<open>
  Unregistering a state callback drops exactly that registration, detaches it from every
  entry it was attached to, leaves the callbacks of all other entries, the contents and the
  overlay states alone, and keeps the identifiers unique so that none is ever reused.
\<close>

theorem unregister_detaches:
  assumes "tree_inv t" and "registrations_ok t" and "\<not> m_dispatchingCallbacks t"
    and "list_ex (\<lambda>r. reg_id r = i) (m_callbackRegistrations t)"
  shows "\<exists>t'. unregisterStateCallback t i = Inr (Returned (), t', []) \<and> tree_inv t' \<and>
    registrations_ok t' \<and> contents t' = contents t \<and>
    m_callbackRegistrations t' = filter (\<lambda>r. reg_id r \<noteq> i) (m_callbackRegistrations t) \<and>
    map m_onStateChange (entriesInOrder t') =
      map (\<lambda>e. if m_callbackRegistrationId e = i then None else m_onStateChange e) (entriesInOrder t) \<and>
    i \<notin> m_callbackRegistrationId ` set (entriesInOrder t')"
proof -
  define f where "f = (\<lambda>e :: ('a, 'b) entry. if m_callbackRegistrationId e = i
      then e\<lparr>m_onStateChange := None, m_callbackRegistrationId := 0\<rparr> else e)"
  define t' where "t' = t\<lparr>m_callbackRegistrations := eraseRegistration i (m_callbackRegistrations t),
      m_root := map_option (mapEntries f) (m_root t)\<rparr>"
  have regs: "m_callbackRegistrations t' = filter (\<lambda>r. reg_id r \<noteq> i) (m_callbackRegistrations t)"
    using assms(2) by (simp add: t'_def registrations_ok_def eraseRegistration_eq)
  have es: "entriesInOrder t' = map f (entriesInOrder t)"
    unfolding t'_def by (cases "m_root t") (simp_all add: collect_mapEntries)
  have run: "unregisterStateCallback t i = Inr (Returned (), t', [])"
    using assms(3,4) by (simp add: unregisterStateCallback_def ensureMutationAllowed_def t'_def f_def)
  have "tree_inv t'"
    unfolding t'_def by (rule tree_inv_detach [OF assms(1)]) (simp_all add: f_def)
  moreover have "registrations_ok t'"
    using assms(2) unfolding registrations_ok_def regs
    by (simp add: t'_def distinct_map_filter)
  moreover have "contents t' = contents t"
    by (simp add: contents_def es f_def)
  moreover have "map m_onStateChange (entriesInOrder t') =
      map (\<lambda>e. if m_callbackRegistrationId e = i then None else m_onStateChange e) (entriesInOrder t)"
    by (simp add: es f_def)
  moreover have "i \<noteq> 0" using assms(2,4) by (auto simp: registrations_ok_def list_ex_iff)
  then have "i \<notin> m_callbackRegistrationId ` set (entriesInOrder t')"
    by (auto simp: es f_def)
  ultimately show ?thesis using run regs by blast
qed

definition exampleRegistered :: "(nat, nat) interval_btree" where
  "exampleRegistered = exampleTree\<lparr>m_callbackRegistrations :=
      [\<lparr>reg_id = 1, reg_matches = (\<lambda>n. n < 10), reg_callback = 4\<rparr>],
     m_nextCallbackRegistrationId := 2\<rparr>"

theorem unregister_detaches_witness:
  "\<exists>t'. unregisterStateCallback exampleRegistered 1 = Inr (Returned (), t', []) \<and> tree_inv t' \<and>
    registrations_ok t' \<and> contents t' = contents exampleRegistered \<and>
    m_callbackRegistrations t' =
      filter (\<lambda>r. reg_id r \<noteq> 1) (m_callbackRegistrations exampleRegistered) \<and>
    map m_onStateChange (entriesInOrder t') =
      map (\<lambda>e. if m_callbackRegistrationId e = 1 then None else m_onStateChange e)
        (entriesInOrder exampleRegistered) \<and>
    1 \<notin> m_callbackRegistrationId ` set (entriesInOrder t')"
proof (rule unregister_detaches)
  show "tree_inv exampleRegistered"
    using exampleTree_inv
    by (simp add: exampleRegistered_def exampleTree_def tree_inv_def tree_wf_def states_ok_def
        calculateState_def lessOf_def entriesInOrder_def newTree_def)
qed (simp_all add: exampleRegistered_def exampleTree_def registrations_ok_def newTree_def)

end
