(* ===== verification/DLock.thy ===== *)
theory DLock
  imports IntervalRange "HOL-Library.Char_ord" "HOL-Library.List_Lexorder"
    "HOL-Library.Product_Lexorder"
begin

text \<open>
  The range lock of \<open>include/dmn-dlock.hpp\<close>: its table snapshot with validation, grant
  classification and the protobuf conversion, and the instance-local acquire and release calls.
  One state \<open>dlock\<close> holds what \<open>m_mutex\<close> protects together with the calls that are blocked in
  \<open>m_cv.wait\<close>; the call that has decided to wait and still owns the mutex is a state of its own,
  because the destructor stores its flag and notifies without taking the mutex.
\<close>

section \<open>Values\<close>

datatype result_code =
  kOk | kInvalidState | kInvalidRange | kConflict | kTimeout | kCancelled | kShutdown | kNoWait | kError

record dlock_range =
  lr_start :: int
  lr_end :: int

definition lockRangeValid :: "dlock_range \<Rightarrow> bool" where
  "lockRangeValid r \<longleftrightarrow> 0 \<le> lr_start r \<and> lr_start r \<le> lr_end r"

definition lockOverlaps :: "dlock_range \<Rightarrow> dlock_range \<Rightarrow> bool" where
  "lockOverlaps r other \<longleftrightarrow>
     (if \<not> lockRangeValid r \<or> \<not> lockRangeValid other then False
      else \<not> (lr_end r < lr_start other \<or> lr_end other < lr_start r))"

definition fromInterval :: "interval_range \<Rightarrow> dlock_range" where
  "fromInterval r = \<lparr>lr_start = m_start r, lr_end = m_end r\<rparr>"

definition toInterval :: "dlock_range \<Rightarrow> interval_range" where
  "toInterval r = Range (lr_start r) (lr_end r)"

record dlock_result =
  res_code :: result_code
  res_range :: dlock_range
  res_request_id :: string
  res_message :: string

record request_options =
  opt_request_id :: string
  opt_lease_ticks :: int
  opt_wait :: bool
  opt_retries_allowed :: bool
  opt_no_wait :: bool

record dlock_config =
  cfg_domain :: string
  cfg_default_lease_ticks :: int
  cfg_require_canonical_snapshot :: bool

datatype entry_state =
  EsUnspecified | EsWaiting | EsGranted | EsReleased | EsCancelled | EsExpired | EsError

datatype terminal_reason =
  TrUnspecified | TrNone | TrReleased | TrCancelled | TrTimeout | TrExpired | TrShutdown

record dlock_entry =
  le_domain :: string
  le_request_id :: string
  le_session_id :: string
  le_owner_id :: string
  le_range :: dlock_range
  le_priority :: int
  le_sequence :: u64
  le_fence :: u64
  le_state :: entry_state
  le_terminal_reason :: terminal_reason
  le_acquire_deadline_ticks :: int
  le_lease_deadline_ticks :: int
  le_waiting :: bool
  le_granted :: bool

definition canonicalKey :: "dlock_entry \<Rightarrow> int \<times> int \<times> int \<times> u64 \<times> string" where
  "canonicalKey e =
     (lr_start (le_range e), lr_end (le_range e), le_priority e, le_sequence e, le_request_id e)"

definition lockEntryValid :: "dlock_entry \<Rightarrow> bool" where
  "lockEntryValid e \<longleftrightarrow> le_domain e \<noteq> [] \<and> lockRangeValid (le_range e) \<and>
     (le_request_id e \<noteq> [] \<or> le_session_id e \<noteq> [])"

section \<open>The table snapshot\<close>

record table_snapshot =
  ts_domain :: string
  ts_schema_version :: u32
  ts_protocol_version :: u32
  ts_publisher_incarnation :: u64
  ts_base_table_version :: u64
  ts_table_version :: u64
  ts_next_sequence :: u64
  ts_next_fencing_token :: u64
  ts_entries :: "dlock_entry list"

definition emptySnapshot :: table_snapshot where
  "emptySnapshot = \<lparr>ts_domain = [], ts_schema_version = 1, ts_protocol_version = 1,
     ts_publisher_incarnation = 0, ts_base_table_version = 0, ts_table_version = 0,
     ts_next_sequence = 0, ts_next_fencing_token = 0, ts_entries = []\<rparr>"

text \<open>
  \<open>std::sort\<close> is modelled by a stable sort: it leaves the order of entries with equal keys
  open, and the key contains the sequence number.
\<close>

definition canonicalize :: "table_snapshot \<Rightarrow> table_snapshot" where
  "canonicalize t =
     t\<lparr>ts_entries := stableSort (\<lambda>lhs rhs. canonicalKey lhs < canonicalKey rhs) (ts_entries t)\<rparr>"

definition validate :: "table_snapshot \<Rightarrow> bool" where
  "validate t \<longleftrightarrow>
     (if ts_domain t = [] then False
      else if list_ex (\<lambda>e. \<not> lockEntryValid e \<or> le_domain e \<noteq> ts_domain t \<or>
                           \<not> lockRangeValid (le_range e)) (ts_entries t) then False
      else sorted_wrt (\<lambda>lhs rhs. \<not> (le_domain lhs = le_domain rhs \<and>
             le_granted lhs \<and> le_granted rhs \<and> lockOverlaps (le_range lhs) (le_range rhs)))
             (ts_entries t))"

definition classifyGrantCandidate :: "table_snapshot \<Rightarrow> dlock_entry \<Rightarrow> result_code" where
  "classifyGrantCandidate t candidate =
     (if \<not> lockEntryValid candidate \<or> \<not> lockRangeValid (le_range candidate) then kInvalidRange
      else if le_domain candidate \<noteq> ts_domain t then kInvalidState
      else if list_ex (\<lambda>e. \<not> (le_request_id e = le_request_id candidate \<and>
                              le_session_id e = le_session_id candidate) \<and>
             le_granted e \<and> le_granted candidate \<and> le_domain e = le_domain candidate \<and>
             lockOverlaps (le_range e) (le_range candidate)) (ts_entries t) then kConflict
      else kOk)"

definition canAcceptEntry :: "table_snapshot \<Rightarrow> dlock_entry \<Rightarrow> bool" where
  "canAcceptEntry t candidate \<longleftrightarrow> classifyGrantCandidate t candidate = kOk"

definition withCandidate :: "table_snapshot \<Rightarrow> dlock_entry \<Rightarrow> table_snapshot" where
  "withCandidate t candidate =
     (if classifyGrantCandidate t candidate \<noteq> kOk then emptySnapshot
      else canonicalize (t\<lparr>ts_entries := ts_entries t @ [candidate],
             ts_table_version := ts_table_version t + 1,
             ts_next_sequence := max (ts_next_sequence t) (le_sequence candidate + 1)\<rparr>))"

definition isGrantedForRange :: "table_snapshot \<Rightarrow> dlock_range \<Rightarrow> bool" where
  "isGrantedForRange t r \<longleftrightarrow>
     list_ex (\<lambda>e. le_granted e \<and> lockOverlaps (le_range e) r) (ts_entries t)"

section \<open>Protobuf conversion\<close>

text \<open>
  The messages of \<open>src/proto/dmn-dlock.proto\<close>.  Enumerations of proto3 are open: a number
  without a name is kept, here as the last constructor.
\<close>

datatype entry_state_pb =
  DLOCK_ENTRY_STATE_UNSPECIFIED | DLOCK_ENTRY_STATE_WAITING | DLOCK_ENTRY_STATE_GRANTED |
  DLOCK_ENTRY_STATE_RELEASED | DLOCK_ENTRY_STATE_CANCELLED | DLOCK_ENTRY_STATE_EXPIRED |
  DLOCK_ENTRY_STATE_ERROR | DLOCK_ENTRY_STATE_UNKNOWN int

datatype terminal_reason_pb =
  DLOCK_TERMINAL_REASON_UNSPECIFIED | DLOCK_TERMINAL_REASON_NONE | DLOCK_TERMINAL_REASON_RELEASED |
  DLOCK_TERMINAL_REASON_CANCELLED | DLOCK_TERMINAL_REASON_TIMEOUT | DLOCK_TERMINAL_REASON_EXPIRED |
  DLOCK_TERMINAL_REASON_SHUTDOWN | DLOCK_TERMINAL_REASON_UNKNOWN int

record dlock_entry_pb =
  pe_domain :: string
  pe_request_id :: string
  pe_session_id :: string
  pe_owner_id :: string
  pe_range_start :: int
  pe_range_end :: int
  pe_priority :: int
  pe_sequence :: u64
  pe_fence :: u64
  pe_state :: entry_state_pb
  pe_terminal_reason :: terminal_reason_pb
  pe_acquire_deadline_ticks :: int
  pe_lease_deadline_ticks :: int
  pe_waiting :: bool
  pe_granted :: bool

record dlock_table_pb =
  pt_domain :: string
  pt_schema_version :: u32
  pt_protocol_version :: u32
  pt_publisher_incarnation :: u64
  pt_base_table_version :: u64
  pt_table_version :: u64
  pt_next_sequence :: u64
  pt_next_fencing_token :: u64
  pt_entries :: "dlock_entry_pb list"

definition stateToPb :: "entry_state \<Rightarrow> entry_state_pb" where
  "stateToPb s = (case s of
     EsWaiting \<Rightarrow> DLOCK_ENTRY_STATE_WAITING
   | EsGranted \<Rightarrow> DLOCK_ENTRY_STATE_GRANTED
   | EsReleased \<Rightarrow> DLOCK_ENTRY_STATE_RELEASED
   | EsCancelled \<Rightarrow> DLOCK_ENTRY_STATE_CANCELLED
   | EsExpired \<Rightarrow> DLOCK_ENTRY_STATE_EXPIRED
   | _ \<Rightarrow> DLOCK_ENTRY_STATE_ERROR)"

definition reasonToPb :: "terminal_reason \<Rightarrow> terminal_reason_pb" where
  "reasonToPb r = (case r of
     TrNone \<Rightarrow> DLOCK_TERMINAL_REASON_NONE
   | TrReleased \<Rightarrow> DLOCK_TERMINAL_REASON_RELEASED
   | TrCancelled \<Rightarrow> DLOCK_TERMINAL_REASON_CANCELLED
   | TrTimeout \<Rightarrow> DLOCK_TERMINAL_REASON_TIMEOUT
   | TrExpired \<Rightarrow> DLOCK_TERMINAL_REASON_EXPIRED
   | _ \<Rightarrow> DLOCK_TERMINAL_REASON_SHUTDOWN)"

definition stateFromPb :: "entry_state_pb \<Rightarrow> entry_state" where
  "stateFromPb s = (case s of
     DLOCK_ENTRY_STATE_WAITING \<Rightarrow> EsWaiting
   | DLOCK_ENTRY_STATE_GRANTED \<Rightarrow> EsGranted
   | DLOCK_ENTRY_STATE_RELEASED \<Rightarrow> EsReleased
   | DLOCK_ENTRY_STATE_CANCELLED \<Rightarrow> EsCancelled
   | DLOCK_ENTRY_STATE_EXPIRED \<Rightarrow> EsExpired
   | _ \<Rightarrow> EsError)"

definition reasonFromPb :: "terminal_reason_pb \<Rightarrow> terminal_reason" where
  "reasonFromPb r = (case r of
     DLOCK_TERMINAL_REASON_NONE \<Rightarrow> TrNone
   | DLOCK_TERMINAL_REASON_RELEASED \<Rightarrow> TrReleased
   | DLOCK_TERMINAL_REASON_CANCELLED \<Rightarrow> TrCancelled
   | DLOCK_TERMINAL_REASON_TIMEOUT \<Rightarrow> TrTimeout
   | DLOCK_TERMINAL_REASON_EXPIRED \<Rightarrow> TrExpired
   | _ \<Rightarrow> TrShutdown)"

definition entryToPb :: "dlock_entry \<Rightarrow> dlock_entry_pb" where
  "entryToPb e = \<lparr>pe_domain = le_domain e, pe_request_id = le_request_id e,
     pe_session_id = le_session_id e, pe_owner_id = le_owner_id e,
     pe_range_start = lr_start (le_range e), pe_range_end = lr_end (le_range e),
     pe_priority = le_priority e, pe_sequence = le_sequence e, pe_fence = le_fence e,
     pe_state = stateToPb (le_state e), pe_terminal_reason = reasonToPb (le_terminal_reason e),
     pe_acquire_deadline_ticks = le_acquire_deadline_ticks e,
     pe_lease_deadline_ticks = le_lease_deadline_ticks e,
     pe_waiting = le_waiting e, pe_granted = le_granted e\<rparr>"

definition entryFromPb :: "dlock_entry_pb \<Rightarrow> dlock_entry" where
  "entryFromPb p = \<lparr>le_domain = pe_domain p, le_request_id = pe_request_id p,
     le_session_id = pe_session_id p, le_owner_id = pe_owner_id p,
     le_range = \<lparr>lr_start = pe_range_start p, lr_end = pe_range_end p\<rparr>,
     le_priority = pe_priority p, le_sequence = pe_sequence p, le_fence = pe_fence p,
     le_state = stateFromPb (pe_state p), le_terminal_reason = reasonFromPb (pe_terminal_reason p),
     le_acquire_deadline_ticks = pe_acquire_deadline_ticks p,
     le_lease_deadline_ticks = pe_lease_deadline_ticks p,
     le_waiting = pe_waiting p, le_granted = pe_granted p\<rparr>"

definition toProto :: "table_snapshot \<Rightarrow> dlock_table_pb" where
  "toProto t = \<lparr>pt_domain = ts_domain t, pt_schema_version = ts_schema_version t,
     pt_protocol_version = ts_protocol_version t,
     pt_publisher_incarnation = ts_publisher_incarnation t,
     pt_base_table_version = ts_base_table_version t, pt_table_version = ts_table_version t,
     pt_next_sequence = ts_next_sequence t, pt_next_fencing_token = ts_next_fencing_token t,
     pt_entries = map entryToPb
       (stableSort (\<lambda>lhs rhs. canonicalKey lhs < canonicalKey rhs) (ts_entries t))\<rparr>"

definition fromProto :: "dlock_table_pb \<Rightarrow> table_snapshot" where
  "fromProto p = canonicalize \<lparr>ts_domain = pt_domain p, ts_schema_version = pt_schema_version p,
     ts_protocol_version = pt_protocol_version p,
     ts_publisher_incarnation = pt_publisher_incarnation p,
     ts_base_table_version = pt_base_table_version p, ts_table_version = pt_table_version p,
     ts_next_sequence = pt_next_sequence p, ts_next_fencing_token = pt_next_fencing_token p,
     ts_entries = map entryFromPb (pt_entries p)\<rparr>"

section \<open>The handler and its proxy\<close>

record lock_handler =
  lh_name :: string
  lh_topic :: string
  lh_config :: dlock_config

type_synonym handler_proxy = "lock_handler option"

definition publishSnapshot :: "lock_handler \<Rightarrow> table_snapshot \<Rightarrow> bool" where
  "publishSnapshot h t = (if \<not> validate t then False else True)"

definition proxyDeref :: "handler_proxy \<Rightarrow> string + lock_handler" where
  "proxyDeref p = (case p of
     None \<Rightarrow> Inl ''lock handler has been closed'' | Some h \<Rightarrow> Inr h)"

definition openHandler :: "dlock_config \<Rightarrow> string \<Rightarrow> string \<Rightarrow> handler_proxy" where
  "openHandler cfg session_name topic =
     Some \<lparr>lh_name = session_name, lh_topic = topic, lh_config = cfg\<rparr>"

definition closeHandler :: "handler_proxy \<Rightarrow> handler_proxy" where
  "closeHandler p = None"

section \<open>The lock\<close>

text \<open>A call of \<open>acquireLock\<close> that waits: its arguments and the local \<open>request_id\<close>.\<close>

record waiter =
  wt_range :: dlock_range
  wt_options :: request_options
  wt_request_id :: string
  wt_worker :: "nat option"

record async_worker =
  aw_id :: nat
  aw_completed :: bool

text \<open>
  \<open>dl_entering\<close> is the call that has found the range granted and is about to enter
  \<open>m_cv.wait\<close>: it still owns \<open>m_mutex\<close>.  \<open>dl_sleeping\<close> wait in \<open>m_cv\<close>, \<open>dl_awake\<close> have been woken
  and compete for the mutex.
\<close>

record dlock =
  dl_config :: dlock_config
  dl_table :: table_snapshot
  dl_shutting_down :: bool
  dl_entering :: "waiter option"
  dl_sleeping :: "waiter list"
  dl_awake :: "waiter list"
  dl_async_workers :: "async_worker list"
  dl_next_worker :: nat

definition newLock :: "dlock_config \<Rightarrow> dlock" where
  "newLock cfg = \<lparr>dl_config = cfg, dl_table = emptySnapshot\<lparr>ts_domain := cfg_domain cfg,
       ts_schema_version := 1, ts_protocol_version := 1\<rparr>, dl_shutting_down = False,
     dl_entering = None, dl_sleeping = [], dl_awake = [], dl_async_workers = [],
     dl_next_worker = 0\<rparr>"

definition notifyAll :: "dlock \<Rightarrow> dlock" where
  "notifyAll l = l\<lparr>dl_sleeping := [], dl_awake := dl_awake l @ dl_sleeping l\<rparr>"

definition grantEntry :: "dlock \<Rightarrow> dlock_range \<Rightarrow> request_options \<Rightarrow> string \<Rightarrow> dlock_entry" where
  "grantEntry l r options request_id =
     \<lparr>le_domain = cfg_domain (dl_config l), le_request_id = request_id,
      le_session_id = ''session-'' @ request_id, le_owner_id = request_id, le_range = r,
      le_priority = 1, le_sequence = ts_next_sequence (dl_table l) + 1,
      le_fence = ts_next_fencing_token (dl_table l) + 1, le_state = EsGranted,
      le_terminal_reason = TrNone, le_acquire_deadline_ticks = 0,
      le_lease_deadline_ticks = opt_lease_ticks options, le_waiting = False, le_granted = True\<rparr>"

text \<open>
  The body of \<open>acquireLock\<close> under the mutex, from the test of the loop to the return or to the
  next wait (no result).
\<close>

definition acquireAttempt ::
    "dlock \<Rightarrow> dlock_range \<Rightarrow> request_options \<Rightarrow> string \<Rightarrow> dlock \<times> dlock_result option" where
  "acquireAttempt l r options request_id =
     (let reply = (\<lambda>code msg. Some \<lparr>res_code = code, res_range = r, res_request_id = request_id,
                                    res_message = msg\<rparr>) in
      if isGrantedForRange (dl_table l) r then
        if dl_shutting_down l then (l, reply kShutdown ''lock is shutting down'')
        else if \<not> opt_wait options \<or> opt_no_wait options
          then (l, reply kNoWait ''range is already granted'')
        else (l, None)
      else if dl_shutting_down l then (l, reply kShutdown ''lock is shutting down'')
      else
        let entry = grantEntry l r options request_id;
            candidate = withCandidate (dl_table l) entry
        in if ts_entries candidate = [] then (l, reply kConflict ''range already unavailable'')
           else (notifyAll (l\<lparr>dl_table := candidate\<lparr>ts_next_sequence := le_sequence entry,
                    ts_next_fencing_token := le_fence entry\<rparr>\<rparr>),
                 reply kOk ''granted''))"

definition requestIdFor :: "dlock \<Rightarrow> request_options \<Rightarrow> string" where
  "requestIdFor l options =
     (if opt_request_id options = []
      then ''req-'' @ to_string (unat (ts_next_sequence (dl_table l) + 1))
      else opt_request_id options)"

definition completeWorker :: "nat option \<Rightarrow> dlock \<Rightarrow> dlock" where
  "completeWorker w l = (case w of None \<Rightarrow> l | Some i \<Rightarrow>
     l\<lparr>dl_async_workers := map (\<lambda>a. if aw_id a = i then a\<lparr>aw_completed := True\<rparr> else a)
        (dl_async_workers l)\<rparr>)"

text \<open>One attempt of a call; a call that goes on waiting keeps the mutex until it sleeps.\<close>

definition attemptOrWait :: "dlock \<Rightarrow> waiter \<Rightarrow> dlock \<times> dlock_result option" where
  "attemptOrWait l w =
     (case acquireAttempt l (wt_range w) (wt_options w) (wt_request_id w) of
        (l', Some res) \<Rightarrow> (completeWorker (wt_worker w) l', Some res)
      | (l', None) \<Rightarrow> (l'\<lparr>dl_entering := Some w\<rparr>, None))"

definition acquireLock ::
    "dlock \<Rightarrow> nat option \<Rightarrow> dlock_range \<Rightarrow> request_options \<Rightarrow> dlock \<times> dlock_result option" where
  "acquireLock l worker r options =
     (if \<not> lockRangeValid r
      then (completeWorker worker l, Some \<lparr>res_code = kInvalidRange, res_range = r,
              res_request_id = opt_request_id options, res_message = ''invalid range''\<rparr>)
      else attemptOrWait l \<lparr>wt_range = r, wt_options = options,
             wt_request_id = requestIdFor l options, wt_worker = worker\<rparr>)"

text \<open>The waiting call goes to sleep and gives the mutex up, in one step.\<close>

definition enterSleep :: "dlock \<Rightarrow> dlock" where
  "enterSleep l = (case dl_entering l of
     None \<Rightarrow> l
   | Some w \<Rightarrow> l\<lparr>dl_entering := None, dl_sleeping := dl_sleeping l @ [w]\<rparr>)"

text \<open>A woken call gets the mutex back and tests the loop condition again.\<close>

definition resumeWaiter :: "dlock \<Rightarrow> nat \<Rightarrow> dlock \<times> dlock_result option" where
  "resumeWaiter l i =
     (let w = dl_awake l ! i
      in attemptOrWait (l\<lparr>dl_awake := take i (dl_awake l) @ drop (Suc i) (dl_awake l)\<rparr>) w)"

fun eraseRequest :: "string \<Rightarrow> dlock_entry list \<Rightarrow> dlock_entry list" where
  "eraseRequest request_id [] = []"
| "eraseRequest request_id (e # es) =
     (if le_request_id e = request_id then es else e # eraseRequest request_id es)"

definition releaseLock :: "dlock \<Rightarrow> string \<Rightarrow> dlock \<times> dlock_result" where
  "releaseLock l request_id =
     (case List.find (\<lambda>e. le_request_id e = request_id) (ts_entries (dl_table l)) of
        None \<Rightarrow> (l, \<lparr>res_code = kInvalidState, res_range = \<lparr>lr_start = 0, lr_end = 0\<rparr>,
                     res_request_id = request_id, res_message = ''request not found''\<rparr>)
      | Some e \<Rightarrow>
          (notifyAll (l\<lparr>dl_table := (dl_table l)\<lparr>ts_entries :=
               eraseRequest request_id (ts_entries (dl_table l))\<rparr>\<rparr>),
           \<lparr>res_code = kOk, res_range = le_range e, res_request_id = request_id,
            res_message = ''released''\<rparr>))"

definition currentSnapshot :: "dlock \<Rightarrow> table_snapshot" where
  "currentSnapshot l = dl_table l"

section \<open>Asynchronous acquisition and destruction\<close>

datatype async_reply =
    AsyncReady dlock_result
  | AsyncException string
  | AsyncPending nat

definition reapCompletedAsyncWorkers :: "dlock \<Rightarrow> dlock" where
  "reapCompletedAsyncWorkers l =
     l\<lparr>dl_async_workers := filter (\<lambda>a. \<not> aw_completed a) (dl_async_workers l)\<rparr>"

text \<open>
  \<open>execOk\<close> is whether \<open>Dmn_Proc::exec\<close> could start the worker thread; the worker then calls
  \<open>acquireLock\<close> with its identifier.
\<close>

definition acquireLockAsync ::
    "dlock \<Rightarrow> bool \<Rightarrow> dlock_range \<Rightarrow> request_options \<Rightarrow> dlock \<times> async_reply" where
  "acquireLockAsync l execOk r options =
     (if dl_shutting_down l
      then (l, AsyncReady \<lparr>res_code = kShutdown, res_range = r,
              res_request_id = opt_request_id options, res_message = ''lock is shutting down''\<rparr>)
      else
        let l1 = reapCompletedAsyncWorkers l;
            i = dl_next_worker l1;
            l2 = l1\<lparr>dl_async_workers := dl_async_workers l1 @ [\<lparr>aw_id = i, aw_completed = False\<rparr>],
                    dl_next_worker := Suc i\<rparr>
        in if \<not> execOk
           then (l2\<lparr>dl_async_workers := butlast (dl_async_workers l2)\<rparr>,
                 AsyncException ''failed to start Dmn_Proc worker for async lock acquisition'')
           else (l2, AsyncPending i))"

text \<open>The destructor: the flag, then the notification, neither under the mutex; then it waits.\<close>

definition shutdownStore :: "dlock \<Rightarrow> dlock" where
  "shutdownStore l = l\<lparr>dl_shutting_down := True\<rparr>"

definition shutdownNotify :: "dlock \<Rightarrow> dlock" where
  "shutdownNotify l = notifyAll l"

definition workersDone :: "dlock \<Rightarrow> bool" where
  "workersDone l \<longleftrightarrow> list_all aw_completed (dl_async_workers l)"

section \<open>Interleavings\<close>

text \<open>
  Everything that can happen to a lock.  Steps that need the mutex are blocked while a call owns
  it on its way into the wait; a waiting call may also wake without a notification.
\<close>

inductive lock_step :: "dlock \<Rightarrow> dlock \<Rightarrow> bool" where
  step_acquire: "dl_entering l = None \<Longrightarrow> lock_step l (fst (acquireLock l None r options))"
| step_worker: "dl_entering l = None \<Longrightarrow> lock_step l (fst (acquireLock l (Some i) r options))"
| step_sleep: "lock_step l (enterSleep l)"
| step_resume: "dl_entering l = None \<Longrightarrow> i < length (dl_awake l) \<Longrightarrow>
    lock_step l (fst (resumeWaiter l i))"
| step_spurious: "dl_sleeping l = a @ w # b \<Longrightarrow>
    lock_step l (l\<lparr>dl_sleeping := a @ b, dl_awake := dl_awake l @ [w]\<rparr>)"
| step_release: "dl_entering l = None \<Longrightarrow> lock_step l (fst (releaseLock l request_id))"
| step_async: "lock_step l (fst (acquireLockAsync l execOk r options))"
| step_shutdown_store: "lock_step l (shutdownStore l)"
| step_shutdown_notify: "lock_step l (shutdownNotify l)"

definition lock_init :: "dlock \<Rightarrow> bool" where
  "lock_init l \<longleftrightarrow> (\<exists>cfg. l = newLock cfg)"

end
