(* ===== verification/DLockProps.thy ===== *)
theory DLockProps
  imports DLock
begin

text \<open>
  What the range lock promises.  Safety: in every interleaving no two granted entries overlap.
  The calls: what each branch of acquire and release returns and does to the table.  The table
  message: decoding gives back what was encoded.  Destruction: which waiting calls come back.
\<close>

section \<open>The invariant\<close>

abbreviation disjointGrants :: "dlock_entry \<Rightarrow> dlock_entry \<Rightarrow> bool" where
  "disjointGrants lhs rhs \<equiv> \<not> (le_domain lhs = le_domain rhs \<and>
     le_granted lhs \<and> le_granted rhs \<and> lockOverlaps (le_range lhs) (le_range rhs))"

abbreviation keyLess :: "dlock_entry \<Rightarrow> dlock_entry \<Rightarrow> bool" where
  "keyLess lhs rhs \<equiv> canonicalKey lhs < canonicalKey rhs"

definition waiters :: "dlock \<Rightarrow> waiter list" where
  "waiters l = (case dl_entering l of None \<Rightarrow> [] | Some w \<Rightarrow> [w]) @ dl_sleeping l @ dl_awake l"

definition lock_inv :: "dlock \<Rightarrow> bool" where
  "lock_inv l \<longleftrightarrow>
     ts_domain (dl_table l) = cfg_domain (dl_config l) \<and>
     (\<forall>e \<in> set (ts_entries (dl_table l)). lockEntryValid e \<and>
        le_domain e = cfg_domain (dl_config l) \<and> le_granted e \<and> le_state e = EsGranted) \<and>
     sorted_wrt disjointGrants (ts_entries (dl_table l)) \<and>
     sorted_wrt (\<lambda>x y. \<not> keyLess y x) (ts_entries (dl_table l)) \<and>
     (\<forall>w \<in> set (waiters l). lockRangeValid (wt_range w) \<and> wt_request_id w \<noteq> [])"

lemma lockOverlaps_sym: "lockOverlaps r s = lockOverlaps s r"
  by (auto simp: lockOverlaps_def)

lemma canonicalize_simps [simp]:
  "mset (ts_entries (canonicalize t)) = mset (ts_entries t)"
  "set (ts_entries (canonicalize t)) = set (ts_entries t)"
  "ts_domain (canonicalize t) = ts_domain t"
  "ts_table_version (canonicalize t) = ts_table_version t"
  "ts_next_sequence (canonicalize t) = ts_next_sequence t"
  "ts_next_fencing_token (canonicalize t) = ts_next_fencing_token t"
  by (simp_all add: canonicalize_def)

lemma canonicalize_sorted:
  "sorted_wrt (\<lambda>x y. \<not> keyLess y x) (ts_entries (canonicalize t))"
  unfolding canonicalize_def by (simp, rule stableSort_is_sorted) auto

lemma canonicalize_disjoint:
  "sorted_wrt disjointGrants (ts_entries t) \<Longrightarrow>
     sorted_wrt disjointGrants (ts_entries (canonicalize t))"
  by (rule sorted_wrt_sym_mset [rotated 2]) (auto simp: lockOverlaps_sym)

lemma notifyAll_simps [simp]:
  "dl_table (notifyAll l) = dl_table l" "dl_config (notifyAll l) = dl_config l"
  "dl_shutting_down (notifyAll l) = dl_shutting_down l"
  "dl_entering (notifyAll l) = dl_entering l" "set (waiters (notifyAll l)) = set (waiters l)"
  by (auto simp: notifyAll_def waiters_def split: option.splits)

lemma waiters_update [simp]: "waiters (l\<lparr>dl_table := t\<rparr>) = waiters l"
  by (simp add: waiters_def)

lemma completeWorker_simps [simp]:
  "dl_table (completeWorker w l) = dl_table l" "dl_config (completeWorker w l) = dl_config l"
  "dl_shutting_down (completeWorker w l) = dl_shutting_down l"
  "dl_entering (completeWorker w l) = dl_entering l" "waiters (completeWorker w l) = waiters l"
  "dl_sleeping (completeWorker w l) = dl_sleeping l" "dl_awake (completeWorker w l) = dl_awake l"
  by (simp_all add: completeWorker_def waiters_def split: option.splits)

section \<open>One attempt\<close>

definition grantedTable ::
    "dlock \<Rightarrow> dlock_range \<Rightarrow> request_options \<Rightarrow> string \<Rightarrow> table_snapshot" where
  "grantedTable l r options request_id =
     (let e = grantEntry l r options request_id in
      canonicalize ((dl_table l)\<lparr>ts_entries := ts_entries (dl_table l) @ [e],
        ts_table_version := ts_table_version (dl_table l) + 1,
        ts_next_sequence := le_sequence e, ts_next_fencing_token := le_fence e\<rparr>))"

lemma grantEntry_simps [simp]:
  "le_range (grantEntry l r options i) = r" "le_granted (grantEntry l r options i)"
  "le_domain (grantEntry l r options i) = cfg_domain (dl_config l)"
  "le_request_id (grantEntry l r options i) = i" "le_state (grantEntry l r options i) = EsGranted"
  "le_sequence (grantEntry l r options i) = ts_next_sequence (dl_table l) + 1"
  "le_fence (grantEntry l r options i) = ts_next_fencing_token (dl_table l) + 1"
  by (simp_all add: grantEntry_def)

lemma acquireAttempt_cases:
  assumes inv: "lock_inv l" and dom: "cfg_domain (dl_config l) \<noteq> []"
    and r: "lockRangeValid r" and i: "i \<noteq> []"
  shows "acquireAttempt l r options i =
    (let reply = (\<lambda>code msg. Some \<lparr>res_code = code, res_range = r, res_request_id = i,
                                   res_message = msg\<rparr>) in
     if isGrantedForRange (dl_table l) r then
       if dl_shutting_down l then (l, reply kShutdown ''lock is shutting down'')
       else if \<not> opt_wait options \<or> opt_no_wait options
         then (l, reply kNoWait ''range is already granted'')
       else (l, None)
     else if dl_shutting_down l then (l, reply kShutdown ''lock is shutting down'')
     else (notifyAll (l\<lparr>dl_table := grantedTable l r options i\<rparr>), reply kOk ''granted''))"
proof -
  let ?e = "grantEntry l r options i"
  have valid: "lockEntryValid ?e" using dom r i by (simp add: lockEntryValid_def)
  have "withCandidate (dl_table l) ?e \<lparr>ts_next_sequence := le_sequence ?e,
        ts_next_fencing_token := le_fence ?e\<rparr> = grantedTable l r options i"
      "ts_entries (withCandidate (dl_table l) ?e) \<noteq> []"
    if free: "\<not> isGrantedForRange (dl_table l) r"
  proof -
    have "classifyGrantCandidate (dl_table l) ?e = kOk"
      using free inv valid r
      by (auto simp: classifyGrantCandidate_def isGrantedForRange_def lock_inv_def list_ex_iff)
    then show "withCandidate (dl_table l) ?e \<lparr>ts_next_sequence := le_sequence ?e,
        ts_next_fencing_token := le_fence ?e\<rparr> = grantedTable l r options i"
      "ts_entries (withCandidate (dl_table l) ?e) \<noteq> []"
      by (simp_all add: withCandidate_def grantedTable_def canonicalize_def Let_def
          flip: length_0_conv)
  qed
  then show ?thesis
    by (auto simp: acquireAttempt_def Let_def)
qed

lemma acquireAttempt_no_domain:
  assumes "cfg_domain (dl_config l) = []"
  shows "fst (acquireAttempt l r options i) = l"
  using assms
  by (auto simp: acquireAttempt_def withCandidate_def classifyGrantCandidate_def
      lockEntryValid_def emptySnapshot_def Let_def)

lemma lock_inv_granted:
  assumes inv: "lock_inv l" and free: "\<not> isGrantedForRange (dl_table l) r"
    and dom: "cfg_domain (dl_config l) \<noteq> []" and r: "lockRangeValid r" and i: "i \<noteq> []"
  shows "lock_inv (notifyAll (l\<lparr>dl_table := grantedTable l r options i\<rparr>))"
proof -
  let ?t = "grantedTable l r options i" and ?e = "grantEntry l r options i"
  let ?n = "notifyAll (l\<lparr>dl_table := ?t\<rparr>)"
  have set: "set (ts_entries ?t) = insert ?e (set (ts_entries (dl_table l)))"
    by (simp add: grantedTable_def Let_def)
  have "sorted_wrt disjointGrants (ts_entries (dl_table l) @ [?e])"
    using inv free by (auto simp: sorted_wrt_append lock_inv_def isGrantedForRange_def list_ex_iff)
  then have "sorted_wrt disjointGrants (ts_entries ?t)"
    unfolding grantedTable_def Let_def by (intro canonicalize_disjoint) simp
  moreover have "sorted_wrt (\<lambda>x y. \<not> keyLess y x) (ts_entries ?t)"
    unfolding grantedTable_def Let_def by (rule canonicalize_sorted)
  moreover have "lockEntryValid ?e" using dom r i by (simp add: lockEntryValid_def)
  moreover have "ts_domain ?t = ts_domain (dl_table l)" by (simp add: grantedTable_def Let_def)
  moreover have "set (waiters ?n) = set (waiters l)" by simp
  ultimately show ?thesis
    using inv unfolding lock_inv_def by (simp add: set)
qed

lemma lock_inv_attempt:
  assumes inv: "lock_inv l" and r: "lockRangeValid r" and i: "i \<noteq> []"
  shows "lock_inv (fst (acquireAttempt l r options i))"
proof (cases "cfg_domain (dl_config l) = []")
  case True
  then show ?thesis using inv by (simp add: acquireAttempt_no_domain)
next
  case False
  then show ?thesis
    using inv lock_inv_granted [OF inv _ False r i]
    by (simp add: acquireAttempt_cases [OF inv False r i] Let_def)
qed

lemma lock_inv_cong:
  assumes "lock_inv l" and "dl_table l' = dl_table l" and "dl_config l' = dl_config l"
    and "set (waiters l') \<subseteq> set (waiters l)"
  shows "lock_inv l'"
  using assms by (auto simp: lock_inv_def)

lemma attempt_keeps_waiters:
  "set (waiters (fst (acquireAttempt l r options i))) = set (waiters l)"
  by (simp add: acquireAttempt_def Let_def)

lemma lock_inv_attemptOrWait:
  assumes inv: "lock_inv l" and w: "lockRangeValid (wt_range w)" "wt_request_id w \<noteq> []"
  shows "lock_inv (fst (attemptOrWait l w))"
proof (cases "acquireAttempt l (wt_range w) (wt_options w) (wt_request_id w)")
  case (Pair l' res)
  then have l': "lock_inv l'" using lock_inv_attempt [OF inv w, of "wt_options w"] by simp
  show ?thesis
  proof (cases res)
    case (Some a)
    then show ?thesis using l' Pair
      by (auto simp: attemptOrWait_def intro: lock_inv_cong)
  next
    case None
    then show ?thesis using l' Pair w
      by (auto simp: attemptOrWait_def lock_inv_def waiters_def split: option.splits)
  qed
qed

lemma requestIdFor_nonempty [simp]: "requestIdFor l options \<noteq> []"
  by (simp add: requestIdFor_def)

lemma lock_inv_acquireLock: "lock_inv l \<Longrightarrow> lock_inv (fst (acquireLock l w r options))"
  by (auto simp: acquireLock_def intro: lock_inv_attemptOrWait lock_inv_cong)

lemma eraseRequest_sub:
  "set (eraseRequest i es) \<subseteq> set es"
  "sorted_wrt P es \<Longrightarrow> sorted_wrt P (eraseRequest i es)"
proof -
  show sub: "set (eraseRequest i es) \<subseteq> set es" for es by (induction es) auto
  show "sorted_wrt P es \<Longrightarrow> sorted_wrt P (eraseRequest i es)"
    using sub by (induction es) auto
qed

lemma lock_inv_release: "lock_inv l \<Longrightarrow> lock_inv (fst (releaseLock l i))"
  using eraseRequest_sub(1) [of i "ts_entries (dl_table l)"]
  by (auto simp: releaseLock_def lock_inv_def intro: eraseRequest_sub(2) split: option.splits)

lemma lock_inv_resume:
  assumes inv: "lock_inv l" and i: "i < length (dl_awake l)"
  shows "lock_inv (fst (resumeWaiter l i))"
  unfolding resumeWaiter_def Let_def
proof (rule lock_inv_attemptOrWait)
  have "dl_awake l ! i \<in> set (waiters l)" using i by (simp add: waiters_def)
  then show "lockRangeValid (wt_range (dl_awake l ! i))" "wt_request_id (dl_awake l ! i) \<noteq> []"
    using inv by (simp_all add: lock_inv_def)
  show "lock_inv (l\<lparr>dl_awake := take i (dl_awake l) @ drop (Suc i) (dl_awake l)\<rparr>)"
    by (rule lock_inv_cong [OF inv])
      (auto simp: waiters_def dest: in_set_takeD in_set_dropD)
qed

lemma lock_inv_step: "lock_step l l' \<Longrightarrow> lock_inv l \<Longrightarrow> lock_inv l'"
proof (induction rule: lock_step.induct)
  case (step_spurious l a w b)
  then show ?case by (auto elim!: lock_inv_cong simp: waiters_def)
next
  case (step_sleep l)
  then show ?case by (auto elim!: lock_inv_cong simp: waiters_def enterSleep_def split: option.splits)
next
  case (step_async l execOk r options)
  then show ?case
    by (auto elim!: lock_inv_cong simp: acquireLockAsync_def reapCompletedAsyncWorkers_def
        waiters_def Let_def)
next
  case (step_shutdown_store l)
  then show ?case by (auto elim!: lock_inv_cong simp: waiters_def shutdownStore_def)
next
  case (step_shutdown_notify l)
  then show ?case by (auto elim!: lock_inv_cong simp: shutdownNotify_def)
qed (auto intro: lock_inv_acquireLock lock_inv_release lock_inv_resume)

interpretation lock: invariant_system lock_init lock_step lock_inv
proof unfold_locales
  show "lock_inv l" if "lock_init l" for l
    using that by (auto simp: lock_init_def lock_inv_def newLock_def emptySnapshot_def waiters_def)
  show "lock_inv l'" if "lock_inv l" "lock_step l l'" for l l'
    by (rule lock_inv_step [OF that(2,1)])
qed

section \<open>Properties\<close>

text \<open>
  C3: mutual exclusion.  Whatever calls, wake-ups, releases and shutdown steps interleave, two
  different entries of the table never hold overlapping ranges, and a table with a domain passes
  its own validation.
\<close>

theorem lock_mutual_exclusion:
  assumes "reachable lock_init lock_step l" and "cfg_domain (dl_config l) \<noteq> []"
  shows "sorted_wrt (\<lambda>x y. \<not> lockOverlaps (le_range x) (le_range y)) (ts_entries (dl_table l)) \<and>
    validate (dl_table l)"
proof -
  have inv: "lock_inv l" by (rule lock.reachable_inv [OF assms(1)])
  have "sorted_wrt (\<lambda>x y. \<not> lockOverlaps (le_range x) (le_range y)) (ts_entries (dl_table l))"
    by (rule sorted_wrt_mono_rel [where P = disjointGrants]) (use inv in \<open>auto simp: lock_inv_def\<close>)
  moreover have "validate (dl_table l)"
    using inv assms(2) by (auto simp: validate_def lock_inv_def list_ex_iff lockEntryValid_def)
  ultimately show ?thesis ..
qed

definition exampleConfig :: dlock_config where
  "exampleConfig = \<lparr>cfg_domain = ''default'', cfg_default_lease_ticks = 1000,
     cfg_require_canonical_snapshot = True\<rparr>"

definition defaultOptions :: request_options where
  "defaultOptions = \<lparr>opt_request_id = [], opt_lease_ticks = 0, opt_wait = True,
     opt_retries_allowed = False, opt_no_wait = False\<rparr>"

definition exampleLock :: dlock where
  "exampleLock = fst (acquireLock (newLock exampleConfig) None \<lparr>lr_start = 0, lr_end = 9\<rparr> defaultOptions)"

lemma exampleLock_reachable: "reachable lock_init lock_step exampleLock"
  unfolding exampleLock_def
  by (rule reach_step [OF reach_init]) (auto simp: lock_init_def newLock_def intro: step_acquire)

theorem lock_mutual_exclusion_witness:
  "sorted_wrt (\<lambda>x y. \<not> lockOverlaps (le_range x) (le_range y)) (ts_entries (dl_table exampleLock)) \<and>
    validate (dl_table exampleLock)"
proof (rule lock_mutual_exclusion [OF exampleLock_reachable])
  show "cfg_domain (dl_config exampleLock) \<noteq> []" by code_simp
qed

text \<open>
  The outcome of \<open>acquireLock\<close> is decided by the table alone.  An invalid range is refused;
  a granted overlap makes the call report the shutdown, report no-wait, or wait; a free range is
  refused during shutdown and granted otherwise: the table then has exactly one entry more,
  granted to this request, in canonical order, its three counters have moved by one, and every
  sleeping call is woken.  A conflict is never reported for a lock with a domain.
\<close>

theorem acquire_outcomes:
  assumes "reachable lock_init lock_step l" and "cfg_domain (dl_config l) \<noteq> []"
  shows "let (l', res) = acquireLock l None r options; i = requestIdFor l options;
       t = dl_table l; t' = dl_table l'; e = grantEntry l r options i in
     if \<not> lockRangeValid r then l' = l \<and> map_option res_code res = Some kInvalidRange
     else if isGrantedForRange t r \<and> \<not> dl_shutting_down l \<and> opt_wait options \<and> \<not> opt_no_wait options
       then res = None \<and> t' = t \<and> dl_entering l' = Some \<lparr>wt_range = r, wt_options = options,
              wt_request_id = i, wt_worker = None\<rparr>
     else if dl_shutting_down l then l' = l \<and> map_option res_code res = Some kShutdown
     else if isGrantedForRange t r then l' = l \<and> map_option res_code res = Some kNoWait
     else res = Some \<lparr>res_code = kOk, res_range = r, res_request_id = i, res_message = ''granted''\<rparr> \<and>
       mset (ts_entries t') = add_mset e (mset (ts_entries t)) \<and>
       sorted_wrt (\<lambda>x y. \<not> keyLess y x) (ts_entries t') \<and>
       ts_next_sequence t' = ts_next_sequence t + 1 \<and>
       ts_next_fencing_token t' = ts_next_fencing_token t + 1 \<and>
       ts_table_version t' = ts_table_version t + 1 \<and>
       dl_sleeping l' = [] \<and> dl_awake l' = dl_awake l @ dl_sleeping l"
proof (cases "lockRangeValid r")
  case False
  then show ?thesis by (simp add: acquireLock_def completeWorker_def)
next
  case True
  have inv: "lock_inv l" by (rule lock.reachable_inv [OF assms(1)])
  note cases = acquireAttempt_cases [OF inv assms(2) True requestIdFor_nonempty [of l options], of options]
  show ?thesis
    using True canonicalize_sorted
    by (simp add: acquireLock_def attemptOrWait_def cases Let_def completeWorker_def
        grantedTable_def notifyAll_def)
qed

theorem acquire_outcomes_witness:
  "let l = exampleLock; r = \<lparr>lr_start = 10, lr_end = 12\<rparr>; options = defaultOptions;
       (l', res) = acquireLock l None r options; i = requestIdFor l options;
       t = dl_table l; t' = dl_table l'; e = grantEntry l r options i in
     if \<not> lockRangeValid r then l' = l \<and> map_option res_code res = Some kInvalidRange
     else if isGrantedForRange t r \<and> \<not> dl_shutting_down l \<and> opt_wait options \<and> \<not> opt_no_wait options
       then res = None \<and> t' = t \<and> dl_entering l' = Some \<lparr>wt_range = r, wt_options = options,
              wt_request_id = i, wt_worker = None\<rparr>
     else if dl_shutting_down l then l' = l \<and> map_option res_code res = Some kShutdown
     else if isGrantedForRange t r then l' = l \<and> map_option res_code res = Some kNoWait
     else res = Some \<lparr>res_code = kOk, res_range = r, res_request_id = i, res_message = ''granted''\<rparr> \<and>
       mset (ts_entries t') = add_mset e (mset (ts_entries t)) \<and>
       sorted_wrt (\<lambda>x y. \<not> keyLess y x) (ts_entries t') \<and>
       ts_next_sequence t' = ts_next_sequence t + 1 \<and>
       ts_next_fencing_token t' = ts_next_fencing_token t + 1 \<and>
       ts_table_version t' = ts_table_version t + 1 \<and>
       dl_sleeping l' = [] \<and> dl_awake l' = dl_awake l @ dl_sleeping l"
proof -
  have "cfg_domain (dl_config exampleLock) \<noteq> []" by code_simp
  from acquire_outcomes [OF exampleLock_reachable this, of "\<lparr>lr_start = 10, lr_end = 12\<rparr>" defaultOptions]
  show ?thesis unfolding Let_def .
qed

lemma eraseRequest_split:
  "List.find (\<lambda>e. le_request_id e = i) es = Some e \<Longrightarrow>
     \<exists>a b. es = a @ e # b \<and> eraseRequest i es = a @ b"
proof (induction es)
  case (Cons x es)
  show ?case
  proof (cases "le_request_id x = i")
    case True
    with Cons.prems have "x = e" by simp
    then show ?thesis using True by (intro exI [of _ "[]"] exI [of _ es]) simp
  next
    case False
    with Cons obtain a b where "es = a @ e # b" "eraseRequest i es = a @ b" by auto
    then show ?thesis using False by (intro exI [of _ "x # a"] exI [of _ b]) simp
  qed
qed simp

text \<open>
  C17: releasing a request that holds a range removes exactly one entry with that identifier,
  reports its range, frees the whole range at once, leaves every other grant in place and wakes
  every sleeping call; an unknown identifier changes nothing.
\<close>

theorem release_frees_range:
  assumes "reachable lock_init lock_step l"
  shows "let (l', res) = releaseLock l i; t = dl_table l; t' = dl_table l' in
     if i \<notin> le_request_id ` set (ts_entries t)
     then l' = l \<and> res_code res = kInvalidState
     else res_code res = kOk \<and> \<not> isGrantedForRange t' (res_range res) \<and>
       (\<exists>e. le_request_id e = i \<and> le_range e = res_range res \<and>
          mset (ts_entries t) = add_mset e (mset (ts_entries t'))) \<and>
       dl_sleeping l' = [] \<and> dl_awake l' = dl_awake l @ dl_sleeping l"
proof (cases "List.find (\<lambda>e. le_request_id e = i) (ts_entries (dl_table l))")
  case None
  then have "i \<notin> le_request_id ` set (ts_entries (dl_table l))"
    by (auto simp: find_None_iff)
  then show ?thesis using None by (simp add: releaseLock_def)
next
  case (Some e)
  then have e: "le_request_id e = i" "e \<in> set (ts_entries (dl_table l))"
    by (auto simp: find_Some_iff)
  obtain a b where ab: "ts_entries (dl_table l) = a @ e # b"
      "eraseRequest i (ts_entries (dl_table l)) = a @ b"
    using eraseRequest_split [OF Some] by blast
  have inv: "lock_inv l" by (rule lock.reachable_inv [OF assms])
  then have "\<forall>x \<in> set (a @ b). \<not> lockOverlaps (le_range x) (le_range e)"
    unfolding lock_inv_def ab(1) by (auto simp: sorted_wrt_append lockOverlaps_sym [of "le_range e"])
  then have "\<not> list_ex (\<lambda>x. le_granted x \<and> lockOverlaps (le_range x) (le_range e)) (a @ b)"
    unfolding list_ex_iff by blast
  moreover have "i \<in> le_request_id ` set (ts_entries (dl_table l))"
    unfolding e(1) [symmetric] using e(2) by (rule imageI)
  moreover have "\<exists>x. le_request_id x = i \<and> le_range x = le_range e \<and>
      mset (a @ e # b) = add_mset x (mset (a @ b))"
    by (rule exI [of _ e]) (simp add: e(1))
  ultimately show ?thesis
    unfolding releaseLock_def Some option.case Let_def prod.case
    by (simp add: ab(1) ab(2) [unfolded ab(1)] isGrantedForRange_def notifyAll_def)
qed

theorem release_frees_range_witness:
  "let (l', res) = releaseLock exampleLock ''req-1''; t = dl_table exampleLock; t' = dl_table l' in
     if ''req-1'' \<notin> le_request_id ` set (ts_entries t)
     then l' = exampleLock \<and> res_code res = kInvalidState
     else res_code res = kOk \<and> \<not> isGrantedForRange t' (res_range res) \<and>
       (\<exists>e. le_request_id e = ''req-1'' \<and> le_range e = res_range res \<and>
          mset (ts_entries t) = add_mset e (mset (ts_entries t'))) \<and>
       dl_sleeping l' = [] \<and> dl_awake l' = dl_awake exampleLock @ dl_sleeping exampleLock"
  using release_frees_range [OF exampleLock_reachable, of "''req-1''"] .

text \<open>
  The table message round trip.  Decoding an encoded table gives back the table in canonical
  order, field by field, as long as no entry has an unspecified state or terminal reason.
\<close>

theorem snapshot_proto_roundtrip:
  assumes "\<forall>e \<in> set (ts_entries t). le_state e \<noteq> EsUnspecified \<and> le_terminal_reason e \<noteq> TrUnspecified"
  shows "fromProto (toProto t) = canonicalize t"
proof -
  have "stateFromPb (stateToPb s) = s" if "s \<noteq> EsUnspecified" for s
    using that by (cases s) (simp_all add: stateFromPb_def stateToPb_def)
  moreover have "reasonFromPb (reasonToPb r) = r" if "r \<noteq> TrUnspecified" for r
    using that by (cases r) (simp_all add: reasonFromPb_def reasonToPb_def)
  ultimately have "entryFromPb (entryToPb e) = e" if "e \<in> set (ts_entries t)" for e
    using bspec [OF assms that] by (simp add: entryFromPb_def entryToPb_def)
  then have "map entryFromPb (map entryToPb (ts_entries (canonicalize t))) = ts_entries (canonicalize t)"
    unfolding map_map by (intro map_idI) simp
  moreover have "stableSort keyLess (ts_entries (canonicalize t)) = ts_entries (canonicalize t)"
    by (rule stableSort_sorted [OF canonicalize_sorted])
  ultimately show ?thesis
    by (simp add: fromProto_def toProto_def canonicalize_def)
qed

theorem snapshot_proto_roundtrip_witness:
  "fromProto (toProto (dl_table exampleLock)) = canonicalize (dl_table exampleLock)"
proof (rule snapshot_proto_roundtrip)
  have "list_all (\<lambda>e. le_state e \<noteq> EsUnspecified \<and> le_terminal_reason e \<noteq> TrUnspecified)
      (ts_entries (dl_table exampleLock))"
    by code_simp
  then show "\<forall>e \<in> set (ts_entries (dl_table exampleLock)).
      le_state e \<noteq> EsUnspecified \<and> le_terminal_reason e \<noteq> TrUnspecified"
    by (simp add: list_all_iff)
qed

section \<open>Fencing tokens\<close>

definition fence_inv :: "dlock \<Rightarrow> bool" where
  "fence_inv l \<longleftrightarrow> lock_inv l \<and>
     ts_next_sequence (dl_table l) = ts_next_fencing_token (dl_table l) \<and>
     (\<forall>e \<in> set (ts_entries (dl_table l)). le_sequence e = le_fence e \<and>
        le_fence e \<le> ts_next_fencing_token (dl_table l)) \<and>
     distinct (map le_fence (ts_entries (dl_table l)))"

text \<open>Steps of a lock that has not used up its 64-bit fencing tokens.\<close>

definition fenced_step :: "dlock \<Rightarrow> dlock \<Rightarrow> bool" where
  "fenced_step l l' \<longleftrightarrow> lock_step l l' \<and> ts_next_fencing_token (dl_table l) \<noteq> - 1"

lemma attempt_table:
  assumes "lock_inv l" and "lockRangeValid r" and "i \<noteq> []"
  shows "dl_table (fst (acquireAttempt l r options i)) = dl_table l \<or>
     dl_table (fst (acquireAttempt l r options i)) = grantedTable l r options i"
proof (cases "cfg_domain (dl_config l) = []")
  case False
  then show ?thesis by (simp add: acquireAttempt_cases [OF assms(1) False assms(2,3)] Let_def)
qed (simp add: acquireAttempt_no_domain)

lemma attemptOrWait_table:
  "dl_table (fst (attemptOrWait l w)) =
     dl_table (fst (acquireAttempt l (wt_range w) (wt_options w) (wt_request_id w)))"
  by (auto simp: attemptOrWait_def split: prod.splits option.splits)

lemma acquireLock_table:
  assumes "lock_inv l"
  shows "dl_table (fst (acquireLock l w r options)) = dl_table l \<or>
     dl_table (fst (acquireLock l w r options)) = grantedTable l r options (requestIdFor l options)"
  using attempt_table [OF assms _ requestIdFor_nonempty [of l options], of r options]
  by (auto simp: acquireLock_def attemptOrWait_table)

lemma erase_map_distinct:
  "distinct (map f es) \<Longrightarrow> distinct (map f (eraseRequest i es))"
proof (induction es)
  case (Cons e es)
  have "f ` set (eraseRequest i es) \<subseteq> f ` set es"
    by (rule image_mono [OF eraseRequest_sub(1)])
  then show ?case using Cons by auto
qed simp

lemma step_tables:
  assumes "lock_step l l'" and "lock_inv l"
  shows "dl_table l' = dl_table l \<or>
     (\<exists>r options i. dl_table l' = grantedTable l r options i) \<or>
     (\<exists>i. dl_table l' = (dl_table l)\<lparr>ts_entries := eraseRequest i (ts_entries (dl_table l))\<rparr>)"
  using assms
proof (induction rule: lock_step.induct)
  case (step_resume l i)
  let ?l = "l\<lparr>dl_awake := take i (dl_awake l) @ drop (Suc i) (dl_awake l)\<rparr>" and ?w = "dl_awake l ! i"
  have "?w \<in> set (waiters l)" using step_resume by (simp add: waiters_def)
  then have w: "lockRangeValid (wt_range ?w)" "wt_request_id ?w \<noteq> []"
    using step_resume by (simp_all add: lock_inv_def)
  have "lock_inv ?l"
    by (rule lock_inv_cong [OF step_resume.prems]) (auto simp: waiters_def dest: in_set_takeD in_set_dropD)
  from attempt_table [OF this w, of "wt_options ?w"] show ?case
    unfolding resumeWaiter_def Let_def attemptOrWait_table
    by (auto simp: grantedTable_def grantEntry_def Let_def)
next
  case (step_release l i)
  then show ?case
    by (cases "List.find (\<lambda>e. le_request_id e = i) (ts_entries (dl_table l))")
      (auto simp: releaseLock_def)
next
  case (step_acquire l r options)
  then show ?case using acquireLock_table by blast
next
  case (step_worker l i r options)
  then show ?case using acquireLock_table by blast
qed (auto simp: enterSleep_def acquireLockAsync_def
    reapCompletedAsyncWorkers_def shutdownStore_def shutdownNotify_def Let_def
    split: option.splits)

lemma fence_inv_step:
  assumes inv: "fence_inv l" and step: "fenced_step l l'"
  shows "fence_inv l'"
proof -
  have linv: "lock_inv l" and ls: "lock_step l l'" and room: "ts_next_fencing_token (dl_table l) \<noteq> - 1"
    using inv step by (auto simp: fence_inv_def fenced_step_def)
  have linv': "lock_inv l'" by (rule lock_inv_step [OF ls linv])
  consider "dl_table l' = dl_table l"
    | r options i where "dl_table l' = grantedTable l r options i"
    | i where "dl_table l' = (dl_table l)\<lparr>ts_entries := eraseRequest i (ts_entries (dl_table l))\<rparr>"
    using step_tables [OF ls linv] by blast
  then show ?thesis
  proof cases
    case 1
    then show ?thesis using inv linv' by (simp add: fence_inv_def)
  next
    case 2
    let ?e = "grantEntry l r options i" and ?es = "ts_entries (dl_table l)"
    have m: "mset (ts_entries (dl_table l')) = add_mset ?e (mset ?es)"
      by (simp add: 2 grantedTable_def Let_def)
    have s: "set (ts_entries (dl_table l')) = insert ?e (set ?es)"
      by (simp add: 2 grantedTable_def Let_def)
    have less: "le_fence x < le_fence ?e" if "x \<in> set ?es" for x
      using that inv u64_succ_greater [OF room] by (auto simp: fence_inv_def)
    then have "le_fence ?e \<notin> le_fence ` set ?es" by (metis image_iff less_irrefl)
    then have "distinct (map le_fence (?e # ?es))"
      using inv by (simp add: fence_inv_def)
    moreover have "mset (map le_fence (ts_entries (dl_table l'))) = mset (map le_fence (?e # ?es))"
      by (simp add: m)
    ultimately have "distinct (map le_fence (ts_entries (dl_table l')))"
      by (metis mset_eq_imp_distinct_iff)
    moreover have "ts_next_sequence (dl_table l') = ts_next_sequence (dl_table l) + 1"
        "ts_next_fencing_token (dl_table l') = ts_next_fencing_token (dl_table l) + 1"
      by (simp_all add: 2 grantedTable_def Let_def)
    ultimately show ?thesis
      using inv linv' less unfolding fence_inv_def s by (auto intro: less_imp_le)
  next
    case 3
    then show ?thesis
      using inv linv' eraseRequest_sub(1) [of i "ts_entries (dl_table l)"]
      by (auto simp: fence_inv_def intro: erase_map_distinct)
  qed
qed

interpretation fencing: invariant_system lock_init fenced_step fence_inv
proof unfold_locales
  show "fence_inv l" if "lock_init l" for l
    using that lock.inv_init [OF that]
    by (auto simp: fence_inv_def lock_init_def newLock_def emptySnapshot_def)
qed (rule fence_inv_step)

text \<open>
  C20: fencing tokens.  As long as the 64-bit tokens are not used up, in every interleaving the
  live grants carry pairwise different fences and the next grant gets a token above all of them,
  so a stale holder can be told from the current one.
\<close>

theorem fencing_tokens_increase:
  assumes "reachable lock_init fenced_step l" and "ts_next_fencing_token (dl_table l) \<noteq> - 1"
  shows "distinct (map le_fence (ts_entries (dl_table l))) \<and>
    list_all (\<lambda>e. le_fence e < le_fence (grantEntry l r options i)) (ts_entries (dl_table l))"
  using fencing.reachable_inv [OF assms(1)] u64_succ_greater [OF assms(2)]
  by (auto simp: fence_inv_def list_all_iff)

theorem fencing_tokens_increase_witness:
  "distinct (map le_fence (ts_entries (dl_table exampleLock))) \<and>
    list_all (\<lambda>e. le_fence e < le_fence
      (grantEntry exampleLock \<lparr>lr_start = 4, lr_end = 5\<rparr> defaultOptions ''other''))
      (ts_entries (dl_table exampleLock))"
proof (rule fencing_tokens_increase)
  have "ts_next_fencing_token (dl_table (newLock exampleConfig)) \<noteq> - 1" by code_simp
  then have "fenced_step (newLock exampleConfig) exampleLock"
    by (auto simp: fenced_step_def exampleLock_def newLock_def intro: step_acquire)
  moreover have "reachable lock_init fenced_step (newLock exampleConfig)"
    by (rule reach_init) (auto simp: lock_init_def)
  ultimately show "reachable lock_init fenced_step exampleLock"
    by (rule reach_step [rotated])
  show "ts_next_fencing_token (dl_table exampleLock) \<noteq> - 1" by code_simp
qed

section \<open>Destruction\<close>

text \<open>Every woken call runs, first woken first.\<close>

fun drainAwake :: "nat \<Rightarrow> dlock \<Rightarrow> dlock \<times> dlock_result list" where
  "drainAwake 0 l = (l, [])"
| "drainAwake (Suc n) l =
     (case resumeWaiter l 0 of
        (l', Some res) \<Rightarrow> (let (l'', rs) = drainAwake n l' in (l'', res # rs))
      | (l', None) \<Rightarrow> (l', []))"

lemma attempt_shutdown:
  "dl_shutting_down l \<Longrightarrow> attemptOrWait l w =
     (completeWorker (wt_worker w) l, Some \<lparr>res_code = kShutdown, res_range = wt_range w,
        res_request_id = wt_request_id w, res_message = ''lock is shutting down''\<rparr>)"
  by (simp add: attemptOrWait_def acquireAttempt_def Let_def)

lemma drainAwake_shutdown:
  assumes "dl_shutting_down l"
  shows "\<exists>l' rs. drainAwake (length (dl_awake l)) l = (l', rs) \<and> dl_awake l' = [] \<and>
    dl_sleeping l' = dl_sleeping l \<and> dl_table l' = dl_table l \<and>
    map res_code rs = replicate (length (dl_awake l)) kShutdown \<and>
    map res_request_id rs = map wt_request_id (dl_awake l)"
  using assms
proof (induction "dl_awake l" arbitrary: l)
  case Nil
  then show ?case by simp
next
  case (Cons w ws)
  define u where "u = completeWorker (wt_worker w) (l\<lparr>dl_awake := ws\<rparr>)"
  have aw: "dl_awake l = w # ws" using Cons.hyps(2) by simp
  have "ws = dl_awake u" "dl_shutting_down u" using Cons.prems by (simp_all add: u_def)
  from Cons.hyps(1) [OF this] obtain l' rs where rec: "drainAwake (length ws) u = (l', rs)"
      "dl_awake l' = []" "dl_sleeping l' = dl_sleeping l" "dl_table l' = dl_table l"
      "map res_code rs = replicate (length ws) kShutdown"
      "map res_request_id rs = map wt_request_id ws"
    unfolding \<open>ws = dl_awake u\<close> [symmetric] by (auto simp: u_def)
  have "resumeWaiter l 0 = (u, Some \<lparr>res_code = kShutdown, res_range = wt_range w,
        res_request_id = wt_request_id w, res_message = ''lock is shutting down''\<rparr>)"
    using Cons.prems by (simp add: resumeWaiter_def aw attempt_shutdown u_def)
  then have run: "drainAwake (length (dl_awake l)) l = (l', \<lparr>res_code = kShutdown, res_range = wt_range w,
        res_request_id = wt_request_id w, res_message = ''lock is shutting down''\<rparr> # rs)"
    using rec(1) by (simp add: aw)
  show ?case
    unfolding run using rec(2-6)
    by (intro exI [of _ l'] exI [of _ "\<lparr>res_code = kShutdown, res_range = wt_range w,
        res_request_id = wt_request_id w, res_message = ''lock is shutting down''\<rparr> # rs"]) (simp add: aw)
qed

text \<open>
  C21: destruction drains the waiting calls.  When no call is between its test and its wait at
  the moment of the notification, the flag and the notification wake every sleeping call, and
  each of them returns \<open>kShutdown\<close> under its own request id without changing the table.
\<close>

theorem shutdown_drains_waiters:
  assumes "dl_entering l = None"
  shows "\<exists>l' rs. drainAwake (length (dl_awake l @ dl_sleeping l)) (shutdownNotify (shutdownStore l)) = (l', rs) \<and>
    waiters l' = [] \<and> dl_table l' = dl_table l \<and>
    map res_code rs = replicate (length (dl_awake l @ dl_sleeping l)) kShutdown \<and>
    map res_request_id rs = map wt_request_id (dl_awake l @ dl_sleeping l)"
proof -
  let ?l = "shutdownNotify (shutdownStore l)"
  have l: "dl_shutting_down ?l" "dl_awake ?l = dl_awake l @ dl_sleeping l" "dl_sleeping ?l = []"
      "dl_entering ?l = None" "dl_table ?l = dl_table l"
    using assms by (simp_all add: shutdownNotify_def shutdownStore_def notifyAll_def)
  from drainAwake_shutdown [OF l(1)] obtain l' rs where
    d: "drainAwake (length (dl_awake ?l)) ?l = (l', rs)" "dl_awake l' = []" "dl_sleeping l' = []"
      "dl_table l' = dl_table l" "map res_code rs = replicate (length (dl_awake ?l)) kShutdown"
      "map res_request_id rs = map wt_request_id (dl_awake ?l)"
    using l by auto
  have "dl_entering (fst (drainAwake n u)) = None" if "dl_shutting_down u" "dl_entering u = None" for n u
    using that
  proof (induction n arbitrary: u)
    case (Suc n)
    let ?u = "u\<lparr>dl_awake := take 0 (dl_awake u) @ drop (Suc 0) (dl_awake u)\<rparr>"
    have "resumeWaiter u 0 = (completeWorker (wt_worker (dl_awake u ! 0)) ?u,
        Some \<lparr>res_code = kShutdown, res_range = wt_range (dl_awake u ! 0),
          res_request_id = wt_request_id (dl_awake u ! 0), res_message = ''lock is shutting down''\<rparr>)"
      using Suc.prems unfolding resumeWaiter_def Let_def by (intro attempt_shutdown) simp
    then show ?case using Suc.IH [of "completeWorker (wt_worker (dl_awake u ! 0)) ?u"] Suc.prems
      by (auto split: prod.splits)
  qed simp
  from this [OF l(1,4), of "length (dl_awake ?l)"] d(1) have "dl_entering l' = None" by simp
  then show ?thesis using d unfolding l(2) by (simp add: waiters_def)
qed

definition waitingLock :: dlock where
  "waitingLock = enterSleep (fst (acquireLock exampleLock None \<lparr>lr_start = 5, lr_end = 6\<rparr> defaultOptions))"

theorem shutdown_drains_waiters_witness:
  "\<exists>l' rs. drainAwake (length (dl_awake waitingLock @ dl_sleeping waitingLock))
       (shutdownNotify (shutdownStore waitingLock)) = (l', rs) \<and>
    waiters l' = [] \<and> dl_table l' = dl_table waitingLock \<and>
    map res_code rs = replicate (length (dl_awake waitingLock @ dl_sleeping waitingLock)) kShutdown \<and>
    map res_request_id rs = map wt_request_id (dl_awake waitingLock @ dl_sleeping waitingLock)"
proof (rule shutdown_drains_waiters)
  show "dl_entering waitingLock = None" by code_simp
qed

section \<open>Two defects\<close>

text \<open>
  A run that loses a wake-up: the destructor's two steps fall between the test and the wait of
  a call that runs in a worker.
\<close>

definition lostWakeup :: dlock where
  "lostWakeup =
     (let l1 = exampleLock;
          l2 = fst (acquireLockAsync l1 True \<lparr>lr_start = 5, lr_end = 6\<rparr> defaultOptions);
          l3 = fst (acquireLock l2 (Some 0) \<lparr>lr_start = 5, lr_end = 6\<rparr> defaultOptions)
      in enterSleep (shutdownNotify (shutdownStore l3)))"

text \<open>
  The side condition of the draining property is needed.  The destructor stores the flag and
  notifies without \<open>m_mutex\<close>, so a reachable interleaving exists in which a call has tested the
  flag, misses the notification and sleeps with nobody left to wake it, while the destructor
  waits for its worker.
\<close>

theorem shutdown_lost_wakeup:
  "reachable lock_init lock_step lostWakeup \<and> dl_shutting_down lostWakeup \<and>
   length (dl_sleeping lostWakeup) = 1 \<and> dl_awake lostWakeup = [] \<and>
   dl_entering lostWakeup = None \<and> \<not> workersDone lostWakeup"
proof (intro conjI)
  have free: "dl_entering (fst (acquireLockAsync exampleLock True
      \<lparr>lr_start = 5, lr_end = 6\<rparr> defaultOptions)) = None" by code_simp
  have "reachable lock_init lock_step (fst (acquireLock (fst (acquireLockAsync exampleLock True
      \<lparr>lr_start = 5, lr_end = 6\<rparr> defaultOptions)) (Some 0) \<lparr>lr_start = 5, lr_end = 6\<rparr> defaultOptions))"
    by (rule reach_step [OF reach_step [OF exampleLock_reachable step_async] step_worker [OF free]])
  from reach_step [OF this step_shutdown_store]
  have "reachable lock_init lock_step (shutdownStore (fst (acquireLock (fst (acquireLockAsync exampleLock
      True \<lparr>lr_start = 5, lr_end = 6\<rparr> defaultOptions)) (Some 0) \<lparr>lr_start = 5, lr_end = 6\<rparr> defaultOptions)))" .
  from reach_step [OF reach_step [OF this step_shutdown_notify] step_sleep]
  show "reachable lock_init lock_step lostWakeup"
    unfolding lostWakeup_def Let_def .
  show "dl_shutting_down lostWakeup" by code_simp
  show "length (dl_sleeping lostWakeup) = 1" by code_simp
  show "dl_awake lostWakeup = []" by code_simp
  show "dl_entering lostWakeup = None" by code_simp
  show "\<not> workersDone lostWakeup" by code_simp
qed

text \<open>A run in which two calls without a request id wait behind the same grant.\<close>

definition duplicateIds :: dlock where
  "duplicateIds =
     (let r1 = \<lparr>lr_start = 0, lr_end = 3\<rparr>; r2 = \<lparr>lr_start = 5, lr_end = 8\<rparr>;
          l1 = enterSleep (fst (acquireLock exampleLock None r1 defaultOptions));
          l2 = enterSleep (fst (acquireLock l1 None r2 defaultOptions));
          l3 = fst (releaseLock l2 ''req-1'');
          l4 = fst (resumeWaiter l3 0)
      in fst (resumeWaiter l4 0))"

text \<open>
  Automatic request ids are not unique.  Two waiting calls compute the same id, because the
  counter does not move while they wait; after both are granted, releasing that id frees the
  range of only the first of them in canonical order and the other range stays taken.
\<close>

theorem automatic_ids_collide:
  "map le_request_id (ts_entries (dl_table duplicateIds)) = [''req-2'', ''req-2''] \<and>
   map le_range (ts_entries (dl_table duplicateIds)) =
     [\<lparr>lr_start = 0, lr_end = 3\<rparr>, \<lparr>lr_start = 5, lr_end = 8\<rparr>] \<and>
   isGrantedForRange (dl_table (fst (releaseLock duplicateIds ''req-2''))) \<lparr>lr_start = 5, lr_end = 8\<rparr>"
  by code_simp

lemma empty_domain_never_grants:
  assumes "cfg_domain (dl_config l) = []" and "lockRangeValid r" and "ts_entries (dl_table l) = []"
    and "\<not> dl_shutting_down l"
  shows "map_option res_code (snd (acquireLock l w r options)) = Some kConflict"
  using assms
  by (simp add: acquireLock_def attemptOrWait_def acquireAttempt_def isGrantedForRange_def
      withCandidate_def classifyGrantCandidate_def lockEntryValid_def emptySnapshot_def Let_def)

end
