(* ===== verification/Utf8.thy ===== *)
theory Utf8
  imports Dmn_Prelude
begin

text \<open>
  UTF-8: the specification as the concatenation of encoded Unicode scalar values, and the
  interface \<open>utf8_scanner\<close> of a function that measures the sequence at the front of a byte
  string.  The notification parser and the JSON engine each have such a scanner; what a scan
  over a whole text decides is proved once, here, for both.
\<close>

unbundle bit_operations_syntax

section \<open>Specification\<close>

definition scalar :: "nat \<Rightarrow> bool" where
  "scalar c \<longleftrightarrow> c \<le> 0x10FFFF \<and> \<not> (0xD800 \<le> c \<and> c \<le> 0xDFFF)"

definition utf8_encode :: "nat \<Rightarrow> u8 list" where
  "utf8_encode c =
     (if c < 0x80 then [of_nat c]
      else if c < 0x800 then [of_nat (0xC0 + c div 64), of_nat (0x80 + c mod 64)]
      else if c < 0x10000 then
        [of_nat (0xE0 + c div 4096), of_nat (0x80 + c div 64 mod 64), of_nat (0x80 + c mod 64)]
      else
        [of_nat (0xF0 + c div 262144), of_nat (0x80 + c div 4096 mod 64),
         of_nat (0x80 + c div 64 mod 64), of_nat (0x80 + c mod 64)])"

definition well_formed_utf8 :: "u8 list \<Rightarrow> bool" where
  "well_formed_utf8 bs \<longleftrightarrow> (\<exists>cs. (\<forall>c \<in> set cs. scalar c) \<and> bs = concat (map utf8_encode cs))"

lemma utf8_encode_cases:
  "c < 0x80 \<Longrightarrow> utf8_encode c = [of_nat c]"
  "0x80 \<le> c \<Longrightarrow> c < 0x800 \<Longrightarrow> utf8_encode c = [of_nat (0xC0 + c div 64), of_nat (0x80 + c mod 64)]"
  "0x800 \<le> c \<Longrightarrow> c < 0x10000 \<Longrightarrow> utf8_encode c =
     [of_nat (0xE0 + c div 4096), of_nat (0x80 + c div 64 mod 64), of_nat (0x80 + c mod 64)]"
  "0x10000 \<le> c \<Longrightarrow> utf8_encode c =
     [of_nat (0xF0 + c div 262144), of_nat (0x80 + c div 4096 mod 64),
      of_nat (0x80 + c div 64 mod 64), of_nat (0x80 + c mod 64)]"
  by (simp_all add: utf8_encode_def)

lemma utf8_encode_nonempty [simp]: "utf8_encode c \<noteq> []"
  by (simp add: utf8_encode_def)

lemma well_formed_Nil [simp]: "well_formed_utf8 []"
  by (auto simp: well_formed_utf8_def intro: exI [of _ "[]"])

lemma well_formed_append:
  "well_formed_utf8 a \<Longrightarrow> well_formed_utf8 b \<Longrightarrow> well_formed_utf8 (a @ b)"
  unfolding well_formed_utf8_def by (metis Un_iff concat_append map_append set_append)

lemma well_formed_encode: "scalar c \<Longrightarrow> well_formed_utf8 (utf8_encode c)"
  by (auto simp: well_formed_utf8_def intro!: exI [of _ "[c]"])

section \<open>Scanners\<close>

text \<open>
  \<open>seqLength bs\<close> is the length of the well-formed sequence at the front of the non-empty \<open>bs\<close>,
  or 0.
\<close>

locale utf8_scanner =
  fixes seqLength :: "u8 list \<Rightarrow> nat"
  assumes scan_sound: "bs \<noteq> [] \<Longrightarrow> seqLength bs \<noteq> 0 \<Longrightarrow>
      \<exists>c. scalar c \<and> take (seqLength bs) bs = utf8_encode c"
    and scan_complete: "scalar c \<Longrightarrow> seqLength (utf8_encode c @ rest) = length (utf8_encode c)"
begin

lemma scan_length: "bs \<noteq> [] \<Longrightarrow> seqLength bs \<noteq> 0 \<Longrightarrow> seqLength bs \<le> length bs"
proof -
  assume bs: "bs \<noteq> []" and n: "seqLength bs \<noteq> 0"
  then obtain c where c: "scalar c" "take (seqLength bs) bs = utf8_encode c"
    using scan_sound by blast
  then have "bs = utf8_encode c @ drop (seqLength bs) bs" by (metis append_take_drop_id)
  then have "seqLength bs = length (utf8_encode c)" using scan_complete [OF c(1)] by metis
  moreover have "length (utf8_encode c) \<le> length bs" using c(2) by (metis length_take min.cobounded1)
  ultimately show "seqLength bs \<le> length bs" by simp
qed

lemma well_formed_step:
  assumes "bs \<noteq> []"
  shows "well_formed_utf8 bs \<longleftrightarrow> seqLength bs \<noteq> 0 \<and> well_formed_utf8 (drop (seqLength bs) bs)"
proof
  assume "well_formed_utf8 bs"
  then obtain cs where cs: "\<forall>c \<in> set cs. scalar c" "bs = concat (map utf8_encode cs)"
    by (auto simp: well_formed_utf8_def)
  with assms obtain c ds where ds: "cs = c # ds" by (cases cs) auto
  then have "bs = utf8_encode c @ concat (map utf8_encode ds)" using cs by simp
  moreover have "scalar c" using cs ds by simp
  ultimately have "seqLength bs = length (utf8_encode c)" using scan_complete by metis
  then show "seqLength bs \<noteq> 0 \<and> well_formed_utf8 (drop (seqLength bs) bs)"
    using cs ds by (auto simp: well_formed_utf8_def)
next
  assume "seqLength bs \<noteq> 0 \<and> well_formed_utf8 (drop (seqLength bs) bs)"
  moreover from this obtain c where "scalar c" "take (seqLength bs) bs = utf8_encode c"
    using scan_sound [OF assms] by blast
  ultimately show "well_formed_utf8 bs"
    using well_formed_append well_formed_encode by (metis append_take_drop_id)
qed

end

section \<open>Bytes and code points\<close>

lemma u8_exhaust: "list_all (\<lambda>n. P (of_nat n :: u8)) [0..<256] \<Longrightarrow> P b"
proof -
  assume all: "list_all (\<lambda>n. P (of_nat n :: u8)) [0..<256]"
  have "unat b < 256" using unsigned_less [of b] by simp
  then have "P (of_nat (unat b))" using all unfolding list_all_iff by (metis atLeastLessThan_iff le0 set_upt)
  then show "P b" by simp
qed

lemma continuation_iff: "(b :: u8) AND 0xC0 = 0x80 \<longleftrightarrow> 0x80 \<le> unat b \<and> unat b < 0xC0"
  by (rule u8_exhaust) code_simp

lemma unat_ucast_u32 [simp]: "unat (ucast (b :: u8) :: u32) = unat b"
proof -
  have "unat b < 2 ^ LENGTH(8)" by (rule unsigned_less)
  then have "unat b < 2 ^ 32" by simp
  then show ?thesis by (simp add: unsigned_ucast_eq take_bit_nat_eq_self)
qed

lemma unat_and_mask:
  assumes "m = (mask n :: u32)" and "n \<le> 32"
  shows "unat (ucast (b :: u8) AND m) = unat b mod 2 ^ n"
proof -
  have low: "ucast b AND m = take_bit n (ucast b)" by (simp add: assms(1) take_bit_eq_mask)
  show ?thesis
    unfolding low unsigned_take_bit_eq unat_ucast_u32 by (simp add: take_bit_eq_mod)
qed

lemma unat_mask_6: "unat (ucast (b :: u8) AND 0x3F :: u32) = unat b mod 64"
  using unat_and_mask [of "0x3F" 6 b] by (simp add: mask_eq_exp_minus_1)

lemma unat_mask_5: "unat (ucast (b :: u8) AND 0x1F :: u32) = unat b mod 32"
  using unat_and_mask [of "0x1F" 5 b] by (simp add: mask_eq_exp_minus_1)

lemma unat_mask_4: "unat (ucast (b :: u8) AND 0x0F :: u32) = unat b mod 16"
  using unat_and_mask [of "0x0F" 4 b] by (simp add: mask_eq_exp_minus_1)

lemma unat_mask_3: "unat (ucast (b :: u8) AND 0x07 :: u32) = unat b mod 8"
  using unat_and_mask [of "0x07" 3 b] by (simp add: mask_eq_exp_minus_1)

lemma unat_continue:
  assumes "unat (cp :: u32) < 2 ^ 26"
  shows "unat (push_bit 6 cp OR (ucast (b :: u8) AND 0x3F)) = unat cp * 64 + unat b mod 64"
proof -
  have low: "(ucast b AND 0x3F :: u32) = take_bit 6 (ucast b)"
    by (simp add: take_bit_eq_mask mask_eq_exp_minus_1)
  have "push_bit 6 cp OR (ucast b AND 0x3F) = push_bit 6 cp + (ucast b AND 0x3F)"
    unfolding low by (rule disjunctive_add [symmetric]) (auto simp: bit_simps)
  moreover have "unat (push_bit 6 cp) = unat cp * 64"
    using assms by (simp add: push_bit_eq_mult unat_word_ariths(2))
  ultimately show ?thesis
    using assms by (simp add: unat_word_ariths(1) unat_mask_6)
qed

text \<open>
  The loop over continuation bytes, \<open>codePoint = (codePoint << 6) | (byte & 0x3f)\<close>, which both
  scanners run.
\<close>

fun continuationBits :: "u32 \<Rightarrow> u8 list \<Rightarrow> u32 option" where
  "continuationBits codePoint [] = Some codePoint"
| "continuationBits codePoint (b # bs) =
     (if b AND 0xC0 \<noteq> 0x80 then None
      else continuationBits (push_bit 6 codePoint OR (ucast b AND 0x3F)) bs)"

section \<open>A reference scanner\<close>

text \<open>The decoder over natural numbers that both scanners are compared with.\<close>

fun continuationNat :: "nat \<Rightarrow> u8 list \<Rightarrow> nat option" where
  "continuationNat c [] = Some c"
| "continuationNat c (b # bs) =
     (if 0x80 \<le> unat b \<and> unat b < 0xC0 then continuationNat (c * 64 + (unat b - 0x80)) bs else None)"

definition finishScan :: "nat \<Rightarrow> nat \<Rightarrow> nat \<Rightarrow> u8 list \<Rightarrow> nat" where
  "finishScan k minimum c rest =
     (if length rest < k then 0
      else case continuationNat c (take k rest) of
             None \<Rightarrow> 0
           | Some d \<Rightarrow> if minimum \<le> d \<and> scalar d then Suc k else 0)"

definition scanFront :: "u8 list \<Rightarrow> nat" where
  "scanFront bs = (case bs of
     [] \<Rightarrow> 0
   | b # rest \<Rightarrow>
       if unat b < 0x80 then 1
       else if 0xC2 \<le> unat b \<and> unat b \<le> 0xDF then finishScan 1 0x80 (unat b mod 32) rest
       else if 0xE0 \<le> unat b \<and> unat b \<le> 0xEF then finishScan 2 0x800 (unat b mod 16) rest
       else if 0xF0 \<le> unat b \<and> unat b \<le> 0xF4 then finishScan 3 0x10000 (unat b mod 8) rest
       else 0)"

lemma mod_as_minus:
  assumes "k * m \<le> n" and "n < Suc k * m"
  shows "n mod m = n - k * (m :: nat)"
proof -
  have "n div m = k" using assms by (intro div_nat_eqI) (simp_all add: mult.commute)
  then show ?thesis by (metis minus_div_mult_eq_mod)
qed

lemma digit_64:
  assumes "y < (64 :: nat)"
  shows "(x * 64 + y) div 64 = x" and "(x * 64 + y) mod 64 = y"
  using assms by simp_all

lemma digits_64:
  fixes y z w :: nat
  assumes "y < 64" and "z < 64" and "w < 64"
  shows "(x * 64 + y) div 64 = x" and "(x * 64 + y) mod 64 = y"
    and "((x * 64 + y) * 64 + z) div 4096 = x"
    and "(((x * 64 + y) * 64 + z) * 64 + w) div 4096 = x * 64 + y"
    and "(((x * 64 + y) * 64 + z) * 64 + w) div 262144 = x"
proof -
  have one: "(u * 64 + v) div 64 = u" if "v < 64" for u v :: nat using that by simp
  have two: "n div 4096 = n div 64 div 64" "n div 262144 = n div 64 div 64 div 64" for n :: nat
    by (simp_all flip: div_mult2_eq)
  show "(x * 64 + y) div 64 = x" "(x * 64 + y) mod 64 = y"
    "((x * 64 + y) * 64 + z) div 4096 = x"
    "(((x * 64 + y) * 64 + z) * 64 + w) div 4096 = x * 64 + y"
    "(((x * 64 + y) * 64 + z) * 64 + w) div 262144 = x"
    unfolding two by (simp_all only: one assms mod_mult_self3 mod_less)
qed

lemma digits_64_four:
  fixes y z w :: nat
  assumes "y < 64" and "z < 64" and "w < 64" and "d = ((x * 64 + y) * 64 + z) * 64 + w"
  shows "d div 262144 = x" and "d div 4096 mod 64 = y" and "d div 64 mod 64 = z" and "d mod 64 = w"
proof -
  have "d div 64 = (x * 64 + y) * 64 + z" "d mod 64 = w"
    unfolding assms(4) by (rule digit_64 [OF assms(3)])+
  moreover have "d div 4096 = x * 64 + y" unfolding assms(4) by (rule digits_64(4) [OF assms(1-3)])
  moreover have "d div 262144 = x" unfolding assms(4) by (rule digits_64(5) [OF assms(1-3)])
  ultimately show "d div 262144 = x" "d div 4096 mod 64 = y" "d div 64 mod 64 = z" "d mod 64 = w"
    using digit_64(2) [OF assms(1), of x] digit_64(2) [OF assms(2), of "x * 64 + y"] by (simp_all only:)
qed

lemma continuation_value:
  "0x80 \<le> n \<Longrightarrow> n < 0xC0 \<Longrightarrow> n - 0x80 < (64 :: nat) \<and> n = 0x80 + (n - 0x80)"
  by simp

lemma continuationBits_nat:
  "(unat cp + 1) * 64 ^ length bs \<le> 2 ^ 32 \<Longrightarrow>
     map_option unat (continuationBits cp bs) = continuationNat (unat cp) bs"
proof (induction bs arbitrary: cp)
  case (Cons b bs)
  show ?case
  proof (cases "0x80 \<le> unat b \<and> unat b < 0xC0")
    case True
    have "(unat cp + 1) * 64 \<le> (unat cp + 1) * 64 ^ length (b # bs)"
      by (rule mult_le_mono2) simp
    then have small: "unat cp < 2 ^ 26" using Cons.prems by simp
    let ?cp = "push_bit 6 cp OR (ucast b AND 0x3F)"
    have m: "unat b mod 64 = unat b - 0x80" using True mod_as_minus [of 2 64 "unat b"] by simp
    have cp: "unat ?cp = unat cp * 64 + (unat b - 0x80)"
      using unat_continue [OF small, of b] m by simp
    have "unat ?cp + 1 \<le> (unat cp + 1) * 64" using True cp by arith
    then have "(unat ?cp + 1) * 64 ^ length bs \<le> (unat cp + 1) * 64 * 64 ^ length bs"
      by (rule mult_le_mono1)
    also have "\<dots> = (unat cp + 1) * 64 ^ length (b # bs)" by (simp only: power_Suc mult.assoc length_Cons)
    finally have "(unat ?cp + 1) * 64 ^ length bs \<le> 2 ^ 32" using Cons.prems by (rule order_trans)
    from Cons.IH [OF this] show ?thesis using True cp by (simp add: continuation_iff)
  next
    case False
    then show ?thesis by (auto simp: continuation_iff)
  qed
qed simp

lemma of_nat_eqI: "n = unat (b :: u8) \<Longrightarrow> of_nat n = b"
  by simp

lemma unat_u8: "n < 256 \<Longrightarrow> unat (of_nat n :: u8) = n"
  by (simp add: unat_of_nat)

lemma finishScan_nonzero:
  assumes "finishScan k minimum c rest \<noteq> 0" and "n = Suc k"
  obtains d where "finishScan k minimum c rest = n" "k \<le> length rest"
    "continuationNat c (take k rest) = Some d" "minimum \<le> d" "scalar d"
  using assms by (auto simp: finishScan_def split: if_splits option.splits)

lemma take_2: "2 \<le> length xs \<Longrightarrow> \<exists>a b. take 2 xs = [a, b]"
  by (cases xs rule: list.exhaust; cases "tl xs") (auto simp: eval_nat_numeral)

lemma take_3: "3 \<le> length xs \<Longrightarrow> \<exists>a b c. take 3 xs = [a, b, c]"
  by (cases xs; cases "tl xs"; cases "tl (tl xs)") (auto simp: eval_nat_numeral)

lemma scanFront_sound:
  assumes "scanFront (b # rest) \<noteq> 0"
  shows "\<exists>c. scalar c \<and> take (scanFront (b # rest)) (b # rest) = utf8_encode c"
proof -
  consider "unat b < 0x80"
    | "0xC2 \<le> unat b" "unat b \<le> 0xDF"
    | "0xE0 \<le> unat b" "unat b \<le> 0xEF"
    | "0xF0 \<le> unat b" "unat b \<le> 0xF4"
    using assms by (auto simp: scanFront_def split: if_splits)
  then show ?thesis
  proof cases
    case 1
    then show ?thesis
      by (intro exI [of _ "unat b"]) (simp add: scanFront_def scalar_def utf8_encode_def)
  next
    case 2
    then have s: "scanFront (b # rest) = finishScan 1 0x80 (unat b mod 32) rest"
      by (simp add: scanFront_def)
    obtain d where d: "scanFront (b # rest) = 2" "1 \<le> length rest"
        "continuationNat (unat b mod 32) (take 1 rest) = Some d" "0x80 \<le> d" "scalar d"
      using finishScan_nonzero [of 1 "0x80" "unat b mod 32" rest 2] assms unfolding s by auto
    then obtain x xs where rest: "rest = x # xs" by (cases rest) auto
    with d(3) have x: "0x80 \<le> unat x" "unat x < 0xC0" "d = unat b mod 32 * 64 + (unat x - 0x80)"
      by (auto split: if_splits)
    have "unat b mod 32 = unat b - 0xC0" using 2 mod_as_minus [of 6 32 "unat b"] by simp
    then have e: "unat b = 0xC0 + d div 64" "unat x = 0x80 + d mod 64" "d < 0x800"
      using 2 x digits_64(1,2) [of "unat x - 0x80" 0 0 "unat b mod 32"] by simp_all
    have "utf8_encode d = [b, x]"
      unfolding utf8_encode_cases(2) [OF d(4) e(3)] e(1,2) [symmetric] by simp
    moreover have "take 2 (b # rest) = [b, x]" by (simp add: rest numeral_2_eq_2)
    ultimately show ?thesis using d(1,5) by (intro exI [of _ d]) simp
  next
    case 3
    then have s: "scanFront (b # rest) = finishScan 2 0x800 (unat b mod 16) rest"
      by (simp add: scanFront_def)
    obtain d where d: "scanFront (b # rest) = 3" "2 \<le> length rest"
        "continuationNat (unat b mod 16) (take 2 rest) = Some d" "0x800 \<le> d" "scalar d"
      using finishScan_nonzero [of 2 "0x800" "unat b mod 16" rest 3] assms unfolding s by auto
    then obtain x y where rest: "take 2 rest = [x, y]" using take_2 by blast
    with d(3) have x: "0x80 \<le> unat x" "unat x < 0xC0" "0x80 \<le> unat y" "unat y < 0xC0"
        "d = (unat b mod 16 * 64 + (unat x - 0x80)) * 64 + (unat y - 0x80)"
      by (auto split: if_splits)
    let ?h = "unat b mod 16" and ?x = "unat x - 0x80" and ?y = "unat y - 0x80"
    have "?h = unat b - 0xE0" using 3 mod_as_minus [of 14 16 "unat b"] by simp
    then have e: "unat b = 0xE0 + d div 4096" "unat x = 0x80 + d div 64 mod 64" "unat y = 0x80 + d mod 64"
        "d < 0x10000"
      using 3 x digits_64(1,2) [of ?y 0 0 "?h * 64 + ?x"] digits_64(2,3) [of ?x ?y 0 ?h] by simp_all
    have "utf8_encode d = [b, x, y]"
      unfolding utf8_encode_cases(3) [OF d(4) e(4)] e(1-3) [symmetric] by simp
    moreover have "take 3 (b # rest) = b # take 2 rest" by (simp add: eval_nat_numeral)
    ultimately show ?thesis using d(1,5) rest by (intro exI [of _ d]) simp
  next
    case 4
    then have s: "scanFront (b # rest) = finishScan 3 0x10000 (unat b mod 8) rest"
      by (simp add: scanFront_def)
    obtain d where d: "scanFront (b # rest) = 4" "3 \<le> length rest"
        "continuationNat (unat b mod 8) (take 3 rest) = Some d" "0x10000 \<le> d" "scalar d"
      using finishScan_nonzero [of 3 "0x10000" "unat b mod 8" rest 4] assms unfolding s by auto
    then obtain x y z where rest: "take 3 rest = [x, y, z]" using take_3 by blast
    with d(3) have x: "0x80 \<le> unat x" "unat x < 0xC0" "0x80 \<le> unat y" "unat y < 0xC0"
        "0x80 \<le> unat z" "unat z < 0xC0"
        "d = ((unat b mod 8 * 64 + (unat x - 0x80)) * 64 + (unat y - 0x80)) * 64 + (unat z - 0x80)"
      by (auto split: if_splits)
    let ?h = "unat b mod 8" and ?x = "unat x - 0x80" and ?y = "unat y - 0x80" and ?z = "unat z - 0x80"
    have "?h = unat b - 0xF0" using 4 mod_as_minus [of 30 8 "unat b"] by simp
    then have h: "unat b = 0xF0 + ?h" using 4(1) by simp
    note cx = continuation_value [OF x(1,2)] and cy = continuation_value [OF x(3,4)]
      and cz = continuation_value [OF x(5,6)]
    note ds = digits_64_four [OF cx [THEN conjunct1] cy [THEN conjunct1] cz [THEN conjunct1] x(7)]
    have e: "unat b = 0xF0 + d div 262144" "unat x = 0x80 + d div 4096 mod 64"
        "unat y = 0x80 + d div 64 mod 64" "unat z = 0x80 + d mod 64"
      unfolding ds using h cx cy cz by blast+
    have "utf8_encode d = [b, x, y, z]"
      unfolding utf8_encode_cases(4) [OF d(4)] e [symmetric] by simp
    moreover have "take 4 (b # rest) = b # take 3 rest" by (simp add: eval_nat_numeral)
    ultimately show ?thesis using d(1,5) rest by (intro exI [of _ d]) simp
  qed
qed

lemma scanFront_complete:
  assumes "scalar c"
  shows "scanFront (utf8_encode c @ rest) = length (utf8_encode c)"
proof -
  have c: "c \<le> 0x10FFFF" using assms by (simp add: scalar_def)
  have m: "d mod 64 < 64" for d :: nat by simp
  have low: "unat (of_nat (0x80 + d) :: u8) = 0x80 + d" if "d < 64" for d
    using that by (intro unat_u8) simp
  have div: "c div 64 div 64 = c div 4096" "c div 4096 div 64 = c div 262144"
    using div_mult2_eq [of c 64 64] div_mult2_eq [of c 4096 64] by simp_all
  have digits: "c div 64 * 64 + c mod 64 = c" "c div 4096 * 64 + c div 64 mod 64 = c div 64"
      "c div 262144 * 64 + c div 4096 mod 64 = c div 4096"
    using div_mult_mod_eq [of c 64] div_mult_mod_eq [of "c div 64" 64] div_mult_mod_eq [of "c div 4096" 64]
    unfolding div .
  consider "c < 0x80" | "0x80 \<le> c" "c < 0x800" | "0x800 \<le> c" "c < 0x10000" | "0x10000 \<le> c"
    by linarith
  then show ?thesis
  proof cases
    case 1
    then show ?thesis by (simp add: utf8_encode_cases(1) scanFront_def unat_u8)
  next
    case 2
    let ?x = "c div 64"
    have h: "2 \<le> ?x" "?x < 32" using 2 by auto
    then have b: "unat (of_nat (0xC0 + ?x) :: u8) = 0xC0 + ?x" by (intro unat_u8) simp
    have bm: "(0xC0 + ?x) mod 32 = ?x" using mod_as_minus [of 6 32 "0xC0 + ?x"] h by simp
    have d: "?x * 64 + c mod 64 = c" by (simp only: digits)
    show ?thesis
      unfolding utf8_encode_cases(2) [OF 2] scanFront_def finishScan_def
      using h d 2 assms
      by (simp add: b bm low [OF m] del: of_nat_add)
  next
    case 3
    let ?x = "c div 4096" and ?y = "c div 64 mod 64"
    have h: "?x < 16" using 3 by auto
    then have b: "unat (of_nat (0xE0 + ?x) :: u8) = 0xE0 + ?x" by (intro unat_u8) simp
    have bm: "(0xE0 + ?x) mod 16 = ?x" using mod_as_minus [of 14 16 "0xE0 + ?x"] h by simp
    have d: "(?x * 64 + ?y) * 64 + c mod 64 = c" by (simp only: digits)
    show ?thesis
      unfolding utf8_encode_cases(3) [OF 3] scanFront_def finishScan_def
      using h d 3 assms
      by (simp add: b bm low [OF m] del: of_nat_add)
  next
    case 4
    let ?x = "c div 262144" and ?y = "c div 4096 mod 64" and ?z = "c div 64 mod 64"
    have h: "?x < 5" using c by auto
    then have b: "unat (of_nat (0xF0 + ?x) :: u8) = 0xF0 + ?x" by (intro unat_u8) simp
    have bm: "(0xF0 + ?x) mod 8 = ?x" using mod_as_minus [of 30 8 "0xF0 + ?x"] h by simp
    have d: "((?x * 64 + ?y) * 64 + ?z) * 64 + c mod 64 = c" by (simp only: digits)
    show ?thesis
      unfolding utf8_encode_cases(4) [OF 4] scanFront_def finishScan_def
      using h d 4 assms
      by (simp add: b bm low [OF m] del: of_nat_add)
  qed
qed

interpretation reference: utf8_scanner scanFront
proof unfold_locales
  show "\<exists>c. scalar c \<and> take (scanFront bs) bs = utf8_encode c" if "bs \<noteq> []" "scanFront bs \<noteq> 0" for bs
    using that scanFront_sound by (cases bs) auto
qed (rule scanFront_complete)

text \<open>A scanner that agrees with the reference on non-empty texts meets the contract.\<close>

lemma utf8_scannerI:
  assumes "\<And>b rest. f (b # rest) = scanFront (b # rest)"
  shows "utf8_scanner f"
proof
  show "\<exists>c. scalar c \<and> take (f bs) bs = utf8_encode c" if "bs \<noteq> []" "f bs \<noteq> 0" for bs
    using that assms scanFront_sound by (cases bs) auto
  show "f (utf8_encode c @ rest) = length (utf8_encode c)" if "scalar c" for c rest
    using that assms scanFront_complete [OF that, of rest] utf8_encode_nonempty [of c]
    by (cases "utf8_encode c @ rest") auto
qed

section \<open>Scanners over words\<close>

lemma continuationBits_lead:
  assumes "(unat (cp :: u32) + 1) * 64 ^ k \<le> 2 ^ 32"
  shows "map_option unat (continuationBits cp (take k rest)) = continuationNat (unat cp) (take k rest)"
proof (rule continuationBits_nat)
  have "64 ^ length (take k rest) \<le> (64 :: nat) ^ k" by (intro power_increasing) auto
  then have "(unat cp + 1) * 64 ^ length (take k rest) \<le> (unat cp + 1) * 64 ^ k" by (rule mult_le_mono2)
  then show "(unat cp + 1) * 64 ^ length (take k rest) \<le> 2 ^ 32" using assms by (rule order_trans)
qed

text \<open>The end of a scan, over words as the code computes it and over naturals.\<close>

lemma finishScan_word:
  assumes "(unat (cp :: u32) + 1) * 64 ^ k \<le> 2 ^ 32" and "unat (minimum :: u32) = m"
  shows "(if k > length rest then 0
          else case continuationBits cp (take k rest) of
                 None \<Rightarrow> 0
               | Some codePoint \<Rightarrow> if codePoint < minimum \<or>
                   0xD800 \<le> codePoint \<and> codePoint \<le> 0xDFFF \<or> codePoint > 0x10FFFF
                 then 0 else k + 1) = finishScan k m (unat cp) rest"
proof (cases "continuationBits cp (take k rest)")
  case None
  then show ?thesis
    using continuationBits_lead [OF assms(1), of rest] by (simp add: finishScan_def)
next
  case (Some d)
  then have "continuationNat (unat cp) (take k rest) = Some (unat d)"
    using continuationBits_lead [OF assms(1), of rest] by simp
  moreover have "d < minimum \<or> 0xD800 \<le> d \<and> d \<le> 0xDFFF \<or> d > 0x10FFFF \<longleftrightarrow>
      \<not> (m \<le> unat d \<and> scalar (unat d))"
    using assms(2) by (auto simp: scalar_def word_less_nat_alt word_le_nat_alt)
  ultimately show ?thesis
    using Some by (auto simp: finishScan_def not_less)
qed

end
