(* ===== verification/AncsParser.thy ===== *)
theory AncsParser
  imports Utf8
begin

text \<open>
  The bounded parsers of the notification client (\<open>src/dmn-ancs-client.cpp\<close>, the first part, and
  the value types of \<open>include/dmn-ancs-client.hpp\<close>): notification events, the reassembly of
  fragmented attribute responses, UTF-8 validation, dates, and the request that is sent.
  A \<open>std::expected\<close> result is a sum, \<open>Inl\<close> the error.
\<close>

unbundle bit_operations_syntax

section \<open>Values\<close>

datatype ancs_error_kind =
  AeAuthorization | AeBackend | AeCleanup | AeInvalidArgument | AeNotReady | AeProtocol | AeRemote |
  AeResourceLimit | AeTimeout | AeUnsupported

record ancs_error =
  ae_kind :: ancs_error_kind
  ae_message :: string
  ae_remote_name :: string
  ae_fatal :: bool

datatype notification_kind = NAdded | NAttributesUnavailable | NRemoved | NUpdated

record ancs_notification =
  an_kind :: notification_kind
  an_uid :: u32
  an_category :: u8
  an_category_count :: u8
  an_flags :: u8
  an_app_identifier :: "string option"
  an_title :: "string option"
  an_subtitle :: "string option"
  an_message :: "string option"
  an_date :: "string option"

definition emptyNotification :: ancs_notification where
  "emptyNotification = \<lparr>an_kind = NAdded, an_uid = 0, an_category = 0, an_category_count = 0,
     an_flags = 0, an_app_identifier = None, an_title = None, an_subtitle = None,
     an_message = None, an_date = None\<rparr>"

record attribute_set =
  as_app_identifier :: "string option"
  as_title :: "string option"
  as_subtitle :: "string option"
  as_message :: "string option"
  as_date :: "string option"

definition emptyAttributes :: attribute_set where
  "emptyAttributes = \<lparr>as_app_identifier = None, as_title = None, as_subtitle = None,
     as_message = None, as_date = None\<rparr>"

abbreviation (input) kNotificationSourceSize :: nat where "kNotificationSourceSize \<equiv> 8"
abbreviation (input) kDataSourceHeaderSize :: nat where "kDataSourceHeaderSize \<equiv> 5"
abbreviation (input) kAttributeTupleHeaderSize :: nat where "kAttributeTupleHeaderSize \<equiv> 3"
abbreviation (input) kMaximumDataSourceResponseSize :: nat where "kMaximumDataSourceResponseSize \<equiv> 8192"

definition kRequestedAttributeIds :: "u8 list" where
  "kRequestedAttributeIds = [0, 1, 2, 3, 5]"

definition kMaximumAttributeSizes :: "nat list" where
  "kMaximumAttributeSizes = [255, 256, 256, 4096, 64]"

definition parserError :: "ancs_error_kind \<Rightarrow> string \<Rightarrow> bool \<Rightarrow> ancs_error" where
  "parserError kind msg fatal =
     \<lparr>ae_kind = kind, ae_message = msg, ae_remote_name = [], ae_fatal = fatal\<rparr>"

section \<open>Byte access\<close>

definition readUint32LittleEndian :: "u8 list \<Rightarrow> nat \<Rightarrow> u32" where
  "readUint32LittleEndian bytes offset =
     ucast (bytes ! offset) OR push_bit 8 (ucast (bytes ! (offset + 1))) OR
     push_bit 16 (ucast (bytes ! (offset + 2))) OR push_bit 24 (ucast (bytes ! (offset + 3)))"

definition readUint16LittleEndian :: "u8 list \<Rightarrow> nat \<Rightarrow> u16" where
  "readUint16LittleEndian bytes offset =
     ucast (bytes ! offset) OR push_bit 8 (ucast (bytes ! (offset + 1)))"

definition bytesToString :: "u8 list \<Rightarrow> string" where
  "bytesToString bs = map (\<lambda>b. char_of (unat b)) bs"

section \<open>UTF-8 validation\<close>

text \<open>One turn of the loop of \<open>isValidUtf8\<close>: how far it moves, or 0 where it returns false.\<close>

definition ancsSequence :: "u8 list \<Rightarrow> nat" where
  "ancsSequence bs = (case bs of
     [] \<Rightarrow> 0
   | first # rest \<Rightarrow>
       if first \<le> 0x7F then 1
       else
         let lead = (if 0xC2 \<le> first \<and> first \<le> 0xDF then Some (1, ucast first AND 0x1F)
                     else if 0xE0 \<le> first \<and> first \<le> 0xEF then Some (2, ucast first AND 0x0F)
                     else if 0xF0 \<le> first \<and> first \<le> 0xF4 then Some (3, ucast first AND 0x07)
                     else None :: (nat \<times> u32) option)
         in case lead of
              None \<Rightarrow> 0
            | Some (continuationCount, initial) \<Rightarrow>
                if continuationCount > length rest then 0
                else case continuationBits initial (take continuationCount rest) of
                       None \<Rightarrow> 0
                     | Some codePoint \<Rightarrow>
                         if continuationCount = 1 \<and> codePoint < 0x80 \<or>
                            continuationCount = 2 \<and> codePoint < 0x800 \<or>
                            continuationCount = 3 \<and> codePoint < 0x10000 \<or>
                            0xD800 \<le> codePoint \<and> codePoint \<le> 0xDFFF \<or>
                            codePoint > 0x10FFFF
                         then 0 else continuationCount + 1)"

function isValidUtf8 :: "u8 list \<Rightarrow> bool" where
  "isValidUtf8 bytes =
     (if bytes = [] then True
      else let n = ancsSequence bytes
           in if n = 0 then False else isValidUtf8 (drop n bytes))"
  by pat_completeness auto
termination by (relation "measure length") auto

declare isValidUtf8.simps [simp del]

section \<open>Notification events\<close>

definition isRequestedAttribute :: "u8 \<Rightarrow> bool" where
  "isRequestedAttribute i = List.member kRequestedAttributeIds i"

definition assignAttribute :: "attribute_set \<Rightarrow> nat \<Rightarrow> string \<Rightarrow> attribute_set" where
  "assignAttribute a index v =
     (if index = 0 then a\<lparr>as_app_identifier := Some v\<rparr>
      else if index = 1 then a\<lparr>as_title := Some v\<rparr>
      else if index = 2 then a\<lparr>as_subtitle := Some v\<rparr>
      else if index = 3 then a\<lparr>as_message := Some v\<rparr>
      else if index = 4 then a\<lparr>as_date := Some v\<rparr>
      else a)"

definition parseAncsNotificationSource :: "u8 list \<Rightarrow> ancs_error + ancs_notification" where
  "parseAncsNotificationSource value =
     (if length value \<noteq> kNotificationSourceSize
      then Inl (parserError AeProtocol ''ANCS Notification Source value must be exactly eight bytes'' True)
      else
        let kind = (if value ! 0 = 0 then Some NAdded
                    else if value ! 0 = 1 then Some NUpdated
                    else if value ! 0 = 2 then Some NRemoved else None)
        in case kind of
             None \<Rightarrow> Inl (parserError AeUnsupported ''unsupported ANCS event identifier'' False)
           | Some k \<Rightarrow> Inr (emptyNotification\<lparr>an_kind := k, an_flags := value ! 1,
               an_category := value ! 2, an_category_count := value ! 3,
               an_uid := readUint32LittleEndian value 4\<rparr>))"

section \<open>Reassembly\<close>

record reassembler =
  ra_expected_uid :: u32
  ra_total_bytes :: nat
  ra_expected_attribute_index :: nat
  ra_header_seen :: bool
  ra_terminal :: bool
  ra_buffer :: "u8 list"
  ra_attributes :: attribute_set

definition newReassembler :: "u32 \<Rightarrow> reassembler" where
  "newReassembler uid = \<lparr>ra_expected_uid = uid, ra_total_bytes = 0,
     ra_expected_attribute_index = 0, ra_header_seen = False, ra_terminal = False,
     ra_buffer = [], ra_attributes = emptyAttributes\<rparr>"

text \<open>
  The loop of \<open>consume\<close> over attribute tuples.  The buffer is what is left behind \<open>consumed\<close>; the
  loop ends with an error, or because more bytes are needed or all attributes are there.
\<close>

datatype loop_stop = LoopBreak | LoopError ancs_error

function attributeLoop ::
    "nat \<Rightarrow> attribute_set \<Rightarrow> u8 list \<Rightarrow> nat \<times> attribute_set \<times> u8 list \<times> loop_stop" where
  "attributeLoop index attributes buf =
     (if \<not> index < length kRequestedAttributeIds then (index, attributes, buf, LoopBreak)
      else if length buf < kAttributeTupleHeaderSize then (index, attributes, buf, LoopBreak)
      else
        let attributeId = buf ! 0;
            attributeLength = unat (readUint16LittleEndian buf 1);
            values = drop kAttributeTupleHeaderSize buf
        in if attributeId \<noteq> kRequestedAttributeIds ! index then
             if isRequestedAttribute attributeId
             then (index, attributes, buf, LoopError (parserError AeProtocol
                     ''ANCS Data Source attributes are not in requested order'' True))
             else if attributeLength > length values then (index, attributes, buf, LoopBreak)
             else attributeLoop index attributes (drop attributeLength values)
           else if attributeLength > kMaximumAttributeSizes ! index
             then (index, attributes, buf, LoopError (parserError AeResourceLimit
                     ''ANCS attribute value exceeds its configured byte limit'' True))
           else if attributeLength > length values then (index, attributes, buf, LoopBreak)
           else if \<not> isValidUtf8 (take attributeLength values)
             then (index, attributes, buf, LoopError (parserError AeProtocol
                     ''ANCS attribute is not valid UTF-8'' False))
           else attributeLoop (index + 1)
                  (assignAttribute attributes index (bytesToString (take attributeLength values)))
                  (drop attributeLength values))"
  by pat_completeness auto
termination by (relation "measure (\<lambda>(i, a, buf). length buf)") auto

declare attributeLoop.simps [simp del]

definition consumeBody :: "reassembler \<Rightarrow> u8 list \<Rightarrow> reassembler \<times> (ancs_error + attribute_set option)" where
  "consumeBody r buf =
     (case attributeLoop (ra_expected_attribute_index r) (ra_attributes r) buf of
        (index, attributes, buf', LoopError err) \<Rightarrow>
          (r\<lparr>ra_expected_attribute_index := index, ra_attributes := attributes,
             ra_terminal := True\<rparr>, Inl err)
      | (index, attributes, buf', LoopBreak) \<Rightarrow>
          let r1 = r\<lparr>ra_expected_attribute_index := index, ra_attributes := attributes\<rparr>
          in if index = length kRequestedAttributeIds then
               if buf' \<noteq> []
               then (r1\<lparr>ra_terminal := True\<rparr>, Inl (parserError AeProtocol
                       ''ANCS Data Source response has trailing unrequested data'' True))
               else (r1\<lparr>ra_terminal := True\<rparr>, Inr (Some attributes))
             else (r1\<lparr>ra_buffer := buf'\<rparr>, Inr None))"

definition consume :: "reassembler \<Rightarrow> u8 list \<Rightarrow> reassembler \<times> (ancs_error + attribute_set option)" where
  "consume r fragment =
     (if ra_terminal r
      then (r, Inl (parserError AeNotReady
              ''ANCS Data Source response parser is already complete or failed'' True))
      else if fragment = []
      then (r, Inl (parserError AeProtocol ''ANCS Data Source fragment is empty'' True))
      else if length fragment > kMaximumDataSourceResponseSize - ra_total_bytes r
      then (r\<lparr>ra_terminal := True\<rparr>, Inl (parserError AeResourceLimit
              ''ANCS Data Source response exceeds the 8192-byte limit'' True))
      else
        let r1 = r\<lparr>ra_total_bytes := ra_total_bytes r + length fragment,
                   ra_buffer := ra_buffer r @ fragment\<rparr>
        in if \<not> ra_header_seen r1 then
             if length (ra_buffer r1) < kDataSourceHeaderSize then (r1, Inr None)
             else if ra_buffer r1 ! 0 \<noteq> 0
             then (r1\<lparr>ra_terminal := True\<rparr>, Inl (parserError AeProtocol
                     ''unexpected ANCS Data Source response command identifier'' True))
             else if readUint32LittleEndian (ra_buffer r1) 1 \<noteq> ra_expected_uid r1
             then (r1\<lparr>ra_terminal := True\<rparr>, Inl (parserError AeProtocol
                     ''ANCS Data Source response UID does not match the active request'' True))
             else consumeBody (r1\<lparr>ra_header_seen := True\<rparr>)
                    (drop kDataSourceHeaderSize (ra_buffer r1))
           else consumeBody r1 (ra_buffer r1))"

section \<open>Dates\<close>

definition isDateDigit :: "char \<Rightarrow> bool" where
  "isDateDigit c \<longleftrightarrow> 48 \<le> (of_char c :: nat) \<and> (of_char c :: nat) \<le> 57"

definition numberAt :: "string \<Rightarrow> nat \<Rightarrow> nat \<Rightarrow> nat" where
  "numberAt date offset len =
     foldl (\<lambda>number c. number * 10 + (of_char c - 48)) 0 (take len (drop offset date))"

text \<open>\<open>std::chrono::year_month_day::ok\<close> for the years 0 to 9999.\<close>

definition isLeapYear :: "nat \<Rightarrow> bool" where
  "isLeapYear y \<longleftrightarrow> y mod 4 = 0 \<and> (y mod 100 \<noteq> 0 \<or> y mod 400 = 0)"

definition lastDay :: "nat \<Rightarrow> nat \<Rightarrow> nat" where
  "lastDay y m = (if m = 2 then (if isLeapYear y then 29 else 28)
     else if m = 4 \<or> m = 6 \<or> m = 9 \<or> m = 11 then 30 else 31)"

definition calendarDateOk :: "nat \<Rightarrow> nat \<Rightarrow> nat \<Rightarrow> bool" where
  "calendarDateOk y m d \<longleftrightarrow> 1 \<le> m \<and> m \<le> 12 \<and> 1 \<le> d \<and> d \<le> lastDay y m"

definition isValidAncsDate :: "string \<Rightarrow> bool" where
  "isValidAncsDate date \<longleftrightarrow>
     (if length date \<noteq> 15 \<or> date ! 8 \<noteq> CHR ''T'' then False
      else if list_ex (\<lambda>i. i \<noteq> 8 \<and> \<not> isDateDigit (date ! i)) [0..<length date] then False
      else calendarDateOk (numberAt date 0 4) (numberAt date 4 2) (numberAt date 6 2) \<and>
           numberAt date 9 2 < 24 \<and> numberAt date 11 2 < 60 \<and> numberAt date 13 2 < 60)"

text \<open>The comparison of strings is the lexicographic one over unsigned characters.\<close>

fun stringLess :: "string \<Rightarrow> string \<Rightarrow> bool" where
  "stringLess [] [] = False"
| "stringLess [] (c # cs) = True"
| "stringLess (c # cs) [] = False"
| "stringLess (c # cs) (d # ds) =
     ((of_char c :: nat) < of_char d \<or> (of_char c :: nat) = of_char d \<and> stringLess cs ds)"

definition isBeforeCutoff :: "string option \<Rightarrow> string \<Rightarrow> bool" where
  "isBeforeCutoff date cutoff \<longleftrightarrow>
     cutoff = [] \<or> (case date of None \<Rightarrow> True
       | Some d \<Rightarrow> \<not> isValidAncsDate d \<or> stringLess d cutoff)"

section \<open>The attribute request\<close>

definition makeAttributeRequest :: "u32 \<Rightarrow> u8 list" where
  "makeAttributeRequest uid =
     [0] @ map (\<lambda>shift. ucast (drop_bit shift uid AND 0xFF)) [0, 8, 16, 24] @
     concat (map (\<lambda>index. kRequestedAttributeIds ! index #
         (if 1 \<le> index \<and> index \<le> 3
          then let maximum = of_nat (kMaximumAttributeSizes ! index) :: u16
               in [ucast (maximum AND 0xFF), ucast (drop_bit 8 maximum AND 0xFF)]
          else [])) [0..<length kRequestedAttributeIds])"

end
