(* ===== verification/AncsClient.thy ===== *)
theory AncsClient
  imports AncsParser
begin

text \<open>
  The notification session (\<open>Dmn_AncsClient::Impl\<close> of \<open>src/dmn-ancs-client.cpp\<close>): its state, the
  start and stop sequences, the event worker, the request queue and the control-point worker.
  The GATT backend is a parameter: each call of it appears as the answer it gives.  An operation
  that can stop the two subscriptions takes the pair of answers of the two \<open>stop\<close> calls, first
  the Notification Source, then the Data Source (\<open>None\<close> for success).
\<close>

section \<open>Backend values\<close>

datatype gatt_error_kind =
  GeBackend | GeDecode | GeInvalidArgument | GeNotReady | GeRemote | GeTimeout

record gatt_error =
  ge_kind :: gatt_error_kind
  ge_message :: string
  ge_remote_name :: string

record gatt_characteristic =
  gc_id :: string
  gc_uuid :: string
  gc_flags :: "string list"

record gatt_service =
  gs_id :: string
  gs_uuid :: string
  gs_primary :: bool
  gs_characteristics :: "gatt_characteristic list"

datatype gatt_event_kind = GattError | GattInvalidated | GattValueChanged

record gatt_event =
  gev_kind :: gatt_event_kind
  gev_value :: "u8 list"
  gev_message :: string

type_synonym stop_answers = "gatt_error option \<times> gatt_error option"

section \<open>Session values\<close>

datatype ancs_state =
  AsStopped | AsStarting | AsResolvingServices | AsDiscoveringANCS | AsSubscribingDataSource |
  AsSubscribingNotificationSource | AsReady | AsStopping | AsFailed

text \<open>Times and durations are milliseconds of the steady clock; the cutoff is a wall-clock time.\<close>

record ancs_config =
  cfg_service_resolution_timeout :: int
  cfg_gatt_operation_timeout :: int
  cfg_attribute_response_timeout :: int
  cfg_notification_date_cutoff :: "int option"
  cfg_maximum_pending_notifications :: nat

definition defaultConfig :: ancs_config where
  "defaultConfig = \<lparr>cfg_service_resolution_timeout = 30000, cfg_gatt_operation_timeout = 10000,
     cfg_attribute_response_timeout = 10000, cfg_notification_date_cutoff = None,
     cfg_maximum_pending_notifications = 255\<rparr>"

datatype ancs_event_kind =
  EvAttributesUnavailable | EvError | EvNotificationAdded | EvNotificationRemoved |
  EvNotificationUpdated | EvStateChanged

record ancs_event =
  ev_kind :: ancs_event_kind
  ev_state :: "ancs_state option"
  ev_notification :: "ancs_notification option"
  ev_error :: "ancs_error option"

definition stateEvent :: "ancs_state \<Rightarrow> ancs_event" where
  "stateEvent st = \<lparr>ev_kind = EvStateChanged, ev_state = Some st, ev_notification = None, ev_error = None\<rparr>"

definition errorEvent :: "ancs_error \<Rightarrow> ancs_event" where
  "errorEvent e = \<lparr>ev_kind = EvError, ev_state = None, ev_notification = None, ev_error = Some e\<rparr>"

definition notificationEvent :: "ancs_event_kind \<Rightarrow> ancs_notification \<Rightarrow> ancs_event" where
  "notificationEvent k n = \<lparr>ev_kind = k, ev_state = None, ev_notification = Some n, ev_error = None\<rparr>"

record notification_record =
  nr_notification :: ancs_notification
  nr_added_not_reported :: bool
  nr_unavailable :: bool
  nr_ignored_before_start :: bool

definition emptyRecord :: notification_record where
  "emptyRecord = \<lparr>nr_notification = emptyNotification, nr_added_not_reported = True,
     nr_unavailable = False, nr_ignored_before_start = False\<rparr>"

record gatt_packet =
  gp_data_source :: bool
  gp_event :: gatt_event

record control_point_job =
  cj_uid :: u32
  cj_device_id :: string
  cj_characteristic_id :: string
  cj_value :: "u8 list"
  cj_timeout :: int

record control_point_result =
  cr_uid :: u32
  cr_result :: "gatt_error option"

record active_request =
  ar_notification :: ancs_notification
  ar_reassembler :: reassembler
  ar_deadline :: "int option"
  ar_write_pending :: bool
  ar_removed :: bool

text \<open>A new request has no deadline (the largest time point) until its write is acknowledged.\<close>

definition newActiveRequest :: "ancs_notification \<Rightarrow> active_request" where
  "newActiveRequest n = \<lparr>ar_notification = n, ar_reassembler = newReassembler (an_uid n),
     ar_deadline = None, ar_write_pending = True, ar_removed = False\<rparr>"

text \<open>
  Where a caller of \<open>start\<close> or \<open>stop\<close> stands while it holds \<open>m_api_mutex\<close>, with its local
  variables: it waits for a backend call, for the worker mutex or for the two workers to end.
\<close>

datatype api_call =
    ApiIdle
  | ApiResolving string
  | ApiDiscovering string
  | ApiSubscribingData string gatt_characteristic
  | ApiSubscribingNotification string
  | ApiStopping
  | ApiJoining

text \<open>What the event worker has taken out of its queues and not yet processed.\<close>

datatype worker_item =
    WorkerEvent ancs_event
  | WorkerPacket gatt_packet
  | WorkerResult control_point_result
  | WorkerNothing

record ancs =
  ac_handler :: bool
  ac_state :: ancs_state
  ac_config :: ancs_config
  ac_device_id :: string
  ac_control_point_id :: string
  ac_notification_date_cutoff :: string
  ac_event_queue :: "ancs_event list"
  ac_gatt_queue :: "gatt_packet list"
  ac_control_point_jobs :: "control_point_job list"
  ac_control_point_results :: "control_point_result list"
  ac_records :: "u32 \<Rightarrow> notification_record option"
  ac_pending_requests :: "u32 list"
  ac_queued_uids :: "u32 set"
  ac_active_request :: "active_request option"
  ac_data_source_subscription :: bool
  ac_notification_source_subscription :: bool
  ac_ready :: bool
  ac_accept_gatt_events :: bool
  ac_shutdown :: bool
  ac_control_point_shutdown :: bool
  ac_worker_started :: bool
  ac_control_point_worker_started :: bool
  ac_backlog_limit_reported :: bool
  ac_cancel_requested :: bool
  ac_api :: api_call
  ac_picked :: "worker_item option"
  ac_writing :: "control_point_job option"
  ac_delivered :: "ancs_event list"

text \<open>
  The last four fields are not members of the class: the position of the API caller, the local
  variables of the two workers, and the events that the application's handler has been called with.
\<close>

definition newClient :: ancs where
  "newClient = \<lparr>ac_handler = False, ac_state = AsStopped, ac_config = defaultConfig,
     ac_device_id = [], ac_control_point_id = [], ac_notification_date_cutoff = [],
     ac_event_queue = [], ac_gatt_queue = [], ac_control_point_jobs = [],
     ac_control_point_results = [], ac_records = (\<lambda>_. None), ac_pending_requests = [],
     ac_queued_uids = {}, ac_active_request = None, ac_data_source_subscription = False,
     ac_notification_source_subscription = False, ac_ready = False,
     ac_accept_gatt_events = False, ac_shutdown = False, ac_control_point_shutdown = False,
     ac_worker_started = False, ac_control_point_worker_started = False,
     ac_backlog_limit_reported = False, ac_cancel_requested = False, ac_api = ApiIdle,
     ac_picked = None, ac_writing = None, ac_delivered = []\<rparr>"

type_synonym ancs_result = "ancs_error + unit"

section \<open>Errors\<close>

definition makeAncsError :: "ancs_error_kind \<Rightarrow> string \<Rightarrow> ancs_error" where
  "makeAncsError kind msg = \<lparr>ae_kind = kind, ae_message = msg, ae_remote_name = [], ae_fatal = True\<rparr>"

fun isPrefix :: "string \<Rightarrow> string \<Rightarrow> bool" where
  "isPrefix [] s = True"
| "isPrefix (c # cs) [] = False"
| "isPrefix (c # cs) (d # ds) = (c = d \<and> isPrefix cs ds)"

fun containsText :: "string \<Rightarrow> string \<Rightarrow> bool" where
  "containsText needle [] = isPrefix needle []"
| "containsText needle (c # cs) = (isPrefix needle (c # cs) \<or> containsText needle cs)"

definition mapGattError :: "gatt_error \<Rightarrow> ancs_error" where
  "mapGattError g =
     \<lparr>ae_kind =
        (if containsText ''NotAuthorized'' (ge_remote_name g) \<or>
            containsText ''NotPermitted'' (ge_remote_name g) then AeAuthorization
         else case ge_kind g of
                GeInvalidArgument \<Rightarrow> AeInvalidArgument
              | GeNotReady \<Rightarrow> AeNotReady
              | GeTimeout \<Rightarrow> AeTimeout
              | GeRemote \<Rightarrow> AeRemote
              | GeBackend \<Rightarrow> AeBackend
              | GeDecode \<Rightarrow> AeBackend),
      ae_message = ge_message g, ae_remote_name = ge_remote_name g, ae_fatal = True\<rparr>"

section \<open>Shared steps\<close>

definition enqueueApplicationEvent :: "ancs_event \<Rightarrow> ancs \<Rightarrow> ancs" where
  "enqueueApplicationEvent e s = s\<lparr>ac_event_queue := ac_event_queue s @ [e]\<rparr>"

definition setState :: "ancs_state \<Rightarrow> ancs \<Rightarrow> ancs" where
  "setState st s = s\<lparr>ac_state := st, ac_event_queue := ac_event_queue s @ [stateEvent st]\<rparr>"

definition clearSessionData :: "ancs \<Rightarrow> ancs" where
  "clearSessionData s = s\<lparr>ac_gatt_queue := [], ac_control_point_jobs := [],
     ac_control_point_results := [], ac_records := (\<lambda>_. None), ac_pending_requests := [],
     ac_queued_uids := {}, ac_active_request := None, ac_control_point_id := [],
     ac_device_id := []\<rparr>"

definition hasSubscriptions :: "ancs \<Rightarrow> bool" where
  "hasSubscriptions s \<longleftrightarrow> ac_data_source_subscription s \<or> ac_notification_source_subscription s"

definition stopSubscriptions :: "stop_answers \<Rightarrow> ancs \<Rightarrow> ancs \<times> ancs_result" where
  "stopSubscriptions answers s =
     (let (s1, firstError) =
            (if ac_notification_source_subscription s then
               case fst answers of
                 None \<Rightarrow> (s\<lparr>ac_notification_source_subscription := False\<rparr>, None)
               | Some g \<Rightarrow> (s, Some (mapGattError g))
             else (s, None));
          (s2, firstError) =
            (if ac_data_source_subscription s1 then
               case snd answers of
                 None \<Rightarrow> (s1\<lparr>ac_data_source_subscription := False\<rparr>, firstError)
               | Some g \<Rightarrow> (s1, case firstError of None \<Rightarrow> Some (mapGattError g) | Some e \<Rightarrow> Some e)
             else (s1, firstError))
      in (s2, case firstError of Some e \<Rightarrow> Inl e | None \<Rightarrow> Inr ()))"

definition failStartup :: "stop_answers \<Rightarrow> ancs_error \<Rightarrow> ancs \<Rightarrow> ancs \<times> ancs_result" where
  "failStartup answers err s =
     (let s1 = clearSessionData (s\<lparr>ac_ready := False, ac_accept_gatt_events := False\<rparr>);
          s2 = enqueueApplicationEvent (errorEvent err) s1;
          (s3, cleanup) = stopSubscriptions answers s2;
          err' = (case cleanup of Inr _ \<Rightarrow> err | Inl e \<Rightarrow> e\<lparr>ae_kind := AeCleanup\<rparr>)
      in (setState AsFailed s3, Inl err'))"

definition failRuntime :: "stop_answers \<Rightarrow> ancs_error \<Rightarrow> ancs \<Rightarrow> ancs" where
  "failRuntime answers err s =
     (if ac_state s = AsFailed \<or> ac_state s = AsStopped then s
      else
        let s1 = (clearSessionData (s\<lparr>ac_ready := False, ac_accept_gatt_events := False\<rparr>))
                   \<lparr>ac_state := AsFailed\<rparr>;
            (s2, cleanup) = stopSubscriptions answers s1;
            err' = (case cleanup of
                      Inr _ \<Rightarrow> err
                    | Inl c \<Rightarrow> err\<lparr>ae_kind := AeCleanup,
                        ae_message := ae_message err @ ''; subscription cleanup failed: '' @ ae_message c,
                        ae_remote_name := (if ae_remote_name err = [] then ae_remote_name c
                                           else ae_remote_name err)\<rparr>)
        in enqueueApplicationEvent (stateEvent AsFailed)
             (enqueueApplicationEvent (errorEvent err') s2))"

section \<open>The public operations\<close>

definition setEventHandler :: "bool \<Rightarrow> ancs \<Rightarrow> ancs \<times> ancs_result" where
  "setEventHandler installed s =
     (if ac_state s \<noteq> AsStopped
      then (s, Inl (makeAncsError AeNotReady ''ANCS event handler can only change while stopped''))
      else (s\<lparr>ac_handler := installed\<rparr>, Inr ()))"

abbreviation (input) kMaximumConfigTimeout :: int where "kMaximumConfigTimeout \<equiv> 600000"

definition validConfig :: "ancs_config \<Rightarrow> bool" where
  "validConfig config =
     (let validTimeout = (\<lambda>timeout. timeout > 0 \<and> timeout \<le> kMaximumConfigTimeout)
      in validTimeout (cfg_service_resolution_timeout config) \<and>
         validTimeout (cfg_gatt_operation_timeout config) \<and>
         validTimeout (cfg_attribute_response_timeout config))"

text \<open>
  \<open>start\<close> is split at its calls of the backend, where other threads run.  Each part returns
  \<open>Some\<close> result when the call of \<open>start\<close> ends in it, and \<open>None\<close> when it goes on to wait for the
  backend.  \<open>localDate\<close> is the conversion of a time point to local time text
  (\<open>localtime_r\<close> and \<open>strftime\<close>), \<open>workerExec\<close> and \<open>controlExec\<close> the answers of \<open>Dmn_Proc::exec\<close>.
\<close>

definition failPart :: "ancs \<times> ancs_result \<Rightarrow> ancs \<times> ancs_result option" where
  "failPart r = ((fst r)\<lparr>ac_api := ApiIdle\<rparr>, Some (snd r))"

definition startBegin ::
    "(int \<Rightarrow> string option) \<Rightarrow> string \<Rightarrow> ancs_config \<Rightarrow> bool \<Rightarrow> bool \<Rightarrow> stop_answers \<Rightarrow> ancs \<Rightarrow>
     ancs \<times> ancs_result option" where
  "startBegin localDate deviceId config workerExec controlExec answers s =
     (if \<not> validConfig config \<or> deviceId = []
      then (s, Some (Inl (makeAncsError AeInvalidArgument
              ''ANCS device identifier and operation deadlines must be valid'')))
      else
        let cutoff = (case cfg_notification_date_cutoff config of
                        None \<Rightarrow> Some None
                      | Some t \<Rightarrow> (case localDate t of
                          None \<Rightarrow> None | Some text \<Rightarrow> Some (Some text)))
        in case cutoff of
             None \<Rightarrow> (s, Some (Inl (makeAncsError AeInvalidArgument
                 ''notification date cutoff cannot be represented in local time'')))
           | Some notificationDateCutoff \<Rightarrow>
               if ac_state s \<noteq> AsStopped
               then (s, Some (Inl (makeAncsError AeNotReady
                       ''ANCS session can only start while stopped'')))
               else if \<not> ac_handler s
               then (s, Some (Inl (makeAncsError AeInvalidArgument
                       ''ANCS event handler must be installed before start'')))
               else
                 let s1 = s\<lparr>ac_cancel_requested := False, ac_accept_gatt_events := True,
                            ac_ready := False, ac_shutdown := False,
                            ac_control_point_shutdown := False, ac_device_id := deviceId,
                            ac_config := config,
                            ac_notification_date_cutoff :=
                              (case notificationDateCutoff of None \<Rightarrow> [] | Some text \<Rightarrow> text)\<rparr>
                 in if \<not> ac_worker_started s1 \<and> \<not> workerExec
                    then failPart (failStartup answers (makeAncsError AeBackend
                           ''could not start the ANCS event worker'') s1)
                    else
                      let s2 = s1\<lparr>ac_worker_started := True\<rparr>
                      in if \<not> ac_control_point_worker_started s2 \<and> \<not> controlExec
                         then failPart (failStartup answers (makeAncsError AeBackend
                                ''could not start the ANCS Control Point worker'') s2)
                         else
                           let s3 = s2\<lparr>ac_control_point_worker_started := True\<rparr>
                           in ((setState AsResolvingServices (setState AsStarting s3))
                                 \<lparr>ac_api := ApiResolving deviceId\<rparr>, None))"

definition startCancelled :: "stop_answers \<Rightarrow> ancs \<Rightarrow> ancs \<times> ancs_result option" where
  "startCancelled answers s = failPart (failStartup answers (makeAncsError AeNotReady
     ''ANCS session startup was cancelled'') s)"

definition startResolved :: "gatt_error option \<Rightarrow> stop_answers \<Rightarrow> string \<Rightarrow> ancs \<Rightarrow> ancs \<times> ancs_result option" where
  "startResolved resolved answers deviceId s =
     (case resolved of
        Some g \<Rightarrow> failPart (failStartup answers (mapGattError g) s)
      | None \<Rightarrow>
          if ac_cancel_requested s then startCancelled answers s
          else ((setState AsDiscoveringANCS s)\<lparr>ac_api := ApiDiscovering deviceId\<rparr>, None))"

definition kAncsServiceUuid :: string where
  "kAncsServiceUuid = ''7905F431-B5CE-4E99-A40F-4B1E122D00D0''"

definition kNotificationSourceUuid :: string where
  "kNotificationSourceUuid = ''9FBF120D-6301-42D9-8C58-25E699A21DBD''"

definition kControlPointUuid :: string where
  "kControlPointUuid = ''69D1D8F3-45E1-49A8-9821-9BBDFDAAD9D9''"

definition kDataSourceUuid :: string where
  "kDataSourceUuid = ''22EAC6E9-24D6-4BB5-BE44-B36ACE7C7BFB''"

definition hasFlag :: "gatt_characteristic \<Rightarrow> string \<Rightarrow> bool" where
  "hasFlag characteristic flag = List.member (gc_flags characteristic) flag"

text \<open>The scan over the discovered services; a later characteristic replaces an earlier one.\<close>

record found_characteristics =
  fc_service :: bool
  fc_notification_source :: "gatt_characteristic option"
  fc_control_point :: "gatt_characteristic option"
  fc_data_source :: "gatt_characteristic option"

definition noteCharacteristic ::
    "found_characteristics \<Rightarrow> gatt_characteristic \<Rightarrow> found_characteristics" where
  "noteCharacteristic f c =
     (if gc_uuid c = kNotificationSourceUuid then f\<lparr>fc_notification_source := Some c\<rparr>
      else if gc_uuid c = kControlPointUuid then f\<lparr>fc_control_point := Some c\<rparr>
      else if gc_uuid c = kDataSourceUuid then f\<lparr>fc_data_source := Some c\<rparr>
      else f)"

definition scanServices :: "gatt_service list \<Rightarrow> found_characteristics" where
  "scanServices services = foldl (\<lambda>f service.
       if gs_uuid service \<noteq> kAncsServiceUuid then f
       else foldl noteCharacteristic (f\<lparr>fc_service := True\<rparr>) (gs_characteristics service))
     \<lparr>fc_service = False, fc_notification_source = None, fc_control_point = None,
      fc_data_source = None\<rparr> services"

definition startDiscovered ::
    "gatt_error + gatt_service list \<Rightarrow> stop_answers \<Rightarrow> string \<Rightarrow> ancs \<Rightarrow> ancs \<times> ancs_result option" where
  "startDiscovered services answers deviceId s =
     (case services of
        Inl g \<Rightarrow> failPart (failStartup answers (mapGattError g) s)
      | Inr found \<Rightarrow>
          let f = scanServices found
          in if \<not> fc_service f
             then failPart (failStartup answers (makeAncsError AeUnsupported
                    ''ANCS service was not found in the resolved GATT services'') s)
             else case (fc_notification_source f, fc_control_point f, fc_data_source f) of
               (Some notificationSource, Some controlPoint, Some dataSource) \<Rightarrow>
                 if \<not> hasFlag notificationSource ''notify'' \<or> \<not> hasFlag dataSource ''notify'' \<or>
                    \<not> hasFlag controlPoint ''write''
                 then failPart (failStartup answers (makeAncsError AeUnsupported
                        ''ANCS characteristics do not advertise required operations'') s)
                 else ((setState AsSubscribingDataSource
                          (s\<lparr>ac_control_point_id := gc_id controlPoint\<rparr>))
                          \<lparr>ac_api := ApiSubscribingData deviceId notificationSource\<rparr>, None)
             | _ \<Rightarrow> failPart (failStartup answers (makeAncsError AeUnsupported
                    ''ANCS service is missing one or more required characteristics'') s))"

definition startDataSubscribed ::
    "gatt_error option \<Rightarrow> stop_answers \<Rightarrow> string \<Rightarrow> ancs \<Rightarrow> ancs \<times> ancs_result option" where
  "startDataSubscribed subscribed answers deviceId s =
     (case subscribed of
        Some g \<Rightarrow> failPart (failStartup answers (mapGattError g) s)
      | None \<Rightarrow>
          let s1 = s\<lparr>ac_data_source_subscription := True\<rparr>
          in if ac_cancel_requested s1 then startCancelled answers s1
             else ((setState AsSubscribingNotificationSource s1)
                     \<lparr>ac_api := ApiSubscribingNotification deviceId\<rparr>, None))"

definition startNotificationSubscribed ::
    "gatt_error option \<Rightarrow> stop_answers \<Rightarrow> ancs \<Rightarrow> ancs \<times> ancs_result option" where
  "startNotificationSubscribed subscribed answers s =
     (case subscribed of
        Some g \<Rightarrow> failPart (failStartup answers (mapGattError g) s)
      | None \<Rightarrow>
          let s1 = s\<lparr>ac_notification_source_subscription := True\<rparr>
          in if ac_cancel_requested s1 then startCancelled answers s1
             else (s1\<lparr>ac_ready := True, ac_state := AsReady,
                      ac_event_queue := ac_event_queue s1 @ [stateEvent AsReady],
                      ac_api := ApiIdle\<rparr>, Some (Inr ())))"

text \<open>The whole of \<open>start\<close>, when no other thread runs between its parts.\<close>

record start_answers =
  sa_worker_exec :: bool
  sa_control_exec :: bool
  sa_resolved :: "gatt_error option"
  sa_services :: "gatt_error + gatt_service list"
  sa_data :: "gatt_error option"
  sa_notification :: "gatt_error option"
  sa_stop :: stop_answers

definition andThen ::
    "ancs \<times> ancs_result option \<Rightarrow> (ancs \<Rightarrow> ancs \<times> ancs_result option) \<Rightarrow> ancs \<times> ancs_result option" where
  "andThen r part = (case r of (s, Some result) \<Rightarrow> (s, Some result) | (s, None) \<Rightarrow> part s)"

definition start ::
    "(int \<Rightarrow> string option) \<Rightarrow> string \<Rightarrow> ancs_config \<Rightarrow> start_answers \<Rightarrow> ancs \<Rightarrow>
     ancs \<times> ancs_result option" where
  "start localDate deviceId config answers s =
     andThen (andThen (andThen (andThen
       (startBegin localDate deviceId config (sa_worker_exec answers) (sa_control_exec answers)
          (sa_stop answers) s)
       (startResolved (sa_resolved answers) (sa_stop answers) deviceId))
       (startDiscovered (sa_services answers) (sa_stop answers) deviceId))
       (startDataSubscribed (sa_data answers) (sa_stop answers) deviceId))
       (startNotificationSubscribed (sa_notification answers) (sa_stop answers))"

text \<open>
  \<open>stop\<close> first asks a running \<open>start\<close> to give up, and does the rest when it holds \<open>m_api_mutex\<close>:
  until it waits for the worker mutex, until it waits for the workers, and to its return.
\<close>

definition requestCancel :: "ancs \<Rightarrow> ancs" where
  "requestCancel s = s\<lparr>ac_cancel_requested := True\<rparr>"

definition stopBegin :: "ancs \<Rightarrow> ancs \<times> ancs_result option" where
  "stopBegin s =
     (if ac_state s = AsStopped \<and> \<not> hasSubscriptions s then (s, Some (Inr ()))
      else ((clearSessionData (s\<lparr>ac_ready := False, ac_accept_gatt_events := False\<rparr>))
              \<lparr>ac_api := ApiStopping\<rparr>, None))"

definition stopCleanup :: "stop_answers \<Rightarrow> ancs \<Rightarrow> ancs \<times> ancs_result option" where
  "stopCleanup answers s =
     (let s1 = setState AsStopping (clearSessionData s);
          (s2, cleanup) = stopSubscriptions answers s1
      in case cleanup of
           Inl e \<Rightarrow>
             let err = e\<lparr>ae_kind := AeCleanup\<rparr>
             in ((setState AsFailed (enqueueApplicationEvent (errorEvent err) s2))
                   \<lparr>ac_api := ApiIdle\<rparr>, Some (Inl err))
         | Inr _ \<Rightarrow>
             ((setState AsStopped s2)
                \<lparr>ac_shutdown := True, ac_control_point_shutdown := True,
                 ac_control_point_jobs := [], ac_api := ApiJoining\<rparr>, None))"

text \<open>The answers are whether \<open>Dmn_Proc::wait\<close> returns without an exception.\<close>

definition stopJoin :: "bool \<Rightarrow> bool \<Rightarrow> ancs \<Rightarrow> ancs \<times> ancs_result option" where
  "stopJoin workerOk controlOk s =
     (let s0 = s\<lparr>ac_api := ApiIdle\<rparr>
      in if ac_worker_started s0 \<and> \<not> workerOk
         then (s0, Some (Inl (makeAncsError AeBackend ''ANCS event worker failed while stopping'')))
         else
           let s1 = s0\<lparr>ac_worker_started := False\<rparr>
           in if ac_control_point_worker_started s1 \<and> \<not> controlOk
              then (s1, Some (Inl (makeAncsError AeBackend
                      ''ANCS Control Point worker failed while stopping'')))
              else (s1\<lparr>ac_control_point_worker_started := False\<rparr>, Some (Inr ())))"

section \<open>Callbacks and the request queue\<close>

definition enqueueGattEvent :: "bool \<Rightarrow> gatt_event \<Rightarrow> ancs \<Rightarrow> ancs" where
  "enqueueGattEvent dataSource event s =
     (if \<not> ac_accept_gatt_events s then s
      else s\<lparr>ac_gatt_queue := ac_gatt_queue s @ [\<lparr>gp_data_source = dataSource, gp_event = event\<rparr>]\<rparr>)"

definition activeUid :: "ancs \<Rightarrow> u32 option" where
  "activeUid s = map_option (\<lambda>a. an_uid (ar_notification a)) (ac_active_request s)"

definition processRemoved :: "ancs_notification \<Rightarrow> ancs \<Rightarrow> ancs" where
  "processRemoved notification s =
     (let uid = an_uid notification;
          ignoredBeforeStart = (cfg_notification_date_cutoff (ac_config s) \<noteq> None \<and>
            (case ac_records s uid of
               None \<Rightarrow> True
             | Some r \<Rightarrow> nr_ignored_before_start r \<or> nr_added_not_reported r));
          s1 = s\<lparr>ac_records := (ac_records s)(uid := None),
                 ac_pending_requests := removeAll uid (ac_pending_requests s),
                 ac_queued_uids := ac_queued_uids s - {uid},
                 ac_active_request := (case ac_active_request s of
                     None \<Rightarrow> None
                   | Some a \<Rightarrow> if an_uid (ar_notification a) = uid then Some (a\<lparr>ar_removed := True\<rparr>)
                               else Some a)\<rparr>
      in if ignoredBeforeStart then s1
         else enqueueApplicationEvent (notificationEvent EvNotificationRemoved notification) s1)"

definition updateRecord :: "ancs_notification \<Rightarrow> ancs \<Rightarrow> ancs" where
  "updateRecord notification s =
     (let record = (case ac_records s (an_uid notification) of None \<Rightarrow> emptyRecord | Some r \<Rightarrow> r)
      in s\<lparr>ac_records := (ac_records s)(an_uid notification := Some (record\<lparr>nr_notification :=
           (nr_notification record)\<lparr>an_kind := an_kind notification, an_uid := an_uid notification,
              an_category := an_category notification,
              an_category_count := an_category_count notification,
              an_flags := an_flags notification\<rparr>\<rparr>))\<rparr>)"

text \<open>The request of a notification joins the queue; a full queue drops its oldest request.\<close>

definition pushPending :: "u32 \<Rightarrow> ancs \<Rightarrow> ancs" where
  "pushPending uid s = s\<lparr>ac_pending_requests := ac_pending_requests s @ [uid],
     ac_queued_uids := insert uid (ac_queued_uids s)\<rparr>"

definition dropOldest :: "ancs \<Rightarrow> ancs" where
  "dropOldest s =
     (let droppedUid = hd (ac_pending_requests s)
      in s\<lparr>ac_pending_requests := tl (ac_pending_requests s),
           ac_queued_uids := ac_queued_uids s - {droppedUid},
           ac_records := (ac_records s)(droppedUid := None)\<rparr>)"

definition backlogError :: ancs_error where
  "backlogError = \<lparr>ae_kind = AeResourceLimit, ae_message =
     ''ANCS reached the configured pending-notification limit; oldest pending notification requests are being discarded'',
     ae_remote_name = [], ae_fatal = False\<rparr>"

definition queueRequest :: "u32 \<Rightarrow> ancs \<Rightarrow> ancs \<times> bool" where
  "queueRequest uid s =
     (let maximum = cfg_maximum_pending_notifications (ac_config s)
      in if maximum \<noteq> 0 \<and> length (ac_pending_requests s) \<ge> maximum then
           (pushPending uid ((dropOldest s)\<lparr>ac_backlog_limit_reported := True\<rparr>),
            \<not> ac_backlog_limit_reported s)
         else (pushPending uid (s\<lparr>ac_backlog_limit_reported := False\<rparr>), False))"

definition processAddedOrUpdated :: "ancs_notification \<Rightarrow> ancs \<Rightarrow> ancs" where
  "processAddedOrUpdated notification s =
     (let uid = an_uid notification;
          s1 = updateRecord notification s;
          unavailable = (case ac_records s1 uid of None \<Rightarrow> False | Some r \<Rightarrow> nr_unavailable r);
          (s2, reportBacklogLimit) =
            (if \<not> unavailable \<and> uid \<notin> ac_queued_uids s1 \<and> activeUid s1 \<noteq> Some uid
             then queueRequest uid s1 else (s1, False))
      in if reportBacklogLimit then enqueueApplicationEvent (errorEvent backlogError) s2 else s2)"

definition processNotificationSourceValue :: "stop_answers \<Rightarrow> u8 list \<Rightarrow> ancs \<Rightarrow> ancs" where
  "processNotificationSourceValue answers value s =
     (case parseAncsNotificationSource value of
        Inl e \<Rightarrow>
          if ae_kind e = AeUnsupported \<and> \<not> ae_fatal e then enqueueApplicationEvent (errorEvent e) s
          else failRuntime answers e s
      | Inr notification \<Rightarrow>
          if an_kind notification = NRemoved then processRemoved notification s
          else processAddedOrUpdated notification s)"

section \<open>Attribute responses\<close>

definition emitAttributesUnavailable :: "u32 \<Rightarrow> ancs_error \<Rightarrow> ancs \<Rightarrow> ancs" where
  "emitAttributesUnavailable uid err s =
     (let event = \<lparr>ev_kind = EvAttributesUnavailable, ev_state = None, ev_notification = None,
                   ev_error = Some err\<rparr>
      in case ac_records s uid of
           Some r \<Rightarrow>
             enqueueApplicationEvent (event\<lparr>ev_notification := Some (nr_notification r)\<rparr>)
               (s\<lparr>ac_records := (ac_records s)(uid := Some (r\<lparr>nr_unavailable := True\<rparr>))\<rparr>)
         | None \<Rightarrow>
             enqueueApplicationEvent (event\<lparr>ev_notification :=
                 (case ac_active_request s of
                    Some a \<Rightarrow> if an_uid (ar_notification a) = uid then Some (ar_notification a) else None
                  | None \<Rightarrow> None)\<rparr>) s)"

definition completeActiveRequest :: "ancs \<Rightarrow> ancs" where
  "completeActiveRequest s = s\<lparr>ac_active_request := None\<rparr>"

definition withAttributes :: "attribute_set \<Rightarrow> ancs_notification \<Rightarrow> ancs_notification" where
  "withAttributes a n = n\<lparr>an_app_identifier := as_app_identifier a, an_title := as_title a,
     an_subtitle := as_subtitle a, an_message := as_message a, an_date := as_date a\<rparr>"

text \<open>The end of \<open>processDataSourceValue\<close>, once all attributes of the request are there.\<close>

definition deliverAttributes :: "u32 \<Rightarrow> attribute_set \<Rightarrow> ancs \<Rightarrow> ancs" where
  "deliverAttributes uid attributes s =
     (case ac_records s uid of
        None \<Rightarrow> completeActiveRequest s
      | Some r \<Rightarrow>
          let notification = withAttributes attributes (nr_notification r);
              ignoreNotification = (cfg_notification_date_cutoff (ac_config s) \<noteq> None \<and>
                isBeforeCutoff (an_date notification) (ac_notification_date_cutoff s));
              event = notificationEvent (if nr_added_not_reported r then EvNotificationAdded
                                         else EvNotificationUpdated) notification;
              s1 = s\<lparr>ac_records := (ac_records s)(uid := Some (r\<lparr>nr_notification := notification,
                     nr_ignored_before_start := ignoreNotification,
                     nr_added_not_reported := False\<rparr>))\<rparr>
          in completeActiveRequest (if ignoreNotification then s1 else enqueueApplicationEvent event s1))"

definition processDataSourceValue :: "stop_answers \<Rightarrow> u8 list \<Rightarrow> ancs \<Rightarrow> ancs" where
  "processDataSourceValue answers value s =
     (case ac_active_request s of
        None \<Rightarrow> s
      | Some a \<Rightarrow>
          let uid = an_uid (ar_notification a);
              (reassembler, parsed) = consume (ar_reassembler a) value;
              s1 = s\<lparr>ac_active_request := Some (a\<lparr>ar_reassembler := reassembler\<rparr>)\<rparr>
          in case parsed of
               Inl e \<Rightarrow>
                 if \<not> ae_fatal e then completeActiveRequest (emitAttributesUnavailable uid e s1)
                 else failRuntime answers e s1
             | Inr None \<Rightarrow> s1
             | Inr (Some attributes) \<Rightarrow>
                 if ar_removed a then completeActiveRequest s1
                 else deliverAttributes uid attributes s1)"

definition processGattPacket :: "stop_answers \<Rightarrow> gatt_packet \<Rightarrow> ancs \<Rightarrow> ancs" where
  "processGattPacket answers packet s =
     (if \<not> ac_ready s then s
      else let event = gp_event packet
      in case gev_kind event of
           GattInvalidated \<Rightarrow> failRuntime answers (makeAncsError AeNotReady
             (if gev_message event = [] then ''ANCS GATT session was invalidated''
              else gev_message event)) s
         | GattError \<Rightarrow> failRuntime answers (makeAncsError AeBackend
             (if gev_message event = [] then ''ANCS GATT notification failed''
              else gev_message event)) s
         | GattValueChanged \<Rightarrow>
             if gp_data_source packet then processDataSourceValue answers (gev_value event) s
             else processNotificationSourceValue answers (gev_value event) s)"

section \<open>Requests, writes and deadlines\<close>

definition startNextRequest :: "ancs \<Rightarrow> ancs" where
  "startNextRequest s =
     (if \<not> ac_ready s \<or> ac_active_request s \<noteq> None then s
      else case ac_pending_requests s of
        [] \<Rightarrow> s
      | uid # pending \<Rightarrow>
          let s1 = s\<lparr>ac_pending_requests := pending, ac_queued_uids := ac_queued_uids s - {uid}\<rparr>
          in case ac_records s1 uid of
               None \<Rightarrow> s1
             | Some r \<Rightarrow>
                 if nr_unavailable r then s1
                 else
                   let notification = nr_notification r;
                       s2 = s1\<lparr>ac_active_request := Some (newActiveRequest notification)\<rparr>
                   in if \<not> ac_ready s2 \<or> ac_control_point_shutdown s2 then s2
                      else s2\<lparr>ac_control_point_jobs := ac_control_point_jobs s2 @
                        [\<lparr>cj_uid = an_uid notification, cj_device_id = ac_device_id s2,
                          cj_characteristic_id = ac_control_point_id s2,
                          cj_value = makeAttributeRequest (an_uid notification),
                          cj_timeout = cfg_gatt_operation_timeout (ac_config s2)\<rparr>]\<rparr>)"

definition acknowledgeControlPointWrite :: "int \<Rightarrow> u32 \<Rightarrow> ancs \<Rightarrow> ancs" where
  "acknowledgeControlPointWrite now uid s =
     (case ac_active_request s of
        None \<Rightarrow> s
      | Some a \<Rightarrow>
          if an_uid (ar_notification a) \<noteq> uid then s
          else s\<lparr>ac_active_request := Some (a\<lparr>ar_write_pending := False,
                 ar_deadline := Some (now + cfg_attribute_response_timeout (ac_config s))\<rparr>)\<rparr>)"

text \<open>\<open>time_point::max()\<close>, the deadline of a request whose write is pending, never passes.\<close>

definition deadlinePassed :: "int \<Rightarrow> active_request \<Rightarrow> bool" where
  "deadlinePassed now a = (case ar_deadline a of None \<Rightarrow> False | Some d \<Rightarrow> d \<le> now)"

definition requestTimedOut :: "int \<Rightarrow> ancs \<Rightarrow> bool" where
  "requestTimedOut now s =
     (case ac_active_request s of
        None \<Rightarrow> False
      | Some a \<Rightarrow> \<not> ar_write_pending a \<and> deadlinePassed now a)"

definition timeoutError :: ancs_error where
  "timeoutError = makeAncsError AeTimeout
     ''ANCS attribute response deadline expired; session correlation is unsafe''"

definition failTimedOutRequest :: "int \<Rightarrow> stop_answers \<Rightarrow> ancs \<Rightarrow> ancs" where
  "failTimedOutRequest now answers s =
     (case ac_active_request s of
        None \<Rightarrow> s
      | Some a \<Rightarrow>
          if \<not> deadlinePassed now a then s
          else
            let uid = an_uid (ar_notification a);
                s1 = s\<lparr>ac_records := (case ac_records s uid of
                         None \<Rightarrow> ac_records s
                       | Some r \<Rightarrow> (ac_records s)(uid := Some (r\<lparr>nr_unavailable := True\<rparr>))),
                       ac_active_request := None\<rparr>
            in failRuntime answers timeoutError (emitAttributesUnavailable uid timeoutError s1))"

section \<open>The workers\<close>

text \<open>
  The handler is called with the event; \<open>handlerThrows\<close> says whether that call throws.
\<close>

definition dispatch :: "bool \<Rightarrow> stop_answers \<Rightarrow> ancs_event \<Rightarrow> ancs \<Rightarrow> ancs" where
  "dispatch handlerThrows answers event s =
     (if \<not> ac_handler s then s
      else
        let s1 = s\<lparr>ac_delivered := ac_delivered s @ [event]\<rparr>
        in if handlerThrows
           then failRuntime answers (makeAncsError AeBackend
                  ''ANCS event handler threw an exception'') s1
           else s1)"

text \<open>
  A turn of \<open>run\<close> has two parts: under \<open>m_mutex\<close> the worker waits until there is work or the
  deadline of the active request passes and takes one item; under the worker mutex it processes
  the item and starts the next request.  It ends when it is shut down with no event left.
\<close>

definition workerWakes :: "int \<Rightarrow> ancs \<Rightarrow> bool" where
  "workerWakes now s \<longleftrightarrow>
     ac_shutdown s \<or> ac_event_queue s \<noteq> [] \<or> ac_ready s \<and> ac_gatt_queue s \<noteq> [] \<or>
     ac_control_point_results s \<noteq> [] \<or>
     (case ac_active_request s of None \<Rightarrow> False | Some a \<Rightarrow> deadlinePassed now a)"

definition workerEnds :: "ancs \<Rightarrow> bool" where
  "workerEnds s \<longleftrightarrow> ac_shutdown s \<and> ac_event_queue s = []"

definition workerPick :: "ancs \<Rightarrow> ancs" where
  "workerPick s =
     (case ac_event_queue s of
        e # es \<Rightarrow> s\<lparr>ac_event_queue := es, ac_picked := Some (WorkerEvent e)\<rparr>
      | [] \<Rightarrow>
        (case (if ac_ready s then ac_gatt_queue s else []) of
           p # ps \<Rightarrow> s\<lparr>ac_gatt_queue := ps, ac_picked := Some (WorkerPacket p)\<rparr>
         | [] \<Rightarrow>
           (case ac_control_point_results s of
              r # rs \<Rightarrow> s\<lparr>ac_control_point_results := rs, ac_picked := Some (WorkerResult r)\<rparr>
            | [] \<Rightarrow> s\<lparr>ac_picked := Some WorkerNothing\<rparr>)))"

definition processItem :: "int \<Rightarrow> bool \<Rightarrow> stop_answers \<Rightarrow> worker_item \<Rightarrow> ancs \<Rightarrow> ancs" where
  "processItem now handlerThrows answers item s =
     (case item of
        WorkerEvent e \<Rightarrow> dispatch handlerThrows answers e s
      | WorkerPacket p \<Rightarrow> processGattPacket answers p s
      | WorkerResult r \<Rightarrow>
          (case cr_result r of
             Some g \<Rightarrow> failRuntime answers (mapGattError g) s
           | None \<Rightarrow> acknowledgeControlPointWrite now (cr_uid r) s)
      | WorkerNothing \<Rightarrow>
          if requestTimedOut now s then failTimedOutRequest now answers s else s)"

definition workerProcess :: "int \<Rightarrow> bool \<Rightarrow> stop_answers \<Rightarrow> ancs \<Rightarrow> ancs" where
  "workerProcess now handlerThrows answers s =
     (case ac_picked s of
        None \<Rightarrow> s
      | Some item \<Rightarrow>
          startNextRequest (processItem now handlerThrows answers item (s\<lparr>ac_picked := None\<rparr>)))"

text \<open>The control-point worker: it takes a job, writes it without holding \<open>m_mutex\<close>, and reports.\<close>

definition takeControlPointJob :: "ancs \<Rightarrow> ancs" where
  "takeControlPointJob s =
     (if ac_control_point_shutdown s then s
      else case ac_control_point_jobs s of
             [] \<Rightarrow> s
           | job # jobs \<Rightarrow> s\<lparr>ac_control_point_jobs := jobs, ac_writing := Some job\<rparr>)"

definition finishControlPointJob :: "gatt_error option \<Rightarrow> ancs \<Rightarrow> ancs" where
  "finishControlPointJob result s =
     (case ac_writing s of
        None \<Rightarrow> s
      | Some job \<Rightarrow>
          let s1 = s\<lparr>ac_writing := None\<rparr>
          in if ac_control_point_shutdown s1 then s1
             else s1\<lparr>ac_control_point_results := ac_control_point_results s1 @
                    [\<lparr>cr_uid = cj_uid job, cr_result = result\<rparr>]\<rparr>)"

section \<open>The session as a state machine\<close>

inductive ancs_step :: "ancs \<Rightarrow> ancs \<Rightarrow> bool" where
  ancs_handler: "ac_api s = ApiIdle \<Longrightarrow> ancs_step s (fst (setEventHandler installed s))"
| ancs_start: "ac_api s = ApiIdle \<Longrightarrow>
    ancs_step s (fst (startBegin localDate deviceId config workerExec controlExec answers s))"
| ancs_resolved: "ac_api s = ApiResolving deviceId \<Longrightarrow>
    ancs_step s (fst (startResolved resolved answers deviceId s))"
| ancs_discovered: "ac_api s = ApiDiscovering deviceId \<Longrightarrow>
    ancs_step s (fst (startDiscovered services answers deviceId s))"
| ancs_data_subscribed: "ac_api s = ApiSubscribingData deviceId notificationSource \<Longrightarrow>
    ancs_step s (fst (startDataSubscribed subscribed answers deviceId s))"
| ancs_notification_subscribed: "ac_api s = ApiSubscribingNotification deviceId \<Longrightarrow>
    ancs_step s (fst (startNotificationSubscribed subscribed answers s))"
| ancs_cancel: "ancs_step s (requestCancel s)"
| ancs_stop: "ac_api s = ApiIdle \<Longrightarrow> ancs_step s (fst (stopBegin s))"
| ancs_stop_cleanup: "ac_api s = ApiStopping \<Longrightarrow> ancs_step s (fst (stopCleanup answers s))"
| ancs_stop_join: "ac_api s = ApiJoining \<Longrightarrow> workerEnds s \<Longrightarrow> ac_picked s = None \<Longrightarrow>
    ac_writing s = None \<Longrightarrow> ancs_step s (fst (stopJoin workerOk controlOk s))"
| ancs_gatt: "ancs_step s (enqueueGattEvent dataSource event s)"
| ancs_pick: "ac_worker_started s \<Longrightarrow> ac_picked s = None \<Longrightarrow> workerWakes now s \<Longrightarrow>
    \<not> workerEnds s \<Longrightarrow> ancs_step s (workerPick s)"
| ancs_process: "ancs_step s (workerProcess now handlerThrows answers s)"
| ancs_take_job: "ac_control_point_worker_started s \<Longrightarrow> ac_writing s = None \<Longrightarrow>
    ancs_step s (takeControlPointJob s)"
| ancs_finish_job: "ancs_step s (finishControlPointJob result s)"

definition ancs_init :: "ancs \<Rightarrow> bool" where
  "ancs_init s \<longleftrightarrow> s = newClient"

end
