(* ===== verification/AncsParserProps.thy ===== *)
theory AncsParserProps
  imports AncsParser
begin

text \<open>
  Correctness of the bounded parsers: the UTF-8 check accepts exactly the encodings of Unicode
  scalar values, the reassembler gives the attributes of an encoded response back whatever the
  fragmentation and never buffers more than its limit, and the request and the notification
  event use the same little-endian identifier.
\<close>

unbundle bit_operations_syntax

section \<open>UTF-8\<close>

lemma ancsSequence_scanFront: "ancsSequence (b # rest) = scanFront (b # rest)"
proof -
  have le: "b \<le> 0x7F \<longleftrightarrow> unat b < 0x80" "0xC2 \<le> b \<longleftrightarrow> 0xC2 \<le> unat b" "b \<le> 0xDF \<longleftrightarrow> unat b \<le> 0xDF"
      "0xE0 \<le> b \<longleftrightarrow> 0xE0 \<le> unat b" "b \<le> 0xEF \<longleftrightarrow> unat b \<le> 0xEF"
      "0xF0 \<le> b \<longleftrightarrow> 0xF0 \<le> unat b" "b \<le> 0xF4 \<longleftrightarrow> unat b \<le> 0xF4"
    by (auto simp: word_le_nat_alt)
  have m5: "unat b mod 32 < 32" "unat b mod 16 < 16" "unat b mod 8 < 8" by simp_all
  have two: "(unat (ucast b AND 0x1F :: u32) + 1) * 64 ^ 1 \<le> 2 ^ 32"
    unfolding unat_mask_5 using m5(1) by simp
  have three: "(unat (ucast b AND 0x0F :: u32) + 1) * 64 ^ 2 \<le> 2 ^ 32"
    unfolding unat_mask_4 using m5(2) by simp
  have four: "(unat (ucast b AND 0x07 :: u32) + 1) * 64 ^ 3 \<le> 2 ^ 32"
    unfolding unat_mask_3 using m5(3) by simp
  note f2 = finishScan_word [OF two, of "0x80" "0x80" rest, unfolded unat_mask_5]
    and f3 = finishScan_word [OF three, of "0x800" "0x800" rest, unfolded unat_mask_4]
    and f4 = finishScan_word [OF four, of "0x10000" "0x10000" rest, unfolded unat_mask_3]
  consider "unat b < 0x80" | "0xC2 \<le> unat b" "unat b \<le> 0xDF" | "0xE0 \<le> unat b" "unat b \<le> 0xEF"
    | "0xF0 \<le> unat b" "unat b \<le> 0xF4"
    | "0x80 \<le> unat b" "unat b < 0xC2 \<or> 0xF4 < unat b" by linarith
  then show ?thesis
  proof cases
    case 2
    then show ?thesis using f2 unfolding ancsSequence_def scanFront_def list.case Let_def le
      by (cases "rest = []") (simp_all add: finishScan_def cong: option.case_cong del: One_nat_def)
  next
    case 3
    then show ?thesis using f3 unfolding ancsSequence_def scanFront_def list.case Let_def le
      by (cases "length rest < 2") (simp_all add: finishScan_def cong: option.case_cong)
  next
    case 4
    then show ?thesis using f4 unfolding ancsSequence_def scanFront_def list.case Let_def le
      by (cases "length rest < 3") (simp_all add: finishScan_def cong: option.case_cong)
  qed (auto simp: ancsSequence_def scanFront_def le Let_def)
qed

interpretation ancs: utf8_scanner ancsSequence
  by (rule utf8_scannerI) (rule ancsSequence_scanFront)

lemma isValidUtf8_iff: "isValidUtf8 bytes \<longleftrightarrow> well_formed_utf8 bytes"
proof (induction bytes rule: isValidUtf8.induct)
  case (1 bytes)
  show ?case
  proof (cases "bytes = [] \<or> ancsSequence bytes = 0")
    case True
    then show ?thesis
      using ancs.well_formed_step [of bytes] by (cases "bytes = []") (simp_all add: isValidUtf8.simps)
  next
    case False
    then have "isValidUtf8 bytes = isValidUtf8 (drop (ancsSequence bytes) bytes)"
      by (subst isValidUtf8.simps) simp
    then show ?thesis
      using "1.IH" [OF _ refl] False ancs.well_formed_step [of bytes] by simp
  qed
qed

text \<open>
  C23: \<open>isValidUtf8\<close> accepts exactly the byte strings that are concatenations of encoded Unicode
  scalar values: no overlong form, no surrogate, nothing above U+10FFFF, no truncated sequence.
\<close>

theorem isValidUtf8_correct: "isValidUtf8 bytes \<longleftrightarrow> well_formed_utf8 bytes"
  by (rule isValidUtf8_iff)

section \<open>Little-endian fields\<close>

definition le32 :: "u32 \<Rightarrow> u8 list" where
  "le32 uid = map (\<lambda>shift. ucast (drop_bit shift uid AND 0xFF)) [0, 8, 16, 24]"

definition le16 :: "nat \<Rightarrow> u8 list" where
  "le16 n = [of_nat (n mod 256), of_nat (n div 256)]"

lemma length_le [simp]: "length (le32 uid) = 4" "length (le16 n) = 2"
  by (simp_all add: le32_def le16_def)

lemma read_le32:
  "readUint32LittleEndian (pre @ le32 uid @ post) (length pre) = uid"
proof -
  have mask: "(0xFF :: u32) = mask 8" by (simp add: mask_eq_exp_minus_1)
  have high: "n - 16 < 8 \<or> 24 + (n - 24) = n" for n :: nat by arith
  show ?thesis
    unfolding readUint32LittleEndian_def le32_def mask
    by (rule bit_word_eqI, insert high)
      (auto simp: nth_append bit_simps take_bit_eq_mask [symmetric], metis)
qed

lemma read_le16:
  assumes "n < 65536"
  shows "unat (readUint16LittleEndian (i # le16 n @ post) 1) = n"
proof -
  have d: "n div 256 < 256" using assms by simp
  let ?a = "ucast (of_nat (n mod 256) :: u8) :: u16" and ?b = "ucast (of_nat (n div 256) :: u8) :: u16"
  have ua: "unat ?a = n mod 256" and ub: "unat ?b = n div 256"
    using d by (simp_all add: unsigned_ucast_eq unat_u8 take_bit_nat_eq_self)
  have "?a OR push_bit 8 ?b = ?a + push_bit 8 ?b"
    by (rule disjunctive_add [symmetric]) (auto simp: bit_simps)
  then have "readUint16LittleEndian (i # le16 n @ post) 1 = ?a + push_bit 8 ?b"
    by (simp add: readUint16LittleEndian_def le16_def)
  moreover have "unat (push_bit 8 ?b) = n div 256 * 256"
    using d ub by (simp add: push_bit_eq_mult unat_word_ariths(2))
  moreover have "n mod 256 + n div 256 * 256 = n" by simp
  ultimately show ?thesis using ua assms by (simp add: unat_word_ariths(1))
qed

section \<open>Fragmentation\<close>

lemma readUint16_append:
  "3 \<le> length xs \<Longrightarrow> readUint16LittleEndian (xs @ ys) 1 = readUint16LittleEndian xs 1"
  by (simp add: readUint16LittleEndian_def nth_append)

text \<open>What the loop decides about a prefix stands when more bytes follow.\<close>

lemma attributeLoop_append:
  "attributeLoop i a xs = (i', a', s, stop) \<Longrightarrow>
     (stop = LoopBreak \<longrightarrow> attributeLoop i a (xs @ ys) = attributeLoop i' a' (s @ ys)) \<and>
     (\<forall>err. stop = LoopError err \<longrightarrow> attributeLoop i a (xs @ ys) = (i', a', s @ ys, LoopError err))"
proof (induction i a xs rule: attributeLoop.induct)
  case (1 i a xs)
  let ?len = "unat (readUint16LittleEndian xs 1)"
  show ?case
  proof (cases "\<not> i < length kRequestedAttributeIds \<or> length xs < 3")
    case True
    then have "attributeLoop i a xs = (i, a, xs, LoopBreak)"
      by (subst attributeLoop.simps) auto
    then show ?thesis using "1.prems" by auto
  next
    case False
    then have i: "i < length kRequestedAttributeIds" and len: "3 \<le> length xs" by auto
    have pre: "(xs @ ys) ! 0 = xs ! 0" "drop 3 (xs @ ys) = drop 3 xs @ ys"
        "readUint16LittleEndian (xs @ ys) 1 = readUint16LittleEndian xs 1"
      using len readUint16_append [OF len, of ys] by (auto simp: nth_append)
    note unfold_xs = attributeLoop.simps [of i a xs] and unfold_app = attributeLoop.simps [of i a "xs @ ys"]
    show ?thesis
    proof (cases "?len > length (drop 3 xs)")
      case True
      then show ?thesis
        using "1.prems" i len pre unfold_xs unfold_app
        by (auto simp: Let_def split: if_splits)
    next
      case fits: False
      then have fit: "?len \<le> length (drop 3 xs)" "\<not> length (drop 3 xs @ ys) < ?len" by auto
      have sl: "take ?len (drop 3 xs @ ys) = take ?len (drop 3 xs)"
          "drop ?len (drop 3 xs @ ys) = drop ?len (drop 3 xs) @ ys"
        using fit by simp_all
      show ?thesis
      proof (cases "xs ! 0 = kRequestedAttributeIds ! i")
        case other: False
        show ?thesis
        proof (cases "isRequestedAttribute (xs ! 0)")
          case True
          let ?err = "LoopError (parserError AeProtocol
              ''ANCS Data Source attributes are not in requested order'' True)"
          have "attributeLoop i a xs = (i, a, xs, ?err)"
            using i len other True by (subst unfold_xs) (simp add: Let_def)
          moreover have "attributeLoop i a (xs @ ys) = (i, a, xs @ ys, ?err)"
            using i len other True pre by (subst unfold_app) (simp add: Let_def)
          ultimately show ?thesis using "1.prems" by auto
        next
          case skip: False
          have e: "attributeLoop i a xs = attributeLoop i a (drop ?len (drop 3 xs))"
            using i len other skip fit by (subst unfold_xs) (simp add: Let_def)
          have e': "attributeLoop i a (xs @ ys) = attributeLoop i a (drop ?len (drop 3 xs) @ ys)"
            using i len other skip fit pre sl by (subst unfold_app) (simp add: Let_def)
          show ?thesis
            unfolding e' using "1.IH"(1) [OF _ _ refl refl refl] "1.prems" i len other skip fit
            by (simp add: e)
        qed
      next
        case same: True
        show ?thesis
        proof (cases "?len > kMaximumAttributeSizes ! i \<or> \<not> isValidUtf8 (take ?len (drop 3 xs))")
          case True
          have "\<exists>err. attributeLoop i a xs = (i, a, xs, LoopError err) \<and>
              attributeLoop i a (xs @ ys) = (i, a, xs @ ys, LoopError err)"
          proof (cases "?len > kMaximumAttributeSizes ! i")
            case big: True
            then show ?thesis
              using i len same pre by (subst unfold_xs, subst unfold_app) (simp add: Let_def)
          next
            case small: False
            then show ?thesis
              using True i len same pre fit sl by (subst unfold_xs, subst unfold_app) (simp add: Let_def)
          qed
          then show ?thesis using "1.prems" by auto
        next
          case ok: False
          let ?a = "assignAttribute a i (bytesToString (take ?len (drop 3 xs)))"
          have e: "attributeLoop i a xs = attributeLoop (i + 1) ?a (drop ?len (drop 3 xs))"
            using i len same ok fit by (subst unfold_xs) (simp add: Let_def)
          have e': "attributeLoop i a (xs @ ys) = attributeLoop (i + 1) ?a (drop ?len (drop 3 xs) @ ys)"
            using i len same ok fit pre sl by (subst unfold_app) (simp add: Let_def)
          show ?thesis
            unfolding e' using "1.IH"(2) [OF _ _ refl refl refl] "1.prems" i len same ok fit
            by (simp add: e)
        qed
      qed
    qed
  qed
qed

section \<open>Round trip of a response\<close>

text \<open>A response as the phone sends it: the header and the five attributes in order.\<close>

definition attributeTuple :: "nat \<Rightarrow> u8 list \<Rightarrow> u8 list" where
  "attributeTuple i v = kRequestedAttributeIds ! i # le16 (length v) @ v"

definition encodeBody :: "u8 list list \<Rightarrow> u8 list" where
  "encodeBody vs = concat (map (\<lambda>i. attributeTuple i (vs ! i)) [0..<5])"

definition encodeResponse :: "u32 \<Rightarrow> u8 list list \<Rightarrow> u8 list" where
  "encodeResponse uid vs = 0 # le32 uid @ encodeBody vs"

definition attributesOf :: "u8 list list \<Rightarrow> attribute_set" where
  "attributesOf vs = \<lparr>as_app_identifier = Some (bytesToString (vs ! 0)),
     as_title = Some (bytesToString (vs ! 1)), as_subtitle = Some (bytesToString (vs ! 2)),
     as_message = Some (bytesToString (vs ! 3)), as_date = Some (bytesToString (vs ! 4))\<rparr>"

definition sendable :: "u8 list list \<Rightarrow> bool" where
  "sendable vs \<longleftrightarrow> length vs = 5 \<and>
     list_all (\<lambda>i. length (vs ! i) \<le> kMaximumAttributeSizes ! i \<and> well_formed_utf8 (vs ! i)) [0..<5]"

lemma attributeLoop_tuple:
  assumes "i < 5" and "length v \<le> kMaximumAttributeSizes ! i" and "well_formed_utf8 v"
  shows "attributeLoop i a (attributeTuple i v @ rest) =
    attributeLoop (i + 1) (assignAttribute a i (bytesToString v)) rest"
proof -
  have "kMaximumAttributeSizes ! i < 65536"
  proof -
    have "\<forall>n \<in> set kMaximumAttributeSizes. n < 65536" by (simp add: kMaximumAttributeSizes_def)
    moreover have "i < length kMaximumAttributeSizes" using assms(1) by (simp add: kMaximumAttributeSizes_def)
    ultimately show ?thesis by (metis nth_mem)
  qed
  then have "unat (readUint16LittleEndian (attributeTuple i v @ rest) 1) = length v"
    using read_le16 [of "length v" "kRequestedAttributeIds ! i" "v @ rest"] assms(2)
    by (simp add: attributeTuple_def del: One_nat_def)
  moreover have "drop 3 (attributeTuple i v @ rest) = v @ rest"
    by (simp add: attributeTuple_def le16_def numeral_3_eq_3)
  moreover have "(attributeTuple i v @ rest) ! 0 = kRequestedAttributeIds ! i"
    by (simp add: attributeTuple_def)
  moreover have "\<not> length (attributeTuple i v @ rest) < 3" by (simp add: attributeTuple_def)
  moreover have "i < length kRequestedAttributeIds" using assms(1) by (simp add: kRequestedAttributeIds_def)
  ultimately show ?thesis
    using assms(2,3) by (subst attributeLoop.simps) (simp add: Let_def isValidUtf8_iff)
qed

lemma attributeLoop_body:
  assumes "sendable vs"
  shows "attributeLoop 0 emptyAttributes (encodeBody vs) = (5, attributesOf vs, [], LoopBreak)"
proof -
  have five: "[0..<5] = [0, 1, 2, 3, 4 :: nat]" by (simp add: upt_rec)
  have ok: "length (vs ! i) \<le> kMaximumAttributeSizes ! i" "well_formed_utf8 (vs ! i)" if "i < 5" for i
    using assms that by (auto simp: sendable_def list_all_iff)
  note step = attributeLoop_tuple [OF _ ok]
  have split: "encodeBody vs = attributeTuple 0 (vs ! 0) @ attributeTuple 1 (vs ! 1) @
      attributeTuple 2 (vs ! 2) @ attributeTuple 3 (vs ! 3) @ attributeTuple 4 (vs ! 4) @ []"
    by (simp add: encodeBody_def five)
  have "attributeLoop 5 a [] = (5, a, [], LoopBreak)" for a
    by (subst attributeLoop.simps) (simp add: kRequestedAttributeIds_def)
  then show ?thesis
    unfolding split using step [of 0] step [of 1] step [of 2] step [of 3] step [where i = 4 and rest = "[]"]
    by (simp add: assignAttribute_def attributesOf_def emptyAttributes_def del: One_nat_def)
qed

text \<open>The state of the reassembler after the bytes \<open>p\<close> of a response.\<close>

definition received :: "u32 \<Rightarrow> u8 list \<Rightarrow> reassembler \<Rightarrow> bool" where
  "received uid p r \<longleftrightarrow>
     \<not> ra_terminal r \<and> ra_expected_uid r = uid \<and> ra_total_bytes r = length p \<and>
     (if length p < 5
      then \<not> ra_header_seen r \<and> ra_buffer r = p \<and> ra_expected_attribute_index r = 0 \<and>
           ra_attributes r = emptyAttributes
      else ra_header_seen r \<and> ra_expected_attribute_index r < 5 \<and>
           attributeLoop 0 emptyAttributes (drop 5 p) =
             (ra_expected_attribute_index r, ra_attributes r, ra_buffer r, LoopBreak))"

lemma consumeBody_prefix:
  assumes send: "sendable vs" and body: "body @ q = encodeBody vs"
    and loop: "attributeLoop (ra_expected_attribute_index r) (ra_attributes r) buf =
      attributeLoop 0 emptyAttributes body"
  shows "if q = [] then snd (consumeBody r buf) = Inr (Some (attributesOf vs))
    else snd (consumeBody r buf) = Inr None \<and> (\<exists>i a s. i < 5 \<and>
      attributeLoop 0 emptyAttributes body = (i, a, s, LoopBreak) \<and>
      fst (consumeBody r buf) = r\<lparr>ra_expected_attribute_index := i, ra_attributes := a, ra_buffer := s\<rparr>)"
proof -
  obtain i a s stop where l: "attributeLoop 0 emptyAttributes body = (i, a, s, stop)"
    by (metis prod_cases4)
  note whole = attributeLoop_body [OF send, folded body]
  have stop: "stop = LoopBreak"
  proof (cases stop)
    case (LoopError err)
    then show ?thesis using attributeLoop_append [OF l, of q] whole by simp
  qed simp
  have cont: "attributeLoop i a (s @ q) = (5, attributesOf vs, [], LoopBreak)"
    using attributeLoop_append [OF l, of q] whole stop by simp
  have five: "length kRequestedAttributeIds = 5" by (simp add: kRequestedAttributeIds_def)
  have full: "s @ q = [] \<and> i = 5 \<and> a = attributesOf vs" if "\<not> i < 5"
    using cont that by (subst (asm) attributeLoop.simps) (simp add: five)
  show ?thesis
  proof (cases "q = []")
    case True
    then show ?thesis using l whole body stop loop by (simp add: consumeBody_def five)
  next
    case False
    then have "i < 5" using full by auto
    then show ?thesis using False l stop loop by (auto simp: consumeBody_def five)
  qed
qed

lemma consume_step:
  assumes send: "sendable vs" and whole: "p @ f @ q = encodeResponse uid vs"
    and limit: "length (encodeResponse uid vs) \<le> 8192" and f: "f \<noteq> []" and r: "received uid p r"
  shows "if q = [] then snd (consume r f) = Inr (Some (attributesOf vs))
    else snd (consume r f) = Inr None \<and> received uid (p @ f) (fst (consume r f))"
proof -
  have total: "length p + length f + length q \<le> 8192"
    using limit unfolding whole [symmetric] by simp
  have r0: "\<not> ra_terminal r" "ra_expected_uid r = uid" "ra_total_bytes r = length p"
    using r by (simp_all add: received_def)
  have fits: "\<not> length f > 8192 - ra_total_bytes r" using total r0 by simp
  let ?r1 = "r\<lparr>ra_total_bytes := ra_total_bytes r + length f, ra_buffer := ra_buffer r @ f\<rparr>"
  have q: "q \<noteq> []" if "length (p @ f) < 5"
    using that arg_cong [OF whole, of length] by (auto simp: encodeResponse_def)
  show ?thesis
  proof (cases "length p < 5")
    case start: True
    then have st: "\<not> ra_header_seen r" "ra_buffer r = p" "ra_expected_attribute_index r = 0"
        "ra_attributes r = emptyAttributes" using r by (simp_all add: received_def)
    show ?thesis
    proof (cases "length (p @ f) < 5")
      case True
      then have "consume r f = (?r1, Inr None)"
        using r0 f fits st by (simp add: consume_def)
      then show ?thesis using q [OF True] True r0 st by (simp add: received_def)
    next
      case False
      define body where "body = drop 5 (p @ f)"
      have pf: "p @ f = 0 # le32 uid @ body" "body @ q = encodeBody vs"
      proof -
        have "take 5 (p @ f) = take 5 (encodeResponse uid vs)"
          using False unfolding whole [symmetric] by (cases "length p \<ge> 5") auto
        also have "\<dots> = 0 # le32 uid" by (simp add: encodeResponse_def le32_def)
        finally show pf: "p @ f = 0 # le32 uid @ body"
          unfolding body_def by (metis append_Cons append_take_drop_id)
        have "(p @ f) @ q = encodeResponse uid vs" using whole by simp
        then have "0 # le32 uid @ body @ q = encodeResponse uid vs" unfolding pf by simp
        then show "body @ q = encodeBody vs" by (simp add: encodeResponse_def)
      qed
      let ?r2 = "?r1\<lparr>ra_header_seen := True\<rparr>"
      have "readUint32LittleEndian (p @ f) (Suc 0) = uid"
        unfolding pf(1) using read_le32 [of "[0]" uid body] by simp
      moreover have "(p @ f) ! 0 = 0" unfolding pf(1) by simp
      ultimately have run: "consume r f = consumeBody ?r2 body"
        using r0 f fits st False by (simp add: consume_def body_def)
      have "attributeLoop (ra_expected_attribute_index ?r2) (ra_attributes ?r2) body =
          attributeLoop 0 emptyAttributes body" using st by simp
      note res = consumeBody_prefix [OF send pf(2) this]
      show ?thesis
      proof (cases "q = []")
        case more: False
        then obtain i a s where "i < 5" "attributeLoop 0 emptyAttributes body = (i, a, s, LoopBreak)"
            "fst (consumeBody ?r2 body) =
              ?r2\<lparr>ra_expected_attribute_index := i, ra_attributes := a, ra_buffer := s\<rparr>"
            "snd (consumeBody ?r2 body) = Inr None"
          using res by auto
        then show ?thesis using False r0 more by (simp add: run received_def body_def [symmetric] del: drop_append)
      qed (use res run in simp)
    qed
  next
    case False
    then have st: "ra_header_seen r" "ra_expected_attribute_index r < 5"
        "attributeLoop 0 emptyAttributes (drop 5 p) =
          (ra_expected_attribute_index r, ra_attributes r, ra_buffer r, LoopBreak)"
      using r by (simp_all add: received_def)
    have run: "consume r f = consumeBody ?r1 (ra_buffer r @ f)"
      using r0 f fits st by (simp add: consume_def)
    have "drop 5 (p @ f @ q) = drop 5 p @ f @ q" using False by simp
    then have body: "(drop 5 p @ f) @ q = encodeBody vs"
      unfolding whole by (simp add: encodeResponse_def le32_def)
    have "attributeLoop (ra_expected_attribute_index ?r1) (ra_attributes ?r1) (ra_buffer r @ f) =
        attributeLoop 0 emptyAttributes (drop 5 p @ f)"
      using attributeLoop_append [OF st(3), of f] by simp
    note res = consumeBody_prefix [OF send body this]
    show ?thesis
    proof (cases "q = []")
      case more: False
      then obtain i a s where "i < 5"
          "attributeLoop 0 emptyAttributes (drop 5 p @ f) = (i, a, s, LoopBreak)"
          "fst (consumeBody ?r1 (ra_buffer r @ f)) =
            ?r1\<lparr>ra_expected_attribute_index := i, ra_attributes := a, ra_buffer := s\<rparr>"
          "snd (consumeBody ?r1 (ra_buffer r @ f)) = Inr None"
        using res by auto
      then show ?thesis using False r0 st(1) more by (simp add: run received_def)
    qed (use res run in simp)
  qed
qed

fun feedAll :: "reassembler \<Rightarrow> u8 list list \<Rightarrow> (ancs_error + attribute_set option) list" where
  "feedAll r [] = []"
| "feedAll r (f # fs) = (let (r', res) = consume r f in res # feedAll r' fs)"

lemma feedAll_received:
  assumes "sendable vs" and "length (encodeResponse uid vs) \<le> 8192" and "[] \<notin> set fs" and "fs \<noteq> []"
    and "p @ concat fs = encodeResponse uid vs" and "received uid p r"
  shows "feedAll r fs = replicate (length fs - 1) (Inr None) @ [Inr (Some (attributesOf vs))]"
  using assms(3-6)
proof (induction fs arbitrary: p r)
  case (Cons f fs)
  have f: "f \<noteq> []" using Cons.prems(1) by auto
  have split: "p @ f @ concat fs = encodeResponse uid vs" using Cons.prems(3) by simp
  note step = consume_step [OF assms(1) split assms(2) f Cons.prems(4)]
  obtain r' res where run: "consume r f = (r', res)" by (cases "consume r f")
  show ?case
  proof (cases fs)
    case Nil
    then show ?thesis using step run by simp
  next
    case more: (Cons g gs)
    then have ne: "concat fs \<noteq> []" using Cons.prems(1) by auto
    have "res = Inr None" "received uid (p @ f) r'"
      using step [unfolded if_not_P [OF ne]] run by simp_all
    moreover have "(p @ f) @ concat fs = encodeResponse uid vs" using split by simp
    ultimately show ?thesis
      using Cons.IH [of "p @ f" r'] Cons.prems(1) more run by simp
  qed
qed simp

text \<open>
  C14: reassembly inverts the encoding for every fragmentation.  A response with the expected
  identifier and five valid attributes within their limits, cut into any non-empty fragments,
  is incomplete until the last fragment and then gives exactly the attributes that were sent.
\<close>

theorem reassembly_roundtrip:
  assumes "sendable vs" and "length (encodeResponse uid vs) \<le> 8192"
    and "concat fs = encodeResponse uid vs" and "[] \<notin> set fs"
  shows "feedAll (newReassembler uid) fs =
    replicate (length fs - 1) (Inr None) @ [Inr (Some (attributesOf vs))]"
proof (rule feedAll_received [OF assms(1,2,4)])
  show "fs \<noteq> []" using assms(3) by (auto simp: encodeResponse_def)
  show "[] @ concat fs = encodeResponse uid vs" using assms(3) by simp
  show "received uid [] (newReassembler uid)" by (simp add: received_def newReassembler_def)
qed

theorem reassembly_roundtrip_witness:
  "feedAll (newReassembler 7) [[0, 7, 0], [0, 0, 0, 1, 0, 65, 1], [0, 0, 2, 0, 0, 3, 0, 0, 5, 0, 0]] =
    [Inr None, Inr None, Inr (Some (attributesOf [[65], [], [], [], []]))]"
proof -
  have "sendable [[65], [], [], [], []]"
    unfolding sendable_def isValidUtf8_iff [symmetric] by code_simp
  moreover have e: "encodeResponse 7 [[65], [], [], [], []] =
      [0, 7, 0, 0, 0, 0, 1, 0, 65, 1, 0, 0, 2, 0, 0, 3, 0, 0, 5, 0, 0]" by code_simp
  ultimately show ?thesis
    using reassembly_roundtrip [of "[[65], [], [], [], []]" 7
        "[[0, 7, 0], [0, 0, 0, 1, 0, 65, 1], [0, 0, 2, 0, 0, 3, 0, 0, 5, 0, 0]]"]
    by (simp add: numeral_2_eq_2)
qed

definition reassembler_ok :: "reassembler \<Rightarrow> bool" where
  "reassembler_ok r \<longleftrightarrow> ra_total_bytes r \<le> 8192 \<and> length (ra_buffer r) \<le> ra_total_bytes r"

lemma attributeLoop_shrinks:
  "attributeLoop i a xs = (i', a', s, stop) \<Longrightarrow> length s \<le> length xs"
proof (induction i a xs rule: attributeLoop.induct)
  case (1 i a xs)
  note ih = "1.IH" [OF _ _ refl refl refl]
  let ?size = "unat (readUint16LittleEndian xs 1)"
  have "length s \<le> length (drop (?size + 3) xs) \<or> s = xs"
    using "1.prems" ih by (subst (asm) attributeLoop.simps) (auto simp: Let_def split: if_splits)
  then show ?case by auto
qed

lemma reassembler_ok_flags [simp]:
  "reassembler_ok (r\<lparr>ra_terminal := b\<rparr>) = reassembler_ok r"
  "reassembler_ok (r\<lparr>ra_header_seen := b\<rparr>) = reassembler_ok r"
  by (simp_all add: reassembler_ok_def)

lemma consumeBody_ok:
  assumes "reassembler_ok r" and "length buf \<le> ra_total_bytes r"
  shows "reassembler_ok (fst (consumeBody r buf))"
  using assms attributeLoop_shrinks [of "ra_expected_attribute_index r" "ra_attributes r" buf]
  by (fastforce simp: consumeBody_def reassembler_ok_def Let_def split: prod.splits loop_stop.splits)

lemma consumeBody_terminal:
  "\<not> ra_terminal r \<Longrightarrow>
     ra_terminal (fst (consumeBody r buf)) = (snd (consumeBody r buf) \<noteq> Inr None)"
  by (auto simp: consumeBody_def Let_def split: prod.splits loop_stop.splits)

lemma consume_bounded:
  assumes "reassembler_ok r"
  shows "reassembler_ok (fst (consume r fragment)) \<and>
    (if ra_terminal r then fst (consume r fragment) = r \<and> isl (snd (consume r fragment))
     else ra_terminal (fst (consume r fragment)) =
            (fragment \<noteq> [] \<and> snd (consume r fragment) \<noteq> Inr None))"
proof (cases "ra_terminal r \<or> fragment = [] \<or> length fragment > 8192 - ra_total_bytes r")
  case True
  then show ?thesis using assms by (auto simp: consume_def reassembler_ok_def)
next
  case False
  let ?r1 = "r\<lparr>ra_total_bytes := ra_total_bytes r + length fragment, ra_buffer := ra_buffer r @ fragment\<rparr>"
  let ?r2 = "?r1\<lparr>ra_header_seen := True\<rparr>"
  have ok: "reassembler_ok ?r1" "reassembler_ok ?r2"
    using assms False by (auto simp: reassembler_ok_def)
  have "length (ra_buffer r @ fragment) \<le> ra_total_bytes ?r1"
    using assms by (simp add: reassembler_ok_def)
  then have body: "reassembler_ok (fst (consumeBody ?r1 (ra_buffer r @ fragment)))"
      "reassembler_ok (fst (consumeBody ?r2 (drop 5 (ra_buffer r @ fragment))))"
    by (intro consumeBody_ok [OF ok(1)] consumeBody_ok [OF ok(2)]; simp)+
  show ?thesis
    using False ok body consumeBody_terminal [of ?r1 "ra_buffer r @ fragment"]
      consumeBody_terminal [of ?r2 "drop 5 (ra_buffer r @ fragment)"]
    by (simp add: consume_def Let_def del: drop_append)
qed

lemma consume_keeps_ok: "reassembler_ok r \<Longrightarrow> reassembler_ok (fst (consume r f))"
  using consume_bounded by blast

text \<open>
  C24: the memory of the reassembler is bounded.  Whatever bytes arrive, it accepts at most 8192 of
  them, the buffer never exceeds what it accepted, and every failure or completion is final: the
  next fragment is refused without touching the state.
\<close>

theorem reassembler_bounded:
  assumes "reassembler_ok r"
  shows "reassembler_ok (fst (consume r fragment)) \<and>
    (if ra_terminal r then fst (consume r fragment) = r \<and> isl (snd (consume r fragment))
     else ra_terminal (fst (consume r fragment)) =
            (fragment \<noteq> [] \<and> snd (consume r fragment) \<noteq> Inr None))"
  by (rule consume_bounded [OF assms])

theorem reassembler_bounded_witness:
  "reassembler_ok (fst (consume (newReassembler 7) [0, 7, 0])) \<and>
    (if ra_terminal (newReassembler 7)
     then fst (consume (newReassembler 7) [0, 7, 0]) = newReassembler 7 \<and>
       isl (snd (consume (newReassembler 7) [0, 7, 0]))
     else ra_terminal (fst (consume (newReassembler 7) [0, 7, 0])) =
            ([0, 7, 0 :: u8] \<noteq> [] \<and> snd (consume (newReassembler 7) [0, 7, 0]) \<noteq> Inr None))"
  by (rule reassembler_bounded) (simp add: reassembler_ok_def newReassembler_def)

lemma parse_notification:
  "parseAncsNotificationSource ([k, fl, cat, cnt] @ le32 uid) =
     (if k = 0 \<or> k = 1 \<or> k = 2
      then Inr (emptyNotification\<lparr>an_kind := (if k = 0 then NAdded else if k = 1 then NUpdated else NRemoved),
        an_flags := fl, an_category := cat, an_category_count := cnt, an_uid := uid\<rparr>)
      else Inl (parserError AeUnsupported ''unsupported ANCS event identifier'' False))"
proof -
  have "readUint32LittleEndian ([k, fl, cat, cnt] @ le32 uid) 4 = uid"
    using read_le32 [of "[k, fl, cat, cnt]" uid "[]"] by (simp add: numeral_eq_Suc)
  then show ?thesis by (simp add: parseAncsNotificationSource_def)
qed

text \<open>
  Request and event agree on the identifier.  The request starts with the command byte and the
  identifier, from which the same reader gets it back, asks for the five attributes in the order
  the reassembler expects, and an event of eight bytes is parsed to its fields.
\<close>

theorem request_and_event_fields:
  "readUint32LittleEndian (makeAttributeRequest uid) 1 = uid \<and>
   makeAttributeRequest uid = 0 # le32 uid @ [0, 1, 0, 1, 2, 0, 1, 3, 0, 16, 5] \<and>
   parseAncsNotificationSource ([k, fl, cat, cnt] @ le32 uid) =
     (if k = 0 \<or> k = 1 \<or> k = 2
      then Inr (emptyNotification\<lparr>an_kind := (if k = 0 then NAdded else if k = 1 then NUpdated else NRemoved),
        an_flags := fl, an_category := cat, an_category_count := cnt, an_uid := uid\<rparr>)
      else Inl (parserError AeUnsupported ''unsupported ANCS event identifier'' False))"
proof -
  have tail: "concat (map (\<lambda>index. kRequestedAttributeIds ! index #
         (if 1 \<le> index \<and> index \<le> 3
          then let maximum = of_nat (kMaximumAttributeSizes ! index) :: u16
               in [ucast (maximum AND 0xFF), ucast (drop_bit 8 maximum AND 0xFF)]
          else [])) [0..<length kRequestedAttributeIds]) = [0, 1, 0, 1, 2, 0, 1, 3, 0, 16, 5 :: u8]"
    by code_simp
  have req: "makeAttributeRequest uid = 0 # le32 uid @ [0, 1, 0, 1, 2, 0, 1, 3, 0, 16, 5]"
    unfolding makeAttributeRequest_def tail by (simp add: le32_def)
  have "readUint32LittleEndian (makeAttributeRequest uid) 1 = uid"
    unfolding req using read_le32 [of "[0]" uid] by simp
  then show ?thesis using req by (simp only: parse_notification simp_thms)
qed

end
