(* ===== verification/AncsClientProps.thy ===== *)
theory AncsClientProps
  imports AncsClient AncsParserProps
begin

text \<open>
  What the notification session keeps in every interleaving of its caller, the backend's
  callbacks and its two workers, and what its operations do.
\<close>

section \<open>The invariant of the session\<close>

definition pending_ok :: "ancs \<Rightarrow> bool" where
  "pending_ok s \<longleftrightarrow> distinct (ac_pending_requests s) \<and>
     set (ac_pending_requests s) = ac_queued_uids s \<and>
     (\<forall>u \<in> set (ac_pending_requests s).
        case ac_records s u of None \<Rightarrow> False | Some r \<Rightarrow> \<not> nr_unavailable r)"

definition records_ok :: "ancs \<Rightarrow> bool" where
  "records_ok s \<longleftrightarrow> (\<forall>u r. ac_records s u = Some r \<longrightarrow> an_uid (nr_notification r) = u)"

definition active_ok :: "ancs \<Rightarrow> bool" where
  "active_ok s \<longleftrightarrow> (case ac_active_request s of
     None \<Rightarrow> True
   | Some a \<Rightarrow> an_uid (ar_notification a) \<notin> set (ac_pending_requests s) \<and>
       (ar_write_pending a \<longleftrightarrow> ar_deadline a = None) \<and>
       ra_expected_uid (ar_reassembler a) = an_uid (ar_notification a) \<and>
       reassembler_ok (ar_reassembler a))"

definition backlog_ok :: "ancs \<Rightarrow> bool" where
  "backlog_ok s \<longleftrightarrow> (let maximum = cfg_maximum_pending_notifications (ac_config s)
     in maximum = 0 \<or> length (ac_pending_requests s) \<le> maximum)"

definition phase_ok :: "ancs \<Rightarrow> bool" where
  "phase_ok s \<longleftrightarrow>
     (if ac_ready s then ac_state s = AsReady \<and> ac_api s = ApiIdle
      else ac_pending_requests s = [] \<and> ac_active_request s = None \<and>
        ac_records s = (\<lambda>_. None) \<and> ac_control_point_jobs s = [])"

definition session_ok :: "ancs \<Rightarrow> bool" where
  "session_ok s \<longleftrightarrow>
     pending_ok s \<and> records_ok s \<and> active_ok s \<and> backlog_ok s \<and> phase_ok s"

lemmas session_defs = session_ok_def pending_ok_def records_ok_def active_ok_def backlog_ok_def
  phase_ok_def

text \<open>Everything the invariant does not mention may change.\<close>

definition same_session :: "ancs \<Rightarrow> ancs \<Rightarrow> bool" where
  "same_session s t \<longleftrightarrow> ac_pending_requests t = ac_pending_requests s \<and>
     ac_queued_uids t = ac_queued_uids s \<and> ac_records t = ac_records s \<and>
     ac_active_request t = ac_active_request s \<and> ac_config t = ac_config s \<and>
     ac_ready t = ac_ready s \<and> ac_state t = ac_state s \<and> ac_api t = ac_api s \<and>
     ac_control_point_jobs t = ac_control_point_jobs s"

lemma same_session_ok: "session_ok s \<Longrightarrow> same_session s t \<Longrightarrow> session_ok t"
  by (auto simp: session_defs same_session_def Let_def split: option.splits)

lemma enqueue_same [simp]: "same_session s (enqueueApplicationEvent e t) = same_session s t"
  by (simp add: enqueueApplicationEvent_def same_session_def)

text \<open>A cleared session satisfies the invariant whatever the other fields are.\<close>

definition cleared :: "ancs \<Rightarrow> bool" where
  "cleared s \<longleftrightarrow> \<not> ac_ready s \<and> ac_pending_requests s = [] \<and> ac_queued_uids s = {} \<and>
     ac_records s = (\<lambda>_. None) \<and> ac_active_request s = None \<and> ac_control_point_jobs s = []"

lemma cleared_ok: "cleared s \<Longrightarrow> session_ok s"
  by (simp add: session_defs cleared_def)

lemma not_ready_cleared: "session_ok s \<Longrightarrow> \<not> ac_ready s \<Longrightarrow> cleared s"
  by (auto simp: session_defs cleared_def)

lemma cleared_enqueue [simp]: "cleared (enqueueApplicationEvent e s) = cleared s"
  by (simp add: cleared_def enqueueApplicationEvent_def)

lemma cleared_setState [simp]: "cleared (setState st s) = cleared s"
  by (simp add: cleared_def setState_def)

lemma cleared_updates [simp]:
  "cleared (s\<lparr>ac_api := a\<rparr>) = cleared s" "cleared (s\<lparr>ac_state := st\<rparr>) = cleared s"
  "cleared (s\<lparr>ac_shutdown := b\<rparr>) = cleared s" "cleared (s\<lparr>ac_control_point_shutdown := b\<rparr>) = cleared s"
  "cleared (s\<lparr>ac_worker_started := b\<rparr>) = cleared s"
  "cleared (s\<lparr>ac_control_point_worker_started := b\<rparr>) = cleared s"
  "cleared (s\<lparr>ac_data_source_subscription := b\<rparr>) = cleared s"
  "cleared (s\<lparr>ac_notification_source_subscription := b\<rparr>) = cleared s"
  "cleared (s\<lparr>ac_control_point_id := x\<rparr>) = cleared s"
  "cleared (s\<lparr>ac_picked := p\<rparr>) = cleared s"
  "cleared s \<Longrightarrow> cleared (s\<lparr>ac_control_point_jobs := []\<rparr>)"
  by (simp_all add: cleared_def)

lemma cleared_clear [simp]: "cleared (clearSessionData s) = (\<not> ac_ready s)"
  by (simp add: cleared_def clearSessionData_def)

lemma stopSubscriptions_fst:
  "fst (stopSubscriptions answers s) =
     s\<lparr>ac_notification_source_subscription :=
         (ac_notification_source_subscription s \<and> fst answers \<noteq> None),
       ac_data_source_subscription := (ac_data_source_subscription s \<and> snd answers \<noteq> None)\<rparr>"
  by (cases s) (auto simp: stopSubscriptions_def Let_def split: option.splits)

lemma stopSubscriptions_snd:
  "snd (stopSubscriptions answers s) =
     (case (if ac_notification_source_subscription s then fst answers else None) of
        Some g \<Rightarrow> Inl (mapGattError g)
      | None \<Rightarrow>
          (case (if ac_data_source_subscription s then snd answers else None) of
             Some g \<Rightarrow> Inl (mapGattError g)
           | None \<Rightarrow> Inr ()))"
  by (auto simp: stopSubscriptions_def Let_def split: option.splits)

lemma cleared_stopSubscriptions [simp]: "cleared (fst (stopSubscriptions answers s)) = cleared s"
  by (simp add: stopSubscriptions_fst cleared_def)

lemma cleared_failStartup [simp]: "cleared (fst (failStartup answers e s))"
proof -
  have "cleared (clearSessionData (s\<lparr>ac_ready := False, ac_accept_gatt_events := False\<rparr>))" by simp
  then show ?thesis
    by (simp add: failStartup_def Let_def split_beta del: cleared_clear)
qed

lemma failRuntime_cases:
  "failRuntime answers e s = s \<and> (ac_state s = AsFailed \<or> ac_state s = AsStopped) \<or>
   cleared (failRuntime answers e s) \<and> \<not> (ac_state s = AsFailed \<or> ac_state s = AsStopped)"
proof (cases "ac_state s = AsFailed \<or> ac_state s = AsStopped")
  case False
  have "cleared (clearSessionData (s\<lparr>ac_ready := False, ac_accept_gatt_events := False\<rparr>))" by simp
  then have "cleared (failRuntime answers e s)"
    using False by (simp add: failRuntime_def Let_def split_beta del: cleared_clear)
  then show ?thesis using False by simp
qed (simp add: failRuntime_def)

lemma failRuntime_ok: "session_ok s \<Longrightarrow> session_ok (failRuntime answers e s)"
  using failRuntime_cases [of answers e s] cleared_ok by metis

lemma cleared_failPart [simp]: "cleared (fst (failPart r)) = cleared (fst r)"
  by (simp add: failPart_def)

section \<open>Every step keeps the invariant\<close>

lemma start_ok:
  assumes "session_ok s" and "ac_api s \<noteq> ApiIdle"
  shows "session_ok (fst (startResolved resolved answers d s))"
    and "session_ok (fst (startDiscovered services answers d s))"
    and "session_ok (fst (startDataSubscribed subscribed answers d s))"
proof -
  have c: "cleared s" using assms by (auto intro!: not_ready_cleared simp: session_defs split: if_splits)
  show "session_ok (fst (startResolved resolved answers d s))"
    using c by (intro cleared_ok) (simp add: startResolved_def startCancelled_def split: option.split)
  show "session_ok (fst (startDiscovered services answers d s))"
    using c by (intro cleared_ok) (simp add: startDiscovered_def Let_def split: option.split sum.split)
  show "session_ok (fst (startDataSubscribed subscribed answers d s))"
    using c by (intro cleared_ok)
      (simp add: startDataSubscribed_def startCancelled_def Let_def split: option.split)
qed

lemma startNotificationSubscribed_ok:
  assumes "session_ok s" and "ac_api s \<noteq> ApiIdle"
  shows "session_ok (fst (startNotificationSubscribed subscribed answers s))"
proof (cases "subscribed = None \<and> \<not> ac_cancel_requested s")
  case True
  have "cleared s" using assms by (auto intro!: not_ready_cleared simp: session_defs split: if_splits)
  then show ?thesis using True
    by (simp add: startNotificationSubscribed_def cleared_def session_defs)
next
  case False
  then show ?thesis
    by (intro cleared_ok) (auto simp: startNotificationSubscribed_def startCancelled_def Let_def
        split: option.split)
qed

lemma startBegin_ok:
  assumes "session_ok s"
  shows "session_ok (fst (startBegin localDate d config w c answers s))"
proof (cases "ac_state s = AsStopped")
  case True
  then have cl: "cleared s"
    using assms by (auto intro!: not_ready_cleared simp: session_defs split: if_splits)
  have new: "cleared (s\<lparr>ac_cancel_requested := a, ac_accept_gatt_events := b, ac_ready := False,
      ac_shutdown := e, ac_control_point_shutdown := f, ac_device_id := g, ac_config := h,
      ac_notification_date_cutoff := i\<rparr>)" for a b e f g h i
    using cl by (simp add: cleared_def)
  show ?thesis
    unfolding startBegin_def Let_def
    using assms new by (auto intro!: cleared_ok split: option.split)
next
  case False
  then show ?thesis using assms by (simp add: startBegin_def Let_def split: option.split)
qed

lemma stop_ok:
  assumes "session_ok s"
  shows "session_ok (fst (stopBegin s))"
    and "ac_api s \<noteq> ApiIdle \<Longrightarrow> session_ok (fst (stopCleanup answers s))"
    and "ac_api s \<noteq> ApiIdle \<Longrightarrow> session_ok (fst (stopJoin w c s))"
proof -
  show "session_ok (fst (stopBegin s))"
    using assms by (auto simp: stopBegin_def intro: cleared_ok)
  assume "ac_api s \<noteq> ApiIdle"
  then have nr: "\<not> ac_ready s" using assms by (auto simp: session_defs split: if_splits)
  then have c: "cleared s" using assms not_ready_cleared by blast
  have "cleared (fst (stopCleanup answers s))"
  proof -
    have "cleared (clearSessionData s)" using nr by simp
    then show ?thesis
      by (auto simp: stopCleanup_def Let_def split_beta cleared_def setState_def
          enqueueApplicationEvent_def stopSubscriptions_fst split: sum.split)
  qed
  then show "session_ok (fst (stopCleanup answers s))" by (rule cleared_ok)
  show "session_ok (fst (stopJoin w c s))" for c
    using c by (intro cleared_ok) (simp add: stopJoin_def Let_def)
qed

text \<open>The handlers of a ready session.\<close>

lemma processRemoved_ok:
  assumes "session_ok s" and "ac_ready s"
  shows "session_ok (processRemoved n s)"
proof -
  let ?s1 = "s\<lparr>ac_records := (ac_records s)(an_uid n := None),
       ac_pending_requests := removeAll (an_uid n) (ac_pending_requests s),
       ac_queued_uids := ac_queued_uids s - {an_uid n},
       ac_active_request := (case ac_active_request s of None \<Rightarrow> None
         | Some a \<Rightarrow> if an_uid (ar_notification a) = an_uid n then Some (a\<lparr>ar_removed := True\<rparr>)
                     else Some a)\<rparr>"
  note len = le_trans [OF length_removeAll_less_eq]
  have one: "session_ok ?s1"
    using assms by (auto simp: session_defs Let_def distinct_removeAll intro: len split: option.splits)
  have "same_session ?s1 (processRemoved n s)"
    by (simp add: processRemoved_def Let_def) (simp add: same_session_def)
  then show ?thesis using one same_session_ok by blast
qed

lemma updateRecord_ok:
  assumes "session_ok s" and "ac_ready s"
  shows "session_ok (updateRecord n s)"
  using assms
  by (auto simp: session_defs updateRecord_def emptyRecord_def Let_def split: option.splits if_splits)

lemma updateRecord_record:
  "\<exists>r. ac_records (updateRecord n s) (an_uid n) = Some r \<and> an_uid (nr_notification r) = an_uid n \<and>
     nr_unavailable r = (case ac_records s (an_uid n) of None \<Rightarrow> False | Some r0 \<Rightarrow> nr_unavailable r0)"
  by (auto simp: updateRecord_def emptyRecord_def Let_def split: option.splits)

lemma updateRecord_fields [simp]:
  "ac_ready (updateRecord n s) = ac_ready s" "ac_pending_requests (updateRecord n s) = ac_pending_requests s"
  "ac_queued_uids (updateRecord n s) = ac_queued_uids s" "ac_config (updateRecord n s) = ac_config s"
  "ac_active_request (updateRecord n s) = ac_active_request s"
  "ac_backlog_limit_reported (updateRecord n s) = ac_backlog_limit_reported s"
  "ac_event_queue (updateRecord n s) = ac_event_queue s"
  by (simp_all add: updateRecord_def Let_def)

lemma pushPending_ok:
  assumes "session_ok s" and "ac_ready s" and "uid \<notin> ac_queued_uids s" and "activeUid s \<noteq> Some uid"
    and "ac_records s uid = Some r" and "\<not> nr_unavailable r"
    and "cfg_maximum_pending_notifications (ac_config s) = 0 \<or>
      length (ac_pending_requests s) < cfg_maximum_pending_notifications (ac_config s)"
  shows "session_ok (pushPending uid s)"
  using assms by (auto simp: session_defs pushPending_def activeUid_def Let_def split: option.splits)

lemma dropOldest_ok:
  assumes "session_ok s" and "ac_ready s"
  shows "session_ok (dropOldest s)"
proof (cases "ac_pending_requests s")
  case Nil
  then show ?thesis using assms by (auto simp: session_defs dropOldest_def Let_def split: option.splits)
next
  case (Cons u us)
  then show ?thesis
    using assms by (auto simp: session_defs dropOldest_def Let_def split: option.splits)
qed

lemma backlog_flag_same: "same_session s (s\<lparr>ac_backlog_limit_reported := b\<rparr>)"
  by (simp add: same_session_def)

lemma queueRequest_ok:
  assumes ok: "session_ok s" and ready: "ac_ready s" and new: "uid \<notin> ac_queued_uids s"
    and act: "activeUid s \<noteq> Some uid" and r: "ac_records s uid = Some r" "\<not> nr_unavailable r"
  shows "session_ok (fst (queueRequest uid s))"
proof (cases "cfg_maximum_pending_notifications (ac_config s) \<noteq> 0 \<and>
    length (ac_pending_requests s) \<ge> cfg_maximum_pending_notifications (ac_config s)")
  case True
  let ?t = "(dropOldest s)\<lparr>ac_backlog_limit_reported := True\<rparr>"
  from True obtain u us where p: "ac_pending_requests s = u # us"
    by (cases "ac_pending_requests s") auto
  have t: "session_ok ?t" by (rule same_session_ok [OF dropOldest_ok [OF ok ready] backlog_flag_same])
  have "u \<noteq> uid" using ok new p by (auto simp: session_defs)
  then have "session_ok (pushPending uid ?t)"
    using new act r True p ok ready
    by (intro pushPending_ok [OF t, of _ r])
      (auto simp: dropOldest_def Let_def activeUid_def session_ok_def backlog_ok_def)
  then show ?thesis using True by (simp add: queueRequest_def Let_def)
next
  case False
  have "session_ok (pushPending uid (s\<lparr>ac_backlog_limit_reported := False\<rparr>))"
    using new act r False ready same_session_ok [OF ok backlog_flag_same]
    by (intro pushPending_ok [of _ _ r]) (auto simp: activeUid_def)
  then show ?thesis using False by (auto simp: queueRequest_def Let_def)
qed

lemma processAddedOrUpdated_ok:
  assumes "session_ok s" and "ac_ready s"
  shows "session_ok (processAddedOrUpdated n s)"
proof -
  let ?s1 = "updateRecord n s"
  have ok: "session_ok ?s1" using updateRecord_ok [OF assms] .
  obtain r where r: "ac_records ?s1 (an_uid n) = Some r" using updateRecord_record by blast
  have q: "session_ok (fst (queueRequest (an_uid n) ?s1))"
    if "\<not> nr_unavailable r" "an_uid n \<notin> ac_queued_uids s" "activeUid ?s1 \<noteq> Some (an_uid n)"
    using queueRequest_ok [OF ok _ _ that(3) r that(1)] that(2) assms(2) by simp
  have e: "session_ok (enqueueApplicationEvent e t)" if "session_ok t" for e t
    using same_session_ok [OF that] by (simp add: same_session_def enqueueApplicationEvent_def)
  show ?thesis
    using ok q by (auto simp: processAddedOrUpdated_def Let_def r split_beta intro: e)
qed

lemma enqueue_ok: "session_ok t \<Longrightarrow> session_ok (enqueueApplicationEvent e t)"
  by (erule same_session_ok) (simp add: same_session_def enqueueApplicationEvent_def)

lemma processNotificationSourceValue_ok:
  "session_ok s \<Longrightarrow> ac_ready s \<Longrightarrow> session_ok (processNotificationSourceValue answers v s)"
  by (auto simp: processNotificationSourceValue_def
      intro: enqueue_ok failRuntime_ok processRemoved_ok processAddedOrUpdated_ok split: sum.splits)

lemma completeActiveRequest_ok: "session_ok s \<Longrightarrow> session_ok (completeActiveRequest s)"
  by (auto simp: session_defs completeActiveRequest_def split: option.splits)

lemma deliverAttributes_ok:
  assumes "session_ok s" and "ac_ready s"
  shows "session_ok (deliverAttributes uid a s)"
proof (cases "ac_records s uid")
  case None
  then show ?thesis using assms completeActiveRequest_ok by (simp add: deliverAttributes_def)
next
  case (Some r)
  have "session_ok (s\<lparr>ac_records := (ac_records s)(uid := Some (r\<lparr>nr_notification := withAttributes a (nr_notification r),
      nr_ignored_before_start := b, nr_added_not_reported := False\<rparr>))\<rparr>)" for b
    using assms Some by (auto simp: session_defs withAttributes_def split: option.splits)
  then show ?thesis
    using Some by (auto simp: deliverAttributes_def Let_def intro!: completeActiveRequest_ok enqueue_ok)
qed

lemma emitAttributesUnavailable_ok:
  assumes "session_ok s" and "ac_ready s" and "uid \<notin> set (ac_pending_requests s)"
  shows "session_ok (emitAttributesUnavailable uid e s)"
proof (cases "ac_records s uid")
  case (Some r)
  have "session_ok (s\<lparr>ac_records := (ac_records s)(uid := Some (r\<lparr>nr_unavailable := True\<rparr>))\<rparr>)"
    using assms Some by (auto simp: session_defs split: option.splits)
  then show ?thesis
    using Some by (auto simp: emitAttributesUnavailable_def Let_def intro!: enqueue_ok)
qed (use assms in \<open>auto simp: emitAttributesUnavailable_def Let_def intro!: enqueue_ok\<close>)

lemma consume_expected_uid: "ra_expected_uid (fst (consume r f)) = ra_expected_uid r"
  by (auto simp: consume_def consumeBody_def Let_def split: prod.splits loop_stop.splits)

lemma processDataSourceValue_ok:
  assumes ok: "session_ok s" and ready: "ac_ready s"
  shows "session_ok (processDataSourceValue answers v s)"
proof (cases "ac_active_request s")
  case None
  then show ?thesis using ok by (simp add: processDataSourceValue_def)
next
  case (Some a)
  let ?a = "a\<lparr>ar_reassembler := fst (consume (ar_reassembler a) v)\<rparr>"
  let ?s1 = "s\<lparr>ac_active_request := Some ?a\<rparr>"
  have "reassembler_ok (ar_reassembler a)" using ok Some by (simp add: session_defs)
  then have "reassembler_ok (ar_reassembler ?a)" using consume_keeps_ok by simp
  then have s1: "session_ok ?s1"
    using ok Some ready by (auto simp: session_defs consume_expected_uid)
  have u: "an_uid (ar_notification a) \<notin> set (ac_pending_requests ?s1)"
    using ok Some by (auto simp: session_defs)
  show ?thesis
    using s1 u ready
    by (auto simp: processDataSourceValue_def Some Let_def split_beta
        intro!: completeActiveRequest_ok emitAttributesUnavailable_ok failRuntime_ok deliverAttributes_ok
        split: sum.splits option.splits)
qed

lemma processGattPacket_ok: "session_ok s \<Longrightarrow> session_ok (processGattPacket answers p s)"
  by (auto simp: processGattPacket_def Let_def
      intro!: failRuntime_ok processDataSourceValue_ok processNotificationSourceValue_ok
      split: gatt_event_kind.split)

lemma startNextRequest_ok:
  assumes ok: "session_ok s"
  shows "session_ok (startNextRequest s)"
proof (cases "ac_ready s \<and> ac_active_request s = None \<and> ac_pending_requests s \<noteq> []")
  case True
  then obtain u us where p: "ac_pending_requests s = u # us" by (cases "ac_pending_requests s") auto
  then obtain r where r: "ac_records s u = Some r" "\<not> nr_unavailable r"
    using ok by (auto simp: session_defs split: option.splits)
  then have u: "an_uid (nr_notification r) = u" using ok by (auto simp: session_defs)
  show ?thesis
    using ok True p r u
    by (auto simp: startNextRequest_def newActiveRequest_def newReassembler_def session_defs
        reassembler_ok_def Let_def)
next
  case False
  then show ?thesis using ok by (auto simp: startNextRequest_def split: list.split)
qed

lemma acknowledge_ok: "session_ok s \<Longrightarrow> session_ok (acknowledgeControlPointWrite now uid s)"
  by (auto simp: session_defs acknowledgeControlPointWrite_def Let_def split: option.splits if_splits)

lemma failTimedOutRequest_ok:
  assumes ok: "session_ok s"
  shows "session_ok (failTimedOutRequest now answers s)"
proof (cases "\<exists>a. ac_active_request s = Some a \<and> deadlinePassed now a")
  case True
  then obtain a where a: "ac_active_request s = Some a" "deadlinePassed now a" by blast
  let ?uid = "an_uid (ar_notification a)"
  let ?s1 = "s\<lparr>ac_records := (case ac_records s ?uid of None \<Rightarrow> ac_records s
     | Some r \<Rightarrow> (ac_records s)(?uid := Some (r\<lparr>nr_unavailable := True\<rparr>))), ac_active_request := None\<rparr>"
  have u: "?uid \<notin> set (ac_pending_requests s)" "ac_ready s"
    using ok a by (auto simp: session_defs split: if_splits)
  then have "session_ok ?s1"
    using ok by (auto simp: session_defs split: option.splits)
  then show ?thesis
    using a u by (simp add: failTimedOutRequest_def Let_def)
      (intro failRuntime_ok emitAttributesUnavailable_ok; simp)
qed (use ok in \<open>auto simp: failTimedOutRequest_def split: option.splits\<close>)

lemma dispatch_ok: "session_ok s \<Longrightarrow> session_ok (dispatch thr answers e s)"
proof -
  assume ok: "session_ok s"
  have "session_ok (s\<lparr>ac_delivered := ac_delivered s @ [e]\<rparr>)"
    by (rule same_session_ok [OF ok]) (simp add: same_session_def)
  then show ?thesis using ok by (auto simp: dispatch_def Let_def intro: failRuntime_ok)
qed

lemma workerPick_same: "same_session s (workerPick s)"
  by (auto simp: workerPick_def same_session_def split: list.splits)

lemma workerProcess_ok:
  assumes ok: "session_ok s"
  shows "session_ok (workerProcess now thr answers s)"
proof -
  have "session_ok (s\<lparr>ac_picked := None\<rparr>)" by (rule same_session_ok [OF ok]) (simp add: same_session_def)
  then show ?thesis
    using ok by (auto simp: workerProcess_def processItem_def
        intro!: startNextRequest_ok dispatch_ok processGattPacket_ok failRuntime_ok acknowledge_ok
          failTimedOutRequest_ok split: option.split worker_item.split)
qed

lemma controlPoint_ok:
  assumes ok: "session_ok s"
  shows "session_ok (takeControlPointJob s)" and "session_ok (finishControlPointJob result s)"
proof -
  show "session_ok (takeControlPointJob s)"
    using ok by (auto simp: takeControlPointJob_def session_defs split: list.split option.splits)
  show "session_ok (finishControlPointJob result s)"
    by (rule same_session_ok [OF ok])
      (auto simp: finishControlPointJob_def same_session_def Let_def split: option.splits)
qed

lemma session_ok_step: "ancs_step s t \<Longrightarrow> session_ok s \<Longrightarrow> session_ok t"
proof (induction rule: ancs_step.induct)
  case (ancs_handler s installed)
  then show ?case
    by (auto simp: setEventHandler_def same_session_def intro: same_session_ok)
next
  case (ancs_cancel s)
  then show ?case by (rule same_session_ok) (simp add: requestCancel_def same_session_def)
next
  case (ancs_gatt s dataSource event)
  then show ?case by (rule same_session_ok) (simp add: enqueueGattEvent_def same_session_def)
next
  case (ancs_pick s now)
  then show ?case using same_session_ok workerPick_same by blast
qed (simp_all add: start_ok startBegin_ok startNotificationSubscribed_ok stop_ok workerProcess_ok
    controlPoint_ok)

interpretation session: invariant_system ancs_init ancs_step session_ok
proof unfold_locales
  show "session_ok s" if "ancs_init s" for s
    using that by (intro cleared_ok) (simp add: ancs_init_def newClient_def cleared_def)
qed (rule session_ok_step)



section \<open>Stopping and starting\<close>

text \<open>
  Every outcome of \<open>stop\<close>.  A stopped session without subscriptions is left alone.  Otherwise
  both subscriptions are stopped, each exactly when it is held, all session data is dropped, and
  the session is Stopped, with both workers told to end, if none is left; if a stop failed, that
  subscription is kept for a retry, the session is Failed, and the error is a cleanup error.
\<close>

theorem stop_outcomes:
  "if ac_state s = AsStopped \<and> \<not> hasSubscriptions s then stopBegin s = (s, Some (Inr ()))
   else
     let (s1, r1) = stopBegin s; (s2, r2) = stopCleanup (n, d) s1
     in r1 = None \<and> ac_api s1 = ApiStopping \<and> cleared s2 \<and> \<not> ac_accept_gatt_events s2 \<and>
        ac_gatt_queue s2 = [] \<and>
        ac_notification_source_subscription s2 = (ac_notification_source_subscription s \<and> n \<noteq> None) \<and>
        ac_data_source_subscription s2 = (ac_data_source_subscription s \<and> d \<noteq> None) \<and>
        (if hasSubscriptions s2 then
           (\<exists>e. r2 = Some (Inl e) \<and> ae_kind e = AeCleanup \<and> ac_state s2 = AsFailed \<and>
              ac_event_queue s2 = ac_event_queue s @
                [stateEvent AsStopping, errorEvent e, stateEvent AsFailed])
         else r2 = None \<and> ac_state s2 = AsStopped \<and> ac_api s2 = ApiJoining \<and> ac_shutdown s2 \<and>
           ac_control_point_shutdown s2 \<and>
           ac_event_queue s2 = ac_event_queue s @ [stateEvent AsStopping, stateEvent AsStopped])"
proof (cases "ac_state s = AsStopped \<and> \<not> hasSubscriptions s")
  case False
  obtain s1 where b: "stopBegin s = (s1, None)" using False by (auto simp: stopBegin_def)
  let ?s2 = "setState AsStopping (clearSessionData s1)"
  have f: "\<not> ac_ready s1" "\<not> ac_accept_gatt_events s1" "ac_api s1 = ApiStopping"
      "ac_event_queue s1 = ac_event_queue s"
      "ac_notification_source_subscription s1 = ac_notification_source_subscription s"
      "ac_data_source_subscription s1 = ac_data_source_subscription s"
    using False b by (auto simp: stopBegin_def clearSessionData_def split: if_splits)
  have f2: "ac_notification_source_subscription ?s2 = ac_notification_source_subscription s"
      "ac_data_source_subscription ?s2 = ac_data_source_subscription s"
    using f by (simp_all add: setState_def clearSessionData_def)
  obtain s3 c where sub: "stopSubscriptions (n, d) ?s2 = (s3, c)" by (cases "stopSubscriptions (n, d) ?s2")
  have s3: "s3 = ?s2\<lparr>ac_notification_source_subscription := (ac_notification_source_subscription s \<and> n \<noteq> None),
       ac_data_source_subscription := (ac_data_source_subscription s \<and> d \<noteq> None)\<rparr>"
    using stopSubscriptions_fst [of "(n, d)" ?s2] unfolding sub by (simp add: f2)
  have c: "isl c = hasSubscriptions s3"
    using stopSubscriptions_snd [of "(n, d)" ?s2] unfolding sub
    by (auto simp: f2 s3 hasSubscriptions_def split: option.splits)
  have cl: "cleared s3" "\<not> ac_accept_gatt_events s3" "ac_gatt_queue s3 = []" "ac_api s3 = ApiStopping"
      "ac_event_queue s3 = ac_event_queue s @ [stateEvent AsStopping]"
      "ac_notification_source_subscription s3 = (ac_notification_source_subscription s \<and> n \<noteq> None)"
      "ac_data_source_subscription s3 = (ac_data_source_subscription s \<and> d \<noteq> None)"
    using f by (simp_all add: s3 cleared_def setState_def clearSessionData_def)
  have r: "stopCleanup (n, d) s1 = (case c of
      Inl e \<Rightarrow> ((setState AsFailed (enqueueApplicationEvent (errorEvent (e\<lparr>ae_kind := AeCleanup\<rparr>)) s3))
             \<lparr>ac_api := ApiIdle\<rparr>, Some (Inl (e\<lparr>ae_kind := AeCleanup\<rparr>)))
    | Inr _ \<Rightarrow> ((setState AsStopped s3)\<lparr>ac_shutdown := True, ac_control_point_shutdown := True,
             ac_control_point_jobs := [], ac_api := ApiJoining\<rparr>, None))"
    by (simp add: stopCleanup_def Let_def sub)
  have "let (s2, r2) = stopCleanup (n, d) s1 in ac_api s1 = ApiStopping \<and> cleared s2 \<and>
      \<not> ac_accept_gatt_events s2 \<and> ac_gatt_queue s2 = [] \<and>
      ac_notification_source_subscription s2 = (ac_notification_source_subscription s \<and> n \<noteq> None) \<and>
      ac_data_source_subscription s2 = (ac_data_source_subscription s \<and> d \<noteq> None) \<and>
      (if hasSubscriptions s2 then
         (\<exists>e. r2 = Some (Inl e) \<and> ae_kind e = AeCleanup \<and> ac_state s2 = AsFailed \<and>
            ac_event_queue s2 = ac_event_queue s @
              [stateEvent AsStopping, errorEvent e, stateEvent AsFailed])
       else r2 = None \<and> ac_state s2 = AsStopped \<and> ac_api s2 = ApiJoining \<and> ac_shutdown s2 \<and>
         ac_control_point_shutdown s2 \<and>
         ac_event_queue s2 = ac_event_queue s @ [stateEvent AsStopping, stateEvent AsStopped])"
    using c cl f(3) unfolding r
    by (cases c)
      (auto simp: setState_def enqueueApplicationEvent_def hasSubscriptions_def cleared_def)
  then show ?thesis using False by (simp add: b)
qed (simp add: stopBegin_def)

text \<open>How a failing \<open>start\<close> leaves the session.\<close>

definition start_failed :: "ancs \<times> ancs_result option \<Rightarrow> bool" where
  "start_failed r \<longleftrightarrow> (\<exists>e. snd r = Some (Inl e) \<and> cleared (fst r) \<and>
     ac_state (fst r) = AsFailed \<and> \<not> ac_accept_gatt_events (fst r) \<and> ac_api (fst r) = ApiIdle \<and>
     last (ac_event_queue (fst r)) = stateEvent AsFailed \<and>
     (if hasSubscriptions (fst r) then ae_kind e = AeCleanup else True))"

lemma failStartup_failed: "start_failed (failPart (failStartup answers e s))"
proof -
  let ?s2 = "enqueueApplicationEvent (errorEvent e)
      (clearSessionData (s\<lparr>ac_ready := False, ac_accept_gatt_events := False\<rparr>))"
  obtain s3 c where sub: "stopSubscriptions answers ?s2 = (s3, c)"
    by (cases "stopSubscriptions answers ?s2")
  have f2: "cleared ?s2" "\<not> ac_accept_gatt_events ?s2"
    by (simp_all add: enqueueApplicationEvent_def cleared_def clearSessionData_def)
  have s3: "s3 = ?s2\<lparr>ac_notification_source_subscription :=
         (ac_notification_source_subscription ?s2 \<and> fst answers \<noteq> None),
       ac_data_source_subscription := (ac_data_source_subscription ?s2 \<and> snd answers \<noteq> None)\<rparr>"
    using stopSubscriptions_fst [of answers ?s2] unfolding sub by simp
  have c: "isl c = hasSubscriptions s3"
    using stopSubscriptions_snd [of answers ?s2] unfolding sub
    by (auto simp: s3 hasSubscriptions_def split: option.splits)
  have cl: "cleared s3" "\<not> ac_accept_gatt_events s3" using f2 by (simp_all add: s3)
  have r: "failStartup answers e s = (setState AsFailed s3,
      Inl (case c of Inr _ \<Rightarrow> e | Inl e' \<Rightarrow> e'\<lparr>ae_kind := AeCleanup\<rparr>))"
    by (simp add: failStartup_def Let_def sub)
  show ?thesis
    using c cl unfolding r
    by (cases c) (auto simp: start_failed_def failPart_def setState_def hasSubscriptions_def cleared_def)
qed

definition usableServices :: "gatt_error + gatt_service list \<Rightarrow> bool" where
  "usableServices services \<longleftrightarrow> (case services of
     Inl g \<Rightarrow> False
   | Inr found \<Rightarrow>
       (case (fc_service (scanServices found), fc_notification_source (scanServices found),
              fc_control_point (scanServices found), fc_data_source (scanServices found)) of
          (True, Some n, Some c, Some d) \<Rightarrow>
            hasFlag n ''notify'' \<and> hasFlag d ''notify'' \<and> hasFlag c ''write''
        | _ \<Rightarrow> False))"

lemma startDiscovered_cases:
  "if usableServices services then
     \<exists>(c :: gatt_characteristic) n. startDiscovered services answers d s =
       ((setState AsSubscribingDataSource (s\<lparr>ac_control_point_id := gc_id c\<rparr>))
          \<lparr>ac_api := ApiSubscribingData d n\<rparr>, None)
   else start_failed (startDiscovered services answers d s)"
proof (cases "usableServices services")
  case True
  then obtain found n c ds where "services = Inr found" "fc_service (scanServices found)"
      "fc_notification_source (scanServices found) = Some n"
      "fc_control_point (scanServices found) = Some c"
      "fc_data_source (scanServices found) = Some ds"
      "hasFlag n ''notify''" "hasFlag ds ''notify''" "hasFlag c ''write''"
    by (auto simp: usableServices_def split: sum.splits bool.splits option.splits)
  then show ?thesis
    using True by (simp add: startDiscovered_def Let_def) (rule exI [of _ c], rule exI [of _ n], simp)
next
  case False
  then show ?thesis
    by (auto simp: startDiscovered_def usableServices_def Let_def failStartup_failed
        split: sum.split option.split)
qed

definition startAccepted :: "(int \<Rightarrow> string option) \<Rightarrow> string \<Rightarrow> ancs_config \<Rightarrow> ancs \<Rightarrow> bool" where
  "startAccepted localDate deviceId config s \<longleftrightarrow>
     validConfig config \<and> deviceId \<noteq> [] \<and> ac_state s = AsStopped \<and> ac_handler s \<and>
     (case cfg_notification_date_cutoff config of None \<Rightarrow> True | Some t \<Rightarrow> localDate t \<noteq> None)"

lemma startBegin_cases:
  "if \<not> startAccepted localDate d config s then
     fst (startBegin localDate d config w c answers s) = s \<and>
     (\<exists>e. snd (startBegin localDate d config w c answers s) = Some (Inl e))
   else if \<not> (ac_worker_started s \<or> w) \<or> \<not> (ac_control_point_worker_started s \<or> c) then
     start_failed (startBegin localDate d config w c answers s)
   else \<exists>s1. startBegin localDate d config w c answers s = (s1, None) \<and>
     ac_event_queue s1 = ac_event_queue s @ [stateEvent AsStarting, stateEvent AsResolvingServices] \<and>
     \<not> ac_cancel_requested s1 \<and> ac_accept_gatt_events s1 \<and> ac_device_id s1 = d \<and> ac_config s1 = config"
  by (auto simp: startBegin_def startAccepted_def Let_def failStartup_failed setState_def
      split: option.split)

definition startEvents :: "ancs_event list" where
  "startEvents = map stateEvent [AsStarting, AsResolvingServices, AsDiscoveringANCS,
     AsSubscribingDataSource, AsSubscribingNotificationSource, AsReady]"

lemma andThen_failed: "start_failed r \<Longrightarrow> andThen r f = r"
  by (cases r) (auto simp: andThen_def start_failed_def)

text \<open>
  Every outcome of \<open>start\<close>.  It is refused without any effect when an argument or the state
  of the client does not allow it; it succeeds exactly when both workers run and every step of the
  backend does, and then the session is ready with both subscriptions and the application is told
  the six states in order; any other outcome is the Failed state with nothing left of the session,
  and a subscription that could not be stopped is reported as a cleanup error.
\<close>

theorem start_outcomes:
  "let (s', r) = start localDate deviceId config answers s
   in if \<not> startAccepted localDate deviceId config s then s' = s \<and> (\<exists>e. r = Some (Inl e))
      else if (ac_worker_started s \<or> sa_worker_exec answers) \<and>
         (ac_control_point_worker_started s \<or> sa_control_exec answers) \<and>
         sa_resolved answers = None \<and> usableServices (sa_services answers) \<and>
         sa_data answers = None \<and> sa_notification answers = None
      then r = Some (Inr ()) \<and> ac_state s' = AsReady \<and> ac_ready s' \<and> ac_accept_gatt_events s' \<and>
        ac_api s' = ApiIdle \<and> ac_data_source_subscription s' \<and>
        ac_notification_source_subscription s' \<and> ac_device_id s' = deviceId \<and>
        ac_config s' = config \<and> ac_event_queue s' = ac_event_queue s @ startEvents
      else start_failed (s', r)"
proof (cases "startAccepted localDate deviceId config s")
  case False
  then show ?thesis
    using startBegin_cases [of localDate deviceId config s "sa_worker_exec answers"
        "sa_control_exec answers" "sa_stop answers"]
    by (auto simp: start_def andThen_def Let_def split: prod.splits)
next
  case acc: True
  let ?b = "startBegin localDate deviceId config (sa_worker_exec answers) (sa_control_exec answers)
      (sa_stop answers) s"
  note begin_cases = startBegin_cases [of localDate deviceId config s "sa_worker_exec answers"
        "sa_control_exec answers" "sa_stop answers"]
  show ?thesis
  proof (cases "(ac_worker_started s \<or> sa_worker_exec answers) \<and>
         (ac_control_point_worker_started s \<or> sa_control_exec answers)")
    case False
    then have "start_failed ?b" using acc begin_cases by auto
    then show ?thesis using acc False by (auto simp: start_def andThen_failed)
  next
    case workers: True
    then obtain s1 where b: "?b = (s1, None)"
        and s1: "ac_event_queue s1 = ac_event_queue s @ [stateEvent AsStarting, stateEvent AsResolvingServices]"
          "\<not> ac_cancel_requested s1" "ac_accept_gatt_events s1" "ac_device_id s1 = deviceId"
          "ac_config s1 = config"
      using acc begin_cases by auto
    note run = start_def b andThen_failed failStartup_failed startResolved_def
      startDataSubscribed_def startNotificationSubscribed_def
    show ?thesis
    proof (cases "sa_resolved answers = None \<and> usableServices (sa_services answers)")
      case False
      let ?s2 = "(setState AsDiscoveringANCS s1)\<lparr>ac_api := ApiDiscovering deviceId\<rparr>"
      have "start_failed (startDiscovered (sa_services answers) (sa_stop answers) deviceId ?s2)"
        if "\<not> usableServices (sa_services answers)"
        using startDiscovered_cases [of "sa_services answers" "sa_stop answers" deviceId ?s2] that by simp
      then show ?thesis
        using acc workers False s1(2)
        by (cases "sa_resolved answers") (auto simp: run andThen_def [of "(_, None)"])
    next
      case True
      let ?s2 = "(setState AsDiscoveringANCS s1)\<lparr>ac_api := ApiDiscovering deviceId\<rparr>"
      obtain c :: gatt_characteristic and n where d: "startDiscovered (sa_services answers) (sa_stop answers) deviceId ?s2 =
          ((setState AsSubscribingDataSource (?s2\<lparr>ac_control_point_id := gc_id c\<rparr>))
            \<lparr>ac_api := ApiSubscribingData deviceId n\<rparr>, None)"
        using startDiscovered_cases [of "sa_services answers" "sa_stop answers" deviceId ?s2] True by auto
      let ?s3 = "(setState AsSubscribingDataSource (?s2\<lparr>ac_control_point_id := gc_id c\<rparr>))
            \<lparr>ac_api := ApiSubscribingData deviceId n\<rparr>"
      define s3 where "s3 = ?s3"
      have s3: "ac_event_queue s3 = ac_event_queue s @ map stateEvent
            [AsStarting, AsResolvingServices, AsDiscoveringANCS, AsSubscribingDataSource]"
          "\<not> ac_cancel_requested s3" "ac_accept_gatt_events s3" "ac_device_id s3 = deviceId"
          "ac_config s3 = config"
        using s1 by (simp_all add: s3_def setState_def)
      have e: "start localDate deviceId config answers s =
          andThen (startDataSubscribed (sa_data answers) (sa_stop answers) deviceId s3)
            (startNotificationSubscribed (sa_notification answers) (sa_stop answers))"
        using True s1(2)
        by (simp add: start_def b startResolved_def andThen_def [of "(_, None)"] d s3_def)
      show ?thesis
        using acc workers True s3 unfolding e
        by (cases "sa_data answers"; cases "sa_notification answers")
          (simp_all add: startDataSubscribed_def startNotificationSubscribed_def andThen_failed
            failStartup_failed andThen_def [of "(_, None)"] Let_def setState_def startEvents_def)
    qed
  qed
qed

end
