(* ===== verification/AncsFlowProps.thy ===== *)
theory AncsFlowProps
  imports AncsClientProps
begin

text \<open>
  Whole flows through the notification session: a notification from its event bytes to the
  application's callback, the deadline of a request, and two flows that end badly.
\<close>

section \<open>One turn of the event worker\<close>

definition workerTurn :: "int \<Rightarrow> stop_answers \<Rightarrow> worker_item \<Rightarrow> ancs \<Rightarrow> ancs" where
  "workerTurn now answers item s = workerProcess now False answers (s\<lparr>ac_picked := Some item\<rparr>)"

definition valuePacket :: "bool \<Rightarrow> u8 list \<Rightarrow> worker_item" where
  "valuePacket dataSource v = WorkerPacket \<lparr>gp_data_source = dataSource,
     gp_event = \<lparr>gev_kind = GattValueChanged, gev_value = v, gev_message = []\<rparr>\<rparr>"

lemma workerTurn_value:
  "ac_ready s \<Longrightarrow> workerTurn now answers (valuePacket ds v) s =
     startNextRequest ((if ds then processDataSourceValue answers v
       else processNotificationSourceValue answers v) (s\<lparr>ac_picked := None\<rparr>))"
  by (simp add: workerTurn_def valuePacket_def workerProcess_def processItem_def processGattPacket_def)

definition notificationBytes :: "u8 \<Rightarrow> u8 \<Rightarrow> u8 \<Rightarrow> u8 \<Rightarrow> u32 \<Rightarrow> u8 list" where
  "notificationBytes k fl cat cnt uid = [k, fl, cat, cnt] @ le32 uid"

definition parsedNotification :: "u8 \<Rightarrow> u8 \<Rightarrow> u8 \<Rightarrow> u32 \<Rightarrow> notification_kind \<Rightarrow> ancs_notification" where
  "parsedNotification fl cat cnt uid kind = emptyNotification\<lparr>an_kind := kind, an_flags := fl,
     an_category := cat, an_category_count := cnt, an_uid := uid\<rparr>"

lemma parsedNotification_uid [simp]: "an_uid (parsedNotification fl cat cnt uid k) = uid"
    "an_kind (parsedNotification fl cat cnt uid k) = k"
  by (simp_all add: parsedNotification_def)

lemma parse_added [simp]:
  "parseAncsNotificationSource (notificationBytes 0 fl cat cnt uid) =
     Inr (parsedNotification fl cat cnt uid NAdded)"
  "parseAncsNotificationSource (notificationBytes 2 fl cat cnt uid) =
     Inr (parsedNotification fl cat cnt uid NRemoved)"
  unfolding notificationBytes_def parse_notification by (simp_all add: parsedNotification_def)

section \<open>From the event to the callback\<close>

text \<open>The session waits for the rest of a response of which it has the bytes \<open>p\<close>.\<close>

definition awaiting :: "u32 \<Rightarrow> ancs_notification \<Rightarrow> ancs_event list \<Rightarrow> u8 list \<Rightarrow> ancs \<Rightarrow> bool" where
  "awaiting uid n q p s \<longleftrightarrow> ac_ready s \<and> ac_pending_requests s = [] \<and> ac_event_queue s = q \<and>
     cfg_notification_date_cutoff (ac_config s) = None \<and>
     (case ac_active_request s of None \<Rightarrow> False
      | Some a \<Rightarrow> an_uid (ar_notification a) = uid \<and> \<not> ar_removed a \<and> received uid p (ar_reassembler a)) \<and>
     (case ac_records s uid of None \<Rightarrow> False
      | Some r \<Rightarrow> nr_notification r = n \<and> nr_added_not_reported r)"

lemma awaiting_step:
  assumes w: "awaiting uid n q p s" and send: "sendable vs"
    and split: "p @ f @ rest = encodeResponse uid vs" and f: "f \<noteq> []"
    and limit: "length (encodeResponse uid vs) \<le> 8192"
  shows "if rest = []
    then ac_active_request (workerTurn now answers (valuePacket True f) s) = None \<and>
      ac_event_queue (workerTurn now answers (valuePacket True f) s) =
        q @ [notificationEvent EvNotificationAdded (withAttributes (attributesOf vs) n)]
    else awaiting uid n q (p @ f) (workerTurn now answers (valuePacket True f) s)"
proof -
  obtain a r where a: "ac_active_request s = Some a" "an_uid (ar_notification a) = uid"
      "\<not> ar_removed a" "received uid p (ar_reassembler a)"
    and r: "ac_records s uid = Some r" "nr_notification r = n" "nr_added_not_reported r"
    and s: "ac_ready s" "ac_pending_requests s = []" "ac_event_queue s = q"
      "cfg_notification_date_cutoff (ac_config s) = None"
    using w by (auto simp: awaiting_def split: option.splits)
  obtain re res where run: "consume (ar_reassembler a) f = (re, res)"
    by (cases "consume (ar_reassembler a) f")
  note step = consume_step [OF send split limit f a(4)]
  note turn = workerTurn_value [OF s(1), of now answers True f]
  show ?thesis
  proof (cases "rest = []")
    case True
    then have "res = Inr (Some (attributesOf vs))" using step run by simp
    then show ?thesis
      using True a r s run unfolding turn
      by (simp add: processDataSourceValue_def Let_def deliverAttributes_def completeActiveRequest_def
          startNextRequest_def enqueueApplicationEvent_def)
  next
    case False
    then have "res = Inr None" "received uid (p @ f) re"
      using step [unfolded if_not_P [OF False]] run by simp_all
    then show ?thesis
      using False a r s run unfolding turn
      by (simp add: processDataSourceValue_def Let_def startNextRequest_def awaiting_def)
  qed
qed

definition dataTurns :: "int \<Rightarrow> stop_answers \<Rightarrow> u8 list list \<Rightarrow> ancs \<Rightarrow> ancs" where
  "dataTurns now answers fs s = foldl (\<lambda>t f. workerTurn now answers (valuePacket True f) t) s fs"

lemma awaiting_all:
  assumes "sendable vs" and "length (encodeResponse uid vs) \<le> 8192"
    and "[] \<notin> set fs" and "fs \<noteq> []" and "p @ concat fs = encodeResponse uid vs"
    and "awaiting uid n q p s"
  shows "ac_active_request (dataTurns now answers fs s) = None \<and>
    ac_event_queue (dataTurns now answers fs s) =
      q @ [notificationEvent EvNotificationAdded (withAttributes (attributesOf vs) n)]"
  using assms(3-6)
proof (induction fs arbitrary: p s)
  case (Cons f fs)
  have f: "f \<noteq> []" using Cons.prems(1) by auto
  have split: "p @ f @ concat fs = encodeResponse uid vs" using Cons.prems(3) by simp
  note step = awaiting_step [OF Cons.prems(4) assms(1) split f assms(2), of now answers]
  show ?case
  proof (cases fs)
    case Nil
    then show ?thesis using step by (simp add: dataTurns_def)
  next
    case (Cons g gs)
    then have ne: "concat fs \<noteq> []" using Cons.prems(1) by auto
    have "awaiting uid n q (p @ f) (workerTurn now answers (valuePacket True f) s)"
      using step [unfolded if_not_P [OF ne]] .
    moreover have "(p @ f) @ concat fs = encodeResponse uid vs" using split by simp
    ultimately show ?thesis
      using Cons.IH [of "p @ f"] Cons Cons.prems(1) by (simp add: dataTurns_def)
  qed
qed simp

lemma queueRequest_empty:
  "ac_pending_requests s = [] \<Longrightarrow>
     queueRequest uid s = (pushPending uid (s\<lparr>ac_backlog_limit_reported := False\<rparr>), False)"
  by (auto simp: queueRequest_def Let_def)

lemma added_requests:
  assumes "ac_ready s" and "ac_pending_requests s = []" and "ac_queued_uids s = {}"
    and "ac_active_request s = None"
    and "\<not> ac_control_point_shutdown s" and "ac_records s uid = None"
    and "cfg_notification_date_cutoff (ac_config s) = None"
  shows "let s1 = workerTurn now answers (valuePacket False (notificationBytes 0 fl cat cnt uid)) s
    in awaiting uid (parsedNotification fl cat cnt uid NAdded) (ac_event_queue s) [] s1 \<and>
       ac_control_point_jobs s1 = ac_control_point_jobs s @
         [\<lparr>cj_uid = uid, cj_device_id = ac_device_id s, cj_characteristic_id = ac_control_point_id s,
           cj_value = makeAttributeRequest uid,
           cj_timeout = cfg_gatt_operation_timeout (ac_config s)\<rparr>]"
  using assms
  by (simp add: workerTurn_value processNotificationSourceValue_def processAddedOrUpdated_def Let_def
      updateRecord_def emptyRecord_def activeUid_def queueRequest_empty pushPending_def startNextRequest_def
      newActiveRequest_def newReassembler_def awaiting_def received_def parsedNotification_def
      emptyNotification_def)


text \<open>A ready session without notifications, for the concrete instances.\<close>

definition quietSession :: ancs where
  "quietSession = newClient\<lparr>ac_handler := True, ac_state := AsReady, ac_ready := True,
     ac_accept_gatt_events := True, ac_device_id := ''dev'', ac_control_point_id := ''cp'',
     ac_data_source_subscription := True, ac_notification_source_subscription := True,
     ac_worker_started := True, ac_control_point_worker_started := True\<rparr>"

lemma quietSession_ok: "session_ok quietSession"
  by (simp add: quietSession_def newClient_def session_defs)

lemma sample_response:
  "sendable [[65], [], [], [], []]"
  "encodeResponse 7 [[65], [], [], [], []] = [0, 7, 0, 0, 0, 0, 1, 0, 65, 1, 0, 0, 2, 0, 0, 3, 0, 0, 5, 0, 0]"
  unfolding sendable_def isValidUtf8_iff [symmetric] by code_simp+


section \<open>The deadline of a request\<close>

text \<open>
  An unanswered request ends the session exactly at its deadline.  When the worker wakes with
  nothing to do, nothing changes as long as the write of the active request is pending or its
  deadline lies ahead; from the deadline on the application is told that the attributes are
  unavailable, with the notification if it still exists, then the session error and the Failed
  state, and nothing is left of the session.
\<close>

theorem request_deadline:
  assumes "session_ok s" and "ac_active_request s = Some a"
  shows "let s' = processItem now handlerThrows answers WorkerNothing s in
    if (case ar_deadline a of None \<Rightarrow> False | Some d \<Rightarrow> d \<le> now)
    then ac_state s' = AsFailed \<and> cleared s' \<and> \<not> ac_accept_gatt_events s' \<and>
      (\<exists>e n. ac_event_queue s' = ac_event_queue s @
         [\<lparr>ev_kind = EvAttributesUnavailable, ev_state = None, ev_notification = n,
            ev_error = Some timeoutError\<rparr>, errorEvent e, stateEvent AsFailed] \<and>
         n = map_option nr_notification (ac_records s (an_uid (ar_notification a))))
    else s' = s"
proof -
  have r: "ac_ready s" "ac_state s = AsReady" using assms by (auto simp: session_defs split: if_splits)
  have w: "ar_write_pending a = (ar_deadline a = None)" using assms by (simp add: session_defs)
  have fail: "ac_state (failRuntime answers timeoutError t) = AsFailed \<and>
      cleared (failRuntime answers timeoutError t) \<and>
      \<not> ac_accept_gatt_events (failRuntime answers timeoutError t) \<and>
      (\<exists>e. ac_event_queue (failRuntime answers timeoutError t) =
         ac_event_queue t @ [errorEvent e, stateEvent AsFailed])" if "ac_state t = AsReady" for t
    using that failRuntime_cases [of answers timeoutError t]
    by (auto simp: failRuntime_def Let_def split_beta enqueueApplicationEvent_def stopSubscriptions_fst
        clearSessionData_def cleared_def)
  show ?thesis
  proof (cases "case ar_deadline a of None \<Rightarrow> False | Some d \<Rightarrow> d \<le> now")
    case True
    then have passed: "deadlinePassed now a" by (simp add: deadlinePassed_def)
    define t where "t = emitAttributesUnavailable (an_uid (ar_notification a)) timeoutError
        (s\<lparr>ac_records := (case ac_records s (an_uid (ar_notification a)) of
              None \<Rightarrow> ac_records s
            | Some r \<Rightarrow> (ac_records s)(an_uid (ar_notification a) \<mapsto> r\<lparr>nr_unavailable := True\<rparr>)),
          ac_active_request := None\<rparr>)"
    have t: "ac_state t = AsReady"
        "ac_event_queue t = ac_event_queue s @ [\<lparr>ev_kind = EvAttributesUnavailable, ev_state = None,
           ev_notification = map_option nr_notification (ac_records s (an_uid (ar_notification a))),
           ev_error = Some timeoutError\<rparr>]"
      using r by (auto simp: t_def emitAttributesUnavailable_def enqueueApplicationEvent_def split: option.split)
    have "processItem now handlerThrows answers WorkerNothing s = failRuntime answers timeoutError t"
      using assms passed w True
      by (auto simp: processItem_def requestTimedOut_def failTimedOutRequest_def t_def Let_def split: option.splits)
    then show ?thesis using True fail [OF t(1)] t(2) by (simp add: Let_def)
  next
    case False
    then have "\<not> deadlinePassed now a" by (simp add: deadlinePassed_def)
    then show ?thesis
      using False assms by (simp add: processItem_def requestTimedOut_def)
  qed
qed

text \<open>A session with one acknowledged request for the notification 7.\<close>

definition waitingSession :: ancs where
  "waitingSession = quietSession\<lparr>
     ac_records := (\<lambda>_. None)(7 \<mapsto> emptyRecord\<lparr>nr_notification := parsedNotification 1 2 3 7 NAdded\<rparr>),
     ac_active_request := Some ((newActiveRequest (parsedNotification 1 2 3 7 NAdded))
       \<lparr>ar_write_pending := False, ar_deadline := Some 10\<rparr>)\<rparr>"

lemma waitingSession_ok: "session_ok waitingSession"
  by (simp add: waitingSession_def quietSession_def newClient_def session_defs newActiveRequest_def
      newReassembler_def reassembler_ok_def emptyRecord_def)

theorem request_deadline_witness:
  "processItem 9 False (None, None) WorkerNothing waitingSession = waitingSession \<and>
   ac_state (processItem 10 False (None, None) WorkerNothing waitingSession) = AsFailed"
proof -
  have a: "ac_active_request waitingSession = Some ((newActiveRequest (parsedNotification 1 2 3 7 NAdded))
      \<lparr>ar_write_pending := False, ar_deadline := Some 10\<rparr>)"
    by (simp add: waitingSession_def)
  show ?thesis
    using request_deadline [OF waitingSession_ok a, of 9 False "(None, None)"]
      request_deadline [OF waitingSession_ok a, of 10 False "(None, None)"]
    by (simp add: Let_def)
qed

section \<open>Flows that end badly\<close>

text \<open>
  A notification that is removed and added again while its attributes are requested is lost.
  The response to the outstanding request is dropped because of the removal, and the second Added
  event was not queued because a request for the identifier was active: the session ends up idle,
  with a record that was never reported, no request for it, and no event but the removal.
\<close>

theorem readded_notification_lost:
  assumes "session_ok s" and "ac_ready s" and "ac_pending_requests s = []"
    and "ac_active_request s = Some a" and "an_uid (ar_notification a) = uid"
    and "cfg_notification_date_cutoff (ac_config s) = None"
    and "snd (consume (ar_reassembler a) v) = Inr (Some attributes)"
  shows "let s1 = workerTurn now answers (valuePacket False (notificationBytes 2 fl cat cnt uid)) s;
             s2 = workerTurn now answers (valuePacket False (notificationBytes 0 fl cat cnt uid)) s1;
             s3 = workerTurn now answers (valuePacket True v) s2
    in ac_ready s3 \<and> ac_active_request s3 = None \<and> ac_pending_requests s3 = [] \<and>
       ac_control_point_jobs s3 = ac_control_point_jobs s \<and>
       map_option nr_added_not_reported (ac_records s3 uid) = Some True \<and>
       ac_event_queue s3 = ac_event_queue s @
         [notificationEvent EvNotificationRemoved (parsedNotification fl cat cnt uid NRemoved)]"
proof -
  let ?s1 = "workerTurn now answers (valuePacket False (notificationBytes 2 fl cat cnt uid)) s"
  let ?s2 = "workerTurn now answers (valuePacket False (notificationBytes 0 fl cat cnt uid)) ?s1"
  have q: "ac_queued_uids s = {}" using assms(1,3) by (auto simp: session_defs)
  have 1: "ac_ready ?s1" "ac_pending_requests ?s1 = []" "ac_queued_uids ?s1 = {}"
      "ac_active_request ?s1 = Some (a\<lparr>ar_removed := True\<rparr>)" "ac_records ?s1 uid = None"
      "ac_control_point_jobs ?s1 = ac_control_point_jobs s"
      "ac_event_queue ?s1 = ac_event_queue s @
         [notificationEvent EvNotificationRemoved (parsedNotification fl cat cnt uid NRemoved)]"
    using assms q
    by (simp_all add: workerTurn_value processNotificationSourceValue_def processRemoved_def Let_def
        startNextRequest_def enqueueApplicationEvent_def)
  have 2: "ac_ready ?s2" "ac_pending_requests ?s2 = []"
      "ac_active_request ?s2 = Some (a\<lparr>ar_removed := True\<rparr>)"
      "map_option nr_added_not_reported (ac_records ?s2 uid) = Some True"
      "ac_control_point_jobs ?s2 = ac_control_point_jobs s" "ac_event_queue ?s2 = ac_event_queue ?s1"
    using 1 assms(5)
    by (simp_all add: workerTurn_value [OF 1(1)] processNotificationSourceValue_def
        processAddedOrUpdated_def Let_def updateRecord_def emptyRecord_def activeUid_def
        startNextRequest_def)
  obtain r' where run: "consume (ar_reassembler a) v = (r', Inr (Some attributes))"
    using assms(7) by (cases "consume (ar_reassembler a) v") auto
  show ?thesis
    using 1(7) 2 run unfolding Let_def workerTurn_value [OF 2(1)]
    by (simp add: processDataSourceValue_def Let_def completeActiveRequest_def startNextRequest_def)
qed

theorem readded_notification_lost_witness:
  "ac_active_request (workerTurn 0 (None, None)
      (valuePacket True [0, 7, 0, 0, 0, 0, 1, 0, 65, 1, 0, 0, 2, 0, 0, 3, 0, 0, 5, 0, 0])
      (workerTurn 0 (None, None) (valuePacket False (notificationBytes 0 1 2 3 7))
        (workerTurn 0 (None, None) (valuePacket False (notificationBytes 2 1 2 3 7))
          waitingSession))) = None"
proof -
  let ?a = "(newActiveRequest (parsedNotification 1 2 3 7 NAdded))
      \<lparr>ar_write_pending := False, ar_deadline := Some 10\<rparr>"
  have s: "ac_ready waitingSession" "ac_pending_requests waitingSession = []"
      "ac_active_request waitingSession = Some ?a" "an_uid (ar_notification ?a) = 7"
      "cfg_notification_date_cutoff (ac_config waitingSession) = None"
    by (simp_all add: waitingSession_def quietSession_def newClient_def defaultConfig_def newActiveRequest_def)
  have "snd (consume (newReassembler 7) [0, 7, 0, 0, 0, 0, 1, 0, 65, 1, 0, 0, 2, 0, 0, 3, 0, 0, 5, 0, 0]) =
      Inr (Some (attributesOf [[65], [], [], [], []]))"
    by code_simp
  then have c: "snd (consume (ar_reassembler ?a) [0, 7, 0, 0, 0, 0, 1, 0, 65, 1, 0, 0, 2, 0, 0, 3, 0, 0, 5, 0, 0]) =
      Inr (Some (attributesOf [[65], [], [], [], []]))"
    by (simp add: newActiveRequest_def)
  show ?thesis
    using readded_notification_lost [OF waitingSession_ok s c, of 0 "(None, None)" 1 2 3]
    by (simp add: Let_def)
qed

text \<open>
  A handler that throws while \<open>start\<close> runs leaves a dead session that looks ready.  The
  exception fails the session and forgets the device, but \<open>start\<close> does not notice, reports
  success and sets the state Ready; backend events are refused from then on, so no notification
  can ever be reported, and no error is.
\<close>

theorem dead_ready_session:
  "\<exists>s0 s. reachable ancs_init ancs_step s0 \<and>
     startNotificationSubscribed None (None, None) s0 = (s, Some (Inr ())) \<and>
     ac_state s = AsReady \<and> ac_ready s \<and> ac_notification_source_subscription s \<and>
     ac_device_id s = [] \<and> (\<forall>dataSource event. enqueueGattEvent dataSource event s = s)"
proof -
  let ?n = "(None, None) :: stop_answers"
  let ?ns = "\<lparr>gc_id = ''n'', gc_uuid = kNotificationSourceUuid, gc_flags = [''notify'']\<rparr>"
  let ?cp = "\<lparr>gc_id = ''c'', gc_uuid = kControlPointUuid, gc_flags = [''write'']\<rparr>"
  let ?ds = "\<lparr>gc_id = ''d'', gc_uuid = kDataSourceUuid, gc_flags = [''notify'']\<rparr>"
  let ?services = "Inr [\<lparr>gs_id = ''s'', gs_uuid = kAncsServiceUuid, gs_primary = True,
      gs_characteristics = [?ns, ?cp, ?ds]\<rparr>] :: gatt_error + gatt_service list"
  define s1 where "s1 = fst (setEventHandler True newClient)"
  define s2 where "s2 = fst (startBegin (\<lambda>_. None) ''dev'' defaultConfig True True ?n s1)"
  define s3 where "s3 = workerPick s2"
  define s4 where "s4 = workerProcess 0 True ?n s3"
  define s5 where "s5 = fst (startResolved None ?n ''dev'' s4)"
  define s6 where "s6 = fst (startDiscovered ?services ?n ''dev'' s5)"
  define s7 where "s7 = fst (startDataSubscribed None ?n ''dev'' s6)"
  have e1: "s1 = newClient\<lparr>ac_handler := True\<rparr>" by (simp add: s1_def setEventHandler_def newClient_def)
  have e2: "ac_api s2 = ApiResolving ''dev''" "ac_worker_started s2" "ac_picked s2 = None" "ac_handler s2"
      "ac_event_queue s2 = [stateEvent AsStarting, stateEvent AsResolvingServices]" "\<not> ac_shutdown s2"
      "ac_state s2 = AsResolvingServices" "\<not> ac_cancel_requested s2" "\<not> ac_data_source_subscription s2"
      "\<not> ac_notification_source_subscription s2"
    by (simp_all add: s2_def e1 startBegin_def newClient_def defaultConfig_def validConfig_def Let_def setState_def)
  have e3: "s3 = s2\<lparr>ac_event_queue := [stateEvent AsResolvingServices],
      ac_picked := Some (WorkerEvent (stateEvent AsStarting))\<rparr>"
    by (simp add: s3_def workerPick_def e2(5))
  have e4: "ac_api s4 = ApiResolving ''dev''" "\<not> ac_cancel_requested s4" "\<not> ac_accept_gatt_events s4"
      "ac_device_id s4 = []"
    using e2 by (simp_all add: s4_def e3 workerProcess_def processItem_def dispatch_def Let_def failRuntime_def
        split_beta stopSubscriptions_fst enqueueApplicationEvent_def clearSessionData_def startNextRequest_def)
  have e5: "ac_api s5 = ApiDiscovering ''dev''" "\<not> ac_cancel_requested s5" "\<not> ac_accept_gatt_events s5"
      "ac_device_id s5 = []"
    using e4 by (simp_all add: s5_def startResolved_def setState_def)
  have found: "scanServices [\<lparr>gs_id = ''s'', gs_uuid = kAncsServiceUuid, gs_primary = True,
      gs_characteristics = [?ns, ?cp, ?ds]\<rparr>] = \<lparr>fc_service = True, fc_notification_source = Some ?ns,
      fc_control_point = Some ?cp, fc_data_source = Some ?ds\<rparr>" by code_simp
  have e6: "ac_api s6 = ApiSubscribingData ''dev'' ?ns" "\<not> ac_cancel_requested s6"
      "\<not> ac_accept_gatt_events s6" "ac_device_id s6 = []"
    using e5 by (simp_all add: s6_def startDiscovered_def found hasFlag_def Let_def setState_def)
  have e7: "ac_api s7 = ApiSubscribingNotification ''dev''" "\<not> ac_cancel_requested s7"
      "\<not> ac_accept_gatt_events s7" "ac_device_id s7 = []"
    using e6 by (simp_all add: s7_def startDataSubscribed_def Let_def setState_def)
  have "reachable ancs_init ancs_step newClient" by (rule reach_init) (simp add: ancs_init_def)
  then have "reachable ancs_init ancs_step s1"
    unfolding s1_def by (rule reach_step) (rule ancs_handler, simp add: newClient_def)
  then have "reachable ancs_init ancs_step s2"
    unfolding s2_def by (rule reach_step) (rule ancs_start, simp add: e1 newClient_def)
  then have "reachable ancs_init ancs_step s3"
    unfolding s3_def by (rule reach_step) (rule ancs_pick, simp_all add: e2 workerWakes_def workerEnds_def)
  then have "reachable ancs_init ancs_step s4"
    unfolding s4_def by (rule reach_step) (rule ancs_process)
  then have "reachable ancs_init ancs_step s5"
    unfolding s5_def by (rule reach_step) (rule ancs_resolved, rule e4)
  then have "reachable ancs_init ancs_step s6"
    unfolding s6_def by (rule reach_step) (rule ancs_discovered, rule e5)
  then have "reachable ancs_init ancs_step s7"
    unfolding s7_def by (rule reach_step) (rule ancs_data_subscribed, rule e6)
  then show ?thesis
    using e7 by (intro exI [of _ s7] exI [of _ "fst (startNotificationSubscribed None ?n s7)"])
      (simp add: startNotificationSubscribed_def enqueueGattEvent_def Let_def)
qed

end
