(* ===== verification/Json.thy ===== *)
theory Json
  imports Utf8
begin

text \<open>
  The JSON values of the frontend protocol (\<open>src/app/engine/dmn-json.cpp\<close>): the serializer, the
  recursive-descent parser and the accessors.  A \<open>std::string\<close> is its list of bytes, and the
  parser's position is the rest of the text.  A double is a value of the parameter type \<open>'d\<close>;
  what the code asks of the C library about doubles is the record \<open>number_library\<close>.
\<close>

unbundle bit_operations_syntax

section \<open>Values\<close>

datatype 'd json =
    JNull
  | JBool bool
  | JNumber 'd
  | JString "u8 list"
  | JArray "'d json list"
  | JObject "(u8 list \<times> 'd json) list"

text \<open>
  The library: \<open>isfinite\<close>; whether a value is its own floor and below 9.0e15 in magnitude; the
  texts of \<open>%lld\<close> for the converted value and of \<open>%.17g\<close>; and \<open>strtod\<close>, with the number of
  characters it consumes.
\<close>

record 'd number_library =
  nl_isfinite :: "'d \<Rightarrow> bool"
  nl_small_integer :: "'d \<Rightarrow> bool"
  nl_print_integer :: "'d \<Rightarrow> u8 list"
  nl_print_real :: "'d \<Rightarrow> u8 list"
  nl_strtod :: "u8 list \<Rightarrow> 'd \<times> nat"

definition ascii :: "string \<Rightarrow> u8 list" where
  "ascii s = map (\<lambda>c. of_nat (of_char c)) s"

abbreviation (input) kMaximumDepth :: nat where "kMaximumDepth \<equiv> 32"

definition kReplacement :: "u8 list" where
  "kReplacement = [0xEF, 0xBF, 0xBD]"

section \<open>UTF-8\<close>

definition appendUtf8 :: "u32 \<Rightarrow> u8 list" where
  "appendUtf8 codePoint =
     (if codePoint < 0x80 then [ucast codePoint]
      else if codePoint < 0x800 then
        [ucast (0xC0 OR drop_bit 6 codePoint), ucast (0x80 OR (codePoint AND 0x3F))]
      else if codePoint < 0x10000 then
        [ucast (0xE0 OR drop_bit 12 codePoint), ucast (0x80 OR (drop_bit 6 codePoint AND 0x3F)),
         ucast (0x80 OR (codePoint AND 0x3F))]
      else
        [ucast (0xF0 OR drop_bit 18 codePoint), ucast (0x80 OR (drop_bit 12 codePoint AND 0x3F)),
         ucast (0x80 OR (drop_bit 6 codePoint AND 0x3F)), ucast (0x80 OR (codePoint AND 0x3F))])"

definition utf8SequenceLength :: "u8 list \<Rightarrow> nat" where
  "utf8SequenceLength text = (case text of
     [] \<Rightarrow> 0
   | lead # rest \<Rightarrow>
       if lead < 0x80 then 1
       else
         let front = (if lead \<ge> 0xC2 \<and> lead \<le> 0xDF then Some (2, 0x80, ucast lead AND 0x1F)
                      else if lead \<ge> 0xE0 \<and> lead \<le> 0xEF then Some (3, 0x800, ucast lead AND 0x0F)
                      else if lead \<ge> 0xF0 \<and> lead \<le> 0xF4 then Some (4, 0x10000, ucast lead AND 0x07)
                      else None :: (nat \<times> u32 \<times> u32) option)
         in case front of
              None \<Rightarrow> 0
            | Some (len, minimum, initial) \<Rightarrow>
                if len > length text then 0
                else case continuationBits initial (take (len - 1) rest) of
                       None \<Rightarrow> 0
                     | Some codePoint \<Rightarrow>
                         if codePoint < minimum \<or> codePoint > 0x10FFFF \<or>
                            codePoint \<ge> 0xD800 \<and> codePoint \<le> 0xDFFF
                         then 0 else len)"

section \<open>The serializer\<close>

definition hexDigit :: "u8 \<Rightarrow> u8" where
  "hexDigit d = (if d < 10 then 0x30 + d else 0x61 + (d - 10))"

text \<open>\<open>snprintf\<close> of the byte with the format \<open>\u%04x\<close>.\<close>

definition escapeByte :: "u8 \<Rightarrow> u8 list" where
  "escapeByte b = [0x5C, 0x75, 0x30, 0x30, hexDigit (drop_bit 4 b), hexDigit (b AND 0x0F)]"

function escapeText :: "u8 list \<Rightarrow> u8 list" where
  "escapeText text =
     (case text of
        [] \<Rightarrow> []
      | byte # rest \<Rightarrow>
          if byte = 0x22 \<or> byte = 0x5C then 0x5C # byte # escapeText rest
          else if byte = 0x0A then 0x5C # 0x6E # escapeText rest
          else if byte = 0x0D then 0x5C # 0x72 # escapeText rest
          else if byte = 0x09 then 0x5C # 0x74 # escapeText rest
          else if byte < 0x20 \<or> byte = 0x7F then escapeByte byte @ escapeText rest
          else
            let len = utf8SequenceLength text
            in if len = 0 then kReplacement @ escapeText rest
               else take len text @ escapeText (drop len text))"
  by pat_completeness auto
termination by (relation "measure length") auto

declare escapeText.simps [simp del]

definition dumpString :: "u8 list \<Rightarrow> u8 list" where
  "dumpString text = [0x22] @ escapeText text @ [0x22]"

definition dumpNumber :: "'d number_library \<Rightarrow> 'd \<Rightarrow> u8 list" where
  "dumpNumber lib v =
     (if \<not> nl_isfinite lib v then ascii ''null''
      else if nl_small_integer lib v then nl_print_integer lib v
      else nl_print_real lib v)"

fun dump :: "'d number_library \<Rightarrow> 'd json \<Rightarrow> u8 list"
  and dumpItems :: "'d number_library \<Rightarrow> bool \<Rightarrow> 'd json list \<Rightarrow> u8 list"
  and dumpMembers :: "'d number_library \<Rightarrow> bool \<Rightarrow> (u8 list \<times> 'd json) list \<Rightarrow> u8 list" where
  "dump lib (JBool flag) = ascii (if flag then ''true'' else ''false'')"
| "dump lib (JNumber number) = dumpNumber lib number"
| "dump lib (JString text) = dumpString text"
| "dump lib (JArray items) = [0x5B] @ dumpItems lib True items @ [0x5D]"
| "dump lib (JObject members) = [0x7B] @ dumpMembers lib True members @ [0x7D]"
| "dump lib JNull = ascii ''null''"
| "dumpItems lib first [] = []"
| "dumpItems lib first (item # items) =
     (if first then [] else [0x2C]) @ dump lib item @ dumpItems lib False items"
| "dumpMembers lib first [] = []"
| "dumpMembers lib first ((key, member) # members) =
     (if first then [] else [0x2C]) @ dumpString key @ [0x3A] @ dump lib member @
     dumpMembers lib False members"

section \<open>The parser\<close>

definition isSpace :: "u8 \<Rightarrow> bool" where
  "isSpace b \<longleftrightarrow> b = 0x20 \<or> b = 0x09 \<or> b = 0x0A \<or> b = 0x0D"

definition skipSpace :: "u8 list \<Rightarrow> u8 list" where
  "skipSpace text = dropWhile isSpace text"

text \<open>Whether the expected character is next, and the text behind it or behind the white space.\<close>

definition consumeChar :: "u8 \<Rightarrow> u8 list \<Rightarrow> bool \<times> u8 list" where
  "consumeChar expected text =
     (case skipSpace text of
        [] \<Rightarrow> (False, [])
      | b # rest \<Rightarrow> if b = expected then (True, rest) else (False, b # rest))"

definition literal :: "u8 list \<Rightarrow> u8 list \<Rightarrow> u8 list option" where
  "literal word text = (if take (length word) text = word then Some (drop (length word) text) else None)"

definition isDigit :: "u8 \<Rightarrow> bool" where
  "isDigit b \<longleftrightarrow> 0x30 \<le> b \<and> b \<le> 0x39"

definition isNumberByte :: "u8 \<Rightarrow> bool" where
  "isNumberByte b \<longleftrightarrow> isDigit b \<or> b = 0x2E \<or> b = 0x65 \<or> b = 0x45 \<or> b = 0x2B \<or> b = 0x2D"

text \<open>The optional sign first in the code is itself a byte that the loop accepts.\<close>

definition numberToken :: "u8 list \<Rightarrow> u8 list \<times> u8 list" where
  "numberToken text =
     (let (sign, rest) = (case text of b # bs \<Rightarrow> if b = 0x2D then ([b], bs) else ([], text) | [] \<Rightarrow> ([], []))
      in (sign @ takeWhile isNumberByte rest, dropWhile isNumberByte rest))"

definition parseNumber :: "'d number_library \<Rightarrow> u8 list \<Rightarrow> ('d json \<times> u8 list) option" where
  "parseNumber lib text =
     (let (token, rest) = numberToken text
      in if token = [] then None
         else let (v, used) = nl_strtod lib token
              in if used \<noteq> length token \<or> \<not> nl_isfinite lib v then None
                 else Some (JNumber v, rest))"

definition hexValue :: "u8 \<Rightarrow> u32 option" where
  "hexValue digit =
     (if digit \<ge> 0x30 \<and> digit \<le> 0x39 then Some (ucast (digit - 0x30))
      else if digit \<ge> 0x61 \<and> digit \<le> 0x66 then Some (ucast (digit - 0x61 + 10))
      else if digit \<ge> 0x41 \<and> digit \<le> 0x46 then Some (ucast (digit - 0x41 + 10))
      else None)"

fun hexLoop :: "nat \<Rightarrow> u32 \<Rightarrow> u8 list \<Rightarrow> (u32 \<times> u8 list) option" where
  "hexLoop 0 v text = Some (v, text)"
| "hexLoop (Suc n) v [] = None"
| "hexLoop (Suc n) v (digit # text) =
     (case hexValue digit of
        None \<Rightarrow> None
      | Some d \<Rightarrow> hexLoop n (push_bit 4 v OR d) text)"

definition parseHex4 :: "u8 list \<Rightarrow> (u32 \<times> u8 list) option" where
  "parseHex4 text = (if 4 > length text then None else hexLoop 4 0 text)"

text \<open>The code point of an escape behind \<open>\u\<close>: one unit, or a surrogate pair.\<close>

definition parseUnicodeEscape :: "u8 list \<Rightarrow> (u32 \<times> u8 list) option" where
  "parseUnicodeEscape text =
     (case parseHex4 text of
        None \<Rightarrow> None
      | Some (high, rest) \<Rightarrow>
          if high \<ge> 0xD800 \<and> high \<le> 0xDBFF then
            (case literal [0x5C, 0x75] rest of
               None \<Rightarrow> None
             | Some rest' \<Rightarrow>
                 (case parseHex4 rest' of
                    None \<Rightarrow> None
                  | Some (low, rest'') \<Rightarrow>
                      if low < 0xDC00 \<or> low > 0xDFFF then None
                      else Some (0x10000 + push_bit 10 (high - 0xD800) + (low - 0xDC00), rest'')))
          else if high \<ge> 0xDC00 \<and> high \<le> 0xDFFF then None
          else Some (high, rest))"

lemma hexLoop_length: "hexLoop n v text = Some (w, rest) \<Longrightarrow> length text = n + length rest"
  by (induction n v "text" rule: hexLoop.induct) (auto split: option.splits)

lemma parseUnicodeEscape_length:
  "parseUnicodeEscape text = Some (c, rest) \<Longrightarrow> length rest < length text"
  by (auto simp: parseUnicodeEscape_def parseHex4_def literal_def split: option.splits if_splits
      dest!: hexLoop_length)

text \<open>
  One turn of the loop of \<open>parseString\<close>: the closing quote, a rejection, or bytes for the result
  and the text behind them.
\<close>

datatype string_turn = StringEnd "u8 list" | StringError | StringMore "u8 list" "u8 list"

definition escapeTurn :: "u8 list \<Rightarrow> string_turn" where
  "escapeTurn text =
     (case text of
        [] \<Rightarrow> StringError
      | escape # behind \<Rightarrow>
          if escape = 0x22 \<or> escape = 0x5C \<or> escape = 0x2F then StringMore [escape] behind
          else if escape = 0x62 then StringMore [0x08] behind
          else if escape = 0x66 then StringMore [0x0C] behind
          else if escape = 0x6E then StringMore [0x0A] behind
          else if escape = 0x72 then StringMore [0x0D] behind
          else if escape = 0x74 then StringMore [0x09] behind
          else if escape = 0x75 then
            (case parseUnicodeEscape behind of
               None \<Rightarrow> StringError
             | Some (codePoint, further) \<Rightarrow> StringMore (appendUtf8 codePoint) further)
          else StringError)"

definition stringTurn :: "u8 list \<Rightarrow> string_turn" where
  "stringTurn text =
     (case text of
        [] \<Rightarrow> StringError
      | byte # rest \<Rightarrow>
          if byte = 0x22 then StringEnd rest
          else if byte < 0x20 then StringError
          else if byte \<noteq> 0x5C then
            let len = utf8SequenceLength text
            in if len = 0 then StringError else StringMore (take len text) (drop len text)
          else escapeTurn rest)"

lemma stringTurn_more_length: "stringTurn text = StringMore piece rest \<Longrightarrow> length rest < length text"
  by (auto simp: stringTurn_def escapeTurn_def Let_def split: list.splits if_splits option.splits
      dest!: parseUnicodeEscape_length)

text \<open>The loop behind the opening quote.\<close>

function stringLoop :: "u8 list \<Rightarrow> u8 list \<Rightarrow> (u8 list \<times> u8 list) option" where
  "stringLoop out text =
     (case stringTurn text of
        StringEnd rest \<Rightarrow> Some (out, rest)
      | StringError \<Rightarrow> None
      | StringMore piece rest \<Rightarrow> stringLoop (out @ piece) rest)"
  by pat_completeness auto
termination
  by (relation "measure (\<lambda>(out, text). length text)") (auto dest: stringTurn_more_length)

declare stringLoop.simps [simp del]

definition parseString :: "u8 list \<Rightarrow> (u8 list \<times> u8 list) option" where
  "parseString text =
     (case consumeChar 0x22 text of
        (False, _) \<Rightarrow> None
      | (True, rest) \<Rightarrow> stringLoop [] rest)"

text \<open>The cases of \<open>parseValue\<close> without recursion: a string, a literal or a number.\<close>

definition parseScalar :: "'d number_library \<Rightarrow> u8 list \<Rightarrow> ('d json \<times> u8 list) option" where
  "parseScalar lib text =
     (if text \<noteq> [] \<and> hd text = 0x22 then
        (case parseString text of
           None \<Rightarrow> None
         | Some (text', behind) \<Rightarrow> Some (JString text', behind))
      else
        (case literal (ascii ''true'') text of
           Some behind \<Rightarrow> Some (JBool True, behind)
         | None \<Rightarrow>
        (case literal (ascii ''false'') text of
           Some behind \<Rightarrow> Some (JBool False, behind)
         | None \<Rightarrow>
        (case literal (ascii ''null'') text of
           Some behind \<Rightarrow> Some (JNull, behind)
         | None \<Rightarrow> parseNumber lib text))))"

section \<open>Members and items\<close>

fun setMember :: "u8 list \<Rightarrow> 'd json \<Rightarrow> (u8 list \<times> 'd json) list \<Rightarrow> (u8 list \<times> 'd json) list" where
  "setMember key v [] = [(key, v)]"
| "setMember key v ((k, w) # members) =
     (if k = key then (k, v) # members else (k, w) # setMember key v members)"

definition setValue :: "u8 list \<Rightarrow> 'd json \<Rightarrow> 'd json \<Rightarrow> 'd json" where
  "setValue key v j = (case j of JObject members \<Rightarrow> JObject (setMember key v members) | _ \<Rightarrow> j)"

definition push :: "'d json \<Rightarrow> 'd json \<Rightarrow> 'd json" where
  "push v j = (case j of JArray items \<Rightarrow> JArray (items @ [v]) | _ \<Rightarrow> j)"

definition findMember :: "u8 list \<Rightarrow> 'd json \<Rightarrow> 'd json option" where
  "findMember key j = (case j of JObject members \<Rightarrow> map_of members key | _ \<Rightarrow> None)"

definition items :: "'d json \<Rightarrow> 'd json list" where
  "items j = (case j of JArray xs \<Rightarrow> xs | _ \<Rightarrow> [])"

definition stringOr :: "u8 list \<Rightarrow> 'd json \<Rightarrow> u8 list" where
  "stringOr fallback j = (case j of JString text \<Rightarrow> text | _ \<Rightarrow> fallback)"

definition boolOr :: "bool \<Rightarrow> 'd json \<Rightarrow> bool" where
  "boolOr fallback j = (case j of JBool flag \<Rightarrow> flag | _ \<Rightarrow> fallback)"

definition numberOr :: "'d \<Rightarrow> 'd json \<Rightarrow> 'd" where
  "numberOr fallback j = (case j of JNumber number \<Rightarrow> number | _ \<Rightarrow> fallback)"

definition getString :: "u8 list \<Rightarrow> u8 list \<Rightarrow> 'd json \<Rightarrow> u8 list" where
  "getString key fallback j =
     (case findMember key j of None \<Rightarrow> fallback | Some member \<Rightarrow> stringOr fallback member)"

definition getBool :: "u8 list \<Rightarrow> bool \<Rightarrow> 'd json \<Rightarrow> bool" where
  "getBool key fallback j =
     (case findMember key j of None \<Rightarrow> fallback | Some member \<Rightarrow> boolOr fallback member)"

definition getNumber :: "u8 list \<Rightarrow> 'd \<Rightarrow> 'd json \<Rightarrow> 'd" where
  "getNumber key fallback j =
     (case findMember key j of None \<Rightarrow> fallback | Some member \<Rightarrow> numberOr fallback member)"

section \<open>Recursive descent\<close>

text \<open>
  The recursion of the parser is bounded by fuel.  Running out of it is an outcome of its own,
  apart from the rejection of the text.
\<close>

datatype 'a outcome = OutOfFuel | Reject | Accept 'a "u8 list"

fun accept :: "('a \<times> u8 list) option \<Rightarrow> 'a outcome" where
  "accept None = Reject"
| "accept (Some (v, rest)) = Accept v rest"

fun parseValue :: "'d number_library \<Rightarrow> nat \<Rightarrow> nat \<Rightarrow> u8 list \<Rightarrow> 'd json outcome"
  and arrayLoop :: "'d number_library \<Rightarrow> nat \<Rightarrow> nat \<Rightarrow> 'd json list \<Rightarrow> u8 list \<Rightarrow> 'd json outcome"
  and objectLoop ::
    "'d number_library \<Rightarrow> nat \<Rightarrow> nat \<Rightarrow> (u8 list \<times> 'd json) list \<Rightarrow> u8 list \<Rightarrow> 'd json outcome" where
  "parseValue lib 0 depth text = OutOfFuel"
| "parseValue lib (Suc fuel) depth text =
     (if depth > kMaximumDepth then Reject
      else case skipSpace text of
        [] \<Rightarrow> Reject
      | current # rest \<Rightarrow>
          if current = 0x7B then
            (case consumeChar 0x7D rest of
               (True, behind) \<Rightarrow> Accept (JObject []) behind
             | (False, behind) \<Rightarrow> objectLoop lib fuel depth [] behind)
          else if current = 0x5B then
            (case consumeChar 0x5D rest of
               (True, behind) \<Rightarrow> Accept (JArray []) behind
             | (False, behind) \<Rightarrow> arrayLoop lib fuel depth [] behind)
          else accept (parseScalar lib (current # rest)))"
| "arrayLoop lib 0 depth array text = OutOfFuel"
| "arrayLoop lib (Suc fuel) depth array text =
     (case parseValue lib fuel (depth + 1) text of
        OutOfFuel \<Rightarrow> OutOfFuel
      | Reject \<Rightarrow> Reject
      | Accept item rest \<Rightarrow>
          (case consumeChar 0x2C rest of
             (True, behind) \<Rightarrow> arrayLoop lib fuel depth (array @ [item]) behind
           | (False, behind) \<Rightarrow>
               (case consumeChar 0x5D behind of
                  (True, further) \<Rightarrow> Accept (JArray (array @ [item])) further
                | (False, further) \<Rightarrow> Reject)))"
| "objectLoop lib 0 depth object text = OutOfFuel"
| "objectLoop lib (Suc fuel) depth object text =
     (case parseString (skipSpace text) of
        None \<Rightarrow> Reject
      | Some (key, rest) \<Rightarrow>
          (case consumeChar 0x3A rest of
             (False, _) \<Rightarrow> Reject
           | (True, behind) \<Rightarrow>
               (case parseValue lib fuel (depth + 1) behind of
                  OutOfFuel \<Rightarrow> OutOfFuel
                | Reject \<Rightarrow> Reject
                | Accept v further \<Rightarrow>
                    (case consumeChar 0x2C further of
                       (True, next') \<Rightarrow> objectLoop lib fuel depth (setMember key v object) next'
                     | (False, next') \<Rightarrow>
                         (case consumeChar 0x7D next' of
                            (True, last') \<Rightarrow> Accept (JObject (setMember key v object)) last'
                          | (False, last') \<Rightarrow> Reject)))))"

definition parseDocument :: "'d number_library \<Rightarrow> u8 list \<Rightarrow> 'd json outcome" where
  "parseDocument lib text =
     (case parseValue lib (2 * length text + 1) 0 text of
        OutOfFuel \<Rightarrow> OutOfFuel
      | Reject \<Rightarrow> Reject
      | Accept v rest \<Rightarrow> if skipSpace rest \<noteq> [] then Reject else Accept v [])"

definition parse :: "'d number_library \<Rightarrow> u8 list \<Rightarrow> 'd json option" where
  "parse lib text = (case parseDocument lib text of Accept v rest \<Rightarrow> Some v | _ \<Rightarrow> None)"

end
