(* ===== verification/JsonUtf8.thy ===== *)
theory JsonUtf8
  imports Json
begin

text \<open>
  The two UTF-8 routines of the JSON code: the scanner meets the contract of \<open>utf8_scanner\<close>, and
  the writer of code points is the encoding.
\<close>

unbundle bit_operations_syntax

lemma utf8SequenceLength_scanFront: "utf8SequenceLength (b # rest) = scanFront (b # rest)"
proof -
  have le: "b < 0x80 \<longleftrightarrow> unat b < 0x80" "0xC2 \<le> b \<longleftrightarrow> 0xC2 \<le> unat b" "b \<le> 0xDF \<longleftrightarrow> unat b \<le> 0xDF"
      "0xE0 \<le> b \<longleftrightarrow> 0xE0 \<le> unat b" "b \<le> 0xEF \<longleftrightarrow> unat b \<le> 0xEF"
      "0xF0 \<le> b \<longleftrightarrow> 0xF0 \<le> unat b" "b \<le> 0xF4 \<longleftrightarrow> unat b \<le> 0xF4"
    by (auto simp: word_le_nat_alt word_less_nat_alt)
  have m5: "unat b mod 32 < 32" "unat b mod 16 < 16" "unat b mod 8 < 8" by simp_all
  have two: "(unat (ucast b AND 0x1F :: u32) + 1) * 64 ^ 1 \<le> 2 ^ 32"
    unfolding unat_mask_5 using m5(1) by simp
  have three: "(unat (ucast b AND 0x0F :: u32) + 1) * 64 ^ 2 \<le> 2 ^ 32"
    unfolding unat_mask_4 using m5(2) by simp
  have four: "(unat (ucast b AND 0x07 :: u32) + 1) * 64 ^ 3 \<le> 2 ^ 32"
    unfolding unat_mask_3 using m5(3) by simp
  have reorder: "(if len > Suc (length rest) then 0 else case continuationBits cp (take (len - 1) rest) of
        None \<Rightarrow> 0 | Some codePoint \<Rightarrow> if codePoint < minimum \<or> codePoint > 0x10FFFF \<or>
           codePoint \<ge> 0xD800 \<and> codePoint \<le> 0xDFFF then 0 else len) = finishScan k m (unat cp) rest"
    if "(unat (cp :: u32) + 1) * 64 ^ k \<le> 2 ^ 32" "unat (minimum :: u32) = m" "len = Suc k" for cp k minimum m len
    unfolding finishScan_word [OF that(1,2), of rest, symmetric] that(3)
    by (auto split: option.split)
  have mins: "unat (0x80 :: u32) = 0x80" "unat (0x800 :: u32) = 0x800" "unat (0x10000 :: u32) = 0x10000"
    by simp_all
  have lens: "2 = Suc 1" "3 = Suc 2" "4 = Suc 3" by simp_all
  note f2 = reorder [OF two mins(1) lens(1), unfolded unat_mask_5]
    and f3 = reorder [OF three mins(2) lens(2), unfolded unat_mask_4]
    and f4 = reorder [OF four mins(3) lens(3), unfolded unat_mask_3]
  consider "unat b < 0x80" | "0xC2 \<le> unat b" "unat b \<le> 0xDF" | "0xE0 \<le> unat b" "unat b \<le> 0xEF"
    | "0xF0 \<le> unat b" "unat b \<le> 0xF4"
    | "0x80 \<le> unat b" "unat b < 0xC2 \<or> 0xF4 < unat b" by linarith
  then show ?thesis
  proof cases
    case 2
    then have "utf8SequenceLength (b # rest) = finishScan 1 0x80 (unat b mod 32) rest"
      unfolding f2 [symmetric] by (simp only: utf8SequenceLength_def list.case le Let_def) simp
    with 2 show ?thesis by (simp only: scanFront_def list.case) simp
  next
    case 3
    then have "utf8SequenceLength (b # rest) = finishScan 2 0x800 (unat b mod 16) rest"
      unfolding f3 [symmetric] by (simp only: utf8SequenceLength_def list.case le Let_def) simp
    with 3 show ?thesis by (simp only: scanFront_def list.case) simp
  next
    case 4
    then have "utf8SequenceLength (b # rest) = finishScan 3 0x10000 (unat b mod 8) rest"
      unfolding f4 [symmetric] by (simp only: utf8SequenceLength_def list.case le Let_def) simp
    with 4 show ?thesis by (simp only: scanFront_def list.case) simp
  qed (auto simp: utf8SequenceLength_def scanFront_def le)
qed

interpretation json_utf8: utf8_scanner utf8SequenceLength
  by (rule utf8_scannerI) (rule utf8SequenceLength_scanFront)

section \<open>Writing code points\<close>

lemma unat_or_low:
  assumes "take_bit n (b :: u32) = b" and "take_bit n a = 0"
  shows "unat (a OR b) = unat a + unat b"
proof -
  have "\<not> bit a i \<or> \<not> bit b i" for i
  proof (cases "i < n")
    case True
    then have "bit a i = bit (take_bit n a) i" by (simp add: bit_simps)
    then show ?thesis using assms(2) by simp
  next
    case False
    then have "\<not> bit (take_bit n b) i" by (simp add: bit_simps)
    then show ?thesis using assms(1) by simp
  qed
  then have "unat a OR unat b = unat a + unat b"
    by (intro disjunctive_add [symmetric]) (auto simp: bit_simps)
  then show ?thesis by (simp add: unsigned_or_eq)
qed

lemma unat_and_low: "unat ((x :: u32) AND 0x3F) = unat x mod 64"
proof -
  have "x AND 0x3F = take_bit 6 x" by (simp add: take_bit_eq_mask mask_eq_exp_minus_1)
  moreover have "unat (take_bit 6 x) = take_bit 6 (unat x)" by (rule unsigned_take_bit_eq)
  moreover have "take_bit 6 (unat x) = unat x mod 2 ^ 6" by (rule take_bit_eq_mod)
  ultimately show ?thesis by (simp only:) simp
qed

lemma unat_drop: "unat (drop_bit n (x :: u32)) = unat x div 2 ^ n"
  by (simp only: unat_drop_bit_eq) (rule drop_bit_eq_div)

lemma take_bit_small: "unat (b :: u32) < 2 ^ n \<Longrightarrow> take_bit n b = b"
  by (metis take_bit_nat_eq_self unsigned_take_bit_eq word_unat_eq_iff)

lemma ucast_of_nat: "ucast (x :: u32) = (of_nat (unat x) :: u8)"
  by simp

lemma lead_byte:
  assumes "unat x < 2 ^ n" and "take_bit n (h :: u32) = 0"
  shows "ucast (h OR x) = (of_nat (unat h + unat x) :: u8)"
  unfolding ucast_of_nat unat_or_low [OF take_bit_small [OF assms(1)] assms(2)] ..

lemma continuation_byte: "ucast (0x80 OR ((x :: u32) AND 0x3F)) = (of_nat (0x80 + unat x mod 64) :: u8)"
proof -
  have "unat (x AND 0x3F) < 2 ^ 6" by (simp add: unat_and_low)
  then have "ucast (0x80 OR (x AND 0x3F)) = (of_nat (unat (0x80 :: u32) + unat (x AND 0x3F)) :: u8)"
    by (rule lead_byte) simp
  then show ?thesis by (simp add: unat_and_low)
qed

lemma appendUtf8_encode:
  assumes "scalar (unat cp)"
  shows "appendUtf8 cp = utf8_encode (unat cp)"
proof -
  have c: "unat cp < 0x110000" using assms by (simp add: scalar_def)
  have lt: "cp < 0x80 \<longleftrightarrow> unat cp < 0x80" "cp < 0x800 \<longleftrightarrow> unat cp < 0x800" "cp < 0x10000 \<longleftrightarrow> unat cp < 0x10000"
    by (simp_all add: word_less_nat_alt)
  have two: "ucast (0xC0 OR drop_bit 6 cp) = (of_nat (0xC0 + unat cp div 64) :: u8)" if "unat cp < 0x800"
  proof -
    have "unat (drop_bit 6 cp) < 2 ^ 5" using that by (simp add: unat_drop)
    then show ?thesis using lead_byte [of "drop_bit 6 cp" 5 "0xC0"] by (simp add: unat_drop)
  qed
  have three: "ucast (0xE0 OR drop_bit 12 cp) = (of_nat (0xE0 + unat cp div 4096) :: u8)" if "unat cp < 0x10000"
  proof -
    have "unat (drop_bit 12 cp) < 2 ^ 4" using that by (simp add: unat_drop)
    then show ?thesis using lead_byte [of "drop_bit 12 cp" 4 "0xE0"] by (simp add: unat_drop)
  qed
  have four: "ucast (0xF0 OR drop_bit 18 cp) = (of_nat (0xF0 + unat cp div 262144) :: u8)"
  proof -
    have "unat (drop_bit 18 cp) < 2 ^ 3" using c by (simp add: unat_drop)
    then show ?thesis using lead_byte [of "drop_bit 18 cp" 3 "0xF0"] by (simp add: unat_drop)
  qed
  have d: "unat (drop_bit 6 cp) = unat cp div 64" "unat (drop_bit 12 cp) = unat cp div 4096"
    by (simp_all add: unat_drop)
  note forms = appendUtf8_def utf8_encode_def lt continuation_byte d
  consider "unat cp < 0x80" | "\<not> unat cp < 0x80" "unat cp < 0x800"
    | "\<not> unat cp < 0x80" "\<not> unat cp < 0x800" "unat cp < 0x10000"
    | "\<not> unat cp < 0x80" "\<not> unat cp < 0x800" "\<not> unat cp < 0x10000" by blast
  then show ?thesis
  proof cases
    case 1
    then show ?thesis by (simp only: forms if_True ucast_of_nat)
  next
    case 2
    then show ?thesis by (simp only: forms if_True if_False two)
  next
    case 3
    then show ?thesis by (simp only: forms if_True if_False three)
  next
    case 4
    then show ?thesis by (simp only: forms if_False four)
  qed
qed

end
