(* ===== verification/JsonRoundtrip.thy ===== *)
theory JsonRoundtrip
  imports JsonProps
begin

text \<open>Printing: its output is clean, and the parser reads it back.\<close>

unbundle bit_operations_syntax

section \<open>Strings\<close>

text \<open>How one ASCII character is written.\<close>

definition escapeUnit :: "u8 \<Rightarrow> u8 list" where
  "escapeUnit b =
     (if b = 0x22 \<or> b = 0x5C then [0x5C, b]
      else if b = 0x0A then [0x5C, 0x6E] else if b = 0x0D then [0x5C, 0x72]
      else if b = 0x09 then [0x5C, 0x74]
      else if b < 0x20 \<or> b = 0x7F then escapeByte b else [b])"

lemma sequence_ascii: "b < 0x80 \<Longrightarrow> utf8SequenceLength (b # rest) = 1"
  by (simp add: utf8SequenceLength_def)

lemma escapeText_Nil [simp]: "escapeText [] = []"
  by (subst escapeText.simps) simp

lemma escapeText_ascii: "b < 0x80 \<Longrightarrow> escapeText (b # rest) = escapeUnit b @ escapeText rest"
  by (subst escapeText.simps) (simp add: escapeUnit_def sequence_ascii Let_def)

lemma low_nibble: "(b :: u8) AND 0x0F = take_bit 4 b"
  by (simp add: take_bit_eq_mask mask_eq_exp_minus_1)

lemma hexDigit_small: "if (d :: u8) < 16 then hexValue (hexDigit d) = Some (ucast d) else True"
  by (rule u8_exhaust) code_simp

lemma nibbles_small: "drop_bit 4 (b :: u8) < 16" "b AND 0x0F < 16"
proof -
  have b: "unat b < 256" using unsigned_less [of b] by simp
  have "unat (drop_bit 4 b) = unat b div 2 ^ 4"
    by (simp only: unat_drop_bit_eq) (rule drop_bit_eq_div)
  then show "drop_bit 4 b < 16" using b by (simp add: word_less_nat_alt less_mult_imp_div_less)
  have "unat (take_bit 4 b) = take_bit 4 (unat b)" by (rule unsigned_take_bit_eq)
  moreover have "take_bit 4 (unat b) = unat b mod 2 ^ 4" by (rule take_bit_eq_mod)
  ultimately have "unat (take_bit 4 b) < 16" by (simp only:) simp
  then show "b AND 0x0F < 16" unfolding low_nibble by (simp only: word_less_nat_alt) simp
qed

lemma hexDigit_value:
  "hexValue (hexDigit (drop_bit 4 (b :: u8))) = Some (ucast (drop_bit 4 b))"
  "hexValue (hexDigit ((b :: u8) AND 0x0F)) = Some (ucast (b AND 0x0F))"
  using hexDigit_small [of "drop_bit 4 b"] hexDigit_small [of "b AND 0x0F"] nibbles_small [of b]
  by (simp_all only: if_True)

lemma nibbles_join: "push_bit 4 (ucast (drop_bit 4 (b :: u8)) :: u32) OR ucast (b AND 0x0F) = ucast b"
  unfolding low_nibble by (rule bit_word_eqI) (auto simp: bit_simps)

lemma byte_cast: "ucast (ucast (b :: u8) :: u32) = b"
  by (rule bit_word_eqI) (auto simp: bit_simps)

lemma hexLoop_four:
  assumes "hexValue a = Some 0" and "hexValue c = Some x" and "hexValue d = Some y"
  shows "hexLoop (Suc (Suc (Suc (Suc 0)))) 0 (a # a # c # d # t) = Some (push_bit 4 x OR y, t)"
  using assms by simp

lemma parseHex4_escape:
  "parseHex4 (0x30 # 0x30 # hexDigit (drop_bit 4 b) # hexDigit (b AND 0x0F) # t) = Some (ucast b, t)"
proof -
  have z: "hexValue 0x30 = Some 0" by code_simp
  have four: "(4 :: nat) = Suc (Suc (Suc (Suc 0)))" by simp
  have "hexLoop 4 0 (0x30 # 0x30 # hexDigit (drop_bit 4 b) # hexDigit (b AND 0x0F) # t) = Some (ucast b, t)"
    using hexLoop_four [OF z hexDigit_value, of b b t] unfolding nibbles_join four [symmetric] .
  then show ?thesis unfolding parseHex4_def by (subst if_not_P) simp_all
qed

lemma escapeByte_read:
  "b < 0x80 \<Longrightarrow> parseUnicodeEscape (0x30 # 0x30 # hexDigit (drop_bit 4 b) # hexDigit (b AND 0x0F) # t) =
     Some (ucast b, t)"
proof -
  assume b: "b < 0x80"
  then have "(ucast b :: u32) < 0x80" by (simp add: word_less_nat_alt)
  then show ?thesis
    by (auto simp: parseUnicodeEscape_def parseHex4_escape word_less_nat_alt word_le_nat_alt)
qed

lemma stringTurn_ascii: "b < 0x80 \<Longrightarrow> stringTurn (escapeUnit b @ t) = StringMore [b] t"
proof -
  assume b: "b < 0x80"
  have a: "appendUtf8 (ucast b) = [b]" using b by (simp add: appendUtf8_def word_less_nat_alt byte_cast)
  have esc: "stringTurn (escapeByte b @ t) = StringMore [b] t"
    using escapeByte_read [OF b, of t] a by (simp add: escapeByte_def stringTurn_def escapeTurn_def)
  show ?thesis
    using b esc sequence_ascii [OF b, of t]
    by (auto simp: escapeUnit_def stringTurn_def escapeTurn_def Let_def not_less)
qed

lemma utf8_encode_lead:
  assumes "scalar c" and "0x80 \<le> c"
  obtains b bs where "utf8_encode c = b # bs" "0x80 \<le> b"
proof -
  have c: "c \<le> 0x10FFFF" using assms by (simp add: scalar_def)
  have le: "0x80 \<le> (of_nat n :: u8)" if "0x80 \<le> n" "n < 256" for n
    using that by (simp add: word_le_nat_alt unat_u8)
  consider "c < 0x800" | "0x800 \<le> c" "c < 0x10000" | "0x10000 \<le> c" by linarith
  then show ?thesis
  proof cases
    case 1
    then have "c div 64 < 32" by (simp add: div_less_iff_less_mult)
    then show ?thesis using that [OF utf8_encode_cases(2) [OF assms(2) 1]] le by (simp del: of_nat_add)
  next
    case 2
    then have "c div 4096 < 16" by (simp add: div_less_iff_less_mult)
    then show ?thesis using that [OF utf8_encode_cases(3) [OF 2]] le by (simp del: of_nat_add)
  next
    case 3
    have "c div 262144 < 5" using c by (simp add: div_less_iff_less_mult)
    then show ?thesis using that [OF utf8_encode_cases(4) [OF 3]] le by (simp del: of_nat_add)
  qed
qed

definition escapeScalar :: "nat \<Rightarrow> u8 list" where
  "escapeScalar c = (if c < 0x80 then escapeUnit (of_nat c) else utf8_encode c)"

lemma escapeText_scalar:
  assumes "scalar c"
  shows "escapeText (utf8_encode c @ rest) = escapeScalar c @ escapeText rest"
    and "stringTurn (escapeScalar c @ t) = StringMore (utf8_encode c) t"
proof -
  have "escapeText (utf8_encode c @ rest) = escapeScalar c @ escapeText rest \<and>
      stringTurn (escapeScalar c @ t) = StringMore (utf8_encode c) t"
  proof (cases "c < 0x80")
    case True
    then have "(of_nat c :: u8) < 0x80" by (simp add: word_less_nat_alt unat_u8)
    then show ?thesis
      using True escapeText_ascii stringTurn_ascii by (simp add: escapeScalar_def utf8_encode_def)
  next
    case False
    then obtain b bs where u: "utf8_encode c = b # bs" "0x80 \<le> b"
      using utf8_encode_lead assms by (metis not_less)
    have len: "utf8SequenceLength (utf8_encode c @ r) = length (utf8_encode c)" for r
      by (rule json_utf8.scan_complete [OF assms])
    have b: "b \<noteq> 0x22" "b \<noteq> 0x5C" "b \<noteq> 0x0A" "b \<noteq> 0x0D" "b \<noteq> 0x09" "\<not> b < 0x20" "b \<noteq> 0x7F"
      using u(2) by (auto simp: word_le_nat_alt word_less_nat_alt)
    have "escapeText (utf8_encode c @ rest) = utf8_encode c @ escapeText rest"
      using len [of rest] b u(1) by (subst escapeText.simps) (simp add: Let_def)
    moreover have "stringTurn (utf8_encode c @ t) = StringMore (utf8_encode c) t"
      using len [of t] b u(1) by (simp add: stringTurn_def Let_def)
    ultimately show ?thesis using False by (simp add: escapeScalar_def)
  qed
  then show "escapeText (utf8_encode c @ rest) = escapeScalar c @ escapeText rest"
    and "stringTurn (escapeScalar c @ t) = StringMore (utf8_encode c) t" by blast+
qed

lemma stringLoop_escape:
  "\<forall>c \<in> set cs. scalar c \<Longrightarrow>
     stringLoop out (escapeText (concat (map utf8_encode cs)) @ 0x22 # t) =
       Some (out @ concat (map utf8_encode cs), t)"
proof (induction cs arbitrary: out)
  case Nil
  then show ?case by (subst stringLoop.simps) (simp add: stringTurn_def)
next
  case (Cons c cs)
  then have c: "scalar c" by simp
  show ?case
    using Cons.IH [of "out @ utf8_encode c"] Cons.prems escapeText_scalar [OF c]
    by (subst stringLoop.simps) simp
qed

lemma parseString_dump:
  assumes "well_formed_utf8 s"
  shows "parseString (dumpString s @ t) = Some (s, t)"
proof -
  obtain cs where "\<forall>c \<in> set cs. scalar c" "s = concat (map utf8_encode cs)"
    using assms by (auto simp: well_formed_utf8_def)
  then show ?thesis
    using stringLoop_escape [of cs "[]" t]
    by (simp add: parseString_def dumpString_def consumeChar_def skipSpace_def isSpace_def)
qed

section \<open>Clean output\<close>

definition clean :: "u8 list \<Rightarrow> bool" where
  "clean bs \<longleftrightarrow> well_formed_utf8 bs \<and> list_all (\<lambda>b. 0x20 \<le> b \<and> b \<noteq> 0x7F) bs"

lemma clean_append: "clean a \<Longrightarrow> clean b \<Longrightarrow> clean (a @ b)"
  by (simp add: clean_def well_formed_append)

lemma clean_Nil [simp]: "clean []"
  by (simp add: clean_def)

lemma clean_ascii: "list_all (\<lambda>b. 0x20 \<le> b \<and> b < 0x7F) bs \<Longrightarrow> clean bs"
proof (induction bs)
  case (Cons b bs)
  then have "well_formed_utf8 [b]"
    by (intro well_formed_ascii) (auto simp: word_less_nat_alt)
  then have "clean [b]" using Cons.prems by (auto simp: clean_def)
  then show ?case using Cons clean_append [of "[b]" bs] by simp
qed simp

lemma encode_high_bytes: "scalar c \<Longrightarrow> 0x80 \<le> c \<Longrightarrow> list_all (\<lambda>b. 0x80 \<le> b) (utf8_encode c)"
proof -
  assume s: "scalar c" and c: "0x80 \<le> c"
  have le: "0x80 \<le> (of_nat n :: u8)" if "0x80 \<le> n" "n < 256" for n
    using that by (simp add: word_le_nat_alt unat_u8)
  have m: "0x80 + k mod 64 < 256" for k :: nat
    using mod_less_divisor [of 64 k] by simp
  consider "c < 0x800" | "0x800 \<le> c" "c < 0x10000" | "0x10000 \<le> c" by linarith
  then show ?thesis
  proof cases
    case 1
    then have "c div 64 < 32" by (simp add: div_less_iff_less_mult)
    then show ?thesis unfolding utf8_encode_cases(2) [OF c 1] using le m by (simp del: of_nat_add)
  next
    case 2
    then have "c div 4096 < 16" by (simp add: div_less_iff_less_mult)
    then show ?thesis unfolding utf8_encode_cases(3) [OF 2] using le m by (simp del: of_nat_add)
  next
    case 3
    have "c div 262144 < 5" using s by (simp add: div_less_iff_less_mult scalar_def)
    then show ?thesis unfolding utf8_encode_cases(4) [OF 3] using le m by (simp del: of_nat_add)
  qed
qed

lemma clean_encode:
  assumes "scalar c" and "0x20 \<le> c" and "c \<noteq> 0x7F"
  shows "clean (utf8_encode c)"
proof (cases "c < 0x80")
  case True
  then have "0x20 \<le> (of_nat c :: u8)" "(of_nat c :: u8) \<noteq> 0x7F"
    using assms(2,3) by (auto simp: word_le_nat_alt word_unat_eq_iff unat_u8)
  then show ?thesis
    using well_formed_encode [OF assms(1)] True by (simp add: clean_def utf8_encode_def)
next
  case False
  then have "list_all (\<lambda>b. 0x80 \<le> b) (utf8_encode c)" using encode_high_bytes assms(1) by simp
  then have "list_all (\<lambda>b. 0x20 \<le> b \<and> b \<noteq> 0x7F) (utf8_encode c)"
    by (rule list.pred_mono_strong) (auto simp: word_le_nat_alt)
  then show ?thesis using well_formed_encode [OF assms(1)] by (simp add: clean_def)
qed

lemma escapeByte_clean: "clean (escapeByte b)"
proof -
  have h: "if (d :: u8) < 16 then 0x20 \<le> hexDigit d \<and> hexDigit d < 0x7F else True" for d
    by (rule u8_exhaust) code_simp
  show ?thesis
    using h [of "drop_bit 4 b"] h [of "b AND 0x0F"] nibbles_small [of b]
    by (intro clean_ascii) (simp add: escapeByte_def)
qed

lemma sequence_clean:
  assumes "utf8SequenceLength (b # rest) \<noteq> 0" and "0x20 \<le> b" and "b \<noteq> 0x7F"
  shows "clean (take (utf8SequenceLength (b # rest)) (b # rest))"
proof -
  obtain c where c: "scalar c" "take (utf8SequenceLength (b # rest)) (b # rest) = utf8_encode c"
    using json_utf8.scan_sound [of "b # rest"] assms(1) by auto
  have hd: "hd (utf8_encode c) = b"
    unfolding c(2) [symmetric] using assms(1) by (cases "utf8SequenceLength (b # rest)") simp_all
  have "0x20 \<le> c \<and> c \<noteq> 0x7F"
  proof (cases "c < 0x80")
    case True
    then have "b = of_nat c" using hd by (simp add: utf8_encode_def)
    then show ?thesis using assms(2,3) True by (auto simp: word_le_nat_alt unat_u8)
  qed simp
  then show ?thesis using c clean_encode by simp
qed

lemma escapeText_clean: "clean (escapeText t)"
proof (induction t rule: length_induct)
  case (1 t)
  show ?case
  proof (cases t)
    case (Cons b rest)
    have ih: "clean (escapeText rest)" using 1 Cons by simp
    have rep: "clean kReplacement"
    proof -
      have "kReplacement = utf8_encode 0xFFFD" by (simp add: kReplacement_def utf8_encode_def)
      moreover have "clean (utf8_encode 0xFFFD)" by (rule clean_encode) (simp_all add: scalar_def)
      ultimately show ?thesis by (simp only:)
    qed
    have two: "clean [0x5C, x]" if "0x20 \<le> x" "x < 0x7F" for x :: u8
      using that by (intro clean_ascii) simp
    show ?thesis
    proof (cases "b = 0x22 \<or> b = 0x5C \<or> b = 0x0A \<or> b = 0x0D \<or> b = 0x09")
      case True
      then have "escapeText t = escapeUnit b @ escapeText rest" "clean (escapeUnit b)"
        using escapeText_ascii [of b rest] two Cons by (auto simp: escapeUnit_def)
      then show ?thesis using ih by (simp add: clean_append)
    next
      case other: False
      show ?thesis
      proof (cases "b < 0x20 \<or> b = 0x7F")
        case True
        then have "escapeText t = escapeByte b @ escapeText rest"
          using other Cons by (subst escapeText.simps) simp
        then show ?thesis using ih by (simp add: clean_append escapeByte_clean)
      next
        case False
        then have e: "escapeText t = (if utf8SequenceLength t = 0 then kReplacement @ escapeText rest
            else take (utf8SequenceLength t) t @ escapeText (drop (utf8SequenceLength t) t))"
          using other Cons by (subst escapeText.simps) (simp add: Let_def)
        have "clean (escapeText (drop (utf8SequenceLength t) t))" if "utf8SequenceLength t \<noteq> 0"
          using 1 that Cons by simp
        moreover have "clean (take (utf8SequenceLength t) t)" if "utf8SequenceLength t \<noteq> 0"
          using sequence_clean [of b rest] that Cons False by (simp add: not_less)
        ultimately show ?thesis unfolding e using ih by (simp add: clean_append rep)
      qed
    qed
  qed simp
qed

text \<open>\<open>%lld\<close> and \<open>%.17g\<close> of a finite value write digits, signs, a point and an exponent.\<close>

definition prints_plain :: "'d number_library \<Rightarrow> bool" where
  "prints_plain lib \<longleftrightarrow> (\<forall>x. nl_isfinite lib x \<longrightarrow>
     list_all isNumberByte (nl_print_integer lib x) \<and> list_all isNumberByte (nl_print_real lib x))"

lemma number_bytes_clean: "list_all isNumberByte bs \<Longrightarrow> clean bs"
proof (rule clean_ascii)
  assume "list_all isNumberByte bs"
  then show "list_all (\<lambda>b. 0x20 \<le> b \<and> b < 0x7F) bs"
    by (rule list.pred_mono_strong) (auto simp: isNumberByte_def isDigit_def word_le_nat_alt word_less_nat_alt)
qed

lemma clean_Cons: "0x20 \<le> b \<Longrightarrow> b < 0x7F \<Longrightarrow> clean bs \<Longrightarrow> clean (b # bs)"
  using clean_append [of "[b]" bs] clean_ascii [of "[b]"] by simp

lemma dumpString_clean: "clean (dumpString s)"
  by (simp add: dumpString_def clean_Cons clean_append escapeText_clean)

lemma dumpNumber_clean: "prints_plain lib \<Longrightarrow> clean (dumpNumber lib x)"
  by (simp add: dumpNumber_def prints_plain_def number_bytes_clean clean_Cons)

lemma dump_clean:
  shows "prints_plain lib \<Longrightarrow> clean (dump lib v)"
    and "prints_plain lib \<Longrightarrow> clean (dumpItems lib first xs)"
    and "prints_plain lib \<Longrightarrow> clean (dumpMembers lib first ms)"
  by (induction lib v and lib first xs and lib first ms rule: dump_dumpItems_dumpMembers.induct)
    (simp_all add: dumpNumber_clean dumpString_clean clean_Cons clean_append)

section \<open>Reading what was printed\<close>

text \<open>
  A number reads back: it is finite, its text is made of number characters, and \<open>strtod\<close>
  consumes all of it and gives the number.
\<close>

definition reads_back :: "'d number_library \<Rightarrow> 'd \<Rightarrow> bool" where
  "reads_back lib x \<longleftrightarrow> nl_isfinite lib x \<and> dumpNumber lib x \<noteq> [] \<and>
     list_all isNumberByte (dumpNumber lib x) \<and>
     nl_strtod lib (dumpNumber lib x) = (x, length (dumpNumber lib x))"

text \<open>What may follow a number.\<close>

definition ends_number :: "u8 list \<Rightarrow> bool" where
  "ends_number rest \<longleftrightarrow> (case rest of [] \<Rightarrow> True | b # _ \<Rightarrow> \<not> isNumberByte b)"

lemma ends_number_Cons [simp]:
  "ends_number []" "ends_number (0x2C # r)" "ends_number (0x5D # r)" "ends_number (0x7D # r)"
  by (simp_all add: ends_number_def isNumberByte_def isDigit_def)

lemma takeWhile_stop: "list_all P xs \<Longrightarrow> (case ys of [] \<Rightarrow> True | y # _ \<Rightarrow> \<not> P y) \<Longrightarrow>
    takeWhile P (xs @ ys) = xs \<and> dropWhile P (xs @ ys) = ys"
  by (induction xs) (auto split: list.splits)

lemma numberToken_back:
  assumes "list_all isNumberByte t" and "t \<noteq> []" and "ends_number rest"
  shows "numberToken (t @ rest) = (t, rest)"
proof -
  obtain b bs where t: "t = b # bs" using assms(2) by (cases t) auto
  show ?thesis
    using takeWhile_stop [of isNumberByte t rest] takeWhile_stop [of isNumberByte bs rest] assms t
    by (auto simp: numberToken_def ends_number_def Let_def)
qed

lemma number_first:
  assumes "list_all isNumberByte (b # bs)"
  shows "\<not> isSpace b" "b \<noteq> 0x7B" "b \<noteq> 0x5B" "b \<noteq> 0x22" "b \<noteq> 0x74" "b \<noteq> 0x66" "b \<noteq> 0x6E" "b \<noteq> 0x5D" "b \<noteq> 0x7D"
  using assms by (auto simp: isNumberByte_def isDigit_def isSpace_def word_le_nat_alt)

text \<open>The first byte of a printed value tells it from the end of an array.\<close>

lemma dump_first:
  assumes "json_ok (reads_back lib) n v"
  obtains b bs where "dump lib v = b # bs" "\<not> isSpace b" "b \<noteq> 0x5D"
proof (cases v)
  case (JNumber x)
  then have r: "reads_back lib x" using assms by (cases n) simp_all
  then obtain b bs where d: "dumpNumber lib x = b # bs" by (cases "dumpNumber lib x") (auto simp: reads_back_def)
  show ?thesis using that [of b bs] number_first [of b bs] r JNumber d by (simp add: reads_back_def)
next
  case (JBool flag)
  then show ?thesis using that by (cases flag) (auto simp: isSpace_def)
qed (use that in \<open>auto simp: isSpace_def dumpString_def\<close>)

lemma skipSpace_first: "\<not> isSpace b \<Longrightarrow> skipSpace (b # bs) = b # bs"
  by (simp add: skipSpace_def)

lemma consumeChar_first: "\<not> isSpace b \<Longrightarrow>
    consumeChar c (b # bs) = (if b = c then (True, bs) else (False, b # bs))"
  by (simp add: consumeChar_def skipSpace_def)

lemma not_spaces [simp]: "\<not> isSpace 0x2C" "\<not> isSpace 0x5D" "\<not> isSpace 0x7D" "\<not> isSpace 0x3A"
    "\<not> isSpace 0x22" "\<not> isSpace 0x5B" "\<not> isSpace 0x7B" "\<not> isSpace 0x74" "\<not> isSpace 0x66" "\<not> isSpace 0x6E"
  by (simp_all add: isSpace_def)

definition reads_value :: "'d number_library \<Rightarrow> nat \<Rightarrow> 'd json \<Rightarrow> bool" where
  "reads_value lib d v \<longleftrightarrow> (\<forall>n rest. ends_number rest \<longrightarrow> 2 * length (dump lib v @ rest) < n \<longrightarrow>
     parseValue lib n d (dump lib v @ rest) = Accept v rest)"

lemma arrayLoop_items:
  assumes "\<And>x. x \<in> set xs \<Longrightarrow> reads_value lib (d + 1) x" and "xs \<noteq> []"
    and "2 * length (dumpItems lib True xs @ 0x5D # rest) + 1 < n"
  shows "arrayLoop lib n d acc (dumpItems lib True xs @ 0x5D # rest) = Accept (JArray (acc @ xs)) rest"
  using assms
proof (induction xs arbitrary: acc n)
  case (Cons x xs)
  then obtain m where n: "n = Suc m" by (cases n) auto
  let ?tail = "dumpItems lib False xs @ 0x5D # rest"
  have v: "parseValue lib m (d + 1) (dump lib x @ ?tail) = Accept x ?tail"
  proof -
    have "ends_number ?tail" by (cases xs) simp_all
    then show ?thesis using Cons.prems(1) [of x] Cons.prems(3) n by (simp add: reads_value_def)
  qed
  show ?case
  proof (cases xs)
    case Nil
    then show ?thesis using v n by (simp add: consumeChar_first)
  next
    case (Cons y ys)
    have tail: "?tail = 0x2C # dumpItems lib True xs @ 0x5D # rest" using Cons by simp
    have "2 * length (dumpItems lib True xs @ 0x5D # rest) + 1 < m"
      using Cons.prems(3) n Cons by simp
    then have "arrayLoop lib m d (acc @ [x]) (dumpItems lib True xs @ 0x5D # rest) =
        Accept (JArray ((acc @ [x]) @ xs)) rest"
      using Cons.IH [of m "acc @ [x]"] Cons.prems(1) Cons by simp
    then show ?thesis
      using v unfolding n dumpItems.simps(2) append_assoc tail by (simp add: consumeChar_first)
  qed
qed simp

lemma setMember_new: "key \<notin> fst ` set ms \<Longrightarrow> setMember key v ms = ms @ [(key, v)]"
  by (induction key v ms rule: setMember.induct) auto

lemma skipSpace_dumpString: "skipSpace (dumpString s @ t) = dumpString s @ t"
  by (simp add: dumpString_def skipSpace_first)

lemma objectLoop_members:
  assumes "\<And>m. m \<in> set ms \<Longrightarrow> well_formed_utf8 (fst m) \<and> reads_value lib (d + 1) (snd m)"
    and "ms \<noteq> []" and "distinct (map fst (acc @ ms))"
    and "2 * length (dumpMembers lib True ms @ 0x7D # rest) + 1 < n"
  shows "objectLoop lib n d acc (dumpMembers lib True ms @ 0x7D # rest) = Accept (JObject (acc @ ms)) rest"
  using assms
proof (induction ms arbitrary: acc n)
  case (Cons m ms)
  obtain key v where m: "m = (key, v)" by (cases m)
  obtain k where n: "n = Suc k" using Cons.prems(4) by (cases n) auto
  let ?tail = "dumpMembers lib False ms @ 0x7D # rest"
  have key: "parseString (skipSpace (dumpString key @ t)) = Some (key, t)" for t
    unfolding skipSpace_dumpString using Cons.prems(1) [of m] m by (intro parseString_dump) simp
  have val: "parseValue lib k (d + 1) (dump lib v @ ?tail) = Accept v ?tail"
  proof -
    have "ends_number ?tail" by (cases ms) (auto split: prod.splits)
    then show ?thesis using Cons.prems(1) [of m] Cons.prems(4) n m by (simp add: reads_value_def)
  qed
  have new: "setMember key v acc = acc @ [(key, v)]"
    using Cons.prems(3) m by (intro setMember_new) auto
  show ?case
  proof (cases ms)
    case Nil
    then show ?thesis using val n m key new by (simp add: consumeChar_first)
  next
    case (Cons y ys)
    have tail: "?tail = 0x2C # dumpMembers lib True ms @ 0x7D # rest"
      using Cons by (cases y) simp
    have "2 * length (dumpMembers lib True ms @ 0x7D # rest) + 1 < k"
      using Cons.prems(4) n m Cons by (cases y) simp
    then have loop: "objectLoop lib k d (acc @ [(key, v)]) (dumpMembers lib True ms @ 0x7D # rest) =
        Accept (JObject ((acc @ [(key, v)]) @ ms)) rest"
      using Cons.prems(1,3) Cons m by (intro Cons.IH) auto
    show ?thesis
      using val loop key new unfolding n m dumpMembers.simps(2) append_assoc tail by (simp add: consumeChar_first)
  qed
qed simp

lemma parseScalar_words:
  "parseScalar lib (ascii ''true'' @ rest) = Some (JBool True, rest)"
  "parseScalar lib (ascii ''false'' @ rest) = Some (JBool False, rest)"
  "parseScalar lib (ascii ''null'' @ rest) = Some (JNull, rest)"
  by (simp_all add: parseScalar_def literal_def)

lemma parseScalar_number:
  assumes "reads_back lib x" and "ends_number rest"
  shows "parseScalar lib (dumpNumber lib x @ rest) = Some (JNumber x, rest)"
proof -
  obtain b bs where d: "dumpNumber lib x = b # bs"
    using assms(1) by (cases "dumpNumber lib x") (auto simp: reads_back_def)
  have "list_all isNumberByte (b # bs)" using assms(1) d by (simp add: reads_back_def)
  note first = number_first [OF this]
  have "parseNumber lib (dumpNumber lib x @ rest) = Some (JNumber x, rest)"
    using numberToken_back [of "dumpNumber lib x" rest] assms by (simp add: parseNumber_def reads_back_def)
  then show ?thesis using first d by (simp add: parseScalar_def literal_def)
qed

lemma scalar_reads:
  assumes "\<And>rest. ends_number rest \<Longrightarrow> parseScalar lib (dump lib v @ rest) = Some (v, rest)"
    and "dump lib v = b # bs" and "\<not> isSpace b" and "b \<noteq> 0x7B" and "b \<noteq> 0x5B" and "d \<le> 32"
  shows "reads_value lib d v"
  unfolding reads_value_def
proof (intro allI impI)
  fix n rest
  assume r: "ends_number rest" and n: "2 * length (dump lib v @ rest) < n"
  obtain m where m: "n = Suc m" using n by (cases n) auto
  have "parseScalar lib (b # bs @ rest) = Some (v, rest)" using assms(1) [OF r] assms(2) by simp
  then show "parseValue lib n d (dump lib v @ rest) = Accept v rest"
    using assms(2-6) by (simp add: m skipSpace_first)
qed

lemma dump_reads: "json_ok (reads_back lib) k v \<Longrightarrow> d + k \<le> 33 \<Longrightarrow> reads_value lib d v"
proof (induction k arbitrary: d v)
  case (Suc k)
  then have d: "d \<le> 32" by simp
  show ?case
  proof (cases v)
    case JNull
    then show ?thesis using d parseScalar_words(3)
      by (intro scalar_reads [where b = "0x6E" and bs = "[0x75, 0x6C, 0x6C]"]) simp_all
  next
    case (JBool flag)
    then show ?thesis
    proof (cases flag)
      case True
      then show ?thesis using JBool d parseScalar_words(1)
        by (intro scalar_reads [where b = "0x74" and bs = "[0x72, 0x75, 0x65]"]) simp_all
    next
      case False
      then show ?thesis using JBool d parseScalar_words(2)
        by (intro scalar_reads [where b = "0x66" and bs = "[0x61, 0x6C, 0x73, 0x65]"]) simp_all
    qed
  next
    case (JNumber x)
    then have r: "reads_back lib x" using Suc.prems by simp
    then obtain b bs where x: "dumpNumber lib x = b # bs" "list_all isNumberByte (b # bs)"
      by (cases "dumpNumber lib x") (auto simp: reads_back_def)
    show ?thesis
      using JNumber d r x number_first [OF x(2)] parseScalar_number [OF r] by (intro scalar_reads [where b = b and bs = bs]) simp_all
  next
    case (JString s)
    then show ?thesis
      using d Suc.prems parseString_dump [of s]
      by (intro scalar_reads [where b = "0x22" and bs = "escapeText s @ [0x22]"])
        (simp_all add: parseScalar_def dumpString_def)
  next
    case (JArray xs)
    have items: "reads_value lib (d + 1) x" if "x \<in> set xs" for x
      using Suc.prems JArray that by (intro Suc.IH) (auto simp: list_all_iff)
    show ?thesis
      unfolding reads_value_def
    proof (intro allI impI)
      fix n rest
      assume n: "2 * length (dump lib v @ rest) < n"
      obtain m where m: "n = Suc m" using n by (cases n) auto
      show "parseValue lib n d (dump lib v @ rest) = Accept v rest"
      proof (cases xs)
        case Nil
        then show ?thesis using d m JArray by (simp add: skipSpace_first consumeChar_first)
      next
        case (Cons y ys)
        then have "json_ok (reads_back lib) k y" using Suc.prems(1) JArray by simp
        then obtain b bs where f: "dump lib y = b # bs" "\<not> isSpace b" "b \<noteq> 0x5D" by (rule dump_first)
        have "arrayLoop lib m d [] (dumpItems lib True xs @ 0x5D # rest) = Accept (JArray ([] @ xs)) rest"
          using n m JArray Cons items by (intro arrayLoop_items) simp_all
        then show ?thesis using d m JArray Cons f by (simp add: skipSpace_first consumeChar_first)
      qed
    qed
  next
    case (JObject ms)
    have members: "well_formed_utf8 (fst q) \<and> reads_value lib (d + 1) (snd q)" if "q \<in> set ms" for q
      using Suc.prems JObject that Suc.IH [of "snd q" "d + 1"] by (auto simp: list_all_iff)
    show ?thesis
      unfolding reads_value_def
    proof (intro allI impI)
      fix n rest
      assume n: "2 * length (dump lib v @ rest) < n"
      obtain m where m: "n = Suc m" using n by (cases n) auto
      show "parseValue lib n d (dump lib v @ rest) = Accept v rest"
      proof (cases ms)
        case Nil
        then show ?thesis using d m JObject by (simp add: skipSpace_first consumeChar_first)
      next
        case (Cons y ys)
        have "objectLoop lib m d [] (dumpMembers lib True ms @ 0x7D # rest) = Accept (JObject ([] @ ms)) rest"
          using n m JObject Cons members Suc.prems(1) by (intro objectLoop_members) simp_all
        moreover obtain bs where "dumpMembers lib True ms @ 0x7D # rest = 0x22 # bs"
          using Cons by (cases y) (simp add: dumpString_def)
        ultimately show ?thesis
          using d m JObject by (simp add: skipSpace_first consumeChar_first)
      qed
    qed
  qed
qed simp

lemma parse_dump: "json_ok (reads_back lib) 33 v \<Longrightarrow> parse lib (dump lib v) = Some v"
proof -
  assume ok: "json_ok (reads_back lib) 33 v"
  have "parseValue lib (2 * length (dump lib v) + 1) 0 (dump lib v @ []) = Accept v []"
    using dump_reads [OF ok, of 0, unfolded reads_value_def, rule_format, of "[]"]
    by (simp del: parseValue.simps)
  then show ?thesis
    by (simp add: parse_def parseDocument_def skipSpace_def del: parseValue.simps)
qed

text \<open>A library for the concrete instances: natural numbers in decimal.\<close>

definition natLibrary :: "nat number_library" where
  "natLibrary = \<lparr>nl_isfinite = \<lambda>_. True, nl_small_integer = \<lambda>_. True,
     nl_print_integer = \<lambda>n. ascii (to_string n), nl_print_real = \<lambda>n. ascii (to_string n),
     nl_strtod = \<lambda>t. (foldl (\<lambda>n b. 10 * n + (unat b - 48)) 0 t, length t)\<rparr>"

lemma ascii_append: "ascii (s @ t) = ascii s @ ascii t"
  by (simp add: ascii_def)

lemma digit_bytes: "d < 10 \<Longrightarrow> list_all isNumberByte (ascii [digitChar d])"
proof -
  assume "d < 10"
  then have "d \<in> {0, 1, 2, 3, 4, 5, 6, 7, 8, 9}" by auto
  then show ?thesis
    by (auto simp: ascii_def digitChar_def isNumberByte_def isDigit_def)
qed

lemma decimal_bytes: "list_all isNumberByte (ascii (to_string n))"
proof (induction n rule: to_string.induct)
  case (1 n)
  show ?case
    using 1 digit_bytes [of n] digit_bytes [of "n mod 10"]
    by (subst to_string.simps) (simp add: ascii_append)
qed

lemma natLibrary_plain: "prints_plain natLibrary"
  by (simp add: prints_plain_def natLibrary_def decimal_bytes)

lemma natLibrary_reads: "reads_back natLibrary 42"
proof -
  have "ascii (to_string 42) = [0x34, 0x32]"
    by (subst to_string.simps, simp, subst to_string.simps) (simp add: ascii_def digitChar_def)
  then show ?thesis
    by (simp add: reads_back_def natLibrary_def dumpNumber_def isNumberByte_def isDigit_def)
qed

definition sampleDocument :: "nat json" where
  "sampleDocument = JObject [([0x61], JArray [JNumber 42, JString [0xC3, 0xA9], JBool True]), ([0x62], JNull)]"

lemma sampleDocument_ok: "json_ok (reads_back natLibrary) 33 sampleDocument"
proof -
  have "utf8_encode 0xE9 = [0xC3, 0xA9]" by (simp add: utf8_encode_def)
  then have w: "well_formed_utf8 [0xC3, 0xA9]" using well_formed_encode [of "0xE9"] by (simp add: scalar_def)
  have "json_ok (reads_back natLibrary) (Suc (Suc (Suc n))) sampleDocument" for n
    by (simp add: sampleDocument_def w natLibrary_reads well_formed_ascii)
  from this [of 30] show ?thesis by simp
qed

section \<open>The properties of the JSON code\<close>

text \<open>
  C8: reading a printed document gives it back.  For a value of at most 33 levels with well-formed
  strings, distinct keys and numbers that the C library prints and reads back exactly, the parser
  accepts what the serializer wrote, with all escapes undone and members and items in order.
\<close>

theorem json_roundtrip:
  assumes "json_ok (reads_back lib) 33 v"
  shows "parse lib (dump lib v) = Some v"
  using assms by (rule parse_dump)

theorem json_roundtrip_witness: "parse natLibrary (dump natLibrary sampleDocument) = Some sampleDocument"
  by (rule json_roundtrip [OF sampleDocument_ok])

text \<open>
  The serializer writes clean text.  Whatever bytes the strings and keys of a value hold, the
  output is well-formed UTF-8 and contains no control character and no DEL.
\<close>

theorem dump_output_clean:
  assumes "prints_plain lib"
  shows "well_formed_utf8 (dump lib v) \<and> list_all (\<lambda>b. 0x20 \<le> b \<and> b \<noteq> 0x7F) (dump lib v)"
  using dump_clean(1) [OF assms, of v] by (simp add: clean_def)

theorem dump_output_clean_witness:
  "well_formed_utf8 (dump natLibrary (JString [0xFF, 0x0A, 0x7F])) \<and>
   list_all (\<lambda>b. 0x20 \<le> b \<and> b \<noteq> 0x7F) (dump natLibrary (JString [0xFF, 0x0A, 0x7F]))"
  by (rule dump_output_clean [OF natLibrary_plain])

text \<open>
  C26: an accepted document is within the bounds of the parser.  Its nesting has at most 33 levels
  (depth 0 to 32), all its strings and keys are well-formed UTF-8 whatever bytes and escapes they
  were written with, no object has a key twice, and every number is finite.
\<close>

theorem accepted_document_ok:
  assumes "parse lib text = Some v"
  shows "json_ok (nl_isfinite lib) 33 v"
  using assms accepted_ok(1) [of lib "2 * length text + 1" 0 "text"]
  by (auto simp: parse_def parseDocument_def split: outcome.splits if_splits)

theorem accepted_document_ok_witness: "json_ok (nl_isfinite natLibrary) 33 sampleDocument"
  by (rule accepted_document_ok [OF parse_dump [OF sampleDocument_ok]])

text \<open>
  Setting and finding members agree.  After \<open>set\<close> on an object the key finds the new value,
  every other key finds what it found before, no key is duplicated and members keep their places;
  on any other value \<open>set\<close> and \<open>push\<close> do nothing that \<open>find\<close> or \<open>items\<close> could see.
\<close>

theorem members_laws:
  "findMember k (setValue key v j) =
     (case j of JObject ms \<Rightarrow> if k = key then Some v else findMember k j | _ \<Rightarrow> None) \<and>
   (case (j, setValue key v j) of
      (JObject ms, JObject ms') \<Rightarrow>
        distinct (map fst ms') = distinct (map fst ms) \<and>
        map fst ms' = (if key \<in> fst ` set ms then map fst ms else map fst ms @ [key])
    | (_, j') \<Rightarrow> j' = j) \<and>
   items (push v j) = (case j of JArray xs \<Rightarrow> xs @ [v] | _ \<Rightarrow> [])"
proof -
  have find: "map_of (setMember key v ms) k = (if k = key then Some v else map_of ms k)" for ms :: "(u8 list \<times> 'a json) list"
    by (induction key v ms rule: setMember.induct) auto
  have keys: "map fst (setMember key v ms) = (if key \<in> fst ` set ms then map fst ms else map fst ms @ [key])"
      for ms :: "(u8 list \<times> 'a json) list"
    by (induction key v ms rule: setMember.induct) auto
  have "distinct (map fst (setMember key v ms)) = distinct (map fst ms)" for ms
    unfolding keys by (auto simp flip: set_map)
  then show ?thesis
    by (cases j) (simp_all add: findMember_def setValue_def push_def items_def find keys)
qed

end
