(* ===== verification/DMesgPb.thy ===== *)
theory DMesgPb
  imports DLock
begin

text \<open>
  The protobuf messages of \<open>src/proto/dmn-dmesg*.proto\<close>.  A message is the value that protobuf
  serializes; its own timestamp, which every write sets from the clock and nothing reads, is left out.
\<close>

type_synonym timestamp = "int \<times> int"

text \<open>\<open>DMESG_PB_SET_TIMESTAMP_FROM_TV\<close>: seconds and microseconds to seconds and nanoseconds.\<close>

definition fromTimeval :: "int \<times> int \<Rightarrow> timestamp" where
  "fromTimeval tv = (fst tv, snd tv * 1000)"

datatype node_state =
  NsInvalid | NsInitialized | NsMasterPending | NsReady | NsDestroyed | NsOther int

record sys_node =
  sn_initialized :: timestamp
  sn_updated :: timestamp
  sn_identifier :: string
  sn_state :: node_state
  sn_master :: string

record sys_body =
  sb_timestamp :: timestamp
  sb_self :: sys_node
  sb_nodelist :: "sys_node list"

datatype dmesg_type = DtInvalid | DtSys | DtMessage | DtOther int

datatype dmesg_body = NoBody | SysBody sys_body | LockTableBody dlock_table_pb | MessageBody string

record dmesg =
  dm_topic :: string
  dm_running_counter :: u64
  dm_source_identifier :: string
  dm_source_write_handler :: string
  dm_type :: dmesg_type
  dm_playback :: bool
  dm_conflict :: bool
  dm_force :: bool
  dm_body :: dmesg_body

text \<open>An absent sub-message reads as its default.\<close>

definition emptyNode :: sys_node where
  "emptyNode = \<lparr>sn_initialized = (0, 0), sn_updated = (0, 0), sn_identifier = [],
     sn_state = NsInvalid, sn_master = []\<rparr>"

definition selfOf :: "dmesg \<Rightarrow> sys_node" where
  "selfOf m = (case dm_body m of SysBody b \<Rightarrow> sb_self b | _ \<Rightarrow> emptyNode)"

end
