(* ===== verification/DMesgNet.thy ===== *)
theory DMesgNet
  imports DMesgPb "HOL-Library.AList"
begin

text \<open>
  The networked message node (\<open>src/dmn-dmesgnet.cpp\<close>): master election by heartbeats, the list of
  neighbours, the outbound queue, and the handling of inbound messages.  All of it runs in the
  publisher's serial context, one task at a time; here each task is a function on the node's state.
  What is written to the output is a list of messages.  An assertion of the code, and a use of an absent object, is an error value.
\<close>

section \<open>The node\<close>

abbreviation (input) MASTERPENDING_MAX_COUNTER :: int where "MASTERPENDING_MAX_COUNTER \<equiv> 3"
abbreviation (input) MASTERSYNC_MAX_COUNTER :: int where "MASTERSYNC_MAX_COUNTER \<equiv> 5"

text \<open>
  \<open>net_self\<close>, \<open>net_timestamp\<close> and \<open>net_nodelist\<close> are the parts of \<open>m_sys\<close> that vary.  The logs are
  what was written to the output, to the sys handler and to the write handler.
\<close>

record net =
  net_name :: string
  net_has_input :: bool
  net_has_output :: bool
  net_self :: sys_node
  net_timestamp :: timestamp
  net_nodelist :: "sys_node list"
  net_master_pending_counter :: int
  net_master_sync_pending_counter :: int
  net_last_remote_master_timestamp :: "int \<times> int"
  net_topic_last :: "(string \<times> dmesg) list"
  net_outbound_pending :: "(string \<times> dmesg list) list"
  net_ready :: bool
  net_is_master :: bool
  net_number_of_neighbor :: int
  net_shutdown :: bool
  net_output :: "dmesg list"
  net_sys_writes :: "dmesg list"
  net_republished :: "dmesg list"

type_synonym 'a checked = "string + 'a"

definition sysMessage :: "net \<Rightarrow> dmesg" where
  "sysMessage s = \<lparr>dm_topic = ''sys.dmn-dmesg'', dm_running_counter = 0,
     dm_source_identifier = [], dm_source_write_handler = [], dm_type = DtSys, dm_playback = False, dm_conflict = False, dm_force = False,
     dm_body = SysBody \<lparr>sb_timestamp = net_timestamp s, sb_self = net_self s,
       sb_nodelist = net_nodelist s\<rparr>\<rparr>"

definition writeOutput :: "dmesg \<Rightarrow> net \<Rightarrow> net" where
  "writeOutput m s = s\<lparr>net_output := net_output s @ [m]\<rparr>"

definition writeSys :: "net \<Rightarrow> net" where
  "writeSys s = s\<lparr>net_sys_writes := net_sys_writes s @ [sysMessage s]\<rparr>"

definition newNet :: "string \<Rightarrow> bool \<Rightarrow> bool \<Rightarrow> int \<times> int \<Rightarrow> net" where
  "newNet name hasInput hasOutput tval =
     (let s = \<lparr>net_name = name, net_has_input = hasInput, net_has_output = hasOutput,
            net_self = \<lparr>sn_initialized = fromTimeval tval, sn_updated = fromTimeval tval,
              sn_identifier = name, sn_state = NsMasterPending, sn_master = []\<rparr>,
            net_timestamp = fromTimeval tval, net_nodelist = [], net_master_pending_counter = 0,
            net_master_sync_pending_counter = 0, net_last_remote_master_timestamp = (0, 0),
            net_topic_last = [], net_outbound_pending = [], net_ready = False,
            net_is_master = False, net_number_of_neighbor = 0, net_shutdown = False,
            net_output = [], net_sys_writes = [], net_republished = []\<rparr>;
          s1 = (if hasInput \<and> hasOutput then s
                else s\<lparr>net_self := (net_self s)\<lparr>sn_state := NsReady, sn_master := name\<rparr>\<rparr>)
      in if hasInput then writeSys s1 else s1)"

section \<open>The outbound side\<close>

text \<open>
  The last message of a topic and the queue of a topic are kept in unordered maps; the order of
  the association lists stands for their iteration order.
\<close>

definition rememberTopic :: "dmesg \<Rightarrow> net \<Rightarrow> net" where
  "rememberTopic m s = s\<lparr>net_topic_last := AList.update (dm_topic m) m (net_topic_last s)\<rparr>"

definition sendPending :: "dmesg \<Rightarrow> net \<Rightarrow> net" where
  "sendPending m s =
     (let s1 = writeOutput m s in if dm_type m \<noteq> DtSys then rememberTopic m s1 else s1)"

definition sendPendingOutboundQueueMessage :: "net \<Rightarrow> net checked" where
  "sendPendingOutboundQueueMessage s =
     (if \<not> net_ready s then Inl ''assert(m_ready.test())''
      else if \<not> net_has_output s then Inr s
      else
        let s1 = fold (\<lambda>p s. fold sendPending (snd p) s) (net_outbound_pending s) s
        in Inr (s1\<lparr>net_outbound_pending := map (\<lambda>p. (fst p, [])) (net_outbound_pending s)\<rparr>))"

definition queueOutbound :: "dmesg \<Rightarrow> net \<Rightarrow> net" where
  "queueOutbound m s =
     (let queue = (case map_of (net_outbound_pending s) (dm_topic m) of None \<Rightarrow> [] | Some q \<Rightarrow> q)
      in s\<lparr>net_outbound_pending := AList.update (dm_topic m) (queue @ [m]) (net_outbound_pending s)\<rparr>)"

text \<open>
  The subscription handler: its filter, and the task it posts for a local message.
\<close>

definition subscriptFilter :: "dmesg \<Rightarrow> net \<Rightarrow> bool" where
  "subscriptFilter m s \<longleftrightarrow> dm_source_write_handler m \<noteq> net_name s"

definition forwardMessage :: "dmesg \<Rightarrow> net \<Rightarrow> net checked" where
  "forwardMessage dmesgPb s =
     (if \<not> subscriptFilter dmesgPb s \<or> \<not> net_has_output s then Inr s
      else
        let m = dmesgPb\<lparr>dm_source_write_handler := net_name s\<rparr>;
            ready = net_ready s
        in if ready \<or> dm_type m = DtSys then
             (case (if dm_type m \<noteq> DtSys then sendPendingOutboundQueueMessage s else Inr s) of
                Inl e \<Rightarrow> Inl e
              | Inr s1 \<Rightarrow>
                  let s2 = writeOutput m s1
                  in if dm_type m \<noteq> DtSys then Inr (rememberTopic m s2)
                     else if ready then sendPendingOutboundQueueMessage s2
                     else Inr s2)
           else Inr (queueOutbound m s))"

section \<open>The heartbeat\<close>

definition electSelf :: "int \<times> int \<Rightarrow> net \<Rightarrow> net" where
  "electSelf tval s = s\<lparr>net_master_pending_counter := 0,
     net_self := (net_self s)\<lparr>sn_state := NsReady, sn_master := net_name s,
       sn_updated := fromTimeval tval\<rparr>, net_ready := True\<rparr>"

definition loseMaster :: "net \<Rightarrow> net" where
  "loseMaster s = s\<lparr>net_master_sync_pending_counter := 0,
     net_last_remote_master_timestamp := (0, 0),
     net_self := (net_self s)\<lparr>sn_master := [], sn_state := NsMasterPending\<rparr>, net_ready := False\<rparr>"

definition electionTick :: "int \<times> int \<Rightarrow> net \<Rightarrow> net" where
  "electionTick tval s =
     (if sn_state (net_self s) = NsMasterPending then
        let s1 = s\<lparr>net_master_pending_counter := net_master_pending_counter s + 1\<rparr>
        in if net_master_pending_counter s1 \<ge> MASTERPENDING_MAX_COUNTER then electSelf tval s1 else s1
      else if sn_state (net_self s) = NsReady then
        if sn_master (net_self s) \<noteq> sn_identifier (net_self s) then
          let s1 = s\<lparr>net_master_sync_pending_counter := net_master_sync_pending_counter s + 1\<rparr>
          in if net_master_sync_pending_counter s1 \<ge> MASTERSYNC_MAX_COUNTER then loseMaster s1 else s1
        else s
      else s)"

definition resendLast :: "net \<Rightarrow> net" where
  "resendLast s = fold (\<lambda>p. writeOutput ((snd p)\<lparr>dm_playback := True,
     dm_source_write_handler := net_name s\<rparr>)) (net_topic_last s) s"

text \<open>The task of the timer, which exists when the node has an input and an output.\<close>

definition timerTask :: "int \<times> int \<Rightarrow> net \<Rightarrow> net" where
  "timerTask tval s =
     (let s1 = writeSys (electionTick tval s);
          master = (sn_master (net_self s1) = sn_identifier (net_self s1));
          s2 = (if net_has_output s1 \<and> master \<and>
                   net_number_of_neighbor s1 < int (length (net_nodelist s1))
                then resendLast s1 else s1)
      in s2\<lparr>net_number_of_neighbor := int (length (net_nodelist s2)), net_is_master := master\<rparr>)"

section \<open>Reconciliation with a remote node\<close>

definition earlier :: "timestamp \<Rightarrow> timestamp \<Rightarrow> bool" where
  "earlier a b \<longleftrightarrow> fst a < fst b \<or> fst a = fst b \<and> snd a < snd b"

definition followMaster :: "string \<Rightarrow> int \<times> int \<Rightarrow> net \<Rightarrow> net" where
  "followMaster master tval s = s\<lparr>
     net_self := (net_self s)\<lparr>sn_master := master, sn_updated := fromTimeval tval\<rparr>,
     net_last_remote_master_timestamp := tval, net_master_pending_counter := 0,
     net_master_sync_pending_counter := 0\<rparr>"

definition reconcileElection :: "int \<times> int \<Rightarrow> sys_node \<Rightarrow> net \<Rightarrow> net checked" where
  "reconcileElection tval other s =
     (if sn_state (net_self s) = NsMasterPending \<and> sn_state other = NsReady then
        if sn_master (net_self s) \<noteq> [] then Inl ''assert(self->masteridentifier().empty())''
        else if sn_master other = [] then Inl ''assert(!other.masteridentifier().empty())''
        else
          let s1 = followMaster (sn_master other) tval
                     (s\<lparr>net_self := (net_self s)\<lparr>sn_state := NsReady\<rparr>\<rparr>)
          in sendPendingOutboundQueueMessage ((writeSys s1)\<lparr>net_ready := True\<rparr>)
      else if sn_state (net_self s) = NsReady then
        if sn_master (net_self s) = [] then Inl ''assert(!self->masteridentifier().empty())''
        else if net_master_pending_counter s \<noteq> 0 then Inl ''assert(0 == this->m_master_pending_counter)''
        else if sn_identifier other = sn_master (net_self s) then
          if sn_state other = NsReady
          then Inr (s\<lparr>net_master_sync_pending_counter := 0, net_last_remote_master_timestamp := tval\<rparr>)
          else if sn_master other \<noteq> [] then Inl ''assert(other.masteridentifier().empty())''
          else
            let s1 = s\<lparr>net_self := (net_self s)\<lparr>sn_state := NsMasterPending, sn_master := [],
                         sn_updated := fromTimeval tval\<rparr>,
                       net_last_remote_master_timestamp := (0, 0), net_master_pending_counter := 0,
                       net_master_sync_pending_counter := 0\<rparr>
            in Inr ((writeSys s1)\<lparr>net_ready := False\<rparr>)
        else if sn_state other = NsReady \<and> sn_master other \<noteq> sn_master (net_self s) then
          if sn_master other = [] then Inl ''assert(!other.masteridentifier().empty())''
          else if earlier (sn_initialized other) (sn_initialized (net_self s))
          then Inr (writeSys (followMaster (sn_master other) tval s))
          else Inr s
        else Inr s
      else Inr s)"

text \<open>The index of the first neighbour with the identifier, or the length of the list.\<close>

fun nodeIndex :: "string \<Rightarrow> sys_node list \<Rightarrow> nat" where
  "nodeIndex ident [] = 0"
| "nodeIndex ident (n # ns) = (if ident = sn_identifier n then 0 else Suc (nodeIndex ident ns))"

definition updateNodelist :: "sys_node \<Rightarrow> sys_node list \<Rightarrow> sys_node list" where
  "updateNodelist other ns =
     (let index = nodeIndex (sn_identifier other) ns
      in if sn_state other = NsDestroyed then
           if index \<ge> length ns then ns else take index ns @ drop (index + 1) ns
         else
           let ns1 = (if index \<ge> length ns then ns @ [emptyNode] else ns)
           in ns1[index := (ns1 ! index)\<lparr>sn_identifier := sn_identifier other,
                sn_master := sn_master other, sn_state := sn_state other,
                sn_initialized := sn_initialized other, sn_updated := sn_updated other\<rparr>])"

definition reconciliateDMesgPbSys :: "int \<times> int \<Rightarrow> dmesg \<Rightarrow> net \<Rightarrow> net checked" where
  "reconciliateDMesgPbSys tval dmesgpb_other s =
     (let other = selfOf dmesgpb_other
      in case reconcileElection tval other s of
           Inl e \<Rightarrow> Inl e
         | Inr s1 \<Rightarrow> Inr (s1\<lparr>net_nodelist := updateNodelist other (net_nodelist s1)\<rparr>))"

section \<open>The inbound side\<close>

text \<open>
  What \<open>read\<close> gives: an error (whether it is \<open>message_size\<close>), nothing, or data, which protobuf
  parses or not (\<open>None\<close> for empty or malformed data).
\<close>

datatype read_result = ReadError bool | ReadNothing | ReadData "dmesg option"

definition forcePlayback :: "dmesg \<Rightarrow> dmesg" where
  "forcePlayback m = m\<lparr>dm_playback := True, dm_force := True\<rparr>"

text \<open>\<open>ok\<close> is the answer of \<open>writeAndCheckConflict\<close> on the write handler.\<close>

definition republish :: "dmesg \<Rightarrow> net \<Rightarrow> net" where
  "republish m s = s\<lparr>net_republished := net_republished s @ [m]\<rparr>"

definition inputMessage :: "int \<times> int \<Rightarrow> bool \<Rightarrow> dmesg \<Rightarrow> net \<Rightarrow> net checked" where
  "inputMessage tval ok m s =
     (if dm_source_write_handler m = net_name s then Inr s
      else if dm_type m = DtSys then reconciliateDMesgPbSys tval m s
      else
        let lastMesgPb = map_of (net_topic_last s) (dm_topic m)
        in if dm_conflict m then
             (case lastMesgPb of
                None \<Rightarrow> Inl ''assert(lastMesgPb)''
              | Some last_m \<Rightarrow>
                  if \<not> net_is_master s then Inr s
                  else if \<not> net_has_output s then Inl ''null output handler''
                  else Inr (writeOutput (forcePlayback last_m) s))
           else if dm_force m \<and> dm_playback m then
             let s1 = republish m s
             in if ok then Inr (rememberTopic m s1)
                else Inl ''assert(force and playback write fail)''
           else
             let m1 = m\<lparr>dm_source_write_handler := net_name s\<rparr>;
                 m2 = (case lastMesgPb of
                         Some last_m \<Rightarrow>
                           if dm_running_counter last_m \<ge> dm_running_counter m1
                           then m1\<lparr>dm_conflict := True\<rparr> else m1
                       | None \<Rightarrow> m1);
                 s1 = republish m2 s
             in if ok then Inr (rememberTopic m2 s1)
                else (case lastMesgPb of
                        None \<Rightarrow> Inl ''dereference of an empty optional''
                      | Some last_m \<Rightarrow>
                          if \<not> net_has_output s then Inl ''null output handler''
                          else Inr (writeOutput (forcePlayback last_m)
                                 (writeOutput (m2\<lparr>dm_conflict := True\<rparr>) s1))))"

text \<open>One turn of the input loop, and whether the loop goes on.\<close>

definition inputTurn :: "int \<times> int \<Rightarrow> bool \<Rightarrow> read_result \<Rightarrow> net \<Rightarrow> (net \<times> bool) checked" where
  "inputTurn tval ok r s =
     (if \<not> net_has_input s \<or> net_shutdown s then Inr (s, False)
      else case r of
        ReadError messageSize \<Rightarrow> Inr (s, messageSize)
      | ReadNothing \<Rightarrow> Inr (s, True)
      | ReadData None \<Rightarrow> Inr (s, True)
      | ReadData (Some m) \<Rightarrow>
          (case inputMessage tval ok m s of Inl e \<Rightarrow> Inl e | Inr s1 \<Rightarrow> Inr (s1, True)))"

section \<open>Destruction\<close>

definition destroyNet :: "int \<times> int \<Rightarrow> net \<Rightarrow> net" where
  "destroyNet tval s =
     (let s1 = s\<lparr>net_shutdown := True\<rparr>
      in if \<not> net_has_output s1 then s1
         else
           let s2 = s1\<lparr>net_self := (net_self s1)\<lparr>sn_state := NsDestroyed, sn_master := [],
                         sn_updated := fromTimeval tval\<rparr>\<rparr>
           in writeOutput ((sysMessage s2)\<lparr>dm_source_identifier := net_name s2,
             dm_source_write_handler := net_name s2\<rparr>) s2)"

section \<open>The node as a state machine\<close>

text \<open>
  A peer's heartbeat is well formed when it names a master exactly while it is Ready; a node with
  an input and an output also runs its timer and forwards local messages.
\<close>

definition heartbeat_ok :: "sys_node \<Rightarrow> bool" where
  "heartbeat_ok n \<longleftrightarrow> (sn_state n = NsReady) = (sn_master n \<noteq> [])"

inductive net_step :: "net \<Rightarrow> net \<Rightarrow> bool" where
  net_timer: "net_step s (timerTask tval s)"
| net_forward: "forwardMessage m s = Inr t \<Longrightarrow> net_step s t"
| net_input: "dm_type m = DtSys \<Longrightarrow> heartbeat_ok (selfOf m) \<Longrightarrow>
    inputMessage tval ok m s = Inr t \<Longrightarrow> net_step s t"
| net_input_message: "dm_type m \<noteq> DtSys \<Longrightarrow> inputMessage tval ok m s = Inr t \<Longrightarrow> net_step s t"

definition net_init :: "net \<Rightarrow> bool" where
  "net_init s \<longleftrightarrow> (\<exists>name tval. name \<noteq> [] \<and> s = newNet name True True tval)"

end
