(* ===== verification/DMesgNetProps.thy ===== *)
theory DMesgNetProps
  imports DMesgNet
begin

text \<open>
  The election of a master: its invariant, its timing without messages as an abstract automaton,
  what two masters that meet do, and the order in which outbound messages leave the node.
\<close>

section \<open>The invariant\<close>

definition election_ok :: "net \<Rightarrow> bool" where
  "election_ok s \<longleftrightarrow> net_name s \<noteq> [] \<and> sn_identifier (net_self s) = net_name s \<and>
     (case sn_state (net_self s) of
        NsMasterPending \<Rightarrow> sn_master (net_self s) = [] \<and> \<not> net_ready s \<and>
          0 \<le> net_master_pending_counter s \<and> net_master_pending_counter s < 3 \<and>
          net_master_sync_pending_counter s = 0
      | NsReady \<Rightarrow> sn_master (net_self s) \<noteq> [] \<and> net_ready s \<and> net_master_pending_counter s = 0 \<and>
          0 \<le> net_master_sync_pending_counter s \<and> net_master_sync_pending_counter s < 5
      | _ \<Rightarrow> False)"

definition nodelist_ok :: "net \<Rightarrow> bool" where
  "nodelist_ok s \<longleftrightarrow> distinct (map sn_identifier (net_nodelist s)) \<and>
     list_all (\<lambda>n. sn_state n \<noteq> NsDestroyed) (net_nodelist s)"

definition outbound_ok :: "net \<Rightarrow> bool" where
  "outbound_ok s \<longleftrightarrow> distinct (map fst (net_outbound_pending s)) \<and>
     list_all (\<lambda>p. list_all (\<lambda>m. dm_topic m = fst p \<and> dm_type m \<noteq> DtSys) (snd p)) (net_outbound_pending s)"

definition net_ok :: "net \<Rightarrow> bool" where
  "net_ok s \<longleftrightarrow> election_ok s \<and> nodelist_ok s \<and> outbound_ok s"

text \<open>Operations that touch only the logs and caches.\<close>

definition same_election :: "net \<Rightarrow> net \<Rightarrow> bool" where
  "same_election s t \<longleftrightarrow> net_name t = net_name s \<and> net_self t = net_self s \<and>
     net_ready t = net_ready s \<and> net_master_pending_counter t = net_master_pending_counter s \<and>
     net_master_sync_pending_counter t = net_master_sync_pending_counter s \<and>
     net_nodelist t = net_nodelist s \<and> net_has_output t = net_has_output s"

lemma same_election_refl [simp]: "same_election s s"
  by (simp add: same_election_def)

lemma same_election_trans: "same_election s t \<Longrightarrow> same_election t u \<Longrightarrow> same_election s u"
  by (simp add: same_election_def)

lemma same_election_ok: "same_election s t \<Longrightarrow> election_ok s \<Longrightarrow> election_ok t"
  "same_election s t \<Longrightarrow> nodelist_ok s \<Longrightarrow> nodelist_ok t"
  by (auto simp: same_election_def election_ok_def nodelist_ok_def split: node_state.splits)

lemma outbound_cong: "net_outbound_pending t = net_outbound_pending s \<Longrightarrow> outbound_ok s \<Longrightarrow> outbound_ok t"
  by (simp add: outbound_ok_def)

lemma write_same [simp]:
  "same_election s (writeOutput m t) = same_election s t" "same_election s (writeSys t) = same_election s t"
  "same_election s (rememberTopic m t) = same_election s t" "same_election s (republish m t) = same_election s t"
  by (simp_all add: writeOutput_def writeSys_def rememberTopic_def republish_def same_election_def)

lemma write_fields [simp]:
  "net_outbound_pending (writeOutput m t) = net_outbound_pending t"
  "net_outbound_pending (writeSys t) = net_outbound_pending t"
  "net_outbound_pending (rememberTopic m t) = net_outbound_pending t"
  "net_outbound_pending (republish m t) = net_outbound_pending t"
  "net_output (writeSys t) = net_output t" "net_output (rememberTopic m t) = net_output t"
  "net_output (republish m t) = net_output t" "net_output (writeOutput m t) = net_output t @ [m]"
  by (simp_all add: writeOutput_def writeSys_def rememberTopic_def republish_def)

lemma sendPending_fold:
  "same_election s (fold sendPending q s) \<and>
   net_outbound_pending (fold sendPending q s) = net_outbound_pending s \<and>
   net_output (fold sendPending q s) = net_output s @ q"
proof (induction q arbitrary: s)
  case (Cons m q)
  have "same_election s (sendPending m s)" "net_outbound_pending (sendPending m s) = net_outbound_pending s"
      "net_output (sendPending m s) = net_output s @ [m]"
    by (simp_all add: sendPending_def Let_def)
  then show ?case using Cons [of "sendPending m s"] same_election_trans by auto
qed simp

lemma sendQueues_fold:
  "same_election s (fold (\<lambda>p s. fold sendPending (snd p) s) qs s) \<and>
   net_outbound_pending (fold (\<lambda>p s. fold sendPending (snd p) s) qs s) = net_outbound_pending s \<and>
   net_output (fold (\<lambda>p s. fold sendPending (snd p) s) qs s) = net_output s @ concat (map snd qs)"
proof (induction qs arbitrary: s)
  case (Cons p qs)
  show ?case
    using Cons [of "fold sendPending (snd p) s"] sendPending_fold [of s "snd p"] same_election_trans
    by auto
qed simp

lemma sendPendingOutbound_cases:
  assumes "net_ready s"
  obtains t where "sendPendingOutboundQueueMessage s = Inr t" "same_election s t"
    "net_output t = (if net_has_output s then net_output s @ concat (map snd (net_outbound_pending s)) else net_output s)"
    "net_outbound_pending t = (if net_has_output s then map (\<lambda>p. (fst p, [])) (net_outbound_pending s)
       else net_outbound_pending s)"
proof (cases "net_has_output s")
  case True
  let ?f = "fold (\<lambda>p s. fold sendPending (snd p) s) (net_outbound_pending s) s"
  show ?thesis
    using that [of "?f\<lparr>net_outbound_pending := map (\<lambda>p. (fst p, [])) (net_outbound_pending s)\<rparr>"]
      sendQueues_fold [of s "net_outbound_pending s"] assms True
    by (simp add: sendPendingOutboundQueueMessage_def Let_def same_election_def)
next
  case False
  then show ?thesis using that assms by (simp add: sendPendingOutboundQueueMessage_def)
qed

lemma outbound_cleared: "outbound_ok s \<Longrightarrow> net_outbound_pending t = map (\<lambda>p. (fst p, [])) (net_outbound_pending s)
    \<Longrightarrow> outbound_ok t"
  by (auto simp: outbound_ok_def list_all_iff comp_def)

lemma sendPendingOutbound_ok:
  assumes "sendPendingOutboundQueueMessage s = Inr t" and "net_ready s" and "outbound_ok s"
  shows "same_election s t \<and> outbound_ok t"
proof -
  obtain u where "sendPendingOutboundQueueMessage s = Inr u" "same_election s u"
      "net_outbound_pending u = (if net_has_output s then map (\<lambda>p. (fst p, [])) (net_outbound_pending s)
       else net_outbound_pending s)"
    using sendPendingOutbound_cases [OF assms(2)] by blast
  then show ?thesis
    using assms outbound_cleared [of s t] outbound_cong [of t s] by (auto split: if_splits)
qed

lemma queueOutbound_ok:
  assumes "outbound_ok s" and "dm_type m \<noteq> DtSys"
  shows "same_election s (queueOutbound m s) \<and> outbound_ok (queueOutbound m s)"
proof -
  let ?q = "case map_of (net_outbound_pending s) (dm_topic m) of None \<Rightarrow> [] | Some q \<Rightarrow> q"
  have d: "distinct (map fst (net_outbound_pending s))" using assms(1) by (simp add: outbound_ok_def)
  have q: "list_all (\<lambda>x. dm_topic x = dm_topic m \<and> dm_type x \<noteq> DtSys) ?q"
    using assms(1) by (auto simp: outbound_ok_def list_all_iff split: option.split dest!: map_of_SomeD)
  have "p = (dm_topic m, ?q @ [m]) \<or> p \<in> set (net_outbound_pending s)"
    if "p \<in> set (AList.update (dm_topic m) (?q @ [m]) (net_outbound_pending s))" for p
  proof -
    have "distinct (map fst (AList.update (dm_topic m) (?q @ [m]) (net_outbound_pending s)))"
      using d by (rule distinct_update)
    then have "map_of (AList.update (dm_topic m) (?q @ [m]) (net_outbound_pending s)) (fst p) = Some (snd p)"
      using that by simp
    then show ?thesis by (cases p) (auto simp: update_conv' split: if_splits dest: map_of_SomeD)
  qed
  then have "list_all (\<lambda>p. list_all (\<lambda>x. dm_topic x = fst p \<and> dm_type x \<noteq> DtSys) (snd p))
      (AList.update (dm_topic m) (?q @ [m]) (net_outbound_pending s))"
    using assms q by (fastforce simp: outbound_ok_def list_all_iff)
  then show ?thesis
    using d by (simp add: queueOutbound_def Let_def same_election_def outbound_ok_def distinct_update)
qed

lemma forwardMessage_ok:
  assumes "forwardMessage m s = Inr t" and "outbound_ok s"
  shows "same_election s t \<and> outbound_ok t"
proof (cases "subscriptFilter m s \<and> net_has_output s")
  case True
  let ?m = "m\<lparr>dm_source_write_handler := net_name s\<rparr>"
  have cong: "outbound_ok (writeOutput ?m u) = outbound_ok u" "outbound_ok (rememberTopic ?m u) = outbound_ok u" for u
    by (simp_all add: outbound_ok_def)
  show ?thesis
  proof (cases "net_ready s")
    case ready: True
    show ?thesis
    proof (cases "dm_type m = DtSys")
      case sys: True
      have "net_ready (writeOutput ?m s)" using ready by (simp add: writeOutput_def)
      then show ?thesis
        using assms True ready sys sendPendingOutbound_ok [of "writeOutput ?m s" t] cong
          same_election_trans [of s "writeOutput ?m s" t]
        by (simp add: forwardMessage_def Let_def)
    next
      case False
      then obtain u where "sendPendingOutboundQueueMessage s = Inr u" "t = rememberTopic ?m (writeOutput ?m u)"
        using assms(1) True ready by (auto simp: forwardMessage_def Let_def split: sum.splits)
      then show ?thesis using sendPendingOutbound_ok [of s u] ready assms(2) cong by simp
    qed
  next
    case False
    then show ?thesis
      using assms True queueOutbound_ok [of s ?m] cong
      by (auto simp: forwardMessage_def Let_def split: if_splits)
  qed
qed (use assms in \<open>simp add: forwardMessage_def split: if_splits\<close>)

section \<open>Elections\<close>

lemma electionTick_ok: "election_ok s \<Longrightarrow> election_ok (electionTick tval s)"
  by (auto simp: election_ok_def electionTick_def electSelf_def loseMaster_def Let_def split: node_state.splits)

lemma electionTick_rest:
  "net_nodelist (electionTick tval s) = net_nodelist s"
  "net_outbound_pending (electionTick tval s) = net_outbound_pending s"
  by (simp_all add: electionTick_def electSelf_def loseMaster_def Let_def)

lemma resendLast_same: "same_election s (resendLast s) \<and> net_outbound_pending (resendLast s) = net_outbound_pending s"
proof -
  have "same_election s (fold (\<lambda>p. writeOutput (f p)) ps s) \<and>
      net_outbound_pending (fold (\<lambda>p. writeOutput (f p)) ps s) = net_outbound_pending s"
    for f and ps :: "(string \<times> dmesg) list"
  proof (induction ps arbitrary: s)
    case (Cons p ps)
    then show ?case using Cons [of "writeOutput (f p) s"] same_election_trans [of s "writeOutput (f p) s"] by simp
  qed simp
  then show ?thesis by (simp add: resendLast_def)
qed

lemma timerTask_election:
  "same_election (electionTick tval s) (timerTask tval s) \<and>
   net_outbound_pending (timerTask tval s) = net_outbound_pending s"
proof -
  let ?s1 = "writeSys (electionTick tval s)"
  have log: "same_election u (t\<lparr>net_number_of_neighbor := n, net_is_master := b\<rparr>) = same_election u t" for u t n b
    by (simp add: same_election_def)
  have "same_election (electionTick tval s) (resendLast ?s1)"
    using resendLast_same [of ?s1] same_election_trans [of "electionTick tval s" ?s1] by simp
  then show ?thesis
    using resendLast_same [of ?s1] by (simp add: timerTask_def Let_def log electionTick_rest)
qed

lemma reconcileElection_ok:
  assumes "election_ok s" and "outbound_ok s" and "heartbeat_ok other"
  shows "\<exists>t. reconcileElection tval other s = Inr t \<and> election_ok t \<and> outbound_ok t \<and>
    net_nodelist t = net_nodelist s"
proof (cases "sn_state (net_self s) = NsMasterPending \<and> sn_state other = NsReady")
  case True
  then have m: "sn_master other \<noteq> []" using assms(3) by (simp add: heartbeat_ok_def)
  let ?s1 = "(writeSys (followMaster (sn_master other) tval
      (s\<lparr>net_self := (net_self s)\<lparr>sn_state := NsReady\<rparr>\<rparr>)))\<lparr>net_ready := True\<rparr>"
  have s1: "election_ok ?s1" "outbound_ok ?s1" "net_ready ?s1" "net_nodelist ?s1 = net_nodelist s"
    using assms True m by (auto simp: election_ok_def followMaster_def writeSys_def outbound_ok_def)
  obtain t where t: "sendPendingOutboundQueueMessage ?s1 = Inr t"
    using sendPendingOutbound_cases [OF s1(3)] by blast
  note same = sendPendingOutbound_ok [OF t s1(3,2)]
  then have "net_nodelist t = net_nodelist s" using s1(4) by (simp add: same_election_def)
  moreover have "reconcileElection tval other s = Inr t"
    using True m t assms(1) by (simp add: reconcileElection_def election_ok_def)
  ultimately show ?thesis using same same_election_ok(1) s1(1) by blast
next
  case False
  then show ?thesis
    using assms by (auto simp: reconcileElection_def election_ok_def outbound_ok_def heartbeat_ok_def
        followMaster_def writeSys_def Let_def split: node_state.splits)
qed

lemma reconcileElection_nodelist:
  "reconcileElection tval other s = Inr t \<Longrightarrow> net_nodelist t = net_nodelist s"
proof -
  assume r: "reconcileElection tval other s = Inr t"
  have send: "net_nodelist v = net_nodelist u" if "sendPendingOutboundQueueMessage u = Inr v" for u v
    using that sendQueues_fold [of u "net_outbound_pending u"]
    by (auto simp: sendPendingOutboundQueueMessage_def Let_def same_election_def split: if_splits)
  show ?thesis
    using r by (auto simp: reconcileElection_def followMaster_def writeSys_def Let_def split: if_splits dest!: send)
qed

lemma nodeIndex_le: "nodeIndex i ns \<le> length ns"
  by (induction i ns rule: nodeIndex.induct) auto

lemma nodeIndex_absent: "nodeIndex i ns = length ns \<longleftrightarrow> i \<notin> sn_identifier ` set ns"
  by (induction i ns rule: nodeIndex.induct) auto

lemma nodeIndex_nth: "nodeIndex i ns < length ns \<Longrightarrow> sn_identifier (ns ! nodeIndex i ns) = i"
  by (induction i ns rule: nodeIndex.induct) (auto split: if_splits)

lemma updateNodelist_ok:
  assumes "distinct (map sn_identifier ns)" and "list_all (\<lambda>n. sn_state n \<noteq> NsDestroyed) ns"
  shows "distinct (map sn_identifier (updateNodelist other ns)) \<and>
    list_all (\<lambda>n. sn_state n \<noteq> NsDestroyed) (updateNodelist other ns) \<and>
    sn_identifier ` set (updateNodelist other ns) =
      (if sn_state other = NsDestroyed then sn_identifier ` set ns - {sn_identifier other}
       else insert (sn_identifier other) (sn_identifier ` set ns))"
proof (cases "sn_identifier other \<in> sn_identifier ` set ns")
  case False
  then have "nodeIndex (sn_identifier other) ns = length ns" by (simp add: nodeIndex_absent)
  then show ?thesis
    using assms False by (auto simp: updateNodelist_def Let_def nth_append)
next
  case True
  let ?i = "nodeIndex (sn_identifier other) ns"
  have i: "?i < length ns" using True nodeIndex_le [of "sn_identifier other" ns] nodeIndex_absent [of "sn_identifier other" ns]
    by linarith
  note at = nodeIndex_nth [OF i]
  have split: "ns = take ?i ns @ ns ! ?i # drop (Suc ?i) ns" using i by (rule id_take_nth_drop)
  show ?thesis
  proof (cases "sn_state other = NsDestroyed")
    case gone: True
    have "updateNodelist other ns = take ?i ns @ drop (Suc ?i) ns"
      using gone i by (simp add: updateNodelist_def Let_def)
    moreover have "distinct (map sn_identifier (take ?i ns @ ns ! ?i # drop (Suc ?i) ns))"
        "list_all (\<lambda>n. sn_state n \<noteq> NsDestroyed) (take ?i ns @ ns ! ?i # drop (Suc ?i) ns)"
      using assms split by simp_all
    moreover have "sn_identifier ` set ns = sn_identifier ` set (take ?i ns @ ns ! ?i # drop (Suc ?i) ns)"
      using split by simp
    ultimately show ?thesis using at gone
      by (auto simp del: append_take_drop_id) (metis imageI)+
  next
    case False
    let ?new = "(ns ! ?i)\<lparr>sn_identifier := sn_identifier other, sn_master := sn_master other,
        sn_state := sn_state other, sn_initialized := sn_initialized other, sn_updated := sn_updated other\<rparr>"
    have u: "updateNodelist other ns = ns[?i := ?new]"
      using False i by (simp add: updateNodelist_def Let_def)
    have "map sn_identifier (ns[?i := ?new]) = map sn_identifier ns"
      using i at by (simp add: map_update list_update_same_conv)
    then have "sn_identifier ` set (ns[?i := ?new]) = sn_identifier ` set ns" by (metis set_map)
    moreover have "list_all (\<lambda>n. sn_state n \<noteq> NsDestroyed) (ns[?i := ?new])"
      using assms(2) False set_update_subset_insert [of ns ?i ?new] by (auto simp: list_all_iff)
    ultimately show ?thesis
      using u assms(1) True False \<open>map sn_identifier (ns[?i := ?new]) = map sn_identifier ns\<close>
      by (auto simp: insert_absorb)
  qed
qed

lemma nodelist_irrelevant:
  "election_ok (t\<lparr>net_nodelist := ns\<rparr>) = election_ok t" "outbound_ok (t\<lparr>net_nodelist := ns\<rparr>) = outbound_ok t"
  by (simp_all add: election_ok_def outbound_ok_def split: node_state.splits)

lemma reconciliate_ok:
  assumes "net_ok s" and "heartbeat_ok (selfOf m)"
  shows "\<exists>t. reconciliateDMesgPbSys tval m s = Inr t \<and> net_ok t"
proof -
  obtain t where t: "reconcileElection tval (selfOf m) s = Inr t" "election_ok t" "outbound_ok t"
      "net_nodelist t = net_nodelist s"
    using reconcileElection_ok assms unfolding net_ok_def by blast
  then show ?thesis
    using updateNodelist_ok [of "net_nodelist s" "selfOf m"] assms(1)
    by (auto simp: reconciliateDMesgPbSys_def Let_def net_ok_def nodelist_ok_def nodelist_irrelevant)
qed

section \<open>The node in every interleaving\<close>

lemma reconciliate_known:
  assumes "net_ok s" and "reconciliateDMesgPbSys tval m s = Inr t"
  shows "sn_identifier ` set (net_nodelist t) =
    (if sn_state (selfOf m) = NsDestroyed then sn_identifier ` set (net_nodelist s) - {sn_identifier (selfOf m)}
     else insert (sn_identifier (selfOf m)) (sn_identifier ` set (net_nodelist s)))"
proof -
  obtain u where u: "reconcileElection tval (selfOf m) s = Inr u"
      "t = u\<lparr>net_nodelist := updateNodelist (selfOf m) (net_nodelist u)\<rparr>"
    using assms(2) by (auto simp: reconciliateDMesgPbSys_def Let_def split: sum.splits)
  have "net_nodelist u = net_nodelist s" using u(1) by (rule reconcileElection_nodelist)
  then show ?thesis
    using updateNodelist_ok [of "net_nodelist s" "selfOf m"] assms(1) u(2)
    by (simp add: net_ok_def nodelist_ok_def)
qed

lemma inputMessage_same:
  assumes "inputMessage tval ok m s = Inr t" and "dm_type m \<noteq> DtSys"
  shows "same_election s t \<and> net_outbound_pending t = net_outbound_pending s"
  using assms by (auto simp: inputMessage_def Let_def split: if_splits option.splits)

lemma same_net_ok: "same_election s t \<Longrightarrow> outbound_ok t \<Longrightarrow> net_ok s \<Longrightarrow> net_ok t"
  using same_election_ok by (auto simp: net_ok_def)

lemma net_ok_step:
  assumes "net_ok s" and "net_step s t"
  shows "net_ok t"
  using assms(2,1)
proof cases
  case (net_timer tval)
  have "net_ok (electionTick tval s)"
    using assms(1) electionTick_ok outbound_cong [of "electionTick tval s" s]
    by (simp add: net_ok_def nodelist_ok_def electionTick_rest)
  then show ?thesis
    using net_timer timerTask_election [of tval s] same_net_ok [of "electionTick tval s" t]
      outbound_cong [of t s] assms(1) by (simp add: net_ok_def)
next
  case (net_forward m)
  then show ?thesis using forwardMessage_ok [of m s t] same_net_ok [of s t] assms(1) by (simp add: net_ok_def)
next
  case (net_input m tval ok)
  then show ?thesis
    using reconciliate_ok [OF assms(1), of m tval] assms(1) by (auto simp: inputMessage_def split: if_splits)
next
  case (net_input_message m tval ok)
  then show ?thesis
    using inputMessage_same [of tval ok m s t] same_net_ok [of s t] outbound_cong [of t s] assms(1)
    by (simp add: net_ok_def)
qed

lemma newNet_ok: "name \<noteq> [] \<Longrightarrow> net_ok (newNet name True True tval)"
  by (simp add: newNet_def Let_def writeSys_def net_ok_def election_ok_def nodelist_ok_def outbound_ok_def)

interpretation election: invariant_system net_init net_step net_ok
  by unfold_locales (auto simp: net_init_def newNet_ok intro: net_ok_step)

lemma net_ok_heartbeat: "net_ok s \<Longrightarrow> heartbeat_ok (net_self s)"
  by (auto simp: net_ok_def election_ok_def heartbeat_ok_def split: node_state.splits)

text \<open>
  C13: the election keeps its invariant in every interleaving of timer ticks, local messages and
  messages from the network: a node is either waiting (no master, not ready, fewer than three ticks
  counted) or Ready with a master (fewer than five silent ticks counted); its list of neighbours
  names each node once and no destroyed one; its outbound queues hold only ordinary messages of
  their own topic; its own heartbeat is well formed.  And a well-formed heartbeat from any peer,
  at any such moment, fails none of the assertions of the reconciliation, keeps the invariant, and
  adds that peer to the neighbours, or removes it when it announces its destruction.
\<close>

theorem election_invariant:
  assumes "reachable net_init net_step s" and "heartbeat_ok (selfOf m)"
  shows "net_ok s \<and> heartbeat_ok (net_self s) \<and>
    (\<exists>t. reconciliateDMesgPbSys tval m s = Inr t \<and> net_ok t \<and>
       sn_identifier ` set (net_nodelist t) =
         (if sn_state (selfOf m) = NsDestroyed
          then sn_identifier ` set (net_nodelist s) - {sn_identifier (selfOf m)}
          else insert (sn_identifier (selfOf m)) (sn_identifier ` set (net_nodelist s))))"
  using election.reachable_inv [OF assms(1)] net_ok_heartbeat
    reconciliate_ok [OF election.reachable_inv [OF assms(1)] assms(2), of tval] reconciliate_known
  by blast

definition sampleNet :: net where
  "sampleNet = newNet ''a'' True True (5, 0)"

lemma election_invariant_witness:
  "\<exists>t. reconciliateDMesgPbSys (7, 0) (sysMessage (timerTask (6, 0) (newNet ''b'' True True (4, 0)))) sampleNet = Inr t \<and>
     sn_identifier ` set (net_nodelist t) = {''b''}"
proof -
  let ?m = "sysMessage (timerTask (6, 0) (newNet ''b'' True True (4, 0)))"
  have peer: "sn_state (selfOf ?m) = NsMasterPending" "sn_master (selfOf ?m) = []" "sn_identifier (selfOf ?m) = ''b''"
    by code_simp+
  have "reachable net_init net_step sampleNet"
    by (rule reach_init) (auto simp: net_init_def sampleNet_def)
  moreover have "net_nodelist sampleNet = []" by code_simp
  moreover have "heartbeat_ok (selfOf ?m)" using peer by (simp add: heartbeat_ok_def)
  ultimately show ?thesis
    using election_invariant [of sampleNet ?m "(7, 0)"] peer by auto
qed

section \<open>The timing of an election\<close>

text \<open>
  What the neighbours of a node can tell of its election: it waits, it follows a master it has not
  heard for some ticks, or it leads.
\<close>

datatype election = Waiting nat | Following nat | Leading

fun tick :: "election \<Rightarrow> election" where
  "tick (Waiting n) = (if Suc n \<ge> 3 then Leading else Waiting (Suc n))"
| "tick (Following n) = (if Suc n \<ge> 5 then Waiting 0 else Following (Suc n))"
| "tick Leading = Leading"

definition electionOf :: "net \<Rightarrow> election" where
  "electionOf s =
     (if sn_state (net_self s) = NsMasterPending then Waiting (nat (net_master_pending_counter s))
      else if sn_master (net_self s) = sn_identifier (net_self s) then Leading
      else Following (nat (net_master_sync_pending_counter s)))"

lemma electionTick_refines: "election_ok s \<Longrightarrow> electionOf (electionTick tval s) = tick (electionOf s)"
  by (auto simp: election_ok_def electionOf_def electionTick_def electSelf_def loseMaster_def Let_def
      nat_add_distrib split: node_state.splits)

lemma same_electionOf: "same_election s t \<Longrightarrow> electionOf t = electionOf s"
  by (simp add: same_election_def electionOf_def)

lemma timerTask_refines:
  assumes "net_ok s"
  shows "net_ok (timerTask tval s) \<and> electionOf (timerTask tval s) = tick (electionOf s)"
  using assms net_ok_step [OF assms net_timer] timerTask_election [of tval s]
    same_electionOf [of "electionTick tval s" "timerTask tval s"] electionTick_refines [of s tval]
  by (simp add: net_ok_def)

lemma timers_refine:
  "net_ok s \<Longrightarrow> net_ok (fold timerTask tvals s) \<and>
     electionOf (fold timerTask tvals s) = (tick ^^ length tvals) (electionOf s)"
proof (induction tvals arbitrary: s)
  case (Cons tval tvals)
  then show ?case
    using timerTask_refines [of s tval] by (simp add: funpow_swap1)
qed simp


text \<open>An upper bound on the silent ticks that are left before the node leads.\<close>

fun ticksLeft :: "election \<Rightarrow> nat" where
  "ticksLeft (Waiting n) = max 1 (3 - n)"
| "ticksLeft (Following n) = 3 + max 1 (5 - n)"
| "ticksLeft Leading = 0"

lemma ticksLeft_tick: "ticksLeft (tick e) \<le> ticksLeft e - 1"
  by (cases e) auto

lemma ticksLeft_ticks: "ticksLeft ((tick ^^ n) e) \<le> ticksLeft e - n"
proof (induction n)
  case (Suc n)
  then show ?case using ticksLeft_tick [of "(tick ^^ n) e"] by simp
qed simp

lemma ticks_lead: "8 \<le> n \<Longrightarrow> (tick ^^ n) e = Leading"
proof -
  assume "8 \<le> n"
  moreover have "ticksLeft e \<le> 8" by (cases e) auto
  ultimately have "ticksLeft ((tick ^^ n) e) = 0" using ticksLeft_ticks [of n e] by simp
  then show "(tick ^^ n) e = Leading" by (cases "(tick ^^ n) e") auto
qed

lemma leading_fields:
  assumes "net_ok s" and "electionOf s = Leading"
  shows "sn_state (net_self s) = NsReady" "sn_master (net_self s) = net_name s" "net_ready s"
    "net_master_pending_counter s = 0"
  using assms by (auto simp: net_ok_def election_ok_def electionOf_def split: node_state.splits if_splits)

text \<open>
  C15: on a silent network the heartbeat timer drives the node exactly like the three-state automaton:
  a waiting node elects itself at its third tick, a follower gives its master up after five silent
  ticks and waits again, a leader stays.  So a node in any state has elected itself after eight
  ticks, is ready to send, and names itself as its master.
\<close>

theorem silent_network_elects:
  assumes "net_ok s"
  shows "electionOf (fold timerTask tvals s) = (tick ^^ length tvals) (electionOf s) \<and>
    (if 8 \<le> length tvals
     then sn_state (net_self (fold timerTask tvals s)) = NsReady \<and> net_ready (fold timerTask tvals s) \<and>
       sn_master (net_self (fold timerTask tvals s)) = net_name (fold timerTask tvals s)
     else True)"
  using timers_refine [OF assms, of tvals] ticks_lead [of "length tvals" "electionOf s"]
    leading_fields [of "fold timerTask tvals s"] by auto

lemma silent_network_elects_witness:
  "electionOf (fold timerTask [(6, 0), (7, 0)] sampleNet) = Waiting 2 \<and>
   electionOf (fold timerTask [(6, 0), (7, 0), (8, 0)] sampleNet) = Leading"
proof -
  have ok: "net_ok sampleNet" by (simp add: sampleNet_def newNet_ok)
  have "electionOf sampleNet = Waiting 0" by code_simp
  then show ?thesis
    using silent_network_elects [OF ok, of "[(6, 0), (7, 0)]"]
      silent_network_elects [OF ok, of "[(6, 0), (7, 0), (8, 0)]"]
    by (simp add: numeral_2_eq_2 numeral_3_eq_3)
qed

section \<open>Two masters\<close>

lemma leader_hears_leader:
  assumes "net_ok a" and "electionOf a = Leading" and "net_ok b" and "electionOf b = Leading"
    and "net_name a \<noteq> net_name b"
  shows "\<exists>t. reconciliateDMesgPbSys tval (sysMessage b) a = Inr t \<and> net_ok t \<and> net_name t = net_name a \<and>
    (if earlier (sn_initialized (net_self b)) (sn_initialized (net_self a))
     then electionOf t = Following 0 \<and> sn_master (net_self t) = net_name b
     else electionOf t = Leading) \<and> sn_initialized (net_self t) = sn_initialized (net_self a)"
proof -
  have self: "selfOf (sysMessage b) = net_self b" by (simp add: sysMessage_def selfOf_def)
  have name: "net_name b \<noteq> []" "sn_identifier (net_self a) = net_name a" "sn_identifier (net_self b) = net_name b"
      "net_name a \<noteq> []"
    using assms(1,3) by (auto simp: net_ok_def election_ok_def)
  have el: "reconcileElection tval (net_self b) a =
      Inr (if earlier (sn_initialized (net_self b)) (sn_initialized (net_self a))
        then writeSys (followMaster (net_name b) tval a) else a)"
    using leading_fields [OF assms(1,2)] leading_fields [OF assms(3,4)] name assms(5)
    by (simp add: reconcileElection_def)
  obtain t where t: "reconciliateDMesgPbSys tval (sysMessage b) a = Inr t" "net_ok t"
    using reconciliate_ok [OF assms(1), of "sysMessage b" tval] net_ok_heartbeat [OF assms(3)] self by auto
  show ?thesis
    using t el self assms(2,5) name leading_fields [OF assms(1,2)]
    by (auto simp: reconciliateDMesgPbSys_def Let_def electionOf_def followMaster_def writeSys_def split: if_splits)
qed

text \<open>
  When two masters hear each other's heartbeat, the one that started earlier stays master and
  the other one follows it; the other's own claim does not reach the first one's election.
\<close>

theorem earlier_master_wins:
  assumes "net_ok a" and "net_ok b" and "electionOf a = Leading" and "electionOf b = Leading"
    and "net_name a \<noteq> net_name b"
    and "earlier (sn_initialized (net_self a)) (sn_initialized (net_self b))"
  shows "\<exists>a' b'. reconciliateDMesgPbSys ta (sysMessage b) a = Inr a' \<and>
    reconciliateDMesgPbSys tb (sysMessage a) b = Inr b' \<and>
    electionOf a' = Leading \<and> electionOf b' = Following 0 \<and> sn_master (net_self b') = net_name a \<and>
    net_ok a' \<and> net_ok b'"
proof -
  have "\<not> earlier (sn_initialized (net_self b)) (sn_initialized (net_self a))"
    using assms(6) by (auto simp: earlier_def)
  then show ?thesis
    using leader_hears_leader [OF assms(1,3,2,4,5), of ta]
      leader_hears_leader [OF assms(2,4,1,3) assms(5) [symmetric], of tb] assms(6)
    by auto
qed

definition sampleMaster :: "string \<Rightarrow> int \<times> int \<Rightarrow> net" where
  "sampleMaster name tval = fold timerTask [(10, 0), (11, 0), (12, 0)] (newNet name True True tval)"

lemma sampleMaster_ok: "name \<noteq> [] \<Longrightarrow> net_ok (sampleMaster name tval)"
  unfolding sampleMaster_def using timers_refine newNet_ok by blast

lemma earlier_master_wins_witness:
  "\<exists>b'. reconciliateDMesgPbSys (20, 0) (sysMessage (sampleMaster ''a'' (1, 5))) (sampleMaster ''b'' (2, 0)) = Inr b' \<and>
     sn_master (net_self b') = ''a''"
proof -
  let ?a = "sampleMaster ''a'' (1, 5)" and ?b = "sampleMaster ''b'' (2, 0)"
  have "net_ok ?a" "net_ok ?b" by (simp_all add: sampleMaster_ok)
  moreover have "electionOf ?a = Leading" "electionOf ?b = Leading" by code_simp+
  moreover have "net_name ?a = ''a''" "net_name ?b = ''b''" by code_simp+
  moreover have "earlier (sn_initialized (net_self ?a)) (sn_initialized (net_self ?b))" by code_simp
  ultimately show ?thesis using earlier_master_wins [of ?a ?b "(20, 0)" "(20, 0)"] by auto
qed

text \<open>One heartbeat of each of two nodes, heard by the other one.\<close>

definition exchange :: "int \<times> int \<Rightarrow> net \<times> net \<Rightarrow> (net \<times> net) checked" where
  "exchange tval p =
     (let a = timerTask tval (fst p); b = timerTask tval (snd p)
      in case reconciliateDMesgPbSys tval (sysMessage b) a of
           Inl e \<Rightarrow> Inl e
         | Inr a' \<Rightarrow> (case reconciliateDMesgPbSys tval (sysMessage a) b of
                       Inl e \<Rightarrow> Inl e | Inr b' \<Rightarrow> Inr (a', b')))"

fun exchanges :: "(int \<times> int) list \<Rightarrow> net \<times> net \<Rightarrow> (net \<times> net) checked" where
  "exchanges [] p = Inr p"
| "exchanges (tval # tvals) p =
     (case exchange tval p of Inl e \<Rightarrow> Inl e | Inr p' \<Rightarrow> exchanges tvals p')"

definition tied :: "net \<times> net \<Rightarrow> bool" where
  "tied p \<longleftrightarrow> net_ok (fst p) \<and> net_ok (snd p) \<and> electionOf (fst p) = Leading \<and> electionOf (snd p) = Leading \<and>
     net_name (fst p) \<noteq> net_name (snd p) \<and>
     sn_initialized (net_self (fst p)) = sn_initialized (net_self (snd p))"

lemma timerTask_leading:
  assumes "net_ok s" and "electionOf s = Leading"
  shows "net_ok (timerTask tval s)" "electionOf (timerTask tval s) = Leading"
    "net_name (timerTask tval s) = net_name s"
    "sn_initialized (net_self (timerTask tval s)) = sn_initialized (net_self s)"
proof -
  have "electionTick tval s = s"
    using leading_fields [OF assms] assms(1) by (simp add: electionTick_def net_ok_def election_ok_def)
  then show "net_name (timerTask tval s) = net_name s"
      "sn_initialized (net_self (timerTask tval s)) = sn_initialized (net_self s)"
    using timerTask_election [of tval s] by (simp_all add: same_election_def)
qed (use timerTask_refines [OF assms(1)] assms(2) in simp_all)

lemma exchange_tied: "tied p \<Longrightarrow> \<exists>q. exchange tval p = Inr q \<and> tied q"
proof -
  assume p: "tied p"
  let ?a = "timerTask tval (fst p)" and ?b = "timerTask tval (snd p)"
  have f: "net_ok ?a" "electionOf ?a = Leading" "net_ok ?b" "electionOf ?b = Leading" "net_name ?a \<noteq> net_name ?b"
      "sn_initialized (net_self ?a) = sn_initialized (net_self ?b)"
    using p timerTask_leading by (auto simp: tied_def)
  have "\<not> earlier (sn_initialized (net_self ?a)) (sn_initialized (net_self ?b))"
      "\<not> earlier (sn_initialized (net_self ?b)) (sn_initialized (net_self ?a))"
    using f(6) by (auto simp: earlier_def)
  then show ?thesis
    using leader_hears_leader [OF f(1-5), of tval] leader_hears_leader [OF f(3,4,1,2) f(5) [symmetric], of tval] f
    by (auto simp: exchange_def Let_def tied_def)
qed

lemma exchanges_tied: "tied p \<Longrightarrow> \<exists>q. exchanges tvals p = Inr q \<and> tied q"
proof (induction tvals arbitrary: p)
  case (Cons tval tvals)
  then show ?case using exchange_tied [of p tval] by fastforce
qed simp

text \<open>
  Two masters whose start times are equal never settle: however many heartbeats they exchange,
  both stay Ready, each naming itself as the master.
\<close>

theorem tie_never_resolved:
  assumes "net_ok a" and "net_ok b" and "electionOf a = Leading" and "electionOf b = Leading"
    and "net_name a \<noteq> net_name b" and "sn_initialized (net_self a) = sn_initialized (net_self b)"
  shows "\<exists>a' b'. exchanges tvals (a, b) = Inr (a', b') \<and>
    sn_state (net_self a') = NsReady \<and> sn_master (net_self a') = net_name a' \<and>
    sn_state (net_self b') = NsReady \<and> sn_master (net_self b') = net_name b' \<and> net_name a' \<noteq> net_name b'"
proof -
  obtain q where "exchanges tvals (a, b) = Inr q" "tied q"
    using exchanges_tied [of "(a, b)" tvals] assms by (auto simp: tied_def)
  then show ?thesis using leading_fields by (cases q) (auto simp: tied_def)
qed

lemma tie_never_resolved_witness:
  "\<exists>a' b'. exchanges [(20, 0), (21, 0)] (sampleMaster ''a'' (1, 5), sampleMaster ''b'' (1, 5)) = Inr (a', b') \<and>
     sn_master (net_self a') \<noteq> sn_master (net_self b')"
proof -
  let ?a = "sampleMaster ''a'' (1, 5)" and ?b = "sampleMaster ''b'' (1, 5)"
  have "net_ok ?a" "net_ok ?b" by (simp_all add: sampleMaster_ok)
  moreover have "electionOf ?a = Leading" "electionOf ?b = Leading" by code_simp+
  moreover have "net_name ?a = ''a''" "net_name ?b = ''b''" by code_simp+
  moreover have "sn_initialized (net_self ?a) = sn_initialized (net_self ?b)" by code_simp
  ultimately show ?thesis using tie_never_resolved [of ?a ?b "[(20, 0), (21, 0)]"] by auto
qed

end
