(* ===== verification/DMesgNetOutbound.thy ===== *)
theory DMesgNetOutbound
  imports DMesgNetProps
begin

text \<open>
  What leaves the node: the order of the messages of one topic through the outbound queue, and the
  node that has an output but no input.
\<close>

section \<open>The messages of one topic\<close>

definition ofTopic :: "string \<Rightarrow> dmesg list \<Rightarrow> dmesg list" where
  "ofTopic topic ms = filter (\<lambda>m. dm_topic m = topic \<and> dm_type m \<noteq> DtSys) ms"

text \<open>What was written for a topic, followed by what still waits.\<close>

definition topicStream :: "string \<Rightarrow> net \<Rightarrow> dmesg list" where
  "topicStream topic s = ofTopic topic (net_output s @ concat (map snd (net_outbound_pending s)))"

definition pendingQueue :: "string \<Rightarrow> (string \<times> dmesg list) list \<Rightarrow> dmesg list" where
  "pendingQueue topic qs = (case map_of qs topic of None \<Rightarrow> [] | Some q \<Rightarrow> q)"

lemma ofTopic_append [simp]: "ofTopic topic (xs @ ys) = ofTopic topic xs @ ofTopic topic ys"
  by (simp add: ofTopic_def)

lemma ofTopic_queue:
  "list_all (\<lambda>m. dm_topic m = t \<and> dm_type m \<noteq> DtSys) q \<Longrightarrow> ofTopic topic q = (if t = topic then q else [])"
  by (auto simp: ofTopic_def list_all_iff filter_empty_conv filter_id_conv)

lemma ofTopic_pending:
  assumes "distinct (map fst qs)"
    and "list_all (\<lambda>p. list_all (\<lambda>m. dm_topic m = fst p \<and> dm_type m \<noteq> DtSys) (snd p)) qs"
  shows "ofTopic topic (concat (map snd qs)) = pendingQueue topic qs"
  using assms
proof (induction qs)
  case (Cons p qs)
  have "ofTopic topic (snd p) = (if fst p = topic then snd p else [])"
    using Cons.prems(2) by (intro ofTopic_queue) simp
  moreover have "map_of qs topic = None" if "fst p = topic"
    using Cons.prems(1) that by (auto simp: map_of_eq_None_iff)
  ultimately show ?case using Cons by (cases p) (auto simp: pendingQueue_def)
qed (simp add: ofTopic_def pendingQueue_def)

lemma topicStream_split:
  assumes "outbound_ok s"
  shows "topicStream topic s = ofTopic topic (net_output s) @ pendingQueue topic (net_outbound_pending s)"
  using ofTopic_pending assms by (simp add: topicStream_def outbound_ok_def)

lemma sendPendingOutbound_stream:
  assumes "sendPendingOutboundQueueMessage s = Inr t" and "net_ready s" and "net_has_output s"
  shows "topicStream topic t = topicStream topic s" "list_all (\<lambda>p. snd p = []) (net_outbound_pending t)"
proof -
  obtain u where u: "sendPendingOutboundQueueMessage s = Inr u"
      "net_output u = net_output s @ concat (map snd (net_outbound_pending s))"
      "net_outbound_pending u = map (\<lambda>p. (fst p, [])) (net_outbound_pending s)"
    using sendPendingOutbound_cases [OF assms(2)] assms(3) by auto
  have "ofTopic topic (concat (map (\<lambda>p. []) qs)) = []" for qs :: "(string \<times> dmesg list) list"
    by (induction qs) (auto simp: ofTopic_def)
  then show "topicStream topic t = topicStream topic s" using u assms(1) by (simp add: topicStream_def comp_def)
  show "list_all (\<lambda>p. snd p = []) (net_outbound_pending t)" using u assms(1) by (auto simp: list_all_iff)
qed

lemma queueOutbound_stream:
  assumes "outbound_ok s" and "dm_type m \<noteq> DtSys"
  shows "topicStream topic (queueOutbound m s) = topicStream topic s @ ofTopic topic [m]"
    "net_output (queueOutbound m s) = net_output s"
proof -
  have "outbound_ok (queueOutbound m s)" using queueOutbound_ok [OF assms] by simp
  moreover have "net_outbound_pending (queueOutbound m s) = AList.update (dm_topic m)
      (pendingQueue (dm_topic m) (net_outbound_pending s) @ [m]) (net_outbound_pending s)"
    by (simp add: queueOutbound_def Let_def pendingQueue_def)
  moreover show "net_output (queueOutbound m s) = net_output s" by (simp add: queueOutbound_def Let_def)
  ultimately show "topicStream topic (queueOutbound m s) = topicStream topic s @ ofTopic topic [m]"
    using assms by (simp add: topicStream_split) (simp add: pendingQueue_def update_conv' ofTopic_def)
qed

lemma emptied_stream:
  "list_all (\<lambda>p. snd p = []) (net_outbound_pending s) \<Longrightarrow> topicStream topic s = ofTopic topic (net_output s)"
  by (simp add: topicStream_def) (simp add: ofTopic_def list_all_iff)

text \<open>The three ways of a message that passes the filter.\<close>

lemma forwardMessage_cases:
  assumes "forwardMessage m s = Inr t" and "subscriptFilter m s" and "net_has_output s"
  defines "m' \<equiv> m\<lparr>dm_source_write_handler := net_name s\<rparr>"
  obtains (now) u where "net_ready s" "dm_type m \<noteq> DtSys"
      "sendPendingOutboundQueueMessage s = Inr u" "t = rememberTopic m' (writeOutput m' u)"
  | (sys) "net_ready s" "dm_type m = DtSys" "sendPendingOutboundQueueMessage (writeOutput m' s) = Inr t"
  | (first) "\<not> net_ready s" "dm_type m = DtSys" "t = writeOutput m' s"
  | (later) "\<not> net_ready s" "dm_type m \<noteq> DtSys" "t = queueOutbound m' s"
  using assms by (auto simp: forwardMessage_def Let_def split: if_splits sum.splits)

lemma forward_stream:
  assumes "outbound_ok s" and "net_has_output s" and "forwardMessage m s = Inr t"
  shows "topicStream topic t = topicStream topic s @
      (if subscriptFilter m s then ofTopic topic [m\<lparr>dm_source_write_handler := net_name s\<rparr>] else [])"
    (is ?stream)
    and "if subscriptFilter m s \<and> net_ready s then list_all (\<lambda>p. snd p = []) (net_outbound_pending t)
         else ofTopic topic (net_output t) = ofTopic topic (net_output s)" (is ?sent)
proof -
  let ?m = "m\<lparr>dm_source_write_handler := net_name s\<rparr>"
  have "?stream \<and> ?sent"
  proof (cases "subscriptFilter m s")
    case False
    then have "t = s" using assms(3) by (simp add: forwardMessage_def)
    then show ?thesis using False by simp
  next
    case True
    from assms(3) True assms(2) show ?thesis
    proof (cases rule: forwardMessage_cases)
      case (now u)
      note s = sendPendingOutbound_stream [OF now(3,1) assms(2)]
      have q: "list_all (\<lambda>p. snd p = []) (net_outbound_pending t)" using s(2) now(4) by simp
      have "topicStream topic s = ofTopic topic (net_output u)" using s emptied_stream by simp
      moreover have "net_output t = net_output u @ [?m]" using now(4) by simp
      ultimately show ?thesis using emptied_stream [OF q] q True now(1) by simp
    next
      case sys
      have "net_ready (writeOutput ?m s)" "net_has_output (writeOutput ?m s)"
        using sys(1) assms(2) by (simp_all add: writeOutput_def)
      note s = sendPendingOutbound_stream [OF sys(3) this]
      have "ofTopic topic [?m] = []" "ofTopic topic (?m # xs) = ofTopic topic xs" for xs
        using sys(2) by (simp_all add: ofTopic_def)
      then have "topicStream topic t = topicStream topic s" using s(1) by (simp add: topicStream_def)
      then show ?thesis using s(2) sys(1) True \<open>ofTopic topic [?m] = []\<close> by simp
    next
      case first
      have "ofTopic topic [?m] = []" using first(2) by (simp add: ofTopic_def)
      then show ?thesis using first True by (simp add: topicStream_def) (simp add: ofTopic_def)
    next
      case later
      then show ?thesis using queueOutbound_stream(1) [OF assms(1), of ?m topic] queueOutbound_stream(2) [OF assms(1), of ?m] True by simp
    qed
  qed
  then show ?stream ?sent by blast+
qed


definition sampleMessage :: "string \<Rightarrow> dmesg" where
  "sampleMessage text = \<lparr>dm_topic = ''t'', dm_running_counter = 1, dm_source_identifier = [],
     dm_source_write_handler = ''w'', dm_type = DtMessage, dm_playback = False, dm_conflict = False,
     dm_force = False, dm_body = MessageBody text\<rparr>"


section \<open>A node with an output only\<close>

fun forwardAll :: "dmesg list \<Rightarrow> net \<Rightarrow> net checked" where
  "forwardAll [] s = Inr s"
| "forwardAll (m # ms) s = (case forwardMessage m s of Inl e \<Rightarrow> Inl e | Inr t \<Rightarrow> forwardAll ms t)"

lemma forwardAll_unready:
  assumes "outbound_ok s" and "net_has_output s" and "\<not> net_ready s"
    and "list_all (\<lambda>m. dm_type m \<noteq> DtSys \<and> dm_source_write_handler m \<noteq> net_name s) ms"
  shows "\<exists>t. forwardAll ms s = Inr t \<and> net_output t = net_output s \<and> net_self t = net_self s \<and>
    topicStream topic t = topicStream topic s @
      ofTopic topic (map (\<lambda>m. m\<lparr>dm_source_write_handler := net_name s\<rparr>) ms)"
  using assms
proof (induction ms arbitrary: s)
  case Nil
  then show ?case by (simp add: ofTopic_def)
next
  case (Cons m ms)
  let ?m = "m\<lparr>dm_source_write_handler := net_name s\<rparr>"
  let ?u = "queueOutbound ?m s"
  have f: "forwardMessage m s = Inr ?u"
    using Cons.prems by (simp add: forwardMessage_def subscriptFilter_def Let_def)
  have u: "same_election s ?u" "outbound_ok ?u"
    using queueOutbound_ok [of s ?m] Cons.prems by simp_all
  then obtain t where t: "forwardAll ms ?u = Inr t" "net_output t = net_output ?u" "net_self t = net_self ?u"
      "topicStream topic t = topicStream topic ?u @ ofTopic topic (map (\<lambda>m. m\<lparr>dm_source_write_handler := net_name ?u\<rparr>) ms)"
    using Cons.IH [of ?u] Cons.prems by (auto simp: same_election_def)
  let ?rest = "map (\<lambda>m. m\<lparr>dm_source_write_handler := net_name s\<rparr>) ms"
  have "ofTopic topic (?m # ?rest) = ofTopic topic [?m] @ ofTopic topic ?rest"
    using ofTopic_append [of topic "[?m]" ?rest] by simp
  then show ?case
    using f t u(1) queueOutbound_stream(1) [of s ?m topic] queueOutbound_stream(2) [of s ?m] Cons.prems
    by (simp add: same_election_def)
qed

text \<open>
  A node built with an output and no input is Ready at once in its own heartbeat, but its ready
  flag is never set, because only the timer and a remote heartbeat set it and this node has neither.
  So it sends none of its local messages: all of them wait in the outbound queue for ever.
\<close>

theorem output_only_never_sends:
  assumes "list_all (\<lambda>m. dm_type m \<noteq> DtSys \<and> dm_source_write_handler m \<noteq> name) ms"
  shows "\<exists>t. forwardAll ms (newNet name False True tval) = Inr t \<and>
    sn_state (net_self t) = NsReady \<and> sn_master (net_self t) = name \<and> net_output t = [] \<and>
    topicStream topic t = ofTopic topic (map (\<lambda>m. m\<lparr>dm_source_write_handler := name\<rparr>) ms)"
proof -
  let ?s = "newNet name False True tval"
  have s: "outbound_ok ?s" "net_has_output ?s" "\<not> net_ready ?s" "net_name ?s = name" "net_output ?s = []"
      "sn_state (net_self ?s) = NsReady" "sn_master (net_self ?s) = name" "topicStream topic ?s = []"
    by (simp_all add: newNet_def outbound_ok_def topicStream_def ofTopic_def)
  show ?thesis using forwardAll_unready [of ?s ms topic] s assms by auto
qed

lemma output_only_never_sends_witness:
  "\<exists>t. forwardAll [sampleMessage ''x'', sampleMessage ''y''] (newNet ''a'' False True (1, 0)) = Inr t \<and> net_output t = []"
  using output_only_never_sends [of "''a''" "[sampleMessage ''x'', sampleMessage ''y'']" "(1, 0)"]
  by (auto simp: sampleMessage_def)

end
