(* ===== verification/PubSub.thy ===== *)
theory PubSub
  imports Dmn_Prelude
begin

text \<open>
  The publisher of \<open>include/dmn-pub-sub.hpp\<close>: the replay buffer, registration, publication with a
  filter, and the record of callbacks that threw.  Every operation here is one task of the
  publisher's serial context.

  A subscriber is an identifier \<open>'i\<close>.  What its callbacks do is not known to the publisher, so the
  filter and \<open>notify\<close> are parameters: they read and change a state \<open>'s\<close> of the subscribers, and may
  throw.  A filter that throws answers \<open>None\<close>; a \<open>notify\<close> that throws answers \<open>True\<close> beside the state
  it leaves.
\<close>

section \<open>State\<close>

datatype failure_kind = KFilter | KNotify

record 'i callback_failure =
  cf_kind :: failure_kind
  cf_subscriber :: 'i

text \<open>\<open>pb_subscribers\<close> pairs each subscriber with its replay quantity; \<open>-1\<close> stands for all.\<close>

record ('i, 't) pub =
  pb_capacity :: nat
  pb_failure_capacity :: int
  pb_buffer :: "'t list"
  pb_subscribers :: "('i \<times> int) list"
  pb_failures :: "'i callback_failure list"

type_synonym ('i, 't, 's) filter_task = "'i \<Rightarrow> 't \<Rightarrow> 's \<Rightarrow> bool option"
type_synonym ('i, 't, 's) notify_task = "'i \<Rightarrow> 't \<Rightarrow> 's \<Rightarrow> 's \<times> bool"

definition newPub :: "nat \<Rightarrow> int \<Rightarrow> ('i, 't) pub" where
  "newPub capacity failureCapacity = \<lparr>pb_capacity = capacity, pb_failure_capacity = failureCapacity,
     pb_buffer = [], pb_subscribers = [], pb_failures = []\<rparr>"

section \<open>Operations\<close>

definition recordCallbackFailure :: "failure_kind \<Rightarrow> 'i \<Rightarrow> ('i, 't) pub \<Rightarrow> ('i, 't) pub" where
  "recordCallbackFailure kind sub p =
     (if pb_failure_capacity p = 0 then p
      else
        let kept = (if pb_failure_capacity p > 0 \<and> int (length (pb_failures p)) \<ge> pb_failure_capacity p
                    then drop 1 (pb_failures p) else pb_failures p)
        in p\<lparr>pb_failures := kept @ [\<lparr>cf_kind = kind, cf_subscriber = sub\<rparr>]\<rparr>)"

definition takeCallbackFailures :: "('i, 't) pub \<Rightarrow> ('i, 't) pub \<times> 'i callback_failure list" where
  "takeCallbackFailures p = (p\<lparr>pb_failures := []\<rparr>, pb_failures p)"

text \<open>The push into the ring buffer of the last \<open>m_capacity\<close> items.\<close>

definition retain :: "'t \<Rightarrow> ('i, 't) pub \<Rightarrow> ('i, 't) pub" where
  "retain item p =
     (let buffer = pb_buffer p @ [item]
      in p\<lparr>pb_buffer := (if length buffer > pb_capacity p
             then drop (length buffer - pb_capacity p) buffer else buffer)\<rparr>)"

text \<open>The exception that a blocking publication rethrows is the first one recorded in the turn.\<close>

definition firstOf :: "'i callback_failure option \<Rightarrow> failure_kind \<Rightarrow> 'i \<Rightarrow> 'i callback_failure option" where
  "firstOf first kind sub =
     (case first of None \<Rightarrow> Some \<lparr>cf_kind = kind, cf_subscriber = sub\<rparr> | Some f \<Rightarrow> Some f)"

fun deliver :: "('i, 't, 's) filter_task \<Rightarrow> ('i, 't, 's) notify_task \<Rightarrow> 't \<Rightarrow> ('i \<times> int) list \<Rightarrow>
    ('i, 't) pub \<times> 's \<Rightarrow> 'i callback_failure option \<Rightarrow>
    (('i, 't) pub \<times> 's) \<times> 'i callback_failure option" where
  "deliver filt notify item [] (p, s) first = ((p, s), first)"
| "deliver filt notify item ((sub, quantity) # subs) (p, s) first =
     (case filt sub item s of
        None \<Rightarrow> deliver filt notify item subs (recordCallbackFailure KFilter sub p, s)
                  (firstOf first KFilter sub)
      | Some False \<Rightarrow> deliver filt notify item subs (p, s) first
      | Some True \<Rightarrow>
          (case notify sub item s of
             (s', False) \<Rightarrow> deliver filt notify item subs (p, s') first
           | (s', True) \<Rightarrow> deliver filt notify item subs (recordCallbackFailure KNotify sub p, s')
                              (firstOf first KNotify sub)))"

definition publishInternal :: "('i, 't, 's) filter_task \<Rightarrow> ('i, 't, 's) notify_task \<Rightarrow> 't \<Rightarrow>
    ('i, 't) pub \<times> 's \<Rightarrow> (('i, 't) pub \<times> 's) \<times> 'i callback_failure option" where
  "publishInternal filt notify item ps =
     (let p = retain item (fst ps)
      in deliver filt notify item (pb_subscribers p) (p, snd ps) None)"

fun replay :: "('i, 't, 's) notify_task \<Rightarrow> 'i \<Rightarrow> 't list \<Rightarrow> ('i, 't) pub \<times> 's \<Rightarrow> ('i, 't) pub \<times> 's" where
  "replay notify sub [] (p, s) = (p, s)"
| "replay notify sub (item # items) (p, s) =
     (case notify sub item s of
        (s', threw) \<Rightarrow> replay notify sub items
          (if threw then recordCallbackFailure KNotify sub p else p, s'))"

definition itemsToBeSkipped :: "int \<Rightarrow> nat \<Rightarrow> nat" where
  "itemsToBeSkipped replayQuantity buffered =
     (if replayQuantity = 0 then buffered
      else if replayQuantity > 0 \<and> buffered > nat replayQuantity then buffered - nat replayQuantity
      else 0)"

definition registerSubscriber :: "('i, 't, 's) notify_task \<Rightarrow> 'i \<Rightarrow> int \<Rightarrow>
    ('i, 't) pub \<times> 's \<Rightarrow> ('i, 't) pub \<times> 's" where
  "registerSubscriber notify sub replayQuantity ps =
     (let p = fst ps
      in if sub \<in> fst ` set (pb_subscribers p) then ps
         else replay notify sub (drop (itemsToBeSkipped replayQuantity (length (pb_buffer p))) (pb_buffer p))
                (p\<lparr>pb_subscribers := pb_subscribers p @ [(sub, replayQuantity)]\<rparr>, snd ps))"

text \<open>\<open>None\<close> is the failed assertion on a subscriber that is not registered.\<close>

definition unregisterSubscriber :: "'i \<Rightarrow> ('i, 't) pub \<Rightarrow> ('i, 't) pub option" where
  "unregisterSubscriber sub p =
     (if sub \<in> fst ` set (pb_subscribers p)
      then Some (p\<lparr>pb_subscribers := filter (\<lambda>q. fst q \<noteq> sub) (pb_subscribers p)\<rparr>)
      else None)"

end
