(* ===== verification/PubSubProps.thy ===== *)
theory PubSubProps
  imports PubSub
begin

text \<open>
  What a publication delivers and records, for subscribers whose callbacks only log what they get.
\<close>

section \<open>The record of failures\<close>

definition suffix_of :: "nat \<Rightarrow> 't list \<Rightarrow> 't list" where
  "suffix_of n xs = drop (length xs - n) xs"

lemma suffix_of_append: "suffix_of n (suffix_of n xs @ ys) = suffix_of n (xs @ ys)"
  by (cases "n \<le> length xs") (simp_all add: suffix_of_def drop_drop add.commute)

text \<open>The retained suffix of a list of failures.\<close>

definition retained :: "int \<Rightarrow> 'x list \<Rightarrow> 'x list" where
  "retained capacity fs = (if capacity < 0 then fs else suffix_of (nat capacity) fs)"

definition failures_ok :: "('i, 't) pub \<Rightarrow> bool" where
  "failures_ok p \<longleftrightarrow> (pb_failure_capacity p < 0 \<or> int (length (pb_failures p)) \<le> pb_failure_capacity p)"

lemma retained_append: "retained c (retained c xs @ ys) = retained c (xs @ ys)"
  by (simp add: retained_def suffix_of_append)

lemma retained_nil [simp]: "retained c [] = []"
  by (simp add: retained_def suffix_of_def)

lemma retained_ok: "failures_ok p \<Longrightarrow> retained (pb_failure_capacity p) (pb_failures p) = pb_failures p"
  by (auto simp: failures_ok_def retained_def suffix_of_def)

lemma recordCallbackFailure_retained:
  assumes "failures_ok p"
  shows "pb_failures (recordCallbackFailure kind sub p) =
      retained (pb_failure_capacity p) (pb_failures p @ [\<lparr>cf_kind = kind, cf_subscriber = sub\<rparr>])"
    "failures_ok (recordCallbackFailure kind sub p)"
proof -
  let ?c = "pb_failure_capacity p" and ?f = "\<lparr>cf_kind = kind, cf_subscriber = sub\<rparr>"
  consider (none) "?c = 0" | (all) "?c < 0" | (full) "?c > 0" "int (length (pb_failures p)) = ?c"
    | (room) "?c > 0" "int (length (pb_failures p)) < ?c"
    using assms by (force simp: failures_ok_def)
  then have "pb_failures (recordCallbackFailure kind sub p) = retained ?c (pb_failures p @ [?f]) \<and>
      failures_ok (recordCallbackFailure kind sub p)"
  proof cases
    case full
    then obtain x xs where xs: "pb_failures p = x # xs" by (cases "pb_failures p") auto
    with full have "nat ?c = Suc (length xs)" by simp
    with full xs show ?thesis
      by (auto simp: recordCallbackFailure_def retained_def suffix_of_def failures_ok_def Let_def)
  qed (use assms in \<open>auto simp: recordCallbackFailure_def retained_def suffix_of_def failures_ok_def Let_def\<close>)
  then show "pb_failures (recordCallbackFailure kind sub p) = retained ?c (pb_failures p @ [?f])"
    "failures_ok (recordCallbackFailure kind sub p)" by blast+
qed

lemma recordCallbackFailure_rest [simp]:
  "pb_failure_capacity (recordCallbackFailure kind sub p) = pb_failure_capacity p"
  "pb_capacity (recordCallbackFailure kind sub p) = pb_capacity p"
  "pb_buffer (recordCallbackFailure kind sub p) = pb_buffer p"
  "pb_subscribers (recordCallbackFailure kind sub p) = pb_subscribers p"
  by (simp_all add: recordCallbackFailure_def Let_def)

section \<open>Logging subscribers\<close>

text \<open>
  \<open>accepts\<close> answers for the filter and \<open>threw\<close> for \<open>notify\<close>, which logs the item before it throws.
\<close>

definition logFilter :: "('i \<Rightarrow> 't \<Rightarrow> bool option) \<Rightarrow> ('i, 't, ('i \<times> 't) list) filter_task" where
  "logFilter accepts sub item log = accepts sub item"

definition logNotify :: "('i \<Rightarrow> 't \<Rightarrow> bool) \<Rightarrow> ('i, 't, ('i \<times> 't) list) notify_task" where
  "logNotify threw sub item log = (log @ [(sub, item)], threw sub item)"

definition delivered :: "('i \<Rightarrow> 't \<Rightarrow> bool option) \<Rightarrow> ('i \<times> int) list \<Rightarrow> 't \<Rightarrow> ('i \<times> 't) list" where
  "delivered accepts subs item =
     map (\<lambda>q. (fst q, item)) (filter (\<lambda>q. accepts (fst q) item = Some True) subs)"

definition failing :: "('i \<Rightarrow> 't \<Rightarrow> bool option) \<Rightarrow> ('i \<Rightarrow> 't \<Rightarrow> bool) \<Rightarrow> ('i \<times> int) list \<Rightarrow> 't \<Rightarrow>
    'i callback_failure list" where
  "failing accepts threw subs item = concat (map (\<lambda>q. case accepts (fst q) item of
       None \<Rightarrow> [\<lparr>cf_kind = KFilter, cf_subscriber = fst q\<rparr>]
     | Some True \<Rightarrow> if threw (fst q) item then [\<lparr>cf_kind = KNotify, cf_subscriber = fst q\<rparr>] else []
     | Some False \<Rightarrow> []) subs)"

definition firstFailure :: "'f option \<Rightarrow> 'f list \<Rightarrow> 'f option" where
  "firstFailure first fs = (case first of Some f \<Rightarrow> Some f | None \<Rightarrow> (case fs of [] \<Rightarrow> None | f # _ \<Rightarrow> Some f))"

lemma deliver_log:
  assumes "failures_ok p"
  shows "\<exists>q. deliver (logFilter accepts) (logNotify threw) item subs (p, log) first =
      ((q, log @ delivered accepts subs item), firstFailure first (failing accepts threw subs item)) \<and>
    failures_ok q \<and> pb_failure_capacity q = pb_failure_capacity p \<and> pb_capacity q = pb_capacity p \<and>
    pb_buffer q = pb_buffer p \<and> pb_subscribers q = pb_subscribers p \<and>
    pb_failures q = retained (pb_failure_capacity p) (pb_failures p @ failing accepts threw subs item)"
  using assms
proof (induction subs arbitrary: p log first)
  case Nil
  then show ?case by (auto simp: delivered_def failing_def firstFailure_def retained_ok split: option.split)
next
  case (Cons q subs)
  obtain sub n where q: "q = (sub, n)" by (cases q)
  consider (rejected) "accepts sub item = Some False" | (threw) "accepts sub item = None"
    | (ok) "accepts sub item = Some True" "\<not> threw sub item" | (fails) "accepts sub item = Some True" "threw sub item"
    by (cases "accepts sub item") auto
  then show ?case
  proof cases
    case rejected
    then show ?thesis using Cons.IH [OF Cons.prems, of log first] q
      by (simp add: logFilter_def delivered_def failing_def)
  next
    case ok
    then show ?thesis using Cons.IH [OF Cons.prems, of "log @ [(sub, item)]" first] q
      by (simp add: logFilter_def logNotify_def delivered_def failing_def)
  next
    case threw
    note r = recordCallbackFailure_retained [OF Cons.prems, of KFilter sub]
    show ?thesis
      using Cons.IH [OF r(2), of log "firstOf first KFilter sub"] q threw r(1)
        retained_append [of "pb_failure_capacity p" "pb_failures p @ [\<lparr>cf_kind = KFilter, cf_subscriber = sub\<rparr>]"]
      by (auto simp: logFilter_def delivered_def failing_def firstOf_def firstFailure_def split: option.splits)
  next
    case fails
    note r = recordCallbackFailure_retained [OF Cons.prems, of KNotify sub]
    show ?thesis
      using Cons.IH [OF r(2), of "log @ [(sub, item)]" "firstOf first KNotify sub"] q fails r(1)
        retained_append [of "pb_failure_capacity p" "pb_failures p @ [\<lparr>cf_kind = KNotify, cf_subscriber = sub\<rparr>]"]
      by (auto simp: logFilter_def logNotify_def delivered_def failing_def firstOf_def firstFailure_def
          split: option.splits)
  qed
qed

section \<open>A sequence of publications\<close>

fun publishAll :: "('i, 't, 's) filter_task \<Rightarrow> ('i, 't, 's) notify_task \<Rightarrow> 't list \<Rightarrow>
    ('i, 't) pub \<times> 's \<Rightarrow> ('i, 't) pub \<times> 's" where
  "publishAll filt notify [] ps = ps"
| "publishAll filt notify (item # items) ps =
     publishAll filt notify items (fst (publishInternal filt notify item ps))"

lemma retain_fields:
  "pb_buffer (retain item p) = suffix_of (pb_capacity p) (pb_buffer p @ [item])"
  "pb_capacity (retain item p) = pb_capacity p" "pb_failures (retain item p) = pb_failures p"
  "pb_failure_capacity (retain item p) = pb_failure_capacity p" "pb_subscribers (retain item p) = pb_subscribers p"
  by (auto simp: retain_def suffix_of_def Let_def)

lemma publishInternal_log:
  assumes "failures_ok p"
  obtains q where "publishInternal (logFilter accepts) (logNotify threw) item (p, log) =
      ((q, log @ delivered accepts (pb_subscribers p) item),
       firstFailure None (failing accepts threw (pb_subscribers p) item))"
    "failures_ok q" "pb_failure_capacity q = pb_failure_capacity p" "pb_capacity q = pb_capacity p"
    "pb_buffer q = suffix_of (pb_capacity p) (pb_buffer p @ [item])" "pb_subscribers q = pb_subscribers p"
    "pb_failures q = retained (pb_failure_capacity p) (pb_failures p @ failing accepts threw (pb_subscribers p) item)"
proof -
  have "failures_ok (retain item p)" using assms by (simp add: failures_ok_def retain_fields)
  from deliver_log [OF this, of accepts threw item "pb_subscribers p" log None]
  show ?thesis using that by (auto simp: publishInternal_def Let_def retain_fields)
qed

lemma publishAll_log:
  assumes "failures_ok p" and "length (pb_buffer p) \<le> pb_capacity p"
  shows "\<exists>q. publishAll (logFilter accepts) (logNotify threw) items (p, log) =
      (q, log @ concat (map (delivered accepts (pb_subscribers p)) items)) \<and>
    pb_subscribers q = pb_subscribers p \<and> failures_ok q \<and>
    pb_buffer q = suffix_of (pb_capacity p) (pb_buffer p @ items) \<and>
    pb_failures q = retained (pb_failure_capacity p)
      (pb_failures p @ concat (map (failing accepts threw (pb_subscribers p)) items))"
  using assms
proof (induction items arbitrary: p log)
  case Nil
  then show ?case by (simp add: suffix_of_def retained_ok)
next
  case (Cons item items)
  obtain q where q: "publishInternal (logFilter accepts) (logNotify threw) item (p, log) =
      ((q, log @ delivered accepts (pb_subscribers p) item),
       firstFailure None (failing accepts threw (pb_subscribers p) item))"
    "failures_ok q" "pb_failure_capacity q = pb_failure_capacity p" "pb_capacity q = pb_capacity p"
    "pb_buffer q = suffix_of (pb_capacity p) (pb_buffer p @ [item])" "pb_subscribers q = pb_subscribers p"
    "pb_failures q = retained (pb_failure_capacity p) (pb_failures p @ failing accepts threw (pb_subscribers p) item)"
    by (rule publishInternal_log [OF Cons.prems(1), of accepts threw item log])
  have "length (pb_buffer q) \<le> pb_capacity q" using q(4,5) by (simp add: suffix_of_def)
  from Cons.IH [OF q(2) this, of "log @ delivered accepts (pb_subscribers p) item"] show ?case
    using q suffix_of_append [of "pb_capacity p" "pb_buffer p @ [item]" items]
      retained_append [of "pb_failure_capacity p" "pb_failures p @ failing accepts threw (pb_subscribers p) item"]
    by auto
qed

lemma replay_log:
  assumes "failures_ok p"
  shows "\<exists>q. replay (logNotify threw) sub items (p, log) = (q, log @ map (Pair sub) items) \<and>
    pb_subscribers q = pb_subscribers p \<and> pb_buffer q = pb_buffer p"
  using assms
proof (induction items arbitrary: p log)
  case (Cons item items)
  have "failures_ok (if threw sub item then recordCallbackFailure KNotify sub p else p)"
    using recordCallbackFailure_retained(2) [OF Cons.prems] Cons.prems by simp
  from Cons.IH [OF this, of "log @ [(sub, item)]"] show ?case
    by (simp add: logNotify_def split: if_splits)
qed simp

text \<open>
  Every sequence of publications reaches every subscriber, in the order of publication, with exactly
  the items its filter accepts, whatever callbacks throw in between; the failures are recorded in
  callback order up to the configured number of the most recent ones; and the replay buffer holds
  the most recent items up to its capacity, so that a subscriber registered afterwards gets exactly
  the suffix of them that it asks for.
\<close>

theorem publications_delivered:
  assumes "failures_ok p" and "length (pb_buffer p) \<le> pb_capacity p" and "sub \<notin> fst ` set (pb_subscribers p)"
  shows "\<exists>q r. publishAll (logFilter accepts) (logNotify threw) items (p, log) =
      (q, log @ concat (map (delivered accepts (pb_subscribers p)) items)) \<and>
    pb_failures q = retained (pb_failure_capacity p)
      (pb_failures p @ concat (map (failing accepts threw (pb_subscribers p)) items)) \<and>
    pb_buffer q = suffix_of (pb_capacity p) (pb_buffer p @ items) \<and>
    registerSubscriber (logNotify threw) sub n (q, []) =
      (r, map (Pair sub) (if n < 0 then pb_buffer q else suffix_of (nat n) (pb_buffer q))) \<and>
    pb_subscribers r = pb_subscribers p @ [(sub, n)]"
proof -
  obtain q where q: "publishAll (logFilter accepts) (logNotify threw) items (p, log) =
      (q, log @ concat (map (delivered accepts (pb_subscribers p)) items))"
    "pb_subscribers q = pb_subscribers p" "pb_buffer q = suffix_of (pb_capacity p) (pb_buffer p @ items)"
    "failures_ok q"
    "pb_failures q = retained (pb_failure_capacity p)
      (pb_failures p @ concat (map (failing accepts threw (pb_subscribers p)) items))"
    using publishAll_log [OF assms(1,2), of accepts threw items log] by blast
  have skip: "drop (itemsToBeSkipped n (length xs)) xs = (if n < 0 then xs else suffix_of (nat n) xs)" for xs :: "'b list"
    by (auto simp: itemsToBeSkipped_def suffix_of_def)
  have "failures_ok (q\<lparr>pb_subscribers := pb_subscribers q @ [(sub, n)]\<rparr>)"
    using q(4) by (simp add: failures_ok_def)
  from replay_log [OF this, of threw sub "drop (itemsToBeSkipped n (length (pb_buffer q))) (pb_buffer q)" "[]"]
  show ?thesis using q assms(3) skip by (auto simp: registerSubscriber_def Let_def)
qed

definition samplePub :: "(nat, nat) pub" where
  "samplePub = \<lparr>pb_capacity = 2, pb_failure_capacity = 1, pb_buffer = [7], pb_subscribers = [(1, -1), (2, 0)],
     pb_failures = []\<rparr>"

lemma publications_delivered_witness:
  "\<exists>q r. publishAll (logFilter (\<lambda>sub item. if sub = 1 then None else Some True)) (logNotify (\<lambda>_ _. False))
      [8, 9] (samplePub, []) = (q, [(2, 8), (2, 9)]) \<and>
    registerSubscriber (logNotify (\<lambda>_ _. False)) 3 1 (q, []) = (r, [(3, 9)])"
proof -
  have "failures_ok samplePub" "length (pb_buffer samplePub) \<le> pb_capacity samplePub"
      "3 \<notin> fst ` set (pb_subscribers samplePub)"
    by (simp_all add: failures_ok_def samplePub_def)
  from publications_delivered [OF this, of "\<lambda>sub item. if sub = 1 then None else Some True" "\<lambda>_ _. False" "[8, 9]" "[]" 1]
  show ?thesis by (auto simp: samplePub_def delivered_def suffix_of_def)
qed

end
