(* ===== verification/DMesg.thy ===== *)
theory DMesg
  imports PubSub DMesgPb "HOL-Library.AList" "HOL-Library.List_Lexorder" "HOL-Library.Char_ord"
begin

text \<open>
  The message bus (\<open>src/dmn-dmesg.cpp\<close>, \<open>include/dmn-dmesg.hpp\<close>): a publisher with one handler per
  client, running counters per topic, conflicts, forced messages and playback.

  The publisher and every handler have a serial context of their own, a queue of tasks that one
  thread runs in order.  A context is a list of tasks here and a turn runs the first one; what a
  client calls appends a task.  Handlers are objects shared by the publisher, its list of subscribers
  and its table of states, so they live in a store and are named by their address, a number.  The
  thread of a handler that waits for the publisher runs no other task meanwhile.
\<close>

section \<open>Handlers\<close>

definition incrementByOne :: "u64 \<Rightarrow> u64" where
  "incrementByOne v = max 1 (v + 1)"

datatype handler_event_type = KMessage | KConflictEntered | KConflictResolved

record handler_event =
  he_type :: handler_event_type
  he_topic :: string
  he_running_counter :: u64
  he_generation :: u64
  he_message :: "dmesg option"

text \<open>\<open>TaskEvent\<close> carries the flags \<open>notifyObserver\<close> and \<open>invokeConflictCallback\<close>.\<close>

datatype handler_task =
    TaskEvent handler_event bool bool
  | TaskMessage dmesg
  | TaskPlaybackDone
  | TaskWrite dmesg bool
  | TaskSetCounter string u64
  | TaskSetConflictCallback

text \<open>
  The filter answers \<open>None\<close> when it throws.  The last three fields log what the callbacks got and
  \<open>dh_read\<close> what \<open>read\<close> returned.  A counter that a map does not hold reads as zero.
\<close>

record handler =
  dh_name :: string
  dh_topic :: string
  dh_filter :: "dmesg \<Rightarrow> bool option"
  dh_async :: bool
  dh_include_sys :: bool
  dh_no_topic_filter :: bool
  dh_has_event_fn :: bool
  dh_has_conflict_fn :: bool
  dh_owned :: bool
  dh_buffers :: "dmesg list"
  dh_counter :: "string \<Rightarrow> u64"
  dh_in_conflict :: "string list"
  dh_generation :: u64
  dh_after_playback :: bool
  dh_tasks :: "handler_task list"
  dh_waiting :: bool
  dh_read :: "dmesg list"
  dh_processed :: "dmesg list"
  dh_observed :: "handler_event list"
  dh_conflicts :: "dmesg list"

text \<open>A set of strings is kept sorted, as \<open>std::set\<close> does.\<close>

definition insertTopic :: "string \<Rightarrow> string list \<Rightarrow> string list" where
  "insertTopic t ts = (if t \<in> set ts then ts else insort t ts)"

type_synonym handler_config = "string \<Rightarrow> string option"

definition configFlag :: "handler_config \<Rightarrow> string \<Rightarrow> bool" where
  "configFlag configs key =
     (case configs key of None \<Rightarrow> False | Some v \<Rightarrow> v = ''1'' \<or> v = ''yes'')"

definition newHandler :: "string \<Rightarrow> string \<Rightarrow> (dmesg \<Rightarrow> bool option) \<Rightarrow> bool \<Rightarrow> handler_config \<Rightarrow> bool \<Rightarrow> handler" where
  "newHandler name topic filt async configs hasEventFn =
     \<lparr>dh_name = name, dh_topic = topic, dh_filter = filt, dh_async = async,
      dh_include_sys = configFlag configs ''Handler_IncludeSys'',
      dh_no_topic_filter = configFlag configs ''Handler_NoTopicFilter'',
      dh_has_event_fn = hasEventFn, dh_has_conflict_fn = False, dh_owned = True, dh_buffers = [],
      dh_counter = (\<lambda>_. 0), dh_in_conflict = [], dh_generation = 0, dh_after_playback = False,
      dh_tasks = [], dh_waiting = False, dh_read = [], dh_processed = [], dh_observed = [], dh_conflicts = []\<rparr>"

definition topicMatches :: "handler \<Rightarrow> dmesg \<Rightarrow> bool" where
  "topicMatches h m \<longleftrightarrow> dh_no_topic_filter h \<or> dh_topic h = [] \<or> dm_topic m = dh_topic h"

definition isInConflictInternal :: "string \<Rightarrow> handler \<Rightarrow> bool" where
  "isInConflictInternal topic h =
     (if topic = [] then dh_in_conflict h \<noteq> [] else topic \<in> set (dh_in_conflict h))"

definition isForced :: "dmesg option \<Rightarrow> bool" where
  "isForced m = (case m of None \<Rightarrow> False | Some m \<Rightarrow> dm_force m)"

definition mirrorCounter :: "handler_event \<Rightarrow> handler \<Rightarrow> handler" where
  "mirrorCounter e h =
     (let counter = (if isForced (he_message e) then he_running_counter e
                     else max (dh_counter h (he_topic e)) (he_running_counter e))
      in h\<lparr>dh_counter := (dh_counter h)(he_topic e := counter)\<rparr>)"

text \<open>The task of \<open>enqueuePublisherEvent\<close>.\<close>

definition applyPublisherEvent :: "handler_event \<Rightarrow> bool \<Rightarrow> bool \<Rightarrow> handler \<Rightarrow> handler" where
  "applyPublisherEvent e notifyObserver invokeConflictCallback h =
     (let h1 = (case he_type e of
                  KMessage \<Rightarrow> mirrorCounter e h
                | KConflictEntered \<Rightarrow> h\<lparr>dh_in_conflict := insertTopic (he_topic e) (dh_in_conflict h)\<rparr>
                | KConflictResolved \<Rightarrow>
                    mirrorCounter e (h\<lparr>dh_in_conflict := remove1 (he_topic e) (dh_in_conflict h)\<rparr>));
          h2 = h1\<lparr>dh_generation := he_generation e\<rparr>;
          h3 = (if notifyObserver \<and> dh_has_event_fn h2
                then h2\<lparr>dh_observed := dh_observed h2 @ [e]\<rparr> else h2)
      in case he_message e of
           None \<Rightarrow> h3
         | Some m \<Rightarrow> if invokeConflictCallback \<and> dh_has_conflict_fn h3
                     then h3\<lparr>dh_conflicts := dh_conflicts h3 @ [m]\<rparr> else h3)"

section \<open>The publisher\<close>

record handler_state =
  st_counter :: "string \<Rightarrow> u64 option"
  st_conflict :: "string list"
  st_generation :: u64

text \<open>A task that a handler waits for carries its address.\<close>

datatype pub_task =
    PubMessage dmesg "nat option"
  | PubRegister nat
  | PubFinalize nat
  | PubUnregister nat
  | PubErase nat
  | PubResolve nat string
  | PubSetCounter nat string u64
  | PubResetLast string

record bus =
  bus_pub :: "(nat, dmesg) pub"
  bus_heap :: "nat \<Rightarrow> handler option"
  bus_handlers :: "nat list"
  bus_states :: "nat \<Rightarrow> handler_state option"
  bus_counter :: "string \<Rightarrow> u64"
  bus_last :: "(string \<times> dmesg) list"
  bus_tasks :: "pub_task list"

definition newBus :: bus where
  "newBus = \<lparr>bus_pub = newPub 0 (-1), bus_heap = (\<lambda>_. None), bus_handlers = [],
     bus_states = (\<lambda>_. None), bus_counter = (\<lambda>_. 0), bus_last = [], bus_tasks = []\<rparr>"

definition updateHandler :: "nat \<Rightarrow> (handler \<Rightarrow> handler) \<Rightarrow> bus \<Rightarrow> bus" where
  "updateHandler i f b =
     (case bus_heap b i of None \<Rightarrow> b | Some h \<Rightarrow> b\<lparr>bus_heap := (bus_heap b)(i \<mapsto> f h)\<rparr>)"

definition scheduleInHandlerContext :: "handler_task \<Rightarrow> handler \<Rightarrow> handler" where
  "scheduleInHandlerContext task h = h\<lparr>dh_tasks := dh_tasks h @ [task]\<rparr>"

definition post :: "pub_task \<Rightarrow> bus \<Rightarrow> bus" where
  "post task b = b\<lparr>bus_tasks := bus_tasks b @ [task]\<rparr>"

definition setState :: "nat \<Rightarrow> handler_state \<Rightarrow> bus \<Rightarrow> bus" where
  "setState i st b = b\<lparr>bus_states := (bus_states b)(i \<mapsto> st)\<rparr>"

definition enqueueHandlerEvent ::
    "nat \<Rightarrow> handler_event_type \<Rightarrow> string \<Rightarrow> dmesg option \<Rightarrow> bool \<Rightarrow> bool \<Rightarrow> bus \<Rightarrow> bus" where
  "enqueueHandlerEvent i type topic message notifyObserver invokeConflictCallback b =
     (case bus_states b i of
        None \<Rightarrow> b
      | Some st \<Rightarrow>
          if i \<notin> set (bus_handlers b) then b
          else
            let event = \<lparr>he_type = type, he_topic = topic,
                  he_running_counter = (case st_counter st topic of None \<Rightarrow> 0 | Some c \<Rightarrow> c),
                  he_generation = st_generation st, he_message = message\<rparr>
            in updateHandler i (scheduleInHandlerContext
                 (TaskEvent event notifyObserver invokeConflictCallback)) b)"

definition throwHandlerConflict :: "nat \<Rightarrow> dmesg \<Rightarrow> bus \<Rightarrow> bus" where
  "throwHandlerConflict i message b =
     (case bus_states b i of
        None \<Rightarrow> b
      | Some st \<Rightarrow>
          let topic = dm_topic message;
              inserted = (topic \<notin> set (st_conflict st));
              st' = (if inserted
                     then st\<lparr>st_conflict := insertTopic topic (st_conflict st),
                             st_generation := st_generation st + 1\<rparr>
                     else st)
          in enqueueHandlerEvent i KConflictEntered topic (Some message) inserted True (setState i st' b))"

text \<open>The loop that resolves every conflicted topic, from the first of the set on.\<close>

fun resolveEach :: "nat \<Rightarrow> string list \<Rightarrow> dmesg option \<Rightarrow> bus \<Rightarrow> bus" where
  "resolveEach i [] message b = b"
| "resolveEach i (t # ts) message b =
     (case bus_states b i of
        None \<Rightarrow> b
      | Some st \<Rightarrow>
          resolveEach i ts message
            (enqueueHandlerEvent i KConflictResolved t message True False
              (setState i (st\<lparr>st_conflict := ts, st_generation := st_generation st + 1\<rparr>) b)))"

definition resolveHandlerConflict :: "nat \<Rightarrow> string \<Rightarrow> dmesg option \<Rightarrow> bus \<Rightarrow> bus" where
  "resolveHandlerConflict i topic message b =
     (case bus_states b i of
        None \<Rightarrow> b
      | Some st \<Rightarrow>
          if topic = [] then resolveEach i (st_conflict st) message b
          else
            let resolved = (topic \<in> set (st_conflict st));
                st' = (if resolved
                       then st\<lparr>st_conflict := remove1 topic (st_conflict st),
                               st_generation := st_generation st + 1\<rparr>
                       else st);
                b1 = setState i st' b
            in if resolved \<or> message \<noteq> None
               then enqueueHandlerEvent i KConflictResolved topic message resolved False b1
               else b1)"

definition setStateCounter :: "nat \<Rightarrow> string \<Rightarrow> u64 \<Rightarrow> bus \<Rightarrow> bus" where
  "setStateCounter i topic c b =
     (case bus_states b i of
        None \<Rightarrow> b
      | Some st \<Rightarrow> setState i (st\<lparr>st_counter := (st_counter st)(topic \<mapsto> c)\<rparr>) b)"

text \<open>What a handler does with a message that it accepts.\<close>

definition acceptMessage :: "nat \<Rightarrow> dmesg \<Rightarrow> bus \<Rightarrow> bus" where
  "acceptMessage i m b =
     (let b1 = setStateCounter i (dm_topic m) (dm_running_counter m) b;
          b2 = resolveHandlerConflict i (dm_topic m) (Some m) b1;
          b3 = enqueueHandlerEvent i KMessage (dm_topic m) (Some m) True False b2
      in updateHandler i (\<lambda>h. if dh_async h then scheduleInHandlerContext (TaskMessage m) h
                              else h\<lparr>dh_buffers := dh_buffers h @ [m]\<rparr>) b3)"

definition notify :: "(nat, dmesg, bus) notify_task" where
  "notify i m b =
     (case (bus_states b i, bus_heap b i) of
        (Some st, Some h) \<Rightarrow>
          if dm_conflict m then
            if dm_source_write_handler m \<noteq> dh_name h \<and> topicMatches h m \<and>
               st_counter st (dm_topic m) \<noteq> None
            then (throwHandlerConflict i m b, False) else (b, False)
          else
            let runningCounter = (case st_counter st (dm_topic m) of None \<Rightarrow> 0 | Some c \<Rightarrow> c)
            in if dm_running_counter m > runningCounter \<or> dm_force m then
                 if dm_force m then
                   (resolveHandlerConflict i (dm_topic m) (Some m)
                      (setStateCounter i (dm_topic m) (dm_running_counter m) b), False)
                 else if dm_source_write_handler m \<noteq> dh_name h \<or> dm_type m = DtSys then
                   if (dm_type m \<noteq> DtSys \<or> dh_include_sys h) \<and> topicMatches h m then
                     (case dh_filter h m of
                        None \<Rightarrow> (b, True)
                      | Some False \<Rightarrow> (b, False)
                      | Some True \<Rightarrow> (acceptMessage i m b, False))
                   else (b, False)
                 else (b, False)
               else (b, False)
      | _ \<Rightarrow> (b, False))"

text \<open>The filter that the constructor gives to the base class.\<close>

definition subFilter :: "(nat, dmesg, bus) filter_task" where
  "subFilter i m b =
     (case bus_heap b i of
        None \<Rightarrow> Some False
      | Some h \<Rightarrow> Some (dh_owned h \<and> (\<not> dm_playback m \<or> \<not> dh_after_playback h) \<and> topicMatches h m))"

section \<open>Publication\<close>

type_synonym thrown = "nat callback_failure option"

definition publishBase :: "dmesg \<Rightarrow> bus \<Rightarrow> bus \<times> thrown" where
  "publishBase m b =
     (case PubSub.publishInternal subFilter notify m (bus_pub b, b) of
        ((p, b'), first) \<Rightarrow> (b'\<lparr>bus_pub := p\<rparr>, first))"

text \<open>The first handler with the name of the writer.\<close>

definition findSource :: "dmesg \<Rightarrow> bus \<Rightarrow> nat option" where
  "findSource m b = List.find (\<lambda>i. case bus_heap b i of
       None \<Rightarrow> False | Some h \<Rightarrow> dh_name h = dm_source_write_handler m) (bus_handlers b)"

definition sourceInConflict :: "nat option \<Rightarrow> string \<Rightarrow> bus \<Rightarrow> bool" where
  "sourceInConflict src topic b =
     (case src of
        None \<Rightarrow> False
      | Some i \<Rightarrow> (case bus_states b i of None \<Rightarrow> False | Some st \<Rightarrow> topic \<in> set (st_conflict st)))"

definition publishInternal :: "dmesg \<Rightarrow> bus \<Rightarrow> bus \<times> thrown" where
  "publishInternal m b =
     (if dm_playback m then publishBase m b
      else
        let topic = dm_topic m;
            src = findSource m b;
            b1 = (case src of None \<Rightarrow> b | Some i \<Rightarrow> setStateCounter i topic (dm_running_counter m) b)
        in if sourceInConflict src topic b1 \<and> \<not> dm_force m then (b1, None)
           else
             let next_running_counter = (if dm_force m then dm_running_counter m
                                         else incrementByOne (bus_counter b1 topic))
             in if dm_running_counter m < next_running_counter \<or> dm_conflict m then
                  let m' = m\<lparr>dm_conflict := True\<rparr>;
                      b2 = (case src of None \<Rightarrow> b1 | Some i \<Rightarrow> throwHandlerConflict i m' b1)
                  in publishBase m' b2
                else
                  let m' = m\<lparr>dm_running_counter := next_running_counter\<rparr>;
                      b2 = b1\<lparr>bus_counter := (bus_counter b1)(topic := next_running_counter),
                              bus_last := AList.update topic m' (bus_last b1)\<rparr>
                  in publishBase m' b2)"

text \<open>\<open>None\<close> is a failed assertion.\<close>

definition publishSysInternal :: "dmesg \<Rightarrow> bus \<Rightarrow> (bus \<times> thrown) option" where
  "publishSysInternal m b =
     (if dm_topic m \<noteq> ''sys.dmn-dmesg'' \<or> dm_type m \<noteq> DtSys then None
      else
        let next_running_counter = incrementByOne (bus_counter b (dm_topic m))
        in case publishBase (m\<lparr>dm_running_counter := next_running_counter\<rparr>) b of
             (b1, Some e) \<Rightarrow> Some (b1, Some e)
           | (b1, None) \<Rightarrow>
               Some (b1\<lparr>bus_counter := (bus_counter b1)(dm_topic m := next_running_counter)\<rparr>, None))"

text \<open>An exception of a publication ends the loop.\<close>

fun playbackEach :: "dmesg list \<Rightarrow> bus \<Rightarrow> bus \<times> thrown" where
  "playbackEach [] b = (b, None)"
| "playbackEach (m # ms) b =
     (case publishInternal (m\<lparr>dm_playback := True\<rparr>) b of
        (b1, Some e) \<Rightarrow> (b1, Some e)
      | (b1, None) \<Rightarrow> playbackEach ms b1)"

definition playbackLastTopicDMesgPbInternal :: "bus \<Rightarrow> bus \<times> thrown" where
  "playbackLastTopicDMesgPbInternal b = playbackEach (map snd (bus_last b)) b"

definition resetConflictStateWithLastTopicMessageInternal :: "string \<Rightarrow> bus \<Rightarrow> bus \<times> thrown" where
  "resetConflictStateWithLastTopicMessageInternal topic b =
     (case map_of (bus_last b) topic of
        None \<Rightarrow> (b, None)
      | Some m \<Rightarrow> publishInternal (m\<lparr>dm_force := True\<rparr>) b)"

section \<open>The contexts\<close>

text \<open>The publisher-side half of opening a handler.\<close>

definition finalizeHandlerRegistration :: "nat \<Rightarrow> bus \<Rightarrow> bus" where
  "finalizeHandlerRegistration i b =
     (let b1 = b\<lparr>bus_handlers := bus_handlers b @ [i],
                 bus_states := (case bus_states b i of
                     None \<Rightarrow> (bus_states b)(i \<mapsto> \<lparr>st_counter = (\<lambda>_. None), st_conflict = [], st_generation = 0\<rparr>)
                   | Some _ \<Rightarrow> bus_states b)\<rparr>
      in case playbackLastTopicDMesgPbInternal b1 of
           (b2, Some e) \<Rightarrow> b2
         | (b2, None) \<Rightarrow> updateHandler i (scheduleInHandlerContext TaskPlaybackDone) b2)"

text \<open>The base class keeps the subscribers; registering replays its buffer, which is empty.\<close>

definition registerHandler :: "nat \<Rightarrow> bus \<Rightarrow> bus" where
  "registerHandler i b =
     (case PubSub.registerSubscriber notify i (-1) (bus_pub b, b) of
        (p, b') \<Rightarrow> b'\<lparr>bus_pub := p\<rparr>)"

definition unregisterHandler :: "nat \<Rightarrow> bus \<Rightarrow> bus" where
  "unregisterHandler i b =
     (case PubSub.unregisterSubscriber i (bus_pub b) of
        None \<Rightarrow> b | Some p \<Rightarrow> b\<lparr>bus_pub := p\<rparr>)"

definition wake :: "nat option \<Rightarrow> bus \<Rightarrow> bus" where
  "wake w b = (case w of None \<Rightarrow> b | Some i \<Rightarrow> updateHandler i (\<lambda>h. h\<lparr>dh_waiting := False\<rparr>) b)"

fun runPubTask :: "pub_task \<Rightarrow> bus \<Rightarrow> bus" where
  "runPubTask (PubMessage m w) b = wake w (fst (publishInternal m b))"
| "runPubTask (PubRegister i) b = registerHandler i b"
| "runPubTask (PubFinalize i) b = finalizeHandlerRegistration i b"
| "runPubTask (PubUnregister i) b = unregisterHandler i b"
| "runPubTask (PubErase i) b =
     b\<lparr>bus_handlers := remove1 i (bus_handlers b), bus_states := (bus_states b)(i := None)\<rparr>"
| "runPubTask (PubResolve i topic) b = resolveHandlerConflict i topic None b"
| "runPubTask (PubSetCounter i topic c) b = wake (Some i) (setStateCounter i topic c b)"
| "runPubTask (PubResetLast topic) b = fst (resetConflictStateWithLastTopicMessageInternal topic b)"

definition publisherTurn :: "bus \<Rightarrow> bus" where
  "publisherTurn b =
     (case bus_tasks b of [] \<Rightarrow> b | task # tasks \<Rightarrow> runPubTask task (b\<lparr>bus_tasks := tasks\<rparr>))"

text \<open>
  \<open>writeDMesgInternal\<close> in the context of the handler; \<open>Inl\<close> is the exception that \<open>write\<close> rethrows.
\<close>

definition stampMessage :: "handler \<Rightarrow> dmesg \<Rightarrow> dmesg" where
  "stampMessage h m =
     (let m1 = (if dm_topic m = [] \<and> dh_topic h \<noteq> [] then m\<lparr>dm_topic := dh_topic h\<rparr> else m)
      in m1\<lparr>dm_source_write_handler := dh_name h,
            dm_source_identifier := (if dm_source_identifier m1 = [] then dh_name h else dm_source_identifier m1),
            dm_running_counter := incrementByOne (dh_counter h (dm_topic m1))\<rparr>)"

definition writeDMesgInternal :: "nat \<Rightarrow> dmesg \<Rightarrow> bool \<Rightarrow> bus \<Rightarrow> string + bus" where
  "writeDMesgInternal i m block b =
     (case bus_heap b i of
        None \<Rightarrow> Inl ''assert(nullptr != m_owner)''
      | Some h \<Rightarrow>
          if \<not> dh_owned h then Inl ''assert(nullptr != m_owner)''
          else
            let m1 = stampMessage h m; topic = dm_topic m1
            in if topic \<in> set (dh_in_conflict h) \<and> \<not> dm_force m
               then Inl ''last write results in conflicted, handler needs to be reset''
               else
                 let waitForPublisher = (block \<or> dm_force m1)
                 in Inr (post (PubMessage m1 (if waitForPublisher then Some i else None))
                      (updateHandler i (\<lambda>h. h\<lparr>dh_counter := (dh_counter h)(topic := dm_running_counter m1),
                                             dh_waiting := waitForPublisher\<rparr>) b)))"

definition runHandlerTask :: "nat \<Rightarrow> handler_task \<Rightarrow> bus \<Rightarrow> bus" where
  "runHandlerTask i task b =
     (case task of
        TaskEvent e notifyObserver invokeConflictCallback \<Rightarrow>
          updateHandler i (applyPublisherEvent e notifyObserver invokeConflictCallback) b
      | TaskMessage m \<Rightarrow> updateHandler i (\<lambda>h. h\<lparr>dh_processed := dh_processed h @ [m]\<rparr>) b
      | TaskPlaybackDone \<Rightarrow> updateHandler i (\<lambda>h. h\<lparr>dh_after_playback := True\<rparr>) b
      | TaskWrite m block \<Rightarrow> (case writeDMesgInternal i m block b of Inl _ \<Rightarrow> b | Inr b' \<Rightarrow> b')
      | TaskSetCounter topic c \<Rightarrow>
          post (PubSetCounter i topic c)
            (updateHandler i (\<lambda>h. h\<lparr>dh_counter := (dh_counter h)(topic := c), dh_waiting := True\<rparr>) b)
      | TaskSetConflictCallback \<Rightarrow> updateHandler i (\<lambda>h. h\<lparr>dh_has_conflict_fn := True\<rparr>) b)"

definition handlerTurn :: "nat \<Rightarrow> bus \<Rightarrow> bus" where
  "handlerTurn i b =
     (case bus_heap b i of
        None \<Rightarrow> b
      | Some h \<Rightarrow>
          (case dh_tasks h of
             [] \<Rightarrow> b
           | task # tasks \<Rightarrow>
               if dh_waiting h then b
               else runHandlerTask i task (updateHandler i (\<lambda>h. h\<lparr>dh_tasks := tasks\<rparr>) b)))"

section \<open>Client calls\<close>

text \<open>
  Opening a handler posts its registration, waits for it, and posts its finalization; closing posts
  the unregistration, waits for it and for the tasks of the handler, posts the erasure, waits, and
  then takes the owner away.  The destructor of the bus does the same without the erasure.
\<close>

definition openHandler :: "nat \<Rightarrow> handler \<Rightarrow> bus \<Rightarrow> bus" where
  "openHandler i h b = post (PubRegister i) (b\<lparr>bus_heap := (bus_heap b)(i \<mapsto> h)\<rparr>)"

definition handlerCall :: "nat \<Rightarrow> handler_task \<Rightarrow> bus \<Rightarrow> bus" where
  "handlerCall i task b = updateHandler i (scheduleInHandlerContext task) b"

text \<open>The flags of a write: \<open>kForce\<close> marks the copy of the message.\<close>

definition writeTask :: "dmesg \<Rightarrow> bool \<Rightarrow> bool \<Rightarrow> handler_task" where
  "writeTask m block force = TaskWrite (if force then m\<lparr>dm_force := True\<rparr> else m) block"

text \<open>
  \<open>writeAndCheckConflict\<close> on a bus that is otherwise idle: a blocking write, the turn of the publisher
  that it waits for, and the test behind the tasks that the publisher queued.
\<close>

definition pendingTasks :: "nat \<Rightarrow> bus \<Rightarrow> handler_task list" where
  "pendingTasks i b = (case bus_heap b i of None \<Rightarrow> [] | Some h \<Rightarrow> dh_tasks h)"

definition drainHandler :: "nat \<Rightarrow> bus \<Rightarrow> bus" where
  "drainHandler i b = (handlerTurn i ^^ length (pendingTasks i b)) b"

definition writeAndCheckConflict :: "nat \<Rightarrow> dmesg \<Rightarrow> bool \<Rightarrow> bus \<Rightarrow> bus \<times> bool" where
  "writeAndCheckConflict i m force b =
     (let b1 = drainHandler i (publisherTurn (handlerTurn i (handlerCall i (writeTask m True force) b)))
      in (b1, case bus_heap b1 i of None \<Rightarrow> False | Some h \<Rightarrow> \<not> isInConflictInternal (dm_topic m) h))"

definition readMessage :: "handler \<Rightarrow> handler" where
  "readMessage h =
     (case dh_buffers h of [] \<Rightarrow> h
      | m # ms \<Rightarrow> h\<lparr>dh_buffers := ms, dh_read := dh_read h @ [m]\<rparr>)"

definition getTopicLastMessage :: "string \<Rightarrow> bus \<Rightarrow> dmesg option" where
  "getTopicLastMessage topic b = map_of (bus_last b) topic"

definition getTopicRunningCounterInternal :: "string \<Rightarrow> handler \<Rightarrow> u64" where
  "getTopicRunningCounterInternal topic h = dh_counter h topic"

definition registered :: "nat \<Rightarrow> bus \<Rightarrow> bool" where
  "registered i b \<longleftrightarrow> i \<in> fst ` set (pb_subscribers (bus_pub b))"

definition handlerReady :: "nat \<Rightarrow> bus \<Rightarrow> bool" where
  "handlerReady i b \<longleftrightarrow> (case bus_heap b i of None \<Rightarrow> False | Some h \<Rightarrow> dh_owned h \<and> dh_after_playback h)"

definition drained :: "nat \<Rightarrow> bus \<Rightarrow> bool" where
  "drained i b \<longleftrightarrow> (case bus_heap b i of None \<Rightarrow> True | Some h \<Rightarrow> dh_tasks h = [])"

inductive mesg_step :: "bus \<Rightarrow> bus \<Rightarrow> bool" where
  mesg_publisher: "mesg_step b (publisherTurn b)"
| mesg_handler: "mesg_step b (handlerTurn i b)"
| mesg_open: "bus_heap b i = None \<Longrightarrow>
    mesg_step b (openHandler i (newHandler name topic filt async configs hasEventFn) b)"
| mesg_finalize: "registered i b \<Longrightarrow> i \<notin> set (bus_handlers b) \<Longrightarrow> PubFinalize i \<notin> set (bus_tasks b) \<Longrightarrow>
    bus_states b i = None \<Longrightarrow> mesg_step b (post (PubFinalize i) b)"
| mesg_write: "handlerReady i b \<Longrightarrow> mesg_step b (handlerCall i (writeTask m block force) b)"
| mesg_set_counter: "handlerReady i b \<Longrightarrow> mesg_step b (handlerCall i (TaskSetCounter topic c) b)"
| mesg_conflict_callback: "mesg_step b (handlerCall i TaskSetConflictCallback b)"
| mesg_read: "handlerReady i b \<Longrightarrow> mesg_step b (updateHandler i readMessage b)"
| mesg_resolve: "handlerReady i b \<Longrightarrow> mesg_step b (post (PubResolve i topic) b)"
| mesg_reset_last: "mesg_step b (post (PubResetLast topic) b)"
| mesg_unregister: "registered i b \<Longrightarrow> i \<in> set (bus_handlers b) \<Longrightarrow> mesg_step b (post (PubUnregister i) b)"
| mesg_erase: "i \<in> set (bus_handlers b) \<Longrightarrow> \<not> registered i b \<Longrightarrow> drained i b \<Longrightarrow> mesg_step b (post (PubErase i) b)"
| mesg_detach: "\<not> registered i b \<Longrightarrow> drained i b \<Longrightarrow>
    mesg_step b (updateHandler i (\<lambda>h. h\<lparr>dh_owned := False\<rparr>) b)"

definition mesg_init :: "bus \<Rightarrow> bool" where
  "mesg_init b \<longleftrightarrow> b = newBus"

end
