(* ===== verification/DMesgProps.thy ===== *)
theory DMesgProps
  imports DMesg
begin

text \<open>
  The invariant of the message bus, above all that the mirror of every handler catches up with the
  state the publisher keeps for it, and that the cache of last messages agrees with the counters.
\<close>

section \<open>The mirror of a handler\<close>

text \<open>What a task does to the conflict set and the generation.\<close>

definition conflictAfter :: "handler_event_type \<Rightarrow> string \<Rightarrow> string list \<Rightarrow> string list" where
  "conflictAfter type topic ts =
     (case type of KMessage \<Rightarrow> ts | KConflictEntered \<Rightarrow> insertTopic topic ts
      | KConflictResolved \<Rightarrow> remove1 topic ts)"

fun mirrorTask :: "handler_task \<Rightarrow> string list \<times> u64 \<Rightarrow> string list \<times> u64" where
  "mirrorTask (TaskEvent e n c) p = (conflictAfter (he_type e) (he_topic e) (fst p), he_generation e)"
| "mirrorTask task p = p"

definition mirror_ok :: "handler \<Rightarrow> handler_state \<Rightarrow> bool" where
  "mirror_ok h st \<longleftrightarrow>
     fold mirrorTask (dh_tasks h) (dh_in_conflict h, dh_generation h) = (st_conflict st, st_generation st)"

definition mirrors :: "bus \<Rightarrow> bool" where
  "mirrors b \<longleftrightarrow> (\<forall>i. (bus_states b i \<noteq> None) = (i \<in> set (bus_handlers b))) \<and>
     (\<forall>i\<in>set (bus_handlers b). \<exists>h st. bus_heap b i = Some h \<and> bus_states b i = Some st \<and> mirror_ok h st)"

text \<open>Operations of the publisher that touch one handler that it knows.\<close>

definition staticOf :: "handler \<Rightarrow> (string \<times> string \<times> (dmesg \<Rightarrow> bool option) \<times> bool \<times> bool \<times> bool) \<times>
    bool \<times> bool \<times> (string \<Rightarrow> u64) \<times> string list \<times> bool" where
  "staticOf h = ((dh_name h, dh_topic h, dh_filter h, dh_async h, dh_include_sys h, dh_no_topic_filter h),
     dh_owned h, dh_after_playback h, dh_counter h, dh_in_conflict h, dh_waiting h)"

text \<open>The messages that wait for the client: in the buffer, or in tasks of the callback.\<close>

fun messageOf :: "handler_task \<Rightarrow> dmesg list" where
  "messageOf (TaskMessage m) = [m]"
| "messageOf _ = []"

definition inbox :: "handler \<Rightarrow> dmesg list" where
  "inbox h = (if dh_async h then concat (map messageOf (dh_tasks h)) else dh_buffers h)"

text \<open>The step touches handler \<open>i\<close> alone, and adds \<open>ms\<close> to its inbox.\<close>

definition only :: "nat \<Rightarrow> dmesg list \<Rightarrow> bus \<Rightarrow> bus \<Rightarrow> bool" where
  "only i ms b b' \<longleftrightarrow> bus_pub b' = bus_pub b \<and> bus_handlers b' = bus_handlers b \<and> bus_tasks b' = bus_tasks b \<and>
     bus_counter b' = bus_counter b \<and> bus_last b' = bus_last b \<and>
     (\<forall>j. j \<noteq> i \<longrightarrow> bus_heap b' j = bus_heap b j \<and> bus_states b' j = bus_states b j) \<and>
     (bus_states b i = None \<longrightarrow> bus_heap b' i = bus_heap b i \<and> bus_states b' i = None) \<and>
     map_option (\<lambda>h. (staticOf h, inbox h)) (bus_heap b' i) =
       map_option (\<lambda>h. (staticOf h, inbox h @ ms)) (bus_heap b i)"

lemma only_refl [simp]: "only i [] b b"
  by (simp add: only_def)

lemma only_trans: "only i ms b c \<Longrightarrow> only i ns c d \<Longrightarrow> only i (ms @ ns) b d"
  by (cases "bus_heap b i"; cases "bus_heap c i"; cases "bus_heap d i") (auto simp: only_def)

lemma only_trans_nil: "only i [] b c \<Longrightarrow> only i ns c d \<Longrightarrow> only i ns b d"
  using only_trans [of i "[]" b c ns d] by simp

lemma mirror_ok_event:
  assumes "mirror_ok h st" and "conflictAfter type topic (st_conflict st) = st_conflict st'"
  shows "mirror_ok (scheduleInHandlerContext (TaskEvent \<lparr>he_type = type, he_topic = topic,
      he_running_counter = rc, he_generation = st_generation st', he_message = m\<rparr> n c) h) st'"
  using assms by (simp add: mirror_ok_def scheduleInHandlerContext_def)

lemma enqueue_mirrors:
  assumes "mirrors b" and "bus_states b i = Some st"
    and "conflictAfter type topic (st_conflict st) = st_conflict st'"
  shows "mirrors (enqueueHandlerEvent i type topic m n c (setState i st' b)) \<and>
    only i [] b (enqueueHandlerEvent i type topic m n c (setState i st' b)) \<and>
    bus_states (enqueueHandlerEvent i type topic m n c (setState i st' b)) i = Some st'"
proof -
  have i: "i \<in> set (bus_handlers b)" using assms(1,2) by (force simp: mirrors_def)
  then obtain h where h: "bus_heap b i = Some h" "mirror_ok h st" using assms(1,2) by (auto simp: mirrors_def)
  let ?rc = "case st_counter st' topic of None \<Rightarrow> 0 | Some c \<Rightarrow> c"
  let ?h = "scheduleInHandlerContext (TaskEvent \<lparr>he_type = type, he_topic = topic,
      he_running_counter = ?rc, he_generation = st_generation st', he_message = m\<rparr> n c) h"
  have e: "enqueueHandlerEvent i type topic m n c (setState i st' b) =
      b\<lparr>bus_heap := (bus_heap b)(i \<mapsto> ?h), bus_states := (bus_states b)(i \<mapsto> st')\<rparr>"
    using i h(1) by (simp add: enqueueHandlerEvent_def setState_def updateHandler_def Let_def)
  have "mirror_ok ?h st'" using h(2) assms(3) by (rule mirror_ok_event)
  moreover have "staticOf ?h = staticOf h" "inbox ?h = inbox h"
    by (simp_all add: staticOf_def scheduleInHandlerContext_def inbox_def)
  ultimately show ?thesis
    using assms(1,2) i h(1) unfolding e by (auto simp: mirrors_def only_def)
qed

lemma setState_same: "bus_states b i = Some st \<Longrightarrow> setState i st b = b"
  by (simp add: setState_def fun_upd_idem)

lemma throwHandlerConflict_mirrors:
  assumes "mirrors b"
  shows "mirrors (throwHandlerConflict i m b) \<and> only i [] b (throwHandlerConflict i m b) \<and>
    (\<forall>st. bus_states b i = Some st \<longrightarrow> (\<exists>st'. bus_states (throwHandlerConflict i m b) i = Some st' \<and>
       st_counter st' = st_counter st \<and> st_conflict st' = insertTopic (dm_topic m) (st_conflict st)))"
proof (cases "bus_states b i")
  case (Some st)
  let ?st = "if dm_topic m \<notin> set (st_conflict st)
    then st\<lparr>st_conflict := insertTopic (dm_topic m) (st_conflict st), st_generation := st_generation st + 1\<rparr> else st"
  have "insertTopic (dm_topic m) (st_conflict st) = st_conflict ?st" by (simp add: insertTopic_def)
  then show ?thesis
    using enqueue_mirrors [OF assms Some, where type = KConflictEntered and topic = "dm_topic m" and st' = ?st] Some
    by (simp add: throwHandlerConflict_def Let_def conflictAfter_def)
qed (simp add: throwHandlerConflict_def assms)

lemma resolveEach_mirrors:
  assumes "mirrors b" and "bus_states b i = Some st" and "st_conflict st = ts"
  shows "mirrors (resolveEach i ts m b) \<and> only i [] b (resolveEach i ts m b) \<and>
    (\<exists>st'. bus_states (resolveEach i ts m b) i = Some st' \<and> st_counter st' = st_counter st \<and> st_conflict st' = [])"
  using assms
proof (induction ts arbitrary: b st)
  case (Cons t ts)
  let ?st = "st\<lparr>st_conflict := ts, st_generation := st_generation st + 1\<rparr>"
  let ?b = "enqueueHandlerEvent i KConflictResolved t m True False (setState i ?st b)"
  have b: "mirrors ?b" "only i [] b ?b" "bus_states ?b i = Some ?st"
    using enqueue_mirrors [OF Cons.prems(1,2), where type = KConflictResolved and topic = t and st' = ?st
        and m = m and n = True and c = False] Cons.prems(3) by (simp_all add: conflictAfter_def)
  have "resolveEach i (t # ts) m b = resolveEach i ts m ?b" using Cons.prems(2) by simp
  then show ?case using Cons.IH [OF b(1,3)] only_trans_nil [OF b(2)] by auto
qed auto

lemma resolveHandlerConflict_mirrors:
  assumes "mirrors b"
  shows "mirrors (resolveHandlerConflict i topic m b) \<and> only i [] b (resolveHandlerConflict i topic m b) \<and>
    (\<forall>st. bus_states b i = Some st \<longrightarrow> (\<exists>st'. bus_states (resolveHandlerConflict i topic m b) i = Some st' \<and>
       st_counter st' = st_counter st \<and>
       st_conflict st' = (if topic = [] then [] else remove1 topic (st_conflict st))))"
proof (cases "bus_states b i")
  case (Some st)
  show ?thesis
  proof (cases "topic = []")
    case True
    then show ?thesis using resolveEach_mirrors [OF assms Some refl, of m] Some
      by (auto simp: resolveHandlerConflict_def)
  next
    case False
    let ?st = "if topic \<in> set (st_conflict st)
      then st\<lparr>st_conflict := remove1 topic (st_conflict st), st_generation := st_generation st + 1\<rparr> else st"
    have c: "remove1 topic (st_conflict st) = st_conflict ?st" by (simp add: remove1_idem)
    note e = enqueue_mirrors [OF assms Some, where type = KConflictResolved and topic = topic and st' = ?st and m = m]
    show ?thesis
    proof (cases "topic \<in> set (st_conflict st) \<or> m \<noteq> None")
      case True
      then show ?thesis using e c Some False by (simp add: resolveHandlerConflict_def Let_def conflictAfter_def)
    next
      case no: False
      then show ?thesis using Some False setState_same [OF Some] assms
        by (simp add: resolveHandlerConflict_def Let_def remove1_idem)
    qed
  qed
qed (simp add: resolveHandlerConflict_def assms)

lemma setStateCounter_mirrors:
  assumes "mirrors b"
  shows "mirrors (setStateCounter i t c b) \<and> only i [] b (setStateCounter i t c b) \<and>
    (\<forall>st. bus_states b i = Some st \<longrightarrow>
       bus_states (setStateCounter i t c b) i = Some (st\<lparr>st_counter := (st_counter st)(t \<mapsto> c)\<rparr>))"
  using assms by (fastforce simp: setStateCounter_def setState_def mirrors_def only_def mirror_ok_def
      split: option.splits)

lemma updateHandler_mirrors:
  assumes "mirrors b" and "bus_states b i \<noteq> None"
    and "\<And>h. staticOf (f h) = staticOf h \<and> dh_generation (f h) = dh_generation h \<and>
      fold mirrorTask (dh_tasks (f h)) = fold mirrorTask (dh_tasks h) \<and> inbox (f h) = inbox h @ ms"
  shows "mirrors (updateHandler i f b) \<and> (bus_heap b i \<noteq> None \<longrightarrow> only i ms b (updateHandler i f b)) \<and>
    bus_states (updateHandler i f b) = bus_states b"
proof (cases "bus_heap b i")
  case (Some h)
  then show ?thesis
    using assms by (auto simp: updateHandler_def mirrors_def only_def mirror_ok_def staticOf_def)
qed (simp add: updateHandler_def assms(1))

section \<open>A publication\<close>

definition wants :: "nat \<Rightarrow> dmesg \<Rightarrow> bus \<Rightarrow> bool" where
  "wants i m b = (case (bus_states b i, bus_heap b i) of
     (Some st, Some h) \<Rightarrow> \<not> dm_conflict m \<and> \<not> dm_force m \<and>
       dm_running_counter m > (case st_counter st (dm_topic m) of None \<Rightarrow> 0 | Some c \<Rightarrow> c) \<and>
       (dm_source_write_handler m \<noteq> dh_name h \<or> dm_type m = DtSys) \<and>
       (dm_type m \<noteq> DtSys \<or> dh_include_sys h) \<and> topicMatches h m \<and> dh_filter h m = Some True
   | _ \<Rightarrow> False)"

lemma acceptMessage_mirrors:
  assumes "mirrors b" and "bus_states b i = Some st" and "bus_heap b i = Some h"
  shows "mirrors (acceptMessage i m b) \<and> only i [m] b (acceptMessage i m b)"
proof -
  let ?b1 = "setStateCounter i (dm_topic m) (dm_running_counter m) b"
  let ?b2 = "resolveHandlerConflict i (dm_topic m) (Some m) ?b1"
  let ?b3 = "enqueueHandlerEvent i KMessage (dm_topic m) (Some m) True False ?b2"
  note b1 = setStateCounter_mirrors [OF assms(1), of i "dm_topic m" "dm_running_counter m"]
  note b2 = resolveHandlerConflict_mirrors [OF conjunct1 [OF b1], of i "dm_topic m" "Some m"]
  then obtain st2 where st2: "bus_states ?b2 i = Some st2" using b1 assms(2) by auto
  have b3: "mirrors ?b3 \<and> only i [] ?b2 ?b3 \<and> bus_states ?b3 i = Some st2"
    using enqueue_mirrors [OF _ st2, where type = KMessage and st' = st2] b2 setState_same [OF st2]
    by (simp add: conflictAfter_def)
  have o: "only i [] b ?b3" using b1 b2 b3 only_trans_nil by blast
  then have heap: "bus_heap ?b3 i \<noteq> None" using assms(3) by (auto simp: only_def)
  let ?f = "\<lambda>h. if dh_async h then scheduleInHandlerContext (TaskMessage m) h else h\<lparr>dh_buffers := dh_buffers h @ [m]\<rparr>"
  have "staticOf (?f h) = staticOf h \<and> dh_generation (?f h) = dh_generation h \<and>
      fold mirrorTask (dh_tasks (?f h)) = fold mirrorTask (dh_tasks h) \<and> inbox (?f h) = inbox h @ [m]" for h
    by (auto simp: staticOf_def scheduleInHandlerContext_def inbox_def fun_eq_iff)
  from updateHandler_mirrors [of ?b3 i ?f "[m]", OF _ _ this] b3 heap
  have "mirrors (updateHandler i ?f ?b3) \<and> only i [m] ?b3 (updateHandler i ?f ?b3)" by simp
  then show ?thesis using o only_trans_nil by (auto simp: acceptMessage_def Let_def)
qed

lemma notify_mirrors:
  assumes "mirrors b"
  shows "mirrors (fst (notify i m b)) \<and> only i (if wants i m b then [m] else []) b (fst (notify i m b))"
proof (cases "bus_states b i \<noteq> None \<and> bus_heap b i \<noteq> None")
  case True
  then obtain st h where sh: "bus_states b i = Some st" "bus_heap b i = Some h" by auto
  show ?thesis
  proof (cases "dm_conflict m \<or> dm_force m")
    case True
    have "mirrors (resolveHandlerConflict i t (Some m) (setStateCounter i t c b)) \<and>
        only i [] b (resolveHandlerConflict i t (Some m) (setStateCounter i t c b))" for t c
      using setStateCounter_mirrors [OF assms, of i t c]
        resolveHandlerConflict_mirrors [of "setStateCounter i t c b" i t "Some m"] only_trans_nil by blast
    then show ?thesis
      using True sh assms throwHandlerConflict_mirrors [OF assms, of i m]
      by (auto simp: notify_def wants_def Let_def)
  next
    case False
    then show ?thesis
      using sh assms acceptMessage_mirrors [OF assms sh, of m]
      by (auto simp: notify_def wants_def Let_def split: option.splits bool.splits)
  qed
next
  case False
  then have "notify i m b = (b, False)" "\<not> wants i m b"
    by (cases "bus_states b i"; cases "bus_heap b i"; simp add: notify_def wants_def)+
  then show ?thesis using assms by simp
qed

text \<open>What a publication keeps, and what it adds to the inbox of each subscriber.\<close>

definition gets :: "nat list \<Rightarrow> nat \<Rightarrow> dmesg \<Rightarrow> bus \<Rightarrow> dmesg list" where
  "gets subs i m b = (if i \<in> set subs \<and> subFilter i m b = Some True \<and> wants i m b then [m] else [])"

definition spread :: "nat list \<Rightarrow> dmesg \<Rightarrow> bus \<Rightarrow> bus \<Rightarrow> bool" where
  "spread subs m b b' \<longleftrightarrow> bus_handlers b' = bus_handlers b \<and> bus_tasks b' = bus_tasks b \<and>
     bus_counter b' = bus_counter b \<and> bus_last b' = bus_last b \<and>
     (\<forall>i. i \<notin> set subs \<longrightarrow> bus_heap b' i = bus_heap b i \<and> bus_states b' i = bus_states b i) \<and>
     (\<forall>i. bus_states b i = None \<longrightarrow> bus_heap b' i = bus_heap b i \<and> bus_states b' i = None) \<and>
     (\<forall>i. map_option (\<lambda>h. (staticOf h, inbox h)) (bus_heap b' i) =
       map_option (\<lambda>h. (staticOf h, inbox h @ gets subs i m b)) (bus_heap b i))"

definition same_pub :: "(nat, dmesg) pub \<Rightarrow> (nat, dmesg) pub \<Rightarrow> bool" where
  "same_pub p q \<longleftrightarrow> pb_capacity q = pb_capacity p \<and> pb_buffer q = pb_buffer p \<and> pb_subscribers q = pb_subscribers p"

lemma only_same: "only i ms b b' \<Longrightarrow> j \<noteq> i \<Longrightarrow> bus_heap b' j = bus_heap b j \<and> bus_states b' j = bus_states b j"
  by (simp add: only_def)

lemma gets_cong:
  "bus_heap b' i = bus_heap b i \<Longrightarrow> bus_states b' i = bus_states b i \<Longrightarrow> gets subs i m b' = gets subs i m b"
  by (simp add: gets_def subFilter_def wants_def)

lemma deliver_spread:
  assumes "mirrors b" and "distinct (map fst subs)"
  shows "\<exists>q b' first'. deliver subFilter notify m subs (p, b) first = ((q, b'), first') \<and> same_pub p q \<and>
    mirrors b' \<and> bus_pub b' = bus_pub b \<and> spread (map fst subs) m b b'"
  using assms
proof (induction subs arbitrary: p b first)
  case Nil
  then show ?case by (simp add: same_pub_def spread_def gets_def)
next
  case (Cons sub subs)
  obtain i n where sub: "sub = (i, n)" by (cases sub)
  have i: "i \<notin> set (map fst subs)" "distinct (map fst subs)" using Cons.prems(2) sub by auto
  have total: "subFilter i m b \<noteq> None" unfolding subFilter_def by (cases "bus_heap b i") simp_all
  obtain p1 b1 first1 where step: "deliver subFilter notify m (sub # subs) (p, b) first =
        deliver subFilter notify m subs (p1, b1) first1" "same_pub p p1" "mirrors b1"
      "only i (gets (i # map fst subs) i m b) b b1"
  proof (cases "subFilter i m b = Some True")
    case True
    obtain b1 threw where n: "notify i m b = (b1, threw)" by (cases "notify i m b")
    then have b1: "mirrors b1" "only i (gets (i # map fst subs) i m b) b b1"
      using notify_mirrors [OF Cons.prems(1), of i m] True by (simp_all add: gets_def)
    show ?thesis
      using that [of "if threw then recordCallbackFailure KNotify i p else p" b1
          "if threw then firstOf first KNotify i else first"] n b1 True sub
      by (simp add: same_pub_def recordCallbackFailure_def Let_def)
  next
    case False
    then have no: "subFilter i m b = Some False" using total by auto
    then show ?thesis
      using that [of p b first] Cons.prems(1) sub by (simp add: same_pub_def gets_def)
  qed
  obtain q b' first' where rest: "deliver subFilter notify m subs (p1, b1) first1 = ((q, b'), first')"
      "same_pub p1 q" "mirrors b'" "bus_pub b' = bus_pub b1" "spread (map fst subs) m b1 b'"
    using Cons.IH [OF step(3) i(2), of p1 first1] by blast
  have heap: "map_option (\<lambda>h. (staticOf h, inbox h)) (bus_heap b' j) =
      map_option (\<lambda>h. (staticOf h, inbox h @ gets (map fst (sub # subs)) j m b)) (bus_heap b j)" for j
  proof (cases "j = i")
    case True
    then show ?thesis using step(4) rest(5) i(1) sub by (simp add: only_def spread_def)
  next
    case False
    have "gets (map fst (sub # subs)) j m b = gets (map fst subs) j m b"
      using False sub by (simp add: gets_def)
    then have "gets (map fst (sub # subs)) j m b = gets (map fst subs) j m b1"
      using gets_cong [of b1 j b "map fst subs" m] only_same [OF step(4) False] by simp
    then show ?thesis using only_same [OF step(4) False] rest(5) by (simp add: spread_def)
  qed
  have states: "bus_heap b' j = bus_heap b j \<and> bus_states b' j = None" if "bus_states b j = None" for j
    using that step(4) rest(5) by (cases "j = i") (simp_all add: only_def spread_def)
  have other: "bus_heap b' j = bus_heap b j \<and> bus_states b' j = bus_states b j" if "j \<notin> set (map fst (sub # subs))" for j
    using that step(4) rest(5) sub by (simp add: only_def spread_def)
  have "spread (map fst (sub # subs)) m b b'"
    using step(4) rest(5) heap states other by (simp add: spread_def) (simp add: only_def)
  then show ?case
    using step rest by (auto simp: same_pub_def only_def)
qed

definition pub_ok :: "bus \<Rightarrow> bool" where
  "pub_ok b \<longleftrightarrow> pb_capacity (bus_pub b) = 0 \<and> pb_buffer (bus_pub b) = [] \<and>
     distinct (map fst (pb_subscribers (bus_pub b)))"

definition subscribers :: "bus \<Rightarrow> nat list" where
  "subscribers b = map fst (pb_subscribers (bus_pub b))"

lemma publishBase_spread:
  assumes "mirrors b" and "pub_ok b"
  shows "mirrors (fst (publishBase m b)) \<and> pub_ok (fst (publishBase m b)) \<and>
    subscribers (fst (publishBase m b)) = subscribers b \<and> spread (subscribers b) m b (fst (publishBase m b))"
proof -
  let ?p = "retain m (bus_pub b)"
  have p: "same_pub (bus_pub b) ?p" using assms(2) by (simp add: retain_def same_pub_def pub_ok_def)
  have "distinct (map fst (pb_subscribers ?p))" using p assms(2) by (simp add: same_pub_def pub_ok_def)
  then obtain q b' first' where d: "deliver subFilter notify m (pb_subscribers ?p) (?p, b) None = ((q, b'), first')"
      "same_pub ?p q" "mirrors b'" "spread (map fst (pb_subscribers ?p)) m b b'"
    using deliver_spread [OF assms(1), of "pb_subscribers ?p" m ?p None] by blast
  have "mirrors (b'\<lparr>bus_pub := q\<rparr>)" using d(3) by (simp add: mirrors_def)
  moreover have "spread s m b (b'\<lparr>bus_pub := q\<rparr>) = spread s m b b'" for s by (simp add: spread_def)
  moreover have "fst (publishBase m b) = b'\<lparr>bus_pub := q\<rparr>"
    using d(1) by (simp add: publishBase_def PubSub.publishInternal_def Let_def)
  ultimately show ?thesis
    using d p assms(2) by (simp add: pub_ok_def subscribers_def same_pub_def)
qed

section \<open>The outcomes of a publication\<close>

lemma deliver_inv:
  assumes "\<And>i b. P b \<Longrightarrow> P (fst (notify i m b))" and "P b"
  shows "P (snd (fst (deliver subFilter notify m subs (p, b) first)))"
  using assms(2)
proof (induction subs arbitrary: p b first)
  case (Cons sub subs)
  have "P (fst (notify (fst sub) m b))" using assms(1) Cons.prems by simp
  then show ?case using Cons by (cases sub) (auto split: option.split bool.split prod.split)
qed simp

lemma publishBase_inv:
  assumes "\<And>i b. P b \<Longrightarrow> P (fst (notify i m b))" and "\<And>b p. P (b\<lparr>bus_pub := p\<rparr>) = P b" and "P b"
  shows "P (fst (publishBase m b))"
proof -
  obtain q b' first where d: "deliver subFilter notify m (pb_subscribers (retain m (bus_pub b)))
      (retain m (bus_pub b), b) None = ((q, b'), first)" by (metis prod.exhaust)
  then have "P b'" using deliver_inv [of P m, OF assms(1) assms(3)] by (metis fst_conv snd_conv)
  then show ?thesis using d assms(2) by (simp add: publishBase_def PubSub.publishInternal_def Let_def)
qed

definition inConflict :: "nat \<Rightarrow> string \<Rightarrow> bus \<Rightarrow> bool" where
  "inConflict i t b = (case bus_states b i of None \<Rightarrow> False | Some st \<Rightarrow> t \<in> set (st_conflict st))"

lemma inConflict_other: "only i ms b b' \<Longrightarrow> j \<noteq> i \<Longrightarrow> inConflict j t b' = inConflict j t b"
  by (simp add: inConflict_def only_def)

lemma insertTopic_set [simp]: "set (insertTopic t ts) = insert t (set ts)"
  by (auto simp: insertTopic_def set_insort_key)

lemma throwHandlerConflict_conflict:
  assumes "mirrors b"
  shows "inConflict j t (throwHandlerConflict i m b) \<longleftrightarrow>
    inConflict j t b \<or> j = i \<and> t = dm_topic m \<and> bus_states b i \<noteq> None"
proof (cases "j = i")
  case True
  show ?thesis
  proof (cases "bus_states b i")
    case (Some st)
    then obtain st' where "bus_states (throwHandlerConflict i m b) i = Some st'"
        "st_conflict st' = insertTopic (dm_topic m) (st_conflict st)"
      using throwHandlerConflict_mirrors [OF assms, of i m] by blast
    then show ?thesis using True Some by (auto simp: inConflict_def)
  qed (simp add: throwHandlerConflict_def)
next
  case False
  then show ?thesis using inConflict_other [of i "[]" b "throwHandlerConflict i m b" j t] throwHandlerConflict_mirrors [OF assms, of i m] by simp
qed

lemma notify_conflict_mono:
  assumes "dm_conflict m" and "mirrors b \<and> inConflict j t b"
  shows "mirrors (fst (notify i m b)) \<and> inConflict j t (fst (notify i m b))"
proof -
  have "fst (notify i m b) = b \<or> fst (notify i m b) = throwHandlerConflict i m b"
    using assms(1) by (simp add: notify_def split: option.split)
  then show ?thesis
    using notify_mirrors [of b i m] throwHandlerConflict_conflict [of b j t i m] assms(2) by auto
qed

lemma resolveHandlerConflict_conflict:
  assumes "mirrors b" and "inConflict j t (resolveHandlerConflict i topic m b)"
  shows "inConflict j t b"
proof (cases "j = i")
  case True
  show ?thesis
  proof (cases "bus_states b i")
    case (Some st)
    then obtain st' where "bus_states (resolveHandlerConflict i topic m b) i = Some st'"
        "st_conflict st' = (if topic = [] then [] else remove1 topic (st_conflict st))"
      using resolveHandlerConflict_mirrors [OF assms(1), of i topic m] by blast
    then show ?thesis
      using True Some assms(2) set_remove1_subset [of topic "st_conflict st"]
      by (auto simp: inConflict_def split: if_splits)
  qed (use assms(2) in \<open>simp add: resolveHandlerConflict_def\<close>)
next
  case False
  then show ?thesis using inConflict_other [of i "[]" b "resolveHandlerConflict i topic m b" j t] resolveHandlerConflict_mirrors [OF assms(1), of i topic m] assms(2)
    by simp
qed

lemma setStateCounter_conflict: "inConflict j t (setStateCounter i topic c b) = inConflict j t b"
  by (auto simp: inConflict_def setStateCounter_def setState_def split: option.split)

lemma updateHandler_conflict: "inConflict j t (updateHandler i f b) = inConflict j t b"
  by (simp add: inConflict_def updateHandler_def split: option.split)

lemma enqueue_conflict: "inConflict j t (enqueueHandlerEvent i type topic m n c b) = inConflict j t b"
  by (simp add: enqueueHandlerEvent_def updateHandler_conflict Let_def split: option.split)

lemma notify_conflict_anti:
  assumes "\<not> dm_conflict m" and "mirrors b" and "inConflict j t (fst (notify i m b))"
  shows "inConflict j t b"
proof -
  have r: "inConflict j t b" if "inConflict j t (resolveHandlerConflict i topic (Some m) (setStateCounter i topic c b))"
    for topic c
    using resolveHandlerConflict_conflict [OF _ that] setStateCounter_mirrors [OF assms(2), of i topic c]
    by (simp add: setStateCounter_conflict)
  have a: "inConflict j t b" if "inConflict j t (acceptMessage i m b)"
    using that r by (simp add: acceptMessage_def Let_def updateHandler_conflict enqueue_conflict)
  show ?thesis
    using assms(1,3) r a by (auto simp: notify_def Let_def split: option.splits if_splits bool.splits)
qed

lemma publishBase_conflict:
  assumes "mirrors b"
  shows "dm_conflict m \<Longrightarrow> inConflict i t b \<Longrightarrow> inConflict i t (fst (publishBase m b))"
    and "\<not> dm_conflict m \<Longrightarrow> \<not> inConflict i t b \<Longrightarrow> \<not> inConflict i t (fst (publishBase m b))"
proof -
  have pub: "(mirrors (b\<lparr>bus_pub := p\<rparr>) \<and> inConflict i t (b\<lparr>bus_pub := p\<rparr>)) = (mirrors b \<and> inConflict i t b)"
    "(mirrors (b\<lparr>bus_pub := p\<rparr>) \<and> \<not> inConflict i t (b\<lparr>bus_pub := p\<rparr>)) = (mirrors b \<and> \<not> inConflict i t b)" for b p
    by (simp_all add: mirrors_def inConflict_def)
  show "inConflict i t (fst (publishBase m b))" if "dm_conflict m" "inConflict i t b"
    using publishBase_inv [where P = "\<lambda>b. mirrors b \<and> inConflict i t b", OF notify_conflict_mono [OF that(1)] pub(1)]
      assms that(2) by blast
  have anti: "mirrors (fst (notify j m b)) \<and> \<not> inConflict i t (fst (notify j m b))"
    if "\<not> dm_conflict m" "mirrors b \<and> \<not> inConflict i t b" for j b
    using that notify_conflict_anti notify_mirrors by blast
  show "\<not> inConflict i t (fst (publishBase m b))" if "\<not> dm_conflict m" "\<not> inConflict i t b"
    using publishBase_inv [where P = "\<lambda>b. mirrors b \<and> \<not> inConflict i t b", OF anti [OF that(1)] pub(2)]
      assms that(2) by blast
qed

text \<open>The publisher-side state of the sender before the message goes out.\<close>

definition noteSource :: "dmesg \<Rightarrow> bus \<Rightarrow> bus" where
  "noteSource m b = (case findSource m b of None \<Rightarrow> b
     | Some i \<Rightarrow> setStateCounter i (dm_topic m) (dm_running_counter m) b)"

definition nextCounter :: "dmesg \<Rightarrow> bus \<Rightarrow> u64" where
  "nextCounter m b = (if dm_force m then dm_running_counter m else incrementByOne (bus_counter b (dm_topic m)))"

lemma noteSource_mirrors:
  assumes "mirrors b"
  shows "mirrors (noteSource m b)" "bus_pub (noteSource m b) = bus_pub b" "bus_heap (noteSource m b) = bus_heap b"
    "bus_handlers (noteSource m b) = bus_handlers b" "bus_tasks (noteSource m b) = bus_tasks b"
    "bus_counter (noteSource m b) = bus_counter b" "bus_last (noteSource m b) = bus_last b"
    "inConflict i t (noteSource m b) = inConflict i t b"
    "findSource m b \<noteq> Some i \<Longrightarrow> bus_states (noteSource m b) i = bus_states b i"
    "(bus_states (noteSource m b) i = None) = (bus_states b i = None)"
  using assms setStateCounter_mirrors [OF assms] setStateCounter_conflict
  by (auto simp: noteSource_def setStateCounter_def setState_def split: option.split)

lemma sourceInConflict_eq: "sourceInConflict src t b = (case src of None \<Rightarrow> False | Some i \<Rightarrow> inConflict i t b)"
  by (simp add: sourceInConflict_def inConflict_def split: option.split)

lemma publishInternal_cases:
  assumes "\<not> dm_playback m" and "mirrors b"
  obtains (dropped) "sourceInConflict (findSource m b) (dm_topic m) b" "\<not> dm_force m"
      "publishInternal m b = (noteSource m b, None)"
  | (stale) m' b2 where "\<not> (sourceInConflict (findSource m b) (dm_topic m) b \<and> \<not> dm_force m)"
      "dm_running_counter m < nextCounter m b \<or> dm_conflict m" "m' = m\<lparr>dm_conflict := True\<rparr>"
      "b2 = (case findSource m b of None \<Rightarrow> noteSource m b | Some i \<Rightarrow> throwHandlerConflict i m' (noteSource m b))"
      "publishInternal m b = publishBase m' b2"
  | (accepted) m' b2 where "\<not> (sourceInConflict (findSource m b) (dm_topic m) b \<and> \<not> dm_force m)"
      "\<not> (dm_running_counter m < nextCounter m b \<or> dm_conflict m)"
      "m' = m\<lparr>dm_running_counter := nextCounter m b\<rparr>"
      "b2 = (noteSource m b)\<lparr>bus_counter := (bus_counter b)(dm_topic m := nextCounter m b),
         bus_last := AList.update (dm_topic m) m' (bus_last b)\<rparr>"
      "publishInternal m b = publishBase m' b2"
proof -
  have s: "sourceInConflict (findSource m b) (dm_topic m) (noteSource m b) =
      sourceInConflict (findSource m b) (dm_topic m) b"
    using noteSource_mirrors(8) [OF assms(2)] by (simp add: sourceInConflict_eq split: option.split)
  have p: "publishInternal m b =
      (if sourceInConflict (findSource m b) (dm_topic m) (noteSource m b) \<and> \<not> dm_force m then (noteSource m b, None)
       else if dm_running_counter m < nextCounter m b \<or> dm_conflict m
       then publishBase (m\<lparr>dm_conflict := True\<rparr>) (case findSource m b of None \<Rightarrow> noteSource m b
              | Some i \<Rightarrow> throwHandlerConflict i (m\<lparr>dm_conflict := True\<rparr>) (noteSource m b))
       else publishBase (m\<lparr>dm_running_counter := nextCounter m b\<rparr>)
              ((noteSource m b)\<lparr>bus_counter := (bus_counter b)(dm_topic m := nextCounter m b),
                 bus_last := AList.update (dm_topic m) (m\<lparr>dm_running_counter := nextCounter m b\<rparr>) (bus_last b)\<rparr>))"
    using assms(1) noteSource_mirrors(6,7) [OF assms(2), of m]
    by (cases "findSource m b") (simp_all add: publishInternal_def noteSource_def nextCounter_def Let_def)
  show ?thesis using that p s by (auto split: if_splits)
qed

lemma spread_inbox:
  assumes "spread subs m b b'"
  shows "map_option inbox (bus_heap b' i) = map_option (\<lambda>h. inbox h @ gets subs i m b) (bus_heap b i)"
proof -
  have "map_option (\<lambda>h. (staticOf h, inbox h)) (bus_heap b' i) =
      map_option (\<lambda>h. (staticOf h, inbox h @ gets subs i m b)) (bus_heap b i)"
    using assms by (simp add: spread_def)
  then show ?thesis by (cases "bus_heap b i"; cases "bus_heap b' i") auto
qed

lemma only_inbox:
  assumes "only i ms b b'"
  shows "map_option inbox (bus_heap b' j) = map_option (\<lambda>h. inbox h @ (if j = i then ms else [])) (bus_heap b j)"
  using assms by (cases "j = i"; cases "bus_heap b j"; cases "bus_heap b' j") (auto simp: only_def)

lemma findSource_state: "mirrors b \<Longrightarrow> findSource m b = Some i \<Longrightarrow> i \<in> set (bus_handlers b) \<and> bus_states b i \<noteq> None"
  by (auto simp: findSource_def find_Some_iff mirrors_def)

lemma throwSource_only:
  assumes "mirrors b"
  shows "mirrors (case src of None \<Rightarrow> b | Some i \<Rightarrow> throwHandlerConflict i m b) \<and>
    (\<forall>j. map_option inbox (bus_heap (case src of None \<Rightarrow> b | Some i \<Rightarrow> throwHandlerConflict i m b) j) =
       map_option inbox (bus_heap b j)) \<and>
    bus_pub (case src of None \<Rightarrow> b | Some i \<Rightarrow> throwHandlerConflict i m b) = bus_pub b \<and>
    bus_counter (case src of None \<Rightarrow> b | Some i \<Rightarrow> throwHandlerConflict i m b) = bus_counter b \<and>
    bus_last (case src of None \<Rightarrow> b | Some i \<Rightarrow> throwHandlerConflict i m b) = bus_last b"
proof (cases src)
  case (Some i)
  note t = throwHandlerConflict_mirrors [OF assms, of i m]
  have "map_option inbox (bus_heap (throwHandlerConflict i m b) j) = map_option inbox (bus_heap b j)" for j
    using only_inbox [of i "[]" b "throwHandlerConflict i m b" j] t by simp
  then show ?thesis using t Some by (simp add: only_def)
qed (simp add: assms)

lemma accepted_gets:
  assumes "mirrors b" and "\<not> dm_running_counter m < nextCounter m b"
  defines "m' \<equiv> m\<lparr>dm_running_counter := nextCounter m b\<rparr>"
  shows "gets subs i m' ((noteSource m b)\<lparr>bus_counter := f, bus_last := l\<rparr>) =
    (if findSource m b = Some i then [] else gets subs i m' b)"
proof (cases "findSource m b = Some i")
  case True
  then obtain st where "bus_states b i = Some st" using findSource_state [OF assms(1)] by blast
  then have "bus_states (noteSource m b) i = Some (st\<lparr>st_counter := (st_counter st)(dm_topic m \<mapsto> dm_running_counter m)\<rparr>)"
    using True by (simp add: noteSource_def setStateCounter_def setState_def)
  then have "\<not> wants i m' ((noteSource m b)\<lparr>bus_counter := f, bus_last := l\<rparr>)"
    using assms(2) by (simp add: wants_def m'_def split: option.split)
  then show ?thesis using True by (simp add: gets_def)
next
  case False
  then have "gets subs i m' ((noteSource m b)\<lparr>bus_counter := f, bus_last := l\<rparr>) = gets subs i m' b"
    using noteSource_mirrors(3,9) [OF assms(1)] by (intro gets_cong) simp_all
  then show ?thesis using False by simp
qed

lemma publish_result:
  assumes "mirrors b" and "pub_ok b" and "\<not> dm_playback m"
  shows "if sourceInConflict (findSource m b) (dm_topic m) b \<and> \<not> dm_force m then
      bus_heap (fst (publishInternal m b)) = bus_heap b \<and>
      bus_counter (fst (publishInternal m b)) = bus_counter b \<and> bus_last (fst (publishInternal m b)) = bus_last b
    else if dm_running_counter m < nextCounter m b \<or> dm_conflict m then
      bus_counter (fst (publishInternal m b)) = bus_counter b \<and> bus_last (fst (publishInternal m b)) = bus_last b \<and>
      (\<forall>i. map_option inbox (bus_heap (fst (publishInternal m b)) i) = map_option inbox (bus_heap b i)) \<and>
      (case findSource m b of None \<Rightarrow> True | Some i \<Rightarrow> inConflict i (dm_topic m) (fst (publishInternal m b)))
    else
      bus_counter (fst (publishInternal m b)) = (bus_counter b)(dm_topic m := nextCounter m b) \<and>
      bus_last (fst (publishInternal m b)) = AList.update (dm_topic m)
        (m\<lparr>dm_running_counter := nextCounter m b\<rparr>) (bus_last b) \<and>
      (\<forall>i. map_option inbox (bus_heap (fst (publishInternal m b)) i) =
         map_option (\<lambda>h. inbox h @ (if findSource m b = Some i then []
           else gets (subscribers b) i (m\<lparr>dm_running_counter := nextCounter m b\<rparr>) b)) (bus_heap b i))"
  using assms(3,1)
proof (cases rule: publishInternal_cases)
  case dropped
  then show ?thesis using noteSource_mirrors [OF assms(1)] by simp
next
  case (stale m' b2)
  note n = noteSource_mirrors [OF assms(1), where m = m]
  note t = throwSource_only [OF n(1), where src = "findSource m b" and m = m']
  have b2: "mirrors b2" "pub_ok b2" using t n(2) assms(2) stale(4) by (simp_all add: pub_ok_def)
  note base = publishBase_spread [OF b2, of m']
  have "gets (subscribers b2) i m' b2 = []" for i using stale(3) by (simp add: gets_def wants_def split: option.split)
  then have inbox: "map_option inbox (bus_heap (fst (publishBase m' b2)) i) = map_option inbox (bus_heap b i)" for i
    using spread_inbox [of "subscribers b2" m' b2 "fst (publishBase m' b2)" i] base t n(3) stale(4) by simp
  have src: "inConflict i (dm_topic m) (fst (publishBase m' b2))" if "findSource m b = Some i" for i
  proof -
    have "inConflict i (dm_topic m) b2"
      using that stale(3,4) throwHandlerConflict_conflict [OF n(1)] n(10) findSource_state [OF assms(1) that] by simp
    then show ?thesis using publishBase_conflict(1) [OF b2(1), of m' i "dm_topic m"] stale(3) by simp
  qed
  show ?thesis
    using stale(1,2,5) base t n(6,7) inbox src stale(4) by (auto simp: spread_def split: option.split)
next
  case (accepted m' b2)
  note n = noteSource_mirrors [OF assms(1), where m = m]
  have b2: "mirrors b2" "pub_ok b2" "subscribers b2 = subscribers b" "bus_heap b2 = bus_heap b"
    using n(1-3) assms(2) accepted(4) by (simp_all add: pub_ok_def mirrors_def subscribers_def)
  note base = publishBase_spread [OF b2(1,2), of m']
  have "gets (subscribers b) i m' b2 = (if findSource m b = Some i then [] else gets (subscribers b) i m' b)" for i
    using accepted_gets [OF assms(1), of m] accepted(2-4) by simp
  then have inbox: "map_option inbox (bus_heap (fst (publishBase m' b2)) i) =
      map_option (\<lambda>h. inbox h @ (if findSource m b = Some i then [] else gets (subscribers b) i m' b)) (bus_heap b i)" for i
    using spread_inbox [of "subscribers b2" m' b2 "fst (publishBase m' b2)" i] base b2(3,4) by simp
  have "bus_counter b2 = (bus_counter b)(dm_topic m := nextCounter m b)"
      "bus_last b2 = AList.update (dm_topic m) m' (bus_last b)"
    by (simp_all add: accepted(4))
  then show ?thesis
    unfolding accepted(3) [symmetric] accepted(5) using accepted(1,2) base inbox by (simp add: spread_def) blast
qed

end
