(* ===== verification/DMesgInv.thy ===== *)
theory DMesgInv
  imports DMesgProps
begin

text \<open>
  The message bus in every interleaving: registration and erasure of handlers, the cache of last
  messages, and the mirrors.
\<close>

section \<open>The invariant\<close>

text \<open>The conflict set and generation of a handler once its waiting tasks have run.\<close>

definition settle :: "handler \<Rightarrow> string list \<times> u64" where
  "settle h = fold mirrorTask (dh_tasks h) (dh_in_conflict h, dh_generation h)"

fun regOf :: "pub_task \<Rightarrow> nat list" where
  "regOf (PubRegister i) = [i]"
| "regOf _ = []"

fun finOf :: "pub_task \<Rightarrow> nat list" where
  "finOf (PubFinalize i) = [i]"
| "finOf _ = []"

fun eraseOf :: "pub_task \<Rightarrow> nat list" where
  "eraseOf (PubErase i) = [i]"
| "eraseOf _ = []"

definition regs :: "bus \<Rightarrow> nat list" where
  "regs b = concat (map regOf (bus_tasks b))"

definition fins :: "bus \<Rightarrow> nat list" where
  "fins b = concat (map finOf (bus_tasks b))"

definition erases :: "bus \<Rightarrow> nat list" where
  "erases b = concat (map eraseOf (bus_tasks b))"

definition registry_ok :: "bus \<Rightarrow> bool" where
  "registry_ok b \<longleftrightarrow> distinct (regs b @ fins b @ bus_handlers b) \<and>
     (\<forall>i\<in>set (regs b). i \<notin> set (subscribers b)) \<and>
     (\<forall>i\<in>set (erases b). i \<notin> set (subscribers b) \<and> i \<notin> set (regs b) \<and> i \<notin> set (fins b) \<and>
        bus_heap b i \<noteq> None) \<and>
     (\<forall>i. i \<in> set (regs b) \<union> set (fins b) \<union> set (subscribers b) \<and> i \<notin> set (bus_handlers b) \<longrightarrow>
        map_option settle (bus_heap b i) = Some ([], 0))"

definition cache_ok :: "bus \<Rightarrow> bool" where
  "cache_ok b \<longleftrightarrow> distinct (map fst (bus_last b)) \<and>
     list_all (\<lambda>p. dm_topic (snd p) = fst p \<and> \<not> dm_conflict (snd p) \<and> \<not> dm_playback (snd p) \<and>
       dm_running_counter (snd p) = bus_counter b (fst p)) (bus_last b)"

definition bus_ok :: "bus \<Rightarrow> bool" where
  "bus_ok b \<longleftrightarrow> mirrors b \<and> pub_ok b \<and> registry_ok b \<and> cache_ok b"

lemma mirror_ok_settle: "mirror_ok h st = (settle h = (st_conflict st, st_generation st))"
  by (simp add: mirror_ok_def settle_def)

section \<open>Publications\<close>

text \<open>What no task of the publisher changes by publishing or resolving.\<close>

definition quiet :: "bus \<Rightarrow> bus \<Rightarrow> bool" where
  "quiet b b' \<longleftrightarrow> mirrors b' \<and> pub_ok b' \<and> cache_ok b' \<and> subscribers b' = subscribers b \<and>
     bus_handlers b' = bus_handlers b \<and> bus_tasks b' = bus_tasks b \<and>
     (\<forall>i. bus_states b i = None \<longrightarrow> bus_heap b' i = bus_heap b i \<and> bus_states b' i = None) \<and>
     (\<forall>i. (bus_heap b' i = None) = (bus_heap b i = None))"

lemma quiet_trans: "quiet b c \<Longrightarrow> quiet c d \<Longrightarrow> quiet b d"
  by (simp add: quiet_def)

lemma quiet_refl: "mirrors b \<Longrightarrow> pub_ok b \<Longrightarrow> cache_ok b \<Longrightarrow> quiet b b"
  by (simp add: quiet_def)

lemma only_domain: "only i ms b b' \<Longrightarrow> (bus_heap b' j = None) = (bus_heap b j = None)"
  by (cases "j = i"; cases "bus_heap b j"; cases "bus_heap b' j") (auto simp: only_def)

lemma only_quiet:
  assumes "only i ms b b'" and "mirrors b'" and "pub_ok b" and "cache_ok b"
  shows "quiet b b'"
proof -
  have "bus_heap b' j = bus_heap b j \<and> bus_states b' j = None" if "bus_states b j = None" for j
    using that assms(1) by (cases "j = i") (auto simp: only_def)
  then show ?thesis
    using assms only_domain [OF assms(1)]
    by (simp add: quiet_def only_def pub_ok_def cache_ok_def subscribers_def)
qed

lemma spread_domain: "spread subs m b b' \<Longrightarrow> (bus_heap b' i = None) = (bus_heap b i = None)"
  by (cases "bus_heap b i"; cases "bus_heap b' i") (auto simp: spread_def dest!: spec [where x = i])

lemma publishBase_quiet:
  assumes "mirrors b" and "pub_ok b" and "cache_ok b"
  shows "quiet b (fst (publishBase m b))"
proof -
  note p = publishBase_spread [OF assms(1,2), of m]
  note s = p [THEN conjunct2, THEN conjunct2, THEN conjunct2]
  then have "cache_ok (fst (publishBase m b))" using assms(3) by (simp add: spread_def cache_ok_def)
  moreover have "\<forall>i. bus_states b i = None \<longrightarrow> bus_heap (fst (publishBase m b)) i = bus_heap b i \<and>
      bus_states (fst (publishBase m b)) i = None"
    using s by (simp add: spread_def)
  ultimately show ?thesis
    using p spread_domain [OF s] by (simp add: quiet_def) (simp add: spread_def)
qed

lemma cache_update:
  assumes "cache_ok b" and "\<not> dm_conflict m" and "\<not> dm_playback m"
  shows "cache_ok (b\<lparr>bus_counter := (bus_counter b)(dm_topic m := dm_running_counter m),
    bus_last := AList.update (dm_topic m) m (bus_last b)\<rparr>)"
proof -
  let ?l = "AList.update (dm_topic m) m (bus_last b)"
  have d: "distinct (map fst ?l)" using assms(1) by (simp add: cache_ok_def distinct_update)
  have "p = (dm_topic m, m) \<or> p \<in> set (bus_last b) \<and> fst p \<noteq> dm_topic m" if "p \<in> set ?l" for p
  proof -
    have "map_of ?l (fst p) = Some (snd p)" using d that by simp
    then show ?thesis by (cases p) (auto simp: update_conv' split: if_splits dest: map_of_SomeD)
  qed
  then show ?thesis using d assms by (fastforce simp: cache_ok_def list_all_iff)
qed

lemma publishInternal_quiet:
  assumes "mirrors b" and "pub_ok b" and "cache_ok b"
  shows "quiet b (fst (publishInternal m b))"
proof (cases "dm_playback m")
  case True
  then show ?thesis using publishBase_quiet [OF assms] by (simp add: publishInternal_def)
next
  case False
  note n = noteSource_mirrors [OF assms(1), where m = m]
  have src: "quiet b (noteSource m b)"
    using n assms by (simp add: quiet_def pub_ok_def cache_ok_def subscribers_def)
  from False assms(1) show ?thesis
  proof (cases rule: publishInternal_cases)
    case dropped
    then show ?thesis using src by simp
  next
    case (stale m' b2)
    have "quiet (noteSource m b) b2"
    proof (cases "findSource m b")
      case None
      then show ?thesis using stale(4) src by (simp add: quiet_def)
    next
      case (Some i)
      have "pub_ok (noteSource m b)" "cache_ok (noteSource m b)" using src by (simp_all add: quiet_def)
      then show ?thesis
        using throwHandlerConflict_mirrors [OF n(1), of i m'] only_quiet [of i "[]" "noteSource m b" b2]
          stale(4) Some by simp
    qed
    then have "quiet b b2" using src quiet_trans by blast
    then show ?thesis
      using publishBase_quiet [of b2 m'] quiet_trans stale(5) by (auto simp: quiet_def)
  next
    case (accepted m' b2)
    have "cache_ok (noteSource m b)" using src by (simp add: quiet_def)
    from cache_update [OF this, of m'] have "cache_ok b2"
      using accepted(2-4) False n(6,7) by simp
    then have "quiet b b2" using src accepted(4) n(2) by (simp add: quiet_def mirrors_def pub_ok_def subscribers_def)
    then show ?thesis
      using publishBase_quiet [of b2 m'] quiet_trans accepted(5) by (auto simp: quiet_def)
  qed
qed

lemma playbackEach_quiet:
  assumes "mirrors b" and "pub_ok b" and "cache_ok b"
  shows "quiet b (fst (playbackEach ms b))"
  using assms
proof (induction ms arbitrary: b)
  case (Cons m ms)
  obtain b1 e where p: "publishInternal (m\<lparr>dm_playback := True\<rparr>) b = (b1, e)" by fastforce
  then have "quiet b b1" using publishInternal_quiet [OF Cons.prems, of "m\<lparr>dm_playback := True\<rparr>"] by simp
  then show ?case using Cons.IH [of b1] quiet_trans p by (cases e) (auto simp: quiet_def)
qed (simp add: quiet_refl)

section \<open>Steps that the publisher does not notice\<close>

definition calm :: "bus \<Rightarrow> bus \<Rightarrow> bool" where
  "calm b b' \<longleftrightarrow> bus_pub b' = bus_pub b \<and> bus_handlers b' = bus_handlers b \<and> bus_states b' = bus_states b \<and>
     bus_counter b' = bus_counter b \<and> bus_last b' = bus_last b \<and>
     regs b' = regs b \<and> fins b' = fins b \<and> erases b' = erases b \<and>
     (\<forall>i. map_option settle (bus_heap b' i) = map_option settle (bus_heap b i))"

lemma calm_refl [simp]: "calm b b"
  by (simp add: calm_def)

lemma calm_trans: "calm b c \<Longrightarrow> calm c d \<Longrightarrow> calm b d"
  by (simp add: calm_def)

lemma mirrorsD:
  "mirrors b \<Longrightarrow> i \<in> set (bus_handlers b) \<Longrightarrow>
    \<exists>h st. bus_heap b i = Some h \<and> bus_states b i = Some st \<and> mirror_ok h st"
  by (simp add: mirrors_def)

lemma calm_mirrors:
  assumes "mirrors b" and "calm b b'"
  shows "mirrors b'"
proof -
  have "\<exists>h st. bus_heap b' i = Some h \<and> bus_states b' i = Some st \<and> mirror_ok h st" if "i \<in> set (bus_handlers b')" for i
  proof -
    have "i \<in> set (bus_handlers b)" using that assms(2) by (simp add: calm_def)
    then obtain h st where "bus_heap b i = Some h" "bus_states b i = Some st" "mirror_ok h st"
      using mirrorsD [OF assms(1)] by blast
    moreover have "map_option settle (bus_heap b' i) = map_option settle (bus_heap b i)"
      using assms(2) by (simp add: calm_def)
    ultimately show ?thesis using assms(2) by (auto simp: calm_def mirror_ok_settle)
  qed
  then show ?thesis using assms by (simp add: mirrors_def calm_def)
qed

lemma calm_ok:
  assumes "bus_ok b" and "calm b b'"
  shows "bus_ok b'"
proof -
  have "(bus_heap b' i = None) = (bus_heap b i = None)" for i
  proof -
    have "map_option settle (bus_heap b' i) = map_option settle (bus_heap b i)"
      using assms(2) by (simp add: calm_def)
    then show ?thesis by (cases "bus_heap b i"; cases "bus_heap b' i") auto
  qed
  then show ?thesis
    using assms calm_mirrors [of b b']
    by (simp add: bus_ok_def registry_ok_def pub_ok_def cache_ok_def subscribers_def calm_def)
qed

lemma updateHandler_calm: "(\<And>h. settle (f h) = settle h) \<Longrightarrow> calm b (updateHandler i f b)"
  by (simp add: calm_def updateHandler_def regs_def fins_def erases_def split: option.split)

lemma post_calm:
  "regOf task = [] \<Longrightarrow> finOf task = [] \<Longrightarrow> eraseOf task = [] \<Longrightarrow> calm b (post task b)"
  by (simp add: calm_def post_def regs_def fins_def erases_def)

lemma updateHandler_comp: "updateHandler i f (updateHandler i g b) = updateHandler i (f \<circ> g) b"
  by (simp add: updateHandler_def split: option.split)

lemma updateHandler_calm_at:
  assumes "bus_heap b i = Some h" and "settle (f h) = settle h"
  shows "calm b (updateHandler i f b)"
  using assms by (simp add: calm_def updateHandler_def regs_def fins_def erases_def)

lemma applyPublisherEvent_mirror:
  "dh_tasks (applyPublisherEvent e n c h) = dh_tasks h"
  "dh_in_conflict (applyPublisherEvent e n c h) = conflictAfter (he_type e) (he_topic e) (dh_in_conflict h)"
  "dh_generation (applyPublisherEvent e n c h) = he_generation e"
  by (simp_all add: applyPublisherEvent_def mirrorCounter_def conflictAfter_def Let_def
      split: handler_event_type.split option.split)

lemma handlerTurn_calm: "calm b (handlerTurn i b)"
proof (cases "\<exists>h task tasks. bus_heap b i = Some h \<and> dh_tasks h = task # tasks \<and> \<not> dh_waiting h")
  case True
  then obtain h task tasks where h: "bus_heap b i = Some h" "dh_tasks h = task # tasks" "\<not> dh_waiting h" by blast
  let ?g = "\<lambda>h. h\<lparr>dh_tasks := tasks\<rparr>"
  have turn: "handlerTurn i b = runHandlerTask i task (updateHandler i ?g b)"
    using h by (simp add: handlerTurn_def)
  have pop: "settle (?g h) = settle h" if "mirrorTask task = (\<lambda>p. p)"
    using h(2) that by (simp add: settle_def)
  have upd: "calm b (updateHandler i f (updateHandler i ?g b))" if "settle (f (?g h)) = settle h" for f
    using updateHandler_calm_at [OF h(1), of "f \<circ> ?g"] that by (simp add: updateHandler_comp)
  show ?thesis
  proof (cases task)
    case (TaskEvent e n c)
    have "settle (applyPublisherEvent e n c (?g h)) = settle h"
      using h(2) TaskEvent by (simp add: settle_def applyPublisherEvent_mirror)
    then show ?thesis using turn upd TaskEvent by (simp add: runHandlerTask_def)
  next
    case (TaskWrite m block)
    have pop: "settle (?g h) = settle h" using TaskWrite by (intro pop) auto
    have popped: "calm b (updateHandler i ?g b)" using upd [of "\<lambda>h. h"] pop by (simp add: updateHandler_comp comp_def)
    show ?thesis
    proof (cases "writeDMesgInternal i m block (updateHandler i ?g b)")
      case (Inl e)
      then show ?thesis using turn TaskWrite popped by (simp add: runHandlerTask_def)
    next
      case (Inr b')
      then obtain f w where b': "b' = post (PubMessage (stampMessage (?g h) m) w) (updateHandler i f (updateHandler i ?g b))"
          "settle (f (?g h)) = settle (?g h)"
        using h(1) by (auto simp: writeDMesgInternal_def updateHandler_def Let_def settle_def split: if_splits)
      have "calm b b'"
        unfolding b'(1) using upd [of f] b'(2) pop post_calm calm_trans by simp
      then show ?thesis using turn TaskWrite Inr by (simp add: runHandlerTask_def)
    qed
  next
    case (TaskSetCounter topic c)
    have pop: "settle (?g h) = settle h" using TaskSetCounter by (intro pop) auto
    have "calm b (updateHandler i (\<lambda>h. h\<lparr>dh_counter := (dh_counter h)(topic := c), dh_waiting := True\<rparr>) (updateHandler i ?g b))"
      using upd pop by (simp add: settle_def)
    then show ?thesis using turn TaskSetCounter post_calm calm_trans by (simp add: runHandlerTask_def)
  next
    case (TaskMessage m)
    have pop: "settle (?g h) = settle h" using TaskMessage by (intro pop) auto
    then show ?thesis using turn upd TaskMessage by (simp add: runHandlerTask_def settle_def)
  next
    case TaskPlaybackDone
    have pop: "settle (?g h) = settle h" using TaskPlaybackDone by (intro pop) auto
    then show ?thesis using turn upd TaskPlaybackDone by (simp add: runHandlerTask_def settle_def)
  next
    case TaskSetConflictCallback
    have pop: "settle (?g h) = settle h" using TaskSetConflictCallback by (intro pop) auto
    then show ?thesis using turn upd TaskSetConflictCallback by (simp add: runHandlerTask_def settle_def)
  qed
next
  case False
  then have "handlerTurn i b = b" by (auto simp: handlerTurn_def split: option.split list.split)
  then show ?thesis by simp
qed

lemma schedule_settle: "mirrorTask task = (\<lambda>p. p) \<Longrightarrow> settle (scheduleInHandlerContext task h) = settle h"
  by (simp add: settle_def scheduleInHandlerContext_def)

section \<open>Turns of the publisher\<close>

lemma quiet_ok:
  assumes "bus_ok b" and "quiet b b'"
  shows "bus_ok b'"
proof -
  have "bus_heap b' i = bus_heap b i" if "i \<notin> set (bus_handlers b)" for i
  proof -
    have "bus_states b i = None" using that assms(1) unfolding bus_ok_def mirrors_def by blast
    then show ?thesis using assms(2) by (simp add: quiet_def)
  qed
  then have "registry_ok b'"
    using assms by (simp add: bus_ok_def registry_ok_def quiet_def regs_def fins_def erases_def)
  then show ?thesis using assms(2) by (simp add: bus_ok_def quiet_def)
qed

lemma pop_fields:
  assumes "bus_tasks b = task # tasks"
  shows "regs b = regOf task @ regs (b\<lparr>bus_tasks := tasks\<rparr>)" "fins b = finOf task @ fins (b\<lparr>bus_tasks := tasks\<rparr>)"
    "erases b = eraseOf task @ erases (b\<lparr>bus_tasks := tasks\<rparr>)"
    "subscribers (b\<lparr>bus_tasks := tasks\<rparr>) = subscribers b"
  using assms by (simp_all add: regs_def fins_def erases_def subscribers_def)

lemma post_fields:
  "regs (post task b) = regs b @ regOf task" "fins (post task b) = fins b @ finOf task"
  "erases (post task b) = erases b @ eraseOf task" "subscribers (post task b) = subscribers b"
  "bus_heap (post task b) = bus_heap b" "bus_handlers (post task b) = bus_handlers b"
  "mirrors (post task b) = mirrors b" "pub_ok (post task b) = pub_ok b" "cache_ok (post task b) = cache_ok b"
  by (simp_all add: regs_def fins_def erases_def subscribers_def post_def mirrors_def pub_ok_def cache_ok_def)

lemma pop_ok:
  assumes "bus_ok b" and "bus_tasks b = task # tasks"
  shows "bus_ok (b\<lparr>bus_tasks := tasks\<rparr>)"
proof -
  have "registry_ok (b\<lparr>bus_tasks := tasks\<rparr>)"
    using assms(1) unfolding bus_ok_def registry_ok_def pop_fields [OF assms(2)] by auto
  then show ?thesis using assms(1) by (simp add: bus_ok_def mirrors_def pub_ok_def cache_ok_def)
qed

lemma wake_calm: "calm b (wake w b)"
  by (cases w) (simp_all add: wake_def updateHandler_calm settle_def)

lemma registerHandler_eq:
  assumes "pub_ok b" and "i \<notin> set (subscribers b)"
  shows "registerHandler i b = b\<lparr>bus_pub := (bus_pub b)\<lparr>pb_subscribers := pb_subscribers (bus_pub b) @ [(i, -1)]\<rparr>\<rparr>"
  using assms by (simp add: registerHandler_def PubSub.registerSubscriber_def pub_ok_def subscribers_def Let_def)

lemma unregisterHandler_ok:
  assumes "bus_ok b"
  shows "bus_ok (unregisterHandler i b)"
proof (cases "PubSub.unregisterSubscriber i (bus_pub b)")
  case (Some p)
  then have p: "p = (bus_pub b)\<lparr>pb_subscribers := filter (\<lambda>q. fst q \<noteq> i) (pb_subscribers (bus_pub b))\<rparr>"
    by (simp add: PubSub.unregisterSubscriber_def split: if_splits)
  let ?b = "b\<lparr>bus_pub := p\<rparr>"
  have sub: "set (subscribers ?b) \<subseteq> set (subscribers b)" by (auto simp: p subscribers_def)
  have same: "regs ?b = regs b" "fins ?b = fins b" "erases ?b = erases b"
    by (simp_all add: regs_def fins_def erases_def)
  have "registry_ok ?b"
    using assms sub unfolding bus_ok_def registry_ok_def same by auto
  moreover have "pub_ok ?b" using assms by (simp add: bus_ok_def pub_ok_def p distinct_map_filter)
  ultimately show ?thesis
    using assms Some by (simp add: unregisterHandler_def bus_ok_def mirrors_def cache_ok_def)
qed (simp add: unregisterHandler_def assms)

lemma registered_fresh:
  assumes "bus_ok b" and "bus_tasks b = PubRegister i # tasks"
  shows "bus_ok (registerHandler i (b\<lparr>bus_tasks := tasks\<rparr>))"
proof -
  have i: "i \<notin> set (subscribers b)" "i \<notin> set (erases b)" "i \<notin> set (regs (b\<lparr>bus_tasks := tasks\<rparr>))"
      "map_option settle (bus_heap b i) = Some ([], 0)"
    using assms by (auto simp: bus_ok_def registry_ok_def regs_def)
  have "pub_ok (b\<lparr>bus_tasks := tasks\<rparr>)" "i \<notin> set (subscribers (b\<lparr>bus_tasks := tasks\<rparr>))"
    using assms(1) i(1) by (simp_all add: bus_ok_def pub_ok_def subscribers_def)
  note e = registerHandler_eq [OF this]
  show ?thesis
    using pop_ok [OF assms] i assms(2) unfolding e
    by (auto simp: bus_ok_def mirrors_def pub_ok_def cache_ok_def registry_ok_def subscribers_def
        regs_def fins_def erases_def)
qed

lemma finalized_ok:
  assumes "bus_ok b" and "bus_tasks b = PubFinalize i # tasks"
  shows "bus_ok (finalizeHandlerRegistration i (b\<lparr>bus_tasks := tasks\<rparr>))"
proof -
  let ?st = "\<lparr>st_counter = (\<lambda>_. None), st_conflict = [], st_generation = 0\<rparr>"
  let ?b1 = "b\<lparr>bus_tasks := tasks, bus_handlers := bus_handlers b @ [i], bus_states := (bus_states b)(i \<mapsto> ?st)\<rparr>"
  have i: "i \<notin> set (bus_handlers b)" "map_option settle (bus_heap b i) = Some ([], 0)" "i \<notin> set (erases b)"
    using assms by (auto simp: bus_ok_def registry_ok_def fins_def)
  then have st: "bus_states b i = None" using assms(1) by (auto simp: bus_ok_def mirrors_def)
  obtain h where h: "bus_heap b i = Some h" "settle h = ([], 0)" using i(2) by auto
  have "mirrors ?b1"
    using assms(1) i(1) h by (auto simp: bus_ok_def mirrors_def mirror_ok_settle)
  moreover have "registry_ok ?b1"
    using assms by (auto simp: bus_ok_def registry_ok_def subscribers_def regs_def fins_def erases_def)
  ultimately have b1: "bus_ok ?b1" using assms(1) by (simp add: bus_ok_def pub_ok_def cache_ok_def)
  obtain b2 e where p: "playbackEach (map snd (bus_last ?b1)) ?b1 = (b2, e)" by fastforce
  then have "quiet ?b1 b2"
    using playbackEach_quiet [of ?b1 "map snd (bus_last ?b1)"] b1 by (simp add: bus_ok_def)
  then have b2: "bus_ok b2" using quiet_ok [OF b1] by simp
  have "calm b2 (updateHandler i (scheduleInHandlerContext TaskPlaybackDone) b2)"
    by (intro updateHandler_calm schedule_settle) auto
  then have "bus_ok (updateHandler i (scheduleInHandlerContext TaskPlaybackDone) b2)" using b2 calm_ok by blast
  moreover have "finalizeHandlerRegistration i (b\<lparr>bus_tasks := tasks\<rparr>) =
      (case (b2, e) of (b2, Some e) \<Rightarrow> b2
       | (b2, None) \<Rightarrow> updateHandler i (scheduleInHandlerContext TaskPlaybackDone) b2)"
    using st p by (simp add: finalizeHandlerRegistration_def playbackLastTopicDMesgPbInternal_def Let_def)
  ultimately show ?thesis using b2 by (cases e) simp_all
qed

lemma erased_ok:
  assumes "bus_ok b" and "bus_tasks b = PubErase i # tasks"
  shows "bus_ok (runPubTask (PubErase i) (b\<lparr>bus_tasks := tasks\<rparr>))"
proof -
  let ?b = "b\<lparr>bus_tasks := tasks, bus_handlers := remove1 i (bus_handlers b), bus_states := (bus_states b)(i := None)\<rparr>"
  have i: "i \<notin> set (subscribers b)" "i \<notin> set (regs b)" "i \<notin> set (fins b)"
    using assms by (auto simp: bus_ok_def registry_ok_def erases_def)
  have d: "distinct (bus_handlers b)" using assms(1) by (simp add: bus_ok_def registry_ok_def)
  then have "set (remove1 i (bus_handlers b)) = set (bus_handlers b) - {i}" by (rule set_remove1_eq)
  then have "mirrors ?b" using assms(1) by (auto simp: bus_ok_def mirrors_def)
  moreover have "registry_ok ?b"
    using assms i d \<open>set (remove1 i (bus_handlers b)) = set (bus_handlers b) - {i}\<close>
    by (auto simp: bus_ok_def registry_ok_def subscribers_def regs_def fins_def erases_def)
  ultimately show ?thesis using assms(1) by (simp add: bus_ok_def pub_ok_def cache_ok_def)
qed

lemma publisherTurn_ok:
  assumes "bus_ok b"
  shows "bus_ok (publisherTurn b)"
proof (cases "bus_tasks b")
  case (Cons task tasks)
  let ?b = "b\<lparr>bus_tasks := tasks\<rparr>"
  note pop = pop_ok [OF assms Cons]
  then have parts: "mirrors ?b" "pub_ok ?b" "cache_ok ?b" by (simp_all add: bus_ok_def)
  have "bus_ok (runPubTask task ?b)"
  proof (cases task)
    case (PubMessage m w)
    show ?thesis
      using calm_ok [OF quiet_ok [OF pop publishInternal_quiet [OF parts]] wake_calm] PubMessage by simp
  next
    case (PubRegister i)
    then show ?thesis using registered_fresh assms Cons by simp
  next
    case (PubFinalize i)
    then show ?thesis using finalized_ok assms Cons by simp
  next
    case (PubUnregister i)
    then show ?thesis using unregisterHandler_ok [OF pop] by simp
  next
    case (PubErase i)
    then show ?thesis using erased_ok assms Cons by blast
  next
    case (PubResolve i topic)
    then show ?thesis
      using quiet_ok [OF pop] only_quiet [of i "[]" ?b "resolveHandlerConflict i topic None ?b"]
        resolveHandlerConflict_mirrors [OF parts(1), of i topic None] parts(2,3) by simp
  next
    case (PubSetCounter i topic c)
    then show ?thesis
      using calm_ok [OF quiet_ok [OF pop] wake_calm] only_quiet [of i "[]" ?b "setStateCounter i topic c ?b"]
        setStateCounter_mirrors [OF parts(1), of i topic c] parts(2,3) by simp
  next
    case (PubResetLast topic)
    show ?thesis
    proof (cases "map_of (bus_last ?b) topic")
      case None
      then show ?thesis using PubResetLast pop by (simp add: resetConflictStateWithLastTopicMessageInternal_def)
    next
      case (Some m)
      then show ?thesis
        using quiet_ok [OF pop publishInternal_quiet [OF parts]] PubResetLast
        by (simp add: resetConflictStateWithLastTopicMessageInternal_def)
    qed
  qed
  then show ?thesis using Cons by (simp add: publisherTurn_def)
qed (simp add: publisherTurn_def assms)

section \<open>Every interleaving\<close>

lemma registered_subscribers: "registered i b = (i \<in> set (subscribers b))"
  by (simp add: registered_def subscribers_def)

lemma opened_ok:
  assumes "bus_ok b" and "bus_heap b i = None" and "settle h = ([], 0)"
  shows "bus_ok (openHandler i h b)"
proof -
  have i: "i \<notin> set (bus_handlers b)" using assms(1,2) mirrorsD [of b i] by (auto simp: bus_ok_def)
  then have "i \<notin> set (regs b) \<union> set (fins b) \<union> set (subscribers b)" "i \<notin> set (erases b)"
    using assms(1,2) by (auto simp: bus_ok_def registry_ok_def)
  then have "registry_ok (openHandler i h b)"
    using assms i
    by (auto simp: bus_ok_def registry_ok_def openHandler_def post_def subscribers_def regs_def fins_def erases_def)
  moreover have "mirrors (openHandler i h b)"
    using assms(1) i by (auto simp: bus_ok_def mirrors_def openHandler_def post_def)
  ultimately show ?thesis
    using assms(1) by (simp add: bus_ok_def pub_ok_def cache_ok_def openHandler_def post_def)
qed

lemma finalize_posted_ok:
  assumes "bus_ok b" and "registered i b" and "i \<notin> set (bus_handlers b)" and "PubFinalize i \<notin> set (bus_tasks b)"
  shows "bus_ok (post (PubFinalize i) b)"
proof -
  have "i \<notin> set (fins b)"
  proof
    assume "i \<in> set (fins b)"
    then obtain t where "t \<in> set (bus_tasks b)" "i \<in> set (finOf t)" by (auto simp: fins_def)
    moreover from this(2) have "t = PubFinalize i" by (cases t) simp_all
    ultimately show False using assms(4) by simp
  qed
  then show ?thesis
    using assms(1-3) unfolding bus_ok_def registry_ok_def registered_subscribers post_fields by auto
qed

lemma erase_posted_ok:
  assumes "bus_ok b" and "i \<in> set (bus_handlers b)" and "\<not> registered i b"
  shows "bus_ok (post (PubErase i) b)"
proof -
  have "bus_heap b i \<noteq> None" using mirrorsD [OF _ assms(2)] assms(1) by (auto simp: bus_ok_def)
  then show ?thesis
    using assms unfolding bus_ok_def registry_ok_def registered_subscribers post_fields by auto
qed

lemma handlerCall_calm: "mirrorTask task = (\<lambda>p. p) \<Longrightarrow> calm b (handlerCall i task b)"
  unfolding handlerCall_def by (intro updateHandler_calm schedule_settle)

lemma bus_ok_step:
  assumes "bus_ok b" and "mesg_step b c"
  shows "bus_ok c"
  using assms(2,1)
proof cases
  case mesg_publisher
  then show ?thesis using publisherTurn_ok assms(1) by simp
next
  case (mesg_handler i)
  then show ?thesis using calm_ok [OF assms(1) handlerTurn_calm] by simp
next
  case (mesg_open i name topic filt async configs hasEventFn)
  then show ?thesis using opened_ok assms(1) by (simp add: newHandler_def settle_def)
next
  case (mesg_finalize i)
  then show ?thesis using finalize_posted_ok assms(1) by simp
next
  case (mesg_write i m block force)
  have "mirrorTask (writeTask m block force) = (\<lambda>p. p)" by (auto simp: writeTask_def)
  then show ?thesis using mesg_write calm_ok [OF assms(1) handlerCall_calm] by simp
next
  case (mesg_set_counter i topic x)
  have "mirrorTask (TaskSetCounter topic x) = (\<lambda>p. p)" by auto
  then show ?thesis using mesg_set_counter calm_ok [OF assms(1) handlerCall_calm] by simp
next
  case (mesg_conflict_callback i)
  have "mirrorTask TaskSetConflictCallback = (\<lambda>p. p)" by auto
  then show ?thesis using mesg_conflict_callback calm_ok [OF assms(1) handlerCall_calm] by simp
next
  case (mesg_read i)
  have "settle (readMessage h) = settle h" for h by (simp add: readMessage_def settle_def split: list.split)
  then show ?thesis using mesg_read calm_ok [OF assms(1) updateHandler_calm] by simp
next
  case (mesg_resolve i topic)
  then show ?thesis using calm_ok [OF assms(1) post_calm] by simp
next
  case (mesg_reset_last topic)
  then show ?thesis using calm_ok [OF assms(1) post_calm] by simp
next
  case (mesg_unregister i)
  then show ?thesis using calm_ok [OF assms(1) post_calm] by simp
next
  case (mesg_erase i)
  then show ?thesis using erase_posted_ok assms(1) by simp
next
  case (mesg_detach i)
  have "calm b c" unfolding mesg_detach(1) by (intro updateHandler_calm) (simp add: settle_def)
  then show ?thesis using calm_ok [OF assms(1)] by simp
qed

lemma newBus_ok: "bus_ok newBus"
  by (simp add: bus_ok_def newBus_def newPub_def mirrors_def pub_ok_def registry_ok_def cache_ok_def subscribers_def
      regs_def fins_def erases_def)

interpretation mesg: invariant_system mesg_init mesg_step bus_ok
  by unfold_locales (auto simp: mesg_init_def newBus_ok intro: bus_ok_step)

end
