(* ===== verification/DMesgContract.thy ===== *)
theory DMesgContract
  imports DMesgInv
begin

text \<open>
  What the clients of the message bus rely on: the outcomes of a publication, the answer of
  \<open>writeAndCheckConflict\<close>, the convergence of the mirrors; and what a conflicting writer can lose.
\<close>

section \<open>Runs\<close>

text \<open>Client calls and turns as commands, each a step of the bus when its guard holds.\<close>

datatype command =
    CmdPublisher
  | CmdHandler nat
  | CmdOpen nat string string
  | CmdFinalize nat
  | CmdWrite nat dmesg
  | CmdResolve nat string

fun execute :: "command \<Rightarrow> bus \<Rightarrow> bus option" where
  "execute CmdPublisher b = Some (publisherTurn b)"
| "execute (CmdHandler i) b = Some (handlerTurn i b)"
| "execute (CmdOpen i name topic) b =
     (case bus_heap b i of
        None \<Rightarrow> Some (openHandler i (newHandler name topic (\<lambda>_. Some True) False (\<lambda>_. None) False) b)
      | Some _ \<Rightarrow> None)"
| "execute (CmdFinalize i) b =
     (if registered i b \<and> i \<notin> set (bus_handlers b) \<and>
         list_all (\<lambda>t. case t of PubFinalize j \<Rightarrow> i \<noteq> j | _ \<Rightarrow> True) (bus_tasks b) \<and>
         Option.is_none (bus_states b i)
      then Some (post (PubFinalize i) b) else None)"
| "execute (CmdWrite i m) b =
     (if handlerReady i b then Some (handlerCall i (writeTask m False False) b) else None)"
| "execute (CmdResolve i topic) b =
     (if handlerReady i b then Some (post (PubResolve i topic) b) else None)"

fun run :: "command list \<Rightarrow> bus \<Rightarrow> bus option" where
  "run [] b = Some b"
| "run (c # cs) b = (case execute c b of None \<Rightarrow> None | Some b' \<Rightarrow> run cs b')"

lemma command_step: "execute c b = Some b' \<Longrightarrow> mesg_step b b'"
proof (cases c)
  case (CmdFinalize i)
  assume "execute c b = Some b'"
  then have "registered i b" "i \<notin> set (bus_handlers b)" "bus_states b i = None" "b' = post (PubFinalize i) b"
      "list_all (\<lambda>t. case t of PubFinalize j \<Rightarrow> i \<noteq> j | _ \<Rightarrow> True) (bus_tasks b)"
    using CmdFinalize by (simp_all add: Option.is_none_def split: if_splits)
  moreover from this(5) have "PubFinalize i \<notin> set (bus_tasks b)" by (auto simp: list_all_iff)
  ultimately show ?thesis by (simp add: mesg_finalize)
qed (auto split: option.splits if_splits
    intro: mesg_publisher mesg_handler mesg_open mesg_write mesg_resolve)

lemma run_reachable:
  "reachable mesg_init mesg_step b \<Longrightarrow> run cs b = Some b' \<Longrightarrow> reachable mesg_init mesg_step b'"
proof (induction cs arbitrary: b)
  case (Cons c cs)
  then obtain b1 where b1: "execute c b = Some b1" "run cs b1 = Some b'" by (auto split: option.splits)
  from reach_step [OF Cons.prems(1) command_step [OF b1(1)]] b1(2) show ?case by (rule Cons.IH)
qed simp

lemma run_newBus: "run cs newBus = Some b \<Longrightarrow> reachable mesg_init mesg_step b"
  using run_reachable [OF reach_init] by (simp add: mesg_init_def)

definition openTwo :: "command list" where
  "openTwo = [CmdOpen 0 ''A'' '''', CmdPublisher, CmdFinalize 0, CmdPublisher, CmdHandler 0,
     CmdOpen 1 ''B'' '''', CmdPublisher, CmdFinalize 1, CmdPublisher, CmdHandler 1]"

definition textMessage :: "string \<Rightarrow> dmesg" where
  "textMessage content = \<lparr>dm_topic = ''t'', dm_running_counter = 0, dm_source_identifier = [],
     dm_source_write_handler = [], dm_type = DtMessage, dm_playback = False, dm_conflict = False,
     dm_force = False, dm_body = MessageBody content\<rparr>"

text \<open>Two handlers that have not exchanged anything yet.\<close>

definition twoHandlers :: bus where
  "twoHandlers = (case run openTwo newBus of None \<Rightarrow> newBus | Some b \<Rightarrow> b)"

text \<open>
  Two writes of A race with one of B and conflict, both handlers resolve the conflict, and B writes
  once more.
\<close>

definition raceCommands :: "command list" where
  "raceCommands = openTwo @
     [CmdWrite 1 (textMessage ''b1''), CmdHandler 1, CmdWrite 0 (textMessage ''a1''), CmdHandler 0,
      CmdWrite 0 (textMessage ''a2''), CmdHandler 0, CmdPublisher, CmdPublisher, CmdPublisher] @
     replicate 4 (CmdHandler 0) @ replicate 4 (CmdHandler 1) @
     [CmdResolve 0 ''t'', CmdPublisher, CmdResolve 1 ''t'', CmdPublisher, CmdHandler 0, CmdHandler 1,
      CmdWrite 1 (textMessage ''b2''), CmdHandler 1, CmdPublisher] @
     replicate 3 (CmdHandler 0) @ replicate 3 (CmdHandler 1)"

definition raceBus :: bus where
  "raceBus = (case run raceCommands newBus of None \<Rightarrow> newBus | Some b \<Rightarrow> b)"

section \<open>Draining a handler\<close>

text \<open>Tasks that the publisher queues: they touch nothing but the handler.\<close>

fun easy :: "handler_task \<Rightarrow> bool" where
  "easy (TaskEvent e n c) = True"
| "easy (TaskMessage m) = True"
| "easy _ = False"

definition easyAt :: "nat \<Rightarrow> bus \<Rightarrow> bool" where
  "easyAt i b \<longleftrightarrow> list_all easy (pendingTasks i b)"

lemma updateHandler_easy:
  "easyAt i b \<Longrightarrow> (\<And>h. list_all easy (dh_tasks h) \<Longrightarrow> list_all easy (dh_tasks (f h))) \<Longrightarrow> easyAt i (updateHandler j f b)"
  by (cases "bus_heap b i"; cases "bus_heap b j") (auto simp: easyAt_def pendingTasks_def updateHandler_def)

lemma state_easy [simp]:
  "easyAt i (setState j st b) = easyAt i b" "easyAt i (b\<lparr>bus_pub := p\<rparr>) = easyAt i b"
  "easyAt i (b\<lparr>bus_counter := f, bus_last := l\<rparr>) = easyAt i b"
  by (simp_all add: easyAt_def pendingTasks_def setState_def)

lemma enqueue_easy: "easyAt i b \<Longrightarrow> easyAt i (enqueueHandlerEvent j type topic m n c b)"
  by (auto simp: enqueueHandlerEvent_def Let_def scheduleInHandlerContext_def intro!: updateHandler_easy
      split: option.split)

lemma throw_easy: "easyAt i b \<Longrightarrow> easyAt i (throwHandlerConflict j m b)"
  by (simp add: throwHandlerConflict_def Let_def enqueue_easy split: option.split)

lemma setStateCounter_easy: "easyAt i (setStateCounter j t c b) = easyAt i b"
  by (simp add: setStateCounter_def split: option.split)

lemma resolveEach_easy: "easyAt i b \<Longrightarrow> easyAt i (resolveEach j ts m b)"
  by (induction ts arbitrary: b) (auto simp: enqueue_easy split: option.split)

lemma resolve_easy: "easyAt i b \<Longrightarrow> easyAt i (resolveHandlerConflict j topic m b)"
  by (simp add: resolveHandlerConflict_def Let_def enqueue_easy resolveEach_easy split: option.split)

lemma accept_easy: "easyAt i b \<Longrightarrow> easyAt i (acceptMessage j m b)"
  by (auto simp: acceptMessage_def Let_def enqueue_easy resolve_easy setStateCounter_easy scheduleInHandlerContext_def
      intro!: updateHandler_easy)

lemma notify_easy: "easyAt i b \<Longrightarrow> easyAt i (fst (notify j m b))"
  by (auto simp: notify_def Let_def throw_easy resolve_easy setStateCounter_easy accept_easy
      split: option.split bool.split)

lemma publishBase_easy: "easyAt i b \<Longrightarrow> easyAt i (fst (publishBase m b))"
  using publishBase_inv [where P = "easyAt i", OF notify_easy] by simp

lemma publishInternal_easy:
  assumes "easyAt i b" and "\<not> dm_playback m" and "mirrors b"
  shows "easyAt i (fst (publishInternal m b))"
proof -
  have n: "easyAt i (noteSource m b)"
    using assms(1) by (simp add: noteSource_def setStateCounter_easy split: option.split)
  from assms(2,3) show ?thesis
    by (cases rule: publishInternal_cases) (use n in \<open>auto intro!: publishBase_easy throw_easy split: option.split\<close>)
qed

lemma easyTurn:
  assumes "bus_heap b i = Some h" and "dh_tasks h = task # tasks" and "easy task" and "\<not> dh_waiting h"
  shows "\<exists>h'. bus_heap (handlerTurn i b) i = Some h' \<and> dh_tasks h' = tasks \<and> \<not> dh_waiting h' \<and>
    handlerTurn i b = b\<lparr>bus_heap := (bus_heap b)(i \<mapsto> h')\<rparr>"
proof (cases task)
  case (TaskEvent e n c)
  have "dh_waiting (applyPublisherEvent e n c h) = dh_waiting h" for h
    by (simp add: applyPublisherEvent_def mirrorCounter_def Let_def split: handler_event_type.split option.split)
  then show ?thesis
    using assms TaskEvent by (simp add: handlerTurn_def runHandlerTask_def updateHandler_def applyPublisherEvent_mirror)
qed (use assms in \<open>simp_all add: handlerTurn_def runHandlerTask_def updateHandler_def\<close>)

lemma drain:
  assumes "bus_heap b i = Some h" and "list_all easy (dh_tasks h)" and "\<not> dh_waiting h" and "mirrors b"
  shows "\<exists>h'. bus_heap (drainHandler i b) i = Some h' \<and> dh_tasks h' = [] \<and> \<not> dh_waiting h' \<and>
    drainHandler i b = b\<lparr>bus_heap := (bus_heap b)(i \<mapsto> h')\<rparr> \<and> mirrors (drainHandler i b)"
proof -
  have "\<exists>h'. bus_heap ((handlerTurn i ^^ length ts) b) i = Some h' \<and> dh_tasks h' = [] \<and> \<not> dh_waiting h' \<and>
      (handlerTurn i ^^ length ts) b = b\<lparr>bus_heap := (bus_heap b)(i \<mapsto> h')\<rparr> \<and> mirrors ((handlerTurn i ^^ length ts) b)"
    if "bus_heap b i = Some h" "dh_tasks h = ts" "list_all easy ts" "\<not> dh_waiting h" "mirrors b" for ts h b
    using that
  proof (induction ts arbitrary: b h)
    case Nil
    then show ?case by (intro exI [of _ h]) (simp add: fun_upd_idem)
  next
    case (Cons t ts)
    obtain h1 where h1: "bus_heap (handlerTurn i b) i = Some h1" "dh_tasks h1 = ts" "\<not> dh_waiting h1"
        "handlerTurn i b = b\<lparr>bus_heap := (bus_heap b)(i \<mapsto> h1)\<rparr>"
      using easyTurn [OF Cons.prems(1,2)] Cons.prems(3,4) by auto
    have m: "mirrors (handlerTurn i b)" using calm_mirrors [OF Cons.prems(5) handlerTurn_calm] .
    have "list_all easy ts" using Cons.prems(3) by simp
    from Cons.IH [OF h1(1,2) this h1(3) m] obtain h' where h':
      "bus_heap ((handlerTurn i ^^ length ts) (handlerTurn i b)) i = Some h'" "dh_tasks h' = []" "\<not> dh_waiting h'"
      "(handlerTurn i ^^ length ts) (handlerTurn i b) =
        (handlerTurn i b)\<lparr>bus_heap := (bus_heap (handlerTurn i b))(i \<mapsto> h')\<rparr>"
      "mirrors ((handlerTurn i ^^ length ts) (handlerTurn i b))" by blast
    have "(handlerTurn i b)\<lparr>bus_heap := (bus_heap (handlerTurn i b))(i \<mapsto> h')\<rparr> =
        b\<lparr>bus_heap := (bus_heap b)(i \<mapsto> h')\<rparr>"
      unfolding h1(4) by simp
    then show ?case using h' unfolding length_Cons funpow_Suc_right comp_apply by (metis (no_types))
  qed
  from this [OF assms(1) refl assms(2,3,4)] show ?thesis using assms(1) by (simp add: drainHandler_def pendingTasks_def)
qed

section \<open>The contracts\<close>

fun runEvent :: "handler_task \<Rightarrow> handler \<Rightarrow> handler" where
  "runEvent (TaskEvent e n c) h = applyPublisherEvent e n c h"
| "runEvent _ h = h"

lemma runEvents_mirror:
  "(dh_in_conflict (fold runEvent ts h), dh_generation (fold runEvent ts h)) =
     fold mirrorTask ts (dh_in_conflict h, dh_generation h)"
proof (induction ts arbitrary: h)
  case (Cons t ts)
  then show ?case by (cases t) (simp_all add: applyPublisherEvent_mirror)
qed simp

text \<open>
  C6: in every interleaving of publisher turns, handler turns and client calls, the mirror that a
  handler keeps of its conflicts converges: once the tasks that wait in its context have run, its
  conflict set and generation are the ones the publisher keeps for it.  And the last message that
  the publisher caches for a topic carries the counter of the topic and is no conflict.
\<close>

theorem mirrors_converge:
  assumes "reachable mesg_init mesg_step b" and "i \<in> set (bus_handlers b)"
  shows "\<exists>h st. bus_heap b i = Some h \<and> bus_states b i = Some st \<and>
      dh_in_conflict (fold runEvent (dh_tasks h) h) = st_conflict st \<and>
      dh_generation (fold runEvent (dh_tasks h) h) = st_generation st \<and>
      (case getTopicLastMessage t b of None \<Rightarrow> True
       | Some m \<Rightarrow> dm_topic m = t \<and> dm_running_counter m = bus_counter b t \<and> \<not> dm_conflict m)"
proof -
  have ok: "bus_ok b" using mesg.reachable_inv [OF assms(1)] .
  obtain h st where h: "bus_heap b i = Some h" "bus_states b i = Some st" "mirror_ok h st"
    using mirrorsD [OF _ assms(2)] ok by (auto simp: bus_ok_def)
  have "dh_in_conflict (fold runEvent (dh_tasks h) h) = st_conflict st \<and>
      dh_generation (fold runEvent (dh_tasks h) h) = st_generation st"
    using runEvents_mirror [of "dh_tasks h" h] h(3) by (simp add: mirror_ok_def)
  moreover have "case getTopicLastMessage t b of None \<Rightarrow> True
       | Some m \<Rightarrow> dm_topic m = t \<and> dm_running_counter m = bus_counter b t \<and> \<not> dm_conflict m"
    using ok by (auto simp: bus_ok_def cache_ok_def getTopicLastMessage_def list_all_iff split: option.split
        dest: map_of_SomeD)
  ultimately show ?thesis using h(1,2) by blast
qed

lemma raceBus_run: "run raceCommands newBus = Some raceBus"
proof -
  have "\<not> Option.is_none (run raceCommands newBus)" by code_simp
  then show ?thesis by (auto simp: raceBus_def Option.is_none_def)
qed

lemma raceBus_reachable: "reachable mesg_init mesg_step raceBus"
  using run_newBus [OF raceBus_run] .

lemma mirrors_converge_witness:
  "\<exists>h st. bus_heap raceBus 1 = Some h \<and> bus_states raceBus 1 = Some st \<and>
     dh_in_conflict (fold runEvent (dh_tasks h) h) = st_conflict st"
proof -
  have "1 \<in> set (bus_handlers raceBus)" by code_simp
  then show ?thesis using mirrors_converge [OF raceBus_reachable, of 1 "''t''"] by blast
qed

text \<open>
  C27: the outcomes of publishing a message that is no playback.  From a writer in conflict it is
  dropped, and no handler, counter or cached message changes.  A stale or marked message changes no
  counter and no cache, reaches no client, and puts the writer in conflict.  Any other message
  takes the next counter of its topic (a forced one its own), becomes the last message, and goes at
  the end of the inbox of exactly the registered handlers, the writer apart, that want it.
\<close>

theorem publish_outcomes:
  assumes "reachable mesg_init mesg_step b" and "\<not> dm_playback m"
  shows "if sourceInConflict (findSource m b) (dm_topic m) b \<and> \<not> dm_force m then
      bus_heap (fst (publishInternal m b)) = bus_heap b \<and>
      bus_counter (fst (publishInternal m b)) = bus_counter b \<and> bus_last (fst (publishInternal m b)) = bus_last b
    else if dm_running_counter m < nextCounter m b \<or> dm_conflict m then
      bus_counter (fst (publishInternal m b)) = bus_counter b \<and> bus_last (fst (publishInternal m b)) = bus_last b \<and>
      (\<forall>i. map_option inbox (bus_heap (fst (publishInternal m b)) i) = map_option inbox (bus_heap b i)) \<and>
      (case findSource m b of None \<Rightarrow> True | Some i \<Rightarrow> inConflict i (dm_topic m) (fst (publishInternal m b)))
    else
      bus_counter (fst (publishInternal m b)) = (bus_counter b)(dm_topic m := nextCounter m b) \<and>
      bus_last (fst (publishInternal m b)) = AList.update (dm_topic m)
        (m\<lparr>dm_running_counter := nextCounter m b\<rparr>) (bus_last b) \<and>
      (\<forall>i. map_option inbox (bus_heap (fst (publishInternal m b)) i) =
         map_option (\<lambda>h. inbox h @ (if findSource m b = Some i then []
           else gets (subscribers b) i (m\<lparr>dm_running_counter := nextCounter m b\<rparr>) b)) (bus_heap b i))"
proof -
  have "mirrors b" "pub_ok b" using mesg.reachable_inv [OF assms(1)] by (simp_all add: bus_ok_def)
  then show ?thesis using assms(2) by (rule publish_result)
qed

lemma publish_outcomes_witness:
  "bus_counter (fst (publishInternal ((textMessage ''c'')\<lparr>dm_running_counter := 3\<rparr>) raceBus)) =
     (bus_counter raceBus)(''t'' := 3)"
proof -
  let ?m = "(textMessage ''c'')\<lparr>dm_running_counter := 3\<rparr>"
  have "\<not> dm_playback ?m" "\<not> sourceInConflict (findSource ?m raceBus) (dm_topic ?m) raceBus"
      "\<not> (dm_running_counter ?m < nextCounter ?m raceBus \<or> dm_conflict ?m)" "nextCounter ?m raceBus = 3" "dm_topic ?m = ''t''"
    by code_simp+
  then show ?thesis using publish_outcomes [OF raceBus_reachable, of ?m] by simp
qed

lemma publish_conflict_exact:
  assumes "mirrors b" and "pub_ok b" and "\<not> dm_playback m" and "\<not> dm_conflict m" and "\<not> dm_force m"
    and "findSource m b = Some i" and "\<not> inConflict i (dm_topic m) b"
  shows "inConflict i (dm_topic m) (fst (publishInternal m b)) \<longleftrightarrow> dm_running_counter m < nextCounter m b"
proof (cases "dm_running_counter m < nextCounter m b")
  case True
  then show ?thesis using publish_result [OF assms(1-3)] assms(6,7) by (simp add: sourceInConflict_eq)
next
  case False
  note n = noteSource_mirrors [OF assms(1), where m = m]
  from assms(3,1) show ?thesis
  proof (cases rule: publishInternal_cases)
    case (accepted m' b2)
    have "mirrors b2" "\<not> inConflict i (dm_topic m) b2"
      using n(1,8) assms(7) accepted(4) by (simp_all add: mirrors_def inConflict_def)
    then show ?thesis using publishBase_conflict(2) [of b2 m'] accepted(2,3,5) assms(4) by simp
  qed (use False assms in \<open>simp_all add: sourceInConflict_eq\<close>)
qed

lemma writing:
  assumes "bus_heap b i = Some h" and "dh_owned h" and "dh_tasks h = []" and "\<not> dh_waiting h"
    and "bus_tasks b = []" and "dm_topic m \<noteq> []" and "dm_topic m \<notin> set (dh_in_conflict h)"
  defines "h1 \<equiv> h\<lparr>dh_counter := (dh_counter h)(dm_topic m := dm_running_counter (stampMessage h m)), dh_waiting := True\<rparr>"
  shows "publisherTurn (handlerTurn i (handlerCall i (writeTask m True False) b)) =
    wake (Some i) (fst (publishInternal (stampMessage h m) (b\<lparr>bus_heap := (bus_heap b)(i \<mapsto> h1)\<rparr>)))"
proof -
  have same: "stampMessage (h\<lparr>dh_tasks := ts\<rparr>) m = stampMessage h m" for ts by (simp add: stampMessage_def Let_def)
  have topic: "dm_topic (stampMessage h m) = dm_topic m" using assms(6) by (simp add: stampMessage_def Let_def)
  have h: "h\<lparr>dh_tasks := [], dh_counter := f, dh_waiting := w\<rparr> = h\<lparr>dh_counter := f, dh_waiting := w\<rparr>" for f w
    using assms(3) by (cases h) simp
  have b: "b\<lparr>bus_heap := g, bus_tasks := []\<rparr> = b\<lparr>bus_heap := g\<rparr>" for g using assms(5) by (cases b) simp
  have "handlerTurn i (handlerCall i (writeTask m True False) b) =
      b\<lparr>bus_heap := (bus_heap b)(i \<mapsto> h1), bus_tasks := [PubMessage (stampMessage h m) (Some i)]\<rparr>"
    using assms(1-7) unfolding h1_def
    by (simp add: handlerTurn_def handlerCall_def writeTask_def updateHandler_def scheduleInHandlerContext_def
        runHandlerTask_def writeDMesgInternal_def same topic h post_def Let_def)
  then show ?thesis using assms(5) by (simp add: publisherTurn_def b)
qed

lemma inConflict_drained:
  assumes "mirrors b" and "i \<in> set (bus_handlers b)" and "bus_heap b i = Some h" and "dh_tasks h = []"
  shows "inConflict i t b = (t \<in> set (dh_in_conflict h))"
  using mirrorsD [OF assms(1,2)] assms(3,4) by (auto simp: mirror_ok_def inConflict_def)

text \<open>A blocking write that is not in conflict, from the call to the drained context.\<close>

lemma checked_write:
  assumes ok: "bus_ok b" and i: "i \<in> set (bus_handlers b)"
    and h: "bus_heap b i = Some h" "dh_owned h" "dh_tasks h = []" "\<not> dh_waiting h"
    and b: "bus_tasks b = []" and m: "dm_topic m \<noteq> []" "\<not> dm_force m" "\<not> dm_conflict m" "\<not> dm_playback m"
    and topic: "dm_topic m \<notin> set (dh_in_conflict h)" and src: "findSource (stampMessage h m) b = Some i"
  shows "snd (writeAndCheckConflict i m False b) \<longleftrightarrow>
      incrementByOne (bus_counter b (dm_topic m)) \<le> incrementByOne (dh_counter h (dm_topic m))"
    and "bus_counter (fst (writeAndCheckConflict i m False b)) = (if snd (writeAndCheckConflict i m False b)
      then (bus_counter b)(dm_topic m := incrementByOne (bus_counter b (dm_topic m))) else bus_counter b)"
    and "bus_last (fst (writeAndCheckConflict i m False b)) = (if snd (writeAndCheckConflict i m False b)
      then AList.update (dm_topic m) ((stampMessage h m)\<lparr>dm_running_counter :=
        incrementByOne (bus_counter b (dm_topic m))\<rparr>) (bus_last b) else bus_last b)"
proof -
  let ?m = "stampMessage h m" and ?t = "dm_topic m"
  let ?n = "incrementByOne (bus_counter b ?t)"
  define f :: "handler \<Rightarrow> handler" where "f = (\<lambda>h. h\<lparr>dh_counter := (dh_counter h)(?t := dm_running_counter ?m), dh_waiting := True\<rparr>)"
  define b1 where "b1 = updateHandler i f b"
  define P where "P = fst (publishInternal ?m b1)"
  have stamp: "dm_topic ?m = ?t" "dm_running_counter ?m = incrementByOne (dh_counter h ?t)"
      "\<not> dm_force ?m" "\<not> dm_conflict ?m" "\<not> dm_playback ?m"
    using m by (simp_all add: stampMessage_def Let_def)
  have b1: "b1 = b\<lparr>bus_heap := (bus_heap b)(i \<mapsto> f h)\<rparr>" using h(1) by (simp add: b1_def updateHandler_def)
  have ok1: "bus_ok b1" unfolding b1_def
    by (rule calm_ok [OF ok updateHandler_calm]) (simp add: f_def settle_def)
  have m1: "mirrors b1" "pub_ok b1" "cache_ok b1" using ok1 by (simp_all add: bus_ok_def)
  have q: "quiet b1 P" unfolding P_def by (rule publishInternal_quiet [OF m1])
  have "(\<lambda>j. case bus_heap b1 j of None \<Rightarrow> False | Some h \<Rightarrow> dh_name h = dm_source_write_handler ?m) =
      (\<lambda>j. case bus_heap b j of None \<Rightarrow> False | Some h \<Rightarrow> dh_name h = dm_source_write_handler ?m)"
    using h(1) by (auto simp: b1 f_def)
  then have src1: "findSource ?m b1 = Some i" using src by (simp add: findSource_def b1)
  have no: "\<not> inConflict i ?t b1"
    using inConflict_drained [OF _ i h(1,3)] ok topic by (simp add: bus_ok_def b1 inConflict_def)
  have next1: "nextCounter ?m b1 = ?n" using stamp by (simp add: nextCounter_def b1)
  have conflict: "inConflict i ?t P \<longleftrightarrow> dm_running_counter ?m < ?n"
    using publish_conflict_exact [OF m1(1,2) stamp(5,4,3) src1] no next1 stamp(1) by (simp add: P_def)
  have easy: "easyAt i P" unfolding P_def
    by (rule publishInternal_easy [OF _ stamp(5) m1(1)]) (simp add: easyAt_def pendingTasks_def b1 f_def h(3))
  have "(bus_heap P i = None) = (bus_heap b1 i = None)" using q by (simp add: quiet_def)
  then obtain p where p: "bus_heap P i = Some p" by (cases "bus_heap P i") (simp_all add: b1)
  define W where "W = wake (Some i) P"
  have W: "bus_heap W i = Some (p\<lparr>dh_waiting := False\<rparr>)" "bus_handlers W = bus_handlers b"
      "bus_states W = bus_states P" "bus_counter W = bus_counter P" "bus_last W = bus_last P"
    using p q by (simp_all add: W_def wake_def updateHandler_def quiet_def b1)
  have "list_all easy (dh_tasks (p\<lparr>dh_waiting := False\<rparr>))" using easy p by (simp add: easyAt_def pendingTasks_def)
  moreover have "mirrors W" unfolding W_def using calm_mirrors [OF _ wake_calm] q by (simp add: quiet_def)
  ultimately obtain h' where h': "bus_heap (drainHandler i W) i = Some h'" "dh_tasks h' = []"
      "drainHandler i W = W\<lparr>bus_heap := (bus_heap W)(i \<mapsto> h')\<rparr>" "mirrors (drainHandler i W)"
    using drain [OF W(1)] by auto
  have "bus_handlers (drainHandler i W) = bus_handlers b" "bus_states (drainHandler i W) = bus_states P"
      "bus_counter (drainHandler i W) = bus_counter P" "bus_last (drainHandler i W) = bus_last P"
    using W(2-5) by (simp_all add: h'(3))
  note D = this
  have "?t \<in> set (dh_in_conflict h') \<longleftrightarrow> inConflict i ?t P"
    using inConflict_drained [OF h'(4) _ h'(1,2), of ?t] i D(1,2) by (simp add: inConflict_def)
  moreover have run: "publisherTurn (handlerTurn i (handlerCall i (writeTask m True False) b)) = W"
    using writing [OF h b m(1) topic] by (simp add: W_def P_def b1 f_def)
  ultimately have snd: "snd (writeAndCheckConflict i m False b) \<longleftrightarrow> \<not> dm_running_counter ?m < ?n"
    using conflict h'(1) m(1) by (simp add: writeAndCheckConflict_def Let_def isInConflictInternal_def)
  then show "snd (writeAndCheckConflict i m False b) \<longleftrightarrow> ?n \<le> incrementByOne (dh_counter h ?t)"
    using stamp(2) by (simp add: linorder_not_less)
  have fst: "fst (writeAndCheckConflict i m False b) = drainHandler i W"
    using run by (simp add: writeAndCheckConflict_def Let_def)
  note r = publish_result [OF m1(1,2) stamp(5), unfolded src1 next1 stamp(1) sourceInConflict_eq option.case]
  have b1': "bus_counter b1 = bus_counter b" "bus_last b1 = bus_last b" by (simp_all add: b1)
  show "bus_counter (fst (writeAndCheckConflict i m False b)) = (if snd (writeAndCheckConflict i m False b)
      then (bus_counter b)(?t := ?n) else bus_counter b)"
    using r no stamp(4) snd unfolding fst D(3) P_def by (simp add: b1' split: if_splits)
  show "bus_last (fst (writeAndCheckConflict i m False b)) = (if snd (writeAndCheckConflict i m False b)
      then AList.update ?t (?m\<lparr>dm_running_counter := ?n\<rparr>) (bus_last b) else bus_last b)"
    using r no stamp(4) snd unfolding fst D(4) P_def by (simp add: b1' split: if_splits)
qed

text \<open>
  On an idle bus, a write of a handler that is not in conflict on the topic is reported as good
  by \<open>writeAndCheckConflict\<close> exactly if the handler has seen the counter of the topic; then the
  message is the last one of the topic under the next counter, otherwise counter and last message
  are unchanged.
\<close>

theorem writeAndCheckConflict_exact:
  assumes "reachable mesg_init mesg_step b" and "i \<in> set (bus_handlers b)"
    and "bus_heap b i = Some h" and "dh_owned h" and "dh_tasks h = []" and "\<not> dh_waiting h" and "bus_tasks b = []"
    and "dm_topic m \<noteq> []" and "\<not> dm_force m" and "\<not> dm_conflict m" and "\<not> dm_playback m"
    and "dm_topic m \<notin> set (dh_in_conflict h)" and "findSource (stampMessage h m) b = Some i"
  shows "let (b', good) = writeAndCheckConflict i m False b; t = dm_topic m; n = incrementByOne (bus_counter b t)
    in good = (n \<le> incrementByOne (dh_counter h t)) \<and>
       bus_counter b' = (if good then (bus_counter b)(t := n) else bus_counter b) \<and>
       bus_last b' = (if good then AList.update t ((stampMessage h m)\<lparr>dm_running_counter := n\<rparr>) (bus_last b)
         else bus_last b)"
  using checked_write [OF mesg.reachable_inv [OF assms(1)] assms(2-13)]
  by (cases "writeAndCheckConflict i m False b") simp

lemma writeAndCheckConflict_exact_witness:
  "\<exists>h. bus_heap raceBus 0 = Some h \<and> snd (writeAndCheckConflict 0 (textMessage ''a3'') False raceBus) =
     (3 \<le> incrementByOne (dh_counter h ''t''))"
proof -
  let ?m = "textMessage ''a3''"
  have "case bus_heap raceBus 0 of None \<Rightarrow> False | Some h \<Rightarrow> dh_owned h \<and> dh_tasks h = [] \<and> \<not> dh_waiting h \<and>
      dm_topic ?m \<notin> set (dh_in_conflict h) \<and> findSource (stampMessage h ?m) raceBus = Some 0" by code_simp
  then obtain h where h: "bus_heap raceBus 0 = Some h" "dh_owned h" "dh_tasks h = []" "\<not> dh_waiting h"
      "dm_topic ?m \<notin> set (dh_in_conflict h)" "findSource (stampMessage h ?m) raceBus = Some 0"
    by (auto split: option.splits)
  have c: "0 \<in> set (bus_handlers raceBus)" "bus_tasks raceBus = []" "dm_topic ?m \<noteq> []" "\<not> dm_force ?m"
      "\<not> dm_conflict ?m" "\<not> dm_playback ?m" "dm_topic ?m = ''t''" "incrementByOne (bus_counter raceBus ''t'') = 3"
    by code_simp+
  show ?thesis
    using writeAndCheckConflict_exact [OF raceBus_reachable c(1) h(1-4) c(2-6) h(5,6)] h(1) c(7,8)
    by (auto simp: Let_def)
qed

text \<open>
  Two writers race, both resolve their conflict, and the bus then loses an update without a
  conflict: B's second message is the last message of the topic, everything has run, and A never
  gets it, because the counter that the publisher keeps for A was advanced by a write it had
  dropped.  A's next write then passes \<open>writeAndCheckConflict\<close> and replaces the message A has not
  seen.
\<close>

theorem update_lost_without_conflict:
  "reachable mesg_init mesg_step raceBus \<and> bus_tasks raceBus = [] \<and>
   map_option dm_body (getTopicLastMessage ''t'' raceBus) = Some (MessageBody ''b2'') \<and>
   map_option (\<lambda>h. (dh_tasks h, dh_in_conflict h, map dm_body (inbox h))) (bus_heap raceBus 0) =
     Some ([], [], [MessageBody ''b1'']) \<and>
   snd (writeAndCheckConflict 0 (textMessage ''a3'') False raceBus) \<and>
   map_option dm_body (getTopicLastMessage ''t''
     (fst (writeAndCheckConflict 0 (textMessage ''a3'') False raceBus))) = Some (MessageBody ''a3'')"
  by (intro conjI raceBus_reachable; code_simp)

end
