(* ===== verification/BlockingQueue.thy ===== *)
theory BlockingQueue
  imports Dmn_Prelude
begin

text \<open>
  What \<open>Dmn_BlockingQueue\<close> promises for both of its implementations: the calls and their answers,
  and the atomic FIFO queue that every interleaving of the calls has to look like.  A call takes
  effect at one moment between its start and its answer.
\<close>

section \<open>Calls and answers\<close>

text \<open>
  The calls: a push, a pop that waits or not, the batch pop of \<open>wanted\<close> items with or without a
  timeout and with the items collected so far, and \<open>waitForEmpty\<close>.
\<close>

datatype 'a job =
    JPush 'a
  | JPop bool
  | JPopMany nat bool "'a list"
  | JWaitForEmpty

datatype 'a answer =
    Pushed
  | Threw
  | Item "'a option"
  | Items "'a list"
  | PushCount u64
  | ShutDown

fun isPop :: "'a job \<Rightarrow> bool" where
  "isPop (JPop wait) = True"
| "isPop (JPopMany wanted timed items) = True"
| "isPop job = False"

text \<open>A call starts with nothing collected, and a batch pop asserts that it wants an item.\<close>

fun callable :: "'a job \<Rightarrow> bool" where
  "callable (JPopMany wanted timed items) \<longleftrightarrow> wanted > 0 \<and> items = []"
| "callable job \<longleftrightarrow> True"

section \<open>The atomic queue\<close>

text \<open>
  The progress of a call: before its effect, with the items taken so far, having seen nothing to
  take, or with its answer.  A thread that used a deleted node has stopped.
\<close>

datatype 'a status =
    Outside "'a answer option"
  | Pushing 'a
  | Popping "'a list"
  | Nothing "'a list"
  | Other
  | Answered "'a answer"
  | Stopped

record 'a fifo =
  ff_items :: "'a list"
  ff_closed :: bool
  ff_status :: "nat \<Rightarrow> 'a status"
  ff_in :: "'a list"
  ff_out :: "'a list"

fun started :: "'a job \<Rightarrow> 'a status" where
  "started (JPush v) = Pushing v"
| "started (JPop wait) = Popping []"
| "started (JPopMany wanted timed items) = Popping items"
| "started JWaitForEmpty = Other"

definition setStatus :: "nat \<Rightarrow> 'a status \<Rightarrow> 'a fifo \<Rightarrow> 'a fifo" where
  "setStatus t st a = a\<lparr>ff_status := (ff_status a)(t := st)\<rparr>"

inductive fifo_step :: "'a fifo \<Rightarrow> 'a fifo \<Rightarrow> bool" where
  fifo_call: "ff_status a t = Outside answer \<Longrightarrow> callable job \<Longrightarrow> fifo_step a (setStatus t (started job) a)"
| fifo_control: "ff_status a t = Outside answer \<Longrightarrow> fifo_step a (setStatus t Other a)"
| fifo_close: "fifo_step a (a\<lparr>ff_closed := True\<rparr>)"
| fifo_enqueue: "ff_status a t = Pushing v \<Longrightarrow>
    fifo_step a (setStatus t (Answered Pushed) (a\<lparr>ff_items := ff_items a @ [v], ff_in := ff_in a @ [v]\<rparr>))"
| fifo_reject: "ff_closed a \<Longrightarrow> ff_status a t = Pushing v \<or> ff_status a t = Popping [] \<Longrightarrow>
    fifo_step a (setStatus t (Answered Threw) a)"
| fifo_dequeue: "ff_status a t = Popping xs \<Longrightarrow> ff_items a = x # rest \<Longrightarrow>
    fifo_step a (setStatus t (Popping (xs @ [x])) (a\<lparr>ff_items := rest, ff_out := ff_out a @ [x]\<rparr>))"
| fifo_nothing: "ff_status a t = Popping xs \<Longrightarrow> ff_items a = [] \<or> ff_closed a \<Longrightarrow>
    fifo_step a (setStatus t (Nothing xs) a)"
| fifo_retry: "ff_status a t = Nothing xs \<Longrightarrow> fifo_step a (setStatus t (Popping xs) a)"
| fifo_item: "ff_status a t = Popping [x] \<Longrightarrow> fifo_step a (setStatus t (Answered (Item (Some x))) a)"
| fifo_no_item: "ff_status a t = Nothing [] \<Longrightarrow> fifo_step a (setStatus t (Answered (Item None)) a)"
| fifo_items: "ff_status a t = Popping xs \<or> ff_status a t = Nothing xs \<Longrightarrow>
    fifo_step a (setStatus t (Answered (Items xs)) a)"
| fifo_other: "ff_status a t = Other \<Longrightarrow> fifo_step a (setStatus t (Answered (PushCount n)) a)"
| fifo_shutdown: "ff_status a t = Other \<Longrightarrow> fifo_step a (setStatus t (Answered ShutDown) a)"
| fifo_return: "ff_status a t = Answered answer \<Longrightarrow> fifo_step a (setStatus t (Outside (Some answer)) a)"
| fifo_stop: "fifo_step a (setStatus t Stopped a)"

definition fifo_init :: "'a fifo \<Rightarrow> bool" where
  "fifo_init a \<longleftrightarrow> a = \<lparr>ff_items = [], ff_closed = False, ff_status = (\<lambda>_. Outside None), ff_in = [], ff_out = []\<rparr>"

text \<open>Items leave in the order in which they entered, none twice and none from nowhere.\<close>

definition fifo_ok :: "'a fifo \<Rightarrow> bool" where
  "fifo_ok a \<longleftrightarrow> ff_in a = ff_out a @ ff_items a"

interpretation fifo: invariant_system fifo_init fifo_step fifo_ok
proof
  fix a b :: "'a fifo"
  assume ok: "fifo_ok a"
  assume "fifo_step a b"
  then show "fifo_ok b" using ok
    by cases (simp_all add: fifo_ok_def setStatus_def)
qed (simp add: fifo_init_def fifo_ok_def)

section \<open>Steps of the atomic queue\<close>

definition moves :: "'a fifo \<Rightarrow> nat \<Rightarrow> 'a status \<Rightarrow> 'a list \<Rightarrow> bool \<Rightarrow> bool" where
  "moves a t st items closed \<longleftrightarrow> (\<exists>a'. fifo_step\<^sup>*\<^sup>* a a' \<and> ff_items a' = items \<and> ff_closed a' = closed \<and>
     ff_status a' = (ff_status a)(t := st))"

lemma movesI:
  "fifo_step\<^sup>*\<^sup>* a a' \<Longrightarrow> ff_status a' = (ff_status a)(t := st) \<Longrightarrow> moves a t st (ff_items a') (ff_closed a')"
  unfolding moves_def by blast

lemma moves_stay:
  assumes "ff_status a t = st" and "ff_items a = xs" and "ff_closed a = c"
  shows "moves a t st xs c"
  using movesI [of a a t st] assms by auto

lemma moves_enqueue:
  assumes "ff_status a t = Pushing v" and "ff_items a @ [v] = xs" and "ff_closed a = c"
  shows "moves a t (Answered Pushed) xs c"
  using movesI [OF r_into_rtranclp [of fifo_step, OF fifo_enqueue [OF assms(1)]], of t "Answered Pushed"] assms(2,3)
  by (simp add: setStatus_def)

lemma moves_dequeue:
  assumes "ff_status a t = Popping ys" and "ff_items a = x # xs" and "ff_closed a = c"
  shows "moves a t (Popping (ys @ [x])) xs c"
  using movesI [OF r_into_rtranclp [of fifo_step, OF fifo_dequeue [OF assms(1,2)]], of t "Popping (ys @ [x])"] assms(3)
  by (simp add: setStatus_def)

lemma moves_simple:
  assumes "fifo_step a (setStatus t st a)" and "ff_items a = xs" and "ff_closed a = c"
  shows "moves a t st xs c"
  using movesI [OF r_into_rtranclp [of fifo_step, OF assms(1)], of t st] assms(2,3) by (simp add: setStatus_def)

lemma moves_then:
  assumes "fifo_step a (setStatus t st a)" and "fifo_step (setStatus t st a) (setStatus t st' (setStatus t st a))"
    and "ff_items a = xs" and "ff_closed a = c"
  shows "moves a t st' xs c"
proof -
  have "fifo_step\<^sup>*\<^sup>* a (setStatus t st' (setStatus t st a))" using assms(1,2) by auto
  from movesI [OF this, of t st'] assms(3,4) show ?thesis by (simp add: setStatus_def)
qed

lemma moves_close:
  assumes "ff_status a t = st" and "ff_items a = xs"
  shows "moves a t st xs True"
  using movesI [OF r_into_rtranclp [of fifo_step, OF fifo_close [of a]], of t st] assms by auto

lemma answer_moves:
  assumes "fifo_step a (setStatus t (Answered answer) a)" and "ff_items a = xs" and "ff_closed a = c"
  shows "moves a t (Outside (Some answer)) xs c"
  by (rule moves_then [OF assms(1) _ assms(2,3)]) (rule fifo_return, simp add: setStatus_def)

lemma moves_dequeue_many:
  assumes "ff_status a t = Popping ys" and "ff_items a = xs @ rest" and "ff_closed a = c"
  shows "moves a t (Popping (ys @ xs)) rest c"
  using assms
proof (induction xs arbitrary: a ys)
  case Nil
  then show ?case by (simp add: moves_stay)
next
  case (Cons x xs)
  let ?a = "setStatus t (Popping (ys @ [x])) (a\<lparr>ff_items := xs @ rest, ff_out := ff_out a @ [x]\<rparr>)"
  have step: "fifo_step a ?a" using Cons.prems by (intro fifo_dequeue) simp_all
  have "moves ?a t (Popping ((ys @ [x]) @ xs)) rest c"
    by (rule Cons.IH) (use Cons.prems in \<open>simp_all add: setStatus_def\<close>)
  then obtain a' where a': "fifo_step\<^sup>*\<^sup>* ?a a'" "ff_items a' = rest" "ff_closed a' = c"
      "ff_status a' = (ff_status ?a)(t := Popping ((ys @ [x]) @ xs))" unfolding moves_def by blast
  then have "ff_status a' = (ff_status a)(t := Popping (ys @ x # xs))" by (simp add: setStatus_def)
  then show ?case using converse_rtranclp_into_rtranclp [of fifo_step, OF step a'(1)] a'(2,3)
    unfolding moves_def by blast
qed

lemma moves_trans:
  assumes "moves a t st xs c"
    and "\<And>a'. ff_status a' t = st \<Longrightarrow> ff_items a' = xs \<Longrightarrow> ff_closed a' = c \<Longrightarrow> moves a' t st' ys d"
  shows "moves a t st' ys d"
proof -
  obtain a' where a': "fifo_step\<^sup>*\<^sup>* a a'" "ff_items a' = xs" "ff_closed a' = c" "ff_status a' = (ff_status a)(t := st)"
    using assms(1) unfolding moves_def by blast
  have "moves a' t st' ys d" by (rule assms(2)) (use a' in simp_all)
  then obtain b where "fifo_step\<^sup>*\<^sup>* a' b" "ff_items b = ys" "ff_closed b = d" "ff_status b = (ff_status a')(t := st')"
    unfolding moves_def by blast
  then show ?thesis using a'(1,4) unfolding moves_def by (intro exI [of _ b]) (auto intro: rtranclp_trans)
qed

end
