(* ===== verification/LockFreeQueue.thy ===== *)
theory LockFreeQueue
  imports BlockingQueue
begin

text \<open>
  \<open>Dmn_BlockingQueue_Lf\<close> with \<open>Dmn_Inflight_Guard\<close>: the linked queue whose calls interleave at their
  atomic operations, and the epochs that decide when a removed node is freed.  Every step of a
  thread is one atomic operation of the source together with the local code up to the next one.
  The memory is sequentially consistent, an address is never handed out twice, and pthread
  cancellation does not occur.
\<close>

section \<open>Shared state\<close>

text \<open>\<open>None\<close> as data is a default-constructed or moved-from value; \<open>None\<close> as a pointer is null.\<close>

record 'a qnode =
  nd_data :: "'a option"
  nd_next :: "nat option"
  nd_retired_next :: "nat option"

type_synonym 'a qheap = "nat \<Rightarrow> 'a qnode option"

record epoch_data =
  ep_in_flight_total :: u64
  ep_id :: u64

text \<open>
  A node that was deleted is no longer in \<open>lf_heap\<close>.  \<open>lf_fault\<close> says that some thread used a null
  pointer or a deleted node.
\<close>

record 'a lfq =
  lf_heap :: "'a qheap"
  lf_fresh :: nat
  lf_head :: "nat option"
  lf_tail :: "nat option"
  lf_total_push :: u64
  lf_outstanding :: u64
  lf_epoch :: epoch_data
  lf_epoch_in_flight :: "nat \<Rightarrow> u64"
  lf_epoch_reclaim :: "nat \<Rightarrow> nat option"
  lf_in_flight_total :: u64
  lf_inflight_count :: u64
  lf_shutdown :: bool
  lf_fault :: bool

definition epochTimeScale :: u64 where "epochTimeScale = 500"
definition epochIdScale :: u64 where "epochIdScale = 2"
definition epochDataSize :: nat where "epochDataSize = 50"

definition calc_epoch_index :: "u64 \<Rightarrow> nat" where
  "calc_epoch_index epochId = unat ((epochId div epochIdScale) mod of_nat epochDataSize)"

definition newNode :: "'a option \<Rightarrow> 'a qnode" where
  "newNode v = \<lparr>nd_data = v, nd_next = None, nd_retired_next = None\<rparr>"

definition newQueue :: "'a lfq" where
  "newQueue = \<lparr>lf_heap = (\<lambda>_. None)(0 \<mapsto> newNode None), lf_fresh = 1, lf_head = Some 0, lf_tail = Some 0,
     lf_total_push = 0, lf_outstanding = 0, lf_epoch = \<lparr>ep_in_flight_total = 0, ep_id = 0\<rparr>,
     lf_epoch_in_flight = (\<lambda>_. 0), lf_epoch_reclaim = (\<lambda>_. None), lf_in_flight_total = 0,
     lf_inflight_count = 0, lf_shutdown = False, lf_fault = False\<rparr>"

definition access :: "nat option \<Rightarrow> 'a lfq \<Rightarrow> 'a qnode option" where
  "access p q = (case p of None \<Rightarrow> None | Some n \<Rightarrow> lf_heap q n)"

definition setNode :: "nat \<Rightarrow> 'a qnode \<Rightarrow> 'a lfq \<Rightarrow> 'a lfq" where
  "setNode n nd q = q\<lparr>lf_heap := (lf_heap q)(n \<mapsto> nd)\<rparr>"

text \<open>
  The loop that deletes a retired list; the list has at most as many nodes as were ever allocated.
  \<open>None\<close> is the use of a deleted node.
\<close>

fun freeRetiredNodeList :: "nat \<Rightarrow> nat option \<Rightarrow> 'a qheap \<Rightarrow> 'a qheap option" where
  "freeRetiredNodeList fuel None h = Some h"
| "freeRetiredNodeList 0 (Some n) h = None"
| "freeRetiredNodeList (Suc fuel) (Some n) h =
     (case h n of
        None \<Rightarrow> None
      | Some nd \<Rightarrow> freeRetiredNodeList fuel (nd_retired_next nd) (h(n := None)))"

definition takeRetired :: "nat \<Rightarrow> 'a lfq \<Rightarrow> 'a lfq" where
  "takeRetired index q =
     (let q1 = q\<lparr>lf_epoch_reclaim := (lf_epoch_reclaim q)(index := None)\<rparr>
      in case freeRetiredNodeList (lf_fresh q) (lf_epoch_reclaim q index) (lf_heap q) of
           None \<Rightarrow> q1\<lparr>lf_fault := True\<rparr>
         | Some h \<Rightarrow> q1\<lparr>lf_heap := h\<rparr>)"

section \<open>Threads\<close>

text \<open>
  The next atomic operation of a thread with its local variables: in the constructor of the ticket
  with \<open>enterInflightGuardFnc\<close>, in \<open>pushImpl\<close>, in \<open>popOptional\<close> with \<open>retireNode\<close>, and in the destructor
  of the ticket with \<open>leaveInflightGuardFnc\<close>.
\<close>

datatype enter_pc =
    TestClosed
  | CountIn
  | RetestClosed
  | UndoCount
  | TakeTotal
  | LoadEpoch u64
  | AdvanceEpoch u64 epoch_data
  | SweepCount nat nat
  | SweepLoad nat nat
  | SweepTake nat nat nat
  | Register nat

datatype 'a push_pc =
    PushAlloc 'a
  | PushTail nat
  | PushUndo nat
  | PushNext nat nat
  | PushCheck nat nat "nat option"
  | PushLink nat nat
  | PushHelp nat nat nat
  | PushSwing nat nat
  | PushDone

datatype 'a pop_pc =
    PopTail
  | PopHead nat
  | PopNext nat "nat option"
  | PopCheck nat nat "nat option"
  | PopWait nat
  | PopHelp nat nat
  | PopSwap nat "nat option"
  | RetireLoad nat "nat option"
  | RetireStore nat "nat option" "nat option"
  | RetireSwap nat "nat option" "nat option"
  | PopUncount "nat option"
  | PopTake "nat option"
  | PopReturn "'a option"

datatype leave_pc =
    LeaveEpoch
  | LeaveTest
  | LeaveLoad
  | LeaveTake nat
  | LeaveGate

text \<open>After its entry a call carries the epoch index of its ticket.\<close>

datatype 'a pc =
    Ready "'a answer option"
  | Crashed
  | Enter "'a job" enter_pc
  | Push nat "'a push_pc"
  | Pop nat "'a job" "'a pop_pc"
  | DrainTest nat
  | DrainRead nat
  | Leave nat "'a answer" leave_pc
  | ShutFlag
  | ShutTail
  | ShutWait

text \<open>A refused ticket: \<open>waitForEmpty\<close> answers its count, every other call rethrows.\<close>

definition refused :: "'a job \<Rightarrow> 'a lfq \<Rightarrow> 'a answer" where
  "refused job q = (case job of JWaitForEmpty \<Rightarrow> PushCount (lf_total_push q) | _ \<Rightarrow> Threw)"

fun startBody :: "nat \<Rightarrow> 'a job \<Rightarrow> 'a pc" where
  "startBody index (JPush v) = Push index (PushAlloc v)"
| "startBody index (JPop wait) = Pop index (JPop wait) PopTail"
| "startBody index (JPopMany wanted timed items) = Pop index (JPopMany wanted timed items) PopTail"
| "startBody index JWaitForEmpty = DrainTest index"

definition waits :: "'a job \<Rightarrow> bool" where
  "waits job = (case job of JPop wait \<Rightarrow> wait | _ \<Rightarrow> False)"

definition crash :: "'a lfq \<Rightarrow> 'a pc \<times> 'a lfq" where
  "crash q = (Crashed, q\<lparr>lf_fault := True\<rparr>)"

section \<open>Atomic steps\<close>

text \<open>
  The choice \<open>ok\<close> is what the environment decides: whether a weak exchange that could succeed does
  so, and whether the deadline of a batch pop has not passed.
\<close>

fun enterStep :: "'a job \<Rightarrow> enter_pc \<Rightarrow> 'a lfq \<Rightarrow> 'a pc \<times> 'a lfq" where
  "enterStep job TestClosed q =
     (if lf_shutdown q then Ready (Some (refused job q)) else Enter job CountIn, q)"
| "enterStep job CountIn q =
     (Enter job RetestClosed, q\<lparr>lf_inflight_count := lf_inflight_count q + 1\<rparr>)"
| "enterStep job RetestClosed q = (Enter job (if lf_shutdown q then UndoCount else TakeTotal), q)"
| "enterStep job UndoCount q =
     (Ready (Some (refused job q)), q\<lparr>lf_inflight_count := lf_inflight_count q - 1\<rparr>)"
| "enterStep job TakeTotal q =
     (Enter job (LoadEpoch (lf_in_flight_total q)), q\<lparr>lf_in_flight_total := lf_in_flight_total q + 1\<rparr>)"
| "enterStep job (LoadEpoch calls) q =
     (let ep = lf_epoch q
      in (Enter job
            (if calls - ep_in_flight_total ep \<ge> epochTimeScale \<or> calls < ep_in_flight_total ep
             then AdvanceEpoch calls ep else Register (calc_epoch_index (ep_id ep))), q))"
| "enterStep job (AdvanceEpoch calls ep) q =
     (let epNew = \<lparr>ep_in_flight_total = calls, ep_id = ep_id ep + 1\<rparr>
      in if lf_epoch q = ep
         then (Enter job (SweepCount (calc_epoch_index (ep_id epNew)) 0), q\<lparr>lf_epoch := epNew\<rparr>)
         else (Enter job (LoadEpoch calls), q))"
| "enterStep job (SweepCount epochIndex index) q =
     (Enter job
        (if index < epochDataSize
         then if epochIndex \<noteq> index \<and> lf_epoch_in_flight q index = 0
              then SweepLoad epochIndex index
              else SweepCount epochIndex (index + 1)
         else Register epochIndex), q)"
| "enterStep job (SweepLoad epochIndex index) q =
     (Enter job
        (case lf_epoch_reclaim q index of
           None \<Rightarrow> SweepCount epochIndex (index + 1)
         | Some ptr \<Rightarrow> SweepTake epochIndex index ptr), q)"
| "enterStep job (SweepTake epochIndex index ptr) q =
     (if lf_epoch_reclaim q index = Some ptr
      then (Enter job (SweepCount epochIndex (index + 1)), takeRetired index q)
      else (Enter job (SweepCount epochIndex index), q))"
| "enterStep job (Register epochIndex) q =
     (startBody epochIndex job,
      q\<lparr>lf_epoch_in_flight := (lf_epoch_in_flight q)(epochIndex := lf_epoch_in_flight q epochIndex + 1)\<rparr>)"

text \<open>A node that was not linked is deleted when the exception leaves \<open>pushImpl\<close>.\<close>

fun pushStep :: "nat \<Rightarrow> 'a push_pc \<Rightarrow> 'a lfq \<Rightarrow> 'a pc \<times> 'a lfq" where
  "pushStep index (PushAlloc v) q =
     (Push index (PushTail (lf_fresh q)),
      (setNode (lf_fresh q) (newNode (Some v)) q)\<lparr>lf_fresh := lf_fresh q + 1,
        lf_outstanding := lf_outstanding q + 1\<rparr>)"
| "pushStep index (PushTail fresh) q =
     (Push index (case lf_tail q of None \<Rightarrow> PushUndo fresh | Some lastp \<Rightarrow> PushNext fresh lastp), q)"
| "pushStep index (PushUndo fresh) q =
     (Leave index Threw LeaveEpoch,
      q\<lparr>lf_heap := (lf_heap q)(fresh := None), lf_outstanding := lf_outstanding q - 1\<rparr>)"
| "pushStep index (PushNext fresh lastp) q =
     (case lf_heap q lastp of
        None \<Rightarrow> crash q
      | Some nd \<Rightarrow> (Push index (PushCheck fresh lastp (nd_next nd)), q))"
| "pushStep index (PushCheck fresh lastp nxt) q =
     (Push index
        (if lf_tail q = Some lastp
         then (case nxt of None \<Rightarrow> PushLink fresh lastp | Some n \<Rightarrow> PushHelp fresh lastp n)
         else PushTail fresh), q)"
| "pushStep index (PushLink fresh lastp) q =
     (case lf_heap q lastp of
        None \<Rightarrow> crash q
      | Some nd \<Rightarrow>
          if nd_next nd = None
          then (Push index (PushSwing fresh lastp), setNode lastp (nd\<lparr>nd_next := Some fresh\<rparr>) q)
          else (Push index (PushTail fresh), q))"
| "pushStep index (PushHelp fresh lastp nxt) q =
     (Push index (PushTail fresh), if lf_tail q = Some lastp then q\<lparr>lf_tail := Some nxt\<rparr> else q)"
| "pushStep index (PushSwing fresh lastp) q =
     (Push index PushDone, if lf_tail q = Some lastp then q\<lparr>lf_tail := Some fresh\<rparr> else q)"
| "pushStep index PushDone q = (Leave index Pushed LeaveEpoch, q\<lparr>lf_total_push := lf_total_push q + 1\<rparr>)"

text \<open>The last step is the loop of the batch pop.\<close>

fun popStep :: "bool \<Rightarrow> nat \<Rightarrow> 'a job \<Rightarrow> 'a pop_pc \<Rightarrow> 'a lfq \<Rightarrow> 'a pc \<times> 'a lfq" where
  "popStep ok index job PopTail q =
     (Pop index job (case lf_tail q of None \<Rightarrow> PopReturn None | Some lastp \<Rightarrow> PopHead lastp), q)"
| "popStep ok index job (PopHead lastp) q = (Pop index job (PopNext lastp (lf_head q)), q)"
| "popStep ok index job (PopNext lastp first) q =
     (case access first q of
        None \<Rightarrow> crash q
      | Some nd \<Rightarrow> (Pop index job (PopCheck lastp (the first) (nd_next nd)), q))"
| "popStep ok index job (PopCheck lastp first nxt) q =
     (Pop index job
        (if lf_head q = Some first
         then if first = lastp
              then (case nxt of
                      None \<Rightarrow> if waits job then PopWait lastp else PopReturn None
                    | Some n \<Rightarrow> PopHelp lastp n)
              else PopSwap first nxt
         else PopTail), q)"
| "popStep ok index job (PopWait lastp) q =
     (Pop index job (if lf_tail q = Some lastp then PopWait lastp else PopTail), q)"
| "popStep ok index job (PopHelp lastp nxt) q =
     (Pop index job PopTail, if lf_tail q = Some lastp then q\<lparr>lf_tail := Some nxt\<rparr> else q)"
| "popStep ok index job (PopSwap first nxt) q =
     (if lf_head q = Some first \<and> ok
      then (Pop index job (RetireLoad first nxt), q\<lparr>lf_head := nxt\<rparr>)
      else (Pop index job PopTail, q))"
| "popStep ok index job (RetireLoad first nxt) q =
     (Pop index job (RetireStore first nxt (lf_epoch_reclaim q index)), q)"
| "popStep ok index job (RetireStore first nxt retired) q =
     (case lf_heap q first of
        None \<Rightarrow> crash q
      | Some nd \<Rightarrow>
          (Pop index job (RetireSwap first nxt retired), setNode first (nd\<lparr>nd_retired_next := retired\<rparr>) q))"
| "popStep ok index job (RetireSwap first nxt retired) q =
     (if lf_epoch_reclaim q index = retired
      then (Pop index job (PopUncount nxt),
            q\<lparr>lf_epoch_reclaim := (lf_epoch_reclaim q)(index := Some first)\<rparr>)
      else (Pop index job (RetireLoad first nxt), q))"
| "popStep ok index job (PopUncount nxt) q =
     (Pop index job (PopTake nxt), q\<lparr>lf_outstanding := lf_outstanding q - 1\<rparr>)"
| "popStep ok index job (PopTake nxt) q =
     (case access nxt q of
        None \<Rightarrow> crash q
      | Some nd \<Rightarrow>
          (Pop index job (PopReturn (nd_data nd)), setNode (the nxt) (nd\<lparr>nd_data := None\<rparr>) q))"
| "popStep ok index job (PopReturn res) q =
     (case job of
        JPopMany wanted timed items \<Rightarrow>
          let items' = (case res of None \<Rightarrow> items | Some x \<Rightarrow> items @ [x])
          in if \<not> lf_shutdown q \<and> length items' < wanted \<and> (\<not> timed \<or> ok)
             then (Pop index (JPopMany wanted timed items') PopTail, q)
             else (Leave index (Items items') LeaveEpoch, q)
      | _ \<Rightarrow> (Leave index (Item res) LeaveEpoch, q))"

fun leaveStep :: "nat \<Rightarrow> 'a answer \<Rightarrow> leave_pc \<Rightarrow> 'a lfq \<Rightarrow> 'a pc \<times> 'a lfq" where
  "leaveStep index answer LeaveEpoch q =
     (Leave index answer (if lf_epoch_in_flight q index = 1 then LeaveTest else LeaveGate),
      q\<lparr>lf_epoch_in_flight := (lf_epoch_in_flight q)(index := lf_epoch_in_flight q index - 1)\<rparr>)"
| "leaveStep index answer LeaveTest q =
     (Leave index answer (if calc_epoch_index (ep_id (lf_epoch q)) \<noteq> index then LeaveLoad else LeaveGate), q)"
| "leaveStep index answer LeaveLoad q =
     (Leave index answer (case lf_epoch_reclaim q index of None \<Rightarrow> LeaveGate | Some ptr \<Rightarrow> LeaveTake ptr), q)"
| "leaveStep index answer (LeaveTake ptr) q =
     (if lf_epoch_reclaim q index = Some ptr
      then (Leave index answer LeaveGate, takeRetired index q)
      else (Leave index answer LeaveLoad, q))"
| "leaveStep index answer LeaveGate q =
     (Ready (Some answer), q\<lparr>lf_inflight_count := lf_inflight_count q - 1\<rparr>)"

text \<open>The next atomic operation of a thread, with \<open>waitForEmpty\<close> and \<open>shutdown\<close>.\<close>

fun pcStep :: "bool \<Rightarrow> 'a pc \<Rightarrow> 'a lfq \<Rightarrow> 'a pc \<times> 'a lfq" where
  "pcStep ok (Ready answer) q = (Ready answer, q)"
| "pcStep ok Crashed q = (Crashed, q)"
| "pcStep ok (Enter job pc) q = enterStep job pc q"
| "pcStep ok (Push index pc) q = pushStep index pc q"
| "pcStep ok (Pop index job pc) q = popStep ok index job pc q"
| "pcStep ok (DrainTest index) q =
     (if lf_outstanding q > 0 \<and> \<not> lf_shutdown q then DrainTest index else DrainRead index, q)"
| "pcStep ok (DrainRead index) q = (Leave index (PushCount (lf_total_push q)) LeaveEpoch, q)"
| "pcStep ok (Leave index answer pc) q = leaveStep index answer pc q"
| "pcStep ok ShutFlag q = (ShutTail, q\<lparr>lf_shutdown := True\<rparr>)"
| "pcStep ok ShutTail q = (ShutWait, q\<lparr>lf_tail := None\<rparr>)"
| "pcStep ok ShutWait q = (if lf_inflight_count q > 0 then ShutWait else Ready (Some ShutDown), q)"

section \<open>The system of threads\<close>

record 'a lfsys =
  sys_queue :: "'a lfq"
  sys_threads :: "nat \<Rightarrow> 'a pc"

definition newSystem :: "'a lfsys" where
  "newSystem = \<lparr>sys_queue = newQueue, sys_threads = (\<lambda>_. Ready None)\<rparr>"

definition runThread :: "nat \<Rightarrow> bool \<Rightarrow> 'a lfsys \<Rightarrow> 'a lfsys" where
  "runThread t ok s =
     (case pcStep ok (sys_threads s t) (sys_queue s) of
        (pc, q) \<Rightarrow> \<lparr>sys_queue = q, sys_threads = (sys_threads s)(t := pc)\<rparr>)"

definition startThread :: "nat \<Rightarrow> 'a pc \<Rightarrow> 'a lfsys \<Rightarrow> 'a lfsys" where
  "startThread t pc s = s\<lparr>sys_threads := (sys_threads s)(t := pc)\<rparr>"

text \<open>
  The interleavings in which exactly the threads of \<open>consumer\<close> pop.  A destructor calls \<open>shutdown\<close>
  when nobody has done so.
\<close>

inductive queue_step :: "(nat \<Rightarrow> bool) \<Rightarrow> 'a lfsys \<Rightarrow> 'a lfsys \<Rightarrow> bool" for consumer where
  queue_run: "queue_step consumer s (runThread t ok s)"
| queue_call: "sys_threads s t = Ready answer \<Longrightarrow> callable job \<Longrightarrow> isPop job \<longrightarrow> consumer t \<Longrightarrow>
    queue_step consumer s (startThread t (Enter job TestClosed) s)"
| queue_shutdown: "sys_threads s t = Ready answer \<Longrightarrow> queue_step consumer s (startThread t ShutFlag s)"

definition queue_init :: "'a lfsys \<Rightarrow> bool" where
  "queue_init s \<longleftrightarrow> s = newSystem"

section \<open>Runs\<close>

datatype 'a action = Run nat | Spurious nat | Call nat "'a job"

fun act :: "(nat \<Rightarrow> bool) \<Rightarrow> 'a action \<Rightarrow> 'a lfsys \<Rightarrow> 'a lfsys option" where
  "act consumer (Run t) s = Some (runThread t True s)"
| "act consumer (Spurious t) s = Some (runThread t False s)"
| "act consumer (Call t job) s =
     (case sys_threads s t of
        Ready _ \<Rightarrow> if callable job \<and> (isPop job \<longrightarrow> consumer t) then Some (startThread t (Enter job TestClosed) s) else None
      | _ \<Rightarrow> None)"

fun acts :: "(nat \<Rightarrow> bool) \<Rightarrow> 'a action list \<Rightarrow> 'a lfsys \<Rightarrow> 'a lfsys option" where
  "acts consumer [] s = Some s"
| "acts consumer (a # as) s = (case act consumer a s of None \<Rightarrow> None | Some s' \<Rightarrow> acts consumer as s')"

text \<open>The values behind the head, in order.\<close>

fun nodesFrom :: "nat \<Rightarrow> 'a qheap \<Rightarrow> nat option \<Rightarrow> nat list" where
  "nodesFrom 0 h p = []"
| "nodesFrom (Suc fuel) h p =
     (case p of None \<Rightarrow> []
      | Some n \<Rightarrow> (case h n of None \<Rightarrow> [] | Some nd \<Rightarrow> n # nodesFrom fuel h (nd_next nd)))"

definition contents :: "'a lfq \<Rightarrow> 'a list" where
  "contents q = List.map_filter (\<lambda>n. Option.bind (lf_heap q n) nd_data)
     (tl (nodesFrom (lf_fresh q) (lf_heap q) (lf_head q)))"

end
