(* ===== verification/LockFreeQueueInv.thy ===== *)
theory LockFreeQueueInv
  imports LockFreeQueue
begin

text \<open>
  The invariant of \<open>Dmn_BlockingQueue_Lf\<close> with one consumer: the nodes from the head on form one
  linked list that contains the tail, the nodes that left it keep their successor, and every local
  pointer of a thread is one that the list has or had.  It does not depend on when removed nodes
  are freed.
\<close>

section \<open>The list and its former nodes\<close>

definition nextOf :: "'a qheap \<Rightarrow> nat \<Rightarrow> nat option" where
  "nextOf h n = Option.bind (h n) nd_next"

definition dataOf :: "'a qheap \<Rightarrow> nat \<Rightarrow> 'a option" where
  "dataOf h n = Option.bind (h n) nd_data"

fun linked :: "'a qheap \<Rightarrow> nat list \<Rightarrow> bool" where
  "linked h [] \<longleftrightarrow> False"
| "linked h [n] \<longleftrightarrow> h n \<noteq> None \<and> nextOf h n = None"
| "linked h (n # m # ns) \<longleftrightarrow> nextOf h n = Some m \<and> linked h (m # ns)"

definition dead :: "nat list \<Rightarrow> 'a lfq \<Rightarrow> nat \<Rightarrow> bool" where
  "dead ns q n \<longleftrightarrow> n < lf_fresh q \<and> n \<notin> set ns \<and> (lf_heap q n = None \<or> nextOf (lf_heap q) n \<noteq> None)"

definition known :: "nat list \<Rightarrow> 'a lfq \<Rightarrow> nat \<Rightarrow> bool" where
  "known ns q n \<longleftrightarrow> n < lf_fresh q \<and> (n \<in> set ns \<or> lf_heap q n = None \<or> nextOf (lf_heap q) n \<noteq> None)"

definition succOf :: "'a lfq \<Rightarrow> nat \<Rightarrow> nat \<Rightarrow> bool" where
  "succOf q n m \<longleftrightarrow> lf_heap q n = None \<or> nextOf (lf_heap q) n = Some m"

definition priv :: "nat list \<Rightarrow> 'a lfq \<Rightarrow> nat \<Rightarrow> bool" where
  "priv ns q n \<longleftrightarrow> n < lf_fresh q \<and> n \<notin> set ns \<and> lf_heap q n \<noteq> None \<and> nextOf (lf_heap q) n = None \<and>
     dataOf (lf_heap q) n \<noteq> None"

text \<open>The tail is at \<open>l\<close> or behind it.\<close>

definition onward :: "nat list \<Rightarrow> 'a lfq \<Rightarrow> nat \<Rightarrow> bool" where
  "onward ns q l \<longleftrightarrow> (\<exists>as bs. ns = as @ l # bs \<and>
     (case lf_tail q of None \<Rightarrow> True | Some t \<Rightarrow> t \<in> set (l # bs)))"

definition shared_ok :: "nat list \<Rightarrow> 'a lfq \<Rightarrow> bool" where
  "shared_ok ns q \<longleftrightarrow> linked (lf_heap q) ns \<and> distinct ns \<and> lf_head q = Some (hd ns) \<and>
     (case lf_tail q of None \<Rightarrow> lf_shutdown q | Some t \<Rightarrow> t \<in> set ns) \<and> (\<forall>n\<in>set ns. n < lf_fresh q) \<and>
     (\<forall>n\<in>set (tl ns). dataOf (lf_heap q) n \<noteq> None) \<and> (\<forall>n\<ge>lf_fresh q. lf_heap q n = None) \<and>
     (\<forall>i m. lf_epoch_reclaim q i = Some m \<longrightarrow> dead ns q m) \<and>
     (\<forall>n nd m. lf_heap q n = Some nd \<and> nd_retired_next nd = Some m \<longrightarrow> dead ns q m)"

section \<open>The threads\<close>

fun freshOf :: "'a pc \<Rightarrow> nat option" where
  "freshOf (Push index (PushTail n)) = Some n"
| "freshOf (Push index (PushUndo n)) = Some n"
| "freshOf (Push index (PushNext n l)) = Some n"
| "freshOf (Push index (PushCheck n l nxt)) = Some n"
| "freshOf (Push index (PushLink n l)) = Some n"
| "freshOf (Push index (PushHelp n l nxt)) = Some n"
| "freshOf pc = None"

fun push_ok :: "nat list \<Rightarrow> 'a lfq \<Rightarrow> 'a push_pc \<Rightarrow> bool" where
  "push_ok ns q (PushNext n l) \<longleftrightarrow> known ns q l"
| "push_ok ns q (PushCheck n l nxt) \<longleftrightarrow> known ns q l \<and> (case nxt of None \<Rightarrow> True | Some m \<Rightarrow> succOf q l m)"
| "push_ok ns q (PushLink n l) \<longleftrightarrow> known ns q l"
| "push_ok ns q (PushHelp n l m) \<longleftrightarrow> known ns q l \<and> succOf q l m"
| "push_ok ns q (PushSwing n l) \<longleftrightarrow> known ns q l \<and> succOf q l n"
| "push_ok ns q pc \<longleftrightarrow> True"

text \<open>What the consumer removed: the old head is dead, and the new head holds the item.\<close>

definition removed :: "nat list \<Rightarrow> 'a lfq \<Rightarrow> nat option \<Rightarrow> bool" where
  "removed ns q nxt \<longleftrightarrow> nxt = Some (hd ns) \<and> dataOf (lf_heap q) (hd ns) \<noteq> None"

fun pop_ok :: "nat list \<Rightarrow> 'a lfq \<Rightarrow> 'a pop_pc \<Rightarrow> bool" where
  "pop_ok ns q (PopHead l) \<longleftrightarrow> onward ns q l"
| "pop_ok ns q (PopNext l first) \<longleftrightarrow> onward ns q l \<and> first = Some (hd ns)"
| "pop_ok ns q (PopCheck l first nxt) \<longleftrightarrow> onward ns q l \<and> first = hd ns \<and>
     (case nxt of None \<Rightarrow> first = l | Some m \<Rightarrow> nextOf (lf_heap q) first = Some m)"
| "pop_ok ns q (PopHelp l m) \<longleftrightarrow> known ns q l \<and> succOf q l m"
| "pop_ok ns q (PopSwap first nxt) \<longleftrightarrow> first = hd ns \<and> nxt \<noteq> None \<and> nextOf (lf_heap q) first = nxt \<and>
     lf_tail q \<noteq> Some first"
| "pop_ok ns q (RetireLoad first nxt) \<longleftrightarrow> dead ns q first \<and> removed ns q nxt"
| "pop_ok ns q (RetireStore first nxt retired) \<longleftrightarrow> dead ns q first \<and> removed ns q nxt \<and>
     (case retired of None \<Rightarrow> True | Some m \<Rightarrow> dead ns q m)"
| "pop_ok ns q (RetireSwap first nxt retired) \<longleftrightarrow> dead ns q first \<and> removed ns q nxt"
| "pop_ok ns q (PopUncount nxt) \<longleftrightarrow> removed ns q nxt"
| "pop_ok ns q (PopTake nxt) \<longleftrightarrow> removed ns q nxt"
| "pop_ok ns q pc \<longleftrightarrow> True"

fun local_ok :: "nat list \<Rightarrow> 'a lfq \<Rightarrow> 'a pc \<Rightarrow> bool" where
  "local_ok ns q (Push index pc) \<longleftrightarrow> push_ok ns q pc"
| "local_ok ns q (Pop index job pc) \<longleftrightarrow> pop_ok ns q pc"
| "local_ok ns q (Enter job p) \<longleftrightarrow> callable job \<and> (p = UndoCount \<longrightarrow> lf_shutdown q)"
| "local_ok ns q ShutTail \<longleftrightarrow> lf_shutdown q"
| "local_ok ns q pc \<longleftrightarrow> True"

text \<open>The thread is, or is about to be, in \<open>popOptional\<close>.\<close>

fun popping :: "'a pc \<Rightarrow> bool" where
  "popping (Enter job pc) \<longleftrightarrow> isPop job"
| "popping (Pop index job pc) \<longleftrightarrow> True"
| "popping pc \<longleftrightarrow> False"

definition threads_ok :: "nat list \<Rightarrow> 'a lfq \<Rightarrow> (nat \<Rightarrow> 'a pc) \<Rightarrow> bool" where
  "threads_ok ns q pcs \<longleftrightarrow> (\<forall>t. local_ok ns q (pcs t)) \<and>
     (\<forall>t n. freshOf (pcs t) = Some n \<longrightarrow> priv ns q n \<and> (\<forall>u. freshOf (pcs u) = Some n \<longrightarrow> u = t))"

definition queue_ok :: "nat \<Rightarrow> nat list \<Rightarrow> 'a lfsys \<Rightarrow> bool" where
  "queue_ok c ns s \<longleftrightarrow> shared_ok ns (sys_queue s) \<and> threads_ok ns (sys_queue s) (sys_threads s) \<and>
     (\<forall>t. popping (sys_threads s t) \<longrightarrow> t = c)"

section \<open>What a step may change\<close>

text \<open>
  The list loses nodes only from its head, gains only fresh nodes, and no node is given another
  successor.
\<close>

definition evolves :: "nat list \<Rightarrow> 'a lfq \<Rightarrow> nat list \<Rightarrow> 'a lfq \<Rightarrow> bool" where
  "evolves ns q ns' q' \<longleftrightarrow> lf_fresh q \<le> lf_fresh q' \<and> (lf_shutdown q \<longrightarrow> lf_shutdown q') \<and>
     (\<forall>n<lf_fresh q. lf_heap q n = None \<longrightarrow> lf_heap q' n = None) \<and>
     (\<forall>n m. nextOf (lf_heap q) n = Some m \<longrightarrow> lf_heap q' n = None \<or> nextOf (lf_heap q') n = Some m) \<and>
     (\<forall>n\<in>set ns'. n \<in> set ns \<or> lf_heap q n \<noteq> None \<and> nextOf (lf_heap q) n = None) \<and>
     (\<forall>n\<in>set ns. n \<in> set ns' \<or> lf_heap q' n = None \<or> nextOf (lf_heap q') n \<noteq> None)"

lemma evolves_dead: "evolves ns q ns' q' \<Longrightarrow> dead ns q n \<Longrightarrow> dead ns' q' n"
  unfolding evolves_def dead_def by (metis option.exhaust order.strict_trans2)

lemma evolves_known: "evolves ns q ns' q' \<Longrightarrow> known ns q n \<Longrightarrow> known ns' q' n"
  unfolding evolves_def known_def by (metis option.exhaust order.strict_trans2)

lemma evolves_succ: "evolves ns q ns' q' \<Longrightarrow> known ns q n \<Longrightarrow> succOf q n m \<Longrightarrow> succOf q' n m"
  unfolding evolves_def succOf_def known_def by metis

text \<open>What a step of any thread but the consumer leaves alone.\<close>

definition keeps :: "nat list \<Rightarrow> 'a lfq \<Rightarrow> nat list \<Rightarrow> 'a lfq \<Rightarrow> bool" where
  "keeps ns q ns' q' \<longleftrightarrow> hd ns' = hd ns \<and> dataOf (lf_heap q') (hd ns) = dataOf (lf_heap q) (hd ns) \<and>
     (\<forall>m. nextOf (lf_heap q) (hd ns) = Some m \<longrightarrow> nextOf (lf_heap q') (hd ns) = Some m) \<and>
     (\<forall>l. onward ns q l \<longrightarrow> onward ns' q' l) \<and>
     (lf_tail q \<noteq> Some (hd ns) \<longrightarrow> lf_tail q' \<noteq> Some (hd ns))"

lemma keeps_removed: "keeps ns q ns' q' \<Longrightarrow> removed ns q nxt \<Longrightarrow> removed ns' q' nxt"
  by (simp add: keeps_def removed_def)

lemma frame:
  assumes ev: "evolves ns q ns' q'" and keeps: "popping pc \<Longrightarrow> keeps ns q ns' q'" and ok: "local_ok ns q pc"
  shows "local_ok ns' q' pc"
proof (cases pc)
  case (Push index p)
  then show ?thesis
    using ok evolves_known [OF ev] evolves_succ [OF ev] by (cases p) (auto split: option.splits)
next
  case (Pop index job p)
  have k: "keeps ns q ns' q'" using keeps Pop by simp
  note r = keeps_removed [OF k] and d = evolves_dead [OF ev] and o = k [unfolded keeps_def]
  show ?thesis
  proof (cases p)
    case (PopHelp l m)
    then show ?thesis using ok Pop evolves_known [OF ev] evolves_succ [OF ev] by simp
  next
    case (PopCheck l first nxt)
    then show ?thesis using ok Pop o by (auto split: option.splits)
  next
    case (PopSwap first nxt)
    then show ?thesis using ok Pop o by auto
  qed (use ok Pop r d o in \<open>auto split: option.splits\<close>)
next
  case (Enter job p)
  then show ?thesis using ok ev by (simp add: evolves_def)
next
  case ShutTail
  then show ?thesis using ok ev by (simp add: evolves_def)
qed simp_all

text \<open>The step keeps the shared invariant and every private node outside \<open>X\<close>.\<close>

definition rough :: "nat set \<Rightarrow> nat list \<Rightarrow> 'a lfq \<Rightarrow> nat list \<Rightarrow> 'a lfq \<Rightarrow> bool" where
  "rough X ns q ns' q' \<longleftrightarrow> shared_ok ns' q' \<and> evolves ns q ns' q' \<and>
     (\<forall>n. priv ns q n \<and> n \<notin> X \<longrightarrow> priv ns' q' n \<and> dataOf (lf_heap q') n = dataOf (lf_heap q) n)"

definition smooth :: "nat set \<Rightarrow> nat list \<Rightarrow> 'a lfq \<Rightarrow> nat list \<Rightarrow> 'a lfq \<Rightarrow> bool" where
  "smooth X ns q ns' q' \<longleftrightarrow> rough X ns q ns' q' \<and> keeps ns q ns' q'"

definition ownFresh :: "'a pc \<Rightarrow> nat set" where
  "ownFresh pc = {n. freshOf pc = Some n}"

lemma queue_ok_step:
  assumes ok: "queue_ok c ns s" and rough: "rough (ownFresh (sys_threads s t)) ns (sys_queue s) ns' q'"
    and keeps: "t \<noteq> c \<Longrightarrow> keeps ns (sys_queue s) ns' q'"
    and new: "local_ok ns' q' pc'" "popping pc' \<Longrightarrow> popping (sys_threads s t)"
    and own: "\<And>n. freshOf pc' = Some n \<Longrightarrow> priv ns' q' n \<and>
      (freshOf (sys_threads s t) = Some n \<or> \<not> priv ns (sys_queue s) n)"
  shows "queue_ok c ns' \<lparr>sys_queue = q', sys_threads = (sys_threads s)(t := pc')\<rparr>"
proof -
  let ?q = "sys_queue s" and ?p = "sys_threads s" and ?p' = "(sys_threads s)(t := pc')"
  have s: "shared_ok ns' q'" "evolves ns ?q ns' q'" "\<And>n. priv ns ?q n \<Longrightarrow> freshOf (?p t) \<noteq> Some n \<Longrightarrow> priv ns' q' n"
    using rough by (simp_all add: rough_def ownFresh_def)
  have th: "local_ok ns ?q (?p u)" "freshOf (?p u) = Some n \<Longrightarrow> priv ns ?q n"
      "freshOf (?p u) = Some n \<Longrightarrow> freshOf (?p v) = Some n \<Longrightarrow> v = u"
      "popping (?p u) \<Longrightarrow> u = c" for u v n
    using ok unfolding queue_ok_def threads_ok_def by blast+
  have "local_ok ns' q' (?p' u)" for u
  proof (cases "u = t")
    case False
    have "local_ok ns' q' (?p u)"
    proof (rule frame [OF s(2) _ th(1)])
      assume "popping (?p u)"
      then show "keeps ns ?q ns' q'" using th(4) False keeps by blast
    qed
    then show ?thesis using False by simp
  qed (use new(1) in simp)
  moreover have "priv ns' q' n \<and> (\<forall>v. freshOf (?p' v) = Some n \<longrightarrow> v = u)" if f: "freshOf (?p' u) = Some n" for u n
  proof (cases "u = t")
    case True
    then have pc': "freshOf pc' = Some n" using f by simp
    have "v = t" if "freshOf (?p' v) = Some n" for v
    proof (rule ccontr)
      assume "v \<noteq> t"
      then have "freshOf (?p v) = Some n" using that by simp
      then show False using own [OF pc'] th(2,3) \<open>v \<noteq> t\<close> by blast
    qed
    then show ?thesis using own [OF pc'] True by blast
  next
    case False
    then have fu: "freshOf (?p u) = Some n" using f by simp
    then have n: "priv ns ?q n" "freshOf (?p t) \<noteq> Some n" using th(2,3) False by blast+
    have "v = u" if "freshOf (?p' v) = Some n" for v
    proof (cases "v = t")
      case True
      then have "freshOf pc' = Some n" using that by simp
      then show ?thesis using own [of n] n by blast
    next
      case False
      then show ?thesis using that th(3) [OF fu] by simp
    qed
    then show ?thesis using s(3) [OF n] by blast
  qed
  moreover have "u = c" if "popping (?p' u)" for u
    using that new(2) th(4) by (cases "u = t") auto
  ultimately show ?thesis using s(1) by (simp add: queue_ok_def threads_ok_def)
qed

section \<open>The kinds of steps\<close>

lemma evolves_refl:
  "lf_fresh q' = lf_fresh q \<Longrightarrow> lf_heap q' = lf_heap q \<Longrightarrow> lf_shutdown q \<longrightarrow> lf_shutdown q' \<Longrightarrow> evolves ns q ns q'"
  by (simp add: evolves_def)

lemma smooth_same:
  assumes "shared_ok ns q" and "lf_heap q' = lf_heap q" and "lf_fresh q' = lf_fresh q" and "lf_head q' = lf_head q"
    and "lf_tail q' = lf_tail q" and "lf_epoch_reclaim q' = lf_epoch_reclaim q" and "lf_shutdown q \<longrightarrow> lf_shutdown q'"
  shows "smooth X ns q ns q'"
proof -
  have "shared_ok ns q'"
    using assms unfolding shared_ok_def dead_def by (auto split: option.splits)
  moreover have "evolves ns q ns q'" using assms by (simp add: evolves_refl)
  ultimately show ?thesis
    using assms by (simp add: smooth_def rough_def keeps_def onward_def priv_def)
qed

lemma smooth_no_tail:
  assumes "shared_ok ns q" and "lf_shutdown q"
  shows "smooth X ns q ns (q\<lparr>lf_tail := None\<rparr>)"
  using assms
  by (auto simp: smooth_def rough_def keeps_def onward_def priv_def shared_ok_def dead_def evolves_refl)

text \<open>Deleting dead nodes.\<close>

lemma linked_cong: "(\<And>n. n \<in> set ns \<Longrightarrow> h' n = h n) \<Longrightarrow> linked h' ns = linked h ns"
  by (induction h ns rule: linked.induct) (simp_all add: nextOf_def)

definition pruned :: "nat list \<Rightarrow> 'a lfq \<Rightarrow> 'a qheap \<Rightarrow> bool" where
  "pruned ns q h \<longleftrightarrow> (\<forall>n. h n = lf_heap q n \<or> h n = None \<and> dead ns q n)"

lemma freeRetired_pruned:
  assumes "shared_ok ns q" and "pruned ns q h" and "\<And>n. p = Some n \<Longrightarrow> dead ns q n"
    and "freeRetiredNodeList fuel p h = Some h'"
  shows "pruned ns q h'"
  using assms(2-)
proof (induction fuel p h rule: freeRetiredNodeList.induct)
  case (3 fuel n h)
  then obtain nd where nd: "h n = Some nd" by (auto split: option.splits)
  then have q: "lf_heap q n = Some nd" using 3(2) unfolding pruned_def by (metis option.distinct(1))
  have "dead ns q n" using 3(3) by simp
  then have "pruned ns q (h(n := None))" using 3(2) by (simp add: pruned_def)
  moreover have "dead ns q m" if "nd_retired_next nd = Some m" for m
    using assms(1) q that unfolding shared_ok_def by blast
  moreover have "freeRetiredNodeList fuel (nd_retired_next nd) (h(n := None)) = Some h'" using 3(4) nd by simp
  ultimately show ?case by (rule 3(1) [OF nd])
qed simp_all

lemma smooth_pruned:
  assumes ok: "shared_ok ns q" and p: "pruned ns q h"
  shows "smooth X ns q ns (q\<lparr>lf_epoch_reclaim := (lf_epoch_reclaim q)(index := None), lf_heap := h, lf_fault := f\<rparr>)"
    (is "smooth X ns q ns ?q'")
proof -
  have alive: "h n = lf_heap q n" if "n \<in> set ns" for n
    using p that unfolding pruned_def dead_def by blast
  have nxt: "nextOf h n = nextOf (lf_heap q) n" "dataOf h n = dataOf (lf_heap q) n" if "n \<in> set ns" for n
    using alive [OF that] by (simp_all add: nextOf_def dataOf_def)
  have none: "lf_heap q n = None \<Longrightarrow> h n = None" for n using p unfolding pruned_def by metis
  have same: "h n = None \<or> h n = lf_heap q n" for n using p unfolding pruned_def by blast
  have dead: "dead ns ?q' n" if "dead ns q n" for n
    using that same [of n] by (auto simp: dead_def nextOf_def)
  have "hd ns \<in> set ns" using ok by (cases ns) (auto simp: shared_ok_def)
  note hd = alive [OF this] nxt [OF this]
  have ret: "\<forall>n nd m. h n = Some nd \<and> nd_retired_next nd = Some m \<longrightarrow> dead ns ?q' m"
  proof (intro allI impI)
    fix n nd m assume "h n = Some nd \<and> nd_retired_next nd = Some m"
    then have "lf_heap q n = Some nd \<and> nd_retired_next nd = Some m" using same [of n] by auto
    then show "dead ns ?q' m" using ok dead unfolding shared_ok_def by blast
  qed
  have rec: "\<forall>i m. ((lf_epoch_reclaim q)(index := None)) i = Some m \<longrightarrow> dead ns ?q' m"
    using ok dead unfolding shared_ok_def by (auto split: if_splits)
  have "\<forall>n\<in>set (tl ns). dataOf h n \<noteq> None"
    using ok nxt(2) unfolding shared_ok_def by (cases ns) auto
  moreover have "linked h ns" using ok linked_cong [OF alive, of ns] by (simp add: shared_ok_def)
  ultimately have "shared_ok ns ?q'" using ok ret rec none unfolding shared_ok_def by (simp split: option.splits)
  moreover have "evolves ns q ns ?q'"
    using none same unfolding evolves_def nextOf_def by (simp, metis)
  moreover have "priv ns ?q' n \<and> dataOf (lf_heap ?q') n = dataOf (lf_heap q) n" if "priv ns q n" for n
  proof -
    have "\<not> dead ns q n" using that by (auto simp: priv_def dead_def)
    then have "h n = lf_heap q n" using p unfolding pruned_def by blast
    then show ?thesis using that by (simp add: priv_def nextOf_def dataOf_def)
  qed
  moreover have "keeps ns q ns ?q'"
    using hd by (simp add: keeps_def onward_def)
  ultimately show ?thesis by (simp add: smooth_def rough_def)
qed

lemma smooth_takeRetired:
  assumes ok: "shared_ok ns q"
  shows "smooth X ns q ns (takeRetired index q)"
proof (cases "freeRetiredNodeList (lf_fresh q) (lf_epoch_reclaim q index) (lf_heap q)")
  case None
  have "pruned ns q (lf_heap q)" by (simp add: pruned_def)
  from smooth_pruned [OF ok this, where f = True] None show ?thesis by (simp add: takeRetired_def)
next
  case (Some h)
  have "pruned ns q h"
    by (rule freeRetired_pruned [OF ok _ _ Some]) (use ok in \<open>auto simp: pruned_def shared_ok_def\<close>)
  from smooth_pruned [OF ok this, where f = "lf_fault q"] Some show ?thesis by (simp add: takeRetired_def)
qed

lemma linked_alloc: "linked h ns \<Longrightarrow> n \<in> set ns \<Longrightarrow> h n \<noteq> None"
  by (induction h ns rule: linked.induct) (auto simp: nextOf_def split: bind_splits)

lemma linked_last: "linked h ns \<Longrightarrow> n \<in> set ns \<Longrightarrow> nextOf h n = None \<Longrightarrow> n = last ns"
  by (induction h ns rule: linked.induct) auto

lemma linked_at: "linked h (as @ l # bs) \<Longrightarrow> nextOf h l = Some m \<Longrightarrow> \<exists>bs'. bs = m # bs'"
proof (induction as)
  case Nil
  then show ?case by (cases bs) simp_all
next
  case (Cons a as)
  then show ?case by (cases as) simp_all
qed

lemma linked_head: "linked h (n # ns) \<Longrightarrow> nextOf h n = Some m \<Longrightarrow> \<exists>bs. ns = m # bs \<and> linked h ns"
  by (cases ns) simp_all

lemma linked_nonempty: "linked h ns \<Longrightarrow> ns \<noteq> []"
  by (cases ns) simp_all

lemma linked_snoc:
  assumes "linked h ns" and "distinct ns" and "n \<notin> set ns" and "h n \<noteq> None" and "nextOf h n = None"
    and "h (last ns) = Some nd"
  shows "linked (h(last ns \<mapsto> nd\<lparr>nd_next := Some n\<rparr>)) (ns @ [n])"
  using assms
proof (induction h ns rule: linked.induct)
  case (3 h k m ns)
  have "linked (h(last (m # ns) \<mapsto> nd\<lparr>nd_next := Some n\<rparr>)) ((m # ns) @ [n])"
    by (rule 3(1)) (use 3 in simp_all)
  moreover have "k \<noteq> last (m # ns)" using 3(3) last_in_set [of "m # ns"] by auto
  then have "nextOf (h(last (m # ns) \<mapsto> nd\<lparr>nd_next := Some n\<rparr>)) k = Some m" using 3(2) by (simp add: nextOf_def)
  moreover have "last (k # m # ns) = last (m # ns)" by simp
  ultimately show ?case by (simp only: append_Cons linked.simps)
qed (auto simp: nextOf_def)

lemma smooth_alloc:
  assumes ok: "shared_ok ns q"
    and q'_def: "q' = (setNode (lf_fresh q) (newNode (Some v)) q)\<lparr>lf_fresh := lf_fresh q + 1, lf_outstanding := x\<rparr>"
  shows "smooth X ns q ns q'" and "priv ns q' (lf_fresh q)" and "\<not> priv ns q (lf_fresh q)"
proof -
  have old: "n \<noteq> lf_fresh q" if "lf_heap q n \<noteq> None \<or> n \<in> set ns \<or> n < lf_fresh q" for n
    using ok that unfolding shared_ok_def by auto
  have heap: "lf_heap q' n = (if n = lf_fresh q then Some (newNode (Some v)) else lf_heap q n)" for n
    by (simp add: q'_def setNode_def)
  have eq: "nextOf (lf_heap q') n = nextOf (lf_heap q) n" "dataOf (lf_heap q') n = dataOf (lf_heap q) n"
    if "n \<noteq> lf_fresh q" for n using that by (simp_all add: nextOf_def dataOf_def heap)
  have new: "nextOf (lf_heap q') (lf_fresh q) = None" "dataOf (lf_heap q') (lf_fresh q) = Some v"
    by (simp_all add: nextOf_def dataOf_def heap newNode_def)
  have flds: "lf_fresh q' = Suc (lf_fresh q)" "lf_head q' = lf_head q" "lf_tail q' = lf_tail q"
      "lf_epoch_reclaim q' = lf_epoch_reclaim q" "lf_shutdown q' = lf_shutdown q"
    by (simp_all add: q'_def setNode_def)
  have dead: "dead ns q' n" if "dead ns q n" for n
    using that eq by (simp add: dead_def flds heap)
  have hd: "hd ns \<noteq> lf_fresh q" "lf_fresh q \<notin> set ns" "\<And>n. n \<in> set (tl ns) \<Longrightarrow> n \<noteq> lf_fresh q"
    using old linked_nonempty [of "lf_heap q" ns] ok by (auto simp: shared_ok_def list.set_sel)
  have "linked (lf_heap q') ns"
    using ok linked_cong [of ns "lf_heap q'" "lf_heap q"] old heap by (auto simp: shared_ok_def)
  moreover have "\<forall>n nd m. lf_heap q' n = Some nd \<and> nd_retired_next nd = Some m \<longrightarrow> dead ns q' m"
    using ok dead unfolding heap shared_ok_def by (auto simp: newNode_def split: if_splits)
  moreover have "\<forall>i m. lf_epoch_reclaim q' i = Some m \<longrightarrow> dead ns q' m"
    using ok dead unfolding flds shared_ok_def by blast
  moreover have "\<forall>n\<in>set (tl ns). dataOf (lf_heap q') n \<noteq> None"
    using ok eq hd(3) unfolding shared_ok_def by metis
  ultimately have "shared_ok ns q'"
    using ok heap unfolding shared_ok_def flds by (auto split: option.splits)
  moreover have "evolves ns q ns q'"
  proof -
    have "n \<noteq> lf_fresh q" if "nextOf (lf_heap q) n = Some m" for n m
      using that old [of n] by (auto simp: nextOf_def split: bind_splits)
    then show ?thesis using eq by (auto simp: evolves_def flds heap)
  qed
  moreover have "priv ns q' n \<and> dataOf (lf_heap q') n = dataOf (lf_heap q) n" if "priv ns q n" for n
    using that old [of n] eq [of n] by (simp add: priv_def flds heap)
  moreover have "keeps ns q ns q'" using eq hd(1) by (simp add: keeps_def onward_def flds)
  ultimately show "smooth X ns q ns q'" by (simp add: smooth_def rough_def)
  show "priv ns q' (lf_fresh q)" using hd(2) new by (simp add: priv_def flds heap)
  show "\<not> priv ns q (lf_fresh q)" by (simp add: priv_def)
qed

lemma smooth_unalloc:
  assumes ok: "shared_ok ns q" and n: "priv ns q n"
  shows "smooth {n} ns q ns (q\<lparr>lf_heap := (lf_heap q)(n := None), lf_outstanding := x\<rparr>)" (is "smooth _ ns q ns ?q")
proof -
  let ?h = "(lf_heap q)(n := None)"
  have eq: "nextOf ?h k = nextOf (lf_heap q) k" "dataOf ?h k = dataOf (lf_heap q) k" if "k \<noteq> n" for k
    using that by (simp_all add: nextOf_def dataOf_def)
  have out: "n \<notin> set ns" "nextOf (lf_heap q) n = None" "\<not> dead ns q n" using n by (auto simp: priv_def dead_def)
  have ns: "k \<noteq> n" if "k \<in> set ns" for k using that out by auto
  have dead: "dead ns ?q k" if "dead ns q k" for k
    using that out(3) eq [of k] by (cases "k = n") (simp_all add: dead_def)
  have hd: "hd ns \<noteq> n" "\<And>k. k \<in> set (tl ns) \<Longrightarrow> k \<noteq> n"
    using ns linked_nonempty [of "lf_heap q" ns] ok by (auto simp: shared_ok_def list.set_sel)
  have "linked ?h ns" using ok linked_cong [of ns ?h "lf_heap q"] ns by (auto simp: shared_ok_def)
  moreover have "\<forall>k nd m. ?h k = Some nd \<and> nd_retired_next nd = Some m \<longrightarrow> dead ns ?q m"
    using ok dead unfolding shared_ok_def by (auto split: if_splits)
  moreover have "\<forall>i m. lf_epoch_reclaim q i = Some m \<longrightarrow> dead ns ?q m"
    using ok dead unfolding shared_ok_def by blast
  moreover have "\<forall>k\<in>set (tl ns). dataOf ?h k \<noteq> None" using ok eq(2) hd(2) unfolding shared_ok_def by metis
  ultimately have "shared_ok ns ?q" using ok unfolding shared_ok_def by (auto split: option.splits)
  moreover have "evolves ns q ns ?q" using eq(1) out(2) unfolding evolves_def by simp
  moreover have "priv ns ?q k \<and> dataOf (lf_heap ?q) k = dataOf (lf_heap q) k" if "priv ns q k" "k \<noteq> n" for k
    using that eq [of k] by (simp add: priv_def)
  moreover have "keeps ns q ns ?q" using eq [OF hd(1)] by (simp add: keeps_def onward_def)
  ultimately show ?thesis by (simp add: smooth_def rough_def)
qed

lemma onward_grow: "onward ns q l \<Longrightarrow> lf_tail q' = lf_tail q \<Longrightarrow> onward (ns @ zs) q' l"
  unfolding onward_def by (fastforce split: option.splits)

lemma smooth_link:
  assumes ok: "shared_ok ns q" and n: "priv ns q n" and l: "known ns q l" "lf_heap q l = Some nd" "nd_next nd = None"
    and q'_def: "q' = setNode l (nd\<lparr>nd_next := Some n\<rparr>) q"
  shows "smooth {n} ns q (ns @ [n]) q'" and "known (ns @ [n]) q' l" and "succOf q' l n"
    and "dataOf (lf_heap q') k = dataOf (lf_heap q) k"
proof -
  have lk: "linked (lf_heap q) ns" "distinct ns" using ok by (simp_all add: shared_ok_def)
  have "nextOf (lf_heap q) l = None" using l(2,3) by (simp add: nextOf_def)
  then have "l \<in> set ns" "l = last ns" using l(1,2) linked_last [OF lk(1)] by (auto simp: known_def)
  note l' = this
  have pn: "n \<notin> set ns" "lf_heap q n \<noteq> None" "nextOf (lf_heap q) n = None" "n < lf_fresh q"
      "dataOf (lf_heap q) n \<noteq> None" using n by (auto simp: priv_def)
  have heap: "lf_heap q' = (lf_heap q)(l \<mapsto> nd\<lparr>nd_next := Some n\<rparr>)" by (simp add: q'_def setNode_def)
  have flds: "lf_fresh q' = lf_fresh q" "lf_head q' = lf_head q" "lf_tail q' = lf_tail q"
      "lf_epoch_reclaim q' = lf_epoch_reclaim q" "lf_shutdown q' = lf_shutdown q"
    by (simp_all add: q'_def setNode_def)
  have data: "dataOf (lf_heap q') k = dataOf (lf_heap q) k" for k using l(2) by (simp add: dataOf_def heap)
  then show "dataOf (lf_heap q') k = dataOf (lf_heap q) k" .
  have nxt: "nextOf (lf_heap q') k = (if k = l then Some n else nextOf (lf_heap q) k)" for k
    by (simp add: nextOf_def heap)
  have none: "lf_heap q' k = None \<longleftrightarrow> lf_heap q k = None" for k using l(2) by (simp add: heap)
  have "n \<noteq> l" using pn(1) l'(1) by blast
  have dead: "dead (ns @ [n]) q' k" if "dead ns q k" for k
  proof -
    have "k \<noteq> n" using that pn(2,3) by (auto simp: dead_def)
    then show ?thesis using that by (simp add: dead_def flds none nxt)
  qed
  have "linked (lf_heap q') (ns @ [n])"
    using linked_snoc [OF lk pn(1-3), of nd] l(2) l'(2) by (simp add: heap)
  moreover have "\<forall>k x m. lf_heap q' k = Some x \<and> nd_retired_next x = Some m \<longrightarrow> dead (ns @ [n]) q' m"
  proof (intro allI impI)
    fix k x m assume "lf_heap q' k = Some x \<and> nd_retired_next x = Some m"
    then have "\<exists>x. lf_heap q k = Some x \<and> nd_retired_next x = Some m"
      using l(2) by (auto simp: heap split: if_splits)
    then show "dead (ns @ [n]) q' m" using ok dead unfolding shared_ok_def by blast
  qed
  moreover have "\<forall>i m. lf_epoch_reclaim q' i = Some m \<longrightarrow> dead (ns @ [n]) q' m"
    using ok dead unfolding flds shared_ok_def by blast
  moreover have "\<forall>k\<in>set (tl (ns @ [n])). dataOf (lf_heap q') k \<noteq> None"
    using ok pn(5) data linked_nonempty [OF lk(1)] by (auto simp: shared_ok_def)
  moreover have "hd (ns @ [n]) = hd ns" using linked_nonempty [OF lk(1)] by simp
  ultimately have "shared_ok (ns @ [n]) q'"
    using ok pn(1,4) none unfolding shared_ok_def flds by (auto split: option.splits)
  moreover have "evolves ns q (ns @ [n]) q'"
    using pn(2,3) \<open>nextOf (lf_heap q) l = None\<close> by (auto simp: evolves_def flds none nxt)
  moreover have "priv (ns @ [n]) q' k \<and> dataOf (lf_heap q') k = dataOf (lf_heap q) k" if "priv ns q k" "k \<noteq> n" for k
  proof -
    have "k \<noteq> l" using that(1) l'(1) by (auto simp: priv_def)
    then show ?thesis using that by (simp add: priv_def flds none nxt data)
  qed
  moreover have "keeps ns q (ns @ [n]) q'"
    using \<open>hd (ns @ [n]) = hd ns\<close> data nxt \<open>nextOf (lf_heap q) l = None\<close> onward_grow [of ns q _ q' "[n]"]
    by (simp add: keeps_def flds)
  ultimately show "smooth {n} ns q (ns @ [n]) q'" by (simp add: smooth_def rough_def)
  show "known (ns @ [n]) q' l" using l(1) l'(1) by (simp add: known_def flds)
  show "succOf q' l n" by (simp add: succOf_def nxt)
qed

lemma smooth_tail:
  assumes ok: "shared_ok ns q" and l: "known ns q l" "succOf q l m" "lf_tail q = Some l"
  shows "smooth X ns q ns (q\<lparr>lf_tail := Some m\<rparr>)"
proof -
  have "l \<in> set ns" using ok l(3) by (simp add: shared_ok_def)
  moreover have lk: "linked (lf_heap q) ns" "distinct ns" using ok by (simp_all add: shared_ok_def)
  ultimately have nxt: "nextOf (lf_heap q) l = Some m" using l(2) linked_alloc by (fastforce simp: succOf_def)
  from split_list [OF \<open>l \<in> set ns\<close>] obtain as bs where ns: "ns = as @ l # bs" by blast
  obtain bs' where bs: "bs = m # bs'" using linked_at [OF lk(1) [unfolded ns] nxt] by blast
  have "shared_ok ns (q\<lparr>lf_tail := Some m\<rparr>)"
    using ok ns bs by (simp add: shared_ok_def dead_def)
  moreover have "evolves ns q ns (q\<lparr>lf_tail := Some m\<rparr>)" by (simp add: evolves_refl)
  moreover have "onward ns (q\<lparr>lf_tail := Some m\<rparr>) k" if on: "onward ns q k" for k
  proof -
    obtain cs ds where cs: "ns = cs @ k # ds" "case lf_tail q of None \<Rightarrow> True | Some t \<Rightarrow> t \<in> set (k # ds)"
      using on unfolding onward_def by blast
    then have "l \<in> set (k # ds)" using l(3) by simp
    note cs = cs(1) this
    then obtain u v where uv: "k # ds = u @ l # v" using split_list by fast
    then have "ns = (cs @ u) @ l # v" using cs(1) by simp
    moreover have "l \<notin> set as" "l \<notin> set bs" using lk(2) ns by auto
    ultimately have "v = bs" using ns append_Cons_eq_iff [of l as bs "cs @ u" v] by simp
    then have "m \<in> set (k # ds)" using uv bs by simp
    then show ?thesis using cs(1) by (auto simp: onward_def)
  qed
  moreover have "m \<noteq> hd ns" using lk(2) ns bs by (cases as) auto
  ultimately show ?thesis by (simp add: smooth_def rough_def keeps_def priv_def)
qed

text \<open>The steps of the consumer.\<close>

lemma rough_head:
  assumes ok: "shared_ok ns q" and m: "nextOf (lf_heap q) (hd ns) = Some m" and tail: "lf_tail q \<noteq> Some (hd ns)"
  defines "q' \<equiv> q\<lparr>lf_head := Some m\<rparr>"
  shows "rough X ns q (tl ns) q'" and "dead (tl ns) q' (hd ns)" and "removed (tl ns) q' (Some m)"
    and "\<exists>bs. ns = hd ns # m # bs"
proof -
  have lk: "linked (lf_heap q) ns" "distinct ns" using ok by (simp_all add: shared_ok_def)
  then obtain f xs where f: "ns = f # xs" by (cases ns) auto
  obtain bs where bs: "xs = m # bs" "linked (lf_heap q) xs"
    using linked_head [of "lf_heap q" f xs m] lk(1) m f by auto
  show "\<exists>bs. ns = hd ns # m # bs" using f bs by simp
  have dead: "dead (tl ns) q' k" if "dead ns q k" for k using that f by (simp add: dead_def q'_def)
  show dh: "dead (tl ns) q' (hd ns)" using ok m lk(2) f by (simp add: dead_def q'_def shared_ok_def)
  show "removed (tl ns) q' (Some m)" using ok f bs by (simp add: removed_def q'_def shared_ok_def)
  have "\<forall>k nd m. lf_heap q' k = Some nd \<and> nd_retired_next nd = Some m \<longrightarrow> dead (tl ns) q' m"
    using ok dead unfolding shared_ok_def by (simp add: q'_def)
  moreover have "\<forall>i m. lf_epoch_reclaim q' i = Some m \<longrightarrow> dead (tl ns) q' m"
    using ok dead unfolding shared_ok_def by (simp add: q'_def)
  moreover have "set (tl (tl ns)) \<subseteq> set (tl ns)" using f bs by auto
  ultimately have "shared_ok (tl ns) q'"
    using ok bs f tail unfolding shared_ok_def by (auto simp: q'_def split: option.splits)
  moreover have "evolves ns q (tl ns) q'" using m f by (simp add: evolves_def q'_def)
  moreover have "priv (tl ns) q' k \<and> dataOf (lf_heap q') k = dataOf (lf_heap q) k" if "priv ns q k" for k using that f by (simp add: priv_def q'_def)
  ultimately show "rough X ns q (tl ns) q'" by (simp add: rough_def)
qed

lemma rough_node:
  assumes ok: "shared_ok ns q" and nd: "lf_heap q n = Some nd" "nd_next nd' = nd_next nd"
    and data: "n \<in> set (tl ns) \<or> priv ns q n \<Longrightarrow> nd_data nd' = nd_data nd"
    and ret: "\<And>m. nd_retired_next nd' = Some m \<Longrightarrow> dead ns q m"
  shows "rough X ns q ns (setNode n nd' q)"
proof -
  have nxt: "nextOf (lf_heap (setNode n nd' q)) k = nextOf (lf_heap q) k" for k
    using nd by (simp add: setNode_def nextOf_def)
  have none: "lf_heap (setNode n nd' q) k = None \<longleftrightarrow> lf_heap q k = None" for k using nd by (simp add: setNode_def)
  have dat: "dataOf (lf_heap (setNode n nd' q)) k = dataOf (lf_heap q) k" if "k \<in> set (tl ns) \<or> priv ns q k" for k
    using data that nd by (cases "k = n") (auto simp: setNode_def dataOf_def)
  have flds: "lf_fresh (setNode n nd' q) = lf_fresh q" "lf_head (setNode n nd' q) = lf_head q"
      "lf_tail (setNode n nd' q) = lf_tail q" "lf_epoch_reclaim (setNode n nd' q) = lf_epoch_reclaim q"
      "lf_shutdown (setNode n nd' q) = lf_shutdown q" by (simp_all add: setNode_def)
  have dead: "dead ns (setNode n nd' q) k = dead ns q k" for k by (simp add: dead_def flds none nxt)
  have "linked (lf_heap (setNode n nd' q)) xs = linked (lf_heap q) xs" for xs
    by (induction "lf_heap q" xs rule: linked.induct) (simp_all add: nxt none)
  moreover have "\<forall>k x m. lf_heap (setNode n nd' q) k = Some x \<and> nd_retired_next x = Some m \<longrightarrow> dead ns q m"
    using ok ret unfolding shared_ok_def by (auto simp: setNode_def split: if_splits)
  ultimately have "shared_ok ns (setNode n nd' q)"
    using ok dat unfolding shared_ok_def flds dead none by simp
  moreover have "evolves ns q ns (setNode n nd' q)" by (simp add: evolves_def flds none nxt)
  moreover have "priv ns (setNode n nd' q) k \<and> dataOf (lf_heap (setNode n nd' q)) k = dataOf (lf_heap q) k" if "priv ns q k" for k
    using that dat by (simp add: priv_def flds none nxt)
  ultimately show ?thesis by (simp add: rough_def)
qed

lemma rough_retire:
  assumes ok: "shared_ok ns q" and f: "dead ns q f"
  shows "rough X ns q ns (q\<lparr>lf_epoch_reclaim := (lf_epoch_reclaim q)(index := Some f)\<rparr>)" (is "rough X ns q ns ?q")
proof -
  have dead: "dead ns ?q k = dead ns q k" for k by (simp add: dead_def)
  have "shared_ok ns ?q" using ok f unfolding shared_ok_def dead by (auto split: option.splits)
  then show ?thesis by (simp add: rough_def evolves_refl priv_def)
qed

end
