(* ===== verification/LockFreeQueueSim.thy ===== *)
theory LockFreeQueueSim
  imports LockFreeQueueInv
begin

text \<open>
  With one consumer, \<open>Dmn_BlockingQueue_Lf\<close> simulates the atomic FIFO queue: each atomic operation of
  a thread is no step of it, or the effect of the call of that thread.
\<close>

section \<open>The abstraction\<close>

fun collected :: "'a job \<Rightarrow> 'a list" where
  "collected (JPopMany wanted timed items) = items"
| "collected job = []"

definition itemAt :: "'a lfq \<Rightarrow> nat option \<Rightarrow> 'a" where
  "itemAt q p = the (dataOf (lf_heap q) (the p))"

fun pushView :: "'a lfq \<Rightarrow> 'a push_pc \<Rightarrow> 'a status" where
  "pushView q (PushAlloc v) = Pushing v"
| "pushView q (PushTail n) = Pushing (itemAt q (Some n))"
| "pushView q (PushUndo n) = Answered Threw"
| "pushView q (PushNext n l) = Pushing (itemAt q (Some n))"
| "pushView q (PushCheck n l nxt) = Pushing (itemAt q (Some n))"
| "pushView q (PushLink n l) = Pushing (itemAt q (Some n))"
| "pushView q (PushHelp n l m) = Pushing (itemAt q (Some n))"
| "pushView q (PushSwing n l) = Answered Pushed"
| "pushView q PushDone = Answered Pushed"

fun popView :: "'a lfq \<Rightarrow> 'a list \<Rightarrow> 'a pop_pc \<Rightarrow> 'a status" where
  "popView q items (PopCheck l first nxt) = (if nxt = None \<and> first = l then Nothing items else Popping items)"
| "popView q items (RetireLoad first nxt) = Popping (items @ [itemAt q nxt])"
| "popView q items (RetireStore first nxt retired) = Popping (items @ [itemAt q nxt])"
| "popView q items (RetireSwap first nxt retired) = Popping (items @ [itemAt q nxt])"
| "popView q items (PopUncount nxt) = Popping (items @ [itemAt q nxt])"
| "popView q items (PopTake nxt) = Popping (items @ [itemAt q nxt])"
| "popView q items (PopReturn res) = (case res of None \<Rightarrow> Nothing items | Some x \<Rightarrow> Popping (items @ [x]))"
| "popView q items pc = Popping items"

fun viewOf :: "'a lfq \<Rightarrow> 'a pc \<Rightarrow> 'a status" where
  "viewOf q (Ready answer) = Outside answer"
| "viewOf q Crashed = Stopped"
| "viewOf q (Enter job pc) = started job"
| "viewOf q (Push index pc) = pushView q pc"
| "viewOf q (Pop index job pc) = popView q (collected job) pc"
| "viewOf q (Leave index answer pc) = Answered answer"
| "viewOf q pc = Other"

definition itemsOf :: "nat list \<Rightarrow> 'a lfq \<Rightarrow> 'a list" where
  "itemsOf ns q = map (\<lambda>n. itemAt q (Some n)) (tl ns)"

definition queue_sim :: "nat \<Rightarrow> 'a lfsys \<Rightarrow> 'a fifo \<Rightarrow> bool" where
  "queue_sim c s a \<longleftrightarrow> (\<exists>ns. queue_ok c ns s \<and> ff_items a = itemsOf ns (sys_queue s)) \<and>
     ff_closed a = lf_shutdown (sys_queue s) \<and> ff_status a = (\<lambda>t. viewOf (sys_queue s) (sys_threads s t))"

section \<open>Correct steps\<close>

lemma refused_moves:
  assumes "ff_closed a" and "ff_status a t = started job" and "callable job" and "ff_items a = xs" and "c"
  shows "moves a t (Outside (Some (refused job q))) xs c"
  by (rule answer_moves [OF _ assms(4)])
    (use assms in \<open>cases job; simp add: refused_def fifo_other fifo_reject\<close>)+

text \<open>
  What has to be shown of a step of a thread: the invariant, and that the atomic queue can follow.
\<close>

definition follows :: "nat list \<Rightarrow> 'a lfq \<Rightarrow> 'a pc \<Rightarrow> nat list \<Rightarrow> 'a lfq \<Rightarrow> 'a pc \<Rightarrow> bool" where
  "follows ns q pc ns' q' pc' \<longleftrightarrow> (\<forall>a t. ff_items a = itemsOf ns q \<longrightarrow> ff_closed a = lf_shutdown q \<longrightarrow>
     ff_status a t = viewOf q pc \<longrightarrow> moves a t (viewOf q' pc') (itemsOf ns' q') (lf_shutdown q'))"

lemma followsI:
  "(\<And>a t. ff_items a = itemsOf ns q \<Longrightarrow> ff_closed a = lf_shutdown q \<Longrightarrow> ff_status a t = viewOf q pc \<Longrightarrow>
     moves a t (viewOf q' pc') (itemsOf ns' q') (lf_shutdown q')) \<Longrightarrow> follows ns q pc ns' q' pc'"
  by (simp add: follows_def)

definition correct :: "nat list \<Rightarrow> 'a lfq \<Rightarrow> 'a pc \<Rightarrow> nat list \<Rightarrow> 'a lfq \<Rightarrow> 'a pc \<Rightarrow> bool" where
  "correct ns q pc ns' q' pc' \<longleftrightarrow> rough (ownFresh pc) ns q ns' q' \<and> (\<not> popping pc \<longrightarrow> keeps ns q ns' q') \<and>
     local_ok ns' q' pc' \<and> (popping pc' \<longrightarrow> popping pc) \<and>
     (\<forall>n. freshOf pc' = Some n \<longrightarrow> priv ns' q' n \<and> (freshOf pc = Some n \<or> \<not> priv ns q n)) \<and>
     follows ns q pc ns' q' pc'"

lemma view_frame:
  assumes "rough X ns q ns' q'" and "popping pc \<Longrightarrow> keeps ns q ns' q'" and "local_ok ns q pc"
    and "\<And>n. freshOf pc = Some n \<Longrightarrow> priv ns q n \<and> n \<notin> X"
  shows "viewOf q' pc = viewOf q pc"
proof (cases pc)
  case (Push index p)
  have "dataOf (lf_heap q') n = dataOf (lf_heap q) n" if "freshOf pc = Some n" for n
    using assms(1,4) that by (simp add: rough_def)
  then show ?thesis using Push by (cases p) (simp_all add: itemAt_def)
next
  case (Pop index job p)
  then have "dataOf (lf_heap q') (hd ns) = dataOf (lf_heap q) (hd ns)" using assms(2) by (simp add: keeps_def)
  then show ?thesis using Pop assms(3) by (cases p) (simp_all add: itemAt_def removed_def)
qed simp_all

lemma correct_step:
  assumes sim: "queue_sim c s a" and ns: "queue_ok c ns s" "ff_items a = itemsOf ns (sys_queue s)"
    and step: "pcStep ok (sys_threads s t) (sys_queue s) = (pc', q')"
    and good: "correct ns (sys_queue s) (sys_threads s t) ns' q' pc'"
  shows "\<exists>a'. fifo_step\<^sup>*\<^sup>* a a' \<and> queue_sim c (runThread t ok s) a'"
proof -
  let ?q = "sys_queue s" and ?p = "sys_threads s"
  have run: "runThread t ok s = \<lparr>sys_queue = q', sys_threads = ?p(t := pc')\<rparr>"
    using step by (simp add: runThread_def)
  have g: "rough (ownFresh (?p t)) ns ?q ns' q'" "\<not> popping (?p t) \<Longrightarrow> keeps ns ?q ns' q'"
    "follows ns ?q (?p t) ns' q' pc'" using good by (simp_all add: correct_def)
  have th: "local_ok ns ?q (?p u)" "freshOf (?p u) = Some n \<Longrightarrow> priv ns ?q n"
      "freshOf (?p u) = Some n \<Longrightarrow> freshOf (?p v) = Some n \<Longrightarrow> v = u" "popping (?p u) \<Longrightarrow> u = c" for u v n
    using ns(1) unfolding queue_ok_def threads_ok_def by blast+
  have k: "t \<noteq> c \<Longrightarrow> keeps ns ?q ns' q'" using g(2) th(4) by blast
  have inv: "queue_ok c ns' (runThread t ok s)"
    unfolding run by (rule queue_ok_step [OF ns(1) g(1) k]) (use good in \<open>simp_all add: correct_def\<close>)
  have others: "viewOf q' (?p u) = viewOf ?q (?p u)" if "u \<noteq> t" for u
  proof (rule view_frame [OF g(1) _ th(1)])
    assume "popping (?p u)"
    then show "keeps ns ?q ns' q'" using th(4) that k by blast
  next
    fix n assume "freshOf (?p u) = Some n"
    then show "priv ns ?q n \<and> n \<notin> ownFresh (?p t)" using th(2,3) that by (auto simp: ownFresh_def)
  qed
  have st: "ff_closed a = lf_shutdown ?q" "ff_status a = (\<lambda>t. viewOf ?q (?p t))" using sim by (simp_all add: queue_sim_def)
  then obtain a' where a': "fifo_step\<^sup>*\<^sup>* a a'" "ff_items a' = itemsOf ns' q'" "ff_closed a' = lf_shutdown q'"
      "ff_status a' = (ff_status a)(t := viewOf q' pc')"
    using g(3) ns(2) unfolding follows_def moves_def by fastforce
  have "ff_status a' = (\<lambda>u. viewOf q' ((?p(t := pc')) u))"
    unfolding a'(4) st(2) using others by auto
  then have "queue_sim c (runThread t ok s) a'"
    using inv a'(2,3) unfolding queue_sim_def run by auto
  then show ?thesis using a'(1) by blast
qed

section \<open>The calls\<close>

lemma itemAt_cong: "lf_heap q' = lf_heap q \<Longrightarrow> itemAt q' p = itemAt q p"
  by (simp add: itemAt_def)

lemma viewOf_cong:
  assumes "lf_heap q' = lf_heap q"
  shows "viewOf q' pc = viewOf q pc"
proof (cases pc)
  case (Push index p)
  then show ?thesis by (cases p) (simp_all add: itemAt_cong [OF assms])
next
  case (Pop index job p)
  then show ?thesis by (cases p) (simp_all add: itemAt_cong [OF assms])
qed simp_all

lemma itemsOf_cong: "lf_heap q' = lf_heap q \<Longrightarrow> itemsOf ns q' = itemsOf ns q"
  by (simp add: itemsOf_def itemAt_def)

text \<open>A step that changes counters at most.\<close>

lemma correct_same:
  fixes q :: "'a lfq"
  assumes ok: "shared_ok ns q" and q': "lf_heap q' = lf_heap q" "lf_fresh q' = lf_fresh q" "lf_head q' = lf_head q"
      "lf_tail q' = lf_tail q" "lf_epoch_reclaim q' = lf_epoch_reclaim q" "lf_shutdown q' = lf_shutdown q"
    and pc': "local_ok ns q pc'" "popping pc' \<Longrightarrow> popping pc" "\<And>n. freshOf pc' = Some n \<Longrightarrow> freshOf pc = Some n \<and> priv ns q n"
    and moves: "\<And>a t. ff_items a = itemsOf ns q \<Longrightarrow> ff_closed a = lf_shutdown q \<Longrightarrow> ff_status a t = viewOf q pc \<Longrightarrow>
      moves a t (viewOf q pc') (itemsOf ns q) (lf_shutdown q)"
  shows "correct ns q pc ns q' pc'"
proof -
  have sm: "smooth (ownFresh pc) ns q ns q'" by (rule smooth_same [OF ok]) (use q' in simp_all)
  have ev: "evolves ns q ns q'" and k: "keeps ns q ns q'" using sm by (simp_all add: smooth_def rough_def)
  have "local_ok ns q' pc'" by (rule frame [OF ev k pc'(1)])
  moreover have "priv ns q' n" if "priv ns q n" for n using that q' by (simp add: priv_def)
  moreover have "follows ns q pc ns q' pc'"
  proof (rule followsI)
    fix a :: "'a fifo" and t assume a: "ff_items a = itemsOf ns q" "ff_closed a = lf_shutdown q" "ff_status a t = viewOf q pc"
    show "moves a t (viewOf q' pc') (itemsOf ns q') (lf_shutdown q')"
      using moves [OF a] a unfolding itemsOf_cong [OF q'(1)] viewOf_cong [OF q'(1)] q'(6) by simp
  qed
  ultimately show ?thesis using sm pc'(2,3) by (auto simp: correct_def smooth_def)
qed

lemma correct_stay:
  assumes "shared_ok ns q" and "lf_heap q' = lf_heap q" and "lf_fresh q' = lf_fresh q" and "lf_head q' = lf_head q"
    and "lf_tail q' = lf_tail q" and "lf_epoch_reclaim q' = lf_epoch_reclaim q" and "lf_shutdown q' = lf_shutdown q"
    and "local_ok ns q pc'" and "popping pc' \<Longrightarrow> popping pc"
    and "\<And>n. freshOf pc' = Some n \<Longrightarrow> freshOf pc = Some n \<and> priv ns q n" and "viewOf q pc' = viewOf q pc"
  shows "correct ns q pc ns q' pc'"
  by (rule correct_same [OF assms(1-10)]) (simp_all add: assms(11) moves_stay)

text \<open>A step that deletes a retired list.\<close>

lemma pruned_items:
  assumes ok: "shared_ok ns q" and p: "pruned ns q h" and q': "lf_heap q' = h"
  shows "itemsOf ns q' = itemsOf ns q"
proof -
  have "h n = lf_heap q n" if "n \<in> set (tl ns)" for n
    using p that list.set_sel(2) [of ns n] by (cases ns) (auto simp: pruned_def dead_def)
  then show ?thesis by (simp add: itemsOf_def itemAt_def dataOf_def q')
qed

lemma takeRetired_items:
  assumes ok: "shared_ok ns q"
  shows "itemsOf ns (takeRetired index q) = itemsOf ns q" and "lf_shutdown (takeRetired index q) = lf_shutdown q"
proof -
  show "itemsOf ns (takeRetired index q) = itemsOf ns q"
  proof (cases "freeRetiredNodeList (lf_fresh q) (lf_epoch_reclaim q index) (lf_heap q)")
    case (Some h)
    have "pruned ns q h"
      by (rule freeRetired_pruned [OF ok _ _ Some]) (use ok in \<open>auto simp: pruned_def shared_ok_def\<close>)
    then show ?thesis using pruned_items [OF ok] Some by (simp add: takeRetired_def)
  qed (simp add: takeRetired_def itemsOf_def itemAt_def)
qed (simp add: takeRetired_def Let_def split: option.split)

lemma correct_take:
  assumes ok: "shared_ok ns q" and pc': "local_ok ns (takeRetired index q) pc'" "popping pc' \<Longrightarrow> popping pc"
      "freshOf pc' = None" "viewOf (takeRetired index q) pc' = viewOf q pc"
  shows "correct ns q pc ns (takeRetired index q) pc'"
proof -
  have "follows ns q pc ns (takeRetired index q) pc'"
    by (rule followsI) (simp add: takeRetired_items [OF ok] pc'(4) moves_stay)
  then show ?thesis
    using smooth_takeRetired [OF ok, of "ownFresh pc" index] pc' by (simp add: correct_def smooth_def)
qed

lemma started_body:
  "viewOf q (startBody index job) = (case job of JPush v \<Rightarrow> Pushing v | JWaitForEmpty \<Rightarrow> Other | _ \<Rightarrow> Popping (collected job))"
  "started job = (case job of JPush v \<Rightarrow> Pushing v | JWaitForEmpty \<Rightarrow> Other | _ \<Rightarrow> Popping (collected job))"
  "popping (startBody index job) = isPop job" "freshOf (startBody index job) = None"
  "local_ok ns q (startBody index job)"
  by (cases job; simp)+

lemma enter_correct:
  assumes ok: "shared_ok ns q" and loc: "local_ok ns q (Enter job p)" and step: "enterStep job p q = (pc', q')"
  shows "correct ns q (Enter job p) ns q' pc'"
proof (cases p)
  case TestClosed
  show ?thesis
  proof (cases "lf_shutdown q")
    case True
    then show ?thesis using TestClosed step loc ok
      by (auto intro!: correct_same refused_moves)
  qed (use TestClosed step loc ok in \<open>auto intro!: correct_stay\<close>)
next
  case UndoCount
  then show ?thesis using step loc ok by (auto intro!: correct_same refused_moves)
next
  case (SweepTake epochIndex index ptr)
  show ?thesis
  proof (cases "lf_epoch_reclaim q index = Some ptr")
    case True
    then show ?thesis using SweepTake step loc by (auto intro!: correct_take [OF ok])
  qed (use SweepTake step loc ok in \<open>auto intro!: correct_stay\<close>)
next
  case (Register epochIndex)
  then show ?thesis using step ok
    by (auto intro!: correct_stay simp: started_body)
qed (use step loc ok in \<open>auto intro!: correct_stay simp: Let_def split: if_splits option.splits\<close>)

lemma leave_correct:
  assumes ok: "shared_ok ns q" and step: "leaveStep index answer p q = (pc', q')"
  shows "correct ns q (Leave index answer p) ns q' pc'"
proof (cases p)
  case (LeaveTake ptr)
  show ?thesis
  proof (cases "lf_epoch_reclaim q index = Some ptr")
    case True
    then show ?thesis using LeaveTake step by (auto intro!: correct_take [OF ok])
  qed (use LeaveTake step ok in \<open>auto intro!: correct_stay\<close>)
next
  case LeaveGate
  then show ?thesis using step ok
    by (auto intro!: correct_same moves_simple fifo_return)
qed (use step ok in \<open>auto intro!: correct_stay split: if_splits option.splits\<close>)

lemma crash_correct:
  assumes ok: "shared_ok ns q"
  shows "correct ns q pc ns (snd (crash q)) (fst (crash q))"
  by (rule correct_same [OF ok]) (simp_all add: crash_def, rule moves_simple [OF fifo_stop])

lemma control_correct:
  assumes ok: "shared_ok ns q" and loc: "local_ok ns q pc"
    and pc: "pc = DrainTest index \<or> pc = DrainRead index \<or> pc = ShutFlag \<or> pc = ShutTail \<or> pc = ShutWait"
    and step: "pcStep choice pc q = (pc', q')"
  shows "correct ns q pc ns q' pc'"
  using pc
proof (elim disjE)
  assume "pc = DrainRead index"
  then show ?thesis using step ok by (auto intro!: correct_same moves_simple fifo_other)
next
  assume pc: "pc = ShutFlag"
  then have q': "q' = q\<lparr>lf_shutdown := True\<rparr>" "pc' = ShutTail" using step by simp_all
  have "smooth (ownFresh pc) ns q ns q'" by (rule smooth_same [OF ok]) (simp_all add: q')
  moreover have "itemsOf ns q' = itemsOf ns q" by (rule itemsOf_cong) (simp add: q')
  ultimately show ?thesis using pc q'
    by (auto simp: correct_def smooth_def intro!: followsI moves_close)
next
  assume pc: "pc = ShutTail"
  then have q': "q' = q\<lparr>lf_tail := None\<rparr>" "pc' = ShutWait" using step by simp_all
  have "smooth (ownFresh pc) ns q ns q'" unfolding q' by (rule smooth_no_tail [OF ok]) (use loc pc in simp)
  moreover have "itemsOf ns q' = itemsOf ns q" by (rule itemsOf_cong) (simp add: q')
  ultimately show ?thesis using pc q' by (auto simp: correct_def smooth_def intro!: followsI moves_stay)
next
  assume pc: "pc = ShutWait"
  show ?thesis
  proof (cases "lf_inflight_count q > 0")
    case False
    then show ?thesis using pc step ok by (auto intro!: correct_same answer_moves fifo_shutdown)
  qed (use pc step ok in \<open>auto intro!: correct_stay\<close>)
qed (use step ok in \<open>auto intro!: correct_stay split: if_splits\<close>)

lemma list_alloc: "shared_ok ns q \<Longrightarrow> n \<in> set ns \<Longrightarrow> lf_heap q n \<noteq> None \<and> known ns q n"
  using linked_alloc by (auto simp: shared_ok_def known_def)

lemma correct_tail:
  assumes ok: "shared_ok ns q" and l: "known ns q l" "succOf q l m" and pc': "freshOf pc' = None \<or> freshOf pc' = freshOf pc"
    and own: "\<And>n. freshOf pc = Some n \<Longrightarrow> priv ns q n"
    and loc: "\<And>q'. local_ok ns q' pc'" "popping pc' \<Longrightarrow> popping pc" "\<And>q'. lf_heap q' = lf_heap q \<Longrightarrow> viewOf q' pc' = viewOf q pc"
  shows "correct ns q pc ns (if lf_tail q = Some l then q\<lparr>lf_tail := Some m\<rparr> else q) pc'"
proof -
  let ?q = "if lf_tail q = Some l then q\<lparr>lf_tail := Some m\<rparr> else q"
  have sm: "smooth (ownFresh pc) ns q ns ?q"
    using smooth_tail [OF ok l] smooth_same [OF ok, of q] by simp
  have heap: "lf_heap ?q = lf_heap q" "lf_shutdown ?q = lf_shutdown q" "lf_fresh ?q = lf_fresh q" by simp_all
  have "follows ns q pc ns ?q pc'"
    by (rule followsI, rule moves_stay) (use loc(3) [OF heap(1)] itemsOf_cong [OF heap(1)] heap(2) in simp_all)
  moreover have "priv ns ?q n" if "priv ns q n" for n using that heap by (simp add: priv_def)
  ultimately show ?thesis using sm loc(1,2) pc' own unfolding correct_def smooth_def by fastforce
qed

lemma push_correct:
  assumes ok: "shared_ok ns q" and loc: "push_ok ns q p" and own: "\<And>n. freshOf (Push index p) = Some n \<Longrightarrow> priv ns q n"
    and step: "pushStep index p q = (pc', q')"
  shows "\<exists>ns'. correct ns q (Push index p) ns' q' pc'"
proof (cases p)
  case (PushAlloc v)
  then have q': "q' = (setNode (lf_fresh q) (newNode (Some v)) q)\<lparr>lf_fresh := lf_fresh q + 1,
      lf_outstanding := lf_outstanding q + 1\<rparr>" "pc' = Push index (PushTail (lf_fresh q))" using step by simp_all
  note a = smooth_alloc [OF ok q'(1)]
  have "n \<noteq> lf_fresh q" if "n \<in> set (tl ns)" for n
    using ok that list.set_sel(2) [of ns n] by (cases ns) (auto simp: shared_ok_def)
  then have "itemsOf ns q' = itemsOf ns q" by (simp add: itemsOf_def itemAt_def dataOf_def q' setNode_def)
  moreover have "itemAt q' (Some (lf_fresh q)) = v"
    by (simp add: itemAt_def dataOf_def q' setNode_def newNode_def)
  moreover have "lf_shutdown q' = lf_shutdown q" by (simp add: q' setNode_def)
  ultimately have "follows ns q (Push index p) ns q' pc'"
    using PushAlloc q'(2) by (intro followsI moves_stay) simp_all
  then have "correct ns q (Push index p) ns q' pc'"
    using a(1) [of "ownFresh (Push index p)"] a(2,3) q'(2) by (simp add: correct_def smooth_def)
  then show ?thesis ..
next
  case (PushTail n)
  have "correct ns q (Push index p) ns q' pc'"
  proof (cases "lf_tail q")
    case None
    then have "lf_shutdown q" using ok by (simp add: shared_ok_def)
    then show ?thesis using None PushTail step own ok
      by (auto intro!: correct_same moves_simple fifo_reject)
  next
    case (Some l)
    then have "known ns q l" using ok list_alloc [OF ok] by (simp add: shared_ok_def)
    then show ?thesis using Some PushTail step own ok by (auto intro!: correct_stay)
  qed
  then show ?thesis ..
next
  case (PushUndo n)
  then have q': "q' = q\<lparr>lf_heap := (lf_heap q)(n := None), lf_outstanding := lf_outstanding q - 1\<rparr>"
      "pc' = Leave index Threw LeaveEpoch" and n: "priv ns q n" using step own by simp_all
  have "k \<noteq> n" if "k \<in> set (tl ns)" for k
    using n that list.set_sel(2) [of ns k] by (cases ns) (auto simp: priv_def)
  then have "itemsOf ns q' = itemsOf ns q" by (simp add: itemsOf_def itemAt_def dataOf_def q')
  then have "follows ns q (Push index p) ns q' pc'"
    using PushUndo q' by (intro followsI moves_stay) simp_all
  then have "correct ns q (Push index p) ns q' pc'"
    using smooth_unalloc [OF ok n] PushUndo q' by (simp add: correct_def smooth_def ownFresh_def)
  then show ?thesis ..
next
  case (PushNext n l)
  have "correct ns q (Push index p) ns q' pc'"
  proof (cases "lf_heap q l")
    case None
    then show ?thesis using crash_correct [OF ok, of "Push index p"] PushNext step by simp
  next
    case (Some nd)
    then have "push_ok ns q (PushCheck n l (nd_next nd))"
      using loc PushNext by (auto simp: succOf_def nextOf_def split: option.split)
    then show ?thesis using Some PushNext step own ok by (auto intro!: correct_stay)
  qed
  then show ?thesis ..
next
  case (PushCheck n l nxt)
  then have "correct ns q (Push index p) ns q' pc'"
    using step own loc ok by (cases "lf_tail q = Some l"; cases nxt) (auto intro!: correct_stay)
  then show ?thesis ..
next
  case (PushLink n l)
  have n: "priv ns q n" "known ns q l" using own loc PushLink by simp_all
  show ?thesis
  proof (cases "lf_heap q l")
    case None
    then show ?thesis using crash_correct [OF ok, of "Push index p"] PushLink step by auto
  next
    case (Some nd)
    show ?thesis
    proof (cases "nd_next nd")
      case None
      then have q': "q' = setNode l (nd\<lparr>nd_next := Some n\<rparr>) q" "pc' = Push index (PushSwing n l)"
        using Some PushLink step by simp_all
      note k = smooth_link [OF ok n Some None q'(1)]
      have "ns \<noteq> []" using ok linked_nonempty by (auto simp: shared_ok_def)
      then have items: "itemsOf (ns @ [n]) q' = itemsOf ns q @ [itemAt q (Some n)]"
        using k(4) by (simp add: itemsOf_def itemAt_def)
      have "lf_shutdown q' = lf_shutdown q" by (simp add: q' setNode_def)
      then have "follows ns q (Push index p) (ns @ [n]) q' pc'"
        using PushLink q'(2) by (intro followsI) (auto simp: items intro!: moves_enqueue)
      then have "correct ns q (Push index p) (ns @ [n]) q' pc'"
        using k(1-3) PushLink q'(2) by (simp add: correct_def smooth_def ownFresh_def)
      then show ?thesis ..
    next
      case (Some m)
      then have "correct ns q (Push index p) ns q' pc'"
        using \<open>lf_heap q l = Some nd\<close> PushLink step own ok by (auto intro!: correct_stay)
      then show ?thesis ..
    qed
  qed
next
  case (PushHelp n l m)
  then have "correct ns q (Push index p) ns q' pc'"
    using correct_tail [OF ok, of l m "Push index (PushTail n)" "Push index p"] loc step own
    by (auto simp: itemAt_def)
  then show ?thesis ..
next
  case (PushSwing n l)
  then have "correct ns q (Push index p) ns q' pc'"
    using correct_tail [OF ok, of l n "Push index PushDone" "Push index p"] loc step by simp
  then show ?thesis ..
next
  case PushDone
  then have "correct ns q (Push index p) ns q' pc'" using step ok by (auto intro!: correct_stay)
  then show ?thesis ..
qed

lemma pop_follows:
  assumes ok: "shared_ok ns q" and new: "rough {} ns q ns' q'" "local_ok ns' q' (Pop index job p')"
    and f: "follows ns q (Pop index job p) ns' q' (Pop index job p')"
  shows "correct ns q (Pop index job p) ns' q' (Pop index job p')"
  using assms by (simp add: correct_def ownFresh_def rough_def)

lemma node_items:
  assumes ok: "shared_ok ns q" and "n \<notin> set (tl ns)"
  shows "itemsOf ns (setNode n nd q) = itemsOf ns q"
proof -
  have "k \<noteq> n" if "k \<in> set (tl ns)" for k using that assms(2) by blast
  then show ?thesis by (simp add: itemsOf_def itemAt_def dataOf_def setNode_def)
qed

lemma list_head:
  assumes "shared_ok ns q"
  shows "lf_head q = Some (hd ns)" and "hd ns \<in> set ns" and "hd ns \<notin> set (tl ns)" and "ns = hd ns # tl ns"
    and "known ns q (hd ns)" and "lf_heap q (hd ns) \<noteq> None"
proof -
  show ns: "ns = hd ns # tl ns" and "lf_head q = Some (hd ns)" and "hd ns \<notin> set (tl ns)"
    using assms linked_nonempty [of "lf_heap q" ns] by (cases ns; auto simp: shared_ok_def)+
  show "hd ns \<in> set ns" by (subst ns) simp
  then show "known ns q (hd ns)" "lf_heap q (hd ns) \<noteq> None" using list_alloc [OF assms] by simp_all
qed

lemma pop_check_correct:
  assumes ok: "shared_ok ns q" and loc: "pop_ok ns q (PopCheck l first nxt)"
    and step: "popStep choice index job (PopCheck l first nxt) q = (pc', q')"
  shows "correct ns q (Pop index job (PopCheck l first nxt)) ns q' pc'"
proof -
  note h = list_head [OF ok]
  have first: "first = hd ns" "onward ns q l" using loc by simp_all
  show ?thesis
  proof (cases "first = l")
    case True
    show ?thesis
    proof (cases nxt)
      case None
      show ?thesis
      proof (cases "waits job")
        case True
        then show ?thesis using None \<open>first = l\<close> step ok h(1) first
          by (auto intro!: correct_same moves_simple fifo_retry)
      qed (use None True step ok h(1) first in \<open>auto intro!: correct_stay\<close>)
    next
      case (Some m)
      then have "succOf q l m" "known ns q l" using loc True h(5) by (auto simp: succOf_def)
      then show ?thesis using Some True step ok h(1) first by (auto intro!: correct_stay)
    qed
  next
    case False
    then obtain m where m: "nxt = Some m" "nextOf (lf_heap q) first = Some m" using loc by (auto split: option.splits)
    obtain as bs where ns: "ns = as @ l # bs" "case lf_tail q of None \<Rightarrow> True | Some t \<Rightarrow> t \<in> set (l # bs)"
      using first(2) unfolding onward_def by blast
    have "distinct ns" using ok by (simp add: shared_ok_def)
    then have "hd ns \<notin> set (l # bs)" using ns(1) False first(1) by (cases as) auto
    then have "lf_tail q \<noteq> Some first" using ns(2) first(1) by auto
    then show ?thesis using False m step ok h(1) first(1) by (auto intro!: correct_stay)
  qed
qed

lemma pop_next_correct:
  assumes ok: "shared_ok ns q" and loc: "pop_ok ns q (PopNext l first)"
    and step: "popStep choice index job (PopNext l first) q = (pc', q')"
  shows "correct ns q (Pop index job (PopNext l first)) ns q' pc'"
proof -
  note h = list_head [OF ok]
  have first: "first = Some (hd ns)" "onward ns q l" using loc by simp_all
  obtain nd where nd: "lf_heap q (hd ns) = Some nd" using h(6) by auto
  have lk: "linked (lf_heap q) ns" using ok by (simp add: shared_ok_def)
  have q': "q' = q" "pc' = Pop index job (PopCheck l (hd ns) (nd_next nd))"
    using step first(1) nd by (simp_all add: access_def)
  show ?thesis
  proof (cases "nd_next nd")
    case None
    then have "nextOf (lf_heap q) (hd ns) = None" using nd by (simp add: nextOf_def)
    then obtain f where "ns = [f]" using lk by (cases "(lf_heap q, ns)" rule: linked.cases) auto
    then have "itemsOf ns q = []" "l = hd ns" using first(2)
      by (auto simp: itemsOf_def onward_def Cons_eq_append_conv)
    then show ?thesis using None q' ok first(2) by (auto intro!: correct_same moves_simple fifo_nothing)
  next
    case (Some m)
    then have "nextOf (lf_heap q) (hd ns) = Some m" using nd by (simp add: nextOf_def)
    then show ?thesis using Some q' ok first(2) by (auto intro!: correct_stay)
  qed
qed

lemma pop_swap_correct:
  assumes ok: "shared_ok ns q" and loc: "pop_ok ns q (PopSwap first nxt)"
    and step: "popStep choice index job (PopSwap first nxt) q = (pc', q')"
  shows "\<exists>ns'. correct ns q (Pop index job (PopSwap first nxt)) ns' q' pc'"
proof (cases choice)
  case True
  obtain m where m: "nxt = Some m" "nextOf (lf_heap q) (hd ns) = Some m" "first = hd ns" "lf_tail q \<noteq> Some (hd ns)"
    using loc by auto
  have q': "q' = q\<lparr>lf_head := Some m\<rparr>" "pc' = Pop index job (RetireLoad first nxt)"
    using step True m list_head(1) [OF ok] by simp_all
  note r = rough_head [OF ok m(2,4)]
  obtain bs where ns: "ns = hd ns # m # bs" using r(4) by blast
  then have tl: "tl ns = m # bs" by (metis list.sel(3))
  then have items: "itemsOf ns q = itemAt q (Some m) # itemsOf (tl ns) q'"
    by (simp add: itemsOf_def itemAt_def q')
  have "follows ns q (Pop index job (PopSwap first nxt)) (tl ns) q' pc'"
    using items by (intro followsI) (simp add: q' m itemAt_def moves_dequeue)
  then have "correct ns q (Pop index job (PopSwap first nxt)) (tl ns) q' pc'"
    using r(1) [of "{}"] r(2,3) pop_follows [OF ok, of "tl ns" q'] unfolding q' by (simp add: m)
  then show ?thesis ..
next
  case False
  then have "correct ns q (Pop index job (PopSwap first nxt)) ns q' pc'"
    using step ok by (auto intro!: correct_stay)
  then show ?thesis ..
qed

lemma retire_store_correct:
  assumes ok: "shared_ok ns q" and loc: "pop_ok ns q (RetireStore first nxt retired)"
    and step: "popStep choice index job (RetireStore first nxt retired) q = (pc', q')"
  shows "correct ns q (Pop index job (RetireStore first nxt retired)) ns q' pc'"
proof (cases "lf_heap q first")
  case None
  then show ?thesis using crash_correct [OF ok, of "Pop index job (RetireStore first nxt retired)"] step by auto
next
  case (Some nd)
  then have q': "q' = setNode first (nd\<lparr>nd_retired_next := retired\<rparr>) q"
      "pc' = Pop index job (RetireSwap first nxt retired)" using step by simp_all
  have dead: "dead ns q first" "removed ns q nxt" and ret: "\<And>m. retired = Some m \<Longrightarrow> dead ns q m" using loc by auto
  have r: "rough {} ns q ns q'" unfolding q' by (rule rough_node [OF ok Some]) (use ret in simp_all)
  have "first \<noteq> hd ns" "first \<notin> set (tl ns)" using dead(1) list_head(2,4) [OF ok] unfolding dead_def
    by (metis list.set_intros)+
  then have eq: "itemsOf ns q' = itemsOf ns q" "dataOf (lf_heap q') (hd ns) = dataOf (lf_heap q) (hd ns)"
    using node_items [OF ok] by (simp_all add: q' setNode_def dataOf_def)
  have "dead ns q' first" using evolves_dead [OF _ dead(1)] r by (simp add: rough_def)
  moreover have "removed ns q' nxt" using dead(2) eq(2) by (simp add: removed_def)
  moreover have "lf_shutdown q' = lf_shutdown q" by (simp add: q' setNode_def)
  ultimately show ?thesis
    using dead(2) eq unfolding q'(2)
    by (intro pop_follows [OF ok r]) (auto intro!: followsI moves_stay simp: itemAt_def removed_def)
qed

lemma retire_swap_correct:
  assumes ok: "shared_ok ns q" and loc: "pop_ok ns q (RetireSwap first nxt retired)"
    and step: "popStep choice index job (RetireSwap first nxt retired) q = (pc', q')"
  shows "correct ns q (Pop index job (RetireSwap first nxt retired)) ns q' pc'"
proof (cases "lf_epoch_reclaim q index = retired")
  case True
  then have q': "q' = q\<lparr>lf_epoch_reclaim := (lf_epoch_reclaim q)(index := Some first)\<rparr>"
      "pc' = Pop index job (PopUncount nxt)" using step by simp_all
  have "rough {} ns q ns q'" unfolding q' by (rule rough_retire [OF ok]) (use loc in simp)
  moreover have "itemsOf ns q' = itemsOf ns q" by (rule itemsOf_cong) (simp add: q')
  ultimately show ?thesis using loc unfolding q'(2)
    by (intro pop_follows [OF ok]) (auto intro!: followsI moves_stay simp: q' itemAt_def removed_def)
next
  case False
  then show ?thesis using step ok loc by (auto intro!: correct_stay)
qed

lemma pop_take_correct:
  assumes ok: "shared_ok ns q" and loc: "pop_ok ns q (PopTake nxt)"
    and step: "popStep choice index job (PopTake nxt) q = (pc', q')"
  shows "correct ns q (Pop index job (PopTake nxt)) ns q' pc'"
proof -
  note h = list_head [OF ok]
  have nxt: "nxt = Some (hd ns)" "dataOf (lf_heap q) (hd ns) \<noteq> None" using loc by (simp_all add: removed_def)
  obtain nd x where nd: "lf_heap q (hd ns) = Some nd" "nd_data nd = Some x" using nxt(2) by (auto simp: dataOf_def split: bind_splits)
  have q': "q' = setNode (hd ns) (nd\<lparr>nd_data := None\<rparr>) q" "pc' = Pop index job (PopReturn (Some x))"
    using step nxt(1) nd by (simp_all add: access_def)
  have ret: "dead ns q m" if "nd_retired_next nd = Some m" for m using ok nd(1) that unfolding shared_ok_def by blast
  have r: "rough {} ns q ns q'" unfolding q'
    by (rule rough_node [OF ok nd(1)]) (use h(2,3) ret in \<open>auto simp: priv_def\<close>)
  have "itemsOf ns q' = itemsOf ns q" unfolding q' by (rule node_items [OF ok h(3)])
  moreover have "lf_shutdown q' = lf_shutdown q" by (simp add: q' setNode_def)
  moreover have "itemAt q nxt = x" using nd nxt(1) by (simp add: itemAt_def dataOf_def)
  ultimately show ?thesis unfolding q'(2)
    by (intro pop_follows [OF ok r]) (auto intro!: followsI moves_stay)
qed

lemma pop_return_correct:
  assumes ok: "shared_ok ns q" and step: "popStep choice index job (PopReturn res) q = (pc', q')"
  shows "correct ns q (Pop index job (PopReturn res)) ns q' pc'"
proof (cases "\<exists>wanted timed items. job = JPopMany wanted timed items")
  case True
  then obtain wanted timed items where job: "job = JPopMany wanted timed items" by blast
  let ?items = "case res of None \<Rightarrow> items | Some x \<Rightarrow> items @ [x]"
  show ?thesis
  proof (cases "\<not> lf_shutdown q \<and> length ?items < wanted \<and> (\<not> timed \<or> choice)")
    case True
    then have "pc' = Pop index (JPopMany wanted timed ?items) PopTail" "q' = q"
      using job step by (simp_all add: Let_def)
    note p = this
    show ?thesis
    proof (cases res)
      case None
      then show ?thesis using p job ok by (auto intro!: correct_same moves_simple fifo_retry)
    next
      case (Some x)
      then show ?thesis using p job ok by (auto intro!: correct_stay)
    qed
  next
    case False
    then have "pc' = Leave index (Items ?items) LeaveEpoch" "q' = q"
      using job step by (auto simp: Let_def)
    then show ?thesis using job ok by (cases res) (auto intro!: correct_same moves_simple fifo_items)
  qed
next
  case False
  then have "pc' = Leave index (Item res) LeaveEpoch" "q' = q" "collected job = []"
    using step by (cases job; simp)+
  then show ?thesis using ok
    by (cases res) (auto intro!: correct_same moves_simple fifo_item fifo_no_item)
qed

lemma pop_correct:
  assumes ok: "shared_ok ns q" and loc: "pop_ok ns q p" and step: "popStep choice index job p q = (pc', q')"
  shows "\<exists>ns'. correct ns q (Pop index job p) ns' q' pc'"
proof (cases p)
  case PopTail
  have "correct ns q (Pop index job p) ns q' pc'"
  proof (cases "lf_tail q")
    case None
    then have "lf_shutdown q" using ok by (simp add: shared_ok_def)
    then show ?thesis using None PopTail step ok by (auto intro!: correct_same moves_simple fifo_nothing)
  next
    case (Some l)
    then have "l \<in> set ns" using ok by (simp add: shared_ok_def)
    then have "onward ns q l" using split_list [of l ns] Some by (auto simp: onward_def)
    then show ?thesis using Some PopTail step ok by (auto intro!: correct_stay)
  qed
  then show ?thesis ..
next
  case (PopHead l)
  then have "correct ns q (Pop index job p) ns q' pc'"
    using step ok loc list_head(1) [OF ok] by (auto intro!: correct_stay)
  then show ?thesis ..
next
  case (PopHelp l m)
  then have "correct ns q (Pop index job p) ns q' pc'"
    using correct_tail [OF ok, of l m "Pop index job PopTail" "Pop index job p"] loc step by simp
  then show ?thesis ..
next
  case (RetireLoad first nxt)
  have "\<And>m. lf_epoch_reclaim q index = Some m \<Longrightarrow> dead ns q m" using ok by (simp add: shared_ok_def)
  then have "correct ns q (Pop index job p) ns q' pc'"
    using RetireLoad step ok loc by (auto intro!: correct_stay split: option.split)
  then show ?thesis ..
next
  case (PopWait l)
  then have "correct ns q (Pop index job p) ns q' pc'" using step ok by (auto intro!: correct_stay)
  then show ?thesis ..
next
  case (PopUncount nxt)
  then have "correct ns q (Pop index job p) ns q' pc'" using step ok loc by (auto intro!: correct_stay)
  then show ?thesis ..
next
  case (PopNext l first)
  show ?thesis using pop_next_correct [OF ok] loc step unfolding PopNext by blast
next
  case (PopCheck l first nxt)
  show ?thesis using pop_check_correct [OF ok] loc step unfolding PopCheck by blast
next
  case (PopSwap first nxt)
  show ?thesis using pop_swap_correct [OF ok] loc step unfolding PopSwap by blast
next
  case (RetireStore first nxt retired)
  show ?thesis using retire_store_correct [OF ok] loc step unfolding RetireStore by blast
next
  case (RetireSwap first nxt retired)
  show ?thesis using retire_swap_correct [OF ok] loc step unfolding RetireSwap by blast
next
  case (PopTake nxt)
  show ?thesis using pop_take_correct [OF ok] loc step unfolding PopTake by blast
next
  case (PopReturn res)
  show ?thesis using pop_return_correct [OF ok] step unfolding PopReturn by blast
qed

section \<open>The simulation\<close>

lemma pc_correct:
  assumes ok: "queue_ok c ns s" and step: "pcStep choice (sys_threads s t) (sys_queue s) = (pc', q')"
  shows "\<exists>ns'. correct ns (sys_queue s) (sys_threads s t) ns' q' pc'"
proof -
  have sh: "shared_ok ns (sys_queue s)" and loc: "local_ok ns (sys_queue s) (sys_threads s t)"
    and own: "\<And>n. freshOf (sys_threads s t) = Some n \<Longrightarrow> priv ns (sys_queue s) n"
    using ok by (auto simp: queue_ok_def threads_ok_def)
  show ?thesis
  proof (cases "sys_threads s t")
    case (Enter job p)
    show ?thesis using enter_correct [OF sh loc [unfolded Enter]] step unfolding Enter by auto
  next
    case (Push index p)
    show ?thesis using push_correct [OF sh _ own] loc step unfolding Push by auto
  next
    case (Pop index job p)
    show ?thesis using pop_correct [OF sh] loc step unfolding Pop by auto
  next
    case (Leave index answer p)
    show ?thesis using leave_correct [OF sh, of index answer p pc' q'] step unfolding Leave by auto
  next
    case (Ready answer)
    then show ?thesis using step sh loc own by (auto intro!: exI [of _ ns] correct_stay)
  next
    case Crashed
    then show ?thesis using step sh loc own by (auto intro!: exI [of _ ns] correct_stay)
  qed (use control_correct [OF sh loc] step in blast)+
qed

lemma start_sim:
  assumes sim: "queue_sim c s a" and ready: "sys_threads s t = Ready answer"
    and pc: "local_ok ns (sys_queue s) pc" "freshOf pc = None" "popping pc \<Longrightarrow> t = c"
    and ns: "queue_ok c ns s" "ff_items a = itemsOf ns (sys_queue s)"
    and step: "fifo_step a (setStatus t (viewOf (sys_queue s) pc) a)"
  shows "\<exists>a'. fifo_step\<^sup>*\<^sup>* a a' \<and> queue_sim c (startThread t pc s) a'"
proof -
  have "queue_ok c ns (startThread t pc s)"
    using ns(1) pc unfolding queue_ok_def threads_ok_def startThread_def by (auto split: if_splits)
  then have "queue_sim c (startThread t pc s) (setStatus t (viewOf (sys_queue s) pc) a)"
    using sim ns(2) unfolding queue_sim_def by (auto simp: startThread_def setStatus_def)
  then show ?thesis using step by blast
qed

lemma newSystem_ok: "queue_ok c [0] newSystem"
  by (auto simp: queue_ok_def newSystem_def newQueue_def shared_ok_def threads_ok_def newNode_def nextOf_def)

lemma queue_sim_init:
  "queue_init s \<Longrightarrow> \<exists>a. fifo_init a \<and> queue_sim c s a"
  using newSystem_ok [of c]
  by (auto simp: queue_init_def fifo_init_def queue_sim_def itemsOf_def newSystem_def newQueue_def intro!: exI [of _ "[0]"])

lemma queue_sim_step:
  assumes sim: "queue_sim c s a" and step: "queue_step (\<lambda>t. t = c) s s'"
  shows "\<exists>a'. fifo_step\<^sup>*\<^sup>* a a' \<and> queue_sim c s' a'"
proof -
  obtain ns where ns: "queue_ok c ns s" "ff_items a = itemsOf ns (sys_queue s)"
    using sim by (auto simp: queue_sim_def)
  have status: "ff_status a t = viewOf (sys_queue s) (sys_threads s t)" for t using sim by (simp add: queue_sim_def)
  from step show ?thesis
  proof cases
    case (queue_run t ok)
    obtain pc' q' where p: "pcStep ok (sys_threads s t) (sys_queue s) = (pc', q')" by fastforce
    obtain ns' where "correct ns (sys_queue s) (sys_threads s t) ns' q' pc'" using pc_correct [OF ns(1) p] by blast
    from correct_step [OF sim ns p this] show ?thesis by (simp add: queue_run)
  next
    case (queue_call t answer job)
    have "fifo_step a (setStatus t (started job) a)"
      by (rule fifo_call [of _ _ answer]) (use queue_call status in simp_all)
    then show ?thesis unfolding queue_call(1)
      by (intro start_sim [OF sim queue_call(2) _ _ _ ns]) (use queue_call in simp_all)
  next
    case (queue_shutdown t answer)
    have "fifo_step a (setStatus t Other a)"
      by (rule fifo_control [of _ _ answer]) (use queue_shutdown status in simp)
    then show ?thesis unfolding queue_shutdown(1)
      by (intro start_sim [OF sim queue_shutdown(2) _ _ _ ns]) simp_all
  qed
qed

interpretation single: forward_simulation queue_init "queue_step (\<lambda>t. t = c)" fifo_init fifo_step "queue_sim c"
  for c :: nat
  by unfold_locales (blast intro: queue_sim_init queue_sim_step)+

end
