(* ===== verification/LockFreeQueueProps.thy ===== *)
theory LockFreeQueueProps
  imports LockFreeQueueSim
begin

text \<open>
  What \<open>Dmn_BlockingQueue_Lf\<close> guarantees and what it does not: FIFO order for one consumer, no
  access to a deleted node while the epoch has not advanced, a null head with two consumers, and the
  use of a deleted node once the epoch has moved on.
\<close>

section \<open>Contents\<close>

lemma nodesFrom_linked:
  "linked h ns \<Longrightarrow> length ns \<le> fuel \<Longrightarrow> nodesFrom fuel h (Some (hd ns)) = ns"
proof (induction h ns arbitrary: fuel rule: linked.induct)
  case (2 h n)
  then obtain k where "fuel = Suc k" by (cases fuel) auto
  then show ?case using 2 by (cases k) (auto simp: nextOf_def split: bind_splits option.splits)
next
  case (3 h n m ns)
  then obtain k where k: "fuel = Suc k" by (cases fuel) auto
  from 3(2) obtain nd where "h n = Some nd" "nd_next nd = Some m" by (auto simp: nextOf_def split: bind_splits)
  then show ?case using 3 k by simp
qed simp

lemma list_bounded: "distinct ns \<Longrightarrow> \<forall>n\<in>set ns. n < k \<Longrightarrow> length ns \<le> k"
  using card_mono [of "{..<k}" "set ns"] by (auto simp: distinct_card)

lemma contents_items:
  assumes ok: "shared_ok ns q"
  shows "contents q = itemsOf ns q"
proof -
  have "nodesFrom (lf_fresh q) (lf_heap q) (lf_head q) = ns"
    using ok nodesFrom_linked [of "lf_heap q" ns "lf_fresh q"] list_bounded [of ns "lf_fresh q"]
    by (simp add: shared_ok_def)
  moreover have "List.map_filter (\<lambda>n. Option.bind (lf_heap q n) nd_data) xs = map (\<lambda>n. itemAt q (Some n)) xs"
    if "\<And>n. n \<in> set xs \<Longrightarrow> dataOf (lf_heap q) n \<noteq> None" for xs
    using that by (induction xs) (auto simp: List.map_filter_def itemAt_def dataOf_def)
  ultimately show ?thesis using ok by (simp add: contents_def itemsOf_def shared_ok_def)
qed

section \<open>One consumer\<close>

text \<open>
  C4: with one consumer and any number of producers, every interleaving of the atomic operations looks
  like an atomic FIFO queue in which each call takes effect at one moment: the answers of the calls
  are answers of that queue, its items are the values behind the head, an item leaves once, and
  items leave in the order in which they entered.
\<close>

theorem single_consumer_fifo:
  assumes "reachable queue_init (queue_step (\<lambda>t. t = c)) s"
  shows "\<exists>a. reachable fifo_init fifo_step a \<and> ff_items a = contents (sys_queue s) \<and>
    ff_closed a = lf_shutdown (sys_queue s) \<and> ff_status a = (\<lambda>t. viewOf (sys_queue s) (sys_threads s t)) \<and>
    ff_in a = ff_out a @ contents (sys_queue s)"
proof -
  obtain a where a: "reachable fifo_init fifo_step a" "queue_sim c s a" using single.simulated [OF assms] by blast
  then obtain ns where ns: "shared_ok ns (sys_queue s)" "ff_items a = itemsOf ns (sys_queue s)"
    by (auto simp: queue_sim_def queue_ok_def)
  then have items: "ff_items a = contents (sys_queue s)" using contents_items by metis
  moreover have "fifo_ok a" using fifo.reachable_inv [OF a(1)] .
  ultimately show ?thesis using a by (auto simp: queue_sim_def fifo_ok_def)
qed

lemma act_step: "act consumer x s = Some s' \<Longrightarrow> queue_step consumer s s'"
  by (cases x) (auto split: pc.splits if_splits intro: queue_run queue_call)

lemma acts_reachable:
  "reachable queue_init (queue_step consumer) s \<Longrightarrow> acts consumer xs s = Some s' \<Longrightarrow>
    reachable queue_init (queue_step consumer) s'"
proof (induction xs arbitrary: s)
  case (Cons x xs)
  then obtain s1 where s1: "act consumer x s = Some s1" "acts consumer xs s1 = Some s'" by (auto split: option.splits)
  from reach_step [OF Cons.prems(1) act_step [OF s1(1)]] s1(2) show ?case by (rule Cons.IH)
qed simp

lemma newSystem_reachable: "reachable queue_init (queue_step consumer) newSystem"
  by (rule reach_init) (simp add: queue_init_def)

definition endOf :: "(nat \<Rightarrow> bool) \<Rightarrow> nat action list \<Rightarrow> nat lfsys \<Rightarrow> nat lfsys" where
  "endOf consumer xs s = (case acts consumer xs s of None \<Rightarrow> s | Some s' \<Rightarrow> s')"

lemma endOf_reachable:
  "reachable queue_init (queue_step consumer) s \<Longrightarrow> reachable queue_init (queue_step consumer) (endOf consumer xs s)"
  by (auto simp: endOf_def split: option.split intro: acts_reachable)

text \<open>A push that has linked its node and not answered yet, seen by a batch pop.\<close>

definition overlapping :: "nat action list" where
  "overlapping = Call 1 (JPush 7) # replicate 11 (Run 1) @ Call 0 (JPopMany 2 True []) # replicate 20 (Run 0)"

lemma single_consumer_fifo_witness:
  "\<exists>a :: nat fifo. reachable fifo_init fifo_step a \<and> ff_status a 0 = Popping [7] \<and> ff_status a 1 = Answered Pushed \<and>
     ff_in a = ff_out a"
proof -
  let ?s = "endOf (\<lambda>t. t = 0) overlapping newSystem"
  have "contents (sys_queue ?s) = []" "viewOf (sys_queue ?s) (sys_threads ?s 0) = Popping [7]"
      "viewOf (sys_queue ?s) (sys_threads ?s 1) = Answered Pushed" by code_simp+
  then show ?thesis using single_consumer_fifo [OF endOf_reachable [OF newSystem_reachable, of "\<lambda>t. t = 0" overlapping]] by fastforce
qed

section \<open>Two consumers\<close>

text \<open>
  \<open>popOptional\<close> reads the tail before the head.  Between the two, another consumer removes the tail
  node it read, and a push links the next node without moving the tail yet.
\<close>

definition overtaking :: "nat action list" where
  "overtaking = Call 0 (JPop False) # replicate 7 (Run 0) @ Call 1 (JPush 10) # replicate 15 (Run 1) @
     Call 2 (JPop False) # replicate 19 (Run 2) @ Call 1 (JPush 20) # replicate 11 (Run 1) @
     replicate 15 (Run 0) @ Call 2 (JPop False) # replicate 15 (Run 2)"

text \<open>
  Two consumers break the queue: in a reachable state the head has passed the tail, and the next
  pop of the empty queue stores a null head, counts the items below zero, and reads through the null
  pointer.
\<close>

theorem two_consumers_null_head:
  "\<exists>s :: nat lfsys. reachable queue_init (queue_step (\<lambda>_. True)) s \<and> contents (sys_queue s) = [] \<and>
     lf_head (sys_queue s) = None \<and> lf_tail (sys_queue s) = Some 1 \<and> lf_outstanding (sys_queue s) = -1 \<and>
     \<not> lf_fault (sys_queue s) \<and> sys_threads (runThread 2 True s) 2 = Crashed \<and>
     lf_fault (sys_queue (runThread 2 True s))"
proof (intro exI conjI)
  let ?s = "endOf (\<lambda>_. True) overtaking newSystem"
  show "reachable queue_init (queue_step (\<lambda>_. True)) ?s" by (rule endOf_reachable [OF newSystem_reachable])
  show "contents (sys_queue ?s) = []" "lf_head (sys_queue ?s) = None" "lf_tail (sys_queue ?s) = Some 1"
      "lf_outstanding (sys_queue ?s) = -1" "\<not> lf_fault (sys_queue ?s)"
      "sys_threads (runThread 2 True ?s) 2 = Crashed" "lf_fault (sys_queue (runThread 2 True ?s))"
    by code_simp+
qed

section \<open>A deleted node\<close>

text \<open>A thread that polls an empty queue with \<open>waitForEmpty\<close> only counts calls.\<close>

definition pollActs :: "nat action list" where
  "pollActs = Call 2 JWaitForEmpty # replicate 10 (Run 2)"

definition bump :: "u64 \<Rightarrow> 'a lfsys \<Rightarrow> 'a lfsys" where
  "bump n s = s\<lparr>sys_queue := (sys_queue s)\<lparr>lf_in_flight_total := lf_in_flight_total (sys_queue s) + n\<rparr>,
     sys_threads := (sys_threads s)(2 := Ready (Some (PushCount (lf_total_push (sys_queue s)))))\<rparr>"

text \<open>The epoch does not advance at a call, and another ticket is open in it.\<close>

definition quietAt :: "u64 \<Rightarrow> 'a lfsys \<Rightarrow> bool" where
  "quietAt n s \<longleftrightarrow> (let q = sys_queue s; k = lf_in_flight_total q + n; i = calc_epoch_index (ep_id (lf_epoch q))
     in \<not> (k - ep_in_flight_total (lf_epoch q) \<ge> epochTimeScale \<or> k < ep_in_flight_total (lf_epoch q)) \<and>
        \<not> lf_shutdown q \<and> lf_outstanding q = 0 \<and> lf_epoch_in_flight q i \<noteq> 0 \<and>
        (case sys_threads s 2 of Ready _ \<Rightarrow> True | _ \<Rightarrow> False))"

lemma runThread_eq:
  "runThread t ok \<lparr>sys_queue = q, sys_threads = p\<rparr> =
     \<lparr>sys_queue = snd (pcStep ok (p t) q), sys_threads = p(t := fst (pcStep ok (p t) q))\<rparr>"
  by (simp add: runThread_def split: prod.split)

lemma acts_Run: "acts consumer (Run t # xs) s = acts consumer xs (runThread t True s)"
  by simp

lemma poll:
  assumes "quietAt 0 s"
  shows "acts consumer pollActs s = Some (bump 1 s)"
proof -
  obtain q p where s: "s = \<lparr>sys_queue = q, sys_threads = p\<rparr>" by (cases s) simp
  obtain answer where ready: "p 2 = Ready answer" using assms by (auto simp: quietAt_def s Let_def split: pc.splits)
  have q: "\<not> epochTimeScale \<le> lf_in_flight_total q - ep_in_flight_total (lf_epoch q)"
      "\<not> lf_in_flight_total q < ep_in_flight_total (lf_epoch q)" "\<not> lf_shutdown q" "lf_outstanding q = 0"
      "lf_epoch_in_flight q (calc_epoch_index (ep_id (lf_epoch q))) \<noteq> 0"
    using assms by (simp_all add: quietAt_def s Let_def)
  have id: "(lf_epoch_in_flight q)(i := lf_epoch_in_flight q i) = lf_epoch_in_flight q" for i by simp
  have "acts consumer pollActs s = Some (runThread 2 True (runThread 2 True (runThread 2 True (runThread 2 True
      (runThread 2 True (runThread 2 True (runThread 2 True (runThread 2 True (runThread 2 True (runThread 2 True
        (startThread 2 (Enter JWaitForEmpty TestClosed) s)))))))))))"
    using ready by (simp add: pollActs_def s numeral_eq_Suc)
  also have "\<dots> = Some (bump 1 s)"
    using q by (simp add: s startThread_def runThread_eq Let_def bump_def)
  finally show ?thesis .
qed

lemma small_words:
  assumes "e \<le> t" and "t < e + 500" and "t < 2 ^ 64"
  shows "\<not> (epochTimeScale \<le> of_nat t - of_nat e \<or> (of_nat t :: u64) < of_nat e)"
proof -
  have "(of_nat t :: u64) - of_nat e = of_nat (t - e)" using assms(1) by (simp add: of_nat_diff)
  moreover have "unat (of_nat k :: u64) = k" if "k < 2 ^ 64" for k
    using that by (simp add: unat_of_nat take_bit_nat_eq_self)
  then have "unat (of_nat (t - e) :: u64) = t - e" using assms(3) by (simp del: of_nat_diff)
  ultimately have "\<not> epochTimeScale \<le> (of_nat t - of_nat e :: u64)"
    using assms(1,2) by (simp add: word_le_nat_alt epochTimeScale_def)
  moreover have "unat (of_nat t :: u64) = t" "unat (of_nat e :: u64) = e"
    using assms by (simp_all add: unat_of_nat take_bit_nat_eq_self)
  ultimately show ?thesis using assms(1) by (simp add: word_less_nat_alt)
qed

lemma quietAt_later:
  assumes "quietAt 0 s" and "lf_in_flight_total (sys_queue s) = of_nat t"
    and "ep_in_flight_total (lf_epoch (sys_queue s)) = of_nat e" and "e \<le> t" and "t + k < e + 500" and "t + k < 2 ^ 64"
  shows "quietAt (of_nat k) s"
  using assms(1) small_words [of e "t + k"] assms(4-6)
  by (simp add: quietAt_def Let_def assms(2,3))

lemma bump_more: "bump 1 (bump n s) = bump (n + 1) s" "quietAt 0 s \<Longrightarrow> quietAt n s \<Longrightarrow> quietAt 0 (bump n s)"
  by (simp_all add: bump_def quietAt_def Let_def)

lemma bump_reachable:
  fixes s :: "nat lfsys"
  assumes "reachable queue_init (queue_step consumer) s" and "\<And>k. k \<le> n \<Longrightarrow> quietAt (of_nat k) s"
  shows "reachable queue_init (queue_step consumer) (bump (of_nat (Suc n)) s)"
  using assms(2)
proof (induction n)
  case 0
  from acts_reachable [OF assms(1) poll] 0 [of 0] show ?case by simp
next
  case (Suc n)
  have "quietAt 0 (bump (of_nat (Suc n)) s)"
    using Suc.prems [of 0] Suc.prems [of "Suc n"] bump_more(2) by simp
  from acts_reachable [OF _ poll [OF this]] Suc show ?case
    using bump_more(1) [of "of_nat (Suc n)" s] by (simp add: add.commute)
qed

text \<open>A consumer waits in a pop while the queue is polled, until the index of the epoch has changed.\<close>

definition waiting :: "nat lfsys" where
  "waiting = endOf (\<lambda>t. t = 0) (Call 0 (JPop True) # replicate 10 (Run 0)) newSystem"

definition firstEpoch :: "nat lfsys" where
  "firstEpoch = endOf (\<lambda>t. t = 0) (Call 2 JWaitForEmpty # replicate 120 (Run 2)) (bump 499 waiting)"

definition secondEpoch :: "nat lfsys" where
  "secondEpoch = endOf (\<lambda>t. t = 0) (Call 2 JWaitForEmpty # replicate 120 (Run 2)) (bump 499 firstEpoch)"

text \<open>
  A producer reads the tail, another push adds a node, the waiting pop removes the node that the
  producer read and deletes it when it leaves.
\<close>

definition deleting :: "nat lfsys" where
  "deleting = endOf (\<lambda>t. t = 0)
     (Call 1 (JPush 1) # replicate 8 (Run 1) @ Call 2 (JPush 2) # replicate 15 (Run 2) @ replicate 17 (Run 0)) secondEpoch"

lemma waiting_state:
  "quietAt 0 waiting" "lf_in_flight_total (sys_queue waiting) = of_nat 1"
  "ep_in_flight_total (lf_epoch (sys_queue waiting)) = of_nat 0"
  by code_simp+

lemma firstEpoch_state:
  "quietAt 0 firstEpoch" "lf_in_flight_total (sys_queue firstEpoch) = of_nat 501"
  "ep_in_flight_total (lf_epoch (sys_queue firstEpoch)) = of_nat 500"
  by code_simp+

lemma secondEpoch_reachable: "reachable queue_init (queue_step (\<lambda>t. t = 0)) secondEpoch"
proof -
  have "reachable queue_init (queue_step (\<lambda>t. t = 0)) waiting"
    unfolding waiting_def by (rule endOf_reachable [OF newSystem_reachable])
  moreover have "quietAt (of_nat k) waiting" if "k \<le> 498" for k
    by (rule quietAt_later [OF waiting_state]) (use that in simp_all)
  ultimately have "reachable queue_init (queue_step (\<lambda>t. t = 0)) (bump 499 waiting)"
    using bump_reachable [of _ waiting 498] by simp
  then have "reachable queue_init (queue_step (\<lambda>t. t = 0)) firstEpoch"
    unfolding firstEpoch_def by (rule endOf_reachable)
  moreover have "quietAt (of_nat k) firstEpoch" if "k \<le> 498" for k
    by (rule quietAt_later [OF firstEpoch_state]) (use that in simp_all)
  ultimately have "reachable queue_init (queue_step (\<lambda>t. t = 0)) (bump 499 firstEpoch)"
    using bump_reachable [of _ firstEpoch 498] by simp
  then show ?thesis unfolding secondEpoch_def by (rule endOf_reachable)
qed

text \<open>
  The epochs do not protect the readers, even with one consumer: a node removed under the ticket
  of an old epoch is deleted when that ticket is closed, while a producer of a newer epoch still
  holds it as the tail it read, and the next step of the producer uses the deleted node.
\<close>

theorem deleted_node_used:
  "\<exists>s :: nat lfsys. reachable queue_init (queue_step (\<lambda>t. t = 0)) s \<and> \<not> lf_fault (sys_queue s) \<and>
     sys_threads s 1 = Push 1 (PushNext 1 0) \<and> lf_heap (sys_queue s) 0 = None \<and>
     sys_threads (runThread 1 True s) 1 = Crashed \<and> lf_fault (sys_queue (runThread 1 True s))"
proof (intro exI conjI)
  show "reachable queue_init (queue_step (\<lambda>t. t = 0)) deleting"
    unfolding deleting_def by (rule endOf_reachable [OF secondEpoch_reachable])
  show "\<not> lf_fault (sys_queue deleting)" "sys_threads deleting 1 = Push 1 (PushNext 1 0)"
      "lf_heap (sys_queue deleting) 0 = None" "sys_threads (runThread 1 True deleting) 1 = Crashed"
      "lf_fault (sys_queue (runThread 1 True deleting))"
    by code_simp+
qed

section \<open>The first epoch\<close>

text \<open>The nodes that the next steps of a thread read.\<close>

fun pointers :: "'a pc \<Rightarrow> nat set" where
  "pointers (Push index (PushNext n l)) = {l}"
| "pointers (Push index (PushCheck n l nxt)) = {l}"
| "pointers (Push index (PushLink n l)) = {l}"
| "pointers (Pop index job (RetireLoad first nxt)) = {first}"
| "pointers (Pop index job (RetireStore first nxt retired)) = {first}"
| "pointers (Pop index job (RetireSwap first nxt retired)) = {first}"
| "pointers pc = {}"

fun firstEntry :: "enter_pc \<Rightarrow> bool" where
  "firstEntry (LoadEpoch n) \<longleftrightarrow> n < 500"
| "firstEntry (AdvanceEpoch n ep) \<longleftrightarrow> False"
| "firstEntry (SweepCount i k) \<longleftrightarrow> False"
| "firstEntry (SweepLoad i k) \<longleftrightarrow> False"
| "firstEntry (SweepTake i k p) \<longleftrightarrow> False"
| "firstEntry (Register i) \<longleftrightarrow> i = 0"
| "firstEntry pc \<longleftrightarrow> True"

fun firstExit :: "leave_pc \<Rightarrow> bool" where
  "firstExit LeaveLoad \<longleftrightarrow> False"
| "firstExit (LeaveTake p) \<longleftrightarrow> False"
| "firstExit pc \<longleftrightarrow> True"

fun inFirst :: "'a pc \<Rightarrow> bool" where
  "inFirst (Enter job p) \<longleftrightarrow> firstEntry p"
| "inFirst (Push index p) \<longleftrightarrow> index = 0"
| "inFirst (Pop index job p) \<longleftrightarrow> index = 0"
| "inFirst (DrainTest index) \<longleftrightarrow> index = 0"
| "inFirst (DrainRead index) \<longleftrightarrow> index = 0"
| "inFirst (Leave index answer p) \<longleftrightarrow> index = 0 \<and> firstExit p"
| "inFirst Crashed \<longleftrightarrow> False"
| "inFirst pc \<longleftrightarrow> True"

definition early :: "'a lfsys \<Rightarrow> bool" where
  "early s \<longleftrightarrow> \<not> lf_fault (sys_queue s) \<and> lf_epoch (sys_queue s) = \<lparr>ep_in_flight_total = 0, ep_id = 0\<rparr> \<and>
     lf_in_flight_total (sys_queue s) \<le> 500 \<and>
     (\<forall>t. inFirst (sys_threads s t) \<and> (\<forall>l\<in>pointers (sys_threads s t). lf_heap (sys_queue s) l \<noteq> None))"

lemma pointers_known:
  assumes "shared_ok ns q" and "local_ok ns q pc" and "l \<in> pointers pc" and "lf_heap q l \<noteq> None"
  shows "\<not> priv ns q l"
  using assms(2-4) by (cases pc rule: pointers.cases) (auto simp: known_def dead_def priv_def)

text \<open>A step in the first epoch deletes nothing but an unlinked node of its own.\<close>

definition quietStep :: "'a pc \<Rightarrow> 'a lfq \<Rightarrow> 'a pc \<Rightarrow> 'a lfq \<Rightarrow> bool" where
  "quietStep pc q pc' q' \<longleftrightarrow> \<not> lf_fault q' \<and> lf_epoch q' = lf_epoch q \<and> inFirst pc' \<and>
     (\<forall>l\<in>pointers pc'. lf_heap q' l \<noteq> None) \<and>
     (\<forall>n. lf_heap q n \<noteq> None \<longrightarrow> lf_heap q' n = None \<longrightarrow> freshOf pc = Some n)"

lemma first_index: "calc_epoch_index 0 = 0"
  by (simp add: calc_epoch_index_def)

lemma startBody_first: "inFirst (startBody 0 job)" "pointers (startBody 0 job) = {}"
  by (cases job; simp)+

lemma first_enter:
  assumes "firstEntry p" and "\<not> lf_fault q" and "lf_epoch q = \<lparr>ep_in_flight_total = 0, ep_id = 0\<rparr>"
    and "lf_in_flight_total q \<le> 500" and "lf_in_flight_total q' \<le> 500" and "enterStep job p q = (pc', q')"
  shows "quietStep (Enter job p) q pc' q'"
proof (cases p)
  case TakeTotal
  have "lf_in_flight_total q < 500"
  proof (rule ccontr)
    assume "\<not> lf_in_flight_total q < 500"
    then have "lf_in_flight_total q = 500" using assms(4) by simp
    then show False using assms(5,6) TakeTotal by auto
  qed
  then show ?thesis using assms TakeTotal by (auto simp: quietStep_def)
next
  case (LoadEpoch n)
  then show ?thesis using assms by (auto simp: quietStep_def Let_def epochTimeScale_def first_index)
next
  case (Register i)
  then show ?thesis using assms by (auto simp: quietStep_def startBody_first)
qed (use assms in \<open>auto simp: quietStep_def split: if_splits\<close>)

lemma first_push:
  assumes ok: "shared_ok ns q" and own: "\<And>n. freshOf (Push 0 p) = Some n \<Longrightarrow> priv ns q n"
    and ptr: "\<And>l. l \<in> pointers (Push 0 p) \<Longrightarrow> lf_heap q l \<noteq> None" and fault: "\<not> lf_fault q"
    and step: "pushStep 0 p q = (pc', q')"
  shows "quietStep (Push 0 p) q pc' q'"
proof (cases p)
  case (PushTail n)
  have "lf_heap q l \<noteq> None" if "lf_tail q = Some l" for l
    using ok that list_alloc [OF ok] by (simp add: shared_ok_def)
  then show ?thesis using PushTail step fault by (cases "lf_tail q") (auto simp: quietStep_def)
next
  case (PushNext n l)
  then obtain nd where "lf_heap q l = Some nd" using ptr by auto
  then show ?thesis using PushNext step fault by (auto simp: quietStep_def)
next
  case (PushCheck n l nxt)
  then show ?thesis using ptr step fault
    by (cases "lf_tail q = Some l"; cases nxt) (auto simp: quietStep_def)
next
  case (PushLink n l)
  then obtain nd where "lf_heap q l = Some nd" using ptr by auto
  then show ?thesis using PushLink step fault by (cases "nd_next nd") (auto simp: quietStep_def setNode_def split: if_splits)
qed (use step fault in \<open>auto simp: quietStep_def setNode_def split: if_splits\<close>)

lemma first_pop:
  assumes ok: "shared_ok ns q" and loc: "pop_ok ns q p"
    and ptr: "\<And>l. l \<in> pointers (Pop 0 job p) \<Longrightarrow> lf_heap q l \<noteq> None" and fault: "\<not> lf_fault q"
    and step: "popStep choice 0 job p q = (pc', q')"
  shows "quietStep (Pop 0 job p) q pc' q'"
proof (cases p)
  case (PopNext l first)
  obtain nd where "lf_heap q (hd ns) = Some nd" using list_head(6) [OF ok] by blast
  then show ?thesis using PopNext loc step fault by (auto simp: quietStep_def access_def)
next
  case (PopCheck l first nxt)
  then show ?thesis using step fault
    by (cases "lf_head q = Some first"; cases "first = l"; cases nxt; cases "waits job") (auto simp: quietStep_def)
next
  case (PopSwap first nxt)
  then show ?thesis using step fault loc list_head(6) [OF ok] by (auto simp: quietStep_def split: if_splits)
next
  case (RetireStore first nxt retired)
  then obtain nd where "lf_heap q first = Some nd" using ptr by auto
  then show ?thesis using RetireStore step fault by (auto simp: quietStep_def setNode_def)
next
  case (RetireSwap first nxt retired)
  then show ?thesis using step fault ptr by (auto simp: quietStep_def split: if_splits)
next
  case (PopTake nxt)
  obtain nd where "lf_heap q (hd ns) = Some nd" using list_head(6) [OF ok] by blast
  then show ?thesis using PopTake loc step fault by (auto simp: quietStep_def access_def setNode_def removed_def)
next
  case (PopReturn res)
  then have "q' = q" "inFirst pc'" "pointers pc' = {}" using step
    by (auto simp: Let_def split: job.splits if_splits)
  then show ?thesis using fault by (simp add: quietStep_def)
qed (use step fault ptr in \<open>auto simp: quietStep_def split: if_splits option.splits\<close>)

lemma first_pc:
  assumes sh: "shared_ok ns q" and loc: "local_ok ns q pc" and own: "\<And>n. freshOf pc = Some n \<Longrightarrow> priv ns q n"
    and e: "\<not> lf_fault q" "lf_epoch q = \<lparr>ep_in_flight_total = 0, ep_id = 0\<rparr>" "lf_in_flight_total q \<le> 500"
      "inFirst pc" "\<And>l. l \<in> pointers pc \<Longrightarrow> lf_heap q l \<noteq> None"
    and step: "pcStep choice pc q = (pc', q')" and calls: "lf_in_flight_total q' \<le> 500"
  shows "quietStep pc q pc' q'"
proof (cases pc)
  case (Enter job p)
  show ?thesis using first_enter [OF _ e(1-3) calls] e(4) step unfolding Enter by simp
next
  case (Push index p)
  have "index = 0" using e(4) Push by simp
  then show ?thesis using first_push [OF sh _ _ e(1), of p] own e(5) step unfolding Push by simp
next
  case (Pop index job p)
  have "index = 0" using e(4) Pop by simp
  then show ?thesis using first_pop [OF sh _ _ e(1), of p job] loc e(5) step unfolding Pop by simp
next
  case (Leave index answer p)
  then show ?thesis using e step by (cases p) (auto simp: quietStep_def first_index)
qed (use e step in \<open>auto simp: quietStep_def split: if_splits\<close>)

lemma first_step:
  assumes ok: "queue_ok c ns s" and early: "early s" and step: "pcStep choice (sys_threads s t) (sys_queue s) = (pc', q')"
    and calls: "lf_in_flight_total q' \<le> 500"
  shows "quietStep (sys_threads s t) (sys_queue s) pc' q'"
  using ok early by (intro first_pc [OF _ _ _ _ _ _ _ _ step calls, of ns])
    (auto simp: queue_ok_def threads_ok_def early_def)

definition earlyStep :: "nat \<Rightarrow> 'a lfsys \<Rightarrow> 'a lfsys \<Rightarrow> bool" where
  "earlyStep c s s' \<longleftrightarrow> queue_step (\<lambda>t. t = c) s s' \<and> lf_in_flight_total (sys_queue s') \<le> 500"

lemma queue_ok_next:
  assumes "queue_ok c ns s" and "queue_step (\<lambda>t. t = c) s s'"
  shows "\<exists>ns'. queue_ok c ns' s'"
proof -
  let ?a = "\<lparr>ff_items = itemsOf ns (sys_queue s), ff_closed = lf_shutdown (sys_queue s),
    ff_status = (\<lambda>t. viewOf (sys_queue s) (sys_threads s t)), ff_in = [], ff_out = []\<rparr>"
  have "queue_sim c s ?a" using assms(1) by (auto simp: queue_sim_def)
  from queue_sim_step [OF this assms(2)] show ?thesis by (auto simp: queue_sim_def)
qed

lemma early_step:
  assumes ok: "queue_ok c ns s" and early: "early s" and step: "earlyStep c s s'"
  shows "early s'"
proof -
  have calls: "lf_in_flight_total (sys_queue s') \<le> 500" and st: "queue_step (\<lambda>t. t = c) s s'"
    using step by (simp_all add: earlyStep_def)
  from st show ?thesis
  proof cases
    case (queue_run t choice)
    obtain pc' q' where p: "pcStep choice (sys_threads s t) (sys_queue s) = (pc', q')" by fastforce
    then have s': "s' = \<lparr>sys_queue = q', sys_threads = (sys_threads s)(t := pc')\<rparr>"
      using queue_run by (simp add: runThread_def)
    have q: "quietStep (sys_threads s t) (sys_queue s) pc' q'"
      by (rule first_step [OF ok early p]) (use calls s' in simp)
    have "lf_heap q' l \<noteq> None" if "l \<in> pointers (sys_threads s u)" "u \<noteq> t" for u l
    proof -
      have l: "lf_heap (sys_queue s) l \<noteq> None" using early that by (simp add: early_def)
      have "\<not> priv ns (sys_queue s) l"
        by (rule pointers_known [OF _ _ that(1) l]) (use ok in \<open>auto simp: queue_ok_def threads_ok_def\<close>)
      then have "freshOf (sys_threads s t) \<noteq> Some l" using ok by (auto simp: queue_ok_def threads_ok_def)
      then show ?thesis using q l by (auto simp: quietStep_def)
    qed
    then show ?thesis using q early calls unfolding early_def s' quietStep_def by simp
  qed (use early calls in \<open>auto simp: early_def startThread_def\<close>)
qed

interpretation firstEpoch: invariant_system queue_init "earlyStep c" "\<lambda>s. early s \<and> (\<exists>ns. queue_ok c ns s)"
  for c :: nat
proof unfold_locales
  fix s :: "'a lfsys" assume "queue_init s"
  then have "s = newSystem" by (simp add: queue_init_def)
  then show "early s \<and> (\<exists>ns. queue_ok c ns s)"
    using newSystem_ok by (auto simp: early_def newSystem_def newQueue_def)
next
  fix s t :: "'a lfsys"
  assume "early s \<and> (\<exists>ns. queue_ok c ns s)" and "earlyStep c s t"
  then show "early t \<and> (\<exists>ns. queue_ok c ns t)"
    using early_step queue_ok_next unfolding earlyStep_def by blast
qed

text \<open>
  With one consumer, no thread uses a null pointer or a deleted node while at most 500 calls have
  been made, that is until the first advance of the epoch.
\<close>

theorem first_epoch_safe:
  assumes "reachable queue_init (earlyStep c) s"
  shows "\<not> lf_fault (sys_queue s) \<and> sys_threads s t \<noteq> Crashed"
proof -
  have "early s" using firstEpoch.reachable_inv [OF assms] by blast
  then have "inFirst (sys_threads s t)" "\<not> lf_fault (sys_queue s)" by (simp_all add: early_def)
  then show ?thesis by auto
qed

fun earlyActs :: "nat \<Rightarrow> 'a action list \<Rightarrow> 'a lfsys \<Rightarrow> 'a lfsys" where
  "earlyActs c [] s = s"
| "earlyActs c (x # xs) s =
     (case act (\<lambda>t. t = c) x s of
        None \<Rightarrow> s
      | Some s' \<Rightarrow> if lf_in_flight_total (sys_queue s') \<le> 500 then earlyActs c xs s' else s)"

lemma earlyActs_reachable:
  "reachable queue_init (earlyStep c) s \<Longrightarrow> reachable queue_init (earlyStep c) (earlyActs c xs s)"
proof (induction xs arbitrary: s)
  case (Cons x xs)
  have "reachable queue_init (earlyStep c) s'"
    if "act (\<lambda>t. t = c) x s = Some s'" "lf_in_flight_total (sys_queue s') \<le> 500" for s'
    by (rule reach_step [OF Cons.prems]) (use act_step [OF that(1)] that(2) in \<open>simp add: earlyStep_def\<close>)
  then show ?case using Cons by (simp split: option.split)
qed simp

lemma first_epoch_safe_witness:
  "let s = earlyActs 0 overlapping newSystem
   in \<not> lf_fault (sys_queue s) \<and> sys_threads s 0 \<noteq> Crashed \<and> lf_in_flight_total (sys_queue s) = 2"
proof -
  let ?s = "earlyActs 0 overlapping newSystem"
  have "reachable queue_init (earlyStep 0) ?s"
    by (rule earlyActs_reachable, rule reach_init) (simp add: queue_init_def)
  moreover have "lf_in_flight_total (sys_queue ?s) = 2" by code_simp
  ultimately show ?thesis using first_epoch_safe [of 0 ?s 0] by (simp add: Let_def)
qed

end
