(* ===== verification/MutexQueue.thy ===== *)
theory MutexQueue
  imports BlockingQueue
begin

text \<open>
  \<open>Dmn_BlockingQueue_Mt\<close> with \<open>Dmn_Inflight_Guard\<close>: a queue under a mutex with two condition
  variables.  A step of a thread is what it does between two points at which another thread can
  interfere: an atomic operation on the flag or the in-flight count, the acquisition of the mutex, or
  the code up to the release of the mutex.  pthread cancellation does not occur.
\<close>

section \<open>State\<close>

text \<open>
  The next step of a thread: the ticket, which \<open>popOptional\<close> takes with the mutex held and the other
  calls without; then, with the mutex, the first look at the queue, the predicate of the wait, the
  wait itself and the removal; then the notification and the end of the ticket.  \<open>MPushed\<close> and
  \<open>MNotify\<close> stand before a notification; the flag of \<open>MNotify\<close> says that the queue was left empty.
\<close>

datatype 'a mpc =
    MReady "'a answer option"
  | MFailed
  | MLock "'a job"
  | MTest "'a job"
  | MCount "'a job"
  | MRetest "'a job"
  | MUndo "'a job"
  | MBody "'a job"
  | MPredicate "'a job"
  | MSleep "'a job"
  | MWaiting "'a job"
  | MWoken "'a job" bool
  | MDecide "'a job"
  | MTake "'a job"
  | MPushed
  | MNotify bool "'a answer"
  | MLeave "'a answer"
  | MShutFlag
  | MShutNotify
  | MShutWait

text \<open>The waiting threads of a condition variable are in the order in which they began to wait.\<close>

record 'a mts =
  mt_items :: "'a list"
  mt_push_count :: u64
  mt_pop_count :: u64
  mt_inflight :: u64
  mt_shutdown :: bool
  mt_owner :: "nat option"
  mt_not_empty :: "nat list"
  mt_empty :: "nat list"
  mt_threads :: "nat \<Rightarrow> 'a mpc"

definition newMutexQueue :: "'a mts" where
  "newMutexQueue = \<lparr>mt_items = [], mt_push_count = 0, mt_pop_count = 0, mt_inflight = 0, mt_shutdown = False,
     mt_owner = None, mt_not_empty = [], mt_empty = [], mt_threads = (\<lambda>_. MReady None)\<rparr>"

definition goto :: "nat \<Rightarrow> 'a mpc \<Rightarrow> 'a mts \<Rightarrow> 'a mts" where
  "goto t pc s = s\<lparr>mt_threads := (mt_threads s)(t := pc)\<rparr>"

text \<open>\<open>late\<close> says that a timed wait ends because its time is over.\<close>

fun wakeThread :: "bool \<Rightarrow> 'a mpc \<Rightarrow> 'a mpc" where
  "wakeThread late (MWaiting job) = MWoken job late"
| "wakeThread late pc = pc"

definition wakeUp :: "bool \<Rightarrow> nat \<Rightarrow> 'a mts \<Rightarrow> 'a mts" where
  "wakeUp late t s = goto t (wakeThread late (mt_threads s t))
     (s\<lparr>mt_not_empty := remove1 t (mt_not_empty s), mt_empty := remove1 t (mt_empty s)\<rparr>)"

text \<open>\<open>notify_one\<close> wakes one of the waiting threads, whichever the environment picks.\<close>

definition notifyOne :: "nat \<Rightarrow> 'a mts \<Rightarrow> 'a mts" where
  "notifyOne pick s = (case mt_not_empty s of [] \<Rightarrow> s
     | ts \<Rightarrow> wakeUp False (ts ! (pick mod length ts)) s)"

definition notifyAllNotEmpty :: "'a mts \<Rightarrow> 'a mts" where
  "notifyAllNotEmpty s = fold (wakeUp False) (mt_not_empty s) s"

definition notifyAllEmpty :: "'a mts \<Rightarrow> 'a mts" where
  "notifyAllEmpty s = fold (wakeUp False) (mt_empty s) s"

section \<open>Steps\<close>

definition unlockTo :: "nat \<Rightarrow> 'a mpc \<Rightarrow> 'a mts \<Rightarrow> 'a mts" where
  "unlockTo t pc s = goto t pc (s\<lparr>mt_owner := None\<rparr>)"

text \<open>A push and a batch pop take their ticket first, the others lock first.\<close>

fun ticketFirst :: "'a job \<Rightarrow> bool" where
  "ticketFirst (JPush v) = True"
| "ticketFirst (JPopMany wanted timed items) = True"
| "ticketFirst job = False"

definition entered :: "nat \<Rightarrow> 'a job \<Rightarrow> 'a mts \<Rightarrow> 'a mts" where
  "entered t job s = goto t (if ticketFirst job then MLock job else MBody job) s"

definition refuse :: "nat \<Rightarrow> 'a job \<Rightarrow> 'a mts \<Rightarrow> 'a mts" where
  "refuse t job s = (if ticketFirst job then goto t (MReady (Some Threw)) s
     else unlockTo t (MReady (Some Threw)) s)"

text \<open>Locking continues with the ticket of \<open>popOptional\<close>, the body, or the wait that was interrupted.\<close>

definition lockTo :: "nat \<Rightarrow> 'a mpc \<Rightarrow> 'a mts \<Rightarrow> 'a mts" where
  "lockTo t pc s = (case mt_owner s of None \<Rightarrow> goto t pc (s\<lparr>mt_owner := Some t\<rparr>) | Some _ \<Rightarrow> s)"

fun bodyStep :: "nat \<Rightarrow> 'a job \<Rightarrow> 'a mts \<Rightarrow> 'a mts" where
  "bodyStep t (JPush v) s =
     unlockTo t MPushed (s\<lparr>mt_items := mt_items s @ [v], mt_push_count := mt_push_count s + 1\<rparr>)"
| "bodyStep t (JPop wait) s =
     (if mt_items s = []
      then if wait then goto t (MPredicate (JPop wait)) s
           else unlockTo t (MNotify True (Item None)) s
      else goto t (MTake (JPop wait)) s)"
| "bodyStep t (JPopMany wanted timed items) s = goto t (MPredicate (JPopMany wanted timed items)) s"
| "bodyStep t JWaitForEmpty s = goto t (MPredicate JWaitForEmpty) s"

definition predicate :: "'a job \<Rightarrow> 'a mts \<Rightarrow> bool" where
  "predicate job s = (case job of
      JPopMany wanted timed items \<Rightarrow> length (mt_items s) \<ge> wanted \<or> mt_shutdown s
    | JWaitForEmpty \<Rightarrow> mt_items s = [] \<or> mt_shutdown s
    | _ \<Rightarrow> mt_items s \<noteq> [] \<or> mt_shutdown s)"

fun isTimed :: "'a job \<Rightarrow> bool" where
  "isTimed (JPopMany wanted timed items) = timed"
| "isTimed job = False"

fun afterWait :: "'a job \<Rightarrow> 'a mpc" where
  "afterWait (JPop wait) = MDecide (JPop wait)"
| "afterWait job = MTake job"

text \<open>The removal with the mutex held; \<open>waitForEmpty\<close> asserts that the counters agree.\<close>

fun takeStep :: "nat \<Rightarrow> 'a job \<Rightarrow> 'a mts \<Rightarrow> 'a mts" where
  "takeStep t (JPop wait) s =
     (case mt_items s of
        [] \<Rightarrow> goto t MFailed s
      | x # rest \<Rightarrow> unlockTo t (MNotify (rest = []) (Item (Some x)))
          (s\<lparr>mt_items := rest, mt_pop_count := mt_pop_count s + 1\<rparr>))"
| "takeStep t (JPopMany wanted timed items) s =
     (let xs = take wanted (mt_items s); rest = drop wanted (mt_items s)
      in unlockTo t (MNotify (rest = []) (Items xs))
           (s\<lparr>mt_items := rest, mt_pop_count := mt_pop_count s + of_nat (length xs)\<rparr>))"
| "takeStep t JWaitForEmpty s =
     (if mt_pop_count s = mt_push_count s then unlockTo t (MReady (Some (PushCount (mt_pop_count s)))) s
      else goto t MFailed s)"
| "takeStep t (JPush v) s = s"

fun isDrain :: "'a job \<Rightarrow> bool" where
  "isDrain JWaitForEmpty = True"
| "isDrain job = False"

definition sleepStep :: "nat \<Rightarrow> 'a job \<Rightarrow> 'a mts \<Rightarrow> 'a mts" where
  "sleepStep t job s = unlockTo t (MWaiting job)
     (if isDrain job then s\<lparr>mt_empty := mt_empty s @ [t]\<rparr> else s\<lparr>mt_not_empty := mt_not_empty s @ [t]\<rparr>)"

text \<open>The choice \<open>pick\<close> is used by \<open>notify_one\<close> only.\<close>

definition threadStep :: "nat \<Rightarrow> nat \<Rightarrow> 'a mts \<Rightarrow> 'a mts" where
  "threadStep pick t s =
     (case mt_threads s t of
        MLock job \<Rightarrow> lockTo t (if ticketFirst job \<or> isDrain job then MBody job else MTest job) s
      | MTest job \<Rightarrow> if mt_shutdown s then refuse t job s else goto t (MCount job) s
      | MCount job \<Rightarrow> goto t (MRetest job) (s\<lparr>mt_inflight := mt_inflight s + 1\<rparr>)
      | MRetest job \<Rightarrow> if mt_shutdown s then goto t (MUndo job) s else entered t job s
      | MUndo job \<Rightarrow> refuse t job (s\<lparr>mt_inflight := mt_inflight s - 1\<rparr>)
      | MBody job \<Rightarrow> bodyStep t job s
      | MPredicate job \<Rightarrow> goto t (if predicate job s then afterWait job else MSleep job) s
      | MSleep job \<Rightarrow> sleepStep t job s
      | MWoken job late \<Rightarrow> lockTo t (if late then afterWait job else MPredicate job) s
      | MDecide job \<Rightarrow> if mt_shutdown s then unlockTo t (MNotify (mt_items s = []) (Item None)) s
          else goto t (MTake job) s
      | MTake job \<Rightarrow> takeStep t job s
      | MPushed \<Rightarrow> goto t (MLeave Pushed) (notifyOne pick s)
      | MNotify drained answer \<Rightarrow>
          goto t (MLeave answer) (if drained then notifyAllEmpty s else notifyOne pick s)
      | MLeave answer \<Rightarrow> goto t (MReady (Some answer)) (s\<lparr>mt_inflight := mt_inflight s - 1\<rparr>)
      | MShutFlag \<Rightarrow> goto t MShutNotify (s\<lparr>mt_shutdown := True\<rparr>)
      | MShutNotify \<Rightarrow> goto t MShutWait (notifyAllNotEmpty (notifyAllEmpty s))
      | MShutWait \<Rightarrow> if mt_inflight s > 0 then s else goto t (MReady (Some ShutDown)) s
      | _ \<Rightarrow> s)"

text \<open>The end of the time of a timed wait, and a wake-up without a reason.\<close>

definition timeOver :: "nat \<Rightarrow> 'a mts \<Rightarrow> 'a mts" where
  "timeOver t s = (case mt_threads s t of
      MWaiting job \<Rightarrow> if isTimed job then wakeUp True t s else s | _ \<Rightarrow> s)"

definition startCall :: "nat \<Rightarrow> 'a job \<Rightarrow> 'a mts \<Rightarrow> 'a mts" where
  "startCall t job s = goto t (if ticketFirst job then MTest job else MLock job) s"

text \<open>The interleavings in which the threads make the calls of \<open>allowed\<close>.\<close>

inductive mutex_step :: "('a job \<Rightarrow> bool) \<Rightarrow> 'a mts \<Rightarrow> 'a mts \<Rightarrow> bool" for allowed where
  mutex_run: "mutex_step allowed s (threadStep pick t s)"
| mutex_time: "mutex_step allowed s (timeOver t s)"
| mutex_spurious: "mutex_step allowed s (wakeUp False t s)"
| mutex_call: "mt_threads s t = MReady answer \<Longrightarrow> callable job \<Longrightarrow> allowed job \<Longrightarrow>
    mutex_step allowed s (startCall t job s)"
| mutex_shutdown: "mt_threads s t = MReady answer \<Longrightarrow> mutex_step allowed s (goto t MShutFlag s)"

definition mutex_init :: "'a mts \<Rightarrow> bool" where
  "mutex_init s \<longleftrightarrow> s = newMutexQueue"

section \<open>Schedules\<close>

text \<open>A schedule: a step of a thread, a call, or a shutdown; \<open>None\<close> when the thread is inside a call.\<close>

datatype 'a mact =
    MRun nat nat
  | MCall nat "'a job"
  | MShut nat

fun isReady :: "'a mpc \<Rightarrow> bool" where
  "isReady (MReady answer) = True"
| "isReady pc = False"

fun mdo :: "('a job \<Rightarrow> bool) \<Rightarrow> 'a mact \<Rightarrow> 'a mts \<Rightarrow> 'a mts option" where
  "mdo allowed (MRun t pick) s = Some (threadStep pick t s)"
| "mdo allowed (MCall t job) s =
     (if isReady (mt_threads s t) \<and> callable job \<and> allowed job then Some (startCall t job s) else None)"
| "mdo allowed (MShut t) s = (if isReady (mt_threads s t) then Some (goto t MShutFlag s) else None)"

fun mruns :: "('a job \<Rightarrow> bool) \<Rightarrow> 'a mact list \<Rightarrow> 'a mts \<Rightarrow> 'a mts option" where
  "mruns allowed [] s = Some s"
| "mruns allowed (a # as) s = (case mdo allowed a s of None \<Rightarrow> None | Some s' \<Rightarrow> mruns allowed as s')"

end
