(* ===== verification/MutexQueueInv.thy ===== *)
theory MutexQueueInv
  imports MutexQueue
begin

text \<open>
  The invariant of \<open>Dmn_BlockingQueue_Mt\<close> under every interleaving, and the simulation of the atomic
  FIFO queue with any number of producers and consumers.
\<close>

section \<open>The invariant\<close>

text \<open>The steps at which a thread holds the mutex.\<close>

fun holds :: "'a mpc \<Rightarrow> bool" where
  "holds (MTest job) \<longleftrightarrow> \<not> ticketFirst job"
| "holds (MCount job) \<longleftrightarrow> \<not> ticketFirst job"
| "holds (MRetest job) \<longleftrightarrow> \<not> ticketFirst job"
| "holds (MUndo job) \<longleftrightarrow> \<not> ticketFirst job"
| "holds (MBody job) \<longleftrightarrow> True"
| "holds (MPredicate job) \<longleftrightarrow> True"
| "holds (MSleep job) \<longleftrightarrow> True"
| "holds (MDecide job) \<longleftrightarrow> True"
| "holds (MTake job) \<longleftrightarrow> True"
| "holds pc \<longleftrightarrow> False"

fun isPush :: "'a job \<Rightarrow> bool" where
  "isPush (JPush v) = True"
| "isPush job = False"

fun mayWait :: "'a job \<Rightarrow> bool" where
  "mayWait (JPush v) = False"
| "mayWait (JPop wait) = wait"
| "mayWait job = True"

fun mlocal :: "'a mts \<Rightarrow> 'a mpc \<Rightarrow> bool" where
  "mlocal s (MLock job) \<longleftrightarrow> callable job"
| "mlocal s (MTest job) \<longleftrightarrow> callable job \<and> \<not> isDrain job"
| "mlocal s (MCount job) \<longleftrightarrow> callable job \<and> \<not> isDrain job"
| "mlocal s (MRetest job) \<longleftrightarrow> callable job \<and> \<not> isDrain job"
| "mlocal s (MUndo job) \<longleftrightarrow> callable job \<and> \<not> isDrain job \<and> mt_shutdown s"
| "mlocal s (MBody job) \<longleftrightarrow> callable job"
| "mlocal s (MPredicate job) \<longleftrightarrow> callable job \<and> mayWait job"
| "mlocal s (MSleep job) \<longleftrightarrow> callable job \<and> mayWait job \<and>
     (case job of JPop wait \<Rightarrow> mt_items s = [] | JWaitForEmpty \<Rightarrow> mt_items s \<noteq> [] | _ \<Rightarrow> True)"
| "mlocal s (MWaiting job) \<longleftrightarrow> callable job \<and> mayWait job"
| "mlocal s (MWoken job late) \<longleftrightarrow> callable job \<and> mayWait job \<and> (late \<longrightarrow> isTimed job)"
| "mlocal s (MDecide job) \<longleftrightarrow> job = JPop True \<and> (mt_items s \<noteq> [] \<or> mt_shutdown s)"
| "mlocal s (MTake job) \<longleftrightarrow> callable job \<and> \<not> isPush job \<and>
     (case job of JPop wait \<Rightarrow> mt_items s \<noteq> [] | JWaitForEmpty \<Rightarrow> mt_items s = [] \<or> mt_shutdown s | _ \<Rightarrow> True)"
| "mlocal s MFailed \<longleftrightarrow> mt_shutdown s"
| "mlocal s pc \<longleftrightarrow> True"

definition waitsOn :: "bool \<Rightarrow> 'a mpc \<Rightarrow> bool" where
  "waitsOn drain pc = (case pc of MWaiting job \<Rightarrow> isDrain job = drain | _ \<Rightarrow> False)"

definition waiters_ok :: "'a mts \<Rightarrow> bool" where
  "waiters_ok s \<longleftrightarrow> distinct (mt_not_empty s) \<and> distinct (mt_empty s) \<and>
     (\<forall>u. (u \<in> set (mt_not_empty s) \<longleftrightarrow> waitsOn False (mt_threads s u)) \<and>
          (u \<in> set (mt_empty s) \<longleftrightarrow> waitsOn True (mt_threads s u)))"

definition counters_ok :: "'a mts \<Rightarrow> bool" where
  "counters_ok s \<longleftrightarrow> mt_push_count s = mt_pop_count s + of_nat (length (mt_items s))"

definition mutex_ok :: "'a mts \<Rightarrow> bool" where
  "mutex_ok s \<longleftrightarrow> (\<forall>t. holds (mt_threads s t) \<longrightarrow> mt_owner s = Some t) \<and> (\<forall>t. mlocal s (mt_threads s t)) \<and>
     waiters_ok s \<and> counters_ok s"

lemma waitsOn_simps [simp]:
  "waitsOn d (MWaiting job) = (isDrain job = d)" "waitsOn d (MWoken job late) = False"
  "waitsOn d (MReady r) = False" "waitsOn d MFailed = False" "waitsOn d (MLock job) = False"
  "waitsOn d (MTest job) = False" "waitsOn d (MCount job) = False" "waitsOn d (MRetest job) = False"
  "waitsOn d (MUndo job) = False" "waitsOn d (MBody job) = False" "waitsOn d (MPredicate job) = False"
  "waitsOn d (MSleep job) = False" "waitsOn d (MDecide job) = False" "waitsOn d (MTake job) = False"
  "waitsOn d MPushed = False" "waitsOn d (MNotify e a) = False" "waitsOn d (MLeave a) = False"
  "waitsOn d MShutFlag = False" "waitsOn d MShutNotify = False" "waitsOn d MShutWait = False"
  by (simp_all add: waitsOn_def)

lemma goto_simps [simp]:
  "mt_items (goto t pc s) = mt_items s" "mt_push_count (goto t pc s) = mt_push_count s"
  "mt_pop_count (goto t pc s) = mt_pop_count s" "mt_inflight (goto t pc s) = mt_inflight s"
  "mt_shutdown (goto t pc s) = mt_shutdown s" "mt_owner (goto t pc s) = mt_owner s"
  "mt_not_empty (goto t pc s) = mt_not_empty s" "mt_empty (goto t pc s) = mt_empty s"
  "mt_threads (goto t pc s) = (mt_threads s)(t := pc)"
  by (simp_all add: goto_def)

lemma mlocal_cong: "mt_items s' = mt_items s \<Longrightarrow> mt_shutdown s' = mt_shutdown s \<Longrightarrow> mlocal s' pc = mlocal s pc"
  by (cases pc) (simp_all split: job.splits)

text \<open>A step of a thread that is not, and does not become, a waiting one.\<close>

lemma own_step:
  assumes ok: "mutex_ok s" and same: "mt_threads s1 = mt_threads s" "mt_not_empty s1 = mt_not_empty s" "mt_empty s1 = mt_empty s"
    and items: "mt_items s1 = mt_items s \<or> mt_owner s = Some t" and shut: "mt_shutdown s \<Longrightarrow> mt_shutdown s1"
    and owner: "mt_owner s1 = mt_owner s \<or> mt_owner s = None \<or> mt_owner s = Some t"
    and new: "holds pc' \<Longrightarrow> mt_owner s1 = Some t" "mlocal s1 pc'" "counters_ok s1"
    and nowait: "\<And>d. \<not> waitsOn d (mt_threads s t)" "\<And>d. \<not> waitsOn d pc'"
  shows "mutex_ok (goto t pc' s1)"
proof -
  have th: "holds (mt_threads s u) \<Longrightarrow> mt_owner s = Some u" "mlocal s (mt_threads s u)" for u
    using ok by (simp_all add: mutex_ok_def)
  have "mlocal s1 (mt_threads s u)" if "u \<noteq> t" for u
  proof (cases "mt_items s1 = mt_items s")
    case True
    then show ?thesis using th(2) [of u] shut
      by (cases "mt_threads s u") (auto split: job.splits)
  next
    case False
    then have "\<not> holds (mt_threads s u)" using items th(1) that by auto
    then show ?thesis using th(2) [of u] shut by (cases "mt_threads s u") (auto split: job.splits)
  qed
  moreover have "mlocal (goto t pc' s1) pc = mlocal s1 pc" for pc by (rule mlocal_cong) simp_all
  ultimately have l: "mlocal (goto t pc' s1) (mt_threads (goto t pc' s1) u)" for u
    using new(2) same(1) by simp
  have "mt_owner s1 = Some u" if "holds (mt_threads s u)" "u \<noteq> t" for u
    using th(1) [OF that(1)] owner that(2) by auto
  then have h: "holds (mt_threads (goto t pc' s1) u) \<longrightarrow> mt_owner (goto t pc' s1) = Some u" for u
    using new(1) same(1) by simp
  have "waiters_ok (goto t pc' s1)" using ok nowait same by (simp add: mutex_ok_def waiters_ok_def)
  then show ?thesis using h l new(3) by (simp add: mutex_ok_def counters_ok_def)
qed

text \<open>What a notification changes.\<close>

definition woken :: "'a mts \<Rightarrow> 'a mts \<Rightarrow> bool" where
  "woken s s' \<longleftrightarrow> mt_items s' = mt_items s \<and> mt_push_count s' = mt_push_count s \<and> mt_pop_count s' = mt_pop_count s \<and>
     mt_inflight s' = mt_inflight s \<and> mt_shutdown s' = mt_shutdown s \<and> mt_owner s' = mt_owner s \<and>
     (\<forall>u. mt_threads s' u = mt_threads s u \<or> (\<exists>late. mt_threads s' u = wakeThread late (mt_threads s u)))"

lemma woken_refl [simp]: "woken s s"
  by (simp add: woken_def)

lemma wakeThread_twice [simp]: "wakeThread late' (wakeThread late pc) = wakeThread late pc"
  by (cases pc) simp_all

lemma woken_trans:
  assumes "woken s s1" and "woken s1 s2"
  shows "woken s s2"
proof -
  have "mt_threads s2 u = mt_threads s u \<or> (\<exists>late. mt_threads s2 u = wakeThread late (mt_threads s u))" for u
    using assms wakeThread_twice unfolding woken_def by metis
  then show ?thesis using assms by (simp add: woken_def)
qed

lemma wakeThread_id: "\<not> (\<exists>d. waitsOn d pc) \<Longrightarrow> wakeThread late pc = pc"
  by (cases pc) simp_all

lemma wakeUp_id:
  assumes "waiters_ok s" and "\<not> (\<exists>d. waitsOn d (mt_threads s t))"
  shows "wakeUp late t s = s"
proof -
  have "t \<notin> set (mt_not_empty s)" "t \<notin> set (mt_empty s)" using assms by (auto simp: waiters_ok_def)
  then show ?thesis using assms(2) by (simp add: wakeUp_def goto_def wakeThread_id remove1_idem)
qed

lemma wakeUp_ok:
  assumes ok: "mutex_ok s" and late: "late \<Longrightarrow> \<exists>job. mt_threads s t = MWaiting job \<and> isTimed job"
  shows "mutex_ok (wakeUp late t s)" and "woken s (wakeUp late t s)"
proof -
  have w: "waiters_ok s" "holds (mt_threads s u) \<Longrightarrow> mt_owner s = Some u" "mlocal s (mt_threads s u)" "counters_ok s" for u
    using ok by (simp_all add: mutex_ok_def)
  have eq: "mt_threads (wakeUp late t s) u = (if u = t then wakeThread late (mt_threads s t) else mt_threads s u)" for u
    by (simp add: wakeUp_def goto_def)
  show "woken s (wakeUp late t s)"
    unfolding woken_def eq by (auto simp: wakeUp_def goto_def)
  show "mutex_ok (wakeUp late t s)"
  proof (cases "\<exists>d. waitsOn d (mt_threads s t)")
    case False
    then show ?thesis using wakeUp_id [OF w(1)] ok by simp
  next
    case True
    then obtain job where job: "mt_threads s t = MWaiting job" by (cases "mt_threads s t") simp_all
    have "waiters_ok (wakeUp late t s)"
      using w(1) job unfolding waiters_ok_def eq by (auto simp: wakeUp_def goto_def)
    moreover have "mlocal s (MWoken job late)" using w(3) [of t] late job by auto
    then have "mlocal (wakeUp late t s) (mt_threads (wakeUp late t s) u)" for u
      using w(3) mlocal_cong [of "wakeUp late t s" s] job unfolding eq by (simp add: wakeUp_def goto_def)
    ultimately show ?thesis
      using w(2,4) job unfolding mutex_ok_def eq by (simp add: counters_ok_def wakeUp_def goto_def)
  qed
qed

lemma wakeAll_ok: "mutex_ok s \<Longrightarrow> mutex_ok (fold (wakeUp False) ts s) \<and> woken s (fold (wakeUp False) ts s)"
proof (induction ts arbitrary: s)
  case (Cons t ts)
  have w: "mutex_ok (wakeUp False t s)" "woken s (wakeUp False t s)" using wakeUp_ok [OF Cons.prems] by simp_all
  then show ?case using Cons.IH [OF w(1)] woken_trans [OF w(2)] by simp
qed simp

lemma notifyOne_ok: "mutex_ok s \<Longrightarrow> mutex_ok (notifyOne pick s) \<and> woken s (notifyOne pick s)"
  using wakeUp_ok [of s False] by (simp add: notifyOne_def split: list.split)

lemma notifyAll_ok:
  assumes "mutex_ok s"
  shows "mutex_ok (notifyAllNotEmpty s) \<and> woken s (notifyAllNotEmpty s)"
    and "mutex_ok (notifyAllEmpty s) \<and> woken s (notifyAllEmpty s)"
  using wakeAll_ok [OF assms] by (simp_all add: notifyAllNotEmpty_def notifyAllEmpty_def)

section \<open>Every step keeps the invariant\<close>

text \<open>The common case: the thread steps on and everything else but the mutex and the counters is unchanged.\<close>

lemma quiet_step:
  assumes "mutex_ok s" and "s1 = s\<lparr>mt_owner := ow, mt_inflight := n\<rparr>"
    and "ow = mt_owner s \<or> mt_owner s = None \<or> mt_owner s = Some t" "holds pc' \<Longrightarrow> ow = Some t"
    and "mlocal s pc'" "\<And>d. \<not> waitsOn d (mt_threads s t)" "\<And>d. \<not> waitsOn d pc'"
  shows "mutex_ok (goto t pc' s1)"
proof (rule own_step [OF assms(1)])
  show "mlocal s1 pc'" using assms(5) mlocal_cong [of s1 s] assms(2) by simp
  show "counters_ok s1" using assms(1,2) by (simp add: mutex_ok_def counters_ok_def)
qed (use assms in simp_all)

lemma step_goto:
  assumes "mutex_ok s" and "holds pc' \<Longrightarrow> mt_owner s = Some t"
    and "mlocal s pc'" "\<And>d. \<not> waitsOn d (mt_threads s t)" "\<And>d. \<not> waitsOn d pc'"
  shows "mutex_ok (goto t pc' s)"
  by (rule quiet_step [where s = s and ow = "mt_owner s" and n = "mt_inflight s"]) (use assms in simp_all)

lemma step_unlock:
  assumes "mutex_ok s" and "mt_owner s = Some t" and "\<not> holds pc'"
    and "mlocal s pc'" "\<And>d. \<not> waitsOn d (mt_threads s t)" "\<And>d. \<not> waitsOn d pc'"
  shows "mutex_ok (unlockTo t pc' s)"
  unfolding unlockTo_def
  by (rule quiet_step [where s = s and ow = None and n = "mt_inflight s"]) (use assms in simp_all)

lemma step_lock:
  assumes "mutex_ok s" and "mlocal s pc'" "\<And>d. \<not> waitsOn d (mt_threads s t)" "\<And>d. \<not> waitsOn d pc'"
  shows "mutex_ok (lockTo t pc' s)"
  unfolding lockTo_def
  by (cases "mt_owner s") (use assms in \<open>auto intro: quiet_step [where s = s and ow = "Some t" and n = "mt_inflight s"]\<close>)

lemma step_count:
  assumes "mutex_ok s" and "holds pc' \<Longrightarrow> mt_owner s = Some t"
    and "mlocal s pc'" "\<And>d. \<not> waitsOn d (mt_threads s t)" "\<And>d. \<not> waitsOn d pc'"
  shows "mutex_ok (goto t pc' (s\<lparr>mt_inflight := n\<rparr>))"
  by (rule quiet_step [where s = s and ow = "mt_owner s" and n = n]) (use assms in simp_all)

lemma step_refuse:
  assumes "mutex_ok s" and "\<not> ticketFirst job \<Longrightarrow> mt_owner s = Some t" and "\<And>d. \<not> waitsOn d (mt_threads s t)"
  shows "mutex_ok (refuse t job (s\<lparr>mt_inflight := n\<rparr>))"
proof (cases "ticketFirst job")
  case True
  show ?thesis unfolding refuse_def if_P [OF True] by (rule step_count) (use assms in simp_all)
next
  case False
  have "mutex_ok (goto t (MReady (Some Threw)) (s\<lparr>mt_inflight := n, mt_owner := None\<rparr>))"
    by (rule quiet_step [where s = s and ow = None and n = n]) (use assms False in simp_all)
  then show ?thesis using False by (simp add: refuse_def unlockTo_def)
qed

text \<open>A change of the queue with the mutex held, which the thread then releases.\<close>

lemma step_queue:
  assumes "mutex_ok s" and "mt_owner s = Some t" and "\<not> holds pc'" and "\<And>s'. mlocal s' pc'"
    and "counters_ok (s\<lparr>mt_items := xs, mt_push_count := m, mt_pop_count := n\<rparr>)"
    and "\<And>d. \<not> waitsOn d (mt_threads s t)" "\<And>d. \<not> waitsOn d pc'"
  shows "mutex_ok (unlockTo t pc' (s\<lparr>mt_items := xs, mt_push_count := m, mt_pop_count := n\<rparr>))"
  unfolding unlockTo_def
  by (rule own_step [of s]) (use assms in \<open>simp_all add: counters_ok_def\<close>)

lemma after_notify:
  assumes "mutex_ok s1 \<and> woken s s1" and "\<And>d. \<not> waitsOn d (mt_threads s t)"
    and "\<not> holds pc'" and "\<And>s'. mlocal s' pc'" and "\<And>d. \<not> waitsOn d pc'"
  shows "mutex_ok (goto t pc' s1)"
proof (rule step_goto)
  have "mt_threads s1 t = mt_threads s t"
    using assms(1) wakeThread_id [of "mt_threads s t"] assms(2) unfolding woken_def by metis
  then show "\<not> waitsOn d (mt_threads s1 t)" for d using assms(2) by simp
qed (use assms in simp_all)

lemma sleep_ok:
  assumes ok: "mutex_ok s" and pc: "mt_threads s t = MSleep job"
  shows "mutex_ok (sleepStep t job s)"
proof -
  let ?s = "sleepStep t job s"
  have th: "holds (mt_threads s u) \<Longrightarrow> mt_owner s = Some u" "mlocal s (mt_threads s u)" for u
    using ok by (simp_all add: mutex_ok_def)
  have owner: "mt_owner s = Some t" using th(1) [of t] pc by simp
  have f: "mt_threads ?s = (mt_threads s)(t := MWaiting job)" "mt_items ?s = mt_items s" "mt_shutdown ?s = mt_shutdown s"
    "mt_not_empty ?s = (if isDrain job then mt_not_empty s else mt_not_empty s @ [t])"
    "mt_empty ?s = (if isDrain job then mt_empty s @ [t] else mt_empty s)"
    "mt_push_count ?s = mt_push_count s" "mt_pop_count ?s = mt_pop_count s"
    by (simp_all add: sleepStep_def unlockTo_def)
  have w: "waiters_ok s" "counters_ok s" using ok by (simp_all add: mutex_ok_def)
  have "t \<notin> set (mt_not_empty s)" "t \<notin> set (mt_empty s)" using w(1) pc by (simp_all add: waiters_ok_def)
  then have "waiters_ok ?s" using w(1) unfolding waiters_ok_def f by auto
  moreover have "mlocal ?s (mt_threads ?s u)" for u
    using th(2) [of u] th(2) [of t] pc mlocal_cong [of ?s s, OF f(2,3)] f(1) by simp
  moreover have "\<not> holds (mt_threads ?s u)" for u using th(1) [of u] owner f(1) by auto
  ultimately show ?thesis using w(2) f(2,6,7) by (simp add: mutex_ok_def counters_ok_def)
qed

lemma take_ok:
  assumes ok: "mutex_ok s" and pc: "mt_threads s t = MTake job"
  shows "mutex_ok (takeStep t job s)"
proof -
  have owner: "mt_owner s = Some t" and l: "mlocal s (MTake job)" and c: "counters_ok s"
    using ok pc unfolding mutex_ok_def by (metis holds.simps(9), metis, metis)
  show ?thesis
  proof (cases job)
    case (JPop wait)
    obtain x rest where items: "mt_items s = x # rest" using l JPop by (cases "mt_items s") simp_all
    have "mutex_ok (unlockTo t (MNotify (rest = []) (Item (Some x)))
       (s\<lparr>mt_items := rest, mt_push_count := mt_push_count s, mt_pop_count := mt_pop_count s + 1\<rparr>))"
      by (rule step_queue [OF ok owner]) (use c items pc in \<open>simp_all add: counters_ok_def\<close>)
    then show ?thesis using JPop items by simp
  next
    case (JPopMany wanted timed collected)
    let ?xs = "take wanted (mt_items s)" and ?rest = "drop wanted (mt_items s)"
    have len: "min (length (mt_items s)) wanted + (length (mt_items s) - wanted) = length (mt_items s)" by simp
    have "mutex_ok (unlockTo t (MNotify (?rest = []) (Items ?xs))
       (s\<lparr>mt_items := ?rest, mt_push_count := mt_push_count s, mt_pop_count := mt_pop_count s + of_nat (length ?xs)\<rparr>))"
      by (rule step_queue [OF ok owner]) (use c pc len in \<open>simp_all add: counters_ok_def flip: of_nat_add\<close>)
    then show ?thesis using JPopMany by (simp add: Let_def)
  next
    case JWaitForEmpty
    have "mutex_ok (goto t MFailed s)" if "mt_pop_count s \<noteq> mt_push_count s"
    proof (rule step_goto [OF ok])
      show "mlocal s MFailed" using that c l JWaitForEmpty by (auto simp: counters_ok_def)
    qed (simp_all add: pc)
    then show ?thesis using JWaitForEmpty step_unlock [OF ok owner, of "MReady (Some (PushCount (mt_pop_count s)))"] pc
      by (cases "mt_pop_count s = mt_push_count s") simp_all
  qed (use l in simp)
qed

lemma body_ok:
  assumes ok: "mutex_ok s" and pc: "mt_threads s t = MBody job"
  shows "mutex_ok (bodyStep t job s)"
proof -
  have owner: "mt_owner s = Some t" and l: "mlocal s (MBody job)" and c: "counters_ok s"
    using ok pc unfolding mutex_ok_def by (metis holds.simps(5), metis, metis)
  note go = step_goto [OF ok] step_unlock [OF ok owner]
  show ?thesis
  proof (cases job)
    case (JPush v)
    have "mutex_ok (unlockTo t MPushed (s\<lparr>mt_items := mt_items s @ [v], mt_push_count := mt_push_count s + 1,
       mt_pop_count := mt_pop_count s\<rparr>))"
      by (rule step_queue [OF ok owner]) (use c pc in \<open>simp_all add: counters_ok_def\<close>)
    then show ?thesis using JPush by simp
  next
    case (JPop wait)
    have "wait \<Longrightarrow> mutex_ok (goto t (MPredicate job) s)" "mutex_ok (unlockTo t (MNotify True (Item None)) s)"
      "mt_items s \<noteq> [] \<Longrightarrow> mutex_ok (goto t (MTake job) s)"
      by (rule go; use pc owner l JPop in simp)+
    then show ?thesis using JPop by (cases wait) simp_all
  next
    case (JPopMany wanted timed collected)
    have "mutex_ok (goto t (MPredicate job) s)" by (rule go(1)) (use pc owner l JPopMany in simp_all)
    then show ?thesis using JPopMany by simp
  next
    case JWaitForEmpty
    have "mutex_ok (goto t (MPredicate job) s)" by (rule go(1)) (use pc owner l JWaitForEmpty in simp_all)
    then show ?thesis using JWaitForEmpty by simp
  qed
qed

lemma afterWait_simps [simp]: "mayWait job \<Longrightarrow> holds (afterWait job)" "\<not> waitsOn d (afterWait job)"
  by (cases job; simp)+

lemma predicate_local:
  "mlocal s (MPredicate job) \<Longrightarrow> predicate job s \<Longrightarrow> mlocal s (afterWait job)"
  "mlocal s (MPredicate job) \<Longrightarrow> \<not> predicate job s \<Longrightarrow> mlocal s (MSleep job)"
  by (cases job; simp add: predicate_def)+

lemma thread_ok:
  assumes ok: "mutex_ok s"
  shows "mutex_ok (threadStep pick t s)"
proof -
  have l: "mlocal s (mt_threads s t)" and h: "holds (mt_threads s t) \<Longrightarrow> mt_owner s = Some t"
    using ok by (simp_all add: mutex_ok_def)
  note go = step_goto [OF ok] and rf = step_refuse [OF ok]
  have same: "s\<lparr>mt_inflight := mt_inflight s\<rparr> = s" by simp
  show ?thesis
  proof (cases "mt_threads s t")
    case (MLock job)
    show ?thesis using MLock l by (cases job) (auto simp: threadStep_def intro!: step_lock [OF ok])
  next
    case (MTest job)
    have "mutex_ok (refuse t job s)" using rf [of job t "mt_inflight s"] h MTest by (simp add: same)
    moreover have "mutex_ok (goto t (MCount job) s)" by (rule go) (use MTest l h in simp_all)
    ultimately show ?thesis using MTest by (simp add: threadStep_def)
  next
    case (MCount job)
    have "mutex_ok (goto t (MRetest job) (s\<lparr>mt_inflight := mt_inflight s + 1\<rparr>))"
      by (rule step_count [OF ok]) (use MCount l h in simp_all)
    then show ?thesis using MCount by (simp add: threadStep_def)
  next
    case (MRetest job)
    have "mutex_ok (goto t (MUndo job) s)" if "mt_shutdown s" by (rule go) (use MRetest l h that in simp_all)
    moreover have "mutex_ok (entered t job s)"
      unfolding entered_def by (rule go) (use MRetest l h in \<open>simp_all split: if_splits\<close>)
    ultimately show ?thesis using MRetest by (simp add: threadStep_def)
  next
    case (MUndo job)
    show ?thesis using rf [of job t "mt_inflight s - 1"] h MUndo by (simp add: threadStep_def)
  next
    case (MBody job)
    show ?thesis using body_ok [OF ok MBody] MBody by (simp add: threadStep_def)
  next
    case (MPredicate job)
    have "mutex_ok (goto t (afterWait job) s)" if "predicate job s"
      by (rule go) (use MPredicate l h predicate_local(1) [OF _ that] in simp_all)
    moreover have "mutex_ok (goto t (MSleep job) s)" if "\<not> predicate job s"
      by (rule go) (use MPredicate l h predicate_local(2) [OF _ that] in simp_all)
    ultimately have "mutex_ok (goto t (if predicate job s then afterWait job else MSleep job) s)" by simp
    then show ?thesis using MPredicate by (simp add: threadStep_def)
  next
    case (MSleep job)
    show ?thesis using sleep_ok [OF ok MSleep] MSleep by (simp add: threadStep_def)
  next
    case (MWoken job late)
    have "late \<longrightarrow> mlocal s (afterWait job)" using MWoken l by (cases job) simp_all
    then have "mutex_ok (lockTo t (if late then afterWait job else MPredicate job) s)"
      by (intro step_lock [OF ok]) (use MWoken l in \<open>simp_all split: if_splits\<close>)
    then show ?thesis using MWoken by (simp add: threadStep_def)
  next
    case (MDecide job)
    have "mutex_ok (unlockTo t (MNotify (mt_items s = []) (Item None)) s)"
      by (rule step_unlock [OF ok]) (use MDecide l h in simp_all)
    moreover have "mutex_ok (goto t (MTake job) s)" if "\<not> mt_shutdown s"
      by (rule go) (use MDecide l h that in auto)
    ultimately show ?thesis using MDecide by (simp add: threadStep_def)
  next
    case (MTake job)
    show ?thesis using take_ok [OF ok MTake] MTake by (simp add: threadStep_def)
  next
    case MPushed
    have "mutex_ok (goto t (MLeave Pushed) (notifyOne pick s))"
      by (rule after_notify [OF notifyOne_ok [OF ok]]) (simp_all add: MPushed)
    then show ?thesis using MPushed by (simp add: threadStep_def)
  next
    case (MNotify drained answer)
    have "mutex_ok (goto t (MLeave answer) (notifyAllEmpty s))" "mutex_ok (goto t (MLeave answer) (notifyOne pick s))"
      by (rule after_notify [OF notifyAll_ok(2) [OF ok]] after_notify [OF notifyOne_ok [OF ok]]; simp add: MNotify)+
    then show ?thesis using MNotify by (simp add: threadStep_def)
  next
    case (MLeave answer)
    have "mutex_ok (goto t (MReady (Some answer)) (s\<lparr>mt_inflight := mt_inflight s - 1\<rparr>))"
      by (rule step_count [OF ok]) (use MLeave in simp_all)
    then show ?thesis using MLeave by (simp add: threadStep_def)
  next
    case MShutFlag
    have "mutex_ok (goto t MShutNotify (s\<lparr>mt_shutdown := True\<rparr>))"
      by (rule own_step [OF ok]) (use MShutFlag ok in \<open>simp_all add: mutex_ok_def counters_ok_def\<close>)
    then show ?thesis using MShutFlag by (simp add: threadStep_def)
  next
    case MShutNotify
    have e: "mutex_ok (notifyAllEmpty s)" "woken s (notifyAllEmpty s)" using notifyAll_ok [OF ok] by simp_all
    have "mutex_ok (goto t MShutWait (notifyAllNotEmpty (notifyAllEmpty s)))"
      by (rule after_notify [of _ s])
        (use notifyAll_ok(1) [OF e(1)] woken_trans [OF e(2)] MShutNotify in simp_all)
    then show ?thesis using MShutNotify by (simp add: threadStep_def)
  next
    case MShutWait
    have "mutex_ok (goto t (MReady (Some ShutDown)) s)" by (rule go) (use MShutWait in simp_all)
    then show ?thesis using MShutWait ok by (simp add: threadStep_def)
  qed (use ok in \<open>simp_all add: threadStep_def\<close>)
qed

lemma timeOver_ok:
  assumes "mutex_ok s"
  shows "mutex_ok (timeOver t s)" and "woken s (timeOver t s)"
  using wakeUp_ok [OF assms, of True t] assms
  by (auto simp: timeOver_def split: mpc.splits)

lemma call_ok:
  assumes "mutex_ok s" and "mt_threads s t = MReady answer" and "callable job"
  shows "mutex_ok (startCall t job s)"
  unfolding startCall_def
  by (rule step_goto [OF assms(1)]) (use assms(2,3) in \<open>cases job; simp\<close>)+

lemma mutex_step_ok: "mutex_step allowed s s' \<Longrightarrow> mutex_ok s \<Longrightarrow> mutex_ok s'"
proof (induction rule: mutex_step.induct)
  case (mutex_shutdown s t answer)
  then show ?case by (intro step_goto) simp_all
qed (simp_all add: thread_ok timeOver_ok call_ok wakeUp_ok)

lemma mutex_init_ok: "mutex_init s \<Longrightarrow> mutex_ok s"
  by (simp add: mutex_init_def newMutexQueue_def mutex_ok_def waiters_ok_def counters_ok_def)

interpretation mutex: invariant_system mutex_init "mutex_step allowed" mutex_ok for allowed
  by unfold_locales (rule mutex_init_ok mutex_step_ok; assumption)+

end
