(* ===== verification/MutexQueueProps.thy ===== *)
theory MutexQueueProps
  imports MutexQueueInv
begin

text \<open>
  What \<open>Dmn_BlockingQueue_Mt\<close> guarantees and what it does not: it is an atomic FIFO queue for any
  number of threads, single pops do not lose a wake-up, but a batch pop swallows one, and a shutdown
  can wait for ever for a pop that it did not wake up.
\<close>

section \<open>The atomic queue\<close>

fun mview :: "'a mpc \<Rightarrow> 'a status" where
  "mview (MReady answer) = Outside answer"
| "mview MFailed = Stopped"
| "mview (MLock job) = started job"
| "mview (MTest job) = started job"
| "mview (MCount job) = started job"
| "mview (MRetest job) = started job"
| "mview (MUndo job) = started job"
| "mview (MBody job) = started job"
| "mview (MPredicate job) = started job"
| "mview (MSleep job) = started job"
| "mview (MWaiting job) = started job"
| "mview (MWoken job late) = started job"
| "mview (MDecide job) = started job"
| "mview (MTake job) = started job"
| "mview MPushed = Answered Pushed"
| "mview (MNotify drained answer) = Answered answer"
| "mview (MLeave answer) = Answered answer"
| "mview MShutFlag = Other"
| "mview MShutNotify = Other"
| "mview MShutWait = Other"

definition mutex_sim :: "'a mts \<Rightarrow> 'a fifo \<Rightarrow> bool" where
  "mutex_sim s a \<longleftrightarrow> mutex_ok s \<and> ff_items a = mt_items s \<and> ff_closed a = mt_shutdown s \<and>
     ff_status a = (\<lambda>t. mview (mt_threads s t))"

lemma mview_wake [simp]: "mview (wakeThread late pc) = mview pc"
  by (cases pc) simp_all

lemma woken_view: "woken s s' \<Longrightarrow> mview (mt_threads s' u) = mview (mt_threads s u)"
  unfolding woken_def by (metis mview_wake)

lemma sim_moves:
  assumes sim: "mutex_sim s a" and ok: "mutex_ok s'" and m: "moves a t st (mt_items s') (mt_shutdown s')"
    and v: "\<And>u. mview (mt_threads s' u) = (if u = t then st else mview (mt_threads s u))"
  shows "\<exists>a'. fifo_step\<^sup>*\<^sup>* a a' \<and> mutex_sim s' a'"
proof -
  obtain a' where a': "fifo_step\<^sup>*\<^sup>* a a'" "ff_items a' = mt_items s'" "ff_closed a' = mt_shutdown s'"
    "ff_status a' = (ff_status a)(t := st)" using m unfolding moves_def by blast
  have "ff_status a' = (\<lambda>u. mview (mt_threads s' u))"
    using sim by (simp add: a'(4) v mutex_sim_def fun_eq_iff)
  then show ?thesis using a' ok unfolding mutex_sim_def by blast
qed

lemma sim_woken: "mutex_sim s a \<Longrightarrow> mutex_ok s' \<Longrightarrow> woken s s' \<Longrightarrow> mutex_sim s' a"
  using woken_view [of s s'] by (simp add: mutex_sim_def woken_def)

lemma lockTo_simps [simp]:
  "mt_items (lockTo t pc s) = mt_items s" "mt_shutdown (lockTo t pc s) = mt_shutdown s"
  "mview pc = mview (mt_threads s t) \<Longrightarrow> mview (mt_threads (lockTo t pc s) u) = mview (mt_threads s u)"
  by (simp_all add: lockTo_def split: option.split)

lemma unlockTo_simps [simp]:
  "mt_items (unlockTo t pc s) = mt_items s" "mt_shutdown (unlockTo t pc s) = mt_shutdown s"
  "mt_threads (unlockTo t pc s) = (mt_threads s)(t := pc)"
  "mt_not_empty (unlockTo t pc s) = mt_not_empty s"
  by (simp_all add: unlockTo_def)

lemma mview_afterWait [simp]: "mview (afterWait job) = started job"
  by (cases job) simp_all

text \<open>The steps that change nothing in the atomic queue.\<close>

definition invisible :: "'a mts \<Rightarrow> 'a mts \<Rightarrow> bool" where
  "invisible s s' \<longleftrightarrow> mt_items s' = mt_items s \<and> mt_shutdown s' = mt_shutdown s \<and>
     (\<forall>u. mview (mt_threads s' u) = mview (mt_threads s u))"

lemma sim_invisible: "mutex_sim s a \<Longrightarrow> mutex_ok s' \<Longrightarrow> invisible s s' \<Longrightarrow> \<exists>a'. fifo_step\<^sup>*\<^sup>* a a' \<and> mutex_sim s' a'"
  unfolding mutex_sim_def invisible_def by (intro exI [of _ a]) simp

lemma sim_refuse:
  assumes sim: "mutex_sim s a" and ok: "mutex_ok (refuse t job (s\<lparr>mt_inflight := n\<rparr>))"
    and view: "mview (mt_threads s t) = started job" and job: "callable job" "\<not> isDrain job" and shut: "mt_shutdown s"
  shows "\<exists>a'. fifo_step\<^sup>*\<^sup>* a a' \<and> mutex_sim (refuse t job (s\<lparr>mt_inflight := n\<rparr>)) a'"
proof (rule sim_moves [OF sim ok, of t "Outside (Some Threw)"])
  have a: "ff_status a t = started job" "ff_closed a" "ff_items a = mt_items s"
    using sim view shut by (simp_all add: mutex_sim_def)
  have "ff_closed a \<and> ((\<exists>v. ff_status a t = Pushing v) \<or> ff_status a t = Popping [])"
    using a job by (cases job) simp_all
  then have "fifo_step a (setStatus t (Answered Threw) a)" by (auto intro: fifo_reject)
  then show "moves a t (Outside (Some Threw)) (mt_items (refuse t job (s\<lparr>mt_inflight := n\<rparr>)))
      (mt_shutdown (refuse t job (s\<lparr>mt_inflight := n\<rparr>)))"
    by (rule answer_moves) (use a shut in \<open>simp_all add: refuse_def\<close>)
qed (simp add: refuse_def)

lemma sim_body:
  assumes sim: "mutex_sim s a" and pc: "mt_threads s t = MBody job"
  shows "\<exists>a'. fifo_step\<^sup>*\<^sup>* a a' \<and> mutex_sim (bodyStep t job s) a'"
proof -
  have "mutex_ok s" using sim by (simp add: mutex_sim_def)
  then have ok: "mutex_ok (bodyStep t job s)" using pc by (rule body_ok)
  have a: "ff_status a t = started job" "ff_items a = mt_items s" "ff_closed a = mt_shutdown s"
    using sim pc by (simp_all add: mutex_sim_def)
  show ?thesis
  proof (cases "invisible s (bodyStep t job s)")
    case True
    then show ?thesis by (rule sim_invisible [OF sim ok])
  next
    case visible: False
    show ?thesis
    proof (cases job)
      case (JPush v)
      show ?thesis
        by (rule sim_moves [OF sim ok, of t "Answered Pushed"], rule moves_enqueue [of _ _ v])
          (use a in \<open>simp_all add: JPush\<close>)
    next
      case (JPop wait)
      have e: "mt_items s = []" "\<not> wait" using visible pc JPop by (auto simp: invisible_def split: if_splits)
      have "moves a t (Answered (Item None)) [] (mt_shutdown s)"
        by (rule moves_then [OF fifo_nothing [of a t "[]"] fifo_no_item]) (use a e in \<open>simp_all add: JPop setStatus_def\<close>)
      then show ?thesis using e
        by (intro sim_moves [OF sim ok, of t "Answered (Item None)"]) (simp_all add: JPop)
    qed (use visible pc in \<open>auto simp: invisible_def split: if_splits\<close>)
  qed
qed

lemma sim_take:
  assumes sim: "mutex_sim s a" and pc: "mt_threads s t = MTake job"
  shows "\<exists>a'. fifo_step\<^sup>*\<^sup>* a a' \<and> mutex_sim (takeStep t job s) a'"
proof -
  have ok0: "mutex_ok s" using sim by (simp add: mutex_sim_def)
  then have ok: "mutex_ok (takeStep t job s)" using pc by (rule take_ok)
  have "mlocal s (mt_threads s t)" using ok0 by (simp add: mutex_ok_def)
  then have l: "mlocal s (MTake job)" by (simp add: pc)
  have a: "ff_status a t = started job" "ff_items a = mt_items s" "ff_closed a = mt_shutdown s"
    using sim pc by (simp_all add: mutex_sim_def)
  show ?thesis
  proof (cases job)
    case (JPop wait)
    obtain x rest where items: "mt_items s = x # rest" using l JPop by (cases "mt_items s") simp_all
    have "moves a t (Answered (Item (Some x))) rest (mt_shutdown s)"
      by (rule moves_trans [OF moves_dequeue [of a t "[]" x rest]])
        (use a items JPop in \<open>auto intro!: moves_simple fifo_item\<close>)
    then show ?thesis using items
      by (intro sim_moves [OF sim ok, of t "Answered (Item (Some x))"]) (simp_all add: JPop)
  next
    case (JPopMany wanted timed collected)
    have c: "collected = []" using l JPopMany by simp
    have "moves a t (Answered (Items (take wanted (mt_items s)))) (drop wanted (mt_items s)) (mt_shutdown s)"
      by (rule moves_trans [OF moves_dequeue_many [of a t "[]" "take wanted (mt_items s)" "drop wanted (mt_items s)"]])
        (use a JPopMany c in \<open>auto intro!: moves_simple fifo_items\<close>)
    then show ?thesis
      by (intro sim_moves [OF sim ok, of t "Answered (Items (take wanted (mt_items s)))"]) (simp_all add: JPopMany Let_def)
  next
    case JWaitForEmpty
    show ?thesis
    proof (cases "mt_pop_count s = mt_push_count s")
      case True
      have "moves a t (Outside (Some (PushCount (mt_push_count s)))) (mt_items s) (mt_shutdown s)"
        by (rule answer_moves [OF fifo_other]) (use a JWaitForEmpty in simp_all)
      then show ?thesis using True
        by (intro sim_moves [OF sim ok, of t "Outside (Some (PushCount (mt_push_count s)))"]) (simp_all add: JWaitForEmpty)
    next
      case False
      have "moves a t Stopped (mt_items s) (mt_shutdown s)" by (rule moves_simple [OF fifo_stop]) (use a in simp_all)
      then show ?thesis using False
        by (intro sim_moves [OF sim ok, of t Stopped]) (simp_all add: JWaitForEmpty)
    qed
  qed (use l in simp)
qed

lemma woken_invisible: "woken s s1 \<Longrightarrow> mview pc = mview (mt_threads s t) \<Longrightarrow> invisible s (goto t pc s1)"
  using woken_view [of s s1] by (simp add: invisible_def woken_def)

lemma sim_thread:
  assumes sim: "mutex_sim s a"
  shows "\<exists>a'. fifo_step\<^sup>*\<^sup>* a a' \<and> mutex_sim (threadStep pick t s) a'"
proof (cases "invisible s (threadStep pick t s)")
  case True
  have "mutex_ok s" using sim by (simp add: mutex_sim_def)
  from sim_invisible [OF sim thread_ok [OF this] True] show ?thesis .
next
  case visible: False
  have ok: "mutex_ok s" using sim by (simp add: mutex_sim_def)
  note ok' = thread_ok [OF ok, of pick t]
  have l: "mlocal s (mt_threads s t)" using ok by (simp add: mutex_ok_def)
  have a: "ff_status a t = mview (mt_threads s t)" "ff_items a = mt_items s" "ff_closed a = mt_shutdown s"
    using sim by (simp_all add: mutex_sim_def)
  have same: "s\<lparr>mt_inflight := mt_inflight s\<rparr> = s" by simp
  show ?thesis
  proof (cases "mt_threads s t")
    case (MTest job)
    have shut: "mt_shutdown s" using visible MTest by (auto simp: threadStep_def invisible_def split: if_splits)
    show ?thesis
      using sim_refuse [OF sim, of t job "mt_inflight s"] ok' MTest l shut by (simp add: same threadStep_def)
  next
    case (MUndo job)
    show ?thesis using sim_refuse [OF sim, of t job "mt_inflight s - 1"] ok' MUndo l by (simp add: threadStep_def)
  next
    case (MBody job)
    show ?thesis using sim_body [OF sim MBody] MBody by (simp add: threadStep_def)
  next
    case (MTake job)
    show ?thesis using sim_take [OF sim MTake] MTake by (simp add: threadStep_def)
  next
    case (MDecide job)
    have shut: "mt_shutdown s" using visible MDecide by (auto simp: threadStep_def invisible_def split: if_splits)
    have job: "job = JPop True" using l MDecide by simp
    have "moves a t (Answered (Item None)) (mt_items s) (mt_shutdown s)"
      by (rule moves_then [OF fifo_nothing [of a t "[]"] fifo_no_item])
        (use a shut MDecide job in \<open>simp_all add: setStatus_def\<close>)
    then show ?thesis using shut MDecide job
      by (intro sim_moves [OF sim ok', of t "Answered (Item None)"]) (simp_all add: threadStep_def)
  next
    case (MLeave answer)
    have "fifo_step a (setStatus t (Outside (Some answer)) a)" using a MLeave by (intro fifo_return) simp
    then have "moves a t (Outside (Some answer)) (mt_items s) (mt_shutdown s)" using a by (intro moves_simple) simp_all
    then show ?thesis using MLeave
      by (intro sim_moves [OF sim ok', of t "Outside (Some answer)"]) (simp_all add: threadStep_def)
  next
    case MShutFlag
    have "moves a t Other (mt_items s) True" by (rule moves_close) (use a MShutFlag in simp_all)
    then show ?thesis using MShutFlag by (intro sim_moves [OF sim ok', of t Other]) (simp_all add: threadStep_def)
  next
    case MShutWait
    have none: "mt_inflight s = 0"
    proof (rule ccontr)
      assume "mt_inflight s \<noteq> 0"
      then show False using visible MShutWait by (simp add: threadStep_def invisible_def word_neq_0_conv)
    qed
    have "moves a t (Outside (Some ShutDown)) (mt_items s) (mt_shutdown s)"
      by (rule answer_moves [OF fifo_shutdown]) (use a MShutWait in simp_all)
    then show ?thesis using MShutWait none
      by (intro sim_moves [OF sim ok', of t "Outside (Some ShutDown)"]) (simp_all add: threadStep_def)
  next
    case MPushed
    have "invisible s (goto t (MLeave Pushed) (notifyOne pick s))"
      by (rule woken_invisible) (use notifyOne_ok [OF ok] MPushed in simp_all)
    then show ?thesis using visible MPushed by (simp add: threadStep_def)
  next
    case (MNotify drained answer)
    have "invisible s (goto t (MLeave answer) (if drained then notifyAllEmpty s else notifyOne pick s))"
      by (rule woken_invisible) (use notifyOne_ok [OF ok] notifyAll_ok [OF ok] MNotify in simp_all)
    then show ?thesis using visible MNotify by (simp add: threadStep_def)
  next
    case MShutNotify
    have "woken s (notifyAllNotEmpty (notifyAllEmpty s))"
      using notifyAll_ok [OF ok] notifyAll_ok(1) [of "notifyAllEmpty s"] by (auto intro: woken_trans)
    from woken_invisible [OF this, of MShutWait t] show ?thesis using visible MShutNotify by (simp add: threadStep_def)
  qed (use visible in \<open>auto simp: threadStep_def invisible_def entered_def sleepStep_def split: if_splits\<close>)
qed

lemma sim_mutex_step:
  assumes sim: "mutex_sim s a" and step: "mutex_step allowed s s'"
  shows "\<exists>a'. fifo_step\<^sup>*\<^sup>* a a' \<and> mutex_sim s' a'"
  using step
proof cases
  case (mutex_run pick t)
  then show ?thesis using sim_thread [OF sim] by simp
next
  case (mutex_time t)
  then show ?thesis using sim_woken [OF sim] timeOver_ok [of s t] sim by (auto simp: mutex_sim_def)
next
  case (mutex_spurious t)
  then show ?thesis using sim_woken [OF sim] wakeUp_ok [of s False t] sim by (auto simp: mutex_sim_def)
next
  case (mutex_call t answer job)
  have ok: "mutex_ok s'" using sim step by (auto simp: mutex_sim_def intro: mutex_step_ok)
  have "moves a t (started job) (mt_items s) (mt_shutdown s)"
    by (rule moves_simple [OF fifo_call]) (use sim mutex_call in \<open>simp_all add: mutex_sim_def\<close>)
  then show ?thesis using mutex_call
    by (intro sim_moves [OF sim ok, of t "started job"]) (simp_all add: startCall_def)
next
  case (mutex_shutdown t answer)
  have ok: "mutex_ok s'" using sim step by (auto simp: mutex_sim_def intro: mutex_step_ok)
  have "moves a t Other (mt_items s) (mt_shutdown s)"
    by (rule moves_simple [OF fifo_control]) (use sim mutex_shutdown in \<open>simp_all add: mutex_sim_def\<close>)
  then show ?thesis using mutex_shutdown by (intro sim_moves [OF sim ok, of t Other]) simp_all
qed

lemma sim_mutex_init: "mutex_init s \<Longrightarrow> \<exists>a. fifo_init a \<and> mutex_sim s a"
  using mutex_init_ok [of s] by (simp add: fifo_init_def mutex_sim_def mutex_init_def newMutexQueue_def)

interpretation mutex_fifo: forward_simulation mutex_init "mutex_step allowed" fifo_init fifo_step mutex_sim for allowed
  by unfold_locales (blast intro: sim_mutex_init sim_mutex_step)+

section \<open>Wake-ups\<close>

fun jobOf :: "'a mpc \<Rightarrow> 'a job option" where
  "jobOf (MLock job) = Some job"
| "jobOf (MTest job) = Some job"
| "jobOf (MCount job) = Some job"
| "jobOf (MRetest job) = Some job"
| "jobOf (MUndo job) = Some job"
| "jobOf (MBody job) = Some job"
| "jobOf (MPredicate job) = Some job"
| "jobOf (MSleep job) = Some job"
| "jobOf (MWaiting job) = Some job"
| "jobOf (MWoken job late) = Some job"
| "jobOf (MDecide job) = Some job"
| "jobOf (MTake job) = Some job"
| "jobOf pc = None"

text \<open>Every call but the batch pop.\<close>

fun single :: "'a job \<Rightarrow> bool" where
  "single (JPopMany wanted timed items) = False"
| "single job = True"

text \<open>A thread that is about to take an item or to notify a waiting thread.\<close>

fun onWay :: "'a mpc \<Rightarrow> bool" where
  "onWay (MWoken job late) \<longleftrightarrow> \<not> isDrain job"
| "onWay (MPredicate job) \<longleftrightarrow> \<not> isDrain job"
| "onWay (MDecide job) \<longleftrightarrow> True"
| "onWay (MTake job) \<longleftrightarrow> \<not> isDrain job"
| "onWay MPushed \<longleftrightarrow> True"
| "onWay (MNotify drained answer) \<longleftrightarrow> \<not> drained"
| "onWay pc \<longleftrightarrow> False"

fun drains :: "'a mpc \<Rightarrow> bool" where
  "drains (MNotify drained answer) = drained"
| "drains pc = False"

lemma other_threads [simp]:
  assumes "u \<noteq> t"
  shows "mt_threads (bodyStep t job s) u = mt_threads s u" "mt_threads (takeStep t job s) u = mt_threads s u"
    "mt_threads (refuse t job s) u = mt_threads s u" "mt_threads (entered t job s) u = mt_threads s u"
    "mt_threads (lockTo t pc s) u = mt_threads s u" "mt_threads (sleepStep t job s) u = mt_threads s u"
  using assms
  by ((cases job; simp add: Let_def split: list.split),
      (cases job; simp add: Let_def split: list.split),
      simp_all add: refuse_def entered_def lockTo_def sleepStep_def split: option.split)

lemma wake_others:
  assumes "mutex_ok s" and "u \<noteq> t" and "\<And>d. \<not> waitsOn d (mt_threads s u)"
  shows "mt_threads (threadStep pick t s) u = mt_threads s u"
proof -
  have w: "woken s (notifyOne pick s)" "woken s (notifyAllEmpty s)" "woken s (notifyAllNotEmpty (notifyAllEmpty s))"
    using notifyOne_ok [OF assms(1)] notifyAll_ok [OF assms(1)] notifyAll_ok(1) [of "notifyAllEmpty s"]
    by (auto intro: woken_trans)
  have "mt_threads s1 u = mt_threads s u" if "woken s s1" for s1
    using that wakeThread_id [of "mt_threads s u"] assms(3) unfolding woken_def by metis
  from this [OF w(1)] this [OF w(2)] this [OF w(3)] show ?thesis
    using assms(2) by (cases "mt_threads s t") (simp_all add: threadStep_def)
qed

lemma wakeUp_lists [simp]:
  "mt_not_empty (wakeUp late t s) = remove1 t (mt_not_empty s)" "mt_empty (wakeUp late t s) = remove1 t (mt_empty s)"
  "mt_items (wakeUp late t s) = mt_items s"
  by (simp_all add: wakeUp_def)

lemma wakeAll_lists:
  "mt_not_empty (fold (wakeUp False) ts s) = fold remove1 ts (mt_not_empty s)"
  "mt_empty (fold (wakeUp False) ts s) = fold remove1 ts (mt_empty s)"
  by (induction ts arbitrary: s) simp_all

lemma remove_all: "fold remove1 ts ts = []"
  by (induction ts) simp_all

lemma notifyAllEmpty_clears: "mt_empty (notifyAllEmpty s) = []"
  by (simp add: notifyAllEmpty_def wakeAll_lists remove_all)

lemma remove1_nil: "fold remove1 ts [] = []"
  by (induction ts) simp_all

lemma notifyAllNotEmpty_clears: "mt_not_empty (notifyAllNotEmpty s) = []" "mt_empty s = [] \<Longrightarrow> mt_empty (notifyAllNotEmpty s) = []"
  by (simp_all add: notifyAllNotEmpty_def wakeAll_lists remove_all remove1_nil)

text \<open>A notification of a single pop finds a thread to wake up.\<close>

lemma notifyOne_wakes:
  assumes ok: "mutex_ok s" and "mt_not_empty s \<noteq> []"
  obtains u job where "mt_threads s u = MWaiting job" "\<not> isDrain job" "mt_threads (notifyOne pick s) u = MWoken job False"
proof -
  let ?u = "mt_not_empty s ! (pick mod length (mt_not_empty s))"
  have n: "notifyOne pick s = wakeUp False ?u s" using assms(2) by (simp add: notifyOne_def split: list.split)
  have "?u \<in> set (mt_not_empty s)" using assms(2) by (intro nth_mem) simp
  then have "waitsOn False (mt_threads s ?u)" using ok by (simp add: mutex_ok_def waiters_ok_def)
  then obtain job where "mt_threads s ?u = MWaiting job" "\<not> isDrain job" by (cases "mt_threads s ?u") simp_all
  then show ?thesis using that n by (simp add: wakeUp_def)
qed

lemma simple_lists [simp]:
  "mt_not_empty (bodyStep t job s) = mt_not_empty s" "mt_not_empty (takeStep t job s) = mt_not_empty s"
  "mt_not_empty (refuse t job s) = mt_not_empty s" "mt_not_empty (entered t job s) = mt_not_empty s"
  "mt_not_empty (lockTo t pc s) = mt_not_empty s"
  "mt_empty (bodyStep t job s) = mt_empty s" "mt_empty (takeStep t job s) = mt_empty s"
  "mt_empty (refuse t job s) = mt_empty s" "mt_empty (entered t job s) = mt_empty s"
  "mt_empty (lockTo t pc s) = mt_empty s" "mt_empty (unlockTo t pc s) = mt_empty s"
  by ((cases job; simp add: Let_def unlockTo_def split: list.split),
      (cases job; simp add: Let_def unlockTo_def split: list.split),
      simp add: refuse_def unlockTo_def, simp add: entered_def, simp add: lockTo_def split: option.split,
      (cases job; simp add: Let_def unlockTo_def split: list.split),
      (cases job; simp add: Let_def unlockTo_def split: list.split),
      simp_all add: refuse_def unlockTo_def entered_def lockTo_def split: option.split)

lemma notify_lists:
  "mt_items (notifyOne pick s) = mt_items s" "mt_not_empty s = [] \<Longrightarrow> notifyOne pick s = s"
  "mt_empty s = [] \<Longrightarrow> mt_empty (notifyOne pick s) = []"
  "mt_not_empty s = [] \<Longrightarrow> mt_not_empty (notifyAllEmpty s) = []"
  by (simp_all add: notifyOne_def notifyAllEmpty_def wakeAll_lists remove1_nil split: list.split)

lemma step_lists:
  assumes "\<And>job. mt_threads s t \<noteq> MSleep job"
  shows "mt_empty s = [] \<Longrightarrow> mt_empty (threadStep pick t s) = []"
    and "mt_not_empty s = [] \<Longrightarrow> mt_not_empty (threadStep pick t s) = []"
  using assms
  by (cases "mt_threads s t"; simp add: threadStep_def notify_lists notifyAllEmpty_clears notifyAllNotEmpty_clears)+

lemma step_items:
  assumes "mutex_ok s" and other: "\<And>job. mt_threads s t \<noteq> MBody job" "\<And>job. mt_threads s t \<noteq> MTake job"
  shows "mt_items (threadStep pick t s) = mt_items s"
proof -
  have "mt_items (notifyAllNotEmpty (notifyAllEmpty s)) = mt_items s" "mt_items (notifyAllEmpty s) = mt_items s"
    using notifyAll_ok [OF assms(1)] notifyAll_ok(1) [of "notifyAllEmpty s"] by (simp_all add: woken_def)
  then show ?thesis using other
    by (cases "mt_threads s t") (auto simp: threadStep_def refuse_def entered_def sleepStep_def notify_lists)
qed

text \<open>What the environment does to a thread it does to an idle one.\<close>

definition idle :: "'a mpc \<Rightarrow> bool" where
  "idle pc \<longleftrightarrow> (\<exists>answer. pc = MReady answer) \<or> (\<exists>d. waitsOn d pc)"

lemma wake_idle: "mt_threads (wakeUp late t s) u = mt_threads s u \<or> idle (mt_threads s u)"
  by (cases "mt_threads s t") (simp_all add: wakeUp_def idle_def)

lemma environment:
  assumes "mutex_step allowed s s'"
  obtains (thread) pick t where "s' = threadStep pick t s"
  | (outside) "mutex_step allowed s s'" "mt_items s' = mt_items s" "mt_empty s = [] \<Longrightarrow> mt_empty s' = []"
      "mt_not_empty s = [] \<Longrightarrow> mt_not_empty s' = []" "\<And>u. mt_threads s' u = mt_threads s u \<or> idle (mt_threads s u)"
  using assms
proof cases
  case (mutex_time t)
  show thesis
  proof (rule outside [OF assms])
    fix u
    show "mt_threads s' u = mt_threads s u \<or> idle (mt_threads s u)"
      using wake_idle [of True t s u] by (simp add: mutex_time timeOver_def split: mpc.split)
  qed (simp_all add: mutex_time timeOver_def split: mpc.split)
next
  case (mutex_spurious t)
  then show thesis using wake_idle [of False t s] by (intro outside [OF assms]) simp_all
next
  case (mutex_call t answer job)
  then show thesis by (intro outside [OF assms]) (simp_all add: startCall_def idle_def)
next
  case (mutex_shutdown t answer)
  then show thesis by (intro outside [OF assms]) (simp_all add: idle_def)
qed (rule thread)

section \<open>Waiting for an empty queue\<close>

definition drain_ok :: "'a mts \<Rightarrow> bool" where
  "drain_ok s \<longleftrightarrow> mutex_ok s \<and> (mt_empty s \<noteq> [] \<and> mt_items s = [] \<longrightarrow> (\<exists>u. drains (mt_threads s u)))"

lemma drain_thread:
  assumes ok: "drain_ok s"
  shows "drain_ok (threadStep pick t s)"
proof -
  let ?s = "threadStep pick t s"
  have m: "mutex_ok s" "mutex_ok ?s" and l: "mlocal s (mt_threads s t)"
    using ok thread_ok by (auto simp: drain_ok_def mutex_ok_def)
  have "\<exists>u. drains (mt_threads ?s u)" if waits: "mt_empty ?s \<noteq> []" and none: "mt_items ?s = []"
  proof (cases "\<exists>u. drains (mt_threads s u)")
    case True
    then obtain u where u: "drains (mt_threads s u)" by blast
    then obtain answer where pc: "mt_threads s u = MNotify True answer" by (cases "mt_threads s u") simp_all
    have "u \<noteq> t" using pc waits by (auto simp: threadStep_def notifyAllEmpty_clears)
    then show ?thesis using wake_others [OF m(1), of u t pick] pc by (intro exI [of _ u]) simp
  next
    case False
    then have before: "mt_empty s = [] \<or> mt_items s \<noteq> []" using ok by (auto simp: drain_ok_def)
    show ?thesis
    proof (cases "mt_threads s t")
      case (MSleep job)
      have "mt_items s = []" using none MSleep by (simp add: threadStep_def sleepStep_def split: if_splits)
      then have False using before waits l MSleep
        by (cases job) (simp_all add: threadStep_def sleepStep_def)
      then show ?thesis ..
    next
      case (MBody job)
      have "mt_empty s \<noteq> []" using waits MBody by (simp add: threadStep_def)
      moreover have "mt_items s = []" using none MBody by (cases job) (simp_all add: threadStep_def split: if_splits)
      ultimately show ?thesis using before by simp
    next
      case (MTake job)
      then have s: "?s = takeStep t job s" and w: "mt_empty s \<noteq> []" using waits by (simp_all add: threadStep_def)
      then have "drains (mt_threads ?s t)"
        using none before l MTake by (cases job) (auto simp: Let_def split: list.splits if_splits)
      then show ?thesis by blast
    qed (use before waits none step_lists(1) [of s t pick] step_items [OF m(1), of t pick] in auto)
  qed
  then show ?thesis using m(2) by (simp add: drain_ok_def)
qed

lemma drain_step: "mutex_step allowed s s' \<Longrightarrow> drain_ok s \<Longrightarrow> drain_ok s'"
proof (erule environment)
  fix pick t
  assume "drain_ok s" "s' = threadStep pick t s"
  then show "drain_ok s'" using drain_thread by blast
next
  assume "drain_ok s" "mutex_step allowed s s'"
    and same: "mt_items s' = mt_items s" "mt_empty s = [] \<Longrightarrow> mt_empty s' = []"
    and th: "\<And>u. mt_threads s' u = mt_threads s u \<or> idle (mt_threads s u)"
  moreover have "drains (mt_threads s u) \<Longrightarrow> drains (mt_threads s' u)" for u
    using th [of u] by (cases "mt_threads s u") (auto simp: idle_def)
  ultimately show "drain_ok s'" using mutex_step_ok by (fastforce simp: drain_ok_def)
qed

lemma drain_init: "mutex_init s \<Longrightarrow> drain_ok s"
  using mutex_init_ok by (auto simp: drain_ok_def mutex_init_def newMutexQueue_def)

interpretation drain: invariant_system mutex_init "mutex_step allowed" drain_ok for allowed
  by unfold_locales (blast intro: drain_init drain_step)+

text \<open>
  A thread that waits for the queue to become empty is not forgotten, whatever the other calls are:
  when the queue is empty, some thread has taken the last item and is about to notify all of them.
\<close>

theorem drain_notified:
  assumes "reachable mutex_init (mutex_step allowed) s" and "mt_empty s \<noteq> []" and "mt_items s = []"
  shows "\<exists>u answer. mt_threads s u = MNotify True answer"
proof -
  obtain u where "drains (mt_threads s u)" using drain.reachable_inv [OF assms(1)] assms(2,3) by (auto simp: drain_ok_def)
  then show ?thesis by (cases "mt_threads s u") auto
qed

section \<open>Single pops\<close>

lemma jobOf_wake [simp]: "jobOf (wakeThread late pc) = jobOf pc"
  by (cases pc) simp_all

lemma woken_job: "woken s s' \<Longrightarrow> jobOf (mt_threads s' u) = jobOf (mt_threads s u)"
  unfolding woken_def by (metis jobOf_wake)

lemma body_job: "jobOf (mt_threads (bodyStep t job s) t) \<in> {None, Some job}"
  by (cases job) (simp_all split: if_splits)

lemma take_job: "jobOf (mt_threads s t) = Some job \<Longrightarrow> jobOf (mt_threads (takeStep t job s) t) \<in> {None, Some job}"
  by (cases job) (simp_all add: Let_def split: list.split)

lemma afterWait_job [simp]: "jobOf (afterWait job) = Some job"
  by (cases job) simp_all

lemma step_jobs:
  assumes ok: "mutex_ok s" and job: "jobOf (mt_threads (threadStep pick t s) u) = Some job"
  shows "jobOf (mt_threads s u) = Some job"
proof -
  have w: "woken s (notifyOne pick s)" "woken s (notifyAllEmpty s)" "woken s (notifyAllNotEmpty (notifyAllEmpty s))"
    using notifyOne_ok [OF ok] notifyAll_ok [OF ok] notifyAll_ok(1) [of "notifyAllEmpty s"] by (auto intro: woken_trans)
  show ?thesis
  proof (cases "u = t")
    case False
    then show ?thesis using job
      by (cases "mt_threads s t") (simp_all add: threadStep_def woken_job [OF w(1)] woken_job [OF w(2)] woken_job [OF w(3)] split: if_splits)
  next
    case True
    show ?thesis
    proof (cases "mt_threads s t")
      case (MBody job')
      then show ?thesis using job True body_job [of t job' s] by (simp add: threadStep_def)
    next
      case (MTake job')
      then show ?thesis using job True take_job [of s t job'] by (simp add: threadStep_def)
    qed (use job True in \<open>auto simp: threadStep_def refuse_def entered_def lockTo_def sleepStep_def split: if_splits option.splits\<close>)
  qed
qed

definition pops_ok :: "'a mts \<Rightarrow> bool" where
  "pops_ok s \<longleftrightarrow> mutex_ok s \<and> (\<forall>u job. jobOf (mt_threads s u) = Some job \<longrightarrow> single job) \<and>
     (mt_not_empty s \<noteq> [] \<and> mt_items s \<noteq> [] \<longrightarrow> (\<exists>u. onWay (mt_threads s u)))"

text \<open>The thread that is on its way stays on it, or hands over to the thread that it wakes up.\<close>

lemma onWay_step:
  assumes ok: "pops_ok s" and way: "onWay (mt_threads s t)"
    and waits: "mt_not_empty (threadStep pick t s) \<noteq> []" and some: "mt_items (threadStep pick t s) \<noteq> []"
  shows "\<exists>u. onWay (mt_threads (threadStep pick t s) u)"
proof -
  have m: "mutex_ok s" and l: "mlocal s (mt_threads s t)" and j: "\<And>job. jobOf (mt_threads s t) = Some job \<Longrightarrow> single job"
    using ok by (auto simp: pops_ok_def mutex_ok_def)
  have notified: "\<exists>u. u \<noteq> t \<and> onWay (mt_threads (notifyOne pick s) u)" if "\<not> waitsOn False (mt_threads s t)"
  proof -
    have "mt_not_empty s \<noteq> []" using step_lists(2) [of s t pick] waits way by (cases "mt_threads s t") auto
    from notifyOne_wakes [OF m this, of pick] obtain u job where
      "mt_threads s u = MWaiting job" "\<not> isDrain job" "mt_threads (notifyOne pick s) u = MWoken job False" .
    then show ?thesis using that by (intro exI [of _ u]) auto
  qed
  show ?thesis
  proof (cases "mt_threads s t")
    case (MWoken job late)
    then show ?thesis using l way j
      by (intro exI [of _ t]) (cases job; auto simp: threadStep_def lockTo_def split: option.split)
  next
    case (MPredicate job)
    then show ?thesis using l way j some
      by (intro exI [of _ t]) (cases job; auto simp: threadStep_def predicate_def)
  next
    case (MDecide job)
    then show ?thesis using l some by (intro exI [of _ t]) (auto simp: threadStep_def split: if_splits)
  next
    case (MTake job)
    then show ?thesis using l way j some
      by (intro exI [of _ t]) (cases job; auto simp: threadStep_def split: list.splits)
  next
    case MPushed
    then show ?thesis using notified by (auto simp: threadStep_def)
  next
    case (MNotify drained answer)
    then show ?thesis using notified way by (auto simp: threadStep_def)
  qed (use way in simp_all)
qed

lemma pops_thread:
  assumes ok: "pops_ok s"
  shows "pops_ok (threadStep pick t s)"
proof -
  let ?s = "threadStep pick t s"
  have m: "mutex_ok s" and l: "mlocal s (mt_threads s t)" and j: "\<And>u job. jobOf (mt_threads s u) = Some job \<Longrightarrow> single job"
    using ok by (auto simp: pops_ok_def mutex_ok_def)
  have "\<exists>u. onWay (mt_threads ?s u)" if waits: "mt_not_empty ?s \<noteq> []" and some: "mt_items ?s \<noteq> []"
  proof (cases "\<exists>u. onWay (mt_threads s u)")
    case True
    then obtain u where u: "onWay (mt_threads s u)" by blast
    show ?thesis
    proof (cases "u = t")
      case True
      then show ?thesis using onWay_step [OF ok _ waits some] u by simp
    next
      case False
      have "\<not> waitsOn d (mt_threads s u)" for d using u by (cases "mt_threads s u") simp_all
      then show ?thesis using wake_others [OF m False] u by metis
    qed
  next
    case False
    then have before: "mt_not_empty s = [] \<or> mt_items s = []" using ok by (auto simp: pops_ok_def)
    show ?thesis
    proof (cases "mt_threads s t")
      case (MSleep job)
      have "mt_items s \<noteq> []" using some MSleep by (simp add: threadStep_def sleepStep_def split: if_splits)
      then have False using before waits l MSleep j [of t job]
        by (cases job) (simp_all add: threadStep_def sleepStep_def)
      then show ?thesis ..
    next
      case (MBody job)
      then have "mt_not_empty s \<noteq> []" using waits by (simp add: threadStep_def)
      then have "onWay (mt_threads ?s t)"
        using before some MBody j [of t job] by (cases job) (auto simp: threadStep_def split: if_splits)
      then show ?thesis by blast
    next
      case (MTake job)
      then have "mt_not_empty s \<noteq> []" using waits by (simp add: threadStep_def)
      then have False using before some MTake False
        by (cases job) (auto simp: threadStep_def Let_def split: if_splits)
      then show ?thesis ..
    qed (use before waits some step_lists(2) [of s t pick] step_items [OF m, of t pick] in auto)
  qed
  then show ?thesis using thread_ok [OF m] j step_jobs [OF m] unfolding pops_ok_def by blast
qed

lemma pops_step: "mutex_step single s s' \<Longrightarrow> pops_ok s \<Longrightarrow> pops_ok s'"
proof (erule environment)
  fix pick t
  assume "pops_ok s" "s' = threadStep pick t s"
  then show "pops_ok s'" using pops_thread by blast
next
  assume ok: "pops_ok s" and step: "mutex_step single s s'"
    and same: "mt_items s' = mt_items s" "mt_not_empty s = [] \<Longrightarrow> mt_not_empty s' = []"
    and th: "\<And>u. mt_threads s' u = mt_threads s u \<or> idle (mt_threads s u)"
  have way: "onWay (mt_threads s u) \<Longrightarrow> onWay (mt_threads s' u)" for u
    using th [of u] by (cases "mt_threads s u") (auto simp: idle_def)
  have jobs: "single job" if "jobOf (mt_threads s' u) = Some job" for u job
    using step
  proof cases
    case (mutex_run pick t)
    then show ?thesis using that step_jobs [of s pick t u job] ok by (auto simp: pops_ok_def)
  next
    case (mutex_time t)
    then show ?thesis using that woken_job [OF timeOver_ok(2), of s t u] ok by (auto simp: pops_ok_def)
  next
    case (mutex_spurious t)
    then show ?thesis using that woken_job [OF wakeUp_ok(2), of s False t u] ok by (auto simp: pops_ok_def)
  next
    case (mutex_call t answer job')
    then show ?thesis using that ok by (auto simp: pops_ok_def startCall_def split: if_splits)
  next
    case (mutex_shutdown t answer)
    then show ?thesis using that ok by (auto simp: pops_ok_def split: if_splits)
  qed
  have "mutex_ok s'" using step mutex_step_ok ok by (auto simp: pops_ok_def)
  then show "pops_ok s'" using ok same way jobs unfolding pops_ok_def by metis
qed

lemma pops_init: "mutex_init s \<Longrightarrow> pops_ok s"
  using mutex_init_ok by (auto simp: pops_ok_def mutex_init_def newMutexQueue_def)

interpretation pops: invariant_system mutex_init "mutex_step single" pops_ok
  by unfold_locales (blast intro: pops_init pops_step)+

text \<open>
  C12: single pops lose no wake-up: with any number of producers and of consumers that pop one item at
  a time, when an item is in the queue and a pop waits for one, some thread is about to take an
  item or to notify a waiting pop.
\<close>

theorem no_lost_wakeup:
  assumes "reachable mutex_init (mutex_step single) s" and "mt_not_empty s \<noteq> []" and "mt_items s \<noteq> []"
  shows "\<exists>u. onWay (mt_threads s u)"
  using pops.reachable_inv [OF assms(1)] assms(2,3) by (simp add: pops_ok_def)

section \<open>The queue is atomic\<close>

text \<open>
  C5: with any number of producers and consumers, every interleaving looks like an atomic FIFO queue in
  which each call takes effect at one moment: the answers are answers of that queue, an item leaves
  once and in the order of the pushes; the counters differ by the number of items, and a thread
  stops at the assertion of \<open>waitForEmpty\<close> only after a shutdown.
\<close>

theorem mutex_queue_fifo:
  assumes "reachable mutex_init (mutex_step allowed) s"
  shows "\<exists>a. reachable fifo_init fifo_step a \<and> ff_items a = mt_items s \<and> ff_closed a = mt_shutdown s \<and>
    ff_status a = (\<lambda>t. mview (mt_threads s t)) \<and> ff_in a = ff_out a @ mt_items s \<and>
    mt_push_count s = mt_pop_count s + of_nat (length (mt_items s)) \<and>
    (mt_shutdown s \<or> (\<forall>t. mt_threads s t \<noteq> MFailed))"
proof -
  obtain a where a: "reachable fifo_init fifo_step a" "mutex_sim s a" using mutex_fifo.simulated [OF assms] by blast
  have ok: "mutex_ok s" using a(2) by (simp add: mutex_sim_def)
  have "mt_threads s t = MFailed \<Longrightarrow> mt_shutdown s" for t
    using ok unfolding mutex_ok_def by (metis mlocal.simps(13))
  moreover have "fifo_ok a" using fifo.reachable_inv [OF a(1)] .
  ultimately show ?thesis using a ok
    by (intro exI [of _ a]) (auto simp: mutex_sim_def fifo_ok_def mutex_ok_def counters_ok_def)
qed

section \<open>Schedules\<close>

lemma mdo_step: "mdo allowed x s = Some s' \<Longrightarrow> mutex_step allowed s s'"
proof (induction x)
  case (MRun t pick)
  then show ?case using mutex_run [of allowed s pick t] by simp
next
  case (MCall t job)
  then show ?case by (cases "mt_threads s t") (auto split: if_splits intro: mutex_call)
next
  case (MShut t)
  then show ?case by (cases "mt_threads s t") (auto split: if_splits intro: mutex_shutdown)
qed

lemma mruns_reachable:
  "reachable mutex_init (mutex_step allowed) s \<Longrightarrow> mruns allowed xs s = Some s' \<Longrightarrow>
    reachable mutex_init (mutex_step allowed) s'"
proof (induction xs arbitrary: s)
  case (Cons x xs)
  then obtain s1 where s1: "mdo allowed x s = Some s1" "mruns allowed xs s1 = Some s'" by (auto split: option.splits)
  from reach_step [OF Cons.prems(1) mdo_step [OF s1(1)]] s1(2) show ?case by (rule Cons.IH)
qed simp

definition endState :: "(nat job \<Rightarrow> bool) \<Rightarrow> nat mact list \<Rightarrow> nat mts" where
  "endState allowed xs = (case mruns allowed xs newMutexQueue of None \<Rightarrow> newMutexQueue | Some s \<Rightarrow> s)"

lemma endState_reachable: "reachable mutex_init (mutex_step allowed) (endState allowed xs)"
proof -
  have "reachable mutex_init (mutex_step allowed) newMutexQueue" by (rule reach_init) (simp add: mutex_init_def)
  then show ?thesis by (auto simp: endState_def split: option.split intro: mruns_reachable)
qed

abbreviation run :: "nat \<Rightarrow> nat \<Rightarrow> nat mact list" where
  "run n t \<equiv> replicate n (MRun t 0)"

text \<open>A pop waits, and a push has stored its item and is about to notify.\<close>

definition pushing :: "nat mact list" where
  "pushing = MCall 1 (JPop True) # run 7 1 @ MCall 2 (JPush 7) # run 5 2"

lemma no_lost_wakeup_witness: "mt_not_empty (endState single pushing) = [1] \<and> mt_items (endState single pushing) = [7] \<and>
    (\<exists>u. onWay (mt_threads (endState single pushing) u))"
proof -
  have s: "mt_not_empty (endState single pushing) = [1]" "mt_items (endState single pushing) = [7]" by code_simp+
  then show ?thesis using no_lost_wakeup [OF endState_reachable, of pushing] by simp
qed

text \<open>The same state, with the item that the waiting pop takes.\<close>

lemma mutex_queue_fifo_witness:
  "\<exists>a :: nat fifo. reachable fifo_init fifo_step a \<and> ff_items a = [7] \<and> ff_status a 1 = Popping [] \<and>
     ff_status a 2 = Answered Pushed"
proof -
  have "mt_items (endState single pushing) = [7]" "mview (mt_threads (endState single pushing) 1) = Popping []"
    "mview (mt_threads (endState single pushing) 2) = Answered Pushed" by code_simp+
  then show ?thesis using mutex_queue_fifo [OF endState_reachable, of single pushing] by fastforce
qed

text \<open>\<open>waitForEmpty\<close> waits, and a pop has taken the last item.\<close>

definition emptying :: "nat mact list" where
  "emptying = MCall 2 (JPush 7) # run 7 2 @ MCall 1 JWaitForEmpty # run 4 1 @ MCall 2 (JPop True) # run 6 2"

lemma drain_notified_witness: "mt_empty (endState (\<lambda>_. True) emptying) = [1] \<and>
    (\<exists>u answer. mt_threads (endState (\<lambda>_. True) emptying) u = MNotify True answer)"
proof -
  have s: "mt_empty (endState (\<lambda>_. True) emptying) = [1]" "mt_items (endState (\<lambda>_. True) emptying) = []" by code_simp+
  then show ?thesis using drain_notified [OF endState_reachable, of "\<lambda>_. True" emptying] by simp
qed

section \<open>States without a step\<close>

fun threadOf :: "'a mact \<Rightarrow> nat" where
  "threadOf (MRun t pick) = t"
| "threadOf (MCall t job) = t"
| "threadOf (MShut t) = t"

lemma schedule_others:
  "mruns allowed xs s = Some s' \<Longrightarrow> mutex_ok s \<Longrightarrow> \<forall>x\<in>set xs. threadOf x \<noteq> u \<Longrightarrow>
     mt_threads s u = MReady answer \<Longrightarrow> mt_threads s' u = MReady answer"
proof (induction xs arbitrary: s)
  case (Cons x xs)
  then obtain s1 where s1: "mdo allowed x s = Some s1" "mruns allowed xs s1 = Some s'" by (auto split: option.splits)
  have "mt_threads s1 u = MReady answer"
    using s1(1) Cons.prems(3,4) wake_others [OF Cons.prems(2), of u]
    by (cases x) (auto simp: startCall_def split: if_splits)
  then show ?case using Cons.IH [OF s1(2) mutex_step_ok [OF mdo_step [OF s1(1)] Cons.prems(2)]] Cons.prems(3) by simp
qed simp

lemma endState_others: "\<forall>x\<in>set xs. threadOf x \<noteq> u \<Longrightarrow> mt_threads (endState allowed xs) u = MReady None"
  using schedule_others [of allowed xs newMutexQueue _ u None] mutex_init_ok [of newMutexQueue]
  by (auto simp: endState_def mutex_init_def newMutexQueue_def split: option.split)

text \<open>A thread that no step of its own can move.\<close>

fun asleep :: "'a mpc \<Rightarrow> bool" where
  "asleep (MReady answer) = True"
| "asleep (MWaiting job) = True"
| "asleep pc = False"

lemma asleep_step: "asleep (mt_threads s u) \<Longrightarrow> threadStep pick u s = s"
  by (cases "mt_threads s u") (simp_all add: threadStep_def)

text \<open>The wake-up for the one item goes to the batch pop of two, which goes back to sleep.\<close>

definition swallowing :: "nat mact list" where
  "swallowing = MCall 1 (JPop True) # run 7 1 @ MCall 2 (JPopMany 2 False []) # run 7 2 @
     MCall 3 (JPush 7) # run 5 3 @ [MRun 3 1] @ run 1 3 @ run 3 2"

text \<open>
  A batch pop swallows the wake-up of a single pop: in a reachable state an item is in the queue,
  the mutex is free, a pop waits for an item, every call but the two pops has returned, and no
  thread can take a step any more.
\<close>

theorem batch_pop_swallows_wakeup:
  "\<exists>s :: nat mts. reachable mutex_init (mutex_step (\<lambda>_. True)) s \<and> mt_items s = [7] \<and> mt_owner s = None \<and>
     \<not> mt_shutdown s \<and> mt_threads s 1 = MWaiting (JPop True) \<and> mt_threads s 2 = MWaiting (JPopMany 2 False []) \<and>
     mt_threads s 3 = MReady (Some Pushed) \<and> (\<forall>u pick. threadStep pick u s = s)"
proof (intro exI conjI allI)
  let ?s = "endState (\<lambda>_. True) swallowing"
  show "reachable mutex_init (mutex_step (\<lambda>_. True)) ?s" by (rule endState_reachable)
  show th: "mt_items ?s = [7]" "mt_owner ?s = None" "\<not> mt_shutdown ?s" "mt_threads ?s 1 = MWaiting (JPop True)"
    "mt_threads ?s 2 = MWaiting (JPopMany 2 False [])" "mt_threads ?s 3 = MReady (Some Pushed)" by code_simp+
  fix u pick
  consider "u = 1" | "u = 2" | "u = 3" | "\<forall>x\<in>set swallowing. threadOf x \<noteq> u" by (auto simp: swallowing_def)
  then show "threadStep pick u ?s = ?s" by cases (rule asleep_step, simp add: th endState_others del: One_nat_def)+
qed

text \<open>The flag and the notifications fall between the look at the predicate and the wait.\<close>

definition hanging :: "nat mact list" where
  "hanging = MCall 1 (JPop True) # run 6 1 @ MShut 2 # run 2 2 @ run 1 1"

text \<open>
  A shutdown can wait for ever: in a reachable state the flag is set and everybody was notified, a
  pop waits for an item that no push can add, the shutdown waits for that pop, and no thread can
  take a step that changes anything.
\<close>

theorem shutdown_hangs:
  "\<exists>s :: nat mts. reachable mutex_init (mutex_step (\<lambda>_. True)) s \<and> mt_shutdown s \<and> mt_inflight s = 1 \<and>
     mt_threads s 1 = MWaiting (JPop True) \<and> mt_threads s 2 = MShutWait \<and> (\<forall>u pick. threadStep pick u s = s)"
proof (intro exI conjI allI)
  let ?s = "endState (\<lambda>_. True) hanging"
  show "reachable mutex_init (mutex_step (\<lambda>_. True)) ?s" by (rule endState_reachable)
  show th: "mt_shutdown ?s" "mt_inflight ?s = 1" "mt_threads ?s 1 = MWaiting (JPop True)" "mt_threads ?s 2 = MShutWait"
    by code_simp+
  fix u pick
  consider "u = 1" | "u = 2" | "\<forall>x\<in>set hanging. threadOf x \<noteq> u" by (auto simp: hanging_def)
  then show "threadStep pick u ?s = ?s"
  proof cases
    case 2
    then show ?thesis by (simp add: threadStep_def th)
  qed (rule asleep_step, simp add: th endState_others del: One_nat_def)+
qed

text \<open>The shutdown wakes \<open>waitForEmpty\<close> while an item is in the queue.\<close>

definition asserting :: "nat mact list" where
  "asserting = MCall 1 (JPush 7) # run 7 1 @ MCall 2 JWaitForEmpty # run 4 2 @ MShut 3 # run 2 3 @ run 3 2"

lemma waitForEmpty_assertion_fails:
  "\<exists>s :: nat mts. reachable mutex_init (mutex_step (\<lambda>_. True)) s \<and> mt_items s = [7] \<and> mt_threads s 2 = MFailed"
proof (intro exI conjI)
  let ?s = "endState (\<lambda>_. True) asserting"
  show "reachable mutex_init (mutex_step (\<lambda>_. True)) ?s" by (rule endState_reachable)
  show "mt_items ?s = [7]" "mt_threads ?s 2 = MFailed" by code_simp+
qed

end
