(* ===== verification/RuntimeManager.thy ===== *)
theory RuntimeManager
  imports Dmn_Prelude
begin

text \<open>
  \<open>Dmn_Runtime_Manager\<close>: the priority queues, the stack of coroutines that the one asynchronous thread
  runs, the timed jobs, the signals and the main loop.  A step is what a thread does between two
  points at which another thread can interfere: an operation on a queue, on the count of jobs or on a
  flag.  A job adds jobs by a call that is made while it is resumed.  Time is in nanoseconds.
\<close>

section \<open>Jobs\<close>

datatype priority = KSched | KHigh | KMedium | KLow

fun level :: "priority \<Rightarrow> nat" where
  "level KSched = 0"
| "level KHigh = 1"
| "level KMedium = 2"
| "level KLow = 3"

text \<open>What a coroutine does each time it is resumed; an invalid task holds no handle.\<close>

datatype coroutine =
    Invalid
  | Suspends coroutine
  | Returns
  | Raises

text \<open>\<open>None\<close> as the task is a function that throws before it returns a coroutine.\<close>

record rjob =
  rj_id :: nat
  rj_priority :: priority
  rj_task :: "coroutine option"
  rj_due :: int
  rj_on_error :: bool

section \<open>State\<close>

datatype signo = SigAlrm | SigInt | SigTerm | SigQuit | SigHup

text \<open>The tasks of the asynchronous context \<open>Dmn_Async\<close>, which runs them one after the other.\<close>

datatype atask =
    AExec
  | ATimed rjob
  | ASignal signo
  | ARegister signo nat
  | AClear signo

text \<open>
  The next step of the asynchronous thread: at the start of a task, inside \<open>execRuntimeJobInternal\<close>,
  inside the hook of \<open>SIGALRM\<close>, or inside \<open>exitMainLoop\<close> called by the hook of a signal.
\<close>

datatype wpc =
    WIdle
  | WPickHigh
  | WPickMedium
  | WPickLow
  | WCreate rjob
  | WSched
  | WFinish
  | WFailed
  | WAssert
  | WAlarm int
  | WAlarmCount int
  | WAlarmTest int
  | WExit
  | WExitEnter
  | WExitTimer
  | WExitWait
  | WBroken

text \<open>The next step of a call of a client.\<close>

datatype cpc =
    CDone
  | CThrew
  | CPush rjob
  | CCount
  | CTest
  | CPost
  | EStart
  | EFlag bool
  | EClear bool
  | EProc bool
  | EPost
  | EWait
  | XFlag
  | XEnter
  | XTimer
  | XWait

datatype levent =
    Created nat
  | Resumed nat
  | Ended nat
  | ErrorCallback nat
  | Hook nat signo

record runtime =
  rt_high :: "rjob list"
  rt_medium :: "rjob list"
  rt_low :: "rjob list"
  rt_timed :: "rjob list"
  rt_stack :: "(rjob \<times> coroutine) list"
  rt_jobs_count :: u64
  rt_main_enter :: bool
  rt_main_exit :: bool
  rt_signal_proc :: bool
  rt_signals :: "signo list"
  rt_hooks :: "signo \<Rightarrow> nat list"
  rt_timer :: "int option"
  rt_now :: int
  rt_tasks :: "atask list"
  rt_worker :: wpc
  rt_calls :: "cpc list"
  rt_log :: "levent list"

definition newRuntime :: runtime where
  "newRuntime = \<lparr>rt_high = [], rt_medium = [], rt_low = [], rt_timed = [], rt_stack = [], rt_jobs_count = 0,
     rt_main_enter = False, rt_main_exit = False, rt_signal_proc = False, rt_signals = [],
     rt_hooks = (\<lambda>_. []), rt_timer = None, rt_now = 0, rt_tasks = [], rt_worker = WIdle, rt_calls = [], rt_log = []\<rparr>"

definition logEvent :: "levent \<Rightarrow> runtime \<Rightarrow> runtime" where
  "logEvent e s = s\<lparr>rt_log := rt_log s @ [e]\<rparr>"

definition addExecTask :: "atask \<Rightarrow> runtime \<Rightarrow> runtime" where
  "addExecTask a s = s\<lparr>rt_tasks := rt_tasks s @ [a]\<rparr>"

definition runRuntimeJobExecutor :: "runtime \<Rightarrow> runtime" where
  "runRuntimeJobExecutor s = addExecTask AExec s"

text \<open>The timer of the platform: a time that has passed fires ten microseconds later.\<close>

definition setNextTimer :: "int \<Rightarrow> int \<Rightarrow> runtime \<Rightarrow> runtime" where
  "setNextTimer sec nsec s =
     s\<lparr>rt_timer := (if sec = 0 \<and> nsec = 0 then None else Some (rt_now s + sec * 1000000000 + nsec))\<rparr>"

definition setNextTimerAt :: "int \<Rightarrow> runtime \<Rightarrow> runtime" where
  "setNextTimerAt tp s =
     (let diff = tp - rt_now s
      in if diff \<le> 0 then setNextTimer 0 10000 s
         else setNextTimer (diff div 1000000000) (diff mod 1000000000) s)"

text \<open>\<open>None\<close> is the exception for a priority that is not allowed.\<close>

definition pushJob :: "rjob \<Rightarrow> runtime \<Rightarrow> runtime option" where
  "pushJob j s = (case rj_priority j of
      KHigh \<Rightarrow> Some (s\<lparr>rt_high := rt_high s @ [j]\<rparr>)
    | KMedium \<Rightarrow> Some (s\<lparr>rt_medium := rt_medium s @ [j]\<rparr>)
    | KLow \<Rightarrow> Some (s\<lparr>rt_low := rt_low s @ [j]\<rparr>)
    | KSched \<Rightarrow> None)"

text \<open>
  The heap of timed jobs, the earliest due time first.  The heap of the source leaves the order of
  equal due times open; here they stay in the order in which they came.
\<close>

fun pushTimed :: "rjob \<Rightarrow> rjob list \<Rightarrow> rjob list" where
  "pushTimed j [] = [j]"
| "pushTimed j (k # ks) = (if rj_due j < rj_due k then j # k # ks else k # pushTimed j ks)"

section \<open>The asynchronous thread\<close>

definition toWorker :: "wpc \<Rightarrow> runtime \<Rightarrow> runtime" where
  "toWorker pc s = s\<lparr>rt_worker := pc\<rparr>"

definition topPriority :: "runtime \<Rightarrow> priority" where
  "topPriority s = (case rt_stack s of [] \<Rightarrow> KSched | (j, c) # rest \<Rightarrow> rj_priority j)"

text \<open>The error callback of a job, whose own exceptions are dropped.\<close>

definition onError :: "rjob \<Rightarrow> runtime \<Rightarrow> runtime" where
  "onError j s = (if rj_on_error j then logEvent (ErrorCallback (rj_id j)) s else s)"

definition addRuntimeJobToCoroutineSchedulerContext :: "rjob \<Rightarrow> runtime \<Rightarrow> runtime" where
  "addRuntimeJobToCoroutineSchedulerContext j s =
     (case rj_task j of
        None \<Rightarrow> toWorker WFailed (onError j s)
      | Some c \<Rightarrow> toWorker WSched (logEvent (Created (rj_id j)) (s\<lparr>rt_stack := (j, c) # rt_stack s\<rparr>)))"

definition completeTop :: "rjob \<Rightarrow> (rjob \<times> coroutine) list \<Rightarrow> runtime \<Rightarrow> runtime" where
  "completeTop j rest s = toWorker WFinish (logEvent (Ended (rj_id j)) (s\<lparr>rt_stack := rest\<rparr>))"

text \<open>One resumption of the coroutine on the top of the stack.\<close>

definition runRuntimeCoroutineScheduler :: "runtime \<Rightarrow> runtime" where
  "runRuntimeCoroutineScheduler s =
     (case rt_stack s of
        [] \<Rightarrow> toWorker WIdle s
      | (j, c) # rest \<Rightarrow>
          (case c of
             Invalid \<Rightarrow> completeTop j rest s
           | Suspends c' \<Rightarrow>
               toWorker WIdle (runRuntimeJobExecutor (logEvent (Resumed (rj_id j)) (s\<lparr>rt_stack := (j, c') # rest\<rparr>)))
           | Returns \<Rightarrow> completeTop j rest (logEvent (Resumed (rj_id j)) s)
           | Raises \<Rightarrow> completeTop j rest (onError j (logEvent (Resumed (rj_id j)) s))))"

text \<open>The count goes down; the executor goes on while jobs were left.\<close>

definition finishJob :: "wpc \<Rightarrow> runtime \<Rightarrow> runtime" where
  "finishJob otherwise s =
     (let s1 = s\<lparr>rt_jobs_count := rt_jobs_count s - 1\<rparr>
      in if rt_jobs_count s > 1 then toWorker WIdle (runRuntimeJobExecutor s1) else toWorker otherwise s1)"

definition startTask :: "atask \<Rightarrow> runtime \<Rightarrow> runtime" where
  "startTask a s = (case a of
      AExec \<Rightarrow> toWorker WPickHigh s
    | ATimed j \<Rightarrow>
        (let timed = pushTimed j (rt_timed s)
         in setNextTimerAt (rj_due (hd timed)) (s\<lparr>rt_timed := timed\<rparr>))
    | ASignal signo \<Rightarrow>
        (let s1 = fold (\<lambda>h. logEvent (Hook h signo)) (rt_hooks s signo) s
         in case signo of
              SigAlrm \<Rightarrow> toWorker (WAlarm (rt_now s)) s1
            | SigInt \<Rightarrow> toWorker WExit s1
            | SigTerm \<Rightarrow> toWorker WExit s1
            | _ \<Rightarrow> s1)
    | ARegister signo h \<Rightarrow> s\<lparr>rt_hooks := (rt_hooks s)(signo := rt_hooks s signo @ [h])\<rparr>
    | AClear signo \<Rightarrow> s\<lparr>rt_hooks := (rt_hooks s)(signo := [])\<rparr>)"

text \<open>
  The loop of the hook of \<open>SIGALRM\<close>: a job with a priority that is not allowed makes \<open>addJob\<close> throw, and
  the exception ends the task.
\<close>

definition alarmStep :: "int \<Rightarrow> runtime \<Rightarrow> runtime" where
  "alarmStep now s = (case rt_timed s of
      [] \<Rightarrow> toWorker WIdle s
    | j # rest \<Rightarrow>
        if now \<ge> rj_due j
        then (case pushJob (j\<lparr>rj_due := 0\<rparr>) s of
                None \<Rightarrow> toWorker WIdle s
              | Some s' \<Rightarrow> toWorker (WAlarmCount now) s')
        else toWorker WIdle (setNextTimerAt (rj_due j) s))"

definition alarmPop :: "int \<Rightarrow> runtime \<Rightarrow> runtime" where
  "alarmPop now s = toWorker (WAlarm now) (s\<lparr>rt_timed := tl (rt_timed s)\<rparr>)"

text \<open>The executor; the assertions are checked when \<open>debug\<close> is set.\<close>

definition execRuntimeJobInternal :: "bool \<Rightarrow> runtime \<Rightarrow> runtime" where
  "execRuntimeJobInternal debug s = (case rt_worker s of
      WPickHigh \<Rightarrow>
        if topPriority s = KHigh then toWorker WSched s
        else (case rt_high s of
                j # rest \<Rightarrow> toWorker (WCreate j) (s\<lparr>rt_high := rest\<rparr>)
              | [] \<Rightarrow> toWorker (if topPriority s = KMedium then WSched else WPickMedium) s)
    | WPickMedium \<Rightarrow>
        (case rt_medium s of
           j # rest \<Rightarrow> toWorker (WCreate j) (s\<lparr>rt_medium := rest\<rparr>)
         | [] \<Rightarrow> toWorker (if topPriority s = KLow then WSched else WPickLow) s)
    | WPickLow \<Rightarrow>
        (case rt_low s of
           j # rest \<Rightarrow> toWorker (WCreate j) (s\<lparr>rt_low := rest\<rparr>)
         | [] \<Rightarrow> toWorker WSched s)
    | WCreate j \<Rightarrow> addRuntimeJobToCoroutineSchedulerContext j s
    | WSched \<Rightarrow> runRuntimeCoroutineScheduler s
    | WFinish \<Rightarrow> finishJob WAssert s
    | WFailed \<Rightarrow> finishJob WIdle s
    | WAssert \<Rightarrow> toWorker (if debug \<and> (rt_stack s \<noteq> [] \<or> rt_jobs_count s \<noteq> 0) then WBroken else WIdle) s
    | _ \<Rightarrow> s)"

text \<open>The hook of \<open>SIGALRM\<close>, with the steps of the \<open>addJob\<close> that it calls.\<close>

definition alarmHook :: "runtime \<Rightarrow> runtime" where
  "alarmHook s = (case rt_worker s of
      WAlarm now \<Rightarrow> alarmStep now s
    | WAlarmCount now \<Rightarrow>
        (let s1 = s\<lparr>rt_jobs_count := rt_jobs_count s + 1\<rparr>
         in if rt_jobs_count s = 0 then toWorker (WAlarmTest now) s1 else alarmPop now s1)
    | WAlarmTest now \<Rightarrow> alarmPop now (if rt_main_enter s then runRuntimeJobExecutor s else s)
    | _ \<Rightarrow> s)"

text \<open>\<open>exitMainLoop\<close> on the asynchronous thread, by the hook of \<open>SIGINT\<close> and of \<open>SIGTERM\<close>.\<close>

definition exitHook :: "runtime \<Rightarrow> runtime" where
  "exitHook s = (case rt_worker s of
      WExit \<Rightarrow> toWorker (if rt_main_exit s then WExitTimer else WExitEnter) (s\<lparr>rt_main_exit := True\<rparr>)
    | WExitEnter \<Rightarrow> toWorker WExitWait (setNextTimer 0 10000 (s\<lparr>rt_main_enter := False\<rparr>))
    | WExitWait \<Rightarrow> if rt_signal_proc s then s else toWorker WExitTimer s
    | WExitTimer \<Rightarrow> toWorker WIdle (setNextTimer 0 0 s)
    | _ \<Rightarrow> s)"

definition workerStep :: "bool \<Rightarrow> runtime \<Rightarrow> runtime" where
  "workerStep debug s =
     (if rt_worker s = WIdle then (case rt_tasks s of [] \<Rightarrow> s | a # as \<Rightarrow> startTask a (s\<lparr>rt_tasks := as\<rparr>))
      else if rt_worker s \<in> {WExit, WExitEnter, WExitWait, WExitTimer} then exitHook s
      else case rt_worker s of
        WAlarm now \<Rightarrow> alarmHook s
      | WAlarmCount now \<Rightarrow> alarmHook s
      | WAlarmTest now \<Rightarrow> alarmHook s
      | _ \<Rightarrow> execRuntimeJobInternal debug s)"

lemma workerStep_cases:
  "workerStep debug s = (case rt_worker s of
      WIdle \<Rightarrow> (case rt_tasks s of [] \<Rightarrow> s | a # as \<Rightarrow> startTask a (s\<lparr>rt_tasks := as\<rparr>))
    | WPickHigh \<Rightarrow>
        if topPriority s = KHigh then toWorker WSched s
        else (case rt_high s of
                j # rest \<Rightarrow> toWorker (WCreate j) (s\<lparr>rt_high := rest\<rparr>)
              | [] \<Rightarrow> toWorker (if topPriority s = KMedium then WSched else WPickMedium) s)
    | WPickMedium \<Rightarrow>
        (case rt_medium s of
           j # rest \<Rightarrow> toWorker (WCreate j) (s\<lparr>rt_medium := rest\<rparr>)
         | [] \<Rightarrow> toWorker (if topPriority s = KLow then WSched else WPickLow) s)
    | WPickLow \<Rightarrow>
        (case rt_low s of
           j # rest \<Rightarrow> toWorker (WCreate j) (s\<lparr>rt_low := rest\<rparr>)
         | [] \<Rightarrow> toWorker WSched s)
    | WCreate j \<Rightarrow> addRuntimeJobToCoroutineSchedulerContext j s
    | WSched \<Rightarrow> runRuntimeCoroutineScheduler s
    | WFinish \<Rightarrow> finishJob WAssert s
    | WFailed \<Rightarrow> finishJob WIdle s
    | WAssert \<Rightarrow> toWorker (if debug \<and> (rt_stack s \<noteq> [] \<or> rt_jobs_count s \<noteq> 0) then WBroken else WIdle) s
    | WAlarm now \<Rightarrow> alarmStep now s
    | WAlarmCount now \<Rightarrow>
        (let s1 = s\<lparr>rt_jobs_count := rt_jobs_count s + 1\<rparr>
         in if rt_jobs_count s = 0 then toWorker (WAlarmTest now) s1 else alarmPop now s1)
    | WAlarmTest now \<Rightarrow> alarmPop now (if rt_main_enter s then runRuntimeJobExecutor s else s)
    | WExit \<Rightarrow> toWorker (if rt_main_exit s then WExitTimer else WExitEnter) (s\<lparr>rt_main_exit := True\<rparr>)
    | WExitEnter \<Rightarrow> toWorker WExitWait (setNextTimer 0 10000 (s\<lparr>rt_main_enter := False\<rparr>))
    | WExitWait \<Rightarrow> if rt_signal_proc s then s else toWorker WExitTimer s
    | WExitTimer \<Rightarrow> toWorker WIdle (setNextTimer 0 0 s)
    | WBroken \<Rightarrow> s)"
  by (cases "rt_worker s") (simp_all add: workerStep_def execRuntimeJobInternal_def alarmHook_def exitHook_def)

section \<open>Clients\<close>

definition toCall :: "nat \<Rightarrow> cpc \<Rightarrow> runtime \<Rightarrow> runtime" where
  "toCall i pc s = s\<lparr>rt_calls := (rt_calls s)[i := pc]\<rparr>"

text \<open>\<open>addJob\<close>, \<open>enterMainLoop\<close> and \<open>exitMainLoop\<close>.\<close>

definition addJobStep :: "nat \<Rightarrow> runtime \<Rightarrow> runtime" where
  "addJobStep i s = (case rt_calls s ! i of
      CPush j \<Rightarrow> (case pushJob j s of None \<Rightarrow> toCall i CThrew s | Some s' \<Rightarrow> toCall i CCount s')
    | CCount \<Rightarrow> toCall i (if rt_jobs_count s = 0 then CTest else CDone) (s\<lparr>rt_jobs_count := rt_jobs_count s + 1\<rparr>)
    | CTest \<Rightarrow> toCall i (if rt_main_enter s then CPost else CDone) s
    | CPost \<Rightarrow> toCall i CDone (runRuntimeJobExecutor s)
    | _ \<Rightarrow> s)"

text \<open>The flag of \<open>EFlag\<close> and the following is \<open>startJobExecutor\<close>.\<close>

definition enterMainLoop :: "nat \<Rightarrow> runtime \<Rightarrow> runtime" where
  "enterMainLoop i s = (case rt_calls s ! i of
      EStart \<Rightarrow> toCall i (EFlag (rt_jobs_count s > 0)) s
    | EFlag b \<Rightarrow> toCall i (if rt_main_enter s then CThrew else EClear b) (s\<lparr>rt_main_enter := True\<rparr>)
    | EClear b \<Rightarrow> toCall i (EProc b) (s\<lparr>rt_main_exit := False\<rparr>)
    | EProc b \<Rightarrow> toCall i (if b then EPost else EWait) (s\<lparr>rt_signal_proc := True\<rparr>)
    | EPost \<Rightarrow> toCall i EWait (runRuntimeJobExecutor s)
    | EWait \<Rightarrow> if rt_main_exit s then toCall i CDone s else s
    | _ \<Rightarrow> s)"

definition exitMainLoop :: "nat \<Rightarrow> runtime \<Rightarrow> runtime" where
  "exitMainLoop i s = (case rt_calls s ! i of
      XFlag \<Rightarrow> toCall i (if rt_main_exit s then XTimer else XEnter) (s\<lparr>rt_main_exit := True\<rparr>)
    | XEnter \<Rightarrow> toCall i XWait (setNextTimer 0 10000 (s\<lparr>rt_main_enter := False\<rparr>))
    | XWait \<Rightarrow> if rt_signal_proc s then s else toCall i XTimer s
    | XTimer \<Rightarrow> toCall i CDone (setNextTimer 0 0 s)
    | _ \<Rightarrow> s)"

definition callStep :: "nat \<Rightarrow> runtime \<Rightarrow> runtime" where
  "callStep i s =
     (if rt_calls s ! i \<in> {XFlag, XEnter, XWait, XTimer} then exitMainLoop i s
      else case rt_calls s ! i of
        CPush j \<Rightarrow> addJobStep i s
      | CCount \<Rightarrow> addJobStep i s
      | CTest \<Rightarrow> addJobStep i s
      | CPost \<Rightarrow> addJobStep i s
      | _ \<Rightarrow> enterMainLoop i s)"

lemma callStep_cases:
  "callStep i s = (case rt_calls s ! i of
      CPush j \<Rightarrow> (case pushJob j s of None \<Rightarrow> toCall i CThrew s | Some s' \<Rightarrow> toCall i CCount s')
    | CCount \<Rightarrow> toCall i (if rt_jobs_count s = 0 then CTest else CDone) (s\<lparr>rt_jobs_count := rt_jobs_count s + 1\<rparr>)
    | CTest \<Rightarrow> toCall i (if rt_main_enter s then CPost else CDone) s
    | CPost \<Rightarrow> toCall i CDone (runRuntimeJobExecutor s)
    | EStart \<Rightarrow> toCall i (EFlag (rt_jobs_count s > 0)) s
    | EFlag b \<Rightarrow> toCall i (if rt_main_enter s then CThrew else EClear b) (s\<lparr>rt_main_enter := True\<rparr>)
    | EClear b \<Rightarrow> toCall i (EProc b) (s\<lparr>rt_main_exit := False\<rparr>)
    | EProc b \<Rightarrow> toCall i (if b then EPost else EWait) (s\<lparr>rt_signal_proc := True\<rparr>)
    | EPost \<Rightarrow> toCall i EWait (runRuntimeJobExecutor s)
    | EWait \<Rightarrow> if rt_main_exit s then toCall i CDone s else s
    | XFlag \<Rightarrow> toCall i (if rt_main_exit s then XTimer else XEnter) (s\<lparr>rt_main_exit := True\<rparr>)
    | XEnter \<Rightarrow> toCall i XWait (setNextTimer 0 10000 (s\<lparr>rt_main_enter := False\<rparr>))
    | XWait \<Rightarrow> if rt_signal_proc s then s else toCall i XTimer s
    | XTimer \<Rightarrow> toCall i CDone (setNextTimer 0 0 s)
    | _ \<Rightarrow> s)"
  by (cases "rt_calls s ! i") (simp_all add: callStep_def addJobStep_def enterMainLoop_def exitMainLoop_def)

datatype rcall =
    RAddJob rjob
  | RAddTimedJob rjob int
  | REnter
  | RExit
  | RRegister signo nat
  | RClear signo
  | RSignal signo

text \<open>A new call; \<open>addTimedJob\<close> and the registrations only post a task.\<close>

definition makeCall :: "rcall \<Rightarrow> runtime \<Rightarrow> runtime" where
  "makeCall c s = (case c of
      RAddJob j \<Rightarrow> s\<lparr>rt_calls := rt_calls s @ [CPush (j\<lparr>rj_due := 0\<rparr>)]\<rparr>
    | RAddTimedJob j duration \<Rightarrow> addExecTask (ATimed (j\<lparr>rj_due := rt_now s + duration\<rparr>)) s
    | REnter \<Rightarrow> s\<lparr>rt_calls := rt_calls s @ [EStart]\<rparr>
    | RExit \<Rightarrow> s\<lparr>rt_calls := rt_calls s @ [XFlag]\<rparr>
    | RRegister signo h \<Rightarrow> addExecTask (ARegister signo h) s
    | RClear signo \<Rightarrow> addExecTask (AClear signo) s
    | RSignal signo \<Rightarrow> s\<lparr>rt_signals := rt_signals s @ [signo]\<rparr>)"

text \<open>The thread that waits for signals, and the timer that raises \<open>SIGALRM\<close>.\<close>

definition signalStep :: "runtime \<Rightarrow> runtime" where
  "signalStep s = (case rt_signals s of
      [] \<Rightarrow> s
    | signo # rest \<Rightarrow>
        if \<not> rt_signal_proc s then s
        else if rt_main_exit s then s\<lparr>rt_signals := rest, rt_signal_proc := False\<rparr>
        else addExecTask (ASignal signo) (s\<lparr>rt_signals := rest\<rparr>))"

definition timerStep :: "runtime \<Rightarrow> runtime" where
  "timerStep s = (case rt_timer s of
      Some t \<Rightarrow> if t \<le> rt_now s then s\<lparr>rt_timer := None, rt_signals := rt_signals s @ [SigAlrm]\<rparr> else s
    | None \<Rightarrow> s)"

text \<open>The queues hold fewer jobs than a counter of 64 bits can tell apart.\<close>

definition pendingJobs :: "runtime \<Rightarrow> nat" where
  "pendingJobs s = length (rt_high s) + length (rt_medium s) + length (rt_low s) + length (rt_stack s)"

definition room :: "runtime \<Rightarrow> bool" where
  "room s \<longleftrightarrow> int (pendingJobs s) + 2 < 18446744073709551616"

inductive rt_step :: "bool \<Rightarrow> (rcall \<Rightarrow> bool) \<Rightarrow> runtime \<Rightarrow> runtime \<Rightarrow> bool" for debug allowed where
  rt_work: "room s \<Longrightarrow> rt_step debug allowed s (workerStep debug s)"
| rt_client: "i < length (rt_calls s) \<Longrightarrow> room s \<Longrightarrow> rt_step debug allowed s (callStep i s)"
| rt_call: "allowed c \<Longrightarrow> rt_step debug allowed s (makeCall c s)"
| rt_signal: "rt_step debug allowed s (signalStep s)"
| rt_fire: "rt_step debug allowed s (timerStep s)"
| rt_time: "rt_step debug allowed s (s\<lparr>rt_now := rt_now s + int n\<rparr>)"

definition rt_init :: "runtime \<Rightarrow> bool" where
  "rt_init s \<longleftrightarrow> s = newRuntime"

section \<open>Schedules\<close>

datatype raction =
    RWork
  | RClient nat
  | RCall rcall
  | RSig
  | RFire
  | RTime nat

fun rdo :: "bool \<Rightarrow> (rcall \<Rightarrow> bool) \<Rightarrow> raction \<Rightarrow> runtime \<Rightarrow> runtime option" where
  "rdo debug allowed RWork s = (if room s then Some (workerStep debug s) else None)"
| "rdo debug allowed (RClient i) s = (if i < length (rt_calls s) \<and> room s then Some (callStep i s) else None)"
| "rdo debug allowed (RCall c) s = (if allowed c then Some (makeCall c s) else None)"
| "rdo debug allowed RSig s = Some (signalStep s)"
| "rdo debug allowed RFire s = Some (timerStep s)"
| "rdo debug allowed (RTime n) s = Some (s\<lparr>rt_now := rt_now s + int n\<rparr>)"

fun rruns :: "bool \<Rightarrow> (rcall \<Rightarrow> bool) \<Rightarrow> raction list \<Rightarrow> runtime \<Rightarrow> runtime option" where
  "rruns debug allowed [] s = Some s"
| "rruns debug allowed (a # as) s = (case rdo debug allowed a s of None \<Rightarrow> None | Some s' \<Rightarrow> rruns debug allowed as s')"

end
