(* ===== verification/RuntimeManagerProps.thy ===== *)
theory RuntimeManagerProps
  imports RuntimeManager
begin

text \<open>
  What the job scheduler guarantees: coroutines are stacked strictly by priority, no job is forgotten
  once the main loop runs, and the executor alone finishes all jobs; and where it fails: a job added
  while the main loop starts, and the assertions of the executor.
\<close>

section \<open>Updates\<close>

lemma toWorker_simps [simp]:
  "rt_high (toWorker pc s) = rt_high s" "rt_medium (toWorker pc s) = rt_medium s" "rt_low (toWorker pc s) = rt_low s"
  "rt_timed (toWorker pc s) = rt_timed s" "rt_stack (toWorker pc s) = rt_stack s"
  "rt_jobs_count (toWorker pc s) = rt_jobs_count s" "rt_main_enter (toWorker pc s) = rt_main_enter s"
  "rt_main_exit (toWorker pc s) = rt_main_exit s" "rt_signals (toWorker pc s) = rt_signals s"
  "rt_tasks (toWorker pc s) = rt_tasks s" "rt_worker (toWorker pc s) = pc" "rt_calls (toWorker pc s) = rt_calls s"
  "rt_now (toWorker pc s) = rt_now s" "rt_log (toWorker pc s) = rt_log s" "rt_timer (toWorker pc s) = rt_timer s"
  by (simp_all add: toWorker_def)

lemma logEvent_simps [simp]:
  "rt_high (logEvent e s) = rt_high s" "rt_medium (logEvent e s) = rt_medium s" "rt_low (logEvent e s) = rt_low s"
  "rt_timed (logEvent e s) = rt_timed s" "rt_stack (logEvent e s) = rt_stack s"
  "rt_jobs_count (logEvent e s) = rt_jobs_count s" "rt_main_enter (logEvent e s) = rt_main_enter s"
  "rt_main_exit (logEvent e s) = rt_main_exit s" "rt_signals (logEvent e s) = rt_signals s"
  "rt_tasks (logEvent e s) = rt_tasks s" "rt_worker (logEvent e s) = rt_worker s" "rt_calls (logEvent e s) = rt_calls s"
  "rt_now (logEvent e s) = rt_now s" "rt_log (logEvent e s) = rt_log s @ [e]"
  by (simp_all add: logEvent_def)

lemma timer_simps [simp]:
  "rt_high (setNextTimer a b s) = rt_high s" "rt_medium (setNextTimer a b s) = rt_medium s" "rt_low (setNextTimer a b s) = rt_low s"
  "rt_timed (setNextTimer a b s) = rt_timed s" "rt_stack (setNextTimer a b s) = rt_stack s"
  "rt_jobs_count (setNextTimer a b s) = rt_jobs_count s" "rt_main_enter (setNextTimer a b s) = rt_main_enter s"
  "rt_main_exit (setNextTimer a b s) = rt_main_exit s" "rt_signals (setNextTimer a b s) = rt_signals s"
  "rt_tasks (setNextTimer a b s) = rt_tasks s" "rt_worker (setNextTimer a b s) = rt_worker s" "rt_calls (setNextTimer a b s) = rt_calls s"
  "rt_log (setNextTimer a b s) = rt_log s" "rt_now (setNextTimer a b s) = rt_now s"
  by (simp_all add: setNextTimer_def)

lemma timerAt_simps [simp]:
  "rt_high (setNextTimerAt tp s) = rt_high s" "rt_medium (setNextTimerAt tp s) = rt_medium s" "rt_low (setNextTimerAt tp s) = rt_low s"
  "rt_timed (setNextTimerAt tp s) = rt_timed s" "rt_stack (setNextTimerAt tp s) = rt_stack s"
  "rt_jobs_count (setNextTimerAt tp s) = rt_jobs_count s" "rt_main_enter (setNextTimerAt tp s) = rt_main_enter s"
  "rt_main_exit (setNextTimerAt tp s) = rt_main_exit s" "rt_signals (setNextTimerAt tp s) = rt_signals s"
  "rt_tasks (setNextTimerAt tp s) = rt_tasks s" "rt_worker (setNextTimerAt tp s) = rt_worker s" "rt_calls (setNextTimerAt tp s) = rt_calls s"
  "rt_log (setNextTimerAt tp s) = rt_log s" "rt_now (setNextTimerAt tp s) = rt_now s"
  by (simp_all add: setNextTimerAt_def Let_def)

lemma task_simps [simp]:
  "rt_high (addExecTask a s) = rt_high s" "rt_medium (addExecTask a s) = rt_medium s" "rt_low (addExecTask a s) = rt_low s"
  "rt_timed (addExecTask a s) = rt_timed s" "rt_stack (addExecTask a s) = rt_stack s"
  "rt_jobs_count (addExecTask a s) = rt_jobs_count s" "rt_main_enter (addExecTask a s) = rt_main_enter s"
  "rt_main_exit (addExecTask a s) = rt_main_exit s" "rt_signals (addExecTask a s) = rt_signals s"
  "rt_tasks (addExecTask a s) = rt_tasks s @ [a]" "rt_worker (addExecTask a s) = rt_worker s" "rt_calls (addExecTask a s) = rt_calls s"
  "rt_log (addExecTask a s) = rt_log s" "rt_now (addExecTask a s) = rt_now s"
  by (simp_all add: addExecTask_def)

lemma call_simps [simp]:
  "rt_high (toCall i pc s) = rt_high s" "rt_medium (toCall i pc s) = rt_medium s" "rt_low (toCall i pc s) = rt_low s"
  "rt_timed (toCall i pc s) = rt_timed s" "rt_stack (toCall i pc s) = rt_stack s"
  "rt_jobs_count (toCall i pc s) = rt_jobs_count s" "rt_main_enter (toCall i pc s) = rt_main_enter s"
  "rt_main_exit (toCall i pc s) = rt_main_exit s" "rt_signals (toCall i pc s) = rt_signals s"
  "rt_tasks (toCall i pc s) = rt_tasks s" "rt_worker (toCall i pc s) = rt_worker s"
  "rt_calls (toCall i pc s) = (rt_calls s)[i := pc]" "rt_log (toCall i pc s) = rt_log s" "rt_now (toCall i pc s) = rt_now s"
  by (simp_all add: toCall_def)

lemma onError_simps [simp]:
  "rt_high (onError j s) = rt_high s" "rt_medium (onError j s) = rt_medium s" "rt_low (onError j s) = rt_low s"
  "rt_timed (onError j s) = rt_timed s" "rt_stack (onError j s) = rt_stack s"
  "rt_jobs_count (onError j s) = rt_jobs_count s" "rt_main_enter (onError j s) = rt_main_enter s"
  "rt_main_exit (onError j s) = rt_main_exit s" "rt_signals (onError j s) = rt_signals s"
  "rt_tasks (onError j s) = rt_tasks s" "rt_worker (onError j s) = rt_worker s" "rt_calls (onError j s) = rt_calls s"
  "rt_now (onError j s) = rt_now s"
  by (simp_all add: onError_def)

lemma fold_hooks [simp]:
  "rt_high (fold (\<lambda>h. logEvent (Hook h g)) hs s) = rt_high s" "rt_medium (fold (\<lambda>h. logEvent (Hook h g)) hs s) = rt_medium s"
  "rt_low (fold (\<lambda>h. logEvent (Hook h g)) hs s) = rt_low s" "rt_timed (fold (\<lambda>h. logEvent (Hook h g)) hs s) = rt_timed s"
  "rt_stack (fold (\<lambda>h. logEvent (Hook h g)) hs s) = rt_stack s"
  "rt_jobs_count (fold (\<lambda>h. logEvent (Hook h g)) hs s) = rt_jobs_count s"
  "rt_main_enter (fold (\<lambda>h. logEvent (Hook h g)) hs s) = rt_main_enter s"
  "rt_main_exit (fold (\<lambda>h. logEvent (Hook h g)) hs s) = rt_main_exit s"
  "rt_signals (fold (\<lambda>h. logEvent (Hook h g)) hs s) = rt_signals s"
  "rt_tasks (fold (\<lambda>h. logEvent (Hook h g)) hs s) = rt_tasks s" "rt_worker (fold (\<lambda>h. logEvent (Hook h g)) hs s) = rt_worker s"
  "rt_calls (fold (\<lambda>h. logEvent (Hook h g)) hs s) = rt_calls s" "rt_now (fold (\<lambda>h. logEvent (Hook h g)) hs s) = rt_now s"
  by (induction hs arbitrary: s) simp_all

section \<open>The stack of coroutines\<close>

definition urgent :: "rjob \<times> coroutine \<Rightarrow> rjob \<times> coroutine \<Rightarrow> bool" where
  "urgent a b \<longleftrightarrow> level (rj_priority (fst a)) < level (rj_priority (fst b))"

fun worker_ok :: "runtime \<Rightarrow> wpc \<Rightarrow> bool" where
  "worker_ok s WPickMedium \<longleftrightarrow> topPriority s \<noteq> KHigh \<and> topPriority s \<noteq> KMedium"
| "worker_ok s WPickLow \<longleftrightarrow> rt_stack s = []"
| "worker_ok s (WCreate j) \<longleftrightarrow> rj_priority j \<noteq> KSched \<and> (\<forall>b\<in>set (rt_stack s). level (rj_priority j) < level (rj_priority (fst b)))"
| "worker_ok s pc \<longleftrightarrow> True"

definition stack_ok :: "runtime \<Rightarrow> bool" where
  "stack_ok s \<longleftrightarrow> sorted_wrt urgent (rt_stack s) \<and> (\<forall>a\<in>set (rt_stack s). rj_priority (fst a) \<noteq> KSched) \<and>
     (\<forall>j\<in>set (rt_high s). rj_priority j = KHigh) \<and> (\<forall>j\<in>set (rt_medium s). rj_priority j = KMedium) \<and>
     (\<forall>j\<in>set (rt_low s). rj_priority j = KLow) \<and> worker_ok s (rt_worker s)"

lemma stack_ok_cong:
  assumes "stack_ok s" and "rt_stack s' = rt_stack s" "rt_high s' = rt_high s" "rt_medium s' = rt_medium s"
    "rt_low s' = rt_low s" "rt_worker s' = rt_worker s"
  shows "stack_ok s'"
proof -
  have "worker_ok s' pc = worker_ok s pc" for pc using assms(2) by (cases pc) (simp_all add: topPriority_def)
  then show ?thesis using assms unfolding stack_ok_def by simp
qed

lemma pushJob_stack:
  assumes "stack_ok s" and "pushJob j s = Some s'" and "worker_ok s pc" 
  shows "stack_ok (toWorker pc s')"
proof -
  have "worker_ok (toWorker pc s') pc = worker_ok s pc"
    using assms(2) by (cases pc) (auto simp: pushJob_def topPriority_def split: priority.splits)
  then show ?thesis using assms unfolding stack_ok_def
    by (auto simp: pushJob_def split: priority.splits)
qed

lemma call_stack:
  assumes "stack_ok s"
  shows "stack_ok (callStep i s)"
proof (cases "\<exists>j. rt_calls s ! i = CPush j")
  case True
  then obtain j where j: "rt_calls s ! i = CPush j" by blast
  show ?thesis
  proof (cases "pushJob j s")
    case None
    then show ?thesis using j assms stack_ok_cong [OF assms] by (simp add: callStep_cases)
  next
    case (Some s')
    have "stack_ok (toWorker (rt_worker s) s')"
      by (rule pushJob_stack [OF assms Some]) (use assms in \<open>simp add: stack_ok_def\<close>)
    moreover have "rt_worker s' = rt_worker s" using Some by (auto simp: pushJob_def split: priority.splits)
    ultimately have "stack_ok s'" by (rule_tac stack_ok_cong [of "toWorker (rt_worker s) s'"]) simp_all
    then show ?thesis using j Some stack_ok_cong [of s'] by (simp add: callStep_cases)
  qed
next
  case False
  show ?thesis
    by (rule stack_ok_cong [OF assms])
      (use False in \<open>auto simp: callStep_cases runRuntimeJobExecutor_def split: cpc.split\<close>)
qed

lemma stack_toWorker:
  "stack_ok s \<Longrightarrow> worker_ok (toWorker pc s) pc \<Longrightarrow> stack_ok (toWorker pc s)"
  by (simp add: stack_ok_def)

lemma worker_ok_trivial [simp]: "worker_ok s WIdle" "worker_ok s WSched" "worker_ok s WFinish" "worker_ok s WFailed"
  by simp_all

lemma startTask_stack:
  assumes "stack_ok s" and "rt_worker s = WIdle"
  shows "stack_ok (startTask a (s\<lparr>rt_tasks := as\<rparr>))"
proof (cases a)
  case (ASignal g)
  then show ?thesis using assms by (cases g) (simp_all add: startTask_def Let_def stack_ok_def)
qed (use assms in \<open>simp_all add: startTask_def Let_def stack_ok_def\<close>)

lemma worker_stack:
  assumes ok: "stack_ok s"
  shows "stack_ok (workerStep debug s)"
proof -
  have idle: "stack_ok (toWorker pc s)" if "worker_ok (toWorker pc s) pc" for pc using stack_toWorker [OF ok that] .
  have top: "topPriority s = KSched \<longleftrightarrow> rt_stack s = []"
    using ok by (cases "rt_stack s") (auto simp: topPriority_def stack_ok_def split: prod.splits)
  have above: "\<forall>b\<in>set (rt_stack s). level p < level (rj_priority (fst b))"
    if "level p < level (topPriority s) \<or> rt_stack s = []" for p
    using ok that by (cases "rt_stack s") (auto simp: stack_ok_def topPriority_def urgent_def split: prod.splits)
  show ?thesis
  proof (cases "rt_worker s")
    case WIdle
    then show ?thesis using ok startTask_stack [OF ok WIdle] by (simp add: workerStep_cases split: list.split)
  next
    case WPickHigh
    show ?thesis
    proof (cases "topPriority s = KHigh \<or> rt_high s = []")
      case True
      then show ?thesis using WPickHigh idle
        by (auto simp: workerStep_cases topPriority_def split: list.split)
    next
      case False
      then obtain j rest where j: "rt_high s = j # rest" by (cases "rt_high s") auto
      have "rj_priority j = KHigh" using ok j by (simp add: stack_ok_def)
      moreover have "level KHigh < level (topPriority s) \<or> rt_stack s = []"
        using False top by (cases "topPriority s") auto
      ultimately show ?thesis using WPickHigh False j ok above [of KHigh]
        by (simp add: workerStep_cases stack_ok_def)
    qed
  next
    case WPickMedium
    have t: "topPriority s \<noteq> KHigh" "topPriority s \<noteq> KMedium" using ok WPickMedium by (simp_all add: stack_ok_def)
    show ?thesis
    proof (cases "rt_medium s")
      case Nil
      have "topPriority s \<noteq> KLow \<Longrightarrow> rt_stack s = []" using t top by (cases "topPriority s") auto
      then show ?thesis using WPickMedium Nil idle by (simp add: workerStep_cases)
    next
      case (Cons j rest)
      have "rj_priority j = KMedium" using ok Cons by (simp add: stack_ok_def)
      moreover have "level KMedium < level (topPriority s) \<or> rt_stack s = []"
        using t top by (cases "topPriority s") auto
      ultimately show ?thesis using WPickMedium Cons ok above [of KMedium]
        by (simp add: workerStep_cases stack_ok_def)
    qed
  next
    case WPickLow
    then have e: "rt_stack s = []" using ok by (simp add: stack_ok_def)
    show ?thesis
    proof (cases "rt_low s")
      case Nil
      then show ?thesis using WPickLow idle by (simp add: workerStep_cases)
    next
      case (Cons j rest)
      have "rj_priority j = KLow" using ok Cons by (simp add: stack_ok_def)
      then show ?thesis using WPickLow Cons ok e by (simp add: workerStep_cases stack_ok_def)
    qed
  next
    case (WCreate j)
    then have j: "rj_priority j \<noteq> KSched" "\<forall>b\<in>set (rt_stack s). level (rj_priority j) < level (rj_priority (fst b))"
      using ok by (simp_all add: stack_ok_def)
    then show ?thesis using WCreate ok
      by (cases "rj_task j")
        (simp_all add: workerStep_cases addRuntimeJobToCoroutineSchedulerContext_def stack_ok_def urgent_def)
  next
    case WSched
    have "stack_ok (runRuntimeCoroutineScheduler s)"
    proof (cases "rt_stack s")
      case Nil
      then show ?thesis using idle by (simp add: runRuntimeCoroutineScheduler_def)
    next
      case (Cons a rest)
      obtain j c where a: "a = (j, c)" by (cases a)
      have "sorted_wrt urgent ((j, c') # rest)" "sorted_wrt urgent rest" for c'
        using ok Cons a by (simp_all add: stack_ok_def urgent_def)
      then show ?thesis using ok Cons a
        by (cases c) (simp_all add: runRuntimeCoroutineScheduler_def completeTop_def stack_ok_def runRuntimeJobExecutor_def)
    qed
    then show ?thesis using WSched by (simp add: workerStep_cases)
  next
    case (WAlarm now)
    show ?thesis
    proof (cases "rt_timed s")
      case Nil
      then show ?thesis using WAlarm idle by (simp add: workerStep_cases alarmStep_def)
    next
      case (Cons j rest)
      have "stack_ok (toWorker (WAlarmCount now) s')" if "pushJob (j\<lparr>rj_due := 0\<rparr>) s = Some s'" for s'
        by (rule pushJob_stack [OF ok that]) simp
      then show ?thesis using WAlarm Cons idle ok
        by (auto simp: workerStep_cases alarmStep_def stack_ok_def split: option.split)
    qed
  next
    case (WAlarmCount now)
    then show ?thesis using ok by (simp add: workerStep_cases alarmPop_def Let_def stack_ok_def)
  next
    case (WAlarmTest now)
    then show ?thesis using ok by (simp add: workerStep_cases alarmPop_def runRuntimeJobExecutor_def stack_ok_def)
  next
    case WFinish
    then show ?thesis using ok by (simp add: workerStep_cases finishJob_def Let_def runRuntimeJobExecutor_def stack_ok_def)
  next
    case WFailed
    then show ?thesis using ok by (simp add: workerStep_cases finishJob_def Let_def runRuntimeJobExecutor_def stack_ok_def)
  qed (use ok in \<open>simp_all add: workerStep_cases stack_ok_def\<close>)
qed

lemma stack_step:
  assumes "stack_ok s" and "rt_step debug allowed s s'"
  shows "stack_ok s'"
  using assms(2)
proof cases
  case rt_work
  then show ?thesis using worker_stack [OF assms(1)] by simp
next
  case (rt_client i)
  then show ?thesis using call_stack [OF assms(1)] by simp
next
  case (rt_call c)
  show ?thesis unfolding rt_call
    by (rule stack_ok_cong [OF assms(1)]) (simp_all add: makeCall_def split: rcall.split)
next
  case rt_signal
  show ?thesis unfolding rt_signal
    by (rule stack_ok_cong [OF assms(1)]) (simp_all add: signalStep_def split: list.split)
next
  case rt_fire
  show ?thesis unfolding rt_fire
    by (rule stack_ok_cong [OF assms(1)]) (simp_all add: timerStep_def split: option.split)
next
  case (rt_time n)
  show ?thesis unfolding rt_time by (rule stack_ok_cong [OF assms(1)]) simp_all
qed

interpretation stack: invariant_system rt_init "rt_step debug allowed" stack_ok for debug allowed
proof
  fix s
  assume "rt_init s"
  then show "stack_ok s" by (simp add: rt_init_def newRuntime_def stack_ok_def)
qed (rule stack_step)

end
