(* ===== verification/RuntimeManagerLive.thy ===== *)
theory RuntimeManagerLive
  imports RuntimeManagerProps
begin

text \<open>
  The count of jobs and the one executor: while the main loop runs, the count is positive exactly while
  an executor is queued, runs, or is about to be queued, so no job is forgotten.
\<close>

section \<open>The count of jobs\<close>

fun callUncounted :: "cpc \<Rightarrow> nat" where
  "callUncounted CCount = 1"
| "callUncounted pc = 0"

fun callTok :: "cpc \<Rightarrow> nat" where
  "callTok CTest = 1"
| "callTok CPost = 1"
| "callTok pc = 0"

fun taskTok :: "atask \<Rightarrow> nat" where
  "taskTok AExec = 1"
| "taskTok a = 0"

fun workerUncounted :: "wpc \<Rightarrow> nat" where
  "workerUncounted (WAlarmCount now) = 1"
| "workerUncounted pc = 0"

text \<open>A job that was taken from its queue, or whose coroutine is gone and that is still counted.\<close>

fun held :: "wpc \<Rightarrow> nat" where
  "held (WCreate j) = 1"
| "held WFinish = 1"
| "held WFailed = 1"
| "held pc = 0"

fun workerTok :: "wpc \<Rightarrow> nat" where
  "workerTok WPickHigh = 1"
| "workerTok WPickMedium = 1"
| "workerTok WPickLow = 1"
| "workerTok (WCreate j) = 1"
| "workerTok WSched = 1"
| "workerTok WFinish = 1"
| "workerTok WFailed = 1"
| "workerTok (WAlarmTest now) = 1"
| "workerTok pc = 0"

definition uncounted :: "runtime \<Rightarrow> nat" where
  "uncounted s = sum_list (map callUncounted (rt_calls s)) + workerUncounted (rt_worker s)"

text \<open>The executors that are queued, run, or are about to be queued.\<close>

definition executors :: "runtime \<Rightarrow> nat" where
  "executors s = sum_list (map taskTok (rt_tasks s)) + workerTok (rt_worker s) + sum_list (map callTok (rt_calls s))"

definition counts_ok :: "runtime \<Rightarrow> bool" where
  "counts_ok s \<longleftrightarrow> unat (rt_jobs_count s) + uncounted s = pendingJobs s + held (rt_worker s) \<and>
     executors s = (if rt_jobs_count s = 0 then 0 else 1)"

fun quietSignal :: "signo \<Rightarrow> bool" where
  "quietSignal SigInt = False"
| "quietSignal SigTerm = False"
| "quietSignal g = True"

fun quietTask :: "atask \<Rightarrow> bool" where
  "quietTask (ASignal g) = quietSignal g"
| "quietTask a = True"

fun quietCall :: "rcall \<Rightarrow> bool" where
  "quietCall REnter = False"
| "quietCall RExit = False"
| "quietCall (RSignal g) = quietSignal g"
| "quietCall c = True"

fun quietPc :: "cpc \<Rightarrow> bool" where
  "quietPc EStart = False"
| "quietPc (EFlag b) = False"
| "quietPc (EClear b) = False"
| "quietPc (EProc b) = False"
| "quietPc EPost = False"
| "quietPc XFlag = False"
| "quietPc XEnter = False"
| "quietPc XTimer = False"
| "quietPc XWait = False"
| "quietPc pc = True"

fun quietWorker :: "wpc \<Rightarrow> bool" where
  "quietWorker WExit = False"
| "quietWorker WExitEnter = False"
| "quietWorker WExitTimer = False"
| "quietWorker WExitWait = False"
| "quietWorker pc = True"

definition quiet :: "runtime \<Rightarrow> bool" where
  "quiet s \<longleftrightarrow> rt_main_enter s \<and> (\<forall>g\<in>set (rt_signals s). quietSignal g) \<and> (\<forall>a\<in>set (rt_tasks s). quietTask a) \<and>
     (\<forall>c\<in>set (rt_calls s). quietPc c) \<and> quietWorker (rt_worker s)"

text \<open>An executor that has found the more urgent queues empty still finds a job.\<close>

fun found :: "runtime \<Rightarrow> wpc \<Rightarrow> bool" where
  "found s WPickMedium \<longleftrightarrow> rt_stack s = [] \<longrightarrow> rt_medium s \<noteq> [] \<or> rt_low s \<noteq> []"
| "found s WPickLow \<longleftrightarrow> rt_low s \<noteq> []"
| "found s WSched \<longleftrightarrow> rt_stack s \<noteq> []"
| "found s pc \<longleftrightarrow> True"

definition jobs_ok :: "runtime \<Rightarrow> bool" where
  "jobs_ok s \<longleftrightarrow> stack_ok s \<and> quiet s \<and> counts_ok s \<and> found s (rt_worker s)"

lemma unat_inc: "unat (c::u64) + 1 < 2 ^ 64 \<Longrightarrow> unat (c + 1) = unat c + 1"
  by (simp add: unat_word_ariths)

lemma unat_dec: "(c::u64) \<noteq> 0 \<Longrightarrow> unat c = Suc (unat (c - 1))"
  using unat_minus_one [of c] by (metis Suc_pred unat_gt_0 One_nat_def)

lemma room_bound: "room s \<longleftrightarrow> pendingJobs s + 2 < 2 ^ 64"
  by (simp add: room_def)

lemma more_than_one: "(c::u64) \<noteq> 0 \<Longrightarrow> 1 < c \<longleftrightarrow> c \<noteq> 1"
  by (auto simp: word_less_nat_alt word_unat_eq_iff)

lemma sum_update:
  fixes f :: "'a \<Rightarrow> nat"
  shows "i < length xs \<Longrightarrow> sum_list (map f (xs[i := x])) + f (xs ! i) = sum_list (map f xs) + f x"
proof (induction xs arbitrary: i)
  case (Cons y ys)
  then show ?case by (cases i) simp_all
qed simp

section \<open>Calls\<close>

lemma found_cong:
  "found s pc \<Longrightarrow> rt_stack s' = rt_stack s \<Longrightarrow> (rt_medium s \<noteq> [] \<Longrightarrow> rt_medium s' \<noteq> []) \<Longrightarrow>
    (rt_low s \<noteq> [] \<Longrightarrow> rt_low s' \<noteq> []) \<Longrightarrow> found s' pc"
  by (cases pc) auto

lemma quiet_call:
  assumes "quiet s" and "i < length (rt_calls s)"
  shows "quiet (callStep i s)"
proof -
  have pc: "quietPc (rt_calls s ! i)" using assms by (simp add: quiet_def)
  have sub: "set ((rt_calls s)[i := x]) \<subseteq> insert x (set (rt_calls s))" for x by (rule set_update_subset_insert)
  have q: "quiet (toCall i x s')" if "quietPc x" "rt_main_enter s'" "rt_signals s' = rt_signals s"
      "\<forall>a\<in>set (rt_tasks s'). quietTask a" "rt_calls s' = rt_calls s" "rt_worker s' = rt_worker s" for x s'
    using assms(1) that sub [of x] by (auto simp: quiet_def)
  have tasks: "rt_main_enter s" "\<forall>a\<in>set (rt_tasks s). quietTask a" using assms(1) by (simp_all add: quiet_def)
  show ?thesis
  proof (cases "rt_calls s ! i")
    case (CPush j)
    then show ?thesis using q tasks
      by (auto simp: callStep_cases pushJob_def split: option.split priority.splits)
  qed (use pc q tasks assms(1) in \<open>auto simp: callStep_cases runRuntimeJobExecutor_def\<close>)
qed

lemma jobs_call:
  assumes ok: "jobs_ok s" and i: "i < length (rt_calls s)" and r: "room s"
  shows "jobs_ok (callStep i s)"
proof -
  let ?s = "callStep i s"
  have c: "counts_ok s" and f: "found s (rt_worker s)" and q: "quiet s" using ok by (simp_all add: jobs_ok_def)
  have w: "rt_worker ?s = rt_worker s"
    by (simp add: callStep_cases runRuntimeJobExecutor_def pushJob_def split: cpc.split option.split priority.split)
  have m: "rt_stack ?s = rt_stack s" "rt_medium s \<noteq> [] \<Longrightarrow> rt_medium ?s \<noteq> []" "rt_low s \<noteq> [] \<Longrightarrow> rt_low ?s \<noteq> []"
    by (auto simp add: callStep_cases runRuntimeJobExecutor_def pushJob_def split: cpc.split option.split priority.split)
  have u: "sum_list (map callUncounted ((rt_calls s)[i := x])) + callUncounted (rt_calls s ! i) =
      sum_list (map callUncounted (rt_calls s)) + callUncounted x"
    and t: "sum_list (map callTok ((rt_calls s)[i := x])) + callTok (rt_calls s ! i) =
      sum_list (map callTok (rt_calls s)) + callTok x" for x
    using i by (simp_all add: sum_update)
  have pc: "quietPc (rt_calls s ! i)" using q i by (simp add: quiet_def)
  have h: "held (rt_worker s) \<le> 1" by (cases "rt_worker s") simp_all
  have "counts_ok ?s"
  proof (cases "rt_calls s ! i")
    case (CPush j)
    then show ?thesis
      using c u [of CCount] u [of CThrew] t [of CCount] t [of CThrew]
      by (cases "rj_priority j") (simp_all add: callStep_cases pushJob_def counts_ok_def uncounted_def executors_def pendingJobs_def)
  next
    case CCount
    have "unat (rt_jobs_count s) + 1 < 2 ^ 64" using c r h by (simp add: counts_ok_def room_bound)
    from unat_inc [OF this] have n: "unat (rt_jobs_count s + 1) = unat (rt_jobs_count s) + 1" .
    then have z: "rt_jobs_count s + 1 \<noteq> 0" by (metis Suc_eq_plus1 nat.distinct(1) unat_0)
    show ?thesis
      using c CCount u [of CTest] u [of CDone] t [of CTest] t [of CDone] n z
      by (simp add: callStep_cases counts_ok_def uncounted_def executors_def pendingJobs_def split: if_splits)
  next
    case CTest
    have "rt_main_enter s" using q by (simp add: quiet_def)
    then show ?thesis using c CTest u [of CPost] t [of CPost]
      by (simp add: callStep_cases counts_ok_def uncounted_def executors_def pendingJobs_def)
  next
    case CPost
    then show ?thesis using c u [of CDone] t [of CDone]
      by (simp add: callStep_cases runRuntimeJobExecutor_def counts_ok_def uncounted_def executors_def pendingJobs_def split: if_splits)
  next
    case EWait
    then show ?thesis using c u [of CDone] t [of CDone]
      by (simp add: callStep_cases counts_ok_def uncounted_def executors_def pendingJobs_def split: if_splits
        del: sum_list_eq_0_iff)
  qed (use pc c in \<open>simp_all add: callStep_cases\<close>)
  moreover have "found ?s (rt_worker ?s)" using found_cong [OF f] m w by simp
  ultimately show ?thesis using call_stack [of s i] quiet_call [OF q i] ok by (simp add: jobs_ok_def)
qed

section \<open>The asynchronous thread\<close>

lemma quiet_worker:
  assumes q: "quiet s"
  shows "quiet (workerStep debug s)"
proof (cases "rt_worker s")
  case WIdle
  show ?thesis
  proof (cases "rt_tasks s")
    case Nil
    then show ?thesis using WIdle q by (simp add: workerStep_cases)
  next
    case (Cons a as)
    have "quietTask a" using q Cons by (simp add: quiet_def)
    then show ?thesis using q WIdle Cons
      by (cases a; (cases "case a of ASignal g \<Rightarrow> g | _ \<Rightarrow> SigAlrm")?)
        (simp_all add: workerStep_cases startTask_def quiet_def Let_def)
  qed
next
  case WSched
  then show ?thesis using q
    by (auto simp: workerStep_cases quiet_def runRuntimeCoroutineScheduler_def completeTop_def runRuntimeJobExecutor_def
        split: list.split coroutine.split)
next
  case (WCreate j)
  then show ?thesis using q
    by (cases "rj_task j") (simp_all add: workerStep_cases quiet_def addRuntimeJobToCoroutineSchedulerContext_def)
next
  case (WAlarm now)
  then show ?thesis using q
    by (auto simp: workerStep_cases quiet_def alarmStep_def pushJob_def split: list.split option.split priority.splits if_splits)
next
  case WPickHigh
  then show ?thesis using q by (simp add: workerStep_cases quiet_def split: list.split)
next
  case WPickMedium
  then show ?thesis using q by (simp add: workerStep_cases quiet_def split: list.split)
next
  case WPickLow
  then show ?thesis using q by (simp add: workerStep_cases quiet_def split: list.split)
qed (use q in \<open>simp_all add: workerStep_cases quiet_def finishJob_def alarmPop_def Let_def runRuntimeJobExecutor_def\<close>)

lemma counts_worker:
  assumes ok: "jobs_ok s" and r: "room s"
  shows "counts_ok (workerStep debug s)"
proof -
  have c: "counts_ok s" and f: "found s (rt_worker s)" and q: "quiet s" using ok by (simp_all add: jobs_ok_def)
  note d = counts_ok_def uncounted_def executors_def pendingJobs_def
  have one: "rt_jobs_count s \<noteq> 0" if "workerTok (rt_worker s) = 1"
    using c that by (auto simp: d)
  have big: "rt_jobs_count s > 1 \<longleftrightarrow> rt_jobs_count s - 1 \<noteq> 0" if "rt_jobs_count s \<noteq> 0"
    using more_than_one [OF that] by simp
  show ?thesis
  proof (cases "rt_worker s")
    case WIdle
    show ?thesis
    proof (cases "rt_tasks s")
      case Nil
      then show ?thesis using WIdle c by (simp add: workerStep_cases)
    next
      case (Cons a as)
      have "quietTask a" using q Cons by (simp add: quiet_def)
      then show ?thesis using c WIdle Cons
        by (cases a; (cases "case a of ASignal g \<Rightarrow> g | _ \<Rightarrow> SigAlrm")?)
          (simp_all add: workerStep_cases startTask_def d Let_def)
    qed
  next
    case (WCreate j)
    then show ?thesis using c
      by (cases "rj_task j") (simp_all add: workerStep_cases d addRuntimeJobToCoroutineSchedulerContext_def del: sum_list_eq_0_iff)
  next
    case WSched
    then obtain j c' rest where st: "rt_stack s = (j, c') # rest" using f by (cases "rt_stack s") auto
    then show ?thesis using c WSched
      by (cases c') (simp_all add: workerStep_cases d runRuntimeCoroutineScheduler_def completeTop_def runRuntimeJobExecutor_def
          del: sum_list_eq_0_iff)
  next
    case WFinish
    show ?thesis using c WFinish one big unat_dec [of "rt_jobs_count s"]
      by (cases "rt_jobs_count s > 1")
        (simp_all add: workerStep_cases d finishJob_def Let_def runRuntimeJobExecutor_def del: sum_list_eq_0_iff)
  next
    case WFailed
    show ?thesis using c WFailed one big unat_dec [of "rt_jobs_count s"]
      by (cases "rt_jobs_count s > 1")
        (simp_all add: workerStep_cases d finishJob_def Let_def runRuntimeJobExecutor_def del: sum_list_eq_0_iff)
  next
    case (WAlarm now)
    then show ?thesis using c
      by (auto simp: workerStep_cases d alarmStep_def pushJob_def split: list.split option.split priority.splits if_splits
          simp del: sum_list_eq_0_iff)
  next
    case (WAlarmCount now)
    have "unat (rt_jobs_count s) + 1 < 2 ^ 64" using c r WAlarmCount by (simp add: d room_bound)
    from unat_inc [OF this] have n: "unat (rt_jobs_count s + 1) = unat (rt_jobs_count s) + 1" .
    then have "rt_jobs_count s + 1 \<noteq> 0" by (metis Suc_eq_plus1 nat.distinct(1) unat_0)
    then show ?thesis using c WAlarmCount n
      by (cases "rt_jobs_count s = 0") (simp_all add: workerStep_cases d alarmPop_def Let_def del: sum_list_eq_0_iff)
  next
    case (WAlarmTest now)
    have "rt_main_enter s" using q by (simp add: quiet_def)
    then show ?thesis using c WAlarmTest
      by (simp add: workerStep_cases d alarmPop_def runRuntimeJobExecutor_def del: sum_list_eq_0_iff split: if_splits)
  next
    case WPickHigh
    then show ?thesis using c one by (simp add: workerStep_cases d split: list.split del: sum_list_eq_0_iff)
  next
    case WPickMedium
    then show ?thesis using c one by (simp add: workerStep_cases d split: list.split del: sum_list_eq_0_iff)
  next
    case WPickLow
    then show ?thesis using c one by (simp add: workerStep_cases d split: list.split del: sum_list_eq_0_iff)
  next
    case WAssert
    then have "workerStep debug s = toWorker WIdle s \<or> workerStep debug s = toWorker WBroken s"
      by (simp add: workerStep_cases)
    then show ?thesis using c WAssert by (elim disjE) (simp_all add: d del: sum_list_eq_0_iff)
  qed (use c q in \<open>simp_all add: workerStep_cases d quiet_def del: sum_list_eq_0_iff\<close>)
qed

lemma found_worker:
  assumes ok: "jobs_ok s"
  shows "found (workerStep debug s) (rt_worker (workerStep debug s))"
proof -
  have c: "counts_ok s" and f: "found s (rt_worker s)" and st: "stack_ok s" using ok by (simp_all add: jobs_ok_def)
  have top: "topPriority s = KSched \<longleftrightarrow> rt_stack s = []"
    using st by (cases "rt_stack s") (auto simp: topPriority_def stack_ok_def split: prod.splits)
  show ?thesis
  proof (cases "rt_worker s")
    case WIdle
    show ?thesis
    proof (cases "rt_tasks s")
      case (Cons a as)
      then show ?thesis using WIdle
        by (cases a; (cases "case a of ASignal g \<Rightarrow> g | _ \<Rightarrow> SigAlrm")?)
          (simp_all add: workerStep_cases startTask_def Let_def)
    qed (use WIdle in \<open>simp add: workerStep_cases\<close>)
  next
    case WPickHigh
    have "rt_jobs_count s \<noteq> 0" using c WPickHigh by (simp add: counts_ok_def executors_def split: if_splits)
    then have "unat (rt_jobs_count s) \<noteq> 0" by (simp add: unat_eq_zero)
    then have "pendingJobs s \<noteq> 0" using c WPickHigh by (simp add: counts_ok_def)
    then show ?thesis using WPickHigh top
      by (auto simp: workerStep_cases pendingJobs_def split: list.split)
  next
    case WPickMedium
    then have "topPriority s \<noteq> KHigh" "topPriority s \<noteq> KMedium" using st by (simp_all add: stack_ok_def)
    then show ?thesis using WPickMedium f top
      by (cases "topPriority s") (auto simp: workerStep_cases split: list.split)
  next
    case WPickLow
    then show ?thesis using f by (auto simp: workerStep_cases split: list.split)
  next
    case (WCreate j)
    then show ?thesis by (cases "rj_task j") (simp_all add: workerStep_cases addRuntimeJobToCoroutineSchedulerContext_def)
  next
    case WSched
    then show ?thesis
      by (simp add: workerStep_cases runRuntimeCoroutineScheduler_def completeTop_def runRuntimeJobExecutor_def
          split: list.split coroutine.split)
  next
    case (WAlarm now)
    then show ?thesis by (auto simp: workerStep_cases alarmStep_def split: list.split option.split)
  qed (simp_all add: workerStep_cases finishJob_def alarmPop_def Let_def runRuntimeJobExecutor_def)
qed

lemma jobs_worker: "jobs_ok s \<Longrightarrow> room s \<Longrightarrow> jobs_ok (workerStep debug s)"
  using worker_stack [of s debug] quiet_worker [of s debug] counts_worker [of s debug] found_worker [of s debug]
  by (simp add: jobs_ok_def)

lemma jobs_environment:
  assumes ok: "jobs_ok s" and stack: "stack_ok s'" and quiet: "quiet s'"
    and same: "rt_stack s' = rt_stack s" "rt_high s' = rt_high s" "rt_medium s' = rt_medium s" "rt_low s' = rt_low s"
      "rt_jobs_count s' = rt_jobs_count s" "rt_worker s' = rt_worker s"
    and tasks: "sum_list (map taskTok (rt_tasks s')) = sum_list (map taskTok (rt_tasks s))"
    and calls: "sum_list (map callTok (rt_calls s')) = sum_list (map callTok (rt_calls s))"
      "sum_list (map callUncounted (rt_calls s')) = sum_list (map callUncounted (rt_calls s))"
  shows "jobs_ok s'"
  using ok stack quiet found_cong [of s "rt_worker s" s'] same tasks calls
  by (simp add: jobs_ok_def counts_ok_def uncounted_def executors_def pendingJobs_def del: sum_list_eq_0_iff)

lemma jobs_step:
  assumes ok: "jobs_ok s" and step: "rt_step debug quietCall s s'"
  shows "jobs_ok s'"
proof -
  have st: "stack_ok s'" using stack_step [OF _ step] ok by (simp add: jobs_ok_def)
  have q: "quiet s" using ok by (simp add: jobs_ok_def)
  show ?thesis using step
  proof cases
    case rt_work
    then show ?thesis using jobs_worker ok by simp
  next
    case (rt_client i)
    then show ?thesis using jobs_call ok by simp
  next
    case (rt_call c)
    have "quiet s'" using q rt_call by (cases c) (auto simp: quiet_def makeCall_def)
    then show ?thesis
      by (rule jobs_environment [OF ok st]; simp add: rt_call makeCall_def split: rcall.split)
  next
    case rt_signal
    have "quiet s'" using q rt_signal by (auto simp: quiet_def signalStep_def split: list.split)
    then show ?thesis
      by (rule jobs_environment [OF ok st]; simp add: rt_signal signalStep_def split: list.split)
  next
    case rt_fire
    have "quiet s'" using q rt_fire by (auto simp: quiet_def timerStep_def split: option.split)
    then show ?thesis
      by (rule jobs_environment [OF ok st]; simp add: rt_fire timerStep_def split: option.split)
  next
    case (rt_time n)
    have "quiet s'" using q rt_time by (simp add: quiet_def)
    then show ?thesis by (rule jobs_environment [OF ok st]; simp add: rt_time)
  qed
qed

text \<open>The main loop has been entered before the first job.\<close>

definition mainLoop :: runtime where
  "mainLoop = newRuntime\<lparr>rt_main_enter := True, rt_signal_proc := True, rt_calls := [EWait]\<rparr>"

definition mainLoop_init :: "runtime \<Rightarrow> bool" where
  "mainLoop_init s \<longleftrightarrow> s = mainLoop"

interpretation jobs: invariant_system mainLoop_init "rt_step debug quietCall" jobs_ok for debug
proof
  fix s
  assume "mainLoop_init s"
  then show "jobs_ok s"
    by (simp add: mainLoop_init_def mainLoop_def newRuntime_def jobs_ok_def stack_ok_def quiet_def counts_ok_def
        uncounted_def executors_def pendingJobs_def)
qed (rule jobs_step)

end
