(* ===== verification/RuntimeManagerDrain.thy ===== *)
theory RuntimeManagerDrain
  imports RuntimeManagerLive
begin

text \<open>
  The asynchronous thread alone finishes all jobs; the races of the start of the main loop and of the
  assertions; the timed jobs.
\<close>

section \<open>The work that is left\<close>

fun csize :: "coroutine \<Rightarrow> nat" where
  "csize (Suspends c) = Suc (csize c)"
| "csize c = 0"

definition jobWork :: "rjob \<Rightarrow> nat" where
  "jobWork j = 20 * ((case rj_task j of None \<Rightarrow> 0 | Some c \<Rightarrow> csize c) + 2)"

definition timedWork :: "rjob \<Rightarrow> nat" where
  "timedWork j = jobWork j + 60"

fun taskWork :: "atask \<Rightarrow> nat" where
  "taskWork AExec = 16"
| "taskWork (ATimed j) = timedWork j + 1"
| "taskWork (ASignal g) = 4"
| "taskWork a = 1"

fun workerWork :: "wpc \<Rightarrow> nat" where
  "workerWork WPickHigh = 14"
| "workerWork WPickMedium = 12"
| "workerWork WPickLow = 10"
| "workerWork (WCreate j) = jobWork j + 9"
| "workerWork WSched = 8"
| "workerWork WFinish = 18"
| "workerWork WFailed = 18"
| "workerWork WAssert = 1"
| "workerWork (WAlarm now) = 3"
| "workerWork (WAlarmCount now) = 30"
| "workerWork (WAlarmTest now) = 25"
| "workerWork pc = 0"

text \<open>A timed job that has just been pushed is still in the heap.\<close>

fun moved :: "wpc \<Rightarrow> bool" where
  "moved (WAlarmCount now) = True"
| "moved (WAlarmTest now) = True"
| "moved pc = False"

definition workLeft :: "runtime \<Rightarrow> nat" where
  "workLeft s = sum_list (map jobWork (rt_high s)) + sum_list (map jobWork (rt_medium s)) +
     sum_list (map jobWork (rt_low s)) + sum_list (map (\<lambda>(j, c). 20 * (csize c + 2)) (rt_stack s)) +
     sum_list (map timedWork (if moved (rt_worker s) then tl (rt_timed s) else rt_timed s)) +
     sum_list (map taskWork (rt_tasks s)) + workerWork (rt_worker s)"

lemma timedWork_push: "sum_list (map timedWork (pushTimed j js)) = timedWork j + sum_list (map timedWork js)"
  by (induction js) simp_all

lemma jobWork_due [simp]: "jobWork (j\<lparr>rj_due := d\<rparr>) = jobWork j"
  by (simp add: jobWork_def)

definition resting :: "runtime \<Rightarrow> bool" where
  "resting s \<longleftrightarrow> rt_worker s = WIdle \<and> rt_tasks s = []"

lemma workLeft_decreases:
  assumes "quiet s" and "\<not> resting s" and "rt_worker s \<noteq> WBroken"
  shows "workLeft (workerStep debug s) < workLeft s \<or> rt_worker (workerStep debug s) = WBroken"
proof (cases "rt_worker s")
  case WIdle
  then obtain a as where t: "rt_tasks s = a # as" using assms(2) by (cases "rt_tasks s") (auto simp: resting_def)
  then have "quietTask a" using assms(1) by (simp add: quiet_def)
  then show ?thesis using WIdle t
    by (cases a; (cases "case a of ASignal g \<Rightarrow> g | _ \<Rightarrow> SigAlrm")?)
      (simp_all add: workerStep_cases startTask_def workLeft_def Let_def timedWork_push)
next
  case WSched
  show ?thesis
  proof (cases "rt_stack s")
    case Nil
    then show ?thesis using WSched by (simp add: workerStep_cases runRuntimeCoroutineScheduler_def workLeft_def)
  next
    case (Cons a rest)
    obtain j c where "a = (j, c)" by (cases a)
    then show ?thesis using WSched Cons
      by (cases c) (simp_all add: workerStep_cases runRuntimeCoroutineScheduler_def workLeft_def completeTop_def runRuntimeJobExecutor_def)
  qed
next
  case (WCreate j)
  then show ?thesis
    by (cases "rj_task j")
      (simp_all add: workerStep_cases addRuntimeJobToCoroutineSchedulerContext_def workLeft_def jobWork_def)
next
  case (WAlarm now)
  show ?thesis
  proof (cases "rt_timed s")
    case Nil
    then show ?thesis using WAlarm by (simp add: workerStep_cases alarmStep_def workLeft_def)
  next
    case (Cons j rest)
    then show ?thesis using WAlarm
      by (cases "rj_priority j") (auto simp: workerStep_cases alarmStep_def workLeft_def pushJob_def timedWork_def)
  qed
next
  case (WAlarmCount now)
  then show ?thesis by (simp add: workerStep_cases workLeft_def alarmPop_def Let_def)
next
  case (WAlarmTest now)
  then show ?thesis by (simp add: workerStep_cases workLeft_def alarmPop_def runRuntimeJobExecutor_def)
qed (use assms in \<open>auto simp: workerStep_cases workLeft_def finishJob_def Let_def runRuntimeJobExecutor_def quiet_def split: list.split\<close>)

text \<open>No call is in progress; the assertions of the executor hold then.\<close>

fun inactive :: "cpc \<Rightarrow> bool" where
  "inactive CDone = True"
| "inactive CThrew = True"
| "inactive EWait = True"
| "inactive pc = False"

definition alone :: "runtime \<Rightarrow> bool" where
  "alone s \<longleftrightarrow> jobs_ok s \<and> (\<forall>c\<in>set (rt_calls s). inactive c) \<and> rt_worker s \<noteq> WBroken \<and>
     (rt_worker s = WAssert \<longrightarrow> rt_stack s = [] \<and> rt_jobs_count s = 0)"

lemma startTask_calls [simp]: "rt_calls (startTask a s) = rt_calls s"
proof (cases a)
  case (ASignal g)
  then show ?thesis by (cases g) (simp_all add: startTask_def Let_def)
qed (simp_all add: startTask_def Let_def)

lemma scheduler_calls [simp]: "rt_calls (runRuntimeCoroutineScheduler s) = rt_calls s"
  by (simp add: runRuntimeCoroutineScheduler_def completeTop_def runRuntimeJobExecutor_def split: list.split coroutine.split)

lemma alarm_calls [simp]: "rt_calls (alarmStep now s) = rt_calls s"
  by (auto simp: alarmStep_def pushJob_def split: list.split option.split priority.splits)

lemma worker_calls [simp]: "rt_calls (workerStep debug s) = rt_calls s"
  by (cases "rt_worker s")
    (simp_all add: workerStep_cases addRuntimeJobToCoroutineSchedulerContext_def finishJob_def alarmPop_def Let_def
      runRuntimeJobExecutor_def split: list.split option.split)

lemma pending_bound: "pendingJobs s \<le> workLeft s"
proof -
  have q: "length js \<le> sum_list (map jobWork js)" for js by (induction js) (simp_all add: jobWork_def)
  have "length st \<le> sum_list (map (\<lambda>(j :: rjob, c). 20 * (csize c + 2)) st)" for st
    by (induction st) auto
  from this [of "rt_stack s"] q [of "rt_high s"] q [of "rt_medium s"] q [of "rt_low s"]
  show ?thesis unfolding pendingJobs_def workLeft_def by linarith
qed

lemma alone_calls: "alone s \<Longrightarrow> uncounted s = workerUncounted (rt_worker s) \<and>
    executors s = sum_list (map taskTok (rt_tasks s)) + workerTok (rt_worker s)"
proof -
  assume a: "alone s"
  have "callUncounted c = 0 \<and> callTok c = 0" if "c \<in> set (rt_calls s)" for c
    using a that by (cases c) (auto simp: alone_def)
  then show ?thesis by (simp add: uncounted_def executors_def)
qed

lemma alone_worker:
  assumes a: "alone s" and r: "room s"
  shows "alone (workerStep debug s)"
proof -
  let ?s = "workerStep debug s"
  have ok: "jobs_ok ?s" using a r jobs_worker by (simp add: alone_def)
  have ass: "rt_stack ?s = [] \<and> rt_jobs_count ?s = 0" if w: "rt_worker ?s = WAssert"
  proof -
    have f: "rt_worker s = WFinish"
    proof (rule ccontr)
      assume "rt_worker s \<noteq> WFinish"
      then show False using w
        by (cases "rt_worker s")
          (auto simp: workerStep_cases startTask_def Let_def addRuntimeJobToCoroutineSchedulerContext_def
            runRuntimeCoroutineScheduler_def completeTop_def finishJob_def alarmStep_def alarmPop_def
            split: list.splits atask.splits signo.splits option.splits coroutine.splits if_splits)
    qed
    then have one: "\<not> rt_jobs_count s > 1" "?s = toWorker WAssert (s\<lparr>rt_jobs_count := rt_jobs_count s - 1\<rparr>)"
      using w by (auto simp: workerStep_cases finishJob_def Let_def split: if_splits)
    have c: "counts_ok s" using a by (simp add: alone_def jobs_ok_def)
    have n: "unat (rt_jobs_count s) = Suc (pendingJobs s)" using c alone_calls [OF a] f by (simp add: counts_ok_def)
    then have "rt_jobs_count s \<noteq> 0" by auto
    then have "rt_jobs_count s = 1" using one(1) more_than_one by blast
    then show ?thesis using n one(2) by (simp add: pendingJobs_def)
  qed
  have "rt_worker ?s \<noteq> WBroken"
  proof
    assume b: "rt_worker ?s = WBroken"
    have "rt_worker s = WAssert"
    proof (rule ccontr)
      assume "rt_worker s \<noteq> WAssert"
      then show False using b a
        by (cases "rt_worker s")
          (auto simp: workerStep_cases startTask_def Let_def addRuntimeJobToCoroutineSchedulerContext_def alone_def
            runRuntimeCoroutineScheduler_def completeTop_def finishJob_def alarmStep_def alarmPop_def
            split: list.splits atask.splits signo.splits option.splits coroutine.splits if_splits)
    qed
    then show False using a b by (simp add: alone_def workerStep_cases)
  qed
  then show ?thesis using a ok ass by (simp add: alone_def)
qed

section \<open>Every job is finished\<close>

definition waitingJobs :: "runtime \<Rightarrow> rjob set" where
  "waitingJobs s = set (rt_high s) \<union> set (rt_medium s) \<union> set (rt_low s) \<union> fst ` set (rt_stack s) \<union>
     (case rt_worker s of WCreate j \<Rightarrow> {j} | _ \<Rightarrow> {})"

definition accounted :: "rjob \<Rightarrow> runtime \<Rightarrow> bool" where
  "accounted j s \<longleftrightarrow> j \<in> waitingJobs s \<or> Ended (rj_id j) \<in> set (rt_log s)"

lemma log_grows: "set (rt_log s) \<subseteq> set (rt_log (workerStep debug s))"
proof (cases "rt_worker s")
  case WIdle
  have h: "set (rt_log s1) \<subseteq> set (rt_log (fold (\<lambda>h. logEvent (Hook h g)) hs s1))" for g hs s1
    by (induction hs arbitrary: s1) (force simp: logEvent_def)+
  show ?thesis
  proof (cases "rt_tasks s")
    case (Cons a as)
    show ?thesis
    proof (cases a)
      case (ASignal g)
      then show ?thesis using WIdle Cons h [of "s\<lparr>rt_tasks := as\<rparr>"] by (cases g) (simp_all add: workerStep_cases startTask_def Let_def)
    qed (use WIdle Cons in \<open>simp_all add: workerStep_cases startTask_def Let_def\<close>)
  qed (use WIdle in \<open>simp add: workerStep_cases\<close>)
next
  case WSched
  then show ?thesis
    by (auto simp: workerStep_cases runRuntimeCoroutineScheduler_def completeTop_def runRuntimeJobExecutor_def onError_def
        split: list.split coroutine.split)
next
  case (WAlarm now)
  then show ?thesis
    by (auto simp: workerStep_cases alarmStep_def pushJob_def split: list.split option.split priority.splits)
next
  case (WCreate j)
  then show ?thesis
    by (auto simp: workerStep_cases addRuntimeJobToCoroutineSchedulerContext_def onError_def split: option.split)
qed (simp_all add: workerStep_cases finishJob_def alarmPop_def Let_def runRuntimeJobExecutor_def split: list.split)

lemma accounted_worker:
  assumes a: "accounted j s" and t: "rj_task j \<noteq> None"
  shows "accounted j (workerStep debug s)"
proof (cases "Ended (rj_id j) \<in> set (rt_log s)")
  case True
  then show ?thesis using log_grows by (auto simp: accounted_def)
next
  case False
  then have j: "j \<in> waitingJobs s" using a by (simp add: accounted_def)
  show ?thesis
  proof (cases "rt_worker s")
    case WIdle
    have "waitingJobs (startTask a (s\<lparr>rt_tasks := as\<rparr>)) = waitingJobs s" for a as
    proof (cases a)
      case (ASignal g)
      then show ?thesis using WIdle by (cases g) (simp_all add: startTask_def Let_def waitingJobs_def)
    qed (use WIdle in \<open>simp_all add: startTask_def Let_def waitingJobs_def\<close>)
    then show ?thesis using j WIdle by (simp add: accounted_def workerStep_cases split: list.split)
  next
    case WSched
    then show ?thesis using j
      by (auto simp: accounted_def waitingJobs_def workerStep_cases runRuntimeCoroutineScheduler_def completeTop_def
          runRuntimeJobExecutor_def split: list.split coroutine.split)
  next
    case (WAlarm now)
    then show ?thesis using j
      by (auto simp: accounted_def waitingJobs_def workerStep_cases alarmStep_def pushJob_def
          split: list.split option.split priority.splits)
  next
    case (WCreate k)
    then show ?thesis using j t
      by (auto simp: accounted_def waitingJobs_def workerStep_cases addRuntimeJobToCoroutineSchedulerContext_def
          split: option.split)
  next
    case WPickHigh
    then show ?thesis using j by (auto simp: accounted_def waitingJobs_def workerStep_cases split: list.split)
  next
    case WPickMedium
    then show ?thesis using j by (auto simp: accounted_def waitingJobs_def workerStep_cases split: list.split)
  next
    case WPickLow
    then show ?thesis using j by (auto simp: accounted_def waitingJobs_def workerStep_cases split: list.split)
  qed (use j in \<open>auto simp: accounted_def waitingJobs_def workerStep_cases finishJob_def alarmPop_def Let_def
      runRuntimeJobExecutor_def\<close>)
qed

lemma worker_drains:
  "alone s \<Longrightarrow> workLeft s + 2 < 2 ^ 64 \<Longrightarrow>
    \<exists>n. alone ((workerStep debug ^^ n) s) \<and> resting ((workerStep debug ^^ n) s) \<and>
      (\<forall>j. rj_task j \<noteq> None \<longrightarrow> accounted j s \<longrightarrow> accounted j ((workerStep debug ^^ n) s))"
proof (induction "workLeft s" arbitrary: s rule: less_induct)
  case less
  show ?case
  proof (cases "resting s")
    case True
    then show ?thesis using less.prems by (intro exI [of _ 0]) simp
  next
    case False
    let ?s = "workerStep debug s"
    have "room s" using pending_bound [of s] less.prems(2) by (simp add: room_bound)
    from alone_worker [OF less.prems(1) this] have a: "alone ?s" .
    have "workLeft ?s < workLeft s"
      using workLeft_decreases [OF _ False, of debug] less.prems(1) a by (auto simp: alone_def jobs_ok_def)
    from less.hyps [OF this a] this less.prems(2) obtain n where
      n: "alone ((workerStep debug ^^ n) ?s)" "resting ((workerStep debug ^^ n) ?s)"
        "\<forall>j. rj_task j \<noteq> None \<longrightarrow> accounted j ?s \<longrightarrow> accounted j ((workerStep debug ^^ n) ?s)" by auto
    have "(workerStep debug ^^ n) ?s = (workerStep debug ^^ Suc n) s" by (simp add: funpow_swap1)
    then show ?thesis using n accounted_worker [of _ s debug] by (intro exI [of _ "Suc n"]) auto
  qed
qed

lemma resting_empty:
  assumes "alone s" and "resting s"
  shows "rt_high s = [] \<and> rt_medium s = [] \<and> rt_low s = [] \<and> rt_stack s = [] \<and> rt_jobs_count s = 0"
proof -
  have "executors s = 0" "uncounted s = 0" using alone_calls [OF assms(1)] assms(2) by (simp_all add: resting_def)
  then have "rt_jobs_count s = 0" "pendingJobs s = 0"
    using assms by (auto simp: alone_def jobs_ok_def counts_ok_def resting_def split: if_splits)
  then show ?thesis by (simp add: pendingJobs_def)
qed


section \<open>Schedules\<close>

lemma rdo_step: "rdo debug allowed x s = Some s' \<Longrightarrow> rt_step debug allowed s s'"
  by (cases x) (auto split: if_splits intro: rt_step.intros)

lemma rruns_reachable:
  "reachable init (rt_step debug allowed) s \<Longrightarrow> rruns debug allowed xs s = Some s' \<Longrightarrow>
    reachable init (rt_step debug allowed) s'"
proof (induction xs arbitrary: s)
  case (Cons x xs)
  then obtain s1 where s1: "rdo debug allowed x s = Some s1" "rruns debug allowed xs s1 = Some s'" by (auto split: option.splits)
  from reach_step [OF Cons.prems(1) rdo_step [OF s1(1)]] s1(2) show ?case by (rule Cons.IH)
qed simp

definition endOfRun :: "bool \<Rightarrow> (rcall \<Rightarrow> bool) \<Rightarrow> raction list \<Rightarrow> runtime \<Rightarrow> runtime" where
  "endOfRun debug allowed xs s = (case rruns debug allowed xs s of None \<Rightarrow> s | Some s' \<Rightarrow> s')"

lemma endOfRun_reachable:
  "reachable init (rt_step debug allowed) s \<Longrightarrow> reachable init (rt_step debug allowed) (endOfRun debug allowed xs s)"
  by (auto simp: endOfRun_def split: option.split intro: rruns_reachable)

lemma mainLoop_reachable: "reachable mainLoop_init (rt_step debug allowed) (endOfRun debug allowed xs mainLoop)"
  by (intro endOfRun_reachable reach_init) (simp add: mainLoop_init_def)

lemma newRuntime_reachable: "reachable rt_init (rt_step debug allowed) (endOfRun debug allowed xs newRuntime)"
  by (intro endOfRun_reachable reach_init) (simp add: rt_init_def)

text \<open>The state of \<open>mainLoop\<close> is the one that \<open>enterMainLoop\<close> makes of a new manager.\<close>

lemma mainLoop_entered:
  "endOfRun debug (\<lambda>_. True) [RCall REnter, RClient 0, RClient 0, RClient 0, RClient 0] newRuntime = mainLoop"
  by (simp add: endOfRun_def newRuntime_def mainLoop_def makeCall_def callStep_cases toCall_def room_def pendingJobs_def)

definition sampleJob :: "nat \<Rightarrow> priority \<Rightarrow> coroutine \<Rightarrow> rjob" where
  "sampleJob n p c = \<lparr>rj_id = n, rj_priority = p, rj_task = Some c, rj_due = 0, rj_on_error = False\<rparr>"

text \<open>A low job is suspended, a high one arrives and preempts it.\<close>

definition preempting :: "raction list" where
  "preempting = RCall (RAddJob (sampleJob 1 KLow (Suspends Returns))) # replicate 4 (RClient 1) @ replicate 6 RWork @
     RCall (RAddJob (sampleJob 2 KHigh (Suspends Returns))) # replicate 2 (RClient 2) @ replicate 4 RWork"

section \<open>Priorities\<close>

text \<open>
  C10: in every interleaving of clients, signals, timers and the asynchronous thread, the coroutines on
  the stack have strictly increasing urgency towards the top, so at most one of each priority has
  been started and not ended and a more urgent job runs before the ones it found; each queue
  holds jobs of its own priority only.
\<close>

theorem preemption_invariant:
  assumes "reachable rt_init (rt_step debug allowed) s"
  shows "sorted_wrt (<) (map (\<lambda>(j, c). level (rj_priority j)) (rt_stack s)) \<and> length (rt_stack s) \<le> 3 \<and>
    (\<forall>j\<in>set (rt_high s). rj_priority j = KHigh) \<and> (\<forall>j\<in>set (rt_medium s). rj_priority j = KMedium) \<and>
    (\<forall>j\<in>set (rt_low s). rj_priority j = KLow)"
proof -
  have ok: "stack_ok s" using stack.reachable_inv [OF assms] .
  then have sorted: "sorted_wrt (<) (map (\<lambda>(j, c). level (rj_priority j)) (rt_stack s))"
    by (simp add: stack_ok_def sorted_wrt_map urgent_def [abs_def] case_prod_unfold)
  have "level p \<in> {1, 2, 3}" if "p \<noteq> KSched" for p using that by (cases p) simp_all
  then have "set (map (\<lambda>(j, c). level (rj_priority j)) (rt_stack s)) \<subseteq> {1, 2, 3}"
    using ok by (fastforce simp: stack_ok_def)
  then have "card (set (map (\<lambda>(j, c). level (rj_priority j)) (rt_stack s))) \<le> card {1, 2, 3::nat}" by (intro card_mono) simp_all
  moreover have "distinct (map (\<lambda>(j, c). level (rj_priority j)) (rt_stack s))" using sorted by (simp add: strict_sorted_iff)
  ultimately have "length (rt_stack s) \<le> 3" using distinct_card by fastforce
  then show ?thesis using ok sorted by (simp add: stack_ok_def)
qed

lemma preemption_invariant_witness:
  "map (\<lambda>(j, c). rj_id j) (rt_stack (endOfRun True (\<lambda>_. True) (RCall REnter # replicate 4 (RClient 0) @ preempting) newRuntime)) = [2, 1] \<and>
   sorted_wrt (<) (map (\<lambda>(j, c). level (rj_priority j))
     (rt_stack (endOfRun True (\<lambda>_. True) (RCall REnter # replicate 4 (RClient 0) @ preempting) newRuntime)))"
  using preemption_invariant [OF newRuntime_reachable] by (intro conjI) (code_simp, blast)




section \<open>Races\<close>

text \<open>The look at the count, a whole call of \<open>addJob\<close>, and the rest of \<open>enterMainLoop\<close>.\<close>

definition startRace :: "raction list" where
  "startRace = [RCall REnter, RClient 0, RCall (RAddJob (sampleJob 1 KMedium Returns)), RClient 1, RClient 1, RClient 1,
     RClient 0, RClient 0, RClient 0]"

definition anotherJob :: "raction list" where
  "anotherJob = [RCall (RAddJob (sampleJob 2 KHigh Returns)), RClient 2, RClient 2]"


definition assertionRace :: "raction list" where
  "assertionRace = RCall (RAddJob (sampleJob 1 KMedium Returns)) # replicate 4 (RClient 1) @ replicate 6 RWork @
     [RCall (RAddJob (sampleJob 2 KMedium Returns)), RClient 2, RClient 2, RWork]"

text \<open>
  With assertions enabled, adding a job at the moment at which the last one ends stops the program:
  the executor asserts that the count is zero after it has counted down, and the client has
  counted up again.
\<close>

theorem executor_assertion_fails:
  "\<exists>s. reachable mainLoop_init (rt_step True quietCall) s \<and> rt_worker s = WBroken \<and> rt_stack s = [] \<and>
     rt_jobs_count s = 1 \<and> map rj_id (rt_medium s) = [2]"
proof (intro exI conjI)
  let ?s = "endOfRun True quietCall assertionRace mainLoop"
  show "reachable mainLoop_init (rt_step True quietCall) ?s" by (rule mainLoop_reachable)
  show "rt_worker ?s = WBroken" "rt_stack ?s = []" "rt_jobs_count ?s = 1" "map rj_id (rt_medium ?s) = [2]" by code_simp+
qed

section \<open>Timed jobs\<close>

definition timedRun :: "raction list" where
  "timedRun = [RCall (RAddTimedJob (sampleJob 1 KSched Returns) 10), RCall (RAddTimedJob (sampleJob 2 KHigh Returns) 20),
     RWork, RWork, RTime 1000, RFire, RSig, RWork, RWork]"

text \<open>
  A timed job with a priority that is not allowed stops all timed jobs behind it: \<open>addTimedJob\<close>
  accepts it, the hook of the timer throws at it and leaves it in the heap.  In a reachable state
  both jobs are due, the timer is off, no signal is pending and the asynchronous thread is at rest.
\<close>

theorem invalid_timed_job_blocks:
  "\<exists>s. reachable mainLoop_init (rt_step False quietCall) s \<and> resting s \<and> rt_timer s = None \<and> rt_signals s = [] \<and>
     map rj_id (rt_timed s) = [1, 2] \<and> list_all (\<lambda>j. rj_due j \<le> rt_now s) (rt_timed s) \<and> waitingJobs s = {}"
proof (intro exI conjI)
  let ?s = "endOfRun False quietCall timedRun mainLoop"
  show "reachable mainLoop_init (rt_step False quietCall) ?s" by (rule mainLoop_reachable)
  show "resting ?s" "rt_timer ?s = None" "rt_signals ?s = []" "map rj_id (rt_timed ?s) = [1, 2]"
    "list_all (\<lambda>j. rj_due j \<le> rt_now ?s) (rt_timed ?s)" "waitingJobs ?s = {}" by code_simp+
qed

definition dueNow :: "int \<Rightarrow> rjob \<Rightarrow> bool" where
  "dueNow now j \<longleftrightarrow> rj_due j \<le> now"

definition moveTo :: "priority \<Rightarrow> int \<Rightarrow> rjob list \<Rightarrow> rjob list" where
  "moveTo p now js = map (\<lambda>j. j\<lparr>rj_due := 0\<rparr>) (filter (\<lambda>j. rj_priority j = p) (takeWhile (dueNow now) js))"

lemma alarm_job:
  assumes "rt_worker s = WAlarm now" and "rt_timed s = j # rest" and "rj_due j \<le> now" and "rj_priority j \<noteq> KSched"
  obtains n where "rt_worker ((workerStep debug ^^ n) s) = WAlarm now" "rt_timed ((workerStep debug ^^ n) s) = rest"
    "rt_high ((workerStep debug ^^ n) s) = rt_high s @ (if rj_priority j = KHigh then [j\<lparr>rj_due := 0\<rparr>] else [])"
    "rt_medium ((workerStep debug ^^ n) s) = rt_medium s @ (if rj_priority j = KMedium then [j\<lparr>rj_due := 0\<rparr>] else [])"
    "rt_low ((workerStep debug ^^ n) s) = rt_low s @ (if rj_priority j = KLow then [j\<lparr>rj_due := 0\<rparr>] else [])"
    "rt_jobs_count ((workerStep debug ^^ n) s) = rt_jobs_count s + 1" "rt_now ((workerStep debug ^^ n) s) = rt_now s"
proof (cases "rt_jobs_count s = 0")
  case True
  show ?thesis
    by (rule that [of "Suc (Suc (Suc 0))"])
      (use assms True in \<open>cases "rj_priority j"; simp add: workerStep_cases alarmStep_def pushJob_def alarmPop_def Let_def
        runRuntimeJobExecutor_def\<close>)+
next
  case False
  show ?thesis
    by (rule that [of "Suc (Suc 0)"])
      (use assms False in \<open>cases "rj_priority j"; simp add: workerStep_cases alarmStep_def pushJob_def alarmPop_def Let_def\<close>)+
qed

text \<open>
  The hook of the timer moves exactly the jobs that are due into the queues of their priorities, in
  the order of their due times, counts each of them, and leaves the others in the heap.
\<close>

theorem alarm_moves_due:
  assumes "rt_worker s = WAlarm now" and "\<forall>j\<in>set (rt_timed s). rj_priority j \<noteq> KSched"
  shows "\<exists>n. let s' = (workerStep debug ^^ n) s
    in rt_worker s' = WIdle \<and> rt_timed s' = dropWhile (dueNow now) (rt_timed s) \<and>
       rt_high s' = rt_high s @ moveTo KHigh now (rt_timed s) \<and>
       rt_medium s' = rt_medium s @ moveTo KMedium now (rt_timed s) \<and>
       rt_low s' = rt_low s @ moveTo KLow now (rt_timed s) \<and>
       rt_jobs_count s' = rt_jobs_count s + of_nat (length (takeWhile (dueNow now) (rt_timed s)))"
  using assms
proof (induction "rt_timed s" arbitrary: s)
  case Nil
  then show ?case
    by (intro exI [of _ 1]) (simp add: workerStep_cases alarmStep_def moveTo_def Let_def flip: Nil.hyps)
next
  case (Cons j rest)
  note timed = Cons.hyps(2) [symmetric]
  show ?case
  proof (cases "rj_due j \<le> now")
    case False
    then show ?thesis using Cons.prems timed
      by (intro exI [of _ 1]) (simp add: workerStep_cases alarmStep_def moveTo_def Let_def dueNow_def)
  next
    case True
    have p: "rj_priority j \<noteq> KSched" using Cons.prems(2) timed by simp
    from alarm_job [OF Cons.prems(1) timed True p, of debug] obtain n where
      n: "rt_worker ((workerStep debug ^^ n) s) = WAlarm now" "rt_timed ((workerStep debug ^^ n) s) = rest"
        "rt_high ((workerStep debug ^^ n) s) = rt_high s @ (if rj_priority j = KHigh then [j\<lparr>rj_due := 0\<rparr>] else [])"
        "rt_medium ((workerStep debug ^^ n) s) = rt_medium s @ (if rj_priority j = KMedium then [j\<lparr>rj_due := 0\<rparr>] else [])"
        "rt_low ((workerStep debug ^^ n) s) = rt_low s @ (if rj_priority j = KLow then [j\<lparr>rj_due := 0\<rparr>] else [])"
        "rt_jobs_count ((workerStep debug ^^ n) s) = rt_jobs_count s + 1" by metis
    have "rest = rt_timed ((workerStep debug ^^ n) s)" "\<forall>j\<in>set (rt_timed ((workerStep debug ^^ n) s)). rj_priority j \<noteq> KSched"
      using n(2) Cons.prems(2) timed by simp_all
    from Cons.hyps(1) [OF this(1) n(1) this(2)] obtain m where
      m: "let s' = (workerStep debug ^^ m) ((workerStep debug ^^ n) s)
        in rt_worker s' = WIdle \<and> rt_timed s' = dropWhile (dueNow now) rest \<and>
           rt_high s' = rt_high ((workerStep debug ^^ n) s) @ moveTo KHigh now rest \<and>
           rt_medium s' = rt_medium ((workerStep debug ^^ n) s) @ moveTo KMedium now rest \<and>
           rt_low s' = rt_low ((workerStep debug ^^ n) s) @ moveTo KLow now rest \<and>
           rt_jobs_count s' = rt_jobs_count ((workerStep debug ^^ n) s) + of_nat (length (takeWhile (dueNow now) rest))"
      unfolding n(2) by blast
    have e: "(workerStep debug ^^ m) ((workerStep debug ^^ n) s) = (workerStep debug ^^ (m + n)) s" by (simp add: funpow_add)
    show ?thesis using m n(3-6) True unfolding e
      by (intro exI [of _ "m + n"]) (auto simp: timed moveTo_def Let_def dueNow_def)
  qed
qed

lemma alarm_moves_due_witness:
  "\<exists>n. map rj_id (rt_high ((workerStep True ^^ n)
     (mainLoop\<lparr>rt_timed := [sampleJob 1 KHigh Returns, (sampleJob 2 KLow Returns)\<lparr>rj_due := 7\<rparr>], rt_worker := WAlarm 5\<rparr>))) = [1]"
proof -
  let ?s = "mainLoop\<lparr>rt_timed := [sampleJob 1 KHigh Returns, (sampleJob 2 KLow Returns)\<lparr>rj_due := 7\<rparr>], rt_worker := WAlarm 5\<rparr>"
  have h: "rt_worker ?s = WAlarm 5" "\<forall>j\<in>set (rt_timed ?s). rj_priority j \<noteq> KSched" by (simp_all add: sampleJob_def)
  from alarm_moves_due [OF h, of True] obtain n where
    "rt_high ((workerStep True ^^ n) ?s) = rt_high ?s @ moveTo KHigh 5 (rt_timed ?s)" by (auto simp: Let_def)
  moreover have "rt_high ?s @ moveTo KHigh 5 (rt_timed ?s) = [sampleJob 1 KHigh Returns]"
    by (simp add: moveTo_def dueNow_def sampleJob_def mainLoop_def newRuntime_def)
  ultimately show ?thesis by (intro exI [of _ n]) (simp add: sampleJob_def)
qed

end
