(* ===== verification/StateMachine.thy ===== *)
theory StateMachine
  imports Dmn_Prelude
begin

text \<open>
  \<open>Dmn_State\<close>: a state machine that its caller advances, one user callback at a time.  An operation
  returns the new state and the exception it threw, because an exception does not undo what was done
  before.  A failed assertion is \<open>Assertion\<close>.
\<close>

section \<open>State\<close>

datatype serror =
    LogicError
  | InvalidArgument
  | OutOfRange
  | Assertion
  | UserError

text \<open>
  The callbacks are named by numbers; slot 0 of the vector is reserved, so the machine with the
  callbacks \<open>sm_states\<close> has one slot more.
\<close>

record sm =
  sm_next :: int
  sm_states :: "nat list"
  sm_initialized :: bool
  sm_finalized :: bool
  sm_running :: bool

definition newState :: sm where
  "newState = \<lparr>sm_next = 0, sm_states = [], sm_initialized = False, sm_finalized = False, sm_running = False\<rparr>"

definition slots :: "sm \<Rightarrow> int" where
  "slots s = int (length (sm_states s)) + 1"

definition hasStateFncs :: "sm \<Rightarrow> bool" where
  "hasStateFncs s \<longleftrightarrow> slots s > 1"

definition machineActive :: "sm \<Rightarrow> bool" where
  "machineActive s \<longleftrightarrow> hasStateFncs s \<and> \<not> sm_finalized s"

section \<open>Transitions\<close>

text \<open>
  \<open>permitted\<close> is the outcome of the hook that a derived class can override: a hook that does not
  permit the operation throws \<open>std::logic_error\<close>.
\<close>

definition setEnd :: "bool \<Rightarrow> sm \<Rightarrow> sm \<times> serror option" where
  "setEnd permitted s = (if \<not> permitted then (s, Some LogicError) else (s\<lparr>sm_next := slots s\<rparr>, None))"

definition setNextTo :: "bool \<Rightarrow> int \<Rightarrow> sm \<Rightarrow> sm \<times> serror option" where
  "setNextTo permitted index s =
     (if \<not> permitted then (s, Some LogicError)
      else if index \<le> 0 \<or> index > slots s then (s, Some OutOfRange)
      else (s\<lparr>sm_next := index\<rparr>, None))"

definition setNext :: "bool \<Rightarrow> sm \<Rightarrow> sm \<times> serror option" where
  "setNext permitted s =
     (if \<not> permitted then (s, Some LogicError)
      else if \<not> (sm_next s \<ge> 0 \<and> sm_next s < slots s) then (s, Some Assertion)
      else (s\<lparr>sm_next := sm_next s + 1\<rparr>, None))"

text \<open>\<open>None\<close> is the empty function.\<close>

definition setStateFnc :: "bool \<Rightarrow> nat option \<Rightarrow> int \<Rightarrow> sm \<Rightarrow> sm \<times> serror option" where
  "setStateFnc permitted fnc index s =
     (if \<not> permitted then (s, Some LogicError)
      else if sm_running s then (s, Some LogicError)
      else case fnc of
        None \<Rightarrow> (s, Some InvalidArgument)
      | Some f \<Rightarrow>
          if index < 0 then (s, Some OutOfRange)
          else if index = slots s \<or> index = 0 then (s\<lparr>sm_states := sm_states s @ [f]\<rparr>, None)
          else if index < slots s then (s\<lparr>sm_states := (sm_states s)[nat index - 1 := f]\<rparr>, None)
          else (s, Some OutOfRange))"

section \<open>Callbacks\<close>

text \<open>
  What a callback does to its machine; an exception that it does not catch ends it, and a failed
  assertion cannot be caught.
\<close>

datatype sop =
    OpSetNext int
  | OpAdvance
  | OpSetEnd
  | OpSetStateFnc "nat option" int
  | OpRunNext
  | OpThrow
  | OpCatch sop

fun runOp :: "sop \<Rightarrow> sm \<Rightarrow> sm \<times> serror option" where
  "runOp (OpSetNext index) s = setNextTo True index s"
| "runOp OpAdvance s = setNext True s"
| "runOp OpSetEnd s = setEnd True s"
| "runOp (OpSetStateFnc fnc index) s = setStateFnc True fnc index s"
| "runOp OpRunNext s = (s, Some LogicError)"
| "runOp OpThrow s = (s, Some UserError)"
| "runOp (OpCatch op) s = (case runOp op s of (s', e) \<Rightarrow> (s', if e = Some Assertion then e else None))"

fun runOps :: "sop list \<Rightarrow> sm \<Rightarrow> sm \<times> serror option" where
  "runOps [] s = (s, None)"
| "runOps (op # ops) s = (case runOp op s of (s', None) \<Rightarrow> runOps ops s' | (s', Some e) \<Rightarrow> (s', Some e))"

section \<open>Advancing\<close>

definition finalize :: "sm \<Rightarrow> sm" where
  "finalize s = s\<lparr>sm_finalized := True\<rparr>"

definition initialize :: "sm \<Rightarrow> sm \<times> serror option" where
  "initialize s = (case setNextTo True 1 s of (s', None) \<Rightarrow> (s'\<lparr>sm_initialized := True\<rparr>, None) | (s', Some e) \<Rightarrow> (s', Some e))"

text \<open>
  The part that invokes the selected callback, which does what \<open>script\<close> says for its name; the result
  says whether another callback can be executed.
\<close>

definition runCallback :: "(nat \<Rightarrow> sop list) \<Rightarrow> sm \<Rightarrow> sm \<times> (serror + bool)" where
  "runCallback script s =
     (if \<not> sm_next s > 0 then (s, Inl Assertion)
      else
        case runOps (script (sm_states s ! nat (sm_next s - 1))) (s\<lparr>sm_running := True\<rparr>) of
          (s1, e) \<Rightarrow>
            let s2 = s1\<lparr>sm_running := False\<rparr>
            in case e of
                 Some err \<Rightarrow> (s2, Inl err)
               | None \<Rightarrow> let s3 = (if sm_next s2 \<ge> slots s2 then finalize s2 else s2) in (s3, Inr (machineActive s3)))"

definition runNext :: "bool \<Rightarrow> (nat \<Rightarrow> sop list) \<Rightarrow> sm \<Rightarrow> sm \<times> (serror + bool)" where
  "runNext permitted script s =
     (if sm_running s \<or> \<not> permitted then (s, Inl LogicError)
      else if sm_finalized s then (s, Inr False)
      else if \<not> sm_next s \<le> slots s then (s, Inl Assertion)
      else if sm_next s \<ge> slots s then (finalize s, Inr False)
      else
        case (if sm_initialized s then (s, None) else initialize s) of
          (s1, Some e) \<Rightarrow> (s1, Inl e)
        | (s1, None) \<Rightarrow>
            if sm_finalized s1 then (s1, Inr False)
            else if sm_next s1 \<ge> slots s1 then (finalize s1, Inr False)
            else runCallback script s1)"

section \<open>Well-formedness\<close>

text \<open>
  The selector is in range, it is 0 only before initialization, and outside of a call no callback is
  running.
\<close>

definition machine_ok :: "sm \<Rightarrow> bool" where
  "machine_ok s \<longleftrightarrow> 0 \<le> sm_next s \<and> sm_next s \<le> slots s \<and> (sm_initialized s \<longrightarrow> sm_next s > 0)"

lemma slots_positive [simp]: "slots s \<ge> 1" "slots s > 0"
  by (simp_all add: slots_def)

lemma slots_update [simp]:
  "slots (s\<lparr>sm_next := n\<rparr>) = slots s" "slots (s\<lparr>sm_initialized := b\<rparr>) = slots s"
  "slots (s\<lparr>sm_finalized := b\<rparr>) = slots s" "slots (s\<lparr>sm_running := b\<rparr>) = slots s"
  "slots (s\<lparr>sm_states := fs\<rparr>) = int (length fs) + 1"
  by (simp_all add: slots_def)

lemma machine_ok_running [simp]:
  "machine_ok (s\<lparr>sm_running := b\<rparr>) = machine_ok s" "machine_ok (s\<lparr>sm_finalized := b\<rparr>) = machine_ok s"
  by (simp_all add: machine_ok_def)

lemma setEnd_ok: "machine_ok s \<Longrightarrow> machine_ok (fst (setEnd permitted s))"
  using slots_positive(2) [of s] by (simp add: setEnd_def machine_ok_def not_less)

lemma setNextTo_ok: "machine_ok s \<Longrightarrow> machine_ok (fst (setNextTo permitted index s))"
  by (simp add: setNextTo_def machine_ok_def)

lemma setNext_ok: "machine_ok s \<Longrightarrow> machine_ok (fst (setNext permitted s))"
  by (auto simp: setNext_def machine_ok_def)

lemma setStateFnc_ok: "machine_ok s \<Longrightarrow> machine_ok (fst (setStateFnc permitted fnc index s))"
  by (auto simp: setStateFnc_def machine_ok_def slots_def split: option.split)

lemma runOp_ok: "machine_ok s \<Longrightarrow> machine_ok (fst (runOp op s))"
  by (induction op) (auto simp: setEnd_ok setNextTo_ok setNext_ok setStateFnc_ok split: prod.split)

lemma runOp_running: "sm_running s \<Longrightarrow> sm_running (fst (runOp op s)) \<and> sm_states (fst (runOp op s)) = sm_states s \<and>
    sm_finalized (fst (runOp op s)) = sm_finalized s \<and> sm_initialized (fst (runOp op s)) = sm_initialized s"
  by (induction op) (auto simp: setEnd_def setNextTo_def setNext_def setStateFnc_def split: prod.split option.split)

lemma runOps_ok:
  "machine_ok s \<Longrightarrow> sm_running s \<Longrightarrow> machine_ok (fst (runOps ops s)) \<and> sm_running (fst (runOps ops s)) \<and>
    sm_states (fst (runOps ops s)) = sm_states s \<and> sm_finalized (fst (runOps ops s)) = sm_finalized s \<and>
    sm_initialized (fst (runOps ops s)) = sm_initialized s"
proof (induction ops arbitrary: s)
  case (Cons op ops)
  obtain s1 e where r: "runOp op s = (s1, e)" by (cases "runOp op s")
  then show ?case
    using Cons.IH [of s1] runOp_ok [OF Cons.prems(1), of op] runOp_running [OF Cons.prems(2), of op]
    by (cases e) simp_all
qed simp

lemma initialize_ok:
  "machine_ok s \<Longrightarrow> initialize s = (s\<lparr>sm_next := 1, sm_initialized := True\<rparr>, None)"
  using slots_positive(1) [of s] by (simp add: initialize_def setNextTo_def not_less del: slots_positive)

lemma runCallback_ok:
  assumes ok: "machine_ok s" and sel: "0 < sm_next s" "sm_next s < slots s"
  shows "machine_ok (fst (runCallback script s)) \<and> \<not> sm_running (fst (runCallback script s)) \<and>
    sm_states (fst (runCallback script s)) = sm_states s"
proof -
  let ?ops = "script (sm_states s ! nat (sm_next s - 1))"
  obtain s1 e where r: "runOps ?ops (s\<lparr>sm_running := True\<rparr>) = (s1, e)" by (cases "runOps ?ops (s\<lparr>sm_running := True\<rparr>)")
  have "machine_ok s1 \<and> sm_states s1 = sm_states s" using runOps_ok [of "s\<lparr>sm_running := True\<rparr>" ?ops] ok r by simp
  then show ?thesis using sel r by (cases e) (auto simp: runCallback_def Let_def finalize_def)
qed

lemma runNext_cases:
  assumes ok: "machine_ok s" and free: "\<not> sm_running s"
  obtains (refused) "\<not> permitted" "runNext permitted script s = (s, Inl LogicError)"
  | (over) "permitted" "sm_finalized s" "runNext permitted script s = (s, Inr False)"
  | (ended) "permitted" "\<not> sm_finalized s" "sm_next s = slots s" "runNext permitted script s = (finalize s, Inr False)"
  | (empty) "permitted" "\<not> sm_finalized s" "sm_next s < slots s" "sm_states s = []" "\<not> sm_initialized s"
      "runNext permitted script s = (finalize (s\<lparr>sm_next := 1, sm_initialized := True\<rparr>), Inr False)"
  | (run) s1 where "permitted" "\<not> sm_finalized s" "s1 = (if sm_initialized s then s else s\<lparr>sm_next := 1, sm_initialized := True\<rparr>)"
      "sm_next s < slots s" "machine_ok s1" "0 < sm_next s1" "sm_next s1 < slots s1" "runNext permitted script s = runCallback script s1"
proof (cases "permitted \<and> \<not> sm_finalized s \<and> sm_next s < slots s")
  case False
  have le: "sm_next s \<le> slots s" using ok by (simp add: machine_ok_def)
  show ?thesis
  proof (cases permitted)
    case False
    then show ?thesis using refused free by (simp add: runNext_def)
  next
    case True
    then show ?thesis
      using over ended False free le by (cases "sm_finalized s") (simp_all add: runNext_def)
  qed
next
  case True
  let ?s1 = "if sm_initialized s then s else s\<lparr>sm_next := 1, sm_initialized := True\<rparr>"
  have i: "(if sm_initialized s then (s, None) else initialize s) = (?s1, None)" using initialize_ok [OF ok] by simp
  have r: "runNext permitted script s = (if sm_next ?s1 \<ge> slots ?s1 then (finalize ?s1, Inr False) else runCallback script ?s1)"
    using True free ok unfolding runNext_def i by (auto simp: machine_ok_def)
  have ok1: "machine_ok ?s1" using ok by (simp add: machine_ok_def)
  show ?thesis
  proof (cases "sm_next ?s1 \<ge> slots ?s1")
    case last: True
    have "\<not> sm_initialized s" "sm_states s = []" using last True by (auto simp: slots_def split: if_splits)
    then show ?thesis using empty True r last by auto
  next
    case False
    then show ?thesis using run [of ?s1] True r ok1 ok by (simp add: machine_ok_def split: if_splits)
  qed
qed

lemma runCallback_answer: "snd (runCallback script s) = Inr b \<Longrightarrow> b = machineActive (fst (runCallback script s))"
  by (auto simp: runCallback_def Let_def split: prod.splits option.splits if_splits)

lemma runNext_keeps:
  assumes "machine_ok s" and "\<not> sm_running s"
  shows "case runNext permitted script s of (s', answer) \<Rightarrow>
    machine_ok s' \<and> \<not> sm_running s' \<and> sm_states s' = sm_states s \<and>
    answer \<in> range Inl \<union> {Inr (machineActive s')}"
proof (cases rule: runNext_cases [OF assms, of permitted script])
  case (5 s1)
  have "\<not> sm_running s1 \<and> sm_states s1 = sm_states s" using 5(3) assms(2) by simp
  then show ?thesis
    using runCallback_ok [OF 5(5-7), of script] runCallback_answer [of script s1] 5(8)
    by (cases "runCallback script s1"; cases "snd (runCallback script s1)") auto
qed (use assms in \<open>auto simp: finalize_def machine_ok_def machineActive_def hasStateFncs_def slots_def\<close>)



section \<open>The loop of a client\<close>

text \<open>
  \<open>invoked\<close> is the callback that a permitted call invokes; \<open>runAll\<close> is the loop
  \<open>while (state.runNext ());\<close> cut off after \<open>n\<close> calls, with the callbacks that were invoked and,
  when the loop has ended, the machine it left and the exception it was left with.
\<close>

definition invoked :: "sm \<Rightarrow> nat option" where
  "invoked s =
     (if sm_finalized s \<or> sm_next s \<ge> slots s \<or> sm_states s = [] then None
      else Some (if sm_initialized s then sm_states s ! nat (sm_next s - 1) else hd (sm_states s)))"

fun runAll :: "nat \<Rightarrow> (nat \<Rightarrow> sop list) \<Rightarrow> sm \<Rightarrow> nat list \<times> (sm \<times> serror option) option" where
  "runAll 0 script s = ([], None)"
| "runAll (Suc n) script s =
     apfst ((@) (case invoked s of None \<Rightarrow> [] | Some f \<Rightarrow> [f]))
       (case runNext True script s of
          (s', Inr True) \<Rightarrow> runAll n script s'
        | (s', Inr False) \<Rightarrow> ([], Some (s', None))
        | (s', Inl e) \<Rightarrow> ([], Some (s', Some e)))"

lemma invoked_only:
  assumes "machine_ok s" "\<not> sm_running s" "\<forall>f. invoked s = Some f \<longrightarrow> script f = script' f"
  shows "runNext permitted script s = runNext permitted script' s"
proof (cases rule: runNext_cases [OF assms(1,2), of permitted script])
  case (5 s1)
  have "s1 = (if sm_initialized s then s else s\<lparr>sm_next := 1, sm_initialized := True\<rparr>)" by (rule 5(3))
  moreover have "sm_states s \<noteq> []" using 5(3,6,7) by (auto simp: slots_def split: if_splits)
  ultimately have "invoked s = Some (sm_states s1 ! nat (sm_next s1 - 1))"
    using 5(2,4) by (simp add: invoked_def hd_conv_nth)
  then have "runCallback script s1 = runCallback script' s1" using assms(3) by (simp add: runCallback_def)
  then show ?thesis using 5 assms(1,2) initialize_ok [OF assms(1)] by (auto simp: runNext_def)
qed (use assms in \<open>auto simp: runNext_def initialize_ok slots_def\<close>)

definition configured :: "nat list \<Rightarrow> sm" where
  "configured fs = foldl (\<lambda>s f. fst (setStateFnc True (Some f) 0 s)) newState fs"

lemma configured_states: "configured fs = newState\<lparr>sm_states := fs\<rparr>"
  by (induction fs rule: rev_induct) (simp_all add: configured_def setStateFnc_def newState_def)

lemma runNext_advance:
  assumes "script (sm_states s ! i) = [OpAdvance]" "i < length (sm_states s)" "\<not> sm_finalized s" "\<not> sm_running s"
    "sm_initialized s" "sm_next s = int i + 1"
  shows "runNext True script s =
    (if Suc i < length (sm_states s) then (s\<lparr>sm_next := int i + 2\<rparr>, Inr True)
     else (s\<lparr>sm_next := int i + 2, sm_finalized := True\<rparr>, Inr False))"
  using assms by (auto simp: runNext_def runCallback_def setNext_def slots_def finalize_def machineActive_def hasStateFncs_def Let_def)

lemma runAll_advance:
  assumes "\<forall>f \<in> set (sm_states s). script f = [OpAdvance]" "\<not> sm_finalized s" "\<not> sm_running s" "sm_initialized s"
    "i < length (sm_states s)" "sm_next s = int i + 1" "length (sm_states s) - i \<le> n"
  shows "runAll n script s =
    (drop i (sm_states s), Some (s\<lparr>sm_next := int (length (sm_states s)) + 1, sm_finalized := True\<rparr>, None))"
  using assms
proof (induction n arbitrary: s i)
  case (Suc n)
  have inv: "invoked s = Some (sm_states s ! i)" using Suc.prems by (auto simp: invoked_def slots_def)
  have run: "runNext True script s =
      (if Suc i < length (sm_states s) then (s\<lparr>sm_next := int i + 2\<rparr>, Inr True)
       else (s\<lparr>sm_next := int i + 2, sm_finalized := True\<rparr>, Inr False))"
    using Suc.prems by (intro runNext_advance) auto
  show ?case
  proof (cases "Suc i < length (sm_states s)")
    case True
    then show ?thesis
      using Suc.IH [of "s\<lparr>sm_next := int i + 2\<rparr>" "Suc i"] Suc.prems inv run by (simp add: Cons_nth_drop_Suc)
  next
    case False
    then have "length (sm_states s) = Suc i" using Suc.prems(5) by simp
    then show ?thesis using inv run Suc.prems(5) by (simp add: Cons_nth_drop_Suc [symmetric])
  qed
qed simp



text \<open>
  The end that \<open>setEnd\<close> selects is a position and not a mark: a callback registered afterwards takes
  that position, before initialization and between two calls, so the next call invokes it instead of
  finalizing the machine.
\<close>

theorem end_forgotten:
  "invoked (fst (setStateFnc True (Some 9) 0 (fst (setEnd True newState)))) = Some 9 \<and>
   (let s = fst (setEnd True (fst (runNext True (\<lambda>f. []) (configured [5, 6]))))
    in snd (runNext True (\<lambda>f. []) s) = Inr False \<and>
       invoked (fst (setStateFnc True (Some 9) 0 s)) = Some 9 \<and>
       snd (runNext True (\<lambda>f. []) (fst (setStateFnc True (Some 9) 0 s))) = Inr True)"
  by code_simp

end
