(* ===== verification/RuntimeState.thy ===== *)
theory RuntimeState
  imports StateMachine RuntimeManager
begin

text \<open>
  \<open>Dmn_Runtime_State\<close> and \<open>Dmn_Runtime_State_Manager\<close>: state machines whose callbacks run as jobs of the
  scheduler.  A step is one critical section, one call of the scheduler, one hook or one callback; the
  threads of clients and the asynchronous thread interleave.  The scheduler is seen through what it
  promises: it takes a job or throws, and starts the jobs it took one at a time in an order of its own.
\<close>

section \<open>State\<close>

datatype terminal_state = TCompleted | TFailed | TCancelled

datatype sevent =
    HookStarted
  | Callback nat
  | Published terminal_state
  | HookTerminal terminal_state

text \<open>The promise is fulfilled when its outcome is published in the log.\<close>

record rstate =
  rs_machine :: sm
  rs_queued :: bool
  rs_running :: bool
  rs_started :: bool
  rs_completed :: bool
  rs_failed :: bool
  rs_cancelled :: bool
  rs_terminal :: bool
  rs_log :: "sevent list"

definition newRuntimeState :: rstate where
  "newRuntimeState = \<lparr>rs_machine = newState, rs_queued = False, rs_running = False, rs_started = False,
     rs_completed = False, rs_failed = False, rs_cancelled = False, rs_terminal = False, rs_log = []\<rparr>"

definition addEvent :: "sevent \<Rightarrow> rstate \<Rightarrow> rstate" where
  "addEvent e r = r\<lparr>rs_log := rs_log r @ [e]\<rparr>"

text \<open>
  The next step of the asynchronous thread, with the state it works on; \<open>release\<close> says whether the
  state is released after the outcome is published.
\<close>

datatype spc =
    SIdle
  | SBegin nat priority
  | SStarted nat priority
  | SRun nat priority
  | SCancel nat
  | SEnqueue nat priority
  | SPost nat priority
  | SUndo nat
  | SReset nat
  | SPublish nat terminal_state bool
  | SHook nat terminal_state bool
  | SRelease nat
  | SAborted nat

text \<open>
  The next step of a call of a client; the list of \<open>KCancel\<close> and the following holds the states that a
  shutdown has still to cancel, and the other list those that it then waits for.
\<close>

datatype kpc =
    KDone "bool option"
  | KRun nat priority bool
  | KEnqueue nat priority bool
  | KPost nat priority bool
  | KUndo nat
  | KReset nat "bool option"
  | KCancel nat "nat list" "nat list"
  | KPublish nat "nat list" "nat list" "bool option"
  | KHook nat terminal_state "nat list" "nat list" "bool option"
  | KShutdown
  | KWait "nat list"

text \<open>A job of the scheduler: the state, the priority and whether it was submitted with a delay.\<close>

record rsm =
  sm_all :: "nat \<Rightarrow> rstate"
  sm_pending :: "nat list"
  sm_shutdown :: bool
  sm_jobs :: "(nat \<times> priority \<times> bool) list"
  sm_worker :: spc
  sm_calls :: "kpc list"

definition newManager :: rsm where
  "newManager = \<lparr>sm_all = (\<lambda>_. newRuntimeState), sm_pending = [], sm_shutdown = False, sm_jobs = [],
     sm_worker = SIdle, sm_calls = []\<rparr>"

definition onState :: "nat \<Rightarrow> (rstate \<Rightarrow> rstate) \<Rightarrow> rsm \<Rightarrow> rsm" where
  "onState i f m = m\<lparr>sm_all := (sm_all m)(i := f (sm_all m i))\<rparr>"

definition toSched :: "spc \<Rightarrow> rsm \<Rightarrow> rsm" where
  "toSched pc m = m\<lparr>sm_worker := pc\<rparr>"

definition toClient :: "nat \<Rightarrow> kpc \<Rightarrow> rsm \<Rightarrow> rsm" where
  "toClient k pc m = m\<lparr>sm_calls := (sm_calls m)[k := pc]\<rparr>"

section \<open>Configuration\<close>

text \<open>The hooks, for a caller that is not the one running callback.\<close>

definition configurable :: "rstate \<Rightarrow> bool" where
  "configurable r \<longleftrightarrow> \<not> (rs_queued r \<or> rs_running r \<or> rs_terminal r)"

datatype cfg =
    CfgSetStateFnc "nat option" int
  | CfgSetNextTo int
  | CfgSetNext
  | CfgSetEnd

definition configure :: "cfg \<Rightarrow> rstate \<Rightarrow> rstate" where
  "configure c r =
     (let m = rs_machine r; ok = configurable r
      in r\<lparr>rs_machine := fst (case c of
            CfgSetStateFnc f index \<Rightarrow> setStateFnc ok f index m
          | CfgSetNextTo index \<Rightarrow> setNextTo ok index m
          | CfgSetNext \<Rightarrow> setNext ok m
          | CfgSetEnd \<Rightarrow> setEnd ok m)\<rparr>)"

section \<open>Lifecycle\<close>

text \<open>
  The critical section of \<open>complete\<close>, with the outcome whose hook is called after it.
\<close>

definition complete :: "terminal_state \<Rightarrow> rstate \<Rightarrow> rstate \<times> terminal_state option" where
  "complete t r =
     (if rs_terminal r then (r, None)
      else
        let r1 = r\<lparr>rs_terminal := True, rs_queued := False, rs_running := False\<rparr>;
            t1 = (if t = TCompleted \<and> rs_cancelled r1 then TCancelled else t)
        in (addEvent (Published t1)
              (case t1 of
                 TCompleted \<Rightarrow> r1\<lparr>rs_completed := True\<rparr>
               | TFailed \<Rightarrow> r1\<lparr>rs_failed := True\<rparr>
               | TCancelled \<Rightarrow> r1\<lparr>rs_cancelled := True\<rparr>), Some t1))"

text \<open>The critical section of \<open>cancel\<close>, and whether the outcome is published at once.\<close>

definition cancelState :: "rstate \<Rightarrow> rstate \<times> bool" where
  "cancelState r =
     (if rs_terminal r \<or> rs_cancelled r then (r, False) else (r\<lparr>rs_cancelled := True\<rparr>, \<not> rs_queued r))"

definition resetQueued :: "rstate \<Rightarrow> rstate \<times> bool" where
  "resetQueued r = (r\<lparr>rs_queued := False\<rparr>, rs_cancelled r \<and> \<not> rs_terminal r)"

text \<open>\<open>beginStep\<close>: \<open>None\<close> when the state is terminal or cancelled, else whether \<open>onStarted\<close> is called.\<close>

definition beginStep :: "rstate \<Rightarrow> rstate \<times> bool option" where
  "beginStep r =
     (if rs_terminal r \<or> rs_cancelled r then (r, None)
      else (r\<lparr>rs_running := True, rs_started := True\<rparr>, Some (\<not> rs_started r)))"

text \<open>The manager has the permission that the hook asks for.\<close>

definition runNextManaged :: "(nat \<Rightarrow> sop list) \<Rightarrow> rstate \<Rightarrow> rstate \<times> (serror + bool)" where
  "runNextManaged script r =
     (case runNext True script (rs_machine r) of
        (m, a) \<Rightarrow>
          ((case invoked (rs_machine r) of None \<Rightarrow> (\<lambda>r. r) | Some f \<Rightarrow> addEvent (Callback f)) (r\<lparr>rs_machine := m\<rparr>), a))"

definition setEndManaged :: "rstate \<Rightarrow> rstate" where
  "setEndManaged r = r\<lparr>rs_machine := fst (setEnd True (rs_machine r))\<rparr>"

section \<open>The manager\<close>

definition retainState :: "nat \<Rightarrow> rsm \<Rightarrow> rsm" where
  "retainState i m = (if i \<in> set (sm_pending m) then m else m\<lparr>sm_pending := sm_pending m @ [i]\<rparr>)"

definition refusesState :: "nat \<Rightarrow> rsm \<Rightarrow> bool" where
  "refusesState i m \<longleftrightarrow> sm_shutdown m \<and> i \<notin> set (sm_pending m)"

definition releaseState :: "nat \<Rightarrow> rsm \<Rightarrow> rsm" where
  "releaseState i m = m\<lparr>sm_pending := removeAll i (sm_pending m)\<rparr>"

text \<open>
  \<open>addJob\<close> of the scheduler refuses the priority \<open>KSched\<close>, \<open>addTimedJob\<close> does not; either can throw for
  want of memory.
\<close>

definition postThrows :: "priority \<Rightarrow> bool \<Rightarrow> bool \<Rightarrow> bool" where
  "postThrows p delayed throws \<longleftrightarrow> throws \<or> (p = KSched \<and> \<not> delayed)"

definition postJob :: "nat \<Rightarrow> priority \<Rightarrow> bool \<Rightarrow> rsm \<Rightarrow> rsm" where
  "postJob i p delayed m = m\<lparr>sm_jobs := sm_jobs m @ [(i, p, delayed)]\<rparr>"

text \<open>A job of \<open>addTimedJob\<close> with a priority that \<open>addJob\<close> refuses never leaves the heap.\<close>

fun runnable :: "nat \<times> priority \<times> bool \<Rightarrow> bool" where
  "runnable (i, p, delayed) \<longleftrightarrow> p \<noteq> KSched"

text \<open>The scheduler starts a job, which \<open>pick\<close> chooses.\<close>

definition startJob :: "nat \<Rightarrow> rsm \<Rightarrow> rsm" where
  "startJob pick m =
     (if pick < length (sm_jobs m) \<and> runnable (sm_jobs m ! pick)
      then (case sm_jobs m ! pick of
              (i, p, delayed) \<Rightarrow> toSched (SBegin i p) (m\<lparr>sm_jobs := take pick (sm_jobs m) @ drop (Suc pick) (sm_jobs m)\<rparr>))
      else m)"

text \<open>
  \<open>executeStateStep\<close>: \<open>throws\<close> says whether the hook \<open>onStarted\<close> or the scheduler throws at this step.  The
  hooks of terminal outcomes must not throw.
\<close>

definition executeStateStep :: "(nat \<Rightarrow> sop list) \<Rightarrow> bool \<Rightarrow> rsm \<Rightarrow> rsm" where
  "executeStateStep script throws m = (case sm_worker m of
      SBegin i p \<Rightarrow>
        (case beginStep (sm_all m i) of
           (r, None) \<Rightarrow> toSched (SCancel i) (onState i (\<lambda>_. r) m)
         | (r, Some first) \<Rightarrow> toSched (if first then SStarted i p else SRun i p) (onState i (\<lambda>_. r) m))
    | SStarted i p \<Rightarrow> toSched (if throws then SPublish i TFailed True else SRun i p) (onState i (addEvent HookStarted) m)
    | SRun i p \<Rightarrow>
        (case runNextManaged script (sm_all m i) of
           (r, a) \<Rightarrow> toSched (case a of Inl e \<Rightarrow> if e = Assertion then SAborted i else SPublish i TFailed True
                                  | Inr True \<Rightarrow> SEnqueue i p | Inr False \<Rightarrow> SPublish i TCompleted True)
                       (onState i (\<lambda>_. r) m))
    | SCancel i \<Rightarrow>
        (case runNextManaged script (setEndManaged (sm_all m i)) of
           (r, a) \<Rightarrow> toSched (case a of Inl e \<Rightarrow> if e = Assertion then SAborted i else SPublish i TFailed True
                                  | Inr b \<Rightarrow> SPublish i TCancelled True)
                       (onState i (\<lambda>_. r) m))
    | _ \<Rightarrow> m)"

definition finishState :: "rsm \<Rightarrow> rsm" where
  "finishState m = (case sm_worker m of
      SPublish i t release \<Rightarrow>
        (case complete t (sm_all m i) of
           (r, h) \<Rightarrow> toSched (case h of Some t1 \<Rightarrow> SHook i t1 release | None \<Rightarrow> if release then SRelease i else SIdle)
                       (onState i (\<lambda>_. r) m))
    | SHook i t release \<Rightarrow> toSched (if release then SRelease i else SIdle) (onState i (addEvent (HookTerminal t)) m)
    | SRelease i \<Rightarrow> toSched SIdle (releaseState i m)
    | _ \<Rightarrow> m)"

text \<open>The next dispatch of a state; its delay is zero.\<close>

definition enqueueAgain :: "bool \<Rightarrow> rsm \<Rightarrow> rsm" where
  "enqueueAgain throws m = (case sm_worker m of
      SEnqueue i p \<Rightarrow> if refusesState i m then toSched SIdle m else toSched (SPost i p) (retainState i m)
    | SPost i p \<Rightarrow>
        if postThrows p False throws then toSched (SUndo i) m else toSched SIdle (postJob i p False m)
    | SUndo i \<Rightarrow> toSched (SReset i) (releaseState i m)
    | SReset i \<Rightarrow>
        (case resetQueued (sm_all m i) of
           (r, now) \<Rightarrow> toSched (if now then SPublish i TCancelled False else SIdle) (onState i (\<lambda>_. r) m))
    | _ \<Rightarrow> m)"

definition schedStep :: "(nat \<Rightarrow> sop list) \<Rightarrow> bool \<Rightarrow> nat \<Rightarrow> rsm \<Rightarrow> rsm" where
  "schedStep script throws pick m = (case sm_worker m of
      SIdle \<Rightarrow> startJob pick m
    | SBegin i p \<Rightarrow> executeStateStep script throws m
    | SStarted i p \<Rightarrow> executeStateStep script throws m
    | SRun i p \<Rightarrow> executeStateStep script throws m
    | SCancel i \<Rightarrow> executeStateStep script throws m
    | SPublish i t release \<Rightarrow> finishState m
    | SHook i t release \<Rightarrow> finishState m
    | SRelease i \<Rightarrow> finishState m
    | SAborted i \<Rightarrow> m
    | _ \<Rightarrow> enqueueAgain throws m)"

section \<open>Clients\<close>

definition runState :: "nat \<Rightarrow> bool \<Rightarrow> rsm \<Rightarrow> rsm" where
  "runState k throws m = (case sm_calls m ! k of
      KRun i p delayed \<Rightarrow>
        if rs_terminal (sm_all m i) \<or> rs_cancelled (sm_all m i) \<or> rs_queued (sm_all m i)
        then toClient k (KDone (Some False)) m
        else toClient k (KEnqueue i p delayed) (onState i (rs_queued_update (\<lambda>_. True)) m)
    | KEnqueue i p delayed \<Rightarrow>
        if refusesState i m then toClient k (KReset i (Some False)) m
        else toClient k (KPost i p delayed) (retainState i m)
    | KPost i p delayed \<Rightarrow>
        if postThrows p delayed throws then toClient k (KUndo i) m
        else toClient k (KDone (Some True)) (postJob i p delayed m)
    | KUndo i \<Rightarrow> toClient k (KReset i None) (releaseState i m)
    | KReset i answer \<Rightarrow>
        (case resetQueued (sm_all m i) of
           (r, now) \<Rightarrow> toClient k (if now then KPublish i [] [] answer else KDone answer) (onState i (\<lambda>_. r) m))
    | _ \<Rightarrow> m)"

text \<open>What follows the cancellation of one state: the next one, or the wait for all of them.\<close>

fun afterCancel :: "nat list \<Rightarrow> nat list \<Rightarrow> bool option \<Rightarrow> kpc" where
  "afterCancel (i # todo) all answer = KCancel i todo all"
| "afterCancel [] [] answer = KDone answer"
| "afterCancel [] (i # all) answer = KWait (i # all)"

text \<open>\<open>cancel\<close>, also as \<open>shutdown\<close> calls it, and \<open>shutdown\<close>.\<close>

definition cancelStep :: "nat \<Rightarrow> rsm \<Rightarrow> rsm" where
  "cancelStep k m = (case sm_calls m ! k of
      KCancel i todo all \<Rightarrow>
        (case cancelState (sm_all m i) of
           (r, now) \<Rightarrow> toClient k (if now then KPublish i todo all None else afterCancel todo all None) (onState i (\<lambda>_. r) m))
    | KPublish i todo all answer \<Rightarrow>
        (case complete TCancelled (sm_all m i) of
           (r, h) \<Rightarrow> toClient k (case h of Some t \<Rightarrow> KHook i t todo all answer | None \<Rightarrow> afterCancel todo all answer)
                       (onState i (\<lambda>_. r) m))
    | KHook i t todo all answer \<Rightarrow> toClient k (afterCancel todo all answer) (onState i (addEvent (HookTerminal t)) m)
    | _ \<Rightarrow> m)"

definition shutdown :: "nat \<Rightarrow> rsm \<Rightarrow> rsm" where
  "shutdown k m = (case sm_calls m ! k of
      KShutdown \<Rightarrow> toClient k (afterCancel (sm_pending m) (sm_pending m) None) (m\<lparr>sm_shutdown := True\<rparr>)
    | KWait (i # rest) \<Rightarrow>
        if rs_terminal (sm_all m i) then toClient k (if rest = [] then KDone None else KWait rest) m else m
    | _ \<Rightarrow> m)"

definition clientStep :: "nat \<Rightarrow> bool \<Rightarrow> rsm \<Rightarrow> rsm" where
  "clientStep k throws m = (case sm_calls m ! k of
      KDone answer \<Rightarrow> m
    | KCancel i todo all \<Rightarrow> cancelStep k m
    | KPublish i todo all answer \<Rightarrow> cancelStep k m
    | KHook i t todo all answer \<Rightarrow> cancelStep k m
    | KShutdown \<Rightarrow> shutdown k m
    | KWait all \<Rightarrow> shutdown k m
    | _ \<Rightarrow> runState k throws m)"

datatype kcall =
    CallRun nat priority bool
  | CallCancel nat
  | CallShutdown
  | CallWait nat
  | CallConfigure nat cfg

text \<open>A new call; \<open>run\<close> of a state without callbacks returns at once.\<close>

definition newCall :: "kcall \<Rightarrow> rsm \<Rightarrow> rsm" where
  "newCall c m = (case c of
      CallRun i p delayed \<Rightarrow>
        m\<lparr>sm_calls := sm_calls m @ [if hasStateFncs (rs_machine (sm_all m i)) then KRun i p delayed else KDone (Some False)]\<rparr>
    | CallCancel i \<Rightarrow> m\<lparr>sm_calls := sm_calls m @ [KCancel i [] []]\<rparr>
    | CallShutdown \<Rightarrow> m\<lparr>sm_calls := sm_calls m @ [KShutdown]\<rparr>
    | CallWait i \<Rightarrow> m\<lparr>sm_calls := sm_calls m @ [KWait [i]]\<rparr>
    | CallConfigure i cf \<Rightarrow> onState i (configure cf) m)"

inductive rs_step :: "rsm \<Rightarrow> rsm \<Rightarrow> bool" where
  rs_sched: "rs_step m (schedStep script throws pick m)"
| rs_client: "k < length (sm_calls m) \<Longrightarrow> rs_step m (clientStep k throws m)"
| rs_call: "rs_step m (newCall c m)"

definition rs_init :: "rsm \<Rightarrow> bool" where
  "rs_init m \<longleftrightarrow> m = newManager"

datatype saction =
    DoSched "nat \<Rightarrow> sop list" bool nat
  | DoClient nat bool
  | DoCall kcall

fun sdo :: "saction \<Rightarrow> rsm \<Rightarrow> rsm" where
  "sdo (DoSched script throws pick) m = schedStep script throws pick m"
| "sdo (DoClient k throws) m = (if k < length (sm_calls m) then clientStep k throws m else m)"
| "sdo (DoCall c) m = newCall c m"

end
