(* ===== verification/RuntimeStateProps.thy ===== *)
theory RuntimeStateProps
  imports RuntimeState
begin

text \<open>
  The invariants of runtime-managed states: the mark \<open>queued\<close> has exactly one owner, an outcome is
  published once and after the last callback, a requested cancellation always has a thread that will
  publish it, and a state is retained while a job refers to it.
\<close>

lemma length_filter_update:
  "k < length xs \<Longrightarrow> length (filter P (xs[k := x])) = length (filter P xs) - of_bool (P (xs ! k)) + of_bool (P x)"
proof (induction xs arbitrary: k)
  case (Cons y ys)
  have pos: "0 < length (filter P ys)" if "P (ys ! j)" "j < length ys" for j
    using that by (auto simp: filter_empty_conv)
  show ?case
  proof (cases k)
    case (Suc j)
    then show ?thesis using Cons pos [of j] by (cases "P (ys ! j)") (simp_all add: Suc_diff_le)
  qed simp
qed simp

lemma length_filter_pos: "k < length xs \<Longrightarrow> P (xs ! k) \<Longrightarrow> 0 < length (filter P xs)"
  by (auto simp: filter_empty_conv)

lemma length_filter_remove:
  "k < length xs \<Longrightarrow> length (filter P (take k xs)) + length (filter P (drop (Suc k) xs)) = length (filter P xs) - of_bool (P (xs ! k))"
  by (subst (3) id_take_nth_drop [of k xs]) simp_all

lemma onState_simps [simp]:
  "sm_all (onState i f m) = (sm_all m)(i := f (sm_all m i))" "sm_pending (onState i f m) = sm_pending m"
  "sm_shutdown (onState i f m) = sm_shutdown m" "sm_jobs (onState i f m) = sm_jobs m"
  "sm_worker (onState i f m) = sm_worker m" "sm_calls (onState i f m) = sm_calls m"
  by (simp_all add: onState_def)

lemma toSched_simps [simp]:
  "sm_all (toSched pc m) = sm_all m" "sm_pending (toSched pc m) = sm_pending m"
  "sm_shutdown (toSched pc m) = sm_shutdown m" "sm_jobs (toSched pc m) = sm_jobs m"
  "sm_worker (toSched pc m) = pc" "sm_calls (toSched pc m) = sm_calls m"
  by (simp_all add: toSched_def)

lemma toClient_simps [simp]:
  "sm_all (toClient k pc m) = sm_all m" "sm_pending (toClient k pc m) = sm_pending m"
  "sm_shutdown (toClient k pc m) = sm_shutdown m" "sm_jobs (toClient k pc m) = sm_jobs m"
  "sm_worker (toClient k pc m) = sm_worker m" "sm_calls (toClient k pc m) = (sm_calls m)[k := pc]"
  by (simp_all add: toClient_def)

lemma manager_simps [simp]:
  "sm_all (retainState i m) = sm_all m" "sm_jobs (retainState i m) = sm_jobs m"
  "sm_worker (retainState i m) = sm_worker m" "sm_calls (retainState i m) = sm_calls m"
  "sm_all (releaseState i m) = sm_all m" "sm_jobs (releaseState i m) = sm_jobs m"
  "sm_worker (releaseState i m) = sm_worker m" "sm_calls (releaseState i m) = sm_calls m"
  "sm_all (postJob i p d m) = sm_all m" "sm_jobs (postJob i p d m) = sm_jobs m @ [(i, p, d)]"
  "sm_worker (postJob i p d m) = sm_worker m" "sm_calls (postJob i p d m) = sm_calls m"
  "set (sm_pending (retainState i m)) = insert i (set (sm_pending m))"
  "set (sm_pending (releaseState i m)) = set (sm_pending m) - {i}"
  "sm_pending (postJob i p d m) = sm_pending m"
  by (auto simp: retainState_def releaseState_def postJob_def)

lemma addEvent_simps [simp]:
  "rs_machine (addEvent e r) = rs_machine r" "rs_queued (addEvent e r) = rs_queued r"
  "rs_running (addEvent e r) = rs_running r" "rs_started (addEvent e r) = rs_started r"
  "rs_completed (addEvent e r) = rs_completed r" "rs_failed (addEvent e r) = rs_failed r"
  "rs_cancelled (addEvent e r) = rs_cancelled r" "rs_terminal (addEvent e r) = rs_terminal r"
  "rs_log (addEvent e r) = rs_log r @ [e]"
  by (simp_all add: addEvent_def)

section \<open>The owner of the mark\<close>

fun schedOwns :: "spc \<Rightarrow> nat \<Rightarrow> bool" where
  "schedOwns SIdle j = False"
| "schedOwns (SBegin i p) j = (i = j)"
| "schedOwns (SStarted i p) j = (i = j)"
| "schedOwns (SRun i p) j = (i = j)"
| "schedOwns (SCancel i) j = (i = j)"
| "schedOwns (SEnqueue i p) j = (i = j)"
| "schedOwns (SPost i p) j = (i = j)"
| "schedOwns (SUndo i) j = (i = j)"
| "schedOwns (SReset i) j = (i = j)"
| "schedOwns (SPublish i t release) j = (release \<and> i = j)"
| "schedOwns (SHook i t release) j = False"
| "schedOwns (SRelease i) j = False"
| "schedOwns (SAborted i) j = (i = j)"

fun callOwns :: "kpc \<Rightarrow> nat \<Rightarrow> bool" where
  "callOwns (KEnqueue i p d) j = (i = j)"
| "callOwns (KPost i p d) j = (i = j)"
| "callOwns (KUndo i) j = (i = j)"
| "callOwns (KReset i a) j = (i = j)"
| "callOwns c j = False"

definition owners :: "rsm \<Rightarrow> nat \<Rightarrow> nat" where
  "owners m i = length (filter (\<lambda>(j, p, d). j = i) (sm_jobs m)) + of_bool (schedOwns (sm_worker m) i) +
     length (filter (\<lambda>c. callOwns c i) (sm_calls m))"

text \<open>A thread that publishes the cancellation of a state that is not queued.\<close>

fun callPublishes :: "kpc \<Rightarrow> nat \<Rightarrow> bool" where
  "callPublishes (KPublish i todo all a) j = (i = j)"
| "callPublishes c j = False"

fun schedPublishes :: "spc \<Rightarrow> nat \<Rightarrow> bool" where
  "schedPublishes (SPublish i t release) j = (\<not> release \<and> i = j)"
| "schedPublishes pc j = False"

definition publishers :: "rsm \<Rightarrow> nat \<Rightarrow> nat" where
  "publishers m i = of_bool (schedPublishes (sm_worker m) i) + length (filter (\<lambda>c. callPublishes c i) (sm_calls m))"

definition owner_rel :: "nat \<Rightarrow> nat \<Rightarrow> rstate \<Rightarrow> bool" where
  "owner_rel n p r \<longleftrightarrow> n = of_bool (rs_queued r) \<and> (rs_terminal r \<longrightarrow> \<not> rs_queued r \<and> \<not> rs_running r) \<and>
     (0 < p \<longrightarrow> rs_cancelled r \<and> \<not> rs_queued r) \<and>
     (rs_cancelled r \<and> \<not> rs_terminal r \<and> \<not> rs_queued r \<longrightarrow> 0 < p)"

definition owner_ok :: "rsm \<Rightarrow> nat \<Rightarrow> bool" where
  "owner_ok m i \<longleftrightarrow> owner_rel (owners m i) (publishers m i) (sm_all m i)"

lemma afterCancel_pc [simp]: "\<not> callOwns (afterCancel todo all a) i" "\<not> callPublishes (afterCancel todo all a) i"
  by (cases "(todo, all, a)" rule: afterCancel.cases; simp)+

lemma owners_client:
  "k < length (sm_calls m) \<Longrightarrow> sm_calls m' = (sm_calls m)[k := x] \<Longrightarrow> sm_jobs m' = sm_jobs m @ js \<Longrightarrow> sm_worker m' = sm_worker m \<Longrightarrow>
    owners m' i + of_bool (callOwns (sm_calls m ! k) i) = owners m i + of_bool (callOwns x i) + length (filter (\<lambda>(j, p, d). j = i) js)"
  using length_filter_pos [of k "sm_calls m" "\<lambda>c. callOwns c i"]
  by (cases "callOwns (sm_calls m ! k) i") (simp_all add: owners_def length_filter_update)

lemma owners_sched:
  "sm_calls m' = sm_calls m \<Longrightarrow> sm_jobs m' = sm_jobs m @ js \<Longrightarrow>
    owners m' i + of_bool (schedOwns (sm_worker m) i) =
    owners m i + of_bool (schedOwns (sm_worker m') i) + length (filter (\<lambda>(j, p, d). j = i) js)"
  by (simp add: owners_def)

lemma publishers_client:
  "k < length (sm_calls m) \<Longrightarrow> sm_calls m' = (sm_calls m)[k := x] \<Longrightarrow> sm_worker m' = sm_worker m \<Longrightarrow>
    publishers m' i + of_bool (callPublishes (sm_calls m ! k) i) = publishers m i + of_bool (callPublishes x i)"
  using length_filter_pos [of k "sm_calls m" "\<lambda>c. callPublishes c i"]
  by (cases "callPublishes (sm_calls m ! k) i") (simp_all add: publishers_def length_filter_update)

lemma publishers_sched:
  "sm_calls m' = sm_calls m \<Longrightarrow>
    publishers m' i + of_bool (schedPublishes (sm_worker m) i) = publishers m i + of_bool (schedPublishes (sm_worker m') i)"
  by (simp add: publishers_def)

text \<open>
  One step of a thread on the state \<open>j\<close>: the thread owned the mark before it if \<open>a\<close> and owns it after
  it if \<open>b\<close>, it added a job if \<open>c\<close>, and likewise it published if \<open>d\<close> and publishes if \<open>e\<close>.
\<close>

definition local_step :: "bool \<Rightarrow> bool \<Rightarrow> bool \<Rightarrow> bool \<Rightarrow> bool \<Rightarrow> rstate \<Rightarrow> rstate \<Rightarrow> bool" where
  "local_step a b c d e r r' \<longleftrightarrow>
     (\<forall>n p n' p'. owner_rel n p r \<longrightarrow> n' + of_bool a = n + of_bool b + of_bool c \<longrightarrow> p' + of_bool d = p + of_bool e \<longrightarrow>
        owner_rel n' p' r')"

lemma local_stepD:
  "local_step a b c d e r r' \<Longrightarrow> owner_rel n p r \<Longrightarrow> n' + of_bool a = n + of_bool b + of_bool c \<Longrightarrow>
    p' + of_bool d = p + of_bool e \<Longrightarrow> owner_rel n' p' r'"
  unfolding local_step_def by blast

lemma owner_client:
  assumes ok: "\<forall>i. owner_ok m i" and k: "k < length (sm_calls m)"
    and m': "sm_calls m' = (sm_calls m)[k := x]" "sm_worker m' = sm_worker m" "\<forall>i. i \<noteq> j \<longrightarrow> sm_all m' i = sm_all m i"
    and jobs: "sm_jobs m' = sm_jobs m \<and> \<not> c \<or> (\<exists>p d. sm_jobs m' = sm_jobs m @ [(j, p, d)]) \<and> c"
    and other: "\<forall>i. i \<noteq> j \<longrightarrow> \<not> callOwns (sm_calls m ! k) i \<and> \<not> callOwns x i \<and> \<not> callPublishes (sm_calls m ! k) i \<and> \<not> callPublishes x i"
    and loc: "local_step (callOwns (sm_calls m ! k) j) (callOwns x j) c (callPublishes (sm_calls m ! k) j) (callPublishes x j) (sm_all m j) (sm_all m' j)"
  shows "\<forall>i. owner_ok m' i"
proof
  fix i
  obtain js where js: "sm_jobs m' = sm_jobs m @ js" "length (filter (\<lambda>(j, p, d). j = i) js) = of_bool (c \<and> i = j)"
    using jobs by fastforce
  note o = owners_client [OF k m'(1) js(1) m'(2), of i] and p = publishers_client [OF k m'(1,2), of i]
  show "owner_ok m' i"
  proof (cases "i = j")
    case True
    show ?thesis
      using local_stepD [OF loc ok [rule_format, of j, unfolded owner_ok_def]] o p js(2) True
      by (simp add: owner_ok_def)
  next
    case False
    then show ?thesis using ok o p js(2) m'(3) other unfolding owner_ok_def by simp
  qed
qed

lemma owner_sched:
  assumes ok: "\<forall>i. owner_ok m i"
    and m': "sm_calls m' = sm_calls m" "\<forall>i. i \<noteq> j \<longrightarrow> sm_all m' i = sm_all m i"
    and jobs: "sm_jobs m' = sm_jobs m \<and> \<not> c \<or> (\<exists>p d. sm_jobs m' = sm_jobs m @ [(j, p, d)]) \<and> c"
    and other: "\<forall>i. i \<noteq> j \<longrightarrow> \<not> schedOwns (sm_worker m) i \<and> \<not> schedOwns (sm_worker m') i \<and>
      \<not> schedPublishes (sm_worker m) i \<and> \<not> schedPublishes (sm_worker m') i"
    and loc: "local_step (schedOwns (sm_worker m) j) (schedOwns (sm_worker m') j) c (schedPublishes (sm_worker m) j)
      (schedPublishes (sm_worker m') j) (sm_all m j) (sm_all m' j)"
  shows "\<forall>i. owner_ok m' i"
proof
  fix i
  obtain js where js: "sm_jobs m' = sm_jobs m @ js" "length (filter (\<lambda>(j, p, d). j = i) js) = of_bool (c \<and> i = j)"
    using jobs by fastforce
  note o = owners_sched [OF m'(1) js(1), of i] and p = publishers_sched [OF m'(1), of i]
  show "owner_ok m' i"
  proof (cases "i = j")
    case True
    show ?thesis
      using local_stepD [OF loc ok [rule_format, of j, unfolded owner_ok_def]] o p js(2) True
      by (simp add: owner_ok_def)
  next
    case False
    then show ?thesis using ok o p js(2) m'(2) other unfolding owner_ok_def by simp
  qed
qed

lemma complete_simps:
  "complete t r = (r', h) \<Longrightarrow> (rs_terminal r \<longrightarrow> r' = r) \<and> rs_terminal r' \<and>
    (\<not> rs_terminal r \<longrightarrow> \<not> rs_queued r' \<and> \<not> rs_running r' \<and> (rs_cancelled r \<longrightarrow> rs_cancelled r'))"
  by (auto simp: complete_def Let_def split: if_splits terminal_state.splits)

lemma runNextManaged_simps [simp]:
  "rs_queued (fst (runNextManaged script r)) = rs_queued r" "rs_cancelled (fst (runNextManaged script r)) = rs_cancelled r"
  "rs_terminal (fst (runNextManaged script r)) = rs_terminal r" "rs_running (fst (runNextManaged script r)) = rs_running r"
  "rs_queued (setEndManaged r) = rs_queued r" "rs_cancelled (setEndManaged r) = rs_cancelled r"
  "rs_terminal (setEndManaged r) = rs_terminal r" "rs_running (setEndManaged r) = rs_running r"
  by (simp_all add: runNextManaged_def setEndManaged_def split: prod.split option.split)

lemmas client_defs = clientStep_def runState_def cancelStep_def shutdown_def

text \<open>The local steps that change nothing but the place of the mark, and those of the flags.\<close>

lemma local_stepI:
  "(\<And>n p n' p'. owner_rel n p r \<Longrightarrow> n' + of_bool a = n + of_bool b + of_bool c \<Longrightarrow> p' + of_bool d = p + of_bool e \<Longrightarrow>
     owner_rel n' p' r') \<Longrightarrow> local_step a b c d e r r'"
  unfolding local_step_def by blast

lemma local_same:
  assumes "a = (b \<or> c)" "\<not> (b \<and> c)" "d = e" "rs_queued r' = rs_queued r" "rs_cancelled r' = rs_cancelled r"
    "rs_terminal r' = rs_terminal r" "rs_running r' \<longrightarrow> rs_running r \<or> \<not> rs_terminal r"
  shows "local_step a b c d e r r'"
proof (rule local_stepI)
  fix n p n' p' :: nat
  assume o: "owner_rel n p r" and n: "n' + of_bool a = n + of_bool b + of_bool c" and p: "p' + of_bool d = p + of_bool e"
  have "n' = n" using n assms(1,2) by (cases b; cases c) simp_all
  moreover have "p' = p" using p assms(3) by simp
  moreover have "owner_rel n p r'"
    unfolding owner_rel_def assms(4-6)
    using o [unfolded owner_rel_def] assms(7) by blast
  ultimately show "owner_rel n' p' r'" by simp
qed

lemma local_reset:
  assumes "resetQueued r = (r', now)"
  shows "local_step True False False False now r r'"
proof (rule local_stepI)
  fix n p n' p' :: nat
  assume o: "owner_rel n p r" and n: "n' + of_bool True = n + of_bool False + of_bool False" and p: "p' + of_bool False = p + of_bool now"
  have q: "rs_queued r" using o n by (cases "rs_queued r") (simp_all add: owner_rel_def)
  then have "n' = 0" "p = 0" using o n by (simp_all add: owner_rel_def)
  then show "owner_rel n' p' r'" using p assms o q by (cases now) (auto simp: owner_rel_def resetQueued_def)
qed

lemma local_complete:
  assumes "complete t r = (r', h)"
  shows "local_step True False False False False r r'"
proof (rule local_stepI)
  fix n p n' p' :: nat
  assume o: "owner_rel n p r" and n: "n' + of_bool True = n + of_bool False + of_bool False" and p: "p' + of_bool False = p + of_bool False"
  have q: "rs_queued r" using o n by (cases "rs_queued r") (simp_all add: owner_rel_def)
  then have "n' = 0" "p' = 0" "\<not> rs_terminal r" using o n p by (simp_all add: owner_rel_def)
  then show "owner_rel n' p' r'" using complete_simps [OF assms] by (simp add: owner_rel_def)
qed

lemma local_cancelled:
  assumes "complete t r = (r', h)"
  shows "local_step False False False True False r r'"
proof (rule local_stepI)
  fix n p n' p' :: nat
  assume o: "owner_rel n p r" and n: "n' + of_bool False = n + of_bool False + of_bool False" and p: "p' + of_bool True = p + of_bool False"
  have "0 < p" using p by simp
  then have q: "\<not> rs_queued r" "rs_cancelled r" using o by (simp_all add: owner_rel_def)
  then have "n' = 0" using o n by (simp add: owner_rel_def)
  then show "owner_rel n' p' r'"
    using complete_simps [OF assms] q o by (cases "rs_terminal r") (simp_all add: owner_rel_def)
qed

lemma local_cancel:
  assumes "cancelState r = (r', now)"
  shows "local_step False False False False now r r'"
proof (rule local_stepI)
  fix n p n' p' :: nat
  assume o: "owner_rel n p r" and n: "n' + of_bool False = n + of_bool False + of_bool False" and p: "p' + of_bool False = p + of_bool now"
  show "owner_rel n' p' r'"
  proof (cases "rs_terminal r \<or> rs_cancelled r")
    case True
    then show ?thesis using o n p assms by (simp add: cancelState_def)
  next
    case False
    then have "r' = r\<lparr>rs_cancelled := True\<rparr>" "now = (\<not> rs_queued r)" using assms by (simp_all add: cancelState_def)
    then show ?thesis using o n p False by (cases "rs_queued r") (auto simp: owner_rel_def)
  qed
qed

lemma local_run:
  assumes "\<not> rs_terminal r" "\<not> rs_cancelled r" "\<not> rs_queued r"
  shows "local_step False True False False False r (r\<lparr>rs_queued := True\<rparr>)"
proof (rule local_stepI)
  fix n p n' p' :: nat
  assume "owner_rel n p r" "n' + of_bool False = n + of_bool True + of_bool False" "p' + of_bool False = p + of_bool False"
  then show "owner_rel n' p' (r\<lparr>rs_queued := True\<rparr>)" using assms by (auto simp: owner_rel_def)
qed

lemma owner_client_step:
  assumes ok: "\<forall>i. owner_ok m i" and k: "k < length (sm_calls m)"
  shows "\<forall>i. owner_ok (clientStep k throws m) i"
proof (cases "sm_calls m ! k")
  case (KRun j p d)
  show ?thesis
  proof (cases "rs_terminal (sm_all m j) \<or> rs_cancelled (sm_all m j) \<or> rs_queued (sm_all m j)")
    case True
    then show ?thesis
      by (intro owner_client [OF ok k, where x = "KDone (Some False)" and j = j and c = False])
        (auto simp: client_defs KRun intro!: local_same)
  next
    case False
    then show ?thesis
      by (intro owner_client [OF ok k, where x = "KEnqueue j p d" and j = j and c = False])
        (auto simp: client_defs KRun intro!: local_run)
  qed
next
  case (KEnqueue j p d)
  show ?thesis
    by (rule owner_client [OF ok k, where x = "if refusesState j m then KReset j (Some False) else KPost j p d" and j = j and c = False])
      (auto simp: client_defs KEnqueue intro!: local_same)
next
  case (KPost j p d)
  show ?thesis
    by (rule owner_client [OF ok k, where x = "if postThrows p d throws then KUndo j else KDone (Some True)" and j = j
          and c = "\<not> postThrows p d throws"])
      (auto simp: client_defs KPost intro!: local_same)
next
  case (KUndo j)
  show ?thesis
    by (rule owner_client [OF ok k, where x = "KReset j None" and j = j and c = False])
      (auto simp: client_defs KUndo intro!: local_same)
next
  case (KReset j a)
  obtain r now where r: "resetQueued (sm_all m j) = (r, now)" by fastforce
  show ?thesis
    by (rule owner_client [OF ok k, where x = "if now then KPublish j [] [] a else KDone a" and j = j and c = False])
      (use local_reset [OF r] in \<open>auto simp: client_defs KReset r\<close>)
next
  case (KCancel j todo all)
  obtain r now where r: "cancelState (sm_all m j) = (r, now)" by fastforce
  show ?thesis
    by (rule owner_client [OF ok k, where x = "if now then KPublish j todo all None else afterCancel todo all None" and j = j and c = False])
      (use local_cancel [OF r] in \<open>auto simp: client_defs KCancel r\<close>)
next
  case (KPublish j todo all a)
  obtain r h where r: "complete TCancelled (sm_all m j) = (r, h)" by fastforce
  show ?thesis
    by (rule owner_client [OF ok k, where x = "case h of Some t \<Rightarrow> KHook j t todo all a | None \<Rightarrow> afterCancel todo all a" and j = j and c = False])
      (use local_cancelled [OF r] in \<open>auto simp: client_defs KPublish r split: option.splits\<close>)
next
  case (KHook j t todo all a)
  show ?thesis
    by (rule owner_client [OF ok k, where x = "afterCancel todo all a" and j = j and c = False])
      (auto simp: client_defs KHook intro!: local_same)
next
  case KShutdown
  show ?thesis
    by (rule owner_client [OF ok k, where x = "afterCancel (sm_pending m) (sm_pending m) None" and j = 0 and c = False])
      (auto simp: client_defs KShutdown intro!: local_same)
next
  case (KWait all)
  show ?thesis
  proof (cases all)
    case (Cons i rest)
    show ?thesis
    proof (cases "rs_terminal (sm_all m i)")
      case True
      then show ?thesis
        by (intro owner_client [OF ok k, where x = "if rest = [] then KDone None else KWait rest" and j = i and c = False])
          (auto simp: client_defs KWait Cons intro!: local_same)
    qed (use ok in \<open>simp add: client_defs KWait Cons\<close>)
  qed (use ok in \<open>simp add: client_defs KWait\<close>)
qed (use ok in \<open>simp add: client_defs\<close>)

lemmas sched_defs = schedStep_def executeStateStep_def finishState_def enqueueAgain_def

lemma owner_start:
  assumes ok: "\<forall>i. owner_ok m i" and idle: "sm_worker m = SIdle"
  shows "\<forall>i. owner_ok (startJob pick m) i"
proof (cases "pick < length (sm_jobs m) \<and> runnable (sm_jobs m ! pick)")
  case True
  obtain j p d where j: "sm_jobs m ! pick = (j, p, d)" by (cases "sm_jobs m ! pick")
  have pos: "0 < length (filter (\<lambda>(a, p, d). a = i) (sm_jobs m))" if "i = j" for i
    using True j that by (intro length_filter_pos [of pick]) auto
  have "owners (startJob pick m) i = owners m i" for i
    using True pos [of i] length_filter_remove [of pick "sm_jobs m" "\<lambda>(a, p, d). a = i"]
    by (cases "i = j") (simp_all add: startJob_def j owners_def idle)
  moreover have "publishers (startJob pick m) i = publishers m i" for i
    using True by (simp add: startJob_def j publishers_def idle)
  moreover have "sm_all (startJob pick m) = sm_all m" using True by (simp add: startJob_def j)
  ultimately show ?thesis using ok by (simp add: owner_ok_def)
next
  case False
  show ?thesis using ok unfolding startJob_def if_not_P [OF False] .
qed

lemma owner_sched_step:
  assumes ok: "\<forall>i. owner_ok m i" and held: "\<And>i p. sm_worker m = SEnqueue i p \<Longrightarrow> i \<in> set (sm_pending m)"
  shows "\<forall>i. owner_ok (schedStep script throws pick m) i"
proof (cases "sm_worker m")
  case SIdle
  then show ?thesis using owner_start [OF ok] by (simp add: schedStep_def)
next
  case (SBegin j p)
  have q: "\<not> rs_terminal (sm_all m j)"
  proof
    assume "rs_terminal (sm_all m j)"
    then have "owners m j = 0" using ok by (auto simp: owner_ok_def owner_rel_def)
    then show False by (simp add: owners_def SBegin)
  qed
  obtain r b where r: "beginStep (sm_all m j) = (r, b)" by fastforce
  show ?thesis
    by (rule owner_sched [OF ok, where j = j and c = False])
      (use r q in \<open>auto simp: sched_defs SBegin beginStep_def split: option.splits if_splits intro!: local_same\<close>)
next
  case (SStarted j p)
  show ?thesis
    by (rule owner_sched [OF ok, where j = j and c = False]) (auto simp: sched_defs SStarted intro!: local_same)
next
  case (SRun j p)
  obtain r a where r: "runNextManaged script (sm_all m j) = (r, a)" by fastforce
  have f: "rs_queued r = rs_queued (sm_all m j)" "rs_cancelled r = rs_cancelled (sm_all m j)"
    "rs_terminal r = rs_terminal (sm_all m j)" "rs_running r = rs_running (sm_all m j)"
    using runNextManaged_simps(1-4) [of script "sm_all m j"] by (simp_all add: r)
  show ?thesis
    by (rule owner_sched [OF ok, where j = j and c = False])
      (auto simp: sched_defs SRun r f split: sum.splits bool.splits intro!: local_same)
next
  case (SCancel j)
  obtain r a where r: "runNextManaged script (setEndManaged (sm_all m j)) = (r, a)" by fastforce
  have f: "rs_queued r = rs_queued (sm_all m j)" "rs_cancelled r = rs_cancelled (sm_all m j)"
    "rs_terminal r = rs_terminal (sm_all m j)" "rs_running r = rs_running (sm_all m j)"
    using runNextManaged_simps(1-4) [of script "setEndManaged (sm_all m j)"] by (simp_all add: r)
  show ?thesis
    by (rule owner_sched [OF ok, where j = j and c = False])
      (auto simp: sched_defs SCancel r f split: sum.splits bool.splits intro!: local_same)
next
  case (SEnqueue j p)
  have "\<not> refusesState j m" using held [OF SEnqueue] by (simp add: refusesState_def)
  then show ?thesis
    by (intro owner_sched [OF ok, where j = j and c = False]) (auto simp: sched_defs SEnqueue intro!: local_same)
next
  case (SPost j p)
  show ?thesis
    by (rule owner_sched [OF ok, where j = j and c = "\<not> postThrows p False throws"])
      (auto simp: sched_defs SPost intro!: local_same)
next
  case (SUndo j)
  show ?thesis
    by (rule owner_sched [OF ok, where j = j and c = False]) (auto simp: sched_defs SUndo intro!: local_same)
next
  case (SReset j)
  obtain r now where r: "resetQueued (sm_all m j) = (r, now)" by fastforce
  show ?thesis
    by (rule owner_sched [OF ok, where j = j and c = False])
      (use local_reset [OF r] in \<open>auto simp: sched_defs SReset r\<close>)
next
  case (SPublish j t release)
  obtain r h where r: "complete t (sm_all m j) = (r, h)" by fastforce
  show ?thesis
    by (rule owner_sched [OF ok, where j = j and c = False])
      (use local_complete [OF r] local_cancelled [OF r] in \<open>auto simp: sched_defs SPublish r split: option.splits\<close>)
next
  case (SHook j t release)
  show ?thesis
    by (rule owner_sched [OF ok, where j = j and c = False]) (auto simp: sched_defs SHook intro!: local_same)
next
  case (SRelease j)
  show ?thesis
    by (rule owner_sched [OF ok, where j = j and c = False]) (auto simp: sched_defs SRelease intro!: local_same)
qed (use ok in \<open>simp add: schedStep_def\<close>)

lemma owner_call:
  assumes ok: "\<forall>i. owner_ok m i"
  shows "\<forall>i. owner_ok (newCall c m) i"
proof (cases c)
  case (CallConfigure j cf)
  have "owners (newCall c m) i = owners m i" "publishers (newCall c m) i = publishers m i" for i
    by (simp_all add: newCall_def CallConfigure owners_def publishers_def)
  moreover have "owner_rel n p (sm_all (newCall c m) i) = owner_rel n p (sm_all m i)" for n p i
    by (simp add: newCall_def CallConfigure owner_rel_def configure_def Let_def)
  ultimately show ?thesis using ok by (simp add: owner_ok_def)
qed (use ok in \<open>simp_all add: newCall_def owner_ok_def owners_def publishers_def\<close>)

section \<open>Retention\<close>

fun schedHolds :: "spc \<Rightarrow> nat \<Rightarrow> bool" where
  "schedHolds (SBegin i p) j = (i = j)"
| "schedHolds (SStarted i p) j = (i = j)"
| "schedHolds (SRun i p) j = (i = j)"
| "schedHolds (SCancel i) j = (i = j)"
| "schedHolds (SEnqueue i p) j = (i = j)"
| "schedHolds (SPost i p) j = (i = j)"
| "schedHolds (SPublish i t release) j = (release \<and> i = j)"
| "schedHolds (SAborted i) j = (i = j)"
| "schedHolds pc j = False"

fun callHolds :: "kpc \<Rightarrow> nat \<Rightarrow> bool" where
  "callHolds (KPost i p d) j = (i = j)"
| "callHolds c j = False"

fun schedEnds :: "spc \<Rightarrow> nat \<Rightarrow> bool" where
  "schedEnds (SHook i t release) j = (i = j)"
| "schedEnds (SRelease i) j = (i = j)"
| "schedEnds pc j = False"

text \<open>A state that a job, the asynchronous thread or a submission works on is retained.\<close>

definition inUse :: "rsm \<Rightarrow> nat \<Rightarrow> bool" where
  "inUse m i \<longleftrightarrow> (\<exists>p d. (i, p, d) \<in> set (sm_jobs m)) \<or> schedHolds (sm_worker m) i \<or> (\<exists>c\<in>set (sm_calls m). callHolds c i)"

definition retain_ok :: "rsm \<Rightarrow> nat \<Rightarrow> bool" where
  "retain_ok m i \<longleftrightarrow> (inUse m i \<longrightarrow> i \<in> set (sm_pending m)) \<and> (schedEnds (sm_worker m) i \<longrightarrow> rs_terminal (sm_all m i))"

lemma schedHolds_owns: "schedHolds pc i \<Longrightarrow> schedOwns pc i"
  by (cases pc) auto

lemma callHolds_owns: "callHolds c i \<Longrightarrow> callOwns c i"
  by (cases c) auto

lemma inUse_owned: "inUse m i \<Longrightarrow> 0 < owners m i"
proof -
  assume u: "inUse m i"
  have "filter (\<lambda>(j, p, d). j = i) (sm_jobs m) \<noteq> []" if "(i, p, d) \<in> set (sm_jobs m)" for p d
    using that by (auto simp: filter_empty_conv)
  moreover have "filter (\<lambda>c. callOwns c i) (sm_calls m) \<noteq> []" if "c \<in> set (sm_calls m)" "callHolds c i" for c
    using that callHolds_owns by (auto simp: filter_empty_conv)
  ultimately show ?thesis using u schedHolds_owns unfolding inUse_def owners_def by fastforce
qed

lemma callHolds_afterCancel [simp]: "\<not> callHolds (afterCancel todo all a) i"
  by (cases "(todo, all, a)" rule: afterCancel.cases) simp_all

text \<open>The holders after a step of a client: those before it and what the stepping thread turned into.\<close>

lemma inUse_client:
  assumes "sm_calls m' = (sm_calls m)[k := x]" "sm_worker m' = sm_worker m" "sm_jobs m' = sm_jobs m @ js" and "inUse m' i"
  shows "inUse m i \<or> callHolds x i \<or> (\<exists>p d. (i, p, d) \<in> set js)"
  using assms set_update_subset_insert [of "sm_calls m" k x] unfolding inUse_def by auto

lemma inUse_sched:
  assumes "sm_calls m' = sm_calls m" "sm_jobs m' = sm_jobs m @ js" and "inUse m' i"
  shows "inUse m i \<or> schedHolds (sm_worker m') i \<or> (\<exists>p d. (i, p, d) \<in> set js)"
  using assms unfolding inUse_def by auto

lemma not_inUse_call:
  assumes k: "k < length (sm_calls m)" and c: "callOwns (sm_calls m ! k) i" "\<not> callHolds (sm_calls m ! k) i" and one: "owners m i \<le> 1"
  shows "\<not> inUse m i"
proof
  assume u: "inUse m i"
  let ?m = "toClient k (KDone None) m"
  have "inUse ?m i"
  proof -
    have "\<exists>c\<in>set ((sm_calls m)[k := KDone None]). callHolds c i" if "x \<in> set (sm_calls m)" "callHolds x i" for x
    proof -
      from that(1) obtain l where l: "l < length (sm_calls m)" "sm_calls m ! l = x" by (meson in_set_conv_nth)
      then have "l \<noteq> k" using that(2) c(2) by auto
      then have "(sm_calls m)[k := KDone None] ! l = x" using l by simp
      then show ?thesis using l(1) that(2) by (metis length_list_update nth_mem)
    qed
    then show ?thesis using u unfolding inUse_def by auto
  qed
  then have "0 < owners ?m i" by (rule inUse_owned)
  moreover have "owners ?m i + 1 = owners m i"
    using owners_client [OF k, of ?m "KDone None" "[]" i] c(1) by simp
  ultimately show False using one by simp
qed

lemma not_inUse_sched:
  assumes s: "schedOwns (sm_worker m) i" "\<not> schedHolds (sm_worker m) i" and one: "owners m i \<le> 1"
  shows "\<not> inUse m i"
proof
  assume u: "inUse m i"
  then have "inUse (toSched SIdle m) i" using s(2) by (simp add: inUse_def)
  then have "0 < owners (toSched SIdle m) i" by (rule inUse_owned)
  moreover have "owners (toSched SIdle m) i + 1 = owners m i"
    using owners_sched [of "toSched SIdle m" m "[]" i] s(1) by simp
  ultimately show False using one by simp
qed

lemma owners_le: "owner_ok m i \<Longrightarrow> owners m i \<le> 1"
  unfolding owner_ok_def owner_rel_def by (cases "rs_queued (sm_all m i)") simp_all

text \<open>A step keeps the retention of a state that it neither releases nor takes into use.\<close>

lemma retain_client:
  assumes ok: "retain_ok m i" and m': "sm_calls m' = (sm_calls m)[k := x]" "sm_worker m' = sm_worker m" "sm_jobs m' = sm_jobs m @ js"
    and pend: "i \<in> set (sm_pending m) \<Longrightarrow> i \<in> set (sm_pending m') \<or> \<not> inUse m i"
    and new: "callHolds x i \<or> (\<exists>p d. (i, p, d) \<in> set js) \<Longrightarrow> i \<in> set (sm_pending m')"
    and mono: "rs_terminal (sm_all m i) \<Longrightarrow> rs_terminal (sm_all m' i)"
  shows "retain_ok m' i"
  using ok inUse_client [OF m'] pend new mono m'(2) unfolding retain_ok_def by auto

lemma retain_sched:
  assumes ok: "retain_ok m i" and m': "sm_calls m' = sm_calls m" "sm_jobs m' = sm_jobs m @ js"
    and pend: "i \<in> set (sm_pending m) \<Longrightarrow> i \<in> set (sm_pending m') \<or> \<not> inUse m i"
    and new: "schedHolds (sm_worker m') i \<or> (\<exists>p d. (i, p, d) \<in> set js) \<Longrightarrow> i \<in> set (sm_pending m')"
    and ends: "schedEnds (sm_worker m') i \<Longrightarrow> rs_terminal (sm_all m' i)"
  shows "retain_ok m' i"
  using ok inUse_sched [OF m'] pend new ends unfolding retain_ok_def by auto

lemma terminal_stable:
  "resetQueued r = (r', b) \<Longrightarrow> rs_terminal r' = rs_terminal r" "cancelState r = (r', b) \<Longrightarrow> rs_terminal r' = rs_terminal r"
  by (auto simp: resetQueued_def cancelState_def split: if_splits)

lemma inUse_callI: "k < length (sm_calls m) \<Longrightarrow> callHolds (sm_calls m ! k) i \<Longrightarrow> inUse m i"
  unfolding inUse_def by (meson nth_mem)

lemma retain_client_step:
  assumes own: "\<forall>i. owner_ok m i" and ok: "\<forall>i. retain_ok m i" and k: "k < length (sm_calls m)"
  shows "\<forall>i. retain_ok (clientStep k throws m) i"
proof
  fix i
  note rule = retain_client [OF ok [rule_format], where k = k]
  have use: "inUse m i \<Longrightarrow> i \<in> set (sm_pending m)" using ok by (simp add: retain_ok_def)
  show "retain_ok (clientStep k throws m) i"
  proof (cases "sm_calls m ! k")
    case (KRun j p d)
    then show ?thesis
      by (intro rule [where js = "[]" and x = "if rs_terminal (sm_all m j) \<or> rs_cancelled (sm_all m j) \<or> rs_queued (sm_all m j)
            then KDone (Some False) else KEnqueue j p d"]) (auto simp: client_defs split: if_splits)
  next
    case (KEnqueue j p d)
    then show ?thesis by (intro rule [where js = "[]" and x = "if refusesState j m then KReset j (Some False) else KPost j p d"])
        (auto simp: client_defs split: if_splits)
  next
    case (KPost j p d)
    then have "j \<in> set (sm_pending m)" using ok inUse_callI [OF k, of j] by (simp add: retain_ok_def)
    with KPost show ?thesis
      by (intro rule [where js = "if postThrows p d throws then [] else [(j, p, d)]" and x = "if postThrows p d throws then KUndo j else KDone (Some True)"])
        (auto simp: client_defs split: if_splits)
  next
    case (KUndo j)
    have "\<not> inUse m j" using not_inUse_call [OF k _ _ owners_le] own KUndo by simp
    with KUndo show ?thesis by (intro rule [where js = "[]" and x = "KReset j None"]) (auto simp: client_defs)
  next
    case (KReset j a)
    obtain r now where r: "resetQueued (sm_all m j) = (r, now)" by fastforce
    then show ?thesis using KReset terminal_stable(1) [OF r]
      by (intro rule [where js = "[]" and x = "if now then KPublish j [] [] a else KDone a"]) (auto simp: client_defs split: if_splits)
  next
    case (KCancel j todo all)
    obtain r now where r: "cancelState (sm_all m j) = (r, now)" by fastforce
    then show ?thesis using KCancel terminal_stable(2) [OF r]
      by (intro rule [where js = "[]" and x = "if now then KPublish j todo all None else afterCancel todo all None"]) (auto simp: client_defs split: if_splits)
  next
    case (KPublish j todo all a)
    obtain r h where r: "complete TCancelled (sm_all m j) = (r, h)" by fastforce
    then show ?thesis using KPublish complete_simps [OF r]
      by (intro rule [where js = "[]" and x = "case h of Some t \<Rightarrow> KHook j t todo all a | None \<Rightarrow> afterCancel todo all a"])
        (auto simp: client_defs split: option.splits)
  next
    case (KHook j t todo all a)
    then show ?thesis by (intro rule [where js = "[]" and x = "afterCancel todo all a"]) (auto simp: client_defs)
  next
    case KShutdown
    then show ?thesis by (intro rule [where js = "[]" and x = "afterCancel (sm_pending m) (sm_pending m) None"]) (auto simp: client_defs)
  next
    case (KWait all)
    show ?thesis
    proof (cases all)
      case (Cons j rest)
      show ?thesis
      proof (cases "rs_terminal (sm_all m j)")
        case True
        then show ?thesis using KWait Cons
          by (intro rule [where js = "[]" and x = "if rest = [] then KDone None else KWait rest"]) (auto simp: client_defs split: if_splits)
      qed (use ok in \<open>simp add: client_defs KWait Cons\<close>)
    qed (use ok in \<open>simp add: client_defs KWait\<close>)
  qed (use ok in \<open>simp add: client_defs\<close>)
qed

lemma retain_sched_step:
  assumes own: "\<forall>i. owner_ok m i" and ok: "\<forall>i. retain_ok m i"
  shows "\<forall>i. retain_ok (schedStep script throws pick m) i"
proof
  fix i
  note rule = retain_sched [OF ok [rule_format]]
  have holds: "schedHolds (sm_worker m) i \<Longrightarrow> i \<in> set (sm_pending m)" for i using ok by (simp add: retain_ok_def inUse_def)
  have ends: "schedEnds (sm_worker m) i \<Longrightarrow> rs_terminal (sm_all m i)" for i using ok by (simp add: retain_ok_def)
  show "retain_ok (schedStep script throws pick m) i"
  proof (cases "sm_worker m")
    case SIdle
    show ?thesis
    proof (cases "pick < length (sm_jobs m) \<and> runnable (sm_jobs m ! pick)")
      case True
      obtain j p d where j: "sm_jobs m ! pick = (j, p, d)" by (cases "sm_jobs m ! pick")
      have sub: "set (take pick (sm_jobs m) @ drop (Suc pick) (sm_jobs m)) \<subseteq> set (sm_jobs m)"
        using set_take_subset [of pick "sm_jobs m"] set_drop_subset [of "Suc pick" "sm_jobs m"] by auto
      have "(j, p, d) \<in> set (sm_jobs m)" using True j nth_mem by metis
      then have u: "inUse m j" by (auto simp: inUse_def)
      have "inUse (startJob pick m) i \<longrightarrow> inUse m i"
        using True sub u by (auto simp: startJob_def j inUse_def)
      then show ?thesis using True ok [rule_format, of i] by (auto simp: SIdle schedStep_def startJob_def j retain_ok_def)
    next
      case False
      have "startJob pick m = m" unfolding startJob_def if_not_P [OF False] ..
      then show ?thesis using ok [rule_format, of i] SIdle by (simp add: schedStep_def)
    qed
  next
    case (SBegin j p)
    obtain r b where r: "beginStep (sm_all m j) = (r, b)" by fastforce
    show ?thesis using holds [of i] SBegin
      by (intro rule [where js = "[]"]) (auto simp: sched_defs r split: option.splits if_splits)
  next
    case (SStarted j p)
    then show ?thesis using holds [of i]
      by (intro rule [where js = "[]"]) (auto simp: sched_defs split: if_splits)
  next
    case (SRun j p)
    obtain r a where r: "runNextManaged script (sm_all m j) = (r, a)" by fastforce
    show ?thesis using holds [of i] SRun
      by (intro rule [where js = "[]"]) (auto simp: sched_defs r split: sum.splits bool.splits if_splits)
  next
    case (SCancel j)
    obtain r a where r: "runNextManaged script (setEndManaged (sm_all m j)) = (r, a)" by fastforce
    show ?thesis using holds [of i] SCancel
      by (intro rule [where js = "[]"]) (auto simp: sched_defs r split: sum.splits bool.splits if_splits)
  next
    case (SEnqueue j p)
    then have "\<not> refusesState j m" using holds [of j] by (simp add: refusesState_def)
    then show ?thesis using SEnqueue
      by (intro rule [where js = "[]"]) (auto simp: sched_defs)
  next
    case (SPost j p)
    then show ?thesis using holds [of j]
      by (intro rule [where js = "if postThrows p False throws then [] else [(j, p, False)]"])
        (auto simp: sched_defs split: if_splits)
  next
    case (SUndo j)
    have "\<not> inUse m j" using not_inUse_sched [OF _ _ owners_le] own SUndo by simp
    then show ?thesis using SUndo by (intro rule [where js = "[]"]) (auto simp: sched_defs)
  next
    case (SReset j)
    obtain r now where r: "resetQueued (sm_all m j) = (r, now)" by fastforce
    show ?thesis using SReset terminal_stable(1) [OF r]
      by (intro rule [where js = "[]"]) (auto simp: sched_defs r split: if_splits)
  next
    case (SPublish j t release)
    obtain r h where r: "complete t (sm_all m j) = (r, h)" by fastforce
    show ?thesis using SPublish complete_simps [OF r]
      by (intro rule [where js = "[]"]) (auto simp: sched_defs r split: option.splits if_splits)
  next
    case (SHook j t release)
    then show ?thesis using ends [of i]
      by (intro rule [where js = "[]"]) (auto simp: sched_defs split: if_splits)
  next
    case (SRelease j)
    have "rs_terminal (sm_all m j)" using ends [of j] SRelease by simp
    then have "owners m j = 0" using own by (auto simp: owner_ok_def owner_rel_def)
    then have "\<not> inUse m j" using inUse_owned by fastforce
    then show ?thesis using SRelease by (intro rule [where js = "[]"]) (auto simp: sched_defs)
  next
    case (SAborted j)
    then show ?thesis using ok by (simp add: schedStep_def)
  qed
qed

lemma retain_call:
  assumes ok: "\<forall>i. retain_ok m i"
  shows "\<forall>i. retain_ok (newCall c m) i"
proof
  fix i
  have "inUse (newCall c m) i = inUse m i" by (cases c) (auto simp: newCall_def inUse_def)
  then show "retain_ok (newCall c m) i"
    using ok [rule_format, of i] by (cases c) (auto simp: retain_ok_def newCall_def configure_def Let_def)
qed

definition owners_ok :: "rsm \<Rightarrow> bool" where
  "owners_ok m \<longleftrightarrow> (\<forall>i. owner_ok m i) \<and> (\<forall>i. retain_ok m i)"

lemma owners_ok_init: "rs_init m \<Longrightarrow> owners_ok m"
  by (simp add: rs_init_def newManager_def owners_ok_def owner_ok_def owner_rel_def owners_def publishers_def
    newRuntimeState_def retain_ok_def inUse_def)

lemma owners_ok_step: "rs_step m m' \<Longrightarrow> owners_ok m \<Longrightarrow> owners_ok m'"
proof (induction rule: rs_step.induct)
  case (rs_sched m script throws pick)
  then have "i \<in> set (sm_pending m)" if "sm_worker m = SEnqueue i p" for i p
    using that by (simp add: owners_ok_def retain_ok_def inUse_def)
  then show ?case
    using rs_sched owner_sched_step [of m script throws pick] retain_sched_step [of m script throws pick] by (simp add: owners_ok_def)
next
  case (rs_client k m throws)
  then show ?case
    using owner_client_step [of m k throws] retain_client_step [of m k throws] by (simp add: owners_ok_def)
next
  case (rs_call m c)
  then show ?case using owner_call [of m c] retain_call [of m c] by (simp add: owners_ok_def)
qed

interpretation owned: invariant_system rs_init rs_step owners_ok
  by unfold_locales (auto intro: owners_ok_init owners_ok_step)

end
