(* ===== verification/RuntimeStateLog.thy ===== *)
theory RuntimeStateLog
  imports RuntimeStateProps
begin

text \<open>
  What a runtime-managed state does in the course of its life: at most one start, then callbacks, then
  one outcome and its hook; and the properties of the component.
\<close>

section \<open>The log of a state\<close>

fun schedHook :: "spc \<Rightarrow> nat \<Rightarrow> terminal_state \<Rightarrow> bool" where
  "schedHook (SHook i t release) j u = (i = j \<and> u = t)"
| "schedHook pc j u = False"

fun callHook :: "kpc \<Rightarrow> nat \<Rightarrow> terminal_state \<Rightarrow> bool" where
  "callHook (KHook i t todo all a) j u = (i = j \<and> u = t)"
| "callHook c j u = False"

fun schedStarts :: "spc \<Rightarrow> nat \<Rightarrow> bool" where
  "schedStarts (SStarted i p) j = (i = j)"
| "schedStarts pc j = False"

fun schedRuns :: "spc \<Rightarrow> nat \<Rightarrow> bool" where
  "schedRuns (SStarted i p) j = (i = j)"
| "schedRuns (SRun i p) j = (i = j)"
| "schedRuns pc j = False"

definition hookers :: "rsm \<Rightarrow> nat \<Rightarrow> terminal_state \<Rightarrow> nat" where
  "hookers m i t = of_bool (schedHook (sm_worker m) i t) + length (filter (\<lambda>c. callHook c i t) (sm_calls m))"

definition started_log :: "sevent list \<Rightarrow> bool" where
  "started_log l \<longleftrightarrow> l = [] \<or> (\<exists>fs. l = HookStarted # map Callback fs)"

definition outcome_flags :: "terminal_state \<Rightarrow> rstate \<Rightarrow> bool" where
  "outcome_flags t r \<longleftrightarrow> (rs_completed r \<longleftrightarrow> t = TCompleted) \<and> (rs_failed r \<longleftrightarrow> t = TFailed) \<and>
     (t = TCompleted \<longrightarrow> \<not> rs_cancelled r) \<and> (t = TCancelled \<longrightarrow> rs_cancelled r)"

text \<open>The whole life of a state, with the outcome that its promise carries.\<close>

definition lifecycle :: "rstate \<Rightarrow> bool" where
  "lifecycle r \<longleftrightarrow>
     (if rs_terminal r
      then \<exists>pre t. started_log pre \<and> rs_log r \<in> {pre @ [Published t], pre @ [Published t, HookTerminal t]} \<and> outcome_flags t r
      else started_log (rs_log r) \<and> \<not> rs_completed r \<and> \<not> rs_failed r)"

definition ends_with :: "sevent list \<Rightarrow> terminal_state \<Rightarrow> bool" where
  "ends_with l t \<longleftrightarrow> l \<noteq> [] \<and> last l = Published t"

definition log_rel :: "(terminal_state \<Rightarrow> nat) \<Rightarrow> bool \<Rightarrow> rstate \<Rightarrow> bool" where
  "log_rel h starts r \<longleftrightarrow> lifecycle r \<and> (\<forall>t. h t = of_bool (ends_with (rs_log r) t)) \<and>
     (rs_terminal r \<or> (rs_log r = [] \<longleftrightarrow> \<not> rs_started r \<or> starts))"

definition log_ok :: "rsm \<Rightarrow> nat \<Rightarrow> bool" where
  "log_ok m i \<longleftrightarrow> log_rel (hookers m i) (schedStarts (sm_worker m) i) (sm_all m i) \<and>
     (schedRuns (sm_worker m) i \<longrightarrow> rs_started (sm_all m i)) \<and>
     machine_ok (rs_machine (sm_all m i)) \<and> \<not> sm_running (rs_machine (sm_all m i))"

lemma started_log_ends [simp]: "started_log l \<Longrightarrow> \<not> ends_with l t"
  by (auto simp: started_log_def ends_with_def last_map split: if_splits)

lemma ends_with_append [simp]: "ends_with (l @ [e]) t \<longleftrightarrow> e = Published t" "ends_with (l @ [d, e]) t \<longleftrightarrow> e = Published t"
  by (simp_all add: ends_with_def)

lemma log_rel_keep:
  assumes "log_rel h starts r" "rs_log r' = rs_log r" "rs_terminal r' = rs_terminal r" "rs_started r' = rs_started r"
    "rs_completed r' = rs_completed r" "rs_failed r' = rs_failed r" "rs_terminal r \<longrightarrow> rs_cancelled r' = rs_cancelled r"
  shows "log_rel h starts r'"
  using assms by (cases "rs_terminal r") (auto simp: log_rel_def lifecycle_def outcome_flags_def)

lemma log_rel_publish:
  assumes r: "log_rel h starts r" and t: "\<not> rs_terminal r" "complete t r = (r', Some u)" and h: "\<forall>v. h' v = h v + of_bool (v = u)"
  shows "log_rel h' starts' r'"
proof -
  have l: "started_log (rs_log r)" "\<not> rs_completed r" "\<not> rs_failed r" "\<forall>v. h v = 0"
    using r t(1) by (auto simp: log_rel_def lifecycle_def)
  have e: "rs_log r' = rs_log r @ [Published u]" "rs_terminal r'" "outcome_flags u r'"
    using t l by (auto simp: complete_def Let_def outcome_flags_def split: if_splits terminal_state.splits)
  show ?thesis using l e h by (auto simp: log_rel_def lifecycle_def)
qed

lemma log_rel_hook:
  assumes r: "log_rel h starts r" and h: "0 < h t" "\<forall>v. h' v + of_bool (v = t) = h v"
  shows "log_rel h' starts' (addEvent (HookTerminal t) r)"
proof -
  have e: "ends_with (rs_log r) t" using r h(1) by (cases "ends_with (rs_log r) t") (auto simp: log_rel_def)
  have tm: "rs_terminal r"
  proof (rule ccontr)
    assume "\<not> rs_terminal r"
    then have "started_log (rs_log r)" using r by (simp add: log_rel_def lifecycle_def)
    then show False using e by simp
  qed
  then obtain pre u where pre: "started_log pre" "rs_log r \<in> {pre @ [Published u], pre @ [Published u, HookTerminal u]}" "outcome_flags u r"
    using r unfolding log_rel_def lifecycle_def by auto
  have l: "rs_log r = pre @ [Published t]" "u = t"
    using pre(2) e by (auto simp: ends_with_def)
  have z: "h' v = 0" for v
  proof -
    have "h v = of_bool (v = t)" using r l(1) by (auto simp: log_rel_def)
    then show ?thesis using h(2) [rule_format, of v] by simp
  qed
  show ?thesis using tm pre(1,3) l z
    by (auto simp: log_rel_def lifecycle_def outcome_flags_def)
qed

lemma hookers_client:
  "k < length (sm_calls m) \<Longrightarrow> sm_calls m' = (sm_calls m)[k := x] \<Longrightarrow> sm_worker m' = sm_worker m \<Longrightarrow>
    hookers m' i t + of_bool (callHook (sm_calls m ! k) i t) = hookers m i t + of_bool (callHook x i t)"
  using length_filter_pos [of k "sm_calls m" "\<lambda>c. callHook c i t"]
  by (cases "callHook (sm_calls m ! k) i t") (simp_all add: hookers_def length_filter_update)

lemma hookers_sched:
  "sm_calls m' = sm_calls m \<Longrightarrow>
    hookers m' i t + of_bool (schedHook (sm_worker m) i t) = hookers m i t + of_bool (schedHook (sm_worker m') i t)"
  by (simp add: hookers_def)

lemma callHook_afterCancel [simp]: "\<not> callHook (afterCancel todo all a) i t"
  by (cases "(todo, all, a)" rule: afterCancel.cases) simp_all

lemma log_keep:
  assumes ok: "log_ok m i" and m': "\<forall>t. hookers m' i t = hookers m i t"
    and w: "schedStarts (sm_worker m') i = schedStarts (sm_worker m) i" "schedRuns (sm_worker m') i \<longrightarrow> schedRuns (sm_worker m) i"
    and r: "rs_log (sm_all m' i) = rs_log (sm_all m i)" "rs_terminal (sm_all m' i) = rs_terminal (sm_all m i)"
      "rs_started (sm_all m' i) = rs_started (sm_all m i)" "rs_completed (sm_all m' i) = rs_completed (sm_all m i)"
      "rs_failed (sm_all m' i) = rs_failed (sm_all m i)"
      "rs_terminal (sm_all m i) \<longrightarrow> rs_cancelled (sm_all m' i) = rs_cancelled (sm_all m i)"
    and mach: "rs_machine (sm_all m' i) = rs_machine (sm_all m i)"
  shows "log_ok m' i"
proof -
  have h: "hookers m' i = hookers m i" using m' by blast
  show ?thesis
    using ok w r(3) mach log_rel_keep [OF _ r] unfolding log_ok_def h by auto
qed

lemma log_client:
  assumes ok: "\<forall>i. log_ok m i" and k: "k < length (sm_calls m)"
    and m': "sm_calls m' = (sm_calls m)[k := x]" "sm_worker m' = sm_worker m"
    and none: "\<And>i t. callHook (sm_calls m ! k) i t = callHook x i t"
    and r: "\<And>i. rs_log (sm_all m' i) = rs_log (sm_all m i) \<and> rs_terminal (sm_all m' i) = rs_terminal (sm_all m i) \<and>
      rs_started (sm_all m' i) = rs_started (sm_all m i) \<and> rs_completed (sm_all m' i) = rs_completed (sm_all m i) \<and>
      rs_failed (sm_all m' i) = rs_failed (sm_all m i) \<and> rs_machine (sm_all m' i) = rs_machine (sm_all m i) \<and>
      (rs_terminal (sm_all m i) \<longrightarrow> rs_cancelled (sm_all m' i) = rs_cancelled (sm_all m i))"
  shows "\<forall>i. log_ok m' i"
proof
  fix i
  have "\<forall>t. hookers m' i t = hookers m i t" using hookers_client [OF k m', of i] none by simp
  then show "log_ok m' i" using ok [rule_format, of i] r [of i] m'(2) by (intro log_keep [of m i m']) simp_all
qed

lemma complete_other:
  "complete t r = (r', h) \<Longrightarrow> rs_machine r' = rs_machine r \<and> rs_started r' = rs_started r \<and>
    (h = None \<longleftrightarrow> rs_terminal r) \<and> (rs_terminal r \<longrightarrow> r' = r)"
  by (auto simp: complete_def Let_def split: if_splits terminal_state.splits)

lemma log_publish_client:
  assumes ok: "\<forall>i. log_ok m i" and k: "k < length (sm_calls m)" and pc: "sm_calls m ! k = KPublish j todo all a"
  shows "\<forall>i. log_ok (clientStep k throws m) i"
proof -
  obtain r h where r: "complete TCancelled (sm_all m j) = (r, h)" by fastforce
  let ?x = "case h of Some t \<Rightarrow> KHook j t todo all a | None \<Rightarrow> afterCancel todo all a"
  have e: "clientStep k throws m = toClient k ?x (onState j (\<lambda>_. r) m)" by (simp add: client_defs pc r)
  show ?thesis
  proof (cases h)
    case None
    then have "r = sm_all m j" using complete_other [OF r] by simp
    then show ?thesis unfolding e using None pc
      by (intro log_client [OF ok k, where x = ?x]) auto
  next
    case (Some u)
    show ?thesis
    proof
      fix i
      have hk: "hookers (clientStep k throws m) i v = hookers m i v + of_bool (i = j \<and> v = u)" for v
        using hookers_client [OF k, of "clientStep k throws m" ?x i v] pc by (auto simp: e Some)
      show "log_ok (clientStep k throws m) i"
      proof (cases "i = j")
        case True
        have nt: "\<not> rs_terminal (sm_all m j)" using complete_other [OF r] Some by simp
        have "log_rel (hookers (clientStep k throws m) j) (schedStarts (sm_worker m) j) r"
        proof (rule log_rel_publish [OF _ nt r [unfolded Some]])
          show "log_rel (hookers m j) (schedStarts (sm_worker m) j) (sm_all m j)"
            using ok [rule_format, of j] by (simp add: log_ok_def)
          show "\<forall>v. hookers (clientStep k throws m) j v = hookers m j v + of_bool (v = u)"
            using hk True by simp
        qed
        then show ?thesis using True ok [rule_format, of j] complete_other [OF r] by (simp add: log_ok_def e)
      next
        case False
        show ?thesis
          by (rule log_keep [OF ok [rule_format]]) (use hk False in \<open>simp_all add: e\<close>)
      qed
    qed
  qed
qed

lemma log_hook_client:
  assumes ok: "\<forall>i. log_ok m i" and k: "k < length (sm_calls m)" and pc: "sm_calls m ! k = KHook j u todo all a"
  shows "\<forall>i. log_ok (clientStep k throws m) i"
proof
  fix i
  let ?m = "clientStep k throws m"
  have e: "?m = toClient k (afterCancel todo all a) (onState j (addEvent (HookTerminal u)) m)" by (simp add: client_defs pc)
  have hk: "hookers ?m i v + of_bool (i = j \<and> v = u) = hookers m i v" for v
    using hookers_client [OF k, of ?m "afterCancel todo all a" i v] pc by (auto simp: e)
  show "log_ok ?m i"
  proof (cases "i = j")
    case True
    have hj: "\<forall>v. hookers ?m j v + of_bool (v = u) = hookers m j v" using hk unfolding True by simp
    then have "hookers ?m j u + 1 = hookers m j u" by (metis of_bool_eq(2))
    then have pos: "0 < hookers m j u" by linarith
    have "log_rel (hookers ?m j) (schedStarts (sm_worker m) j) (addEvent (HookTerminal u) (sm_all m j))"
    proof (rule log_rel_hook [OF _ pos hj])
      show "log_rel (hookers m j) (schedStarts (sm_worker m) j) (sm_all m j)"
        using ok [rule_format, of j] by (simp add: log_ok_def)
    qed
    then show ?thesis using True ok [rule_format, of j] by (simp add: log_ok_def e)
  next
    case False
    show ?thesis by (rule log_keep [OF ok [rule_format]]) (use hk False in \<open>simp_all add: e\<close>)
  qed
qed

lemma log_client_step:
  assumes ok: "\<forall>i. log_ok m i" and k: "k < length (sm_calls m)"
  shows "\<forall>i. log_ok (clientStep k throws m) i"
proof (cases "sm_calls m ! k")
  case (KRun j p d)
  then show ?thesis
    by (intro log_client [OF ok k, where x = "if rs_terminal (sm_all m j) \<or> rs_cancelled (sm_all m j) \<or> rs_queued (sm_all m j)
          then KDone (Some False) else KEnqueue j p d"]) (auto simp: client_defs)
next
  case (KEnqueue j p d)
  then show ?thesis
    by (intro log_client [OF ok k, where x = "if refusesState j m then KReset j (Some False) else KPost j p d"])
      (auto simp: client_defs)
next
  case (KPost j p d)
  then show ?thesis
    by (intro log_client [OF ok k, where x = "if postThrows p d throws then KUndo j else KDone (Some True)"])
      (auto simp: client_defs)
next
  case (KUndo j)
  then show ?thesis by (intro log_client [OF ok k, where x = "KReset j None"]) (auto simp: client_defs)
next
  case (KReset j a)
  obtain r now where r: "resetQueued (sm_all m j) = (r, now)" by fastforce
  have "r = (sm_all m j)\<lparr>rs_queued := False\<rparr>" using r by (simp add: resetQueued_def)
  then show ?thesis using r KReset
    by (intro log_client [OF ok k, where x = "if now then KPublish j [] [] a else KDone a"]) (auto simp: client_defs)
next
  case (KCancel j todo all)
  obtain r now where r: "cancelState (sm_all m j) = (r, now)" by fastforce
  have "r = sm_all m j \<or> r = (sm_all m j)\<lparr>rs_cancelled := True\<rparr> \<and> \<not> rs_terminal (sm_all m j)"
    using r by (auto simp: cancelState_def split: if_splits)
  then show ?thesis using r KCancel
    by (intro log_client [OF ok k, where x = "if now then KPublish j todo all None else afterCancel todo all None"])
      (auto simp: client_defs)
next
  case (KPublish j todo all a)
  then show ?thesis using log_publish_client [OF ok k] by simp
next
  case (KHook j t todo all a)
  then show ?thesis using log_hook_client [OF ok k] by simp
next
  case KShutdown
  then show ?thesis
    by (intro log_client [OF ok k, where x = "afterCancel (sm_pending m) (sm_pending m) None"]) (auto simp: client_defs)
next
  case (KWait all)
  show ?thesis
  proof (cases all)
    case (Cons j rest)
    show ?thesis
    proof (cases "rs_terminal (sm_all m j)")
      case True
      then show ?thesis using KWait Cons
        by (intro log_client [OF ok k, where x = "if rest = [] then KDone None else KWait rest"]) (auto simp: client_defs)
    qed (use ok in \<open>simp add: client_defs KWait Cons\<close>)
  qed (use ok in \<open>simp add: client_defs KWait\<close>)
qed (use ok in \<open>simp add: client_defs\<close>)

section \<open>The asynchronous thread\<close>

lemma log_sched:
  assumes ok: "\<forall>i. log_ok m i" and m': "sm_calls m' = sm_calls m" "\<forall>i. i \<noteq> j \<longrightarrow> sm_all m' i = sm_all m i"
    and other: "\<forall>i. i \<noteq> j \<longrightarrow> (\<forall>t. \<not> schedHook (sm_worker m) i t \<and> \<not> schedHook (sm_worker m') i t) \<and>
      \<not> schedStarts (sm_worker m) i \<and> \<not> schedStarts (sm_worker m') i \<and> \<not> schedRuns (sm_worker m') i"
    and loc: "log_ok m' j"
  shows "\<forall>i. log_ok m' i"
proof
  fix i
  show "log_ok m' i"
  proof (cases "i = j")
    case False
    have "\<forall>t. hookers m' i t = hookers m i t" using hookers_sched [OF m'(1), of i] other False by simp
    then show ?thesis
      by (rule log_keep [OF ok [rule_format]]) (use m'(2) other False in simp_all)
  qed (use loc in simp)
qed

lemma hookers_local:
  assumes "sm_calls m' = sm_calls m"
  shows "\<forall>t. \<not> schedHook (sm_worker m) j t \<and> \<not> schedHook (sm_worker m') j t \<Longrightarrow> hookers m' j = hookers m j"
  using hookers_sched [OF assms, of j] by (intro ext) simp

text \<open>A step that leaves the log alone.\<close>

lemma log_quiet:
  assumes ok: "\<forall>i. log_ok m i" and m': "sm_calls m' = sm_calls m" "sm_all m' = (sm_all m)(j := r)"
    and other: "\<forall>i. i \<noteq> j \<longrightarrow> \<not> schedRuns (sm_worker m') i" "\<forall>i t. \<not> schedHook (sm_worker m) i t \<and> \<not> schedHook (sm_worker m') i t"
    and starts: "\<forall>i. \<not> schedStarts (sm_worker m) i \<and> \<not> schedStarts (sm_worker m') i" "schedRuns (sm_worker m') j \<longrightarrow> schedRuns (sm_worker m) j"
    and r: "rs_log r = rs_log (sm_all m j)" "rs_terminal r = rs_terminal (sm_all m j)" "rs_started r = rs_started (sm_all m j)"
      "rs_completed r = rs_completed (sm_all m j)" "rs_failed r = rs_failed (sm_all m j)" "rs_cancelled r = rs_cancelled (sm_all m j)"
      "machine_ok (rs_machine r)" "\<not> sm_running (rs_machine r)"
  shows "\<forall>i. log_ok m' i"
proof (rule log_sched [OF ok m'(1), of j])
  have h: "hookers m' j = hookers m j" using other(2) by (intro hookers_local [OF m'(1)]) simp
  show "log_ok m' j"
    using ok [rule_format, of j] log_rel_keep [OF _ r(1-5)] r(3,6-8) starts m'(2) unfolding log_ok_def h by auto
qed (use m' other starts in auto)

lemma log_begin:
  assumes ok: "\<forall>i. log_ok m i" and pc: "sm_worker m = SBegin j p" and nt: "\<not> rs_terminal (sm_all m j)"
  shows "\<forall>i. log_ok (schedStep script throws pick m) i"
proof (cases "rs_cancelled (sm_all m j)")
  case True
  have b: "beginStep (sm_all m j) = (sm_all m j, None)" using True by (simp add: beginStep_def)
  show ?thesis
    using ok by (intro log_quiet [OF ok, where j = j and r = "sm_all m j"]) (simp_all add: sched_defs pc b log_ok_def onState_def)
next
  case False
  let ?r = "(sm_all m j)\<lparr>rs_running := True, rs_started := True\<rparr>" and ?m = "schedStep script throws pick m"
  have b: "beginStep (sm_all m j) = (?r, Some (\<not> rs_started (sm_all m j)))" using False nt by (simp add: beginStep_def)
  have w: "sm_worker ?m = (if \<not> rs_started (sm_all m j) then SStarted j p else SRun j p)" "sm_calls ?m = sm_calls m"
    "sm_all ?m = (sm_all m)(j := ?r)" by (simp_all add: sched_defs pc b)
  show ?thesis
  proof (rule log_sched [OF ok w(2), of j])
    have h: "hookers ?m j = hookers m j" by (intro hookers_local w(2)) (simp add: w(1) pc)
    show "log_ok ?m j"
      using ok [rule_format, of j] nt unfolding log_ok_def h
      by (auto simp: w pc log_rel_def lifecycle_def)
  qed (auto simp: w pc)
qed

lemma log_started:
  assumes ok: "\<forall>i. log_ok m i" and pc: "sm_worker m = SStarted j p" and nt: "\<not> rs_terminal (sm_all m j)"
  shows "\<forall>i. log_ok (schedStep script throws pick m) i"
proof -
  let ?r = "addEvent HookStarted (sm_all m j)" and ?m = "schedStep script throws pick m"
  have w: "sm_worker ?m = (if throws then SPublish j TFailed True else SRun j p)" "sm_calls ?m = sm_calls m"
    "sm_all ?m = (sm_all m)(j := ?r)" by (simp_all add: sched_defs pc)
  have l: "rs_log (sm_all m j) = []" "rs_started (sm_all m j)" "\<forall>t. hookers m j t = 0"
    using ok [rule_format, of j] nt by (auto simp: log_ok_def log_rel_def pc lifecycle_def)
  show ?thesis
  proof (rule log_sched [OF ok w(2), of j])
    have h: "hookers ?m j = hookers m j" by (intro hookers_local w(2)) (simp add: w(1) pc)
    show "log_ok ?m j"
      using ok [rule_format, of j] nt l unfolding log_ok_def h
      by (auto simp: w pc log_rel_def lifecycle_def started_log_def)
  qed (auto simp: w pc)
qed

lemma log_run:
  assumes ok: "\<forall>i. log_ok m i" and pc: "sm_worker m = SRun j p" and nt: "\<not> rs_terminal (sm_all m j)"
  shows "\<forall>i. log_ok (schedStep script throws pick m) i"
proof -
  let ?m = "schedStep script throws pick m" and ?s = "sm_all m j"
  obtain mach a where n: "runNext True script (rs_machine ?s) = (mach, a)" by fastforce
  obtain r where r: "runNextManaged script ?s = (r, a)" by (simp add: runNextManaged_def n)
  have k: "machine_ok mach \<and> \<not> sm_running mach"
    using runNext_keeps [of "rs_machine ?s" True script] ok by (simp add: n log_ok_def)
  have e: "r = ?s\<lparr>rs_machine := mach\<rparr> \<or> (\<exists>f. r = addEvent (Callback f) (?s\<lparr>rs_machine := mach\<rparr>))"
    using r by (auto simp: runNextManaged_def n split: option.splits)
  have w: "sm_worker ?m = (case a of Inl e \<Rightarrow> if e = Assertion then SAborted j else SPublish j TFailed True
      | Inr True \<Rightarrow> SEnqueue j p | Inr False \<Rightarrow> SPublish j TCompleted True)" "sm_calls ?m = sm_calls m"
    "sm_all ?m = (sm_all m)(j := r)" by (simp_all add: sched_defs pc r)
  have pcs: "\<not> schedHook (sm_worker ?m) i t \<and> \<not> schedStarts (sm_worker ?m) i \<and> \<not> schedRuns (sm_worker ?m) i" for i t
    by (auto simp: w(1) split: sum.splits bool.splits)
  have l: "rs_log ?s \<noteq> []" "started_log (rs_log ?s)" "\<not> rs_completed ?s" "\<not> rs_failed ?s" "rs_started ?s" "\<forall>t. hookers m j t = 0"
    using ok [rule_format, of j] nt by (auto simp: log_ok_def log_rel_def pc lifecycle_def)
  obtain fs where fs: "rs_log ?s = HookStarted # map Callback fs" using l(1,2) by (auto simp: started_log_def)
  have "started_log (HookStarted # map Callback fs @ [Callback f])" for f
    unfolding started_log_def by (intro disjI2 exI [of _ "fs @ [f]"]) simp
  then have sl: "started_log (rs_log r) \<and> rs_log r \<noteq> []" using e l(2) fs by auto
  show ?thesis
  proof (rule log_sched [OF ok w(2), of j])
    have h: "hookers ?m j = hookers m j" using pcs by (intro hookers_local w(2)) (simp add: pc)
    have "log_rel (hookers m j) False r"
      using e nt l sl by (auto simp: log_rel_def lifecycle_def)
    then show "log_ok ?m j" using pcs k e unfolding log_ok_def h by (auto simp: w(3))
  qed (use pcs in \<open>auto simp: w(3) pc\<close>)
qed

lemma log_cancel:
  assumes ok: "\<forall>i. log_ok m i" and pc: "sm_worker m = SCancel j"
  shows "\<forall>i. log_ok (schedStep script throws pick m) i"
proof -
  let ?m = "schedStep script throws pick m" and ?s = "setEndManaged (sm_all m j)"
  obtain mach a where n: "runNext True script (rs_machine ?s) = (mach, a)" by fastforce
  have k0: "machine_ok (rs_machine ?s)" "\<not> sm_running (rs_machine ?s)"
    using ok setEnd_ok [of "rs_machine (sm_all m j)" True] by (simp_all add: log_ok_def setEndManaged_def setEnd_def)
  have k: "machine_ok mach" "\<not> sm_running mach"
    using runNext_keeps [OF k0, of True script] by (simp_all add: n)
  have r: "runNextManaged script ?s = (?s\<lparr>rs_machine := mach\<rparr>, a)"
    using n by (simp add: runNextManaged_def invoked_def setEndManaged_def setEnd_def)
  have w: "sm_worker ?m = (case a of Inl e \<Rightarrow> if e = Assertion then SAborted j else SPublish j TFailed True
      | Inr b \<Rightarrow> SPublish j TCancelled True)" "sm_calls ?m = sm_calls m"
    "sm_all ?m = (sm_all m)(j := ?s\<lparr>rs_machine := mach\<rparr>)" by (simp_all add: sched_defs pc r)
  show ?thesis
    by (rule log_quiet [OF ok w(2,3)]) (auto simp: w(1) pc setEndManaged_def k split: sum.splits)
qed

lemma log_publish_sched:
  assumes ok: "\<forall>i. log_ok m i" and pc: "sm_worker m = SPublish j t release"
  shows "\<forall>i. log_ok (schedStep script throws pick m) i"
proof -
  let ?m = "schedStep script throws pick m" and ?s = "sm_all m j"
  obtain r h where r: "complete t ?s = (r, h)" by fastforce
  have w: "sm_worker ?m = (case h of Some u \<Rightarrow> SHook j u release | None \<Rightarrow> if release then SRelease j else SIdle)" "sm_calls ?m = sm_calls m"
    "sm_all ?m = (sm_all m)(j := r)" by (simp_all add: sched_defs pc r)
  have o: "machine_ok (rs_machine ?s)" "\<not> sm_running (rs_machine ?s)" using ok by (simp_all add: log_ok_def)
  show ?thesis
  proof (cases h)
    case None
    then have "r = ?s" using complete_other [OF r] by simp
    then show ?thesis using None o
      by (intro log_quiet [OF ok w(2), where j = j and r = r]) (simp_all add: w(1,3) pc)
  next
    case (Some u)
    show ?thesis
    proof (rule log_sched [OF ok w(2), of j])
      have nt: "\<not> rs_terminal ?s" using complete_other [OF r] Some by simp
      have hk: "\<forall>v. hookers ?m j v = hookers m j v + of_bool (v = u)"
        using hookers_sched [OF w(2), of j] by (simp add: w(1) pc Some)
      have "log_rel (hookers ?m j) False r"
      proof (rule log_rel_publish [OF _ nt r [unfolded Some] hk])
        show "log_rel (hookers m j) (schedStarts (sm_worker m) j) ?s" using ok by (simp add: log_ok_def)
      qed
      then show "log_ok ?m j" using o complete_other [OF r] by (simp add: log_ok_def w(1,3) Some)
    qed (auto simp: w(1,3) pc Some)
  qed
qed

lemma log_hook_sched:
  assumes ok: "\<forall>i. log_ok m i" and pc: "sm_worker m = SHook j u release"
  shows "\<forall>i. log_ok (schedStep script throws pick m) i"
proof -
  let ?m = "schedStep script throws pick m" and ?s = "sm_all m j"
  have w: "sm_worker ?m = (if release then SRelease j else SIdle)" "sm_calls ?m = sm_calls m"
    "sm_all ?m = (sm_all m)(j := addEvent (HookTerminal u) ?s)" by (simp_all add: sched_defs pc)
  have o: "machine_ok (rs_machine ?s)" "\<not> sm_running (rs_machine ?s)" using ok by (simp_all add: log_ok_def)
  show ?thesis
  proof (rule log_sched [OF ok w(2), of j])
    have hj: "\<forall>v. hookers ?m j v + of_bool (v = u) = hookers m j v"
      using hookers_sched [OF w(2), of j] by (simp add: w(1) pc)
    then have "hookers ?m j u + 1 = hookers m j u" by (metis of_bool_eq(2))
    then have pos: "0 < hookers m j u" by linarith
    have "log_rel (hookers ?m j) False (addEvent (HookTerminal u) ?s)"
    proof (rule log_rel_hook [OF _ pos hj])
      show "log_rel (hookers m j) (schedStarts (sm_worker m) j) ?s" using ok by (simp add: log_ok_def)
    qed
    then show "log_ok ?m j" using o by (simp add: log_ok_def w(1,3))
  qed (auto simp: w(1,3) pc)
qed

lemma log_start:
  assumes ok: "\<forall>i. log_ok m i" and pc: "sm_worker m = SIdle"
  shows "\<forall>i. log_ok (schedStep script throws pick m) i"
proof (cases "pick < length (sm_jobs m) \<and> runnable (sm_jobs m ! pick)")
  case True
  obtain j p d where j: "sm_jobs m ! pick = (j, p, d)" by (cases "sm_jobs m ! pick")
  show ?thesis
    by (rule log_quiet [OF ok, where j = j and r = "sm_all m j"])
      (use True ok in \<open>simp_all add: schedStep_def startJob_def pc j log_ok_def\<close>)
next
  case False
  have "schedStep script throws pick m = m" unfolding schedStep_def pc startJob_def if_not_P [OF False] by simp
  then show ?thesis using ok by simp
qed

lemma log_sched_step:
  assumes ok: "\<forall>i. log_ok m i" and own: "\<forall>i. owner_ok m i"
  shows "\<forall>i. log_ok (schedStep script throws pick m) i"
proof -
  have nt: "\<not> rs_terminal (sm_all m i)" if "schedOwns (sm_worker m) i" for i
  proof
    assume "rs_terminal (sm_all m i)"
    then have "owners m i = 0" using own by (auto simp: owner_ok_def owner_rel_def)
    then show False using that by (simp add: owners_def)
  qed
  show ?thesis
  proof (cases "sm_worker m")
    case SIdle
    then show ?thesis by (rule log_start [OF ok])
  next
    case (SBegin j p)
    then show ?thesis using log_begin [OF ok SBegin] nt [of j] by simp
  next
    case (SStarted j p)
    then show ?thesis using log_started [OF ok SStarted] nt [of j] by simp
  next
    case (SRun j p)
    then show ?thesis using log_run [OF ok SRun] nt [of j] by simp
  next
    case (SCancel j)
    then show ?thesis by (rule log_cancel [OF ok])
  next
    case (SEnqueue j p)
    then show ?thesis
      by (intro log_quiet [OF ok, where j = j and r = "sm_all m j"]) (use ok in \<open>simp_all add: sched_defs log_ok_def\<close>)
  next
    case (SPost j p)
    then show ?thesis
      by (intro log_quiet [OF ok, where j = j and r = "sm_all m j"]) (use ok in \<open>simp_all add: sched_defs log_ok_def\<close>)
  next
    case (SUndo j)
    then show ?thesis
      by (intro log_quiet [OF ok, where j = j and r = "sm_all m j"]) (use ok in \<open>simp_all add: sched_defs log_ok_def\<close>)
  next
    case (SReset j)
    then show ?thesis
      by (intro log_quiet [OF ok, where j = j and r = "(sm_all m j)\<lparr>rs_queued := False\<rparr>"])
        (use ok in \<open>simp_all add: sched_defs log_ok_def resetQueued_def onState_def\<close>)
  next
    case (SPublish j t release)
    then show ?thesis by (rule log_publish_sched [OF ok])
  next
    case (SHook j t release)
    then show ?thesis by (rule log_hook_sched [OF ok])
  next
    case (SRelease j)
    then show ?thesis
      by (intro log_quiet [OF ok, where j = j and r = "sm_all m j"]) (use ok in \<open>simp_all add: sched_defs log_ok_def\<close>)
  qed (use ok in \<open>simp add: schedStep_def\<close>)
qed

lemma configure_ok:
  assumes "machine_ok (rs_machine r)" and "\<not> sm_running (rs_machine r)"
  shows "machine_ok (rs_machine (configure c r)) \<and> \<not> sm_running (rs_machine (configure c r))"
proof (cases c)
  case (CfgSetStateFnc f index)
  then show ?thesis
    using assms setStateFnc_ok [of "rs_machine r" "configurable r" f index]
    by (auto simp: configure_def Let_def setStateFnc_def split: option.split)
next
  case (CfgSetNextTo index)
  then show ?thesis
    using assms setNextTo_ok [of "rs_machine r" "configurable r" index] by (auto simp: configure_def Let_def setNextTo_def)
next
  case CfgSetNext
  then show ?thesis
    using assms setNext_ok [of "rs_machine r" "configurable r"] by (auto simp: configure_def Let_def setNext_def)
next
  case CfgSetEnd
  then show ?thesis
    using assms setEnd_ok [of "rs_machine r" "configurable r"] by (auto simp: configure_def Let_def setEnd_def)
qed

lemma log_call:
  assumes ok: "\<forall>i. log_ok m i"
  shows "\<forall>i. log_ok (newCall c m) i"
proof
  fix i
  have h: "hookers (newCall c m) i = hookers m i" by (cases c) (auto simp: newCall_def hookers_def)
  show "log_ok (newCall c m) i"
  proof (cases "\<exists>cf. c = CallConfigure i cf")
    case True
    then obtain cf where c: "c = CallConfigure i cf" ..
    have "log_rel (hookers m i) (schedStarts (sm_worker m) i) (configure cf (sm_all m i))"
      by (rule log_rel_keep [of _ _ "sm_all m i"]) (use ok in \<open>simp_all add: log_ok_def configure_def Let_def\<close>)
    then show ?thesis
      using ok [rule_format, of i] configure_ok [of "sm_all m i" cf] unfolding log_ok_def h
      by (simp add: newCall_def c configure_def Let_def)
  next
    case False
    then have "sm_all (newCall c m) i = sm_all m i" "sm_worker (newCall c m) = sm_worker m"
      by (cases c; auto simp: newCall_def)+
    then show ?thesis using ok [rule_format, of i] unfolding log_ok_def h by simp
  qed
qed

section \<open>Properties\<close>

definition states_ok :: "rsm \<Rightarrow> bool" where
  "states_ok m \<longleftrightarrow> owners_ok m \<and> (\<forall>i. log_ok m i)"

lemma states_ok_step: "rs_step m m' \<Longrightarrow> states_ok m \<Longrightarrow> states_ok m'"
proof (induction rule: rs_step.induct)
  case (rs_sched m script throws pick)
  then show ?case
    using owners_ok_step [OF rs_step.rs_sched] log_sched_step [of m] by (simp add: states_ok_def owners_ok_def)
next
  case (rs_client k m throws)
  then show ?case
    using owners_ok_step [OF rs_step.rs_client] log_client_step [of m k] by (simp add: states_ok_def)
next
  case (rs_call m c)
  then show ?case using owners_ok_step [OF rs_step.rs_call] log_call [of m c] by (simp add: states_ok_def)
qed

lemma states_ok_init: "rs_init m \<Longrightarrow> states_ok m"
  using owners_ok_init [of m]
  by (simp add: states_ok_def rs_init_def newManager_def log_ok_def hookers_def log_rel_def newRuntimeState_def
    lifecycle_def started_log_def ends_with_def newState_def machine_ok_def slots_def)

interpretation lifecycles: invariant_system rs_init rs_step states_ok
  by unfold_locales (auto intro: states_ok_init states_ok_step)

lemma sdo_reachable: "reachable rs_init rs_step m \<Longrightarrow> reachable rs_init rs_step (sdo a m)"
  by (cases a) (auto intro: reach_step rs_step.intros)

lemma reachable_fold: "reachable rs_init rs_step m \<Longrightarrow> reachable rs_init rs_step (fold sdo xs m)"
  by (induction xs arbitrary: m) (auto intro: sdo_reachable)

lemma reachable_new: "reachable rs_init rs_step (fold sdo xs newManager)"
  by (intro reachable_fold reach_init) (simp add: rs_init_def)

text \<open>State 0 with one callback, submitted with the given priority and delay.\<close>

definition submitted :: "priority \<Rightarrow> bool \<Rightarrow> saction list" where
  "submitted p delayed = [DoCall (CallConfigure 0 (CfgSetStateFnc (Some 5) 0)), DoCall (CallRun 0 p delayed),
     DoClient 0 False, DoClient 0 False, DoClient 0 False]"

definition idleScript :: "nat \<Rightarrow> sop list" where
  "idleScript f = []"

definition isPublished :: "sevent \<Rightarrow> bool" where
  "isPublished e = (case e of Published t \<Rightarrow> True | _ \<Rightarrow> False)"

lemma started_log_unpublished: "started_log l \<Longrightarrow> filter isPublished l = []"
  by (auto simp: started_log_def isPublished_def filter_empty_conv)

text \<open>
  C11: whatever clients, callbacks and the scheduler do, a state publishes at most one outcome, and only when
  it is terminal; before it the start and then callbacks were invoked, after it nothing but the one
  hook of that outcome; the marks agree with the outcome, and a state that completed is not cancelled.
\<close>

theorem outcome_once:
  assumes "reachable rs_init rs_step m"
  shows "lifecycle (sm_all m i) \<and> length (filter isPublished (rs_log (sm_all m i))) = of_bool (rs_terminal (sm_all m i)) \<and>
    \<not> (rs_completed (sm_all m i) \<and> (rs_cancelled (sm_all m i) \<or> rs_failed (sm_all m i)))"
proof -
  let ?r = "sm_all m i"
  have l: "lifecycle ?r"
    using lifecycles.reachable_inv [OF assms] by (simp add: states_ok_def log_ok_def log_rel_def)
  show ?thesis
  proof (cases "rs_terminal ?r")
    case True
    then obtain pre t where pre: "started_log pre" "rs_log ?r \<in> {pre @ [Published t], pre @ [Published t, HookTerminal t]}"
      "outcome_flags t ?r" using l by (auto simp: lifecycle_def)
    then have "length (filter isPublished (rs_log ?r)) = 1"
      using started_log_unpublished [OF pre(1)] by (auto simp: isPublished_def)
    then show ?thesis using l True pre(3) by (auto simp: outcome_flags_def)
  next
    case False
    then show ?thesis using l started_log_unpublished [of "rs_log ?r"] by (simp add: lifecycle_def)
  qed
qed

theorem outcome_once_witness:
  "length (filter isPublished (rs_log (sm_all (fold sdo (submitted KHigh False @ [DoSched (\<lambda>_. [OpAdvance]) False 0, DoSched (\<lambda>_. [OpAdvance]) False 0,
     DoSched (\<lambda>_. [OpAdvance]) False 0, DoSched (\<lambda>_. [OpAdvance]) False 0, DoSched (\<lambda>_. [OpAdvance]) False 0]) newManager) 0))) = 1"
proof -
  let ?m = "fold sdo (submitted KHigh False @ [DoSched (\<lambda>_. [OpAdvance]) False 0, DoSched (\<lambda>_. [OpAdvance]) False 0,
     DoSched (\<lambda>_. [OpAdvance]) False 0, DoSched (\<lambda>_. [OpAdvance]) False 0, DoSched (\<lambda>_. [OpAdvance]) False 0]) newManager"
  have "rs_terminal (sm_all ?m 0)" by code_simp
  then show ?thesis using outcome_once [OF reachable_new, of "submitted KHigh False @ [DoSched (\<lambda>_. [OpAdvance]) False 0, DoSched (\<lambda>_. [OpAdvance]) False 0,
     DoSched (\<lambda>_. [OpAdvance]) False 0, DoSched (\<lambda>_. [OpAdvance]) False 0, DoSched (\<lambda>_. [OpAdvance]) False 0]" 0] by simp
qed

text \<open>
  C32: a requested cancellation is never lost: as long as the outcome is not published, either the state is
  queued and exactly one job, dispatch or submission answers for it, or a thread is about to publish
  the cancellation.
\<close>

theorem cancellation_not_lost:
  assumes "reachable rs_init rs_step m" and "rs_cancelled (sm_all m i)" and "\<not> rs_terminal (sm_all m i)"
  shows "rs_queued (sm_all m i) \<and> owners m i = 1 \<or> \<not> rs_queued (sm_all m i) \<and> 0 < publishers m i"
proof -
  have "owner_rel (owners m i) (publishers m i) (sm_all m i)"
    using lifecycles.reachable_inv [OF assms(1)] by (simp add: states_ok_def owners_ok_def owner_ok_def)
  then show ?thesis using assms(2,3) unfolding owner_rel_def by (cases "rs_queued (sm_all m i)") simp_all
qed

theorem cancellation_not_lost_witness:
  "owners (fold sdo (submitted KHigh False @ [DoCall (CallCancel 0), DoClient 1 False]) newManager) 0 = 1"
proof -
  let ?m = "fold sdo (submitted KHigh False @ [DoCall (CallCancel 0), DoClient 1 False]) newManager"
  have "rs_cancelled (sm_all ?m 0)" "\<not> rs_terminal (sm_all ?m 0)" "rs_queued (sm_all ?m 0)" by code_simp+
  then show ?thesis using cancellation_not_lost [OF reachable_new, of "submitted KHigh False @ [DoCall (CallCancel 0), DoClient 1 False]" 0]
    by simp
qed

text \<open>
  C33: while a job or a dispatch works on a state the manager retains it, so the weak reference of the job
  can always be locked; the state is then queued, not terminal, and worked on by nothing else.
\<close>

theorem working_state_retained:
  assumes "reachable rs_init rs_step m" and "inUse m i"
  shows "i \<in> set (sm_pending m) \<and> rs_queued (sm_all m i) \<and> \<not> rs_terminal (sm_all m i) \<and> owners m i = 1"
proof -
  have ok: "owner_ok m i" "retain_ok m i"
    using lifecycles.reachable_inv [OF assms(1)] by (simp_all add: states_ok_def owners_ok_def)
  have pos: "0 < owners m i" by (rule inUse_owned [OF assms(2)])
  have rel: "owner_rel (owners m i) (publishers m i) (sm_all m i)" using ok(1) by (simp only: owner_ok_def)
  then have "owners m i = of_bool (rs_queued (sm_all m i))" unfolding owner_rel_def by blast
  then have q: "rs_queued (sm_all m i)" using pos by (metis less_irrefl of_bool_eq(1))
  have "\<not> rs_terminal (sm_all m i)" using rel q unfolding owner_rel_def by blast
  moreover have "owners m i = 1" using rel q unfolding owner_rel_def by (metis of_bool_eq(2))
  ultimately have "rs_queued (sm_all m i) \<and> \<not> rs_terminal (sm_all m i) \<and> owners m i = 1" using q by blast
  then show ?thesis using ok(2) assms(2) by (simp add: retain_ok_def)
qed

theorem working_state_retained_witness: "0 \<in> set (sm_pending (fold sdo (submitted KHigh False) newManager))"
proof -
  have "sm_jobs (fold sdo (submitted KHigh False) newManager) = [(0, KHigh, False)]" by code_simp
  then have "inUse (fold sdo (submitted KHigh False) newManager) 0" by (auto simp: inUse_def)
  from working_state_retained [OF reachable_new this] show ?thesis by simp
qed

text \<open>
  A dispatch that finds a requested cancellation invokes no callback: in five steps the outcome is
  published, its hook has run, the state is released, and the asynchronous thread is free.
\<close>

theorem cancelled_dispatch_ends:
  assumes "reachable rs_init rs_step m" and "sm_worker m = SBegin i p" and "rs_cancelled (sm_all m i)"
  shows "let m' = (schedStep script throws pick ^^ 5) m
    in sm_worker m' = SIdle \<and> rs_terminal (sm_all m' i) \<and> \<not> rs_queued (sm_all m' i) \<and> i \<notin> set (sm_pending m') \<and>
       rs_log (sm_all m' i) = rs_log (sm_all m i) @ [Published TCancelled, HookTerminal TCancelled]"
proof -
  let ?s = "sm_all m i"
  have ok: "owner_ok m i" "log_ok m i"
    using lifecycles.reachable_inv [OF assms(1)] by (simp_all add: states_ok_def owners_ok_def)
  have u: "inUse m i" by (simp add: inUse_def assms(2))
  have "0 < owners m i" by (rule inUse_owned [OF u])
  moreover have rel: "owner_rel (owners m i) (publishers m i) ?s" using ok(1) by (simp only: owner_ok_def)
  ultimately have nt: "\<not> rs_terminal ?s" unfolding owner_rel_def by (cases "rs_queued ?s") auto
  have mach: "machine_ok (rs_machine ?s)" "\<not> sm_running (rs_machine ?s)" using ok(2) by (simp_all add: log_ok_def)
  let ?e = "setEndManaged ?s"
  have e: "rs_machine ?e = (rs_machine ?s)\<lparr>sm_next := slots (rs_machine ?s)\<rparr>" by (simp add: setEndManaged_def setEnd_def)
  obtain mach' where n: "runNext True script (rs_machine ?e) = (mach', Inr False)"
    using mach by (cases "sm_finalized (rs_machine ?s)") (simp_all add: e runNext_def)
  let ?r = "?e\<lparr>rs_machine := mach'\<rparr>"
  have r: "runNextManaged script ?e = (?r, Inr False)"
    using n by (simp add: runNextManaged_def invoked_def setEndManaged_def setEnd_def)
  have c: "complete TCancelled ?r = (addEvent (Published TCancelled)
      (?r\<lparr>rs_terminal := True, rs_queued := False, rs_running := False, rs_cancelled := True\<rparr>), Some TCancelled)"
    using nt by (simp add: complete_def setEndManaged_def)
  have b: "beginStep ?s = (?s, None)" using assms(3) by (simp add: beginStep_def)
  let ?f = "schedStep script throws pick"
  have 1: "?f m = toSched (SCancel i) m" by (simp add: sched_defs assms(2) b onState_def)
  have 2: "?f (?f m) = toSched (SPublish i TCancelled True) (onState i (\<lambda>_. ?r) m)"
    unfolding 1 by (simp add: sched_defs r toSched_def onState_def)
  define r2 where "r2 = fst (complete TCancelled ?r)"
  have 3: "?f (?f (?f m)) = toSched (SHook i TCancelled True) (onState i (\<lambda>_. r2) m)"
    unfolding 2 r2_def by (simp add: sched_defs c toSched_def onState_def)
  have 4: "?f (?f (?f (?f m))) = toSched (SRelease i) (onState i (\<lambda>_. addEvent (HookTerminal TCancelled) r2) m)"
    unfolding 3 by (simp add: sched_defs toSched_def onState_def)
  have 5: "?f (?f (?f (?f (?f m)))) = toSched SIdle (releaseState i (onState i (\<lambda>_. addEvent (HookTerminal TCancelled) r2) m))"
    unfolding 4 by (simp add: sched_defs toSched_def releaseState_def)
  have r2: "rs_terminal r2" "\<not> rs_queued r2" "rs_log r2 = rs_log ?s @ [Published TCancelled]"
    unfolding r2_def c by (simp_all add: setEndManaged_def)
  have "(?f ^^ 5) m = ?f (?f (?f (?f (?f m))))" by (simp add: numeral_eq_Suc)
  then show ?thesis unfolding Let_def 5 by (simp add: r2)
qed

theorem cancelled_dispatch_ends_witness:
  "rs_log (sm_all ((schedStep idleScript False 0 ^^ 5)
     (fold sdo (submitted KHigh False @ [DoSched idleScript False 0, DoCall (CallCancel 0), DoClient 1 False]) newManager)) 0) =
   [Published TCancelled, HookTerminal TCancelled]"
proof -
  let ?xs = "submitted KHigh False @ [DoSched idleScript False 0, DoCall (CallCancel 0), DoClient 1 False]"
  have w: "sm_worker (fold sdo ?xs newManager) = SBegin 0 KHigh" "rs_cancelled (sm_all (fold sdo ?xs newManager) 0)"
    "rs_log (sm_all (fold sdo ?xs newManager) 0) = []" by code_simp+
  from cancelled_dispatch_ends [OF reachable_new w(1,2), of idleScript False 0]
  have "rs_log (sm_all ((schedStep idleScript False 0 ^^ 5) (fold sdo ?xs newManager)) 0) =
      rs_log (sm_all (fold sdo ?xs newManager) 0) @ [Published TCancelled, HookTerminal TCancelled]"
    unfolding Let_def by blast
  then show ?thesis unfolding w(3) append_Nil .
qed

text \<open>No thread has anything to do: the jobs that are left cannot run, and a call waits for a state that is not terminal.\<close>

definition at_rest :: "rsm \<Rightarrow> bool" where
  "at_rest m \<longleftrightarrow> sm_worker m = SIdle \<and> list_all (\<lambda>j. \<not> runnable j) (sm_jobs m) \<and>
     list_all (\<lambda>c. case c of KDone a \<Rightarrow> True | KWait all \<Rightarrow> all \<noteq> [] \<and> \<not> rs_terminal (sm_all m (hd all)) | _ \<Rightarrow> False) (sm_calls m)"

lemma at_rest_sched: "at_rest m \<Longrightarrow> schedStep script throws pick m = m"
  by (auto simp: at_rest_def schedStep_def startJob_def list_all_length)

lemma at_rest_client:
  assumes "at_rest m" and "k < length (sm_calls m)"
  shows "clientStep k throws m = m"
proof -
  have "case sm_calls m ! k of KDone a \<Rightarrow> True | KWait all \<Rightarrow> all \<noteq> [] \<and> \<not> rs_terminal (sm_all m (hd all)) | _ \<Rightarrow> False"
    using assms by (simp add: at_rest_def list_all_length)
  then show ?thesis by (auto simp: client_defs neq_Nil_conv split: kpc.splits)
qed

text \<open>
  When the scheduler throws as the next dispatch of a running state is submitted, nobody will ever
  publish an outcome: in a reachable state a client waits for a state that is marked running and
  not queued, no job refers to it, it is not retained, and no thread has anything to do.
\<close>

theorem failed_dispatch_strands:
  "\<exists>m. reachable rs_init rs_step m \<and> at_rest m \<and> sm_calls m = [KDone (Some True), KWait [0]] \<and> sm_jobs m = [] \<and>
     sm_pending m = [] \<and> rs_running (sm_all m 0) \<and> \<not> rs_queued (sm_all m 0) \<and> \<not> rs_terminal (sm_all m 0) \<and>
     rs_log (sm_all m 0) = [HookStarted, Callback 5]"
proof (intro exI conjI)
  let ?m = "fold sdo (submitted KHigh False @ [DoCall (CallWait 0), DoSched idleScript False 0, DoSched idleScript False 0,
    DoSched idleScript False 0, DoSched idleScript False 0, DoSched idleScript False 0, DoSched idleScript True 0,
    DoSched idleScript False 0, DoSched idleScript False 0]) newManager"
  show "reachable rs_init rs_step ?m" by (rule reachable_new)
  show "at_rest ?m" "sm_calls ?m = [KDone (Some True), KWait [0]]" "sm_jobs ?m = []" "sm_pending ?m = []"
    "rs_running (sm_all ?m 0)" "\<not> rs_queued (sm_all ?m 0)" "\<not> rs_terminal (sm_all ?m 0)"
    "rs_log (sm_all ?m 0) = [HookStarted, Callback 5]" by code_simp+
qed

text \<open>
  A state submitted with a delay and a priority that the scheduler refuses is accepted and never
  dispatched: in a reachable state a shutdown waits for it, its cancellation is requested, and no
  thread has anything to do.
\<close>

theorem manager_shutdown_hangs:
  "\<exists>m. reachable rs_init rs_step m \<and> at_rest m \<and> sm_calls m = [KDone (Some True), KWait [0]] \<and> sm_shutdown m \<and>
     sm_jobs m = [(0, KSched, True)] \<and> rs_cancelled (sm_all m 0) \<and> \<not> rs_terminal (sm_all m 0)"
proof (intro exI conjI)
  let ?m = "fold sdo (submitted KSched True @ [DoCall CallShutdown, DoClient 1 False, DoClient 1 False]) newManager"
  show "reachable rs_init rs_step ?m" by (rule reachable_new)
  show "at_rest ?m" "sm_calls ?m = [KDone (Some True), KWait [0]]" "sm_shutdown ?m" "sm_jobs ?m = [(0, KSched, True)]"
    "rs_cancelled (sm_all ?m 0)" "\<not> rs_terminal (sm_all ?m 0)" by code_simp+
qed

end
