(* ===== verification/DeviceSelection.thy ===== *)
theory DeviceSelection
  imports Dmn_Prelude
begin

text \<open>
  The device inventory and selection behind the graphical clients: display texts, the actions that a row
  offers, the saved and the draft selection, and the order of the inventory.  Characters are bytes, and
  \<open>tolower\<close> and \<open>toupper\<close> are those of the C locale.
\<close>

section \<open>Text\<close>

definition toLower :: "char \<Rightarrow> char" where
  "toLower c = (if 65 \<le> (of_char c :: nat) \<and> (of_char c :: nat) \<le> 90 then char_of ((of_char c :: nat) + 32) else c)"

definition toUpper :: "char \<Rightarrow> char" where
  "toUpper c = (if 97 \<le> (of_char c :: nat) \<and> (of_char c :: nat) \<le> 122 then char_of ((of_char c :: nat) - 32) else c)"

fun compareCaseInsensitive :: "string \<Rightarrow> string \<Rightarrow> int" where
  "compareCaseInsensitive [] [] = 0"
| "compareCaseInsensitive [] (r # rs) = -1"
| "compareCaseInsensitive (l # ls) [] = 1"
| "compareCaseInsensitive (l # ls) (r # rs) =
     (if toLower l \<noteq> toLower r then (if (of_char (toLower l) :: nat) < of_char (toLower r) then -1 else 1)
      else compareCaseInsensitive ls rs)"

text \<open>\<open>operator<\<close> of strings, which compares bytes.\<close>

fun stringLess :: "string \<Rightarrow> string \<Rightarrow> bool" where
  "stringLess ls [] = False"
| "stringLess [] (r # rs) = True"
| "stringLess (l # ls) (r # rs) =
     (if l \<noteq> r then (of_char l :: nat) < of_char r else stringLess ls rs)"

section \<open>Devices\<close>

record identity =
  di_adapter :: string
  di_device :: string

record device_entry =
  de_identity :: identity
  de_name :: string
  de_paired :: "bool option"
  de_connected :: "bool option"
  de_present :: bool
  de_seen :: bool

definition normalizeAddress :: "string \<Rightarrow> string" where
  "normalizeAddress = map toUpper"

definition normalizeIdentity :: "identity \<Rightarrow> identity" where
  "normalizeIdentity i = \<lparr>di_adapter = normalizeAddress (di_adapter i), di_device = normalizeAddress (di_device i)\<rparr>"

definition deviceDisplayName :: "device_entry \<Rightarrow> string" where
  "deviceDisplayName d =
     (if de_name d = [] \<or> compareCaseInsensitive (de_name d) (di_device (de_identity d)) = 0
      then di_device (de_identity d) else de_name d)"

definition separator :: string where
  "separator = [CHR '' '', CHR 0xC2, CHR 0xB7, CHR '' '']"

definition deviceDisplayStatus :: "device_entry \<Rightarrow> string" where
  "deviceDisplayStatus d =
     (if \<not> de_present d then ''Unavailable''
      else (case de_paired d of None \<Rightarrow> ''Pairing status unavailable''
              | Some p \<Rightarrow> if p then ''Paired'' else ''Not paired'') @
           (case de_connected d of None \<Rightarrow> separator @ ''Connection status unavailable''
              | Some c \<Rightarrow> if c then separator @ ''Connected'' else separator @ ''Disconnected'') @
           (if de_seen d then separator @ ''Found by scan'' else []))"

record action_context =
  cx_saved :: bool
  cx_selection_dirty :: bool
  cx_monitor_active :: bool
  cx_monitor_requested :: bool
  cx_monitor_busy :: bool
  cx_monitor_start_pending :: bool
  cx_monitor_cancel_requested :: bool
  cx_connection_pending :: bool
  cx_disconnect_pending :: bool
  cx_connect_after_monitor_stop :: bool
  cx_operation_busy :: bool
  cx_close_requested :: bool

record action_availability =
  av_connect :: bool
  av_disconnect :: bool
  av_start_monitoring :: bool
  av_stop_monitoring :: bool

definition deviceActionAvailability :: "device_entry \<Rightarrow> action_context \<Rightarrow> action_availability" where
  "deviceActionAvailability d c =
     (let paired = (case de_paired d of None \<Rightarrow> False | Some p \<Rightarrow> p);
          connected = (de_connected d = Some True);
          targetReady = (cx_saved c \<and> de_present d \<and> paired);
          connectionActionsAllowed = (targetReady \<and> \<not> cx_close_requested c);
          monitoringAllowed = (targetReady \<and> connected \<and> \<not> cx_close_requested c);
          monitoringRequested = (cx_monitor_requested c \<or> (cx_monitor_start_pending c \<and> \<not> cx_monitor_cancel_requested c))
      in \<lparr>av_connect = (connectionActionsAllowed \<and> \<not> connected \<and> \<not> cx_connection_pending c),
          av_disconnect = (connectionActionsAllowed \<and> (connected \<or> cx_connection_pending c)),
          av_start_monitoring = (monitoringAllowed \<and> \<not> cx_selection_dirty c \<and> \<not> monitoringRequested),
          av_stop_monitoring = (monitoringAllowed \<and> monitoringRequested)\<rparr>)"

section \<open>The model\<close>

datatype sort_column = ByName | ByStatus

record selection =
  sel_limit :: nat
  sel_devices :: "device_entry list"
  sel_saved :: "identity list"
  sel_draft :: "identity list"
  sel_column :: sort_column
  sel_ascending :: bool

text \<open>\<open>None\<close> is the exception for a limit of zero.\<close>

definition newSelection :: "nat \<Rightarrow> selection option" where
  "newSelection limit =
     (if limit = 0 then None
      else Some \<lparr>sel_limit = limit, sel_devices = [], sel_saved = [], sel_draft = [], sel_column = ByName, sel_ascending = True\<rparr>)"

definition deviceLess :: "sort_column \<Rightarrow> bool \<Rightarrow> device_entry \<Rightarrow> device_entry \<Rightarrow> bool" where
  "deviceLess column ascending l r =
     (let leftName = deviceDisplayName l; rightName = deviceDisplayName r;
          leftPrimary = (if column = ByName then leftName else deviceDisplayStatus l);
          rightPrimary = (if column = ByName then rightName else deviceDisplayStatus r);
          primaryOrder = compareCaseInsensitive leftPrimary rightPrimary
      in if primaryOrder \<noteq> 0 then (if ascending then primaryOrder < 0 else primaryOrder > 0)
         else
           let nameOrder = compareCaseInsensitive leftName rightName
           in if nameOrder \<noteq> 0 then nameOrder < 0
              else if di_adapter (de_identity l) \<noteq> di_adapter (de_identity r)
              then stringLess (di_adapter (de_identity l)) (di_adapter (de_identity r))
              else stringLess (di_device (de_identity l)) (di_device (de_identity r)))"

definition applySort :: "selection \<Rightarrow> selection" where
  "applySort s = s\<lparr>sel_devices := stableSort (deviceLess (sel_column s) (sel_ascending s)) (sel_devices s)\<rparr>"

definition savedEntry :: "identity \<Rightarrow> device_entry" where
  "savedEntry i = \<lparr>de_identity = i, de_name = di_device i, de_paired = None, de_connected = None, de_present = False, de_seen = False\<rparr>"

definition addSaved :: "device_entry list \<Rightarrow> identity \<Rightarrow> device_entry list" where
  "addSaved ds i = (if i \<in> de_identity ` set ds then ds else ds @ [savedEntry i])"

definition mergeSavedDevices :: "selection \<Rightarrow> selection" where
  "mergeSavedDevices s = applySort (s\<lparr>sel_devices := foldl addSaved (filter de_present (sel_devices s)) (sel_saved s)\<rparr>)"

definition replaceInventory :: "device_entry list \<Rightarrow> selection \<Rightarrow> selection" where
  "replaceInventory inventory s =
     mergeSavedDevices (s\<lparr>sel_devices := map (\<lambda>d. d\<lparr>de_identity := normalizeIdentity (de_identity d)\<rparr>) inventory\<rparr>)"

definition keepIdentity :: "identity list \<Rightarrow> identity \<Rightarrow> identity list" where
  "keepIdentity normalized i =
     (let stable = normalizeIdentity i
      in if di_adapter stable = [] \<or> di_device stable = [] \<or> stable \<in> set normalized then normalized
         else normalized @ [stable])"

definition loadSavedSelection :: "identity list \<Rightarrow> selection \<Rightarrow> selection" where
  "loadSavedSelection selected s =
     (let normalized = take (sel_limit s) (foldl keepIdentity [] selected)
      in mergeSavedDevices (s\<lparr>sel_saved := normalized, sel_draft := normalized\<rparr>))"

definition setDraftSelected :: "identity \<Rightarrow> bool \<Rightarrow> selection \<Rightarrow> selection \<times> bool" where
  "setDraftSelected i selected s =
     (let stable = normalizeIdentity i; existing = (stable \<in> set (sel_draft s))
      in if \<not> selected \<and> existing then (s\<lparr>sel_draft := remove1 stable (sel_draft s)\<rparr>, True)
         else if \<not> (\<exists>d \<in> set (sel_devices s). de_identity d = stable \<and> de_present d) \<and> stable \<notin> set (sel_saved s) then (s, False)
         else if selected
         then (if existing then (s, True)
               else if length (sel_draft s) = sel_limit s then (s, False)
               else (s\<lparr>sel_draft := sel_draft s @ [stable]\<rparr>, True))
         else (s, True))"

definition saveSelection :: "selection \<Rightarrow> selection" where
  "saveSelection s = mergeSavedDevices (s\<lparr>sel_saved := sel_draft s\<rparr>)"

definition discardChanges :: "selection \<Rightarrow> selection" where
  "discardChanges s = mergeSavedDevices (s\<lparr>sel_draft := sel_saved s\<rparr>)"

definition sortDevices :: "sort_column \<Rightarrow> bool \<Rightarrow> selection \<Rightarrow> selection" where
  "sortDevices column ascending s = applySort (s\<lparr>sel_column := column, sel_ascending := ascending\<rparr>)"

definition hasUnsavedChanges :: "selection \<Rightarrow> bool" where
  "hasUnsavedChanges s \<longleftrightarrow> sel_saved s \<noteq> sel_draft s"

definition canStartMonitoring :: "selection \<Rightarrow> bool" where
  "canStartMonitoring s \<longleftrightarrow> \<not> (hasUnsavedChanges s \<or> sel_saved s = []) \<and>
     (\<forall>i \<in> set (sel_saved s). \<exists>d \<in> set (sel_devices s). de_identity d = i \<and> de_present d)"

datatype selection_op =
    ReplaceInventory "device_entry list"
  | LoadSaved "identity list"
  | SetDraft identity bool
  | Save
  | Discard
  | Sort sort_column bool

fun applyOp :: "selection_op \<Rightarrow> selection \<Rightarrow> selection" where
  "applyOp (ReplaceInventory inventory) s = replaceInventory inventory s"
| "applyOp (LoadSaved selected) s = loadSavedSelection selected s"
| "applyOp (SetDraft i selected) s = fst (setDraftSelected i selected s)"
| "applyOp Save s = saveSelection s"
| "applyOp Discard s = discardChanges s"
| "applyOp (Sort column ascending) s = sortDevices column ascending s"

section \<open>The order is a strict weak order\<close>

text \<open>A three-way comparison, as \<open>compareCaseInsensitive\<close> and the comparison of two devices are.\<close>

locale three_way =
  fixes cmp :: "'a \<Rightarrow> 'a \<Rightarrow> int"
  assumes swap: "cmp y x = - cmp x y"
    and trans: "cmp x y \<le> 0 \<Longrightarrow> cmp y z \<le> 0 \<Longrightarrow> cmp x z \<le> 0"
begin

lemma asym: "cmp x y < 0 \<Longrightarrow> \<not> cmp y x < 0"
  using swap [of x y] by simp

lemma weak: "\<not> cmp y x < 0 \<Longrightarrow> \<not> cmp z y < 0 \<Longrightarrow> \<not> cmp z x < 0"
  using trans [of x y z] swap [of y x] swap [of z y] swap [of z x] by simp

lemma sorts: "sorted_wrt (\<lambda>x y. \<not> cmp y x < 0) (stableSort (\<lambda>x y. cmp x y < 0) xs)"
  by (rule stableSort_is_sorted) (fact weak, fact asym)

lemma zero_left: "cmp x y = 0 \<Longrightarrow> cmp y z \<le> 0 \<Longrightarrow> cmp x z \<le> 0"
  by (rule trans) simp_all

lemma zero_trans: "cmp x y = 0 \<Longrightarrow> cmp y z = 0 \<Longrightarrow> cmp x z = 0"
  using trans [of x y z] trans [of z y x] swap [of x y] swap [of y z] swap [of x z] by simp

lemma less_left: "cmp x y < 0 \<Longrightarrow> cmp y z \<le> 0 \<Longrightarrow> cmp x z < 0"
proof (rule ccontr)
  assume 1: "cmp x y < 0" "cmp y z \<le> 0" "\<not> cmp x z < 0"
  then have "cmp z x \<le> 0" using swap [of x z] by simp
  from trans [OF 1(2) this] show False using 1(1) swap [of x y] by simp
qed

lemma less_right: "cmp x y \<le> 0 \<Longrightarrow> cmp y z < 0 \<Longrightarrow> cmp x z < 0"
proof (rule ccontr)
  assume 1: "cmp x y \<le> 0" "cmp y z < 0" "\<not> cmp x z < 0"
  then have "cmp z x \<le> 0" using swap [of x z] by simp
  from trans [OF this 1(1)] show False using 1(2) swap [of y z] by simp
qed

end

definition thenCompare :: "('a \<Rightarrow> 'a \<Rightarrow> int) \<Rightarrow> ('a \<Rightarrow> 'a \<Rightarrow> int) \<Rightarrow> 'a \<Rightarrow> 'a \<Rightarrow> int" where
  "thenCompare f g x y = (if f x y \<noteq> 0 then f x y else g x y)"

lemma three_way_then:
  assumes "three_way f" and "three_way g"
  shows "three_way (thenCompare f g)"
proof
  fix x y z
  show "thenCompare f g y x = - thenCompare f g x y"
    using three_way.swap [OF assms(1), of y x] three_way.swap [OF assms(2), of y x] by (simp add: thenCompare_def)
  assume 1: "thenCompare f g x y \<le> 0" "thenCompare f g y z \<le> 0"
  then have f: "f x y \<le> 0" "f y z \<le> 0" by (auto simp: thenCompare_def split: if_splits)
  have fxz: "f x z \<le> 0" by (rule three_way.trans [OF assms(1) f])
  show "thenCompare f g x z \<le> 0"
  proof (cases "f x z = 0")
    case True
    have "\<not> f x y < 0" using three_way.less_left [OF assms(1), of x y z] f(2) True by auto
    moreover have "\<not> f y z < 0" using three_way.less_right [OF assms(1), of x y z] f(1) True by auto
    ultimately have "f x y = 0" "f y z = 0" using f by simp_all
    then show ?thesis using 1 True three_way.trans [OF assms(2), of x y z] by (simp add: thenCompare_def)
  next
    case False
    then show ?thesis using fxz by (simp add: thenCompare_def)
  qed
qed

lemma three_way_on: "three_way f \<Longrightarrow> three_way (\<lambda>x y. f (h x) (h y))"
  unfolding three_way_def by blast

lemma three_way_flip: "three_way f \<Longrightarrow> three_way (\<lambda>x y. - f x y)"
  unfolding three_way_def by (metis neg_le_0_iff_le add.inverse_inverse)

fun listCompare :: "(char \<Rightarrow> nat) \<Rightarrow> string \<Rightarrow> string \<Rightarrow> int" where
  "listCompare g [] [] = 0"
| "listCompare g [] (r # rs) = -1"
| "listCompare g (l # ls) [] = 1"
| "listCompare g (l # ls) (r # rs) = (if g l < g r then -1 else if g r < g l then 1 else listCompare g ls rs)"

lemma listCompare_swap: "listCompare g y x = - listCompare g x y"
  by (induction g y x rule: listCompare.induct) auto

lemma listCompare_nil [simp]:
  "listCompare g x [] \<le> 0 \<longleftrightarrow> x = []" "listCompare g [] z \<le> 0" "\<not> listCompare g x [] < 0"
  by ((cases x; simp), (cases z; simp), (cases x; simp))

lemma listCompare_trans: "listCompare g x y \<le> 0 \<Longrightarrow> listCompare g y z \<le> 0 \<Longrightarrow> listCompare g x z \<le> 0"
proof (induction g x y arbitrary: z rule: listCompare.induct)
  case (4 g l ls r rs)
  show ?case
  proof (cases z)
    case (Cons a as)
    have "g l \<le> g r" "g r \<le> g a" using 4(2,3) Cons by (auto split: if_splits)
    show ?thesis
    proof (cases "g l = g a")
      case True
      then have "g l = g r" "g r = g a" using \<open>g l \<le> g r\<close> \<open>g r \<le> g a\<close> by simp_all
      then show ?thesis using 4(1) [of as] 4(2,3) Cons by simp
    qed (use \<open>g l \<le> g r\<close> \<open>g r \<le> g a\<close> Cons in simp)
  qed (use 4(3) in simp)
qed auto

lemma three_way_list: "three_way (listCompare g)"
  by unfold_locales (fact listCompare_swap, fact listCompare_trans)

lemma compareCaseInsensitive_list: "compareCaseInsensitive x y = listCompare (\<lambda>c. of_char (toLower c)) x y"
  by (induction x y rule: compareCaseInsensitive.induct) auto

lemma stringLess_list: "stringLess x y \<longleftrightarrow> listCompare of_char x y < 0"
  by (induction x y rule: stringLess.induct) (auto elim: stringLess.elims)

lemma listCompare_eq: "listCompare of_char x y = 0 \<longleftrightarrow> x = y"
  by (induction "of_char :: char \<Rightarrow> nat" x y rule: listCompare.induct) auto

definition primaryText :: "sort_column \<Rightarrow> device_entry \<Rightarrow> string" where
  "primaryText column d = (if column = ByName then deviceDisplayName d else deviceDisplayStatus d)"

definition primaryCompare :: "sort_column \<Rightarrow> bool \<Rightarrow> device_entry \<Rightarrow> device_entry \<Rightarrow> int" where
  "primaryCompare column ascending l r =
     (let c = compareCaseInsensitive (primaryText column l) (primaryText column r) in if ascending then c else - c)"

definition deviceCompare :: "sort_column \<Rightarrow> bool \<Rightarrow> device_entry \<Rightarrow> device_entry \<Rightarrow> int" where
  "deviceCompare column ascending =
     thenCompare (primaryCompare column ascending)
       (thenCompare (\<lambda>l r. compareCaseInsensitive (deviceDisplayName l) (deviceDisplayName r))
         (thenCompare (\<lambda>l r. listCompare of_char (di_adapter (de_identity l)) (di_adapter (de_identity r)))
           (\<lambda>l r. listCompare of_char (di_device (de_identity l)) (di_device (de_identity r)))))"

lemma three_way_insensitive: "three_way (\<lambda>l r. compareCaseInsensitive (h l) (h r))"
  unfolding compareCaseInsensitive_list by (rule three_way_on [OF three_way_list])

lemma three_way_primary: "three_way (primaryCompare column ascending)"
  using three_way_insensitive [of "primaryText column"] three_way_flip [OF three_way_insensitive, of "primaryText column"]
  by (cases ascending) (simp_all add: primaryCompare_def [abs_def] Let_def)

lemma deviceLess_compare: "deviceLess column ascending l r \<longleftrightarrow> deviceCompare column ascending l r < 0"
  by (simp add: deviceLess_def deviceCompare_def thenCompare_def primaryCompare_def primaryText_def Let_def stringLess_list listCompare_eq)

interpretation devices: three_way "deviceCompare column ascending" for column ascending
  unfolding deviceCompare_def
  by (intro three_way_then three_way_primary three_way_insensitive three_way_on [OF three_way_list])

lemma sorted_devices:
  "sorted_wrt (\<lambda>x y. \<not> deviceLess column ascending y x) (stableSort (deviceLess column ascending) ds)"
  using devices.sorts [of column ascending ds] by (simp add: deviceLess_compare [abs_def])

section \<open>The invariant\<close>

definition normalized :: "identity \<Rightarrow> bool" where
  "normalized i \<longleftrightarrow> normalizeIdentity i = i"

text \<open>
  The selections are duplicate-free, normalized and within the limit; each saved device is shown, an
  absent device is shown only when it is saved, and the inventory is in display order.
\<close>

definition selection_ok :: "selection \<Rightarrow> bool" where
  "selection_ok s \<longleftrightarrow> sel_limit s > 0 \<and>
     distinct (sel_saved s) \<and> length (sel_saved s) \<le> sel_limit s \<and> distinct (sel_draft s) \<and> length (sel_draft s) \<le> sel_limit s \<and>
     (\<forall>i \<in> set (sel_saved s) \<union> set (sel_draft s) \<union> de_identity ` set (sel_devices s). normalized i) \<and>
     set (sel_saved s) \<subseteq> de_identity ` set (sel_devices s) \<and>
     (\<forall>d \<in> set (sel_devices s). de_present d \<or> de_identity d \<in> set (sel_saved s)) \<and>
     sorted_wrt (\<lambda>x y. \<not> deviceLess (sel_column s) (sel_ascending s) y x) (sel_devices s)"

lemma toUpper_twice [simp]: "toUpper (toUpper c) = toUpper c"
  by (auto simp: toUpper_def)

lemma normalized_identity [simp]: "normalized (normalizeIdentity i)"
  by (simp add: normalized_def normalizeIdentity_def normalizeAddress_def comp_def)

lemma addSaved_identities: "de_identity ` set (foldl addSaved ds is) = de_identity ` set ds \<union> set is"
  by (induction "is" arbitrary: ds) (auto simp: addSaved_def savedEntry_def split: if_splits)

lemma addSaved_origin: "d \<in> set (foldl addSaved ds is) \<Longrightarrow> d \<in> set ds \<or> de_identity d \<in> set is"
proof (induction "is" arbitrary: ds)
  case (Cons a ids)
  then have "d \<in> set (addSaved ds a) \<or> de_identity d \<in> set ids" by simp
  then show ?case by (auto simp: addSaved_def savedEntry_def split: if_splits)
qed simp

lemmas addSaved_fold = addSaved_identities addSaved_origin

lemma merge_ok:
  assumes "sel_limit s > 0" "distinct (sel_saved s)" "length (sel_saved s) \<le> sel_limit s" "distinct (sel_draft s)" "length (sel_draft s) \<le> sel_limit s"
    and "\<forall>i \<in> set (sel_saved s) \<union> set (sel_draft s) \<union> de_identity ` set (filter de_present (sel_devices s)). normalized i"
  shows "selection_ok (mergeSavedDevices s)"
proof -
  let ?ds = "foldl addSaved (filter de_present (sel_devices s)) (sel_saved s)"
  have "de_present d \<or> de_identity d \<in> set (sel_saved s)" if "d \<in> set ?ds" for d
    using addSaved_fold(2) [OF that] by auto
  then show ?thesis
    using assms by (auto simp: selection_ok_def mergeSavedDevices_def applySort_def sorted_devices addSaved_fold(1))
qed

definition clean :: "identity list \<Rightarrow> bool" where
  "clean is \<longleftrightarrow> distinct is \<and> (\<forall>i \<in> set is. normalized i \<and> di_adapter i \<noteq> [] \<and> di_device i \<noteq> [])"

lemma keepIdentity_clean: "clean acc \<Longrightarrow> clean (keepIdentity acc x)"
  unfolding clean_def keepIdentity_def Let_def by (simp split: if_split)

lemma foldl_clean: "clean acc \<Longrightarrow> clean (foldl keepIdentity acc xs)"
  by (induction xs arbitrary: acc) (simp_all add: keepIdentity_clean)

lemma setDraftSelected_ok:
  assumes ok: "selection_ok s"
  shows "selection_ok (fst (setDraftSelected i selected s))"
proof -
  have grow: "selection_ok (s\<lparr>sel_draft := sel_draft s @ [normalizeIdentity i]\<rparr>)"
    if "normalizeIdentity i \<notin> set (sel_draft s)" "length (sel_draft s) \<noteq> sel_limit s"
    using ok that by (auto simp: selection_ok_def)
  have shrink: "selection_ok (s\<lparr>sel_draft := remove1 (normalizeIdentity i) (sel_draft s)\<rparr>)"
    using ok set_remove1_subset [of "normalizeIdentity i" "sel_draft s"]
    by (auto simp: selection_ok_def length_remove1)
  show ?thesis using ok grow shrink by (auto simp: setDraftSelected_def Let_def)
qed

lemma applyOp_ok:
  assumes ok: "selection_ok s"
  shows "selection_ok (applyOp op s)"
proof -
  have limit: "sel_limit s > 0" "distinct (sel_saved s)" "length (sel_saved s) \<le> sel_limit s" "distinct (sel_draft s)"
      "length (sel_draft s) \<le> sel_limit s"
    and norm: "\<forall>i \<in> set (sel_saved s) \<union> set (sel_draft s) \<union> de_identity ` set (sel_devices s). normalized i"
    using ok by (simp_all add: selection_ok_def)
  show ?thesis
  proof (cases op)
    case (ReplaceInventory ds)
    show ?thesis unfolding ReplaceInventory applyOp.simps replaceInventory_def
      by (rule merge_ok) (use limit norm in auto)
  next
    case (LoadSaved xs)
    have k: "distinct (foldl keepIdentity [] xs)" "\<forall>i \<in> set (foldl keepIdentity [] xs). normalized i"
      using foldl_clean [of "[]" xs] by (simp_all add: clean_def)
    have t: "\<forall>i \<in> set (take (sel_limit s) (foldl keepIdentity [] xs)). normalized i" using k(2) by (meson in_set_takeD)
    show ?thesis unfolding LoadSaved applyOp.simps loadSavedSelection_def Let_def
      by (rule merge_ok) (use limit norm k(1) t in auto)
  next
    case (SetDraft i selected)
    then show ?thesis using setDraftSelected_ok [OF ok] by simp
  next
    case Save
    show ?thesis unfolding Save applyOp.simps saveSelection_def
      by (rule merge_ok) (use limit norm in auto)
  next
    case Discard
    show ?thesis unfolding Discard applyOp.simps discardChanges_def
      by (rule merge_ok) (use limit norm in auto)
  next
    case (Sort column ascending)
    then show ?thesis using ok by (auto simp: sortDevices_def applySort_def selection_ok_def sorted_devices)
  qed
qed

lemma foldl_ok: "selection_ok s \<Longrightarrow> selection_ok (foldl (\<lambda>s op. applyOp op s) s ops)"
  by (induction ops arbitrary: s) (auto simp: applyOp_ok)

text \<open>
  C35: whatever the operations and their order, the saved and the draft selection stay free of duplicates,
  normalized and within the limit, every saved device stays in the inventory, an absent device is
  listed only when it is saved, and the inventory is in the display order of the chosen column.
\<close>

theorem selection_invariant:
  assumes "newSelection limit = Some s"
  shows "selection_ok (foldl (\<lambda>s op. applyOp op s) s ops)"
  using assms by (intro foldl_ok) (auto simp: newSelection_def selection_ok_def split: if_splits)

theorem selection_invariant_witness:
  "selection_ok (foldl (\<lambda>s op. applyOp op s)
     \<lparr>sel_limit = 2, sel_devices = [], sel_saved = [], sel_draft = [], sel_column = ByName, sel_ascending = True\<rparr>
     [LoadSaved [\<lparr>di_adapter = ''aa'', di_device = ''bb''\<rparr>], Discard])"
  by (rule selection_invariant [of 2]) (simp add: newSelection_def)

text \<open>
  Monitoring can start only for a saved selection that the user is not editing and whose devices are all
  present; and a stop is offered only where no start is.
\<close>

lemma canStartMonitoring_present:
  assumes "selection_ok s" and "canStartMonitoring s" and "i \<in> set (sel_saved s)"
  shows "i \<in> set (sel_draft s) \<and> (\<exists>d \<in> set (sel_devices s). de_identity d = i \<and> de_present d)"
  using assms by (auto simp: canStartMonitoring_def hasUnsavedChanges_def)

lemma actions_exclusive:
  "\<not> (av_start_monitoring (deviceActionAvailability d c) \<and> av_stop_monitoring (deviceActionAvailability d c)) \<and>
   \<not> (av_connect (deviceActionAvailability d c) \<and> av_disconnect (deviceActionAvailability d c))"
  by (auto simp: deviceActionAvailability_def Let_def)

end
