(* ===== verification/DeviceMonitor.thy ===== *)
theory DeviceMonitor
  imports DeviceSelection AncsClient
begin

text \<open>
  What the graphical clients keep about monitoring: the bounded store of events with its filter, the
  controller that starts and stops monitors with a growing delay between attempts, and the desktop
  alerts.  Times are in milliseconds; the Unicode case folding of GLib is the parameter \<open>caseFold\<close>.
\<close>

section \<open>The event store\<close>

record monitor_event =
  me_identity :: identity
  me_sequence :: u64
  me_received :: int
  me_event :: ancs_event

record event_store =
  es_maximum :: nat
  es_next :: u64
  es_evicted :: u64
  es_events :: "monitor_event list"

text \<open>\<open>None\<close> is the exception for a limit of zero.\<close>

definition newStore :: "nat \<Rightarrow> event_store option" where
  "newStore maximum =
     (if maximum = 0 then None
      else Some \<lparr>es_maximum = maximum, es_next = 1, es_evicted = 0, es_events = []\<rparr>)"

text \<open>The insertion at \<open>std::upper_bound\<close>, behind the events with the same number.\<close>

definition insertEvent :: "monitor_event \<Rightarrow> monitor_event list \<Rightarrow> monitor_event list" where
  "insertEvent e es =
     takeWhile (\<lambda>c. \<not> me_sequence e < me_sequence c) es @ e # dropWhile (\<lambda>c. \<not> me_sequence e < me_sequence c) es"

definition stamp :: "u64 \<Rightarrow> monitor_event \<Rightarrow> monitor_event" where
  "stamp next e = (if me_sequence e = 0 then e\<lparr>me_sequence := next\<rparr> else e)"

definition appendEvent :: "event_store \<Rightarrow> monitor_event \<Rightarrow> event_store" where
  "appendEvent s e =
     (let e1 = stamp (es_next s) e;
          events = insertEvent e1 (es_events s);
          s1 = s\<lparr>es_next := max (es_next s) (me_sequence e1 + 1)\<rparr>
      in if length events > es_maximum s
         then s1\<lparr>es_events := tl events, es_evicted := es_evicted s + 1\<rparr>
         else s1\<lparr>es_events := events\<rparr>)"

definition eventsFor :: "identity \<Rightarrow> event_store \<Rightarrow> monitor_event list" where
  "eventsFor i s = filter (\<lambda>e. me_identity e = i) (es_events s)"

definition eventForSequence :: "u64 \<Rightarrow> event_store \<Rightarrow> monitor_event option" where
  "eventForSequence n s = find (\<lambda>e. me_sequence e = n) (es_events s)"

definition clearStore :: "event_store \<Rightarrow> event_store \<times> nat" where
  "clearStore s = (s\<lparr>es_events := [], es_evicted := 0\<rparr>, length (es_events s))"

record event_filter =
  ef_identity :: "identity option"
  ef_kind :: "ancs_event_kind option"
  ef_category :: "u8 option"
  ef_search :: string

fun startsWith :: "string \<Rightarrow> string \<Rightarrow> bool" where
  "startsWith [] v = True"
| "startsWith (q # qs) [] = False"
| "startsWith (q # qs) (c # cs) = (q = c \<and> startsWith qs cs)"

fun containsText :: "string \<Rightarrow> string \<Rightarrow> bool" where
  "containsText q [] = (q = [])"
| "containsText q (c # cs) = (startsWith q (c # cs) \<or> containsText q cs)"

definition matchesEventFilter ::
    "(string \<Rightarrow> string) \<Rightarrow> monitor_event \<Rightarrow> event_filter \<Rightarrow> string \<Rightarrow> bool" where
  "matchesEventFilter caseFold e f deviceName =
     (if ef_identity f \<noteq> None \<and> ef_identity f \<noteq> Some (me_identity e) then False
      else if ef_kind f \<noteq> None \<and> ef_kind f \<noteq> Some (ev_kind (me_event e)) then False
      else if ef_category f \<noteq> None \<and>
        (case ev_notification (me_event e) of None \<Rightarrow> True | Some n \<Rightarrow> ef_category f \<noteq> Some (an_category n)) then False
      else if ef_search f = [] then True
      else
        let has = (\<lambda>v. containsText (caseFold (ef_search f)) (caseFold v));
            hasOpt = (\<lambda>v. case v of None \<Rightarrow> False | Some t \<Rightarrow> has t)
        in if has deviceName \<or> has (di_adapter (me_identity e)) \<or> has (di_device (me_identity e)) then True
           else if (case ev_notification (me_event e) of None \<Rightarrow> False
               | Some n \<Rightarrow> hasOpt (an_app_identifier n) \<or> hasOpt (an_title n) \<or> hasOpt (an_subtitle n) \<or>
                   hasOpt (an_message n) \<or> hasOpt (an_date n)) then True
           else (case ev_error (me_event e) of None \<Rightarrow> False | Some err \<Rightarrow> has (ae_message err)))"

section \<open>The controller of the monitors\<close>

record monitor_state =
  ms_identity :: identity
  ms_saved :: bool
  ms_requested :: bool
  ms_present :: bool
  ms_paired :: bool
  ms_connected :: bool
  ms_active :: bool
  ms_restart :: bool
  ms_busy :: bool

datatype monitor_action = StartMonitor | StopMonitor

record retry_state =
  ry_identity :: identity
  ry_attempts :: nat
  ry_next :: int

definition resetRetries :: "identity \<Rightarrow> retry_state list \<Rightarrow> retry_state list" where
  "resetRetries i rs = filter (\<lambda>r. ry_identity r \<noteq> i) rs"

definition newRetry :: "identity \<Rightarrow> retry_state" where
  "newRetry i = \<lparr>ry_identity = i, ry_attempts = 0, ry_next = 0\<rparr>"

text \<open>\<open>retryStateFor\<close> adds a state when there is none; \<open>retryOf\<close> is the state it refers to.\<close>

definition retryOf :: "identity \<Rightarrow> retry_state list \<Rightarrow> retry_state" where
  "retryOf i rs = (case find (\<lambda>r. ry_identity r = i) rs of Some r \<Rightarrow> r | None \<Rightarrow> newRetry i)"

definition retryStateFor :: "identity \<Rightarrow> retry_state list \<Rightarrow> retry_state list" where
  "retryStateFor i rs = (if find (\<lambda>r. ry_identity r = i) rs = None then rs @ [newRetry i] else rs)"

fun updateFirst :: "('a \<Rightarrow> bool) \<Rightarrow> ('a \<Rightarrow> 'a) \<Rightarrow> 'a list \<Rightarrow> 'a list" where
  "updateFirst P f [] = []"
| "updateFirst P f (x # xs) = (if P x then f x # xs else x # updateFirst P f xs)"

definition reconcileOne ::
    "bool \<Rightarrow> int \<Rightarrow> monitor_state \<Rightarrow> retry_state list \<Rightarrow> retry_state list \<times> (identity \<times> monitor_action) list" where
  "reconcileOne allowStarts now d rs =
     (let rs1 = (if \<not> ms_saved d \<or> \<not> ms_requested d \<or> \<not> ms_present d \<or> \<not> ms_paired d \<or> \<not> ms_connected d
                 then resetRetries (ms_identity d) rs else rs);
          connected = (ms_present d \<and> ms_paired d \<and> ms_connected d)
      in if ms_busy d then (rs1, [])
         else if ms_active d \<and> (\<not> ms_saved d \<or> \<not> ms_requested d \<or> \<not> connected \<or> ms_restart d)
         then (rs1, [(ms_identity d, StopMonitor)])
         else if \<not> allowStarts \<or> \<not> ms_saved d \<or> \<not> ms_requested d \<or> \<not> connected \<or> ms_active d then (rs1, [])
         else
           let rs2 = retryStateFor (ms_identity d) rs1
           in if now < ry_next (retryOf (ms_identity d) rs2) then (rs2, []) else (rs2, [(ms_identity d, StartMonitor)]))"

fun reconcile ::
    "bool \<Rightarrow> int \<Rightarrow> monitor_state list \<Rightarrow> retry_state list \<Rightarrow> retry_state list \<times> (identity \<times> monitor_action) list" where
  "reconcile allowStarts now [] rs = (rs, [])"
| "reconcile allowStarts now (d # ds) rs =
     (case reconcileOne allowStarts now d rs of
        (rs1, cs) \<Rightarrow> (case reconcile allowStarts now ds rs1 of (rs2, cs') \<Rightarrow> (rs2, cs @ cs')))"

definition kMaximumRetryDelay :: int where "kMaximumRetryDelay = 60"

text \<open>The loop that doubles the delay, in seconds.\<close>

fun backoff :: "nat \<Rightarrow> int \<Rightarrow> int" where
  "backoff 0 delay = delay"
| "backoff (Suc n) delay = (if delay < kMaximumRetryDelay then backoff n (min (delay * 2) kMaximumRetryDelay) else delay)"

text \<open>\<open>None\<close> is the exception for a jitter that is out of range.\<close>

definition recordStartFailure ::
    "identity \<Rightarrow> int \<Rightarrow> int \<Rightarrow> retry_state list \<Rightarrow> (retry_state list \<times> int) option" where
  "recordStartFailure i now jitterPercent rs =
     (if jitterPercent < 80 \<or> jitterPercent > 100 then None
      else
        let rs1 = retryStateFor i rs;
            old = ry_attempts (retryOf i rs1);
            attempts = (if old < 5 then old + 1 else old);
            jittered = backoff (attempts - 1) 5 * 1000 * jitterPercent div 100
        in Some (updateFirst (\<lambda>r. ry_identity r = i) (\<lambda>r. r\<lparr>ry_attempts := attempts, ry_next := now + jittered\<rparr>) rs1, jittered))"

definition recordStartSuccess :: "identity \<Rightarrow> retry_state list \<Rightarrow> retry_state list" where
  "recordStartSuccess i rs = resetRetries i rs"

section \<open>Desktop alerts\<close>

definition shouldSendDesktopAlert :: "ancs_event \<Rightarrow> bool" where
  "shouldSendDesktopAlert e \<longleftrightarrow> ev_kind e = EvNotificationAdded"

definition makeDesktopAlert :: "identity \<Rightarrow> nat \<Rightarrow> string \<times> string \<times> string" where
  "makeDesktopAlert i number =
     (''device:'' @ di_adapter i @ ''|'' @ di_device i, ''New iPhone notification'',
      to_string number @
      (if number = 1 then '' new notification arrived. Open Dmn Bluetooth to view it.''
       else '' new notifications arrived. Open Dmn Bluetooth to view them.''))"

section \<open>The store refines the list of all events\<close>

text \<open>The store without a limit: the next number and every event since the last \<open>clear\<close>.\<close>

definition appendIdeal :: "u64 \<times> monitor_event list \<Rightarrow> monitor_event \<Rightarrow> u64 \<times> monitor_event list" where
  "appendIdeal a e =
     (let e1 = stamp (fst a) e in (max (fst a) (me_sequence e1 + 1), insertEvent e1 (snd a)))"

abbreviation byNumber :: "monitor_event list \<Rightarrow> bool" where
  "byNumber \<equiv> sorted_wrt (\<lambda>a b. me_sequence a \<le> me_sequence b)"

lemma length_insertEvent [simp]: "length (insertEvent e es) = Suc (length es)"
  unfolding insertEvent_def using takeWhile_dropWhile_id [of "\<lambda>c. \<not> me_sequence e < me_sequence c" es]
  by (metis add_Suc_right length_Cons length_append)

lemma mset_insertEvent [simp]: "mset (insertEvent e es) = add_mset e (mset es)"
  unfolding insertEvent_def using takeWhile_dropWhile_id [of "\<lambda>c. \<not> me_sequence e < me_sequence c" es]
  by (metis mset_append mset.simps(2) union_mset_add_mset_right)

lemma insertEvent_Cons:
  "insertEvent e (x # xs) = (if me_sequence e < me_sequence x then e # x # xs else x # insertEvent e xs)"
  by (simp add: insertEvent_def)

lemma insertEvent_sorted: "byNumber es \<Longrightarrow> byNumber (insertEvent e es)"
proof (induction es)
  case (Cons x xs)
  have "y \<in> set (insertEvent e xs) \<longleftrightarrow> y = e \<or> y \<in> set xs" for y
    using mset_insertEvent [of e xs] by (metis insert_iff set_mset_add_mset_insert set_mset_mset)
  then show ?case using Cons by (auto simp: insertEvent_Cons)
qed (simp add: insertEvent_def)

text \<open>Dropping the oldest event commutes with the insertion.\<close>

lemma drop_insertEvent:
  "byNumber es \<Longrightarrow> k \<le> length es \<Longrightarrow> tl (insertEvent e (drop k es)) = drop (Suc k) (insertEvent e es)"
proof (induction es arbitrary: k)
  case (Cons x xs)
  show ?case
  proof (cases k)
    case (Suc j)
    show ?thesis
    proof (cases "me_sequence e < me_sequence x")
      case True
      have "insertEvent e (drop j xs) = e # drop j xs"
      proof (cases "drop j xs")
        case (Cons y ys)
        then have "y \<in> set xs" by (metis in_set_dropD list.set_intros(1))
        then have "me_sequence e < me_sequence y" using True Cons.prems(1) by auto
        then show ?thesis by (simp add: Cons insertEvent_Cons)
      qed (simp add: insertEvent_def)
      then show ?thesis using Suc True by (simp add: insertEvent_Cons)
    next
      case False
      then show ?thesis using Suc Cons.IH [of j] Cons.prems by (simp add: insertEvent_Cons)
    qed
  qed (simp add: drop_Suc)
qed (simp add: insertEvent_def)

definition store_rel :: "nat \<Rightarrow> event_store \<Rightarrow> u64 \<times> monitor_event list \<Rightarrow> bool" where
  "store_rel maximum s a \<longleftrightarrow> es_maximum s = maximum \<and> es_next s = fst a \<and> byNumber (snd a) \<and>
     es_events s = drop (length (snd a) - maximum) (snd a) \<and> es_evicted s = of_nat (length (snd a) - maximum)"

lemma appendEvent_rel:
  assumes rel: "store_rel maximum s a"
  shows "store_rel maximum (appendEvent s e) (appendIdeal a e)"
proof -
  let ?e = "stamp (fst a) e" and ?k = "length (snd a) - maximum"
  have s: "es_maximum s = maximum" "es_next s = fst a" "byNumber (snd a)" "es_events s = drop ?k (snd a)" "es_evicted s = of_nat ?k"
    using rel by (simp_all add: store_rel_def)
  have sorted: "byNumber (insertEvent ?e (snd a))" by (rule insertEvent_sorted [OF s(3)])
  show ?thesis
  proof (cases "length (snd a) \<ge> maximum")
    case True
    have "tl (insertEvent ?e (drop ?k (snd a))) = drop (Suc ?k) (insertEvent ?e (snd a))"
      by (rule drop_insertEvent [OF s(3)]) simp
    moreover have "length (drop ?k (snd a)) = maximum" using True by simp
    moreover have "Suc (length (snd a)) - maximum = Suc ?k" using True by simp
    ultimately show ?thesis
      using sorted by (simp add: store_rel_def appendEvent_def appendIdeal_def Let_def s add.commute)
  next
    case False
    then show ?thesis using sorted by (simp add: store_rel_def appendEvent_def appendIdeal_def Let_def s)
  qed
qed

lemma appendEvents_rel: "store_rel maximum s a \<Longrightarrow> store_rel maximum (foldl appendEvent s es) (foldl appendIdeal a es)"
  by (induction es arbitrary: s a) (simp_all add: appendEvent_rel)

text \<open>
  C36: the bounded store holds, of all events that were appended, the ones with the greatest numbers, in the
  order of their numbers and of their arrival, and counts the ones it has dropped.
\<close>

theorem event_store_refines:
  assumes "newStore maximum = Some s"
  shows "let s' = foldl appendEvent s es; all = snd (foldl appendIdeal (1, []) es)
    in byNumber all \<and> length (es_events s') \<le> maximum \<and> es_events s' = drop (length all - maximum) all \<and>
       es_evicted s' = of_nat (length all - maximum)"
proof -
  have "store_rel maximum s (1, [])" using assms by (auto simp: newStore_def store_rel_def split: if_splits)
  from appendEvents_rel [OF this, of es] show ?thesis by (simp add: store_rel_def Let_def)
qed

definition sampleEvent :: "int \<Rightarrow> monitor_event" where
  "sampleEvent t = \<lparr>me_identity = \<lparr>di_adapter = ''A'', di_device = ''B''\<rparr>, me_sequence = 0, me_received = t,
     me_event = stateEvent AsReady\<rparr>"

theorem event_store_refines_witness:
  "length (es_events (foldl appendEvent \<lparr>es_maximum = 2, es_next = 1, es_evicted = 0, es_events = []\<rparr> (map sampleEvent [4, 5, 6]))) \<le> 2"
proof -
  have "newStore 2 = Some \<lparr>es_maximum = 2, es_next = 1, es_evicted = 0, es_events = []\<rparr>" by (simp add: newStore_def)
  from event_store_refines [OF this, of "map sampleEvent [4, 5, 6]"] show ?thesis unfolding Let_def by blast
qed

section \<open>Retries\<close>

lemma backoff_bounds: "5 \<le> d \<Longrightarrow> d \<le> 60 \<Longrightarrow> 5 \<le> backoff n d \<and> backoff n d \<le> 60"
  by (induction n arbitrary: d) (auto simp: kMaximumRetryDelay_def)

lemma updateFirst_find: "(\<And>x. P x \<Longrightarrow> P (f x)) \<Longrightarrow> find P (updateFirst P f xs) = map_option f (find P xs)"
  by (induction xs) auto

lemma find_append_new: "find P xs = None \<Longrightarrow> P y \<Longrightarrow> find P (xs @ [y]) = Some y"
  by (induction xs) (auto split: if_splits)

lemma retryStateFor_find: "find (\<lambda>r. ry_identity r = i) (retryStateFor i rs) = Some (retryOf i rs)"
  by (auto simp: retryStateFor_def retryOf_def newRetry_def find_append_new split: option.splits)

lemma retryOf_retryStateFor [simp]: "retryOf i (retryStateFor i rs) = retryOf i rs"
  by (simp add: retryOf_def [of i "retryStateFor i rs"] retryStateFor_find)

lemma find_other: "i \<noteq> j \<Longrightarrow> find (\<lambda>r. ry_identity r = i) (resetRetries j rs) = find (\<lambda>r. ry_identity r = i) rs"
  by (induction rs) (auto simp: resetRetries_def)

lemma find_none_append: "\<not> P y \<Longrightarrow> find P (xs @ [y]) = find P xs"
  by (induction xs) auto

lemma retryOf_other:
  assumes "i \<noteq> j"
  shows "retryOf i (resetRetries j rs) = retryOf i rs" "retryOf i (retryStateFor j rs) = retryOf i rs"
  using assms by (auto simp: retryOf_def find_other retryStateFor_def newRetry_def find_none_append)

lemma retryOf_update:
  "(\<And>r. ry_identity (f r) = ry_identity r) \<Longrightarrow>
    retryOf i (updateFirst (\<lambda>r. ry_identity r = i) f (retryStateFor i rs)) = f (retryOf i rs)"
  by (subst retryOf_def) (simp add: updateFirst_find retryStateFor_find)

lemma recordStartFailure_cases:
  assumes "recordStartFailure i now j rs = Some (rs', d)"
  obtains n where "80 \<le> j" "j \<le> 100" "d = backoff n 5 * 1000 * j div 100" "ry_next (retryOf i rs') = now + d"
proof -
  let ?old = "ry_attempts (retryOf i rs)"
  let ?a = "if ?old < 5 then ?old + 1 else ?old"
  have j: "80 \<le> j" "j \<le> 100" using assms by (auto simp: recordStartFailure_def split: if_splits)
  have d: "d = backoff (?a - 1) 5 * 1000 * j div 100"
    and rs: "rs' = updateFirst (\<lambda>r. ry_identity r = i) (\<lambda>r. r\<lparr>ry_attempts := ?a, ry_next := now + d\<rparr>) (retryStateFor i rs)"
    using assms by (auto simp: recordStartFailure_def Let_def split: if_splits)
  have "retryOf i rs' = (retryOf i rs)\<lparr>ry_attempts := ?a, ry_next := now + d\<rparr>"
    unfolding rs by (rule retryOf_update) simp
  then have "ry_next (retryOf i rs') = now + d" by simp
  then show thesis using that [OF j d] by blast
qed

text \<open>
  A failed start is followed by a delay of at least four seconds and at most a minute, whatever the
  jitter and the number of failures before, and the controller does not start the device earlier.
\<close>

theorem retry_delay_bounds:
  assumes "recordStartFailure i now jitter rs = Some (rs', d)" and "ms_identity s = i" and "t < now + d"
  shows "4000 \<le> d \<and> d \<le> 60000 \<and> (i, StartMonitor) \<notin> set (snd (reconcileOne allowStarts t s rs'))"
proof (rule recordStartFailure_cases [OF assms(1)])
  fix k
  assume j: "80 \<le> jitter" "jitter \<le> 100" and d: "d = backoff k 5 * 1000 * jitter div 100"
    and n: "ry_next (retryOf i rs') = now + d"
  let ?b = "backoff k 5"
  have b: "5 \<le> ?b" "?b \<le> 60" using backoff_bounds [of 5 k] by simp_all
  have "400000 \<le> ?b * 1000 * jitter" using mult_mono [of 5000 "?b * 1000" 80 jitter] b j by simp
  moreover have "?b * 1000 * jitter \<le> 6000000" using mult_mono [of "?b * 1000" 60000 jitter 100] b j by simp
  ultimately have "4000 \<le> d" "d \<le> 60000" unfolding d by linarith+
  then show ?thesis using n assms(2,3) by (auto simp: reconcileOne_def Let_def)
qed

definition wantedState :: "identity \<Rightarrow> monitor_state" where
  "wantedState i = \<lparr>ms_identity = i, ms_saved = True, ms_requested = True, ms_present = True, ms_paired = True,
     ms_connected = True, ms_active = False, ms_restart = False, ms_busy = False\<rparr>"

theorem retry_delay_bounds_witness:
  "(\<lparr>di_adapter = ''A'', di_device = ''B''\<rparr>, StartMonitor) \<notin> set (snd (reconcileOne True 4600 (wantedState \<lparr>di_adapter = ''A'', di_device = ''B''\<rparr>)
     [\<lparr>ry_identity = \<lparr>di_adapter = ''A'', di_device = ''B''\<rparr>, ry_attempts = 1, ry_next = 5000\<rparr>]))"
proof -
  let ?i = "\<lparr>di_adapter = ''A'', di_device = ''B''\<rparr>"
  have "recordStartFailure ?i 0 100 [] = Some ([\<lparr>ry_identity = ?i, ry_attempts = 1, ry_next = 5000\<rparr>], 5000)" by code_simp
  from retry_delay_bounds [OF this, of "wantedState ?i" 4600 True] show ?thesis by (simp add: wantedState_def)
qed

text \<open>Consecutive failures, all with the same jitter, and the delays they lead to.\<close>

fun failures :: "nat \<Rightarrow> identity \<Rightarrow> int \<Rightarrow> retry_state list \<Rightarrow> int list" where
  "failures 0 i jitter rs = []"
| "failures (Suc n) i jitter rs =
     (case recordStartFailure i 0 jitter rs of None \<Rightarrow> [] | Some (rs', d) \<Rightarrow> d # failures n i jitter rs')"

lemma delays_double: "failures 7 \<lparr>di_adapter = ''A'', di_device = ''B''\<rparr> 100 [] = [5000, 10000, 20000, 40000, 60000, 60000, 60000]"
  by code_simp

text \<open>The command for a device when the controller is asked at the time \<open>now\<close>.\<close>

definition monitorCommand :: "bool \<Rightarrow> int \<Rightarrow> retry_state list \<Rightarrow> monitor_state \<Rightarrow> (identity \<times> monitor_action) list" where
  "monitorCommand allowStarts now rs d =
     (let wanted = (ms_saved d \<and> ms_requested d \<and> ms_present d \<and> ms_paired d \<and> ms_connected d)
      in if \<not> ms_busy d \<and> ms_active d \<and> (\<not> wanted \<or> ms_restart d) then [(ms_identity d, StopMonitor)]
         else if \<not> ms_busy d \<and> \<not> ms_active d \<and> wanted \<and> allowStarts \<and> now \<ge> ry_next (retryOf (ms_identity d) rs)
         then [(ms_identity d, StartMonitor)]
         else [])"

lemma reconcileOne_command: "snd (reconcileOne allowStarts now d rs) = monitorCommand allowStarts now rs d"
  by (cases "ms_busy d"; cases "ms_active d"; cases "ms_saved d"; cases "ms_requested d"; cases "ms_present d"; cases "ms_paired d";
      cases "ms_connected d"; simp add: reconcileOne_def monitorCommand_def Let_def)

lemma reconcileOne_other: "i \<noteq> ms_identity d \<Longrightarrow> retryOf i (fst (reconcileOne allowStarts now d rs)) = retryOf i rs"
  by (simp add: reconcileOne_def Let_def retryOf_other)

lemma monitorCommand_cong: "retryOf (ms_identity d) rs' = retryOf (ms_identity d) rs \<Longrightarrow>
    monitorCommand allowStarts now rs' d = monitorCommand allowStarts now rs d"
  by (simp add: monitorCommand_def Let_def)

text \<open>
  C37: for devices with distinct identities the controller commands exactly this: a stop for an idle active
  monitor whose device is no longer wanted or whose session ended, a start for an idle inactive monitor
  whose device is wanted and whose delay has elapsed, and nothing else.
\<close>

theorem reconcile_exact:
  assumes "distinct (map ms_identity ds)"
  shows "snd (reconcile allowStarts now ds rs) = concat (map (monitorCommand allowStarts now rs) ds)"
  using assms
proof (induction ds arbitrary: rs)
  case (Cons d ds)
  let ?rs = "fst (reconcileOne allowStarts now d rs)"
  have "monitorCommand allowStarts now ?rs x = monitorCommand allowStarts now rs x" if "x \<in> set ds" for x
  proof (rule monitorCommand_cong, rule reconcileOne_other)
    show "ms_identity x \<noteq> ms_identity d" using Cons.prems that by (metis distinct.simps(2) image_eqI list.simps(9) list.set_map)
  qed
  then have m: "map (monitorCommand allowStarts now ?rs) ds = map (monitorCommand allowStarts now rs) ds"
    by (intro map_cong refl)
  have "snd (reconcile allowStarts now ds ?rs) = concat (map (monitorCommand allowStarts now ?rs) ds)"
    using Cons.IH [of ?rs] Cons.prems by simp
  also have "\<dots> = concat (map (monitorCommand allowStarts now rs) ds)" by (rule arg_cong [OF m])
  finally show ?case
    using reconcileOne_command [of allowStarts now d rs] by (simp add: split_beta)
qed simp

theorem reconcile_exact_witness:
  "snd (reconcile True 7 [wantedState \<lparr>di_adapter = ''A'', di_device = ''B''\<rparr>] []) = [(\<lparr>di_adapter = ''A'', di_device = ''B''\<rparr>, StartMonitor)]"
  using reconcile_exact [of "[wantedState \<lparr>di_adapter = ''A'', di_device = ''B''\<rparr>]" True 7 "[]"]
  by (simp add: monitorCommand_def wantedState_def retryOf_def newRetry_def)

end
