(* ===== verification/AsyncPipe.thy ===== *)
theory AsyncPipe
  imports Dmn_Prelude
begin

text \<open>
  \<open>Dmn_Pipe\<close> with scheduled writes, and \<open>Dmn_Async\<close> on top of it: one worker thread that takes immediate
  items in order and scheduled items when they are due.  A step is one critical section of \<open>m_mutex\<close>, one
  call of the task, or one notification; the queue under the pipe is the FIFO queue of \<open>BlockingQueue\<close>,
  which the pipe only uses under its own mutex; its shutdown, after the worker has ended, is left out.  Items are numbers, times are ticks of the steady clock.
\<close>

section \<open>State\<close>

datatype entry = Now nat | At int nat

text \<open>The worker; \<open>PSleep\<close> waits on \<open>m_work_cond\<close>, with the deadline of the wait.\<close>

datatype worker_pc =
    PLook
  | PSleep "int option"
  | PRun nat
  | PCount
  | PNotify
  | PFail
  | PFailNotify
  | PEnd

text \<open>The calls; \<open>QBlocked\<close> waits on \<open>m_empty_cond\<close>, \<open>QRetest\<close> has been woken.\<close>

datatype call_pc =
    QWrite nat
  | QWriteAt int nat
  | QWait
  | QBlocked nat
  | QRetest nat
  | QReturn nat
  | QRethrow
  | QRefused
  | QShutdown
  | QShutNotify
  | QJoin
  | QDone

text \<open>\<open>pq_accepted\<close> and \<open>pq_picked\<close> record what was written and what the worker took, and when.\<close>

record pipe =
  pq_immediate :: "nat list"
  pq_scheduled :: "(int \<times> nat) list"
  pq_count :: nat
  pq_submitted :: nat
  pq_failed :: bool
  pq_shutdown :: bool
  pq_now :: int
  pq_worker :: worker_pc
  pq_calls :: "call_pc list"
  pq_accepted :: "entry list"
  pq_picked :: "(int \<times> entry) list"

definition newPipe :: pipe where
  "newPipe = \<lparr>pq_immediate = [], pq_scheduled = [], pq_count = 0, pq_submitted = 0, pq_failed = False,
     pq_shutdown = False, pq_now = 0, pq_worker = PLook, pq_calls = [], pq_accepted = [], pq_picked = []\<rparr>"

text \<open>The multimap of deadlines: behind the entries with the same deadline.\<close>

fun scheduleAt :: "int \<Rightarrow> nat \<Rightarrow> (int \<times> nat) list \<Rightarrow> (int \<times> nat) list" where
  "scheduleAt d x [] = [(d, x)]"
| "scheduleAt d x ((e, y) # es) = (if d < e then (d, x) # (e, y) # es else (e, y) # scheduleAt d x es)"

definition toPipeWorker :: "worker_pc \<Rightarrow> pipe \<Rightarrow> pipe" where
  "toPipeWorker pc s = s\<lparr>pq_worker := pc\<rparr>"

definition toPipeCall :: "nat \<Rightarrow> call_pc \<Rightarrow> pipe \<Rightarrow> pipe" where
  "toPipeCall k pc s = s\<lparr>pq_calls := (pq_calls s)[k := pc]\<rparr>"

text \<open>Only the worker waits on \<open>m_work_cond\<close>, so one notification wakes it.\<close>

definition notifyWork :: "pipe \<Rightarrow> pipe" where
  "notifyWork s = (case pq_worker s of PSleep d \<Rightarrow> toPipeWorker PLook s | _ \<Rightarrow> s)"

fun wakeCall :: "call_pc \<Rightarrow> call_pc" where
  "wakeCall (QBlocked n) = QRetest n"
| "wakeCall c = c"

definition notifyEmpty :: "pipe \<Rightarrow> pipe" where
  "notifyEmpty s = s\<lparr>pq_calls := map wakeCall (pq_calls s)\<rparr>"

section \<open>The worker\<close>

text \<open>The critical section in which the worker looks for an item.\<close>

definition scheduledProcessingLoop :: "pipe \<Rightarrow> pipe" where
  "scheduledProcessingLoop s =
     (if pq_failed s then toPipeWorker PEnd s
      else case pq_immediate s of
        x # rest \<Rightarrow> toPipeWorker (PRun x) (s\<lparr>pq_immediate := rest, pq_picked := pq_picked s @ [(pq_now s, Now x)]\<rparr>)
      | [] \<Rightarrow>
          (case pq_scheduled s of
             (d, x) # rest \<Rightarrow>
               if d \<le> pq_now s
               then toPipeWorker (PRun x) (s\<lparr>pq_scheduled := rest, pq_picked := pq_picked s @ [(pq_now s, At d x)]\<rparr>)
               else toPipeWorker (PSleep (Some d)) s
           | [] \<Rightarrow> if pq_shutdown s then toPipeWorker PEnd s else toPipeWorker (PSleep None) s))"

definition recordProcessingFailure :: "pipe \<Rightarrow> pipe" where
  "recordProcessingFailure s = (case pq_worker s of
      PFail \<Rightarrow> toPipeWorker PFailNotify (s\<lparr>pq_failed := True\<rparr>)
    | PFailNotify \<Rightarrow> toPipeWorker PEnd (notifyEmpty s)
    | _ \<Rightarrow> s)"

text \<open>\<open>throws\<close> is the outcome of the task; a wait ends by a notification, its deadline or spuriously.\<close>

definition pipeWorkerStep :: "bool \<Rightarrow> pipe \<Rightarrow> pipe" where
  "pipeWorkerStep throws s = (case pq_worker s of
      PLook \<Rightarrow> scheduledProcessingLoop s
    | PSleep d \<Rightarrow> toPipeWorker PLook s
    | PRun x \<Rightarrow> toPipeWorker (if throws then PFail else PCount) s
    | PCount \<Rightarrow> toPipeWorker PNotify (s\<lparr>pq_count := pq_count s + 1\<rparr>)
    | PNotify \<Rightarrow> toPipeWorker PLook (notifyEmpty s)
    | PFail \<Rightarrow> recordProcessingFailure s
    | PFailNotify \<Rightarrow> recordProcessingFailure s
    | PEnd \<Rightarrow> s)"

section \<open>The calls\<close>

definition writePipe :: "nat \<Rightarrow> pipe \<Rightarrow> pipe option" where
  "writePipe x s =
     (if pq_shutdown s then None
      else Some (notifyWork (s\<lparr>pq_immediate := pq_immediate s @ [x], pq_submitted := pq_submitted s + 1,
        pq_accepted := pq_accepted s @ [Now x]\<rparr>)))"

definition writeAt :: "int \<Rightarrow> nat \<Rightarrow> pipe \<Rightarrow> pipe option" where
  "writeAt d x s =
     (if pq_shutdown s then None
      else Some (notifyWork (s\<lparr>pq_scheduled := scheduleAt d x (pq_scheduled s), pq_submitted := pq_submitted s + 1,
        pq_accepted := pq_accepted s @ [At d x]\<rparr>)))"

text \<open>The predicate of the wait, and what follows it.\<close>

definition testEmpty :: "nat \<Rightarrow> pipe \<Rightarrow> call_pc" where
  "testEmpty inbound s =
     (if pq_count s \<ge> inbound \<or> pq_failed s \<or> pq_shutdown s
      then (if pq_failed s then QRethrow else QReturn inbound) else QBlocked inbound)"

definition waitForEmpty :: "nat \<Rightarrow> pipe \<Rightarrow> pipe" where
  "waitForEmpty k s = (case pq_calls s ! k of
      QWait \<Rightarrow> toPipeCall k (testEmpty (pq_submitted s) s) s
    | QBlocked n \<Rightarrow> toPipeCall k (QRetest n) s
    | QRetest n \<Rightarrow> toPipeCall k (testEmpty n s) s
    | _ \<Rightarrow> s)"

definition shutdownPipe :: "nat \<Rightarrow> pipe \<Rightarrow> pipe" where
  "shutdownPipe k s = (case pq_calls s ! k of
      QShutdown \<Rightarrow> if pq_shutdown s then toPipeCall k QDone s else toPipeCall k QShutNotify (s\<lparr>pq_shutdown := True\<rparr>)
    | QShutNotify \<Rightarrow> toPipeCall k QJoin (notifyEmpty (notifyWork s))
    | QJoin \<Rightarrow> if pq_worker s = PEnd then toPipeCall k QDone s else s
    | _ \<Rightarrow> s)"

definition pipeCallStep :: "nat \<Rightarrow> pipe \<Rightarrow> pipe" where
  "pipeCallStep k s = (case pq_calls s ! k of
      QWrite x \<Rightarrow> (case writePipe x s of None \<Rightarrow> toPipeCall k QRefused s | Some s' \<Rightarrow> toPipeCall k QDone s')
    | QWriteAt d x \<Rightarrow> (case writeAt d x s of None \<Rightarrow> toPipeCall k QRefused s | Some s' \<Rightarrow> toPipeCall k QDone s')
    | QWait \<Rightarrow> waitForEmpty k s
    | QBlocked n \<Rightarrow> waitForEmpty k s
    | QRetest n \<Rightarrow> waitForEmpty k s
    | QShutdown \<Rightarrow> shutdownPipe k s
    | QShutNotify \<Rightarrow> shutdownPipe k s
    | QJoin \<Rightarrow> shutdownPipe k s
    | _ \<Rightarrow> s)"

datatype pipe_call =
    CallWrite nat
  | CallWriteAt int nat
  | CallWaitForEmpty
  | CallShutdownPipe

fun firstPc :: "pipe_call \<Rightarrow> call_pc" where
  "firstPc (CallWrite x) = QWrite x"
| "firstPc (CallWriteAt d x) = QWriteAt d x"
| "firstPc CallWaitForEmpty = QWait"
| "firstPc CallShutdownPipe = QShutdown"

definition newPipeCall :: "pipe_call \<Rightarrow> pipe \<Rightarrow> pipe" where
  "newPipeCall c s = s\<lparr>pq_calls := pq_calls s @ [firstPc c]\<rparr>"

inductive pipe_step :: "pipe \<Rightarrow> pipe \<Rightarrow> bool" where
  pipe_work: "pipe_step s (pipeWorkerStep throws s)"
| pipe_client: "k < length (pq_calls s) \<Longrightarrow> pipe_step s (pipeCallStep k s)"
| pipe_new: "pipe_step s (newPipeCall c s)"
| pipe_time: "pipe_step s (s\<lparr>pq_now := pq_now s + int n\<rparr>)"

definition pipe_init :: "pipe \<Rightarrow> bool" where
  "pipe_init s \<longleftrightarrow> s = newPipe"

section \<open>Delays\<close>

text \<open>
  The deadline of \<open>Dmn_Async\<close>; \<open>None\<close> is the exception for a deadline that the clock cannot represent.
  \<open>delay\<close> is in ticks, which the conversion of the duration has checked.
\<close>

definition nextDeadline :: "int \<Rightarrow> int \<Rightarrow> int option" where
  "nextDeadline now delay = (if now > 0 \<and> delay > INT64_MAX - now then None else Some (now + delay))"

datatype delay_error = NegativeDelay | DeadlineOverflow | PipeShutdown

definition addExecTaskAfter :: "int \<Rightarrow> nat \<Rightarrow> pipe \<Rightarrow> delay_error + pipe" where
  "addExecTaskAfter delay x s =
     (if delay < 0 then Inl NegativeDelay
      else case nextDeadline (pq_now s) delay of
        None \<Rightarrow> Inl DeadlineOverflow
      | Some d \<Rightarrow> (case writeAt d x s of None \<Rightarrow> Inl PipeShutdown | Some s' \<Rightarrow> Inr s'))"

definition addExecTaskNow :: "nat \<Rightarrow> pipe \<Rightarrow> delay_error + pipe" where
  "addExecTaskNow x s = (case writePipe x s of None \<Rightarrow> Inl PipeShutdown | Some s' \<Rightarrow> Inr s')"

section \<open>Schedules\<close>

datatype pipe_action =
    ADoWork bool
  | ADoCall nat
  | ANew pipe_call
  | ATime nat

fun pipeDo :: "pipe_action \<Rightarrow> pipe \<Rightarrow> pipe" where
  "pipeDo (ADoWork throws) s = pipeWorkerStep throws s"
| "pipeDo (ADoCall k) s = (if k < length (pq_calls s) then pipeCallStep k s else s)"
| "pipeDo (ANew c) s = newPipeCall c s"
| "pipeDo (ATime n) s = s\<lparr>pq_now := pq_now s + int n\<rparr>"

end
