(* ===== verification/AsyncPipeProps.thy ===== *)
theory AsyncPipeProps
  imports AsyncPipe
begin

text \<open>
  The invariants of the scheduled pipe: nothing is lost or run twice, immediate items run in order, no
  scheduled item runs before its time, no wake-up is lost, and a shutdown drains the pipe.
\<close>

fun nows :: "entry list \<Rightarrow> nat list" where
  "nows [] = []"
| "nows (Now x # es) = x # nows es"
| "nows (At d x # es) = nows es"

fun ats :: "entry list \<Rightarrow> (int \<times> nat) list" where
  "ats [] = []"
| "ats (Now x # es) = ats es"
| "ats (At d x # es) = (d, x) # ats es"

lemma nows_append [simp]: "nows (es @ fs) = nows es @ nows fs"
  by (induction es rule: nows.induct) simp_all

lemma ats_append [simp]: "ats (es @ fs) = ats es @ ats fs"
  by (induction es rule: ats.induct) simp_all

lemma length_entries: "length es = length (nows es) + length (ats es)"
  by (induction es rule: nows.induct) simp_all

fun due :: "int \<Rightarrow> entry \<Rightarrow> bool" where
  "due t (Now x) = True"
| "due t (At d x) = (d \<le> t)"

fun inHand :: "worker_pc \<Rightarrow> bool" where
  "inHand (PRun x) = True"
| "inHand PCount = True"
| "inHand PFail = True"
| "inHand pc = False"

text \<open>What was accepted is what was picked and what still waits, and the counters agree with it.\<close>

definition contents_ok :: "pipe \<Rightarrow> bool" where
  "contents_ok s \<longleftrightarrow>
     nows (pq_accepted s) = nows (map snd (pq_picked s)) @ pq_immediate s \<and>
     mset (ats (pq_accepted s)) = mset (ats (map snd (pq_picked s))) + mset (pq_scheduled s) \<and>
     sorted_wrt (\<lambda>a b. fst a \<le> fst b) (pq_scheduled s) \<and>
     pq_submitted s = length (pq_accepted s) \<and>
     pq_count s + of_bool (inHand (pq_worker s) \<or> pq_failed s) = length (pq_picked s) \<and>
     (\<forall>(t, e) \<in> set (pq_picked s). due t e) \<and>
     (pq_failed s \<longrightarrow> pq_worker s \<in> {PFailNotify, PEnd}) \<and> (pq_worker s = PFailNotify \<longrightarrow> pq_failed s) \<and>
     (pq_worker s = PEnd \<and> \<not> pq_failed s \<longrightarrow> pq_shutdown s \<and> pq_immediate s = [] \<and> pq_scheduled s = [])"

text \<open>A thread sleeps only when nobody has to be woken, or somebody is about to wake it.\<close>

definition sleep_ok :: "pipe \<Rightarrow> bool" where
  "sleep_ok s \<longleftrightarrow> (case pq_worker s of
      PSleep None \<Rightarrow> pq_immediate s = [] \<and> pq_scheduled s = [] \<and> (pq_shutdown s \<longrightarrow> QShutNotify \<in> set (pq_calls s))
    | PSleep (Some d) \<Rightarrow> pq_immediate s = [] \<and> pq_scheduled s \<noteq> [] \<and> d = fst (hd (pq_scheduled s))
    | _ \<Rightarrow> True)"

definition blocked_ok :: "pipe \<Rightarrow> nat \<Rightarrow> bool" where
  "blocked_ok s n \<longleftrightarrow> (n \<le> pq_count s \<longrightarrow> pq_worker s = PNotify) \<and> (pq_failed s \<longrightarrow> pq_worker s = PFailNotify) \<and>
     (pq_shutdown s \<longrightarrow> QShutNotify \<in> set (pq_calls s))"

definition waits_ok :: "pipe \<Rightarrow> bool" where
  "waits_ok s \<longleftrightarrow> (\<forall>n. QBlocked n \<in> set (pq_calls s) \<longrightarrow> blocked_ok s n)"

definition returns_ok :: "pipe \<Rightarrow> bool" where
  "returns_ok s \<longleftrightarrow> (\<forall>n. QReturn n \<in> set (pq_calls s) \<longrightarrow> n \<le> pq_count s \<or> pq_shutdown s)"

definition pipe_ok :: "pipe \<Rightarrow> bool" where
  "pipe_ok s \<longleftrightarrow> contents_ok s \<and> sleep_ok s \<and> waits_ok s \<and> returns_ok s"

lemma scheduleAt_mset [simp]: "mset (scheduleAt d x es) = add_mset (d, x) (mset es)"
  by (induction d x es rule: scheduleAt.induct) auto

lemma scheduleAt_sorted: "sorted_wrt (\<lambda>a b. fst a \<le> fst b) es \<Longrightarrow> sorted_wrt (\<lambda>a b. fst a \<le> fst b) (scheduleAt d x es)"
proof (induction d x es rule: scheduleAt.induct)
  case (2 d x e y es)
  have "set (scheduleAt d x es) = insert (d, x) (set es)"
    using scheduleAt_mset [of d x es] by (metis set_mset_add_mset_insert set_mset_mset)
  then show ?case using 2 by auto
qed simp

lemma scheduleAt_nonempty [simp]: "scheduleAt d x es \<noteq> []"
  by (induction d x es rule: scheduleAt.induct) auto

lemmas pipe_defs = toPipeWorker_def toPipeCall_def

section \<open>The contents\<close>

lemma contents_worker:
  assumes ok: "contents_ok s"
  shows "contents_ok (pipeWorkerStep throws s)"
proof (cases "pq_worker s")
  case PLook
  then show ?thesis using ok
    by (cases "pq_immediate s"; cases "pq_scheduled s")
      (simp_all add: pipeWorkerStep_def scheduledProcessingLoop_def pipe_defs contents_ok_def split_beta)
qed (use ok in \<open>auto simp: pipeWorkerStep_def recordProcessingFailure_def notifyEmpty_def pipe_defs contents_ok_def\<close>)

lemma notifyWork_simps [simp]:
  "pq_immediate (notifyWork s) = pq_immediate s" "pq_scheduled (notifyWork s) = pq_scheduled s" "pq_count (notifyWork s) = pq_count s"
  "pq_submitted (notifyWork s) = pq_submitted s" "pq_failed (notifyWork s) = pq_failed s" "pq_shutdown (notifyWork s) = pq_shutdown s"
  "pq_now (notifyWork s) = pq_now s" "pq_calls (notifyWork s) = pq_calls s" "pq_accepted (notifyWork s) = pq_accepted s"
  "pq_picked (notifyWork s) = pq_picked s"
  by (simp_all add: notifyWork_def pipe_defs split: worker_pc.split)

lemma notifyWork_worker:
  "inHand (pq_worker (notifyWork s)) = inHand (pq_worker s)"
  "pq_worker (notifyWork s) = PEnd \<longleftrightarrow> pq_worker s = PEnd" "pq_worker (notifyWork s) = PFailNotify \<longleftrightarrow> pq_worker s = PFailNotify"
  "pq_worker (notifyWork s) = PNotify \<longleftrightarrow> pq_worker s = PNotify" "pq_worker (notifyWork s) \<noteq> PSleep d"
  by (cases "pq_worker s"; simp add: notifyWork_def pipe_defs)+

lemma contents_keep:
  assumes "contents_ok s" "pq_accepted s' = pq_accepted s" "pq_picked s' = pq_picked s" "pq_immediate s' = pq_immediate s"
    "pq_scheduled s' = pq_scheduled s" "pq_submitted s' = pq_submitted s" "pq_count s' = pq_count s" "pq_failed s' = pq_failed s"
    "inHand (pq_worker s') = inHand (pq_worker s)" "pq_worker s' = PEnd \<longleftrightarrow> pq_worker s = PEnd"
    "pq_worker s' = PFailNotify \<longleftrightarrow> pq_worker s = PFailNotify" "pq_shutdown s \<longrightarrow> pq_shutdown s'"
  shows "contents_ok s'"
  using assms by (simp add: contents_ok_def)

lemma contents_write: "contents_ok s \<Longrightarrow> writePipe x s = Some s' \<Longrightarrow> contents_ok s'"
  by (auto simp: writePipe_def contents_ok_def notifyWork_worker split: if_splits)

lemma contents_writeAt: "contents_ok s \<Longrightarrow> writeAt d x s = Some s' \<Longrightarrow> contents_ok s'"
  by (auto simp: writeAt_def contents_ok_def notifyWork_worker scheduleAt_sorted split: if_splits)

lemma contents_call: "contents_ok s \<Longrightarrow> contents_ok (toPipeCall k pc s)"
  by (erule contents_keep) (simp_all add: pipe_defs)

lemma contents_client:
  assumes ok: "contents_ok s"
  shows "contents_ok (pipeCallStep k s)"
proof (cases "pq_calls s ! k")
  case (QWrite x)
  then show ?thesis
    using contents_call [OF ok] contents_call [OF contents_write [OF ok]] by (simp add: pipeCallStep_def split: option.split)
next
  case (QWriteAt d x)
  then show ?thesis
    using contents_call [OF ok] contents_call [OF contents_writeAt [OF ok]] by (simp add: pipeCallStep_def split: option.split)
next
  case QShutdown
  have "contents_ok (s\<lparr>pq_shutdown := True\<rparr>)" using ok by (rule contents_keep) simp_all
  then show ?thesis using contents_call ok by (simp add: pipeCallStep_def shutdownPipe_def QShutdown)
next
  case QShutNotify
  have "contents_ok (notifyEmpty (notifyWork s))"
    using ok by (rule contents_keep) (simp_all add: notifyEmpty_def notifyWork_worker)
  then show ?thesis using contents_call by (simp add: pipeCallStep_def shutdownPipe_def QShutNotify)
qed (use ok contents_call [OF ok] in \<open>simp_all add: pipeCallStep_def waitForEmpty_def shutdownPipe_def\<close>)

section \<open>Sleeping threads\<close>

lemma blocked_keep:
  "blocked_ok s n \<Longrightarrow> pq_count s' = pq_count s \<Longrightarrow> pq_failed s' = pq_failed s \<Longrightarrow> pq_shutdown s' = pq_shutdown s \<Longrightarrow>
    (pq_worker s = PNotify \<Longrightarrow> pq_worker s' = PNotify) \<Longrightarrow> (pq_worker s = PFailNotify \<Longrightarrow> pq_worker s' = PFailNotify) \<Longrightarrow>
    (QShutNotify \<in> set (pq_calls s) \<Longrightarrow> QShutNotify \<in> set (pq_calls s')) \<Longrightarrow> blocked_ok s' n"
  by (auto simp: blocked_ok_def)

lemma wake_blocked [simp]: "QBlocked n \<notin> wakeCall ` A" "QShutNotify \<in> wakeCall ` A \<longleftrightarrow> QShutNotify \<in> A" "QReturn n \<in> wakeCall ` A \<longleftrightarrow> QReturn n \<in> A"
proof -
  have *: "wakeCall c = QShutNotify \<longleftrightarrow> c = QShutNotify" "wakeCall c = QReturn n \<longleftrightarrow> c = QReturn n" "wakeCall c \<noteq> QBlocked n" for c
    by (cases c; simp)+
  show "QBlocked n \<notin> wakeCall ` A" "QShutNotify \<in> wakeCall ` A \<longleftrightarrow> QShutNotify \<in> A" "QReturn n \<in> wakeCall ` A \<longleftrightarrow> QReturn n \<in> A"
    using * by (auto simp: image_iff) (metis *)+
qed

lemma sleep_worker:
  assumes "sleep_ok s" "waits_ok s" "returns_ok s" "contents_ok s"
  shows "sleep_ok (pipeWorkerStep throws s) \<and> waits_ok (pipeWorkerStep throws s) \<and> returns_ok (pipeWorkerStep throws s)"
proof (cases "pq_worker s")
  case PLook
  then show ?thesis using assms
    by (cases "pq_immediate s"; cases "pq_scheduled s")
      (auto simp: pipeWorkerStep_def scheduledProcessingLoop_def pipe_defs sleep_ok_def waits_ok_def returns_ok_def blocked_ok_def contents_ok_def
        split: if_splits)
qed (use assms in \<open>auto simp: pipeWorkerStep_def recordProcessingFailure_def notifyEmpty_def pipe_defs sleep_ok_def waits_ok_def returns_ok_def blocked_ok_def\<close>)

lemma set_toPipeCall: "set (pq_calls (toPipeCall k pc s)) \<subseteq> insert pc (set (pq_calls s))"
  by (simp add: pipe_defs set_update_subset_insert)

lemma keep_shutNotify:
  "QShutNotify \<in> set cs \<Longrightarrow> cs ! k \<noteq> QShutNotify \<Longrightarrow> QShutNotify \<in> set (cs[k := pc])"
  by (metis in_set_conv_nth length_list_update nth_list_update_neq)

text \<open>A call moves to another place and nothing else changes.\<close>

lemma calls_move:
  assumes ok: "sleep_ok s" "waits_ok s" "returns_ok s" and k: "pq_calls s ! k \<noteq> QShutNotify"
    and pc: "\<And>n. pc = QBlocked n \<Longrightarrow> blocked_ok s n" "\<And>n. pc = QReturn n \<Longrightarrow> n \<le> pq_count s \<or> pq_shutdown s"
  shows "sleep_ok (toPipeCall k pc s) \<and> waits_ok (toPipeCall k pc s) \<and> returns_ok (toPipeCall k pc s)"
proof (intro conjI)
  note keep = keep_shutNotify [OF _ k, of pc]
  show "sleep_ok (toPipeCall k pc s)"
    using ok(1) keep by (auto simp: sleep_ok_def pipe_defs split: worker_pc.splits option.splits)
  show "waits_ok (toPipeCall k pc s)"
    unfolding waits_ok_def
  proof (intro allI impI)
    fix n
    assume "QBlocked n \<in> set (pq_calls (toPipeCall k pc s))"
    then have "QBlocked n = pc \<or> QBlocked n \<in> set (pq_calls s)" using set_toPipeCall by fastforce
    then have "blocked_ok s n" using ok(2) pc(1) by (auto simp: waits_ok_def)
    then show "blocked_ok (toPipeCall k pc s) n" by (rule blocked_keep) (use keep in \<open>simp_all add: pipe_defs\<close>)
  qed
  show "returns_ok (toPipeCall k pc s)"
    unfolding returns_ok_def
  proof (intro allI impI)
    fix n
    assume "QReturn n \<in> set (pq_calls (toPipeCall k pc s))"
    then have "QReturn n = pc \<or> QReturn n \<in> set (pq_calls s)" using set_toPipeCall by fastforce
    then show "n \<le> pq_count (toPipeCall k pc s) \<or> pq_shutdown (toPipeCall k pc s)"
      using ok(3) pc(2) by (auto simp: returns_ok_def pipe_defs)
  qed
qed

lemma testEmpty_pc:
  "testEmpty n s = QBlocked m \<Longrightarrow> blocked_ok s m" "testEmpty n s = QReturn m \<Longrightarrow> m \<le> pq_count s \<or> pq_shutdown s"
  by (auto simp: testEmpty_def blocked_ok_def split: if_splits)

lemma notifyWork_ok:
  "waits_ok s \<Longrightarrow> returns_ok s \<Longrightarrow> sleep_ok (notifyWork s) \<and> waits_ok (notifyWork s) \<and> returns_ok (notifyWork s)"
  by (auto simp: sleep_ok_def waits_ok_def returns_ok_def blocked_ok_def notifyWork_worker split: worker_pc.split)

lemma write_ok:
  assumes "waits_ok s" "returns_ok s"
  shows "writePipe x s = Some s' \<Longrightarrow> sleep_ok s' \<and> waits_ok s' \<and> returns_ok s' \<and> pq_calls s' = pq_calls s"
    and "writeAt d x s = Some s' \<Longrightarrow> sleep_ok s' \<and> waits_ok s' \<and> returns_ok s' \<and> pq_calls s' = pq_calls s"
proof -
  define upd where "upd a b c e = s\<lparr>pq_immediate := a, pq_scheduled := b, pq_submitted := c, pq_accepted := e\<rparr>" for a b c e
  have n: "sleep_ok (notifyWork (upd a b c e)) \<and> waits_ok (notifyWork (upd a b c e)) \<and> returns_ok (notifyWork (upd a b c e))" for a b c e
    by (rule notifyWork_ok) (use assms in \<open>simp_all add: upd_def waits_ok_def returns_ok_def blocked_ok_def\<close>)
  show "writePipe x s = Some s' \<Longrightarrow> sleep_ok s' \<and> waits_ok s' \<and> returns_ok s' \<and> pq_calls s' = pq_calls s"
    using n [of "pq_immediate s @ [x]" "pq_scheduled s" "pq_submitted s + 1" "pq_accepted s @ [Now x]"]
    by (auto simp: writePipe_def upd_def split: if_splits)
  show "writeAt d x s = Some s' \<Longrightarrow> sleep_ok s' \<and> waits_ok s' \<and> returns_ok s' \<and> pq_calls s' = pq_calls s"
    using n [of "pq_immediate s" "scheduleAt d x (pq_scheduled s)" "pq_submitted s + 1" "pq_accepted s @ [At d x]"]
    by (auto simp: writeAt_def upd_def split: if_splits)
qed

lemma shutdown_ok:
  assumes ok: "sleep_ok s" "waits_ok s" "returns_ok s" and k: "k < length (pq_calls s)" and pc: "pq_calls s ! k = QShutdown"
  shows "sleep_ok (shutdownPipe k s) \<and> waits_ok (shutdownPipe k s) \<and> returns_ok (shutdownPipe k s)"
proof (cases "pq_shutdown s")
  case True
  then show ?thesis using calls_move [OF ok, of k QDone] pc by (simp add: shutdownPipe_def)
next
  case False
  let ?s = "toPipeCall k QShutNotify (s\<lparr>pq_shutdown := True\<rparr>)"
  have e: "shutdownPipe k s = ?s" using pc False by (simp add: shutdownPipe_def)
  have n: "QShutNotify \<in> set (pq_calls ?s)" using k by (simp add: pipe_defs set_update_memI)
  have b: "QBlocked m \<in> set (pq_calls ?s) \<Longrightarrow> QBlocked m \<in> set (pq_calls s)" for m
    using set_toPipeCall [of k QShutNotify "s\<lparr>pq_shutdown := True\<rparr>"] by auto
  have "sleep_ok ?s" using ok(1) n by (auto simp: sleep_ok_def pipe_defs split: worker_pc.splits option.splits)
  moreover have "waits_ok ?s"
    unfolding waits_ok_def
  proof (intro allI impI)
    fix m
    assume "QBlocked m \<in> set (pq_calls ?s)"
    then have "blocked_ok s m" using b ok(2) by (simp add: waits_ok_def)
    then show "blocked_ok ?s m" using n by (simp add: blocked_ok_def pipe_defs)
  qed
  moreover have "returns_ok ?s" by (simp add: returns_ok_def pipe_defs)
  ultimately show ?thesis unfolding e by blast
qed

lemma shutNotify_ok:
  assumes ok: "sleep_ok s" "waits_ok s" "returns_ok s" and pc: "pq_calls s ! k = QShutNotify"
  shows "sleep_ok (shutdownPipe k s) \<and> waits_ok (shutdownPipe k s) \<and> returns_ok (shutdownPipe k s)"
proof -
  let ?s = "toPipeCall k QJoin (notifyEmpty (notifyWork s))"
  have e: "shutdownPipe k s = ?s" using pc by (simp add: shutdownPipe_def)
  have sub: "set (pq_calls ?s) \<subseteq> insert QJoin (wakeCall ` set (pq_calls s))"
    using set_toPipeCall [of k QJoin "notifyEmpty (notifyWork s)"] by (simp add: notifyEmpty_def)
  have "sleep_ok ?s" using notifyWork_worker(5) [of s] by (auto simp: sleep_ok_def pipe_defs notifyEmpty_def split: worker_pc.split)
  moreover have "QBlocked n \<notin> set (pq_calls ?s)" for n using sub wake_blocked(1) by blast
  then have "waits_ok ?s" by (simp add: waits_ok_def)
  moreover have "returns_ok ?s"
    unfolding returns_ok_def
  proof (intro allI impI)
    fix n
    assume "QReturn n \<in> set (pq_calls ?s)"
    then have "QReturn n \<in> wakeCall ` set (pq_calls s)" using sub by blast
    then have "QReturn n \<in> set (pq_calls s)" by simp
    then show "n \<le> pq_count ?s \<or> pq_shutdown ?s" using ok(3) by (simp add: returns_ok_def pipe_defs notifyEmpty_def)
  qed
  ultimately show ?thesis unfolding e by blast
qed

lemma sleep_client:
  assumes ok: "sleep_ok s" "waits_ok s" "returns_ok s" and k: "k < length (pq_calls s)"
  shows "sleep_ok (pipeCallStep k s) \<and> waits_ok (pipeCallStep k s) \<and> returns_ok (pipeCallStep k s)"
proof (cases "pq_calls s ! k")
  case (QWrite x)
  show ?thesis
  proof (cases "writePipe x s")
    case None
    then show ?thesis using calls_move [OF ok, of k QRefused] QWrite by (simp add: pipeCallStep_def)
  next
    case (Some s')
    then show ?thesis using calls_move [of s' k QDone] write_ok(1) [OF ok(2,3) Some] QWrite by (simp add: pipeCallStep_def)
  qed
next
  case (QWriteAt d x)
  show ?thesis
  proof (cases "writeAt d x s")
    case None
    then show ?thesis using calls_move [OF ok, of k QRefused] QWriteAt by (simp add: pipeCallStep_def)
  next
    case (Some s')
    then show ?thesis using calls_move [of s' k QDone] write_ok(2) [OF ok(2,3) Some] QWriteAt by (simp add: pipeCallStep_def)
  qed
next
  case QWait
  then show ?thesis using calls_move [OF ok, of k "testEmpty (pq_submitted s) s"] testEmpty_pc
    by (simp add: pipeCallStep_def waitForEmpty_def)
next
  case (QBlocked n)
  then show ?thesis using calls_move [OF ok, of k "QRetest n"] by (simp add: pipeCallStep_def waitForEmpty_def)
next
  case (QRetest n)
  then show ?thesis using calls_move [OF ok, of k "testEmpty n s"] testEmpty_pc
    by (simp add: pipeCallStep_def waitForEmpty_def)
next
  case QShutdown
  then show ?thesis using shutdown_ok [OF ok k] by (simp add: pipeCallStep_def)
next
  case QShutNotify
  then show ?thesis using shutNotify_ok [OF ok] by (simp add: pipeCallStep_def)
next
  case QJoin
  then show ?thesis using ok calls_move [OF ok, of k QDone] by (simp add: pipeCallStep_def shutdownPipe_def)
qed (use ok in \<open>simp_all add: pipeCallStep_def\<close>)

lemma sleep_new:
  assumes ok: "sleep_ok s" "waits_ok s" "returns_ok s"
  shows "sleep_ok (newPipeCall c s) \<and> waits_ok (newPipeCall c s) \<and> returns_ok (newPipeCall c s)"
proof (intro conjI)
  have calls: "set (pq_calls (newPipeCall c s)) = insert (firstPc c) (set (pq_calls s))" by (simp add: newPipeCall_def)
  have first: "firstPc c \<noteq> QBlocked n" "firstPc c \<noteq> QReturn n" for n by (cases c; simp)+
  have same: "pq_worker (newPipeCall c s) = pq_worker s" "pq_immediate (newPipeCall c s) = pq_immediate s"
    "pq_scheduled (newPipeCall c s) = pq_scheduled s" "pq_shutdown (newPipeCall c s) = pq_shutdown s"
    "pq_count (newPipeCall c s) = pq_count s" "pq_failed (newPipeCall c s) = pq_failed s"
    by (simp_all add: newPipeCall_def)
  show "sleep_ok (newPipeCall c s)"
    using ok(1) unfolding sleep_ok_def same calls by (simp split: worker_pc.splits option.splits)
  show "waits_ok (newPipeCall c s)"
    using ok(2) first(1) unfolding waits_ok_def blocked_ok_def same calls by (metis insert_iff)
  show "returns_ok (newPipeCall c s)"
    using ok(3) first(2) unfolding returns_ok_def same calls by (metis insert_iff)
qed

lemma pipe_ok_step: "pipe_step s t \<Longrightarrow> pipe_ok s \<Longrightarrow> pipe_ok t"
proof (induction rule: pipe_step.induct)
  case (pipe_work s throws)
  then show ?case using sleep_worker [of s throws] contents_worker [of s throws] by (simp add: pipe_ok_def)
next
  case (pipe_client k s)
  then show ?case using sleep_client [of s k] contents_client [of s k] by (simp add: pipe_ok_def)
next
  case (pipe_new s c)
  have "contents_ok (newPipeCall c s)" by (rule contents_keep [of s]) (use pipe_new in \<open>simp_all add: pipe_ok_def newPipeCall_def\<close>)
  then show ?case using sleep_new [of s c] pipe_new by (simp add: pipe_ok_def)
next
  case (pipe_time s n)
  have "contents_ok (s\<lparr>pq_now := pq_now s + int n\<rparr>)" by (rule contents_keep [of s]) (use pipe_time in \<open>simp_all add: pipe_ok_def\<close>)
  moreover have "sleep_ok (s\<lparr>pq_now := pq_now s + int n\<rparr>) = sleep_ok s"
    by (simp add: sleep_ok_def split: worker_pc.split option.split)
  ultimately show ?case using pipe_time by (simp add: pipe_ok_def waits_ok_def returns_ok_def blocked_ok_def)
qed

lemma pipe_ok_init: "pipe_init s \<Longrightarrow> pipe_ok s"
  by (simp add: pipe_init_def newPipe_def pipe_ok_def contents_ok_def sleep_ok_def waits_ok_def returns_ok_def)

interpretation pipes: invariant_system pipe_init pipe_step pipe_ok
  by unfold_locales (auto intro: pipe_ok_init pipe_ok_step)

section \<open>What the pipe guarantees\<close>

text \<open>
  C38: nothing is lost, run twice or run early: the immediate items are taken in the order in which they were
  written, the scheduled items that were taken and those that wait are together the scheduled items that were
  written, none is taken before its deadline, the waiting ones are ordered by deadline, and the counters agree.
\<close>

theorem pipe_contents:
  assumes "reachable pipe_init pipe_step s"
  shows "nows (pq_accepted s) = nows (map snd (pq_picked s)) @ pq_immediate s \<and>
    mset (ats (pq_accepted s)) = mset (ats (map snd (pq_picked s))) + mset (pq_scheduled s) \<and>
    sorted (map fst (pq_scheduled s)) \<and> (\<forall>(t, e) \<in> set (pq_picked s). due t e) \<and>
    pq_submitted s = length (pq_accepted s) \<and> pq_count s \<le> length (pq_picked s) \<and>
    length (pq_picked s) \<le> pq_count s + 1"
proof -
  have c: "contents_ok s" using pipes.reachable_inv [OF assms] by (simp add: pipe_ok_def)
  have *: "pq_count s + of_bool (inHand (pq_worker s) \<or> pq_failed s) = length (pq_picked s)"
    using c unfolding contents_ok_def by blast
  have "pq_count s \<le> length (pq_picked s)" "length (pq_picked s) \<le> pq_count s + 1"
    unfolding * [symmetric] by simp_all
  with c show ?thesis by (simp add: contents_ok_def sorted_map)
qed

definition pipeDemo :: "pipe_action list" where
  "pipeDemo = [ANew (CallWriteAt 5 7), ADoCall 0, ANew (CallWrite 8), ADoCall 1, ADoWork False, ADoWork False,
     ADoWork False, ADoWork False]"

lemma pipe_do_step: "pipe_step\<^sup>*\<^sup>* s (pipeDo a s)"
  by (cases a) (auto intro: pipe_step.intros)

lemma pipe_run_reachable: "reachable pipe_init pipe_step s \<Longrightarrow> reachable pipe_init pipe_step (fold pipeDo as s)"
proof (induction as arbitrary: s)
  case (Cons a as)
  have "reachable pipe_init pipe_step t" if "pipe_step\<^sup>*\<^sup>* s t" for t
    using that Cons.prems by (induction rule: rtranclp_induct) (auto intro: reach_step)
  then show ?case using Cons.IH pipe_do_step by simp
qed simp

lemma pipe_demo_reachable: "reachable pipe_init pipe_step (fold pipeDo as newPipe)"
  by (rule pipe_run_reachable) (simp add: reach_init pipe_init_def)

lemma pipe_contents_witness:
  "\<exists>s :: pipe. map snd (pq_picked s) = [Now 8] \<and> pq_scheduled s = [(5, 7)] \<and> pq_count s = 1 \<and> sorted (map fst (pq_scheduled s))"
proof -
  let ?s = "fold pipeDo pipeDemo newPipe"
  have "map snd (pq_picked ?s) = [Now 8]" "pq_scheduled ?s = [(5, 7)]" "pq_count ?s = 1" by code_simp+
  moreover have "sorted (map fst (pq_scheduled ?s))" using pipe_contents [OF pipe_demo_reachable [of pipeDemo]] by (elim conjE)
  ultimately show ?thesis by - (rule exI [of _ ?s], intro conjI)
qed

text \<open>
  C39: no wake-up is lost.  The worker sleeps without a deadline only while nothing waits and no shutdown is
  complete, and with a deadline only until the first scheduled item is due and no immediate item waits; a call
  of \<open>waitForEmpty\<close> sleeps only while its count is not reached, nothing failed and no shutdown began, or
  the thread that made this true has still to notify it; and when it returns, its count was reached or the pipe shuts down.
\<close>

theorem pipe_no_lost_wakeup:
  assumes "reachable pipe_init pipe_step s"
  shows "(pq_worker s = PSleep None \<longrightarrow>
      pq_immediate s = [] \<and> pq_scheduled s = [] \<and> (\<not> pq_shutdown s \<or> QShutNotify \<in> set (pq_calls s))) \<and>
    (\<forall>d. pq_worker s = PSleep (Some d) \<longrightarrow> pq_immediate s = [] \<and> pq_scheduled s \<noteq> [] \<and> d = fst (hd (pq_scheduled s))) \<and>
    (\<forall>n. QBlocked n \<in> set (pq_calls s) \<longrightarrow>
      pq_count s < n \<and> \<not> pq_failed s \<and> \<not> pq_shutdown s \<or> pq_worker s \<in> {PNotify, PFailNotify} \<or> QShutNotify \<in> set (pq_calls s)) \<and>
    (\<forall>n. QReturn n \<in> set (pq_calls s) \<longrightarrow> n \<le> pq_count s \<or> pq_shutdown s)"
proof (intro conjI allI impI)
  have ok: "sleep_ok s" "waits_ok s" "returns_ok s" using pipes.reachable_inv [OF assms] by (simp_all add: pipe_ok_def)
  {
    assume "pq_worker s = PSleep None"
    then show "pq_immediate s = []" "pq_scheduled s = []" "\<not> pq_shutdown s \<or> QShutNotify \<in> set (pq_calls s)"
      using ok(1) by (auto simp: sleep_ok_def)
  }
  {
    fix d
    assume "pq_worker s = PSleep (Some d)"
    then show "pq_immediate s = []" "pq_scheduled s \<noteq> []" "d = fst (hd (pq_scheduled s))"
      using ok(1) by (auto simp: sleep_ok_def)
  }
  {
    fix n
    assume "QBlocked n \<in> set (pq_calls s)"
    then have "blocked_ok s n" using ok(2) by (simp add: waits_ok_def)
    then show "pq_count s < n \<and> \<not> pq_failed s \<and> \<not> pq_shutdown s \<or> pq_worker s \<in> {PNotify, PFailNotify} \<or> QShutNotify \<in> set (pq_calls s)"
      unfolding blocked_ok_def by (cases "n \<le> pq_count s") auto
  }
  {
    fix n
    assume "QReturn n \<in> set (pq_calls s)"
    then show "n \<le> pq_count s \<or> pq_shutdown s" using ok(3) by (simp add: returns_ok_def)
  }
qed

lemma pipe_no_lost_wakeup_witness:
  "\<exists>s :: pipe. pq_worker s = PSleep (Some 5) \<and> pq_immediate s = [] \<and> QBlocked 2 \<in> set (pq_calls s) \<and> \<not> pq_shutdown s"
proof -
  let ?as = "pipeDemo @ [ADoWork False, ANew CallWaitForEmpty, ADoCall 2]"
  let ?s = "fold pipeDo ?as newPipe"
  have w: "pq_worker ?s = PSleep (Some 5)" by code_simp
  have "QBlocked 2 \<in> set (pq_calls ?s)" "\<not> pq_shutdown ?s" by code_simp+
  moreover have "pq_immediate ?s = []" using pipe_no_lost_wakeup [OF pipe_demo_reachable [of ?as]] w by blast
  ultimately show ?thesis using w by - (rule exI [of _ ?s], intro conjI)
qed

text \<open>
  C40: a shutdown drains the pipe.  When the worker has ended and no task threw, everything that was accepted
  was taken and run, the scheduled items at or after their deadline, and no call was left asleep by the worker.
\<close>

theorem pipe_shutdown_drains:
  assumes r: "reachable pipe_init pipe_step s" and w: "pq_worker s = PEnd" and f: "\<not> pq_failed s"
  shows "pq_shutdown s \<and> nows (map snd (pq_picked s)) = nows (pq_accepted s) \<and>
    mset (ats (map snd (pq_picked s))) = mset (ats (pq_accepted s)) \<and>
    (\<forall>(t, e) \<in> set (pq_picked s). due t e) \<and> pq_count s = pq_submitted s"
proof -
  have c: "contents_ok s" using pipes.reachable_inv [OF r] by (simp add: pipe_ok_def)
  have e: "pq_shutdown s" "pq_immediate s = []" "pq_scheduled s = []" using c w f by (simp_all add: contents_ok_def)
  have n: "nows (pq_accepted s) = nows (map snd (pq_picked s))"
    and m: "mset (ats (pq_accepted s)) = mset (ats (map snd (pq_picked s)))" using c e by (simp_all add: contents_ok_def)
  have "length (pq_accepted s) = length (map snd (pq_picked s))"
    using n mset_eq_length [OF m] length_entries by metis
  with c w f e n m show ?thesis by (simp add: contents_ok_def)
qed

lemma pipe_shutdown_drains_witness:
  "\<exists>s :: pipe. pq_worker s = PEnd \<and> pq_picked s = [(0, Now 8), (6, At 5 7)] \<and> pq_count s = pq_submitted s \<and> pq_shutdown s"
proof -
  let ?as = "pipeDemo @ [ADoWork False, ANew CallShutdownPipe, ADoCall 2, ATime 6, ADoCall 2, ADoWork False, ADoWork False,
     ADoWork False, ADoWork False, ADoWork False, ADoWork False]"
  let ?s = "fold pipeDo ?as newPipe"
  have w: "pq_worker ?s = PEnd" "\<not> pq_failed ?s" "pq_picked ?s = [(0, Now 8), (6, At 5 7)]" by code_simp+
  have "pq_count ?s = pq_submitted ?s" "pq_shutdown ?s"
    using pipe_shutdown_drains [OF pipe_demo_reachable [of ?as] w(1,2)] by blast+
  then show ?thesis using w by - (rule exI [of _ ?s], intro conjI)
qed

text \<open>
  \<open>waitForEmpty\<close> compares two counts, so it can return while a task that was scheduled before the call has
  not run: a later immediate task that overtakes it brings the count to the one that was noted.
\<close>

theorem wait_returns_early:
  "\<exists>s. reachable pipe_init pipe_step s \<and> pq_accepted s = [At 100 1, Now 2] \<and> pq_calls s ! 1 = QReturn 1 \<and>
    map snd (pq_picked s) = [Now 2] \<and> pq_scheduled s = [(100, 1)] \<and> \<not> pq_shutdown s \<and> \<not> pq_failed s"
proof -
  let ?as = "[ANew (CallWriteAt 100 1), ADoCall 0, ANew CallWaitForEmpty, ADoCall 1, ANew (CallWrite 2), ADoCall 2,
    ADoWork False, ADoWork False, ADoWork False, ADoWork False, ADoCall 1]"
  show ?thesis
    by (intro exI [of _ "fold pipeDo ?as newPipe"] conjI pipe_demo_reachable) code_simp+
qed

text \<open>The deadline of a delayed task fits the clock, or the call throws and accepts nothing.\<close>

theorem deadline_in_range:
  assumes "INT64_MIN \<le> pq_now s" "pq_now s \<le> INT64_MAX" "delay \<le> INT64_MAX"
  shows "(case addExecTaskAfter delay x s of
      Inl NegativeDelay \<Rightarrow> delay < 0
    | Inl DeadlineOverflow \<Rightarrow> pq_now s + delay > INT64_MAX
    | Inl PipeShutdown \<Rightarrow> pq_shutdown s
    | Inr s' \<Rightarrow> 0 \<le> delay \<and> INT64_MIN \<le> pq_now s + delay \<and> pq_now s + delay \<le> INT64_MAX \<and>
        pq_accepted s' = pq_accepted s @ [At (pq_now s + delay) x])"
  using assms by (auto simp: addExecTaskAfter_def nextDeadline_def writeAt_def split: option.split)

lemma deadline_in_range_witness:
  "(case addExecTaskAfter INT64_MAX 3 (newPipe\<lparr>pq_now := 1\<rparr>) of Inl DeadlineOverflow \<Rightarrow> 1 + INT64_MAX > INT64_MAX | _ \<Rightarrow> False)"
  using deadline_in_range [of "newPipe\<lparr>pq_now := 1\<rparr>" INT64_MAX 3]
  by (simp add: addExecTaskAfter_def nextDeadline_def)

end
