(* ===== verification/Spec2Isabelle.thy ===== *)
theory Spec2Isabelle
  imports IntervalBTreeProps DLockProps AncsFlowProps JsonRoundtrip DMesgNetOutbound
    PubSubProps DMesgContract LockFreeQueueProps MutexQueueProps
    RuntimeManagerDrain RuntimeStateLog DeviceMonitor AsyncPipeProps
begin

text \<open>
  A model of Dmn, a C++ library for asynchronous programs that exchange messages.  All paths below are
  relative to \<open>src/\<close>.

  The program.  At the bottom are data structures: the interval B-tree, the JSON values, two blocking
  queues and the pipe on top of a queue.  \<open>Dmn_Async\<close> runs tasks in the one thread of its pipe; publisher,
  message bus, job scheduler and runtime-managed states all post their work to such a context.  The message
  bus joins local writers and readers; the networked node joins the buses of several processes, of which one
  is the elected master; the range lock keeps a table over the interval keys and sends it as a protobuf
  message.  The clients of Bluetooth devices use the notification session (ANCS) over a GATT backend, and
  the graphical clients keep a selection of devices and a controller that monitors them.

  How the code is modelled.  A class is a \<open>record\<close>, a method a function from state to state, a thrown
  exception or failed assertion a value, and a 64-bit counter a \<open>64 word\<close> where its wrap-around can be
  reached.  Code that several threads run at once is a step relation: one step is one critical section of
  the mutex, one atomic operation, one call of a user callback or one notification, whatever the code does
  without giving another thread the chance to see a difference.  \<open>reachable\<close> of \<open>Dmn_Prelude\<close> is what the
  steps can lead to; every invariant is proved through the interface \<open>invariant_system\<close>, every
  simulation through \<open>forward_simulation\<close>.

  Theories and code.

  \<^item> \<open>Dmn_Prelude\<close>: machine integers, lists, reachability and the shared interfaces.
  \<^item> \<open>IntervalRange\<close>, \<open>IntervalNode\<close>, \<open>IntervalBTree\<close>: \<open>include/dmn-interval-btree.hpp\<close> and
    \<open>src/dmn-interval-btree.cpp\<close>; ranges and topology, then the nodes of degree two, then every public
    operation with the overlay states and their callbacks.  \<open>IntervalNodeShape\<close> shows that insertion and
    removal keep order, balance, fill and the cached maximum ends; \<open>IntervalBTreeInv\<close> lifts this to the
    tree; \<open>IntervalBTreeProps\<close> states it over the ordered list of entries: add inserts, remove erases the
    first match, the pruned searches are filters, and the callbacks are exactly the changes.
  \<^item> \<open>DLock\<close>, \<open>DLockProps\<close>: \<open>include/dmn-dlock.hpp\<close> with \<open>src/proto/dmn-dlock.proto\<close>; mutual
    exclusion, fencing tokens, release, the table message, destruction and its lost wake-up.
  \<^item> \<open>Utf8\<close>: the encodings of Unicode and the interface \<open>utf8_scanner\<close> that the two validators of the
    program provide.
  \<^item> \<open>Json\<close>, \<open>JsonUtf8\<close>, \<open>JsonProps\<close>, \<open>JsonRoundtrip\<close>: \<open>src/app/engine/dmn-json.cpp\<close>; the parser ends on
    every input, accepts only well-formed documents of bounded depth, and reads back what is printed.
  \<^item> \<open>BlockingQueue\<close>: the atomic first-in first-out queue that \<open>include/dmn-blockingqueue.hpp\<close> promises.
    \<open>LockFreeQueue\<close> (\<open>include/dmn-blockingqueue-lf.hpp\<close>) with \<open>LockFreeQueueInv\<close>, \<open>LockFreeQueueSim\<close>,
    \<open>LockFreeQueueProps\<close> refines it with one consumer, operation by atomic operation; \<open>MutexQueue\<close>
    (\<open>include/dmn-blockingqueue-mt.hpp\<close>) with \<open>MutexQueueInv\<close>, \<open>MutexQueueProps\<close> refines it with any
    number of threads, and no wake-up of single pops is lost.  Both use the tickets of
    \<open>include/dmn-inflight-guard.hpp\<close>.
  \<^item> \<open>AsyncPipe\<close>, \<open>AsyncPipeProps\<close>: \<open>Dmn_Pipe\<close> with scheduled writes (\<open>include/dmn-pipe.hpp\<close>) and
    the delays of \<open>Dmn_Async\<close> (\<open>include/dmn-async.hpp\<close>); contents and order, no item before its
    deadline, no lost wake-up, draining at shutdown, and a \<open>waitForEmpty\<close> that returns too early.
  \<^item> \<open>PubSub\<close>, \<open>PubSubProps\<close>: \<open>include/dmn-pub-sub.hpp\<close>; replay buffer, delivery, failure records.
  \<^item> \<open>DMesgPb\<close>, \<open>DMesg\<close>: the protobuf messages and the message bus (\<open>src/dmn-dmesg.cpp\<close>,
    \<open>include/dmn-dmesg.hpp\<close>).  \<open>DMesgInv\<close> and \<open>DMesgProps\<close> hold its invariant in every interleaving of
    the contexts of publisher and handlers, \<open>DMesgContract\<close> what clients rely on.
  \<^item> \<open>DMesgNet\<close>, \<open>DMesgNetProps\<close>, \<open>DMesgNetOutbound\<close>: \<open>src/dmn-dmesgnet.cpp\<close>; election by heartbeats
    with its refinement of a three-state automaton, and the order in which messages leave.
  \<^item> \<open>AncsParser\<close>, \<open>AncsParserProps\<close>: the bounded parsers of \<open>src/dmn-ancs-client.cpp\<close>; \<open>AncsClient\<close>,
    \<open>AncsClientProps\<close>, \<open>AncsFlowProps\<close>: its session with event worker, request worker and deadline.
  \<^item> \<open>RuntimeManager\<close>, \<open>RuntimeManagerProps\<close>, \<open>RuntimeManagerLive\<close>, \<open>RuntimeManagerDrain\<close>: the job
    scheduler (\<open>include/dmn-runtime.hpp\<close>, \<open>src/dmn-runtime.cpp\<close>, \<open>include/dmn-runtime-task.hpp\<close>);
    coroutines stacked by priority, no job forgotten, all jobs finished, and where this fails.
  \<^item> \<open>StateMachine\<close>: \<open>src/dmn-state.cpp\<close>.  \<open>RuntimeState\<close>, \<open>RuntimeStateProps\<close>, \<open>RuntimeStateLog\<close>:
    \<open>src/dmn-runtime-state.cpp\<close>; the outcome of a state is published once, a cancellation is answered,
    and a state that somebody works on is retained.
  \<^item> \<open>DeviceSelection\<close>, \<open>DeviceMonitor\<close>: \<open>src/app/gui/core/\<close>; selection and order of devices, the
    bounded store of events, the controller with its growing delays, the alerts.

  Bounds and fuel.  The recursive node operations take the height of the tree as fuel, which the invariant
  bounds, so they never run out.  The JSON parser takes \<open>2 * length + 1\<close>, which \<open>parser_terminates\<close> shows
  to be enough on every input.  \<open>freeRetiredNodeList\<close> takes the number of nodes ever allocated.  The
  statements about the job scheduler that count jobs assume \<open>room\<close>: fewer than \<open>2 ^ 64\<close> jobs wait.

  Assumptions.  Atomic operations are sequentially consistent; a freed address is not handed out again while
  somebody holds it; threads are not cancelled; allocation succeeds; items are copied and moved without an
  exception.  Jobs with the same due time run in the order in which they were added.  \<open>tolower\<close>
  and \<open>toupper\<close> are those of the C locale, and the case folding of GLib is a parameter.  Numbers are read and
  printed by a parameter that stands for \<open>strtod\<close> and \<open>snprintf\<close> (\<open>number_library\<close>).  The hooks of a state
  that announce its outcome do not throw, and the scheduler takes a job or throws.  The GATT backend,
  the application's handlers, filters and callbacks are parameters or logged.

  Not modelled.  The D-Bus stacks (\<open>src/dmn-dbus-*.cpp\<close>, \<open>src/dmn-dmesgnet-dbus.cpp\<close>), the BlueZ and
  GATT clients (\<open>src/dmn-bluez-*.cpp\<close>) and the ANCS monitor: marshalling and connection handling that is
  calls of libdbus and threads around them.  The frontend engine and its backends
  (\<open>src/app/engine/dmn-engine.cpp\<close> and the others) and the applications: option parsing, terminal and GTK
  output, the C interface and the Rust client.  Kafka, sockets and processes: wrappers of librdkafka, the
  socket and the pthread calls; \<open>Dmn_Timer\<close> and \<open>Dmn_Proc\<close> appear as the threads whose steps are
  modelled.  Of the pipe, the ordinary mode, which only forwards to the queue; of \<open>Dmn_Async\<close>, the handles
  and the conversion of durations; of the lock-free queue, the constructor from a list and the destructor;
  of the job scheduler, construction, the signal mask and the second timer.
\<close>

end
